(* ===== verification/Prelude.thy ===== *)
theory Prelude
  imports Main "HOL-Library.Char_ord" "HOL-Library.List_Lexorder" "HOL-Library.Product_Lexorder"
begin

text \<open>
  The language layer shared by every component: the exceptions the Python code raises as values of
  an error type, the sequencing of statements that may raise, and the operations of Python's
  \<^verbatim>\<open>str\<close> and \<^verbatim>\<open>int\<close> that the code uses.

  A Python \<^verbatim>\<open>str\<close> is a HOL string, one HOL character per code point; code points above U+00FF are
  not represented. Python integers are unbounded and are \<open>int\<close>. The exact texts of error messages
  are kept without the values formatted into them.
\<close>

named_theorems res_simps \<open>rewriting of statements that may raise\<close>
named_theorems str_simps \<open>rewriting of Python string operations\<close>

section \<open>Exceptions and sequencing\<close>

datatype py_error =
    AuthError int string
  | UnstableSpecAuthError int string string
  | SynapseError int string
  | EventSizeError string bool
  | LimitExceededError int
  | SlidingSyncUnknownPosition string
  | SignatureVerifyException
  | KeyError
  | IndexError
  | AttributeError
  | TypeError
  | ValueError
  | AssertionError
  | RuntimeError
  | ZeroDivisionError
  | NameError
  | NotRetryingDestination int int string
  | GenericException string

text \<open>The subclass relation of \<^verbatim>\<open>synapse.api.errors\<close>: both auth errors are \<^verbatim>\<open>AuthError\<close>, and every
  error of that module is a \<^verbatim>\<open>SynapseError\<close>.\<close>

fun is_auth_error :: "py_error \<Rightarrow> bool" where
  "is_auth_error (AuthError c m) = True"
| "is_auth_error (UnstableSpecAuthError c m e) = True"
| "is_auth_error _ = False"

fun is_synapse_error :: "py_error \<Rightarrow> bool" where
  "is_synapse_error (SynapseError c m) = True"
| "is_synapse_error (EventSizeError m u) = True"
| "is_synapse_error (LimitExceededError r) = True"
| "is_synapse_error (SlidingSyncUnknownPosition m) = True"
| "is_synapse_error e = is_auth_error e"

type_synonym 'a res = "py_error + 'a"

text \<open>Statement sequencing: the rest of the body runs only when the statement did not raise.\<close>

definition bindR :: "'a res \<Rightarrow> ('a \<Rightarrow> 'b res) \<Rightarrow> 'b res" where
  "bindR m f = (case m of Inl e \<Rightarrow> Inl e | Inr x \<Rightarrow> f x)"

text \<open>\<open>if b: raise e\<close>.\<close>

definition raise_if :: "bool \<Rightarrow> py_error \<Rightarrow> unit res" where
  "raise_if b e = (if b then Inl e else Inr ())"

text \<open>A \<^verbatim>\<open>for\<close> loop whose body may raise.\<close>

fun forR :: "('a \<Rightarrow> unit res) \<Rightarrow> 'a list \<Rightarrow> unit res" where
  "forR f [] = Inr ()"
| "forR f (x # xs) = bindR (f x) (\<lambda>_. forR f xs)"

fun mapR :: "('a \<Rightarrow> 'b res) \<Rightarrow> 'a list \<Rightarrow> 'b list res" where
  "mapR f [] = Inr []"
| "mapR f (x # xs) = bindR (f x) (\<lambda>y. bindR (mapR f xs) (\<lambda>ys. Inr (y # ys)))"

fun filterR :: "('a \<Rightarrow> bool res) \<Rightarrow> 'a list \<Rightarrow> 'a list res" where
  "filterR f [] = Inr []"
| "filterR f (x # xs) =
     bindR (f x) (\<lambda>b. bindR (filterR f xs) (\<lambda>ys. Inr (if b then x # ys else ys)))"

lemma bindR_Inl [simp, res_simps]: "bindR (Inl e) f = Inl e"
  by (simp add: bindR_def)

lemma bindR_Inr [simp, res_simps]: "bindR (Inr x) f = f x"
  by (simp add: bindR_def)

lemma bindR_eq_Inr [res_simps]: "bindR m f = Inr y \<longleftrightarrow> (\<exists>x. m = Inr x \<and> f x = Inr y)"
  by (cases m) simp_all

lemma bindR_eq_Inl: "bindR m f = Inl e \<longleftrightarrow> m = Inl e \<or> (\<exists>x. m = Inr x \<and> f x = Inl e)"
  by (cases m) simp_all

lemma bindR_cong [fundef_cong]:
  "m = n \<Longrightarrow> (\<And>x. n = Inr x \<Longrightarrow> f x = g x) \<Longrightarrow> bindR m f = bindR n g"
  by (cases n) simp_all

lemma raise_if_eq_Inr [simp, res_simps]: "raise_if b e = Inr u \<longleftrightarrow> \<not> b"
  by (simp add: raise_if_def)

lemma raise_if_eq_Inl [simp, res_simps]: "raise_if b e = Inl e' \<longleftrightarrow> b \<and> e' = e"
  by (auto simp: raise_if_def)

lemma raise_if_False [simp, res_simps]: "raise_if False e = Inr ()"
  by (simp add: raise_if_def)

lemma raise_if_True [simp, res_simps]: "raise_if True e = Inl e"
  by (simp add: raise_if_def)

lemma bindR_raise_if [res_simps]:
  "bindR (raise_if b e) f = (if b then Inl e else f ())"
  by (simp add: raise_if_def)

lemma forR_eq_Inr [res_simps]: "forR f xs = Inr u \<longleftrightarrow> (\<forall>x \<in> set xs. f x = Inr ())"
  by (induction xs) (auto simp: bindR_eq_Inr)

lemma forR_eq_InlD: "forR f xs = Inl e \<Longrightarrow> \<exists>x \<in> set xs. f x = Inl e"
  by (induction xs) (auto simp: bindR_eq_Inl)

lemma forR_cong [fundef_cong]:
  "xs = ys \<Longrightarrow> (\<And>x. x \<in> set ys \<Longrightarrow> f x = g x) \<Longrightarrow> forR f xs = forR g ys"
  by (induction ys arbitrary: xs) auto

lemma filterR_ok: "(\<And>x. x \<in> set xs \<Longrightarrow> f x = Inr (P x)) \<Longrightarrow> filterR f xs = Inr (filter P xs)"
  by (induction xs) auto

lemma mapR_cong [fundef_cong]:
  "xs = ys \<Longrightarrow> (\<And>x. x \<in> set ys \<Longrightarrow> f x = g x) \<Longrightarrow> mapR f xs = mapR g ys"
  by (induction ys arbitrary: xs) auto

lemma mapR_Inr_map: "(\<And>x. x \<in> set xs \<Longrightarrow> f x = Inr (g x)) \<Longrightarrow> mapR f xs = Inr (map g xs)"
  by (induction xs) auto

lemma mapR_map: "mapR f (map g xs) = mapR (\<lambda>x. f (g x)) xs"
  by (induction xs) simp_all

lemma mapR_total: "(\<And>x. x \<in> set xs \<Longrightarrow> \<exists>y. f x = Inr y) \<Longrightarrow> \<exists>ys. mapR f xs = Inr ys"
  by (induction xs) (fastforce simp: bindR_eq_Inr)+

lemma mapR_Inr_iff: "(\<exists>ys. mapR f xs = Inr ys) \<longleftrightarrow> (\<forall>x \<in> set xs. \<exists>y. f x = Inr y)"
  by (induction xs) (auto simp: bindR_eq_Inr)

lemma mapR_set: "mapR f xs = Inr ys \<Longrightarrow> set ys = {y. \<exists>x \<in> set xs. f x = Inr y}"
  by (induction xs arbitrary: ys) (auto simp: bindR_eq_Inr)

lemma set_map_filter: "set (List.map_filter f xs) = {y. \<exists>x \<in> set xs. f x = Some y}"
  by (induction xs) (auto simp: map_filter_simps split: option.splits)

lemma map_filter_total: "(\<And>x. x \<in> set xs \<Longrightarrow> f x = Some (g x)) \<Longrightarrow> List.map_filter f xs = map g xs"
  by (induction xs) (auto simp: map_filter_simps)

section \<open>Python strings\<close>

text \<open>\<^verbatim>\<open>s.split(c, 1)\<close> when it has two parts; \<open>None\<close> when \<open>c\<close> does not occur.\<close>

fun split1 :: "char \<Rightarrow> string \<Rightarrow> (string \<times> string) option" where
  "split1 c [] = None"
| "split1 c (x # xs) =
     (if x = c then Some ([], xs)
      else case split1 c xs of None \<Rightarrow> None | Some (a, b) \<Rightarrow> Some (x # a, b))"

text \<open>\<^verbatim>\<open>s.split(c)\<close>.\<close>

fun split_all :: "char \<Rightarrow> string \<Rightarrow> string list" where
  "split_all c [] = [[]]"
| "split_all c (x # xs) =
     (if x = c then [] # split_all c xs
      else case split_all c xs of [] \<Rightarrow> [[x]] | p # ps \<Rightarrow> (x # p) # ps)"

text \<open>\<^verbatim>\<open>s.rsplit(c, 1)\<close> when it has two parts.\<close>

definition rsplit1 :: "char \<Rightarrow> string \<Rightarrow> (string \<times> string) option" where
  "rsplit1 c s = (case split1 c (rev s) of None \<Rightarrow> None | Some (a, b) \<Rightarrow> Some (rev b, rev a))"

text \<open>\<^verbatim>\<open>c.join(parts)\<close> for a one-character separator.\<close>

fun join_str :: "char \<Rightarrow> string list \<Rightarrow> string" where
  "join_str c [] = []"
| "join_str c [p] = p"
| "join_str c (p # q # ps) = p @ c # join_str c (q # ps)"

text \<open>\<^verbatim>\<open>sep.join(parts)\<close>.\<close>

fun join_with :: "string \<Rightarrow> string list \<Rightarrow> string" where
  "join_with sep [] = []"
| "join_with sep [p] = p"
| "join_with sep (p # q # ps) = p @ sep @ join_with sep (q # ps)"

fun str_prefix :: "string \<Rightarrow> string \<Rightarrow> bool" where
  "str_prefix [] s = True"
| "str_prefix (x # xs) [] = False"
| "str_prefix (x # xs) (y # ys) = (x = y \<and> str_prefix xs ys)"

text \<open>\<^verbatim>\<open>p in s\<close> on strings: is \<open>p\<close> a substring.\<close>

fun str_substring :: "string \<Rightarrow> string \<Rightarrow> bool" where
  "str_substring p [] = (p = [])"
| "str_substring p (x # xs) = (str_prefix p (x # xs) \<or> str_substring p xs)"

text \<open>\<^verbatim>\<open>len(s.encode("utf-8"))\<close>: two bytes from U+0080 to U+00FF.\<close>

definition utf8_len :: "string \<Rightarrow> nat" where
  "utf8_len s = sum_list (map (\<lambda>c. if of_char c < (128 :: nat) then 1 else 2) s)"

lemma split1_Some: "split1 c s = Some (a, b) \<longleftrightarrow> s = a @ c # b \<and> c \<notin> set a"
proof (induction s arbitrary: a)
  case (Cons x xs)
  show ?case
  proof (cases "x = c")
    case False
    then have "split1 c (x # xs) = Some (a, b) \<longleftrightarrow> (\<exists>a'. split1 c xs = Some (a', b) \<and> a = x # a')"
      by (auto split: option.splits)
    then show ?thesis unfolding Cons.IH using False by (cases a) auto
  qed (auto simp: Cons_eq_append_conv)
qed simp

lemma split1_None: "split1 c s = None \<longleftrightarrow> c \<notin> set s"
  by (induction s) (auto split: option.splits)

lemma split1_append [simp, str_simps]: "c \<notin> set a \<Longrightarrow> split1 c (a @ c # b) = Some (a, b)"
  by (simp add: split1_Some)

lemma split_all_not_Nil [simp]: "split_all c s \<noteq> []"
  by (induction s) (auto split: list.splits)

lemma split_all_no_sep [str_simps]: "c \<notin> set s \<Longrightarrow> split_all c s = [s]"
  by (induction s) auto

lemma split_all_append [str_simps]:
  "c \<notin> set a \<Longrightarrow> split_all c (a @ c # b) = a # split_all c b"
  by (induction a) auto

lemma split_all_join_str:
  "ps \<noteq> [] \<Longrightarrow> \<forall>p \<in> set ps. c \<notin> set p \<Longrightarrow> split_all c (join_str c ps) = ps"
proof (induction c ps rule: join_str.induct)
  case (3 c p q ps)
  then show ?case by (simp add: split_all_append)
qed (simp_all add: split_all_no_sep)

lemma str_prefix_iff: "str_prefix p s \<longleftrightarrow> (\<exists>r. s = p @ r)"
  by (induction p s rule: str_prefix.induct) auto

lemma length_le_utf8_len: "length s \<le> utf8_len s"
  by (induction s) (auto simp: utf8_len_def)

section \<open>Python integers read from and written to strings\<close>

definition is_digit :: "char \<Rightarrow> bool" where
  "is_digit c \<longleftrightarrow> 48 \<le> (of_char c :: nat) \<and> (of_char c :: nat) \<le> 57"

definition digit_val :: "char \<Rightarrow> int" where
  "digit_val c = int (of_char c) - 48"

definition digit_char :: "nat \<Rightarrow> char" where
  "digit_char d = char_of (48 + d)"

text \<open>The white space \<^verbatim>\<open>int()\<close> strips, within U+0000 to U+00FF.\<close>

definition is_space :: "char \<Rightarrow> bool" where
  "is_space c \<longleftrightarrow> (of_char c :: nat) \<in> set [9, 10, 11, 12, 13, 28, 29, 30, 31, 32, 133, 160]"

definition py_strip :: "string \<Rightarrow> string" where
  "py_strip s = rev (dropWhile is_space (rev (dropWhile is_space s)))"

text \<open>The digits of an integer literal: single underscores may stand between two digits.\<close>

fun int_digits :: "int \<Rightarrow> bool \<Rightarrow> string \<Rightarrow> int option" where
  "int_digits acc ok [] = (if ok then Some acc else None)"
| "int_digits acc ok (c # cs) =
     (if is_digit c then int_digits (acc * 10 + digit_val c) True cs
      else if c = CHR ''_'' \<and> ok then int_digits acc False cs
      else None)"

text \<open>\<^verbatim>\<open>int(s)\<close> on a string: \<open>None\<close> where Python raises \<^verbatim>\<open>ValueError\<close>.\<close>

definition py_int_str :: "string \<Rightarrow> int option" where
  "py_int_str s =
     (case py_strip s of
        [] \<Rightarrow> None
      | c # cs \<Rightarrow>
          if c = CHR ''-'' then map_option uminus (int_digits 0 False cs)
          else if c = CHR ''+'' then int_digits 0 False cs
          else int_digits 0 False (c # cs))"

definition int_of_str :: "string \<Rightarrow> int res" where
  "int_of_str s = (case py_int_str s of None \<Rightarrow> Inl ValueError | Some i \<Rightarrow> Inr i)"

text \<open>\<^verbatim>\<open>str(n)\<close>.\<close>

fun show_nat :: "nat \<Rightarrow> string" where
  "show_nat n = (if n < 10 then [digit_char n] else show_nat (n div 10) @ [digit_char (n mod 10)])"

declare show_nat.simps [simp del]

definition show_int :: "int \<Rightarrow> string" where
  "show_int i = (if i < 0 then CHR ''-'' # show_nat (nat (- i)) else show_nat (nat i))"

lemma digit_char_props:
  assumes "d < 10"
  shows "is_digit (digit_char d)" "digit_val (digit_char d) = int d"
  using assms by (simp_all add: is_digit_def digit_char_def digit_val_def)

lemma is_digit_not_space: "is_digit c \<Longrightarrow> \<not> is_space c"
  by (auto simp: is_digit_def is_space_def)

lemma show_nat_digits: "\<forall>c \<in> set (show_nat n). is_digit c"
proof (induction n rule: show_nat.induct)
  case (1 n)
  then show ?case
    by (subst show_nat.simps) (auto simp: digit_char_props)
qed

lemma show_nat_not_Nil [simp]: "show_nat n \<noteq> []"
  by (subst show_nat.simps) simp

lemma int_digits_append:
  "(\<forall>c \<in> set xs. is_digit c) \<Longrightarrow> xs \<noteq> [] \<Longrightarrow>
   int_digits acc ok (xs @ ys) = int_digits (the (int_digits acc ok xs)) True ys"
proof (induction xs arbitrary: acc ok)
  case Nil
  then show ?case by simp
next
  case (Cons x xs)
  then show ?case by (cases "xs = []") auto
qed

lemma int_digits_show_nat: "int_digits 0 ok (show_nat n) = Some (int n)"
proof (induction n arbitrary: ok rule: show_nat.induct)
  case (1 n)
  show ?case
  proof (cases "n < 10")
    case True
    then show ?thesis by (simp add: show_nat.simps [of n] digit_char_props)
  next
    case False
    have "int_digits 0 ok (show_nat (n div 10) @ [digit_char (n mod 10)]) =
        int_digits (the (int_digits 0 ok (show_nat (n div 10)))) True [digit_char (n mod 10)]"
      by (rule int_digits_append) (simp_all add: show_nat_digits)
    also have "\<dots> = Some (int (n div 10) * 10 + int (n mod 10))"
      using 1 False by (simp add: digit_char_props)
    also have "int (n div 10) * 10 + int (n mod 10) = int n"
      by (simp flip: of_nat_mult of_nat_add add: of_nat_div of_nat_mod)
    finally show ?thesis using False by (simp add: show_nat.simps [of n])
  qed
qed

lemma py_strip_no_space:
  "s \<noteq> [] \<Longrightarrow> \<not> is_space (hd s) \<Longrightarrow> \<not> is_space (last s) \<Longrightarrow> py_strip s = s"
proof -
  assume s: "s \<noteq> []" and h: "\<not> is_space (hd s)" and l: "\<not> is_space (last s)"
  from s h have "dropWhile is_space s = s" by (cases s) auto
  moreover from s l have "dropWhile is_space (rev s) = rev s" by (cases s rule: rev_cases) auto
  ultimately show ?thesis by (simp add: py_strip_def)
qed

lemma show_int_chars: "c \<in> set (show_int i) \<Longrightarrow> is_digit c \<or> c = CHR ''-''"
  using show_nat_digits by (auto simp: show_int_def split: if_splits)

lemma show_int_not_Nil [simp]: "show_int i \<noteq> []"
  by (simp add: show_int_def)

lemma py_strip_show_int: "py_strip (show_int i) = show_int i"
proof (rule py_strip_no_space)
  have minus: "\<not> is_space (CHR ''-'')" by (simp add: is_space_def)
  show "\<not> is_space (hd (show_int i))" "\<not> is_space (last (show_int i))"
    using show_int_chars [of "hd (show_int i)" i] show_int_chars [of "last (show_int i)" i]
      is_digit_not_space minus
    by (auto simp del: show_int_not_Nil dest: is_digit_not_space
        simp: show_int_not_Nil [THEN hd_in_set] show_int_not_Nil [THEN last_in_set])
qed simp

lemma py_int_str_show_int [simp, str_simps]: "py_int_str (show_int i) = Some i"
proof (cases "i < 0")
  case True
  then have "show_int i = CHR ''-'' # show_nat (nat (- i))" by (simp add: show_int_def)
  then show ?thesis
    using True py_strip_show_int [of i] by (simp add: py_int_str_def int_digits_show_nat)
next
  case False
  then obtain c cs where c: "show_nat (nat i) = c # cs"
    by (cases "show_nat (nat i)") auto
  have "is_digit c" using show_nat_digits [of "nat i"] c by simp
  then have "c \<noteq> CHR ''-''" "c \<noteq> CHR ''+''" by (auto simp: is_digit_def)
  then show ?thesis
    using False c py_strip_show_int [of i] int_digits_show_nat [of False "nat i"]
    by (simp add: py_int_str_def show_int_def)
qed

lemma int_of_str_show_int [simp, str_simps]: "int_of_str (show_int i) = Inr i"
  by (simp add: int_of_str_def)

end
