(* ===== verification/Py_Values.thy ===== *)
theory Py_Values
  imports Complex_Main Prelude
begin

text \<open>
  The dynamically typed values of event contents: JSON as Python sees it after decoding, and the
  Python operations (\<^verbatim>\<open>==\<close>, \<^verbatim>\<open>in\<close>, \<^verbatim>\<open>x[k]\<close>, \<^verbatim>\<open>.get\<close>, \<^verbatim>\<open>.items()\<close>, \<^verbatim>\<open>list()\<close>, \<^verbatim>\<open>set()\<close>, \<^verbatim>\<open>int()\<close>,
  truthiness) that the event rules apply to values whose shape the sender of the event chose, with
  the exception each of them raises on a value of the wrong shape. A finite float is the rational
  number it stands for.
\<close>

datatype json =
    JNull
  | JBool bool
  | JInt int
  | JFloat rat
  | JStr string
  | JList "json list"
  | JObj "(string \<times> json) list"

type_synonym jobj = "(string \<times> json) list"

text \<open>Numbers compare across \<^verbatim>\<open>bool\<close>, \<^verbatim>\<open>int\<close> and \<^verbatim>\<open>float\<close>.\<close>

fun py_num :: "json \<Rightarrow> rat option" where
  "py_num (JBool b) = Some (if b then 1 else 0)"
| "py_num (JInt i) = Some (of_int i)"
| "py_num (JFloat r) = Some r"
| "py_num _ = None"

text \<open>\<^verbatim>\<open>==\<close>. Objects are equal when they have the same keys with equal values.\<close>

function py_eq :: "json \<Rightarrow> json \<Rightarrow> bool" where
  "py_eq a b =
     (case (a, b) of
        (JNull, JNull) \<Rightarrow> True
      | (JStr s, JStr t) \<Rightarrow> s = t
      | (JList xs, JList ys) \<Rightarrow>
          length xs = length ys \<and> list_all (\<lambda>(x, y). py_eq x y) (zip xs ys)
      | (JObj xs, JObj ys) \<Rightarrow>
          length xs = length ys \<and>
          list_all (\<lambda>(k, x). list_ex (\<lambda>(k', y). k' = k \<and> py_eq x y) ys) xs
      | _ \<Rightarrow> (case (py_num a, py_num b) of (Some p, Some q) \<Rightarrow> p = q | _ \<Rightarrow> False))"
  by pat_completeness auto
termination
proof (relation "measure (\<lambda>(a, b). size a)", goal_cases)
  case 1
  then show ?case by simp
next
  case (2 a b x y xs ys z p q)
  then have "p \<in> set xs" by (auto dest: set_zip_leftD)
  with 2 show ?case by (auto dest: size_list_estimation' [OF _ order_refl] simp: less_Suc_eq_le)
next
  case (3 a b x y xs ys z k v w k' v')
  then have "size v < Suc (size_list (size_prod (\<lambda>_. 0) size) xs)"
    by (auto intro!: le_imp_less_Suc size_list_estimation' simp: size_prod_def)
  with 3 show ?case by auto
qed

declare py_eq.simps [simp del]

lemma py_eq_JStr [simp]: "py_eq v (JStr s) \<longleftrightarrow> v = JStr s"
  by (cases v) (auto simp: py_eq.simps)

lemma py_eq_JStr_left [simp]: "py_eq (JStr s) v \<longleftrightarrow> v = JStr s"
  by (cases v) (auto simp: py_eq.simps)

text \<open>Comparison of a decoded value with a string constant: \<^verbatim>\<open>v == "join"\<close>.\<close>

abbreviation eq_str :: "json \<Rightarrow> string \<Rightarrow> bool" where
  "eq_str v s \<equiv> v = JStr s"

text \<open>Truthiness: \<^verbatim>\<open>if v:\<close>.\<close>

fun py_truthy :: "json \<Rightarrow> bool" where
  "py_truthy JNull = False"
| "py_truthy (JBool b) = b"
| "py_truthy (JInt i) = (i \<noteq> 0)"
| "py_truthy (JFloat r) = (r \<noteq> 0)"
| "py_truthy (JStr s) = (s \<noteq> [])"
| "py_truthy (JList xs) = (xs \<noteq> [])"
| "py_truthy (JObj o') = (o' \<noteq> [])"

text \<open>\<^verbatim>\<open>int(v)\<close>.\<close>

fun py_int :: "json \<Rightarrow> int res" where
  "py_int (JInt i) = Inr i"
| "py_int (JBool b) = Inr (if b then 1 else 0)"
| "py_int (JFloat r) = Inr (if r < 0 then \<lceil>r\<rceil> else \<lfloor>r\<rfloor>)"
| "py_int (JStr s) = int_of_str s"
| "py_int _ = Inl TypeError"

text \<open>Iteration, as \<^verbatim>\<open>list(v)\<close> or \<^verbatim>\<open>for x in v\<close> do it.\<close>

fun py_iter :: "json \<Rightarrow> json list res" where
  "py_iter (JList xs) = Inr xs"
| "py_iter (JStr s) = Inr (map (\<lambda>c. JStr [c]) s)"
| "py_iter (JObj kvs) = Inr (map (JStr \<circ> fst) kvs)"
| "py_iter _ = Inl TypeError"

fun hashable :: "json \<Rightarrow> bool" where
  "hashable (JList _) = False"
| "hashable (JObj _) = False"
| "hashable _ = True"

fun dedup_eq :: "json list \<Rightarrow> json list" where
  "dedup_eq [] = []"
| "dedup_eq (x # xs) = x # filter (\<lambda>y. \<not> py_eq x y) (dedup_eq xs)"

text \<open>\<^verbatim>\<open>set(xs)\<close>: the distinct elements, the first of each class of equal ones kept.\<close>

definition py_set :: "json list \<Rightarrow> json list res" where
  "py_set xs = (if list_all hashable xs then Inr (dedup_eq xs) else Inl TypeError)"

text \<open>\<^verbatim>\<open>v.items()\<close> and \<^verbatim>\<open>v.get\<close>, which only objects have.\<close>

fun py_items :: "json \<Rightarrow> jobj res" where
  "py_items (JObj kvs) = Inr kvs"
| "py_items _ = Inl AttributeError"

fun py_get :: "json \<Rightarrow> string \<Rightarrow> json option res" where
  "py_get (JObj kvs) k = Inr (map_of kvs k)"
| "py_get _ k = Inl AttributeError"

text \<open>\<^verbatim>\<open>x in v\<close>.\<close>

fun py_in :: "json \<Rightarrow> json \<Rightarrow> bool res" where
  "py_in x (JObj kvs) =
     (case x of JStr s \<Rightarrow> Inr (map_of kvs s \<noteq> None)
      | _ \<Rightarrow> if hashable x then Inr False else Inl TypeError)"
| "py_in x (JList xs) = Inr (list_ex (py_eq x) xs)"
| "py_in x (JStr t) = (case x of JStr s \<Rightarrow> Inr (str_substring s t) | _ \<Rightarrow> Inl TypeError)"
| "py_in x _ = Inl TypeError"

text \<open>The position a sequence index denotes: negative indices count from the end.\<close>

definition py_index :: "int \<Rightarrow> 'a list \<Rightarrow> 'a res" where
  "py_index i xs =
     (if i \<in> {0..<int (length xs)} then Inr (xs ! nat i)
      else if i \<in> {- int (length xs)..<0} then Inr (rev xs ! nat (- i - 1))
      else Inl IndexError)"

fun py_index_val :: "json \<Rightarrow> int res" where
  "py_index_val (JInt i) = Inr i"
| "py_index_val (JBool b) = Inr (if b then 1 else 0)"
| "py_index_val _ = Inl TypeError"

text \<open>\<^verbatim>\<open>v[x]\<close>.\<close>

fun py_getitem :: "json \<Rightarrow> json \<Rightarrow> json res" where
  "py_getitem (JObj kvs) x =
     (case x of
        JStr s \<Rightarrow> (case map_of kvs s of None \<Rightarrow> Inl KeyError | Some v \<Rightarrow> Inr v)
      | _ \<Rightarrow> if hashable x then Inl KeyError else Inl TypeError)"
| "py_getitem (JList xs) x = bindR (py_index_val x) (\<lambda>i. py_index i xs)"
| "py_getitem (JStr s) x = bindR (py_index_val x) (\<lambda>i. bindR (py_index i s) (\<lambda>c. Inr (JStr [c])))"
| "py_getitem _ x = Inl TypeError"

text \<open>\<^verbatim>\<open>content.get(k, default)\<close> and \<^verbatim>\<open>content[k]\<close> on an event's content, which is always an object.\<close>

definition get_default :: "jobj \<Rightarrow> string \<Rightarrow> json \<Rightarrow> json" where
  "get_default c k d = (case map_of c k of None \<Rightarrow> d | Some v \<Rightarrow> v)"

definition get_item :: "jobj \<Rightarrow> string \<Rightarrow> json res" where
  "get_item c k = (case map_of c k of None \<Rightarrow> Inl KeyError | Some v \<Rightarrow> Inr v)"

text \<open>\<^verbatim>\<open>type(v) is int\<close>, \<^verbatim>\<open>isinstance(v, Mapping)\<close>.\<close>

fun is_jint :: "json \<Rightarrow> bool" where
  "is_jint (JInt _) = True"
| "is_jint _ = False"

fun is_jobj :: "json \<Rightarrow> bool" where
  "is_jobj (JObj _) = True"
| "is_jobj _ = False"

fun obj_values :: "json \<Rightarrow> json list" where
  "obj_values (JObj kvs) = map snd kvs"
| "obj_values _ = []"

lemma get_item_eq_Inr [simp]: "get_item c k = Inr v \<longleftrightarrow> map_of c k = Some v"
  by (simp add: get_item_def split: option.splits)

lemma dedup_eq_JStr_in: "JStr s \<in> set (dedup_eq xs) \<longleftrightarrow> JStr s \<in> set xs"
  by (induction xs) auto

lemma dedup_eq_subset: "set (dedup_eq xs) \<subseteq> set xs"
  by (induction xs) auto

lemma py_set_JStr_in: "py_set xs = Inr ys \<Longrightarrow> JStr s \<in> set ys \<longleftrightarrow> JStr s \<in> set xs"
  by (auto simp: py_set_def dedup_eq_JStr_in split: if_splits)

lemma py_set_keys: "py_set (map (JStr \<circ> f) xs) = Inr (dedup_eq (map (JStr \<circ> f) xs))"
  by (simp add: py_set_def list_all_iff)

text \<open>\<^verbatim>\<open>int(x)\<close> of a number.\<close>

definition trunc :: "rat \<Rightarrow> int" where
  "trunc x = (if 0 \<le> x then \<lfloor>x\<rfloor> else \<lceil>x\<rceil>)"

lemma trunc_mono: "x \<le> y \<Longrightarrow> trunc x \<le> trunc y"
  by (auto simp: trunc_def floor_mono ceiling_mono)
    (metis ceiling_le_zero le_floor_iff not_le of_int_0 order.trans less_imp_le)

end
