(* ===== verification/Ids.thy ===== *)
theory Ids
  imports Prelude
begin

text \<open>
  Matrix identifiers, from \<^verbatim>\<open>synapse/types/__init__.py\<close> (domains and localparts of identifiers, the
  sigil classes \<^verbatim>\<open>UserID\<close>, \<^verbatim>\<open>RoomAlias\<close>, \<^verbatim>\<open>RoomIdWithDomain\<close>, \<^verbatim>\<open>RoomID\<close>, \<^verbatim>\<open>EventID\<close>, the checks on
  localparts and the mapping of user names to localparts) and the server-name parser of
  \<^verbatim>\<open>synapse/util/stringutils.py\<close>. The predicate \<^verbatim>\<open>netaddr.valid_ipv6\<close> is the parameter \<open>valid_ipv6\<close>.
\<close>

section \<open>Server names\<close>

text \<open>\<^verbatim>\<open>parse_server_name\<close>: every exception of the body becomes a \<^verbatim>\<open>ValueError\<close>.\<close>

definition parse_server_name :: "string \<Rightarrow> (string \<times> int option) res" where
  "parse_server_name server_name =
     (if server_name \<noteq> [] \<and> last server_name = CHR '']'' then Inr (server_name, None)
      else case rsplit1 CHR '':'' server_name of
          None \<Rightarrow> Inr (server_name, None)
        | Some (domain, port) \<Rightarrow>
            (case int_of_str port of Inl e \<Rightarrow> Inl ValueError | Inr p \<Rightarrow> Inr (domain, Some p)))"

definition ascii_lower :: "char \<Rightarrow> bool" where
  "ascii_lower c \<longleftrightarrow> 97 \<le> (of_char c :: nat) \<and> (of_char c :: nat) \<le> 122"

definition ascii_upper :: "char \<Rightarrow> bool" where
  "ascii_upper c \<longleftrightarrow> 65 \<le> (of_char c :: nat) \<and> (of_char c :: nat) \<le> 90"

definition host_char :: "char \<Rightarrow> bool" where
  "host_char c \<longleftrightarrow> is_digit c \<or> ascii_lower c \<or> ascii_upper c \<or> c = CHR ''-''"

text \<open>\<^verbatim>\<open>VALID_HOST_REGEX\<close>: non-empty runs of host characters separated by single dots.\<close>

definition valid_host :: "string \<Rightarrow> bool" where
  "valid_host h \<longleftrightarrow> list_all (\<lambda>p. p \<noteq> [] \<and> list_all host_char p) (split_all CHR ''.'' h)"

definition parse_and_validate_server_name ::
  "(string \<Rightarrow> bool) \<Rightarrow> string \<Rightarrow> (string \<times> int option) res" where
  "parse_and_validate_server_name valid_ipv6 server_name =
     bindR (parse_server_name server_name) (\<lambda>(host, port).
       if host \<noteq> [] \<and> hd host = CHR ''['' then
         (if last host \<noteq> CHR '']'' then Inl ValueError
          else let ipv6_address = butlast (tl host)
            in if ipv6_address = [] \<or> \<not> valid_ipv6 ipv6_address then Inl ValueError
               else Inr (host, port))
       else if \<not> valid_host host then Inl ValueError
       else Inr (host, port))"

section \<open>Domain and localpart of an identifier\<close>

definition get_domain_from_id :: "string \<Rightarrow> string res" where
  "get_domain_from_id s =
     (case split1 CHR '':'' s of
        None \<Rightarrow> Inl (SynapseError 400 ''Invalid ID'')
      | Some (a, b) \<Rightarrow> Inr b)"

definition get_localpart_from_id :: "string \<Rightarrow> string res" where
  "get_localpart_from_id s =
     (case split1 CHR '':'' s of
        None \<Rightarrow> Inl (SynapseError 400 ''Invalid ID'')
      | Some (a, b) \<Rightarrow> Inr (drop 1 a))"

section \<open>Identifiers with a sigil\<close>

record domain_specific_string =
  ds_localpart :: string
  ds_domain :: string

text \<open>The sigils of \<^verbatim>\<open>UserID\<close>, \<^verbatim>\<open>RoomAlias\<close>, \<^verbatim>\<open>RoomIdWithDomain\<close> and \<^verbatim>\<open>EventID\<close>.\<close>

abbreviation user_sigil :: char where "user_sigil \<equiv> CHR ''@''"
abbreviation alias_sigil :: char where "alias_sigil \<equiv> CHR ''#''"
abbreviation room_sigil :: char where "room_sigil \<equiv> CHR ''!''"
abbreviation event_sigil :: char where "event_sigil \<equiv> CHR ''$''"

definition ds_from_string :: "char \<Rightarrow> string \<Rightarrow> domain_specific_string res" where
  "ds_from_string sigil s =
     (if s = [] \<or> hd s \<noteq> sigil
      then Inl (SynapseError 400 ''Expected string to start with the sigil'')
      else case split1 CHR '':'' (tl s) of
          None \<Rightarrow> Inl (SynapseError 400 ''Expected string of the form localname:domain'')
        | Some (l, d) \<Rightarrow> Inr \<lparr>ds_localpart = l, ds_domain = d\<rparr>)"

definition ds_to_string :: "char \<Rightarrow> domain_specific_string \<Rightarrow> string" where
  "ds_to_string sigil d = sigil # ds_localpart d @ CHR '':'' # ds_domain d"

text \<open>\<^verbatim>\<open>except (SynapseError, ValueError): return False\<close>; no other exception can arise here.\<close>

definition ds_is_valid :: "(string \<Rightarrow> bool) \<Rightarrow> char \<Rightarrow> string \<Rightarrow> bool" where
  "ds_is_valid valid_ipv6 sigil s =
     (case bindR (ds_from_string sigil s)
             (\<lambda>d. parse_and_validate_server_name valid_ipv6 (ds_domain d)) of
        Inl e \<Rightarrow> False
      | Inr _ \<Rightarrow> True)"

section \<open>Localparts\<close>

definition mxid_allowed :: "char \<Rightarrow> bool" where
  "mxid_allowed c \<longleftrightarrow> c \<in> set ''_-./=+'' \<or> ascii_lower c \<or> is_digit c"

definition contains_invalid_mxid_characters :: "string \<Rightarrow> bool" where
  "contains_invalid_mxid_characters l \<longleftrightarrow> list_ex (\<lambda>c. \<not> mxid_allowed c) l"

definition is_compliant_user_id_localpart :: "string \<Rightarrow> bool" where
  "is_compliant_user_id_localpart l \<longleftrightarrow>
     (if l = [] then False
      else list_all (\<lambda>c. 0x21 \<le> (of_char c :: nat) \<and> (of_char c :: nat) \<le> 0x7E) l)"

text \<open>\<^verbatim>\<open>partition\<close> returns the whole string when there is no colon.\<close>

definition is_compliant_user_id :: "string \<Rightarrow> bool" where
  "is_compliant_user_id user_id =
     (if user_id = [] \<or> hd user_id \<noteq> user_sigil then False
      else is_compliant_user_id_localpart
        (case split1 CHR '':'' (tl user_id) of None \<Rightarrow> tl user_id | Some (l, _) \<Rightarrow> l))"

definition user_is_valid_strict :: "(string \<Rightarrow> bool) \<Rightarrow> string \<Rightarrow> bool" where
  "user_is_valid_strict valid_ipv6 s =
     (if utf8_len s > 255 then False
      else case ds_from_string user_sigil s of
          Inl e \<Rightarrow> False
        | Inr d \<Rightarrow>
            if \<not> is_compliant_user_id_localpart (ds_localpart d) then False
            else (case parse_and_validate_server_name valid_ipv6 (ds_domain d) of
                    Inl e \<Rightarrow> False | Inr _ \<Rightarrow> True))"

text \<open>
  \<^verbatim>\<open>map_username_to_mxid_localpart\<close> on bytes. \<^verbatim>\<open>str\<close> input is first encoded as UTF-8.
\<close>

definition utf8_encode :: "string \<Rightarrow> string" where
  "utf8_encode s = concat (map (\<lambda>c. if of_char c < (128 :: nat) then [c]
     else [char_of (192 + of_char c div 64 :: nat), char_of (128 + of_char c mod 64 :: nat)]) s)"

definition lower_char :: "char \<Rightarrow> char" where
  "lower_char c = (if ascii_upper c then char_of (of_char c + 32 :: nat) else c)"

definition hex_digit :: "nat \<Rightarrow> char" where
  "hex_digit d = (if d < 10 then char_of (48 + d) else char_of (87 + d))"

text \<open>\<^verbatim>\<open>f1\<close>: an upper-case letter or underscore becomes an underscore and its lower case.\<close>

definition escape_upper :: "char \<Rightarrow> string" where
  "escape_upper c = (if ascii_upper c \<or> c = CHR ''_'' then [CHR ''_'', lower_char c] else [c])"

text \<open>\<^verbatim>\<open>f2\<close>: \<^verbatim>\<open>=\<close> and the bytes outside the allowed set become \<^verbatim>\<open>=%02x\<close>.\<close>

definition escape_hex :: "char \<Rightarrow> string" where
  "escape_hex c =
     (if mxid_allowed c \<and> c \<noteq> CHR ''='' then [c]
      else [CHR ''='', hex_digit (of_char c div 16), hex_digit (of_char c mod 16)])"

definition map_username_to_mxid_localpart :: "string \<Rightarrow> bool \<Rightarrow> string" where
  "map_username_to_mxid_localpart username case_sensitive =
     (let u1 = (if case_sensitive then concat (map escape_upper username)
                else map lower_char username);
          u2 = concat (map escape_hex u1)
      in if u2 \<noteq> [] \<and> hd u2 = CHR ''_'' then ''=5f'' @ tl u2 else u2)"

section \<open>Room identifiers\<close>

record room_id_t =
  rid_id :: string
  rid_with_domain :: "domain_specific_string option"

definition base64url_char :: "char \<Rightarrow> bool" where
  "base64url_char c \<longleftrightarrow>
     ascii_lower c \<or> ascii_upper c \<or> is_digit c \<or> c = CHR ''-'' \<or> c = CHR ''_''"

text \<open>\<^verbatim>\<open>ROOM_ID_PATTERN_DOMAINLESS\<close>: Python's \<^verbatim>\<open>$\<close> also matches before a final newline.\<close>

definition room_id_pattern_domainless :: "string \<Rightarrow> bool" where
  "room_id_pattern_domainless v \<longleftrightarrow>
     (length v = 43 \<and> list_all base64url_char v) \<or>
     (length v = 44 \<and> last v = char_of (10 :: nat) \<and> list_all base64url_char (butlast v))"

definition room_from_string :: "string \<Rightarrow> room_id_t res" where
  "room_from_string s =
     (if s = [] \<or> hd s \<noteq> room_sigil
      then Inl (SynapseError 400 ''Expected string to start with the sigil'')
      else if CHR '':'' \<in> set s then
        bindR (ds_from_string room_sigil s) (\<lambda>d. Inr \<lparr>rid_id = s, rid_with_domain = Some d\<rparr>)
      else if \<not> room_id_pattern_domainless (tl s)
      then Inl (SynapseError 400 ''Expected string to be valid urlsafe unpadded base64'')
      else Inr \<lparr>rid_id = s, rid_with_domain = None\<rparr>)"

definition room_to_string :: "room_id_t \<Rightarrow> string" where
  "room_to_string r =
     (case rid_with_domain r of Some d \<Rightarrow> ds_to_string room_sigil d | None \<Rightarrow> rid_id r)"

definition room_get_domain :: "room_id_t \<Rightarrow> string option" where
  "room_get_domain r = map_option ds_domain (rid_with_domain r)"

definition room_is_valid :: "(string \<Rightarrow> bool) \<Rightarrow> string \<Rightarrow> bool" where
  "room_is_valid valid_ipv6 s =
     (if CHR '':'' \<in> set s then ds_is_valid valid_ipv6 room_sigil s
      else case room_from_string s of Inl e \<Rightarrow> False | Inr _ \<Rightarrow> True)"

section \<open>Properties\<close>

lemma ds_from_string_eq_Inr:
  "ds_from_string sigil s = Inr d \<longleftrightarrow> s = ds_to_string sigil d \<and> CHR '':'' \<notin> set (ds_localpart d)"
proof
  assume "ds_from_string sigil s = Inr d"
  then show "s = ds_to_string sigil d \<and> CHR '':'' \<notin> set (ds_localpart d)"
    by (cases s) (auto simp: ds_from_string_def ds_to_string_def split1_Some
        split: if_splits option.splits)
next
  assume "s = ds_to_string sigil d \<and> CHR '':'' \<notin> set (ds_localpart d)"
  then show "ds_from_string sigil s = Inr d"
    by (simp add: ds_from_string_def ds_to_string_def)
qed

lemma ds_from_string_errors:
  "ds_from_string sigil s = Inl e \<Longrightarrow> is_synapse_error e"
  by (auto simp: ds_from_string_def split: if_splits option.splits)

lemma parse_and_validate_errors:
  "parse_and_validate_server_name v s = Inl e \<Longrightarrow> e = ValueError"
  by (auto simp: parse_and_validate_server_name_def bindR_eq_Inl parse_server_name_def Let_def
      split: if_splits option.splits sum.splits prod.splits)

lemma get_domain_of_ds:
  "sigil \<noteq> CHR '':'' \<Longrightarrow> ds_from_string sigil s = Inr d \<Longrightarrow>
   get_domain_from_id s = Inr (ds_domain d) \<and> get_localpart_from_id s = Inr (ds_localpart d)"
  by (auto simp: ds_from_string_eq_Inr ds_to_string_def get_domain_from_id_def
      get_localpart_from_id_def)

lemma get_domain_ok_iff: "(\<exists>d. get_domain_from_id s = Inr d) \<longleftrightarrow> CHR '':'' \<in> set s"
  using split1_None [of "CHR '':''" s]
  by (cases "split1 CHR '':'' s") (auto simp: get_domain_from_id_def)

subsection \<open>Mapping user names\<close>

lemma prefix_code_inj:
  assumes ne: "\<And>c. enc c \<noteq> []"
    and pre: "\<And>a b r r'. enc a @ r = enc b @ r' \<Longrightarrow> a = b"
  shows "concat (map enc xs) = concat (map enc ys) \<Longrightarrow> xs = ys"
proof (induction xs arbitrary: ys)
  case Nil
  then show ?case using ne by (cases ys) auto
next
  case (Cons x xs)
  then obtain y ys' where ys: "ys = y # ys'" using ne [of x] by (cases ys) auto
  with Cons.prems have eq: "enc x @ concat (map enc xs) = enc y @ concat (map enc ys')" by simp
  then have "x = y" by (rule pre)
  with eq Cons.IH ys show ?case by simp
qed

lemma hex_digit_inj: "i < 16 \<Longrightarrow> j < 16 \<Longrightarrow> hex_digit i = hex_digit j \<Longrightarrow> i = j"
  unfolding hex_digit_def
  by (auto split: if_splits dest!: arg_cong [where f = "of_char :: char \<Rightarrow> nat"])

lemma hex_digit_allowed: "i < 16 \<Longrightarrow> mxid_allowed (hex_digit i)"
  by (auto simp: hex_digit_def mxid_allowed_def is_digit_def ascii_lower_def)

lemma escape_hex_allowed: "x \<in> set (escape_hex c) \<Longrightarrow> mxid_allowed x"
proof -
  have "mxid_allowed (CHR ''='')" by (simp add: mxid_allowed_def)
  moreover have "of_char c div 16 < (16 :: nat)" using nat_of_char_less_256 [of c] by (simp add: div_less_iff_less_mult)
  ultimately show "x \<in> set (escape_hex c) \<Longrightarrow> mxid_allowed x"
    by (auto simp: escape_hex_def hex_digit_allowed split: if_splits)
qed

lemma escape_hex_prefix_code: "escape_hex a @ r = escape_hex b @ r' \<Longrightarrow> a = b"
proof -
  assume h: "escape_hex a @ r = escape_hex b @ r'"
  have lt: "of_char c div 16 < (16 :: nat)" "of_char c mod 16 < (16 :: nat)" for c :: char
    using nat_of_char_less_256 [of c] by (simp_all add: div_less_iff_less_mult)
  show "a = b"
  proof (cases "(mxid_allowed a \<and> a \<noteq> CHR ''='') \<or> (mxid_allowed b \<and> b \<noteq> CHR ''='')")
    case True
    with h show ?thesis by (auto simp: escape_hex_def split: if_splits)
  next
    case False
    with h have "hex_digit (of_char a div 16) = hex_digit (of_char b div 16)"
      "hex_digit (of_char a mod 16) = hex_digit (of_char b mod 16)"
      by (auto simp: escape_hex_def)
    then have "of_char a div 16 = (of_char b div 16 :: nat)" "of_char a mod 16 = (of_char b mod 16 :: nat)"
      using lt hex_digit_inj by blast+
    then have "of_char a = (of_char b :: nat)" by (metis div_mult_mod_eq)
    then show ?thesis by simp
  qed
qed

lemma lower_char_inj_upper:
  "ascii_upper a \<or> a = CHR ''_'' \<Longrightarrow> ascii_upper b \<or> b = CHR ''_'' \<Longrightarrow>
   lower_char a = lower_char b \<Longrightarrow> a = b"
  unfolding lower_char_def ascii_upper_def
  by (auto split: if_splits dest!: arg_cong [where f = "of_char :: char \<Rightarrow> nat"])

lemma escape_upper_prefix_code: "escape_upper a @ r = escape_upper b @ r' \<Longrightarrow> a = b"
  by (auto simp: escape_upper_def split: if_splits intro: lower_char_inj_upper)

lemma escape_hex_not_5f:
  assumes "concat (map escape_hex xs) = ''=5f'' @ r"
  shows False
proof (cases xs)
  case Nil
  with assms show ?thesis by simp
next
  case (Cons x ys)
  let ?n = "of_char x :: nat"
  from assms Cons have h: "hex_digit (?n div 16) = CHR ''5''" "hex_digit (?n mod 16) = CHR ''f''"
    and na: "\<not> (mxid_allowed x \<and> x \<noteq> CHR ''='')"
    by (auto simp: escape_hex_def split: if_splits)
  have "hex_digit 5 = CHR ''5''" "hex_digit 15 = CHR ''f''"
    by (simp_all add: hex_digit_def of_char_eq_iff [symmetric, where 'a = nat] del: of_char_eq_iff)
  then have "?n div 16 = 5" "?n mod 16 = 15"
    using h hex_digit_inj [of "?n div 16" 5] hex_digit_inj [of "?n mod 16" 15] nat_of_char_less_256 [of x]
    by (simp_all add: div_less_iff_less_mult)
  then have "?n = 5 * 16 + 15" by (metis div_mult_mod_eq)
  then have "?n = of_char (CHR ''_'')" by simp
  then have "x = CHR ''_''" by (rule of_char_eqI)
  with na show ?thesis by (simp add: mxid_allowed_def)
qed

lemma undo_leading_underscore:
  assumes eq: "(if a \<noteq> [] \<and> hd a = CHR ''_'' then ''=5f'' @ tl a else a) =
      (if b \<noteq> [] \<and> hd b = CHR ''_'' then ''=5f'' @ tl b else b)"
    and a: "\<And>r. a \<noteq> ''=5f'' @ r" and b: "\<And>r. b \<noteq> ''=5f'' @ r"
  shows "a = b"
  using eq a [of "tl b"] b [of "tl a"] by (cases a; cases b) (auto split: if_splits)

lemma map_username_eq:
  "map_username_to_mxid_localpart u cs = map_username_to_mxid_localpart v cs \<longleftrightarrow>
   (if cs then u = v else map lower_char u = map lower_char v)"
proof -
  define pre where "pre u = (if cs then concat (map escape_upper u) else map lower_char u)" for u
  have hex: "concat (map escape_hex xs) = concat (map escape_hex ys) \<Longrightarrow> xs = ys" for xs ys
    by (rule prefix_code_inj [where enc = escape_hex])
      (auto simp: escape_hex_def intro: escape_hex_prefix_code split: if_splits)
  have up: "concat (map escape_upper xs) = concat (map escape_upper ys) \<Longrightarrow> xs = ys" for xs ys
    by (rule prefix_code_inj [where enc = escape_upper])
      (auto simp: escape_upper_def intro: escape_upper_prefix_code split: if_splits)
  have "map_username_to_mxid_localpart u cs = map_username_to_mxid_localpart v cs \<longleftrightarrow> pre u = pre v"
  proof
    assume "map_username_to_mxid_localpart u cs = map_username_to_mxid_localpart v cs"
    then have "concat (map escape_hex (pre u)) = concat (map escape_hex (pre v))"
      unfolding map_username_to_mxid_localpart_def Let_def pre_def [symmetric]
      by (rule undo_leading_underscore) (use escape_hex_not_5f in blast)+
    then show "pre u = pre v" by (rule hex)
  qed (simp add: map_username_to_mxid_localpart_def pre_def [symmetric])
  with up show ?thesis by (auto simp: pre_def)
qed

text \<open>The mapping of user names to localparts. The result holds only characters allowed in a
  localpart and never starts with an underscore, and two user names get the same localpart exactly
  when they are equal (case sensitive) or equal up to the case of ASCII letters (case insensitive).\<close>

lemma map_username_to_mxid_localpart_correct:
  "\<not> contains_invalid_mxid_characters (map_username_to_mxid_localpart u cs) \<and>
   take 1 (map_username_to_mxid_localpart u cs) \<noteq> ''_'' \<and>
   (map_username_to_mxid_localpart u cs = map_username_to_mxid_localpart v cs \<longleftrightarrow>
      (if cs then u = v else map lower_char u = map lower_char v))"
proof -
  have enc: "\<forall>c \<in> set (concat (map escape_hex xs)). mxid_allowed c" for xs
    using escape_hex_allowed by auto
  have lit: "\<forall>c \<in> set ''=5f''. mxid_allowed c"
    by (simp add: mxid_allowed_def is_digit_def ascii_lower_def)
  have sub: "set (if l \<noteq> [] \<and> hd l = CHR ''_'' then ''=5f'' @ tl l else l) \<subseteq> set ''=5f'' \<union> set l"
    for l :: string by (cases l) auto
  have all: "\<forall>c \<in> set (map_username_to_mxid_localpart u cs). mxid_allowed c"
    unfolding map_username_to_mxid_localpart_def Let_def using enc lit sub by blast
  moreover have "take 1 l \<noteq> ''_''" if "l = [] \<or> hd l \<noteq> CHR ''_''" for l :: string
    using that by (cases l) auto
  then have "take 1 (map_username_to_mxid_localpart u cs) \<noteq> ''_''"
    by (auto simp: map_username_to_mxid_localpart_def Let_def)
  ultimately show ?thesis
    by (simp add: contains_invalid_mxid_characters_def list_ex_iff map_username_eq)
qed

end
