(* ===== verification/Events.thy ===== *)
theory Events
  imports Py_Values Ids
begin

text \<open>
  Room versions (\<^verbatim>\<open>rust/src/room_versions.rs\<close>, the table that \<^verbatim>\<open>synapse/api/room_versions.py\<close>
  re-exports), the constants of \<^verbatim>\<open>synapse/api/constants.py\<close> the rules use, and events as the Python
  code sees them: the attributes of the \<^verbatim>\<open>Event\<close> class of \<^verbatim>\<open>rust/src/events/mod.rs\<close>, with the exception
  an accessor raises where the field is absent.
\<close>

section \<open>Room versions\<close>

datatype event_format_version = ROOM_V1_V2 | ROOM_V3 | ROOM_V4_PLUS | ROOM_V11_HYDRA_PLUS | ROOM_VMSC4242

datatype state_resolution_version = SR_V1 | SR_V2 | SR_V2_1

record room_version =
  rv_identifier :: string
  rv_event_format :: event_format_version
  rv_state_res :: state_resolution_version
  rv_special_case_aliases_auth :: bool
  rv_limit_notifications_power_levels :: bool
  rv_implicit_room_creator :: bool
  rv_restricted_join_rule :: bool
  rv_knock_join_rule :: bool
  rv_knock_restricted_join_rule :: bool
  rv_enforce_int_power_levels :: bool
  rv_msc3757_enabled :: bool
  rv_msc4289_creator_power_enabled :: bool
  rv_msc4291_room_ids_as_hashes :: bool
  rv_strict_event_byte_limits :: bool
  rv_msc4242_state_dags :: bool

definition RV_V1 :: room_version where
  "RV_V1 = \<lparr>rv_identifier = ''1'', rv_event_format = ROOM_V1_V2, rv_state_res = SR_V1,
     rv_special_case_aliases_auth = True, rv_limit_notifications_power_levels = False,
     rv_implicit_room_creator = False, rv_restricted_join_rule = False, rv_knock_join_rule = False,
     rv_knock_restricted_join_rule = False, rv_enforce_int_power_levels = False,
     rv_msc3757_enabled = False, rv_msc4289_creator_power_enabled = False,
     rv_msc4291_room_ids_as_hashes = False, rv_strict_event_byte_limits = False,
     rv_msc4242_state_dags = False\<rparr>"

definition RV_V2 :: room_version where
  "RV_V2 = RV_V1\<lparr>rv_identifier := ''2'', rv_state_res := SR_V2\<rparr>"

definition RV_V3 :: room_version where
  "RV_V3 = RV_V2\<lparr>rv_identifier := ''3'', rv_event_format := ROOM_V3\<rparr>"

definition RV_V4 :: room_version where
  "RV_V4 = RV_V3\<lparr>rv_identifier := ''4'', rv_event_format := ROOM_V4_PLUS\<rparr>"

definition RV_V5 :: room_version where
  "RV_V5 = RV_V4\<lparr>rv_identifier := ''5''\<rparr>"

definition RV_V6 :: room_version where
  "RV_V6 = RV_V5\<lparr>rv_identifier := ''6'', rv_special_case_aliases_auth := False,
     rv_limit_notifications_power_levels := True\<rparr>"

definition RV_V7 :: room_version where
  "RV_V7 = RV_V6\<lparr>rv_identifier := ''7'', rv_knock_join_rule := True\<rparr>"

definition RV_V8 :: room_version where
  "RV_V8 = RV_V7\<lparr>rv_identifier := ''8'', rv_restricted_join_rule := True\<rparr>"

definition RV_V9 :: room_version where
  "RV_V9 = RV_V8\<lparr>rv_identifier := ''9''\<rparr>"

definition RV_V10 :: room_version where
  "RV_V10 = RV_V9\<lparr>rv_identifier := ''10'', rv_knock_restricted_join_rule := True,
     rv_enforce_int_power_levels := True\<rparr>"

definition RV_MSC3757V10 :: room_version where
  "RV_MSC3757V10 = RV_V10\<lparr>rv_identifier := ''org.matrix.msc3757.10'', rv_msc3757_enabled := True\<rparr>"

definition RV_V11 :: room_version where
  "RV_V11 = RV_V10\<lparr>rv_identifier := ''11'', rv_implicit_room_creator := True,
     rv_strict_event_byte_limits := True\<rparr>"

definition RV_V12 :: room_version where
  "RV_V12 = RV_V11\<lparr>rv_identifier := ''12'', rv_event_format := ROOM_V11_HYDRA_PLUS,
     rv_state_res := SR_V2_1, rv_msc4289_creator_power_enabled := True,
     rv_msc4291_room_ids_as_hashes := True\<rparr>"

definition RV_MSC4242V12 :: room_version where
  "RV_MSC4242V12 = RV_V12\<lparr>rv_identifier := ''org.matrix.msc4242.12'',
     rv_event_format := ROOM_VMSC4242, rv_msc4242_state_dags := True\<rparr>"

lemmas room_version_defs = RV_V1_def RV_V2_def RV_V3_def RV_V4_def RV_V5_def RV_V6_def RV_V7_def
  RV_V8_def RV_V9_def RV_V10_def RV_MSC3757V10_def RV_V11_def RV_V12_def RV_MSC4242V12_def

section \<open>Constants\<close>

abbreviation "ET_Member \<equiv> ''m.room.member''"
abbreviation "ET_Create \<equiv> ''m.room.create''"
abbreviation "ET_JoinRules \<equiv> ''m.room.join_rules''"
abbreviation "ET_PowerLevels \<equiv> ''m.room.power_levels''"
abbreviation "ET_Aliases \<equiv> ''m.room.aliases''"
abbreviation "ET_Redaction \<equiv> ''m.room.redaction''"
abbreviation "ET_ThirdPartyInvite \<equiv> ''m.room.third_party_invite''"

abbreviation "M_INVITE \<equiv> ''invite''"
abbreviation "M_JOIN \<equiv> ''join''"
abbreviation "M_KNOCK \<equiv> ''knock''"
abbreviation "M_LEAVE \<equiv> ''leave''"
abbreviation "M_BAN \<equiv> ''ban''"

abbreviation "JR_PUBLIC \<equiv> ''public''"
abbreviation "JR_KNOCK \<equiv> ''knock''"
abbreviation "JR_INVITE \<equiv> ''invite''"
abbreviation "JR_RESTRICTED \<equiv> ''restricted''"
abbreviation "JR_KNOCK_RESTRICTED \<equiv> ''knock_restricted''"

abbreviation "F_FEDERATE \<equiv> ''m.federate''"
abbreviation "F_ROOM_CREATOR \<equiv> ''creator''"
abbreviation "F_ADDITIONAL_CREATORS \<equiv> ''additional_creators''"
abbreviation "F_AUTHORISING_USER \<equiv> ''join_authorised_via_users_server''"

abbreviation "PARTIAL_STATE_AUTH_ERROR \<equiv> ''partial_state_auth_error''"

abbreviation "CREATOR_POWER_LEVEL \<equiv> (2 ^ 53 :: int)"
abbreviation "MAX_PDU_SIZE \<equiv> (65536 :: nat)"

type_synonym state_key = "string \<times> string"

section \<open>Events\<close>

text \<open>
  \<open>ev_room_id_in_event\<close> is \<^verbatim>\<open>"room_id" in event\<close>: from format V4 on a create event has no such field,
  although its \<^verbatim>\<open>room_id\<close> attribute is always set. \<open>ev_auth_event_ids\<close> is the list that
  \<^verbatim>\<open>auth_event_ids()\<close> returns. \<open>ev_recheck_redaction\<close> is the flag of \<^verbatim>\<open>internal_metadata\<close> that the
  redaction rule sets.
\<close>

record event =
  ev_event_id :: string
  ev_room_id :: string
  ev_room_id_in_event :: bool
  ev_type :: string
  ev_sender :: string
  ev_state_key :: "string option"
  ev_content :: jobj
  ev_origin_server_ts :: int
  ev_depth :: int
  ev_auth_event_ids :: "string list"
  ev_prev_event_ids :: "string list"
  ev_prev_state_events :: "string list"
  ev_signatures :: "string list"
  ev_redacts :: "json option"
  ev_rejected_reason :: "string option"
  ev_room_version :: room_version
  ev_recheck_redaction :: bool

type_synonym event_state = "state_key \<rightharpoonup> event"

text \<open>\<^verbatim>\<open>event.state_key\<close> raises \<^verbatim>\<open>AttributeError\<close> on an event that is not a state event, and
  \<^verbatim>\<open>event.membership\<close> raises \<^verbatim>\<open>KeyError\<close> where the content has no membership.\<close>

definition state_key_attr :: "event \<Rightarrow> string res" where
  "state_key_attr e = (case ev_state_key e of None \<Rightarrow> Inl AttributeError | Some k \<Rightarrow> Inr k)"

definition is_state :: "event \<Rightarrow> bool" where
  "is_state e \<longleftrightarrow> ev_state_key e \<noteq> None"

definition membership_attr :: "event \<Rightarrow> json res" where
  "membership_attr e = get_item (ev_content e) ''membership''"

definition supports_msc4242_state_dag :: "event \<Rightarrow> bool" where
  "supports_msc4242_state_dag e = rv_msc4242_state_dags (ev_room_version e)"

text \<open>\<^verbatim>\<open>synapse.events.is_creator\<close>.\<close>

definition is_creator :: "event \<Rightarrow> string \<Rightarrow> bool res" where
  "is_creator create user_id =
     bindR (raise_if (ev_type create \<noteq> ET_Create) AssertionError) (\<lambda>_.
       if ev_sender create = user_id then Inr True
       else if rv_msc4289_creator_power_enabled (ev_room_version create) then
         bindR (py_iter (get_default (ev_content create) F_ADDITIONAL_CREATORS (JList []))) (\<lambda>xs.
         bindR (py_set xs) (\<lambda>additional_creators. Inr (JStr user_id \<in> set additional_creators)))
       else Inr False)"

lemma state_key_attr_eq_Inr [simp]: "state_key_attr e = Inr k \<longleftrightarrow> ev_state_key e = Some k"
  by (simp add: state_key_attr_def split: option.splits)

lemma membership_attr_eq_Inr [simp]:
  "membership_attr e = Inr m \<longleftrightarrow> map_of (ev_content e) ''membership'' = Some m"
  by (simp add: membership_attr_def)

end
