(* ===== verification/Event_Auth.thy ===== *)
theory Event_Auth
  imports Events
begin

text \<open>
  The event authorisation rules of \<^verbatim>\<open>synapse/event_auth.py\<close>: the state-independent checks, the
  state-dependent checks against a room state, power levels, membership changes, redactions,
  third-party invites, size limits, and the selection of the state an event is authorised against.
  The externals (canonical JSON, signatures, IPv6 addresses, the room versions enabled at start-up)
  are the fields of \<open>ext\<close>.
\<close>

record ext =
  ext_valid_ipv6 :: "string \<Rightarrow> bool"
  ext_pdu_json_len :: "event \<Rightarrow> nat"
  ext_known_room_versions :: "string list"
  ext_verify_signed :: "json \<Rightarrow> string \<Rightarrow> string \<Rightarrow> json \<Rightarrow> unit res"

abbreviation CREATE_KEY :: state_key where
  "CREATE_KEY \<equiv> (ET_Create, '''')"

section \<open>Size limits and signatures\<close>

definition check_size_limits :: "ext \<Rightarrow> event \<Rightarrow> unit res" where
  "check_size_limits x event =
     (let strict_byte_limits = rv_strict_event_byte_limits (ev_room_version event);
          sk_len = (\<lambda>f. case ev_state_key event of None \<Rightarrow> 0 | Some k \<Rightarrow> f k)
      in
     bindR (raise_if (ext_pdu_json_len x event > MAX_PDU_SIZE)
              (EventSizeError ''event too large'' True)) (\<lambda>_.
     bindR (raise_if (length (ev_sender event) > 255)
              (EventSizeError ''sender too large'' True)) (\<lambda>_.
     bindR (raise_if (length (ev_room_id event) > 255)
              (EventSizeError ''room_id too large'' True)) (\<lambda>_.
     bindR (raise_if (is_state event \<and> sk_len length > 255)
              (EventSizeError ''state_key too large'' True)) (\<lambda>_.
     bindR (raise_if (length (ev_type event) > 255)
              (EventSizeError ''type too large'' True)) (\<lambda>_.
     bindR (raise_if (length (ev_event_id event) > 255)
              (EventSizeError ''event_id too large'' True)) (\<lambda>_.
     bindR (raise_if (utf8_len (ev_sender event) > 255)
              (EventSizeError ''sender too large'' strict_byte_limits)) (\<lambda>_.
     bindR (raise_if (utf8_len (ev_room_id event) > 255)
              (EventSizeError ''room_id too large'' strict_byte_limits)) (\<lambda>_.
     bindR (raise_if (is_state event \<and> sk_len utf8_len > 255)
              (EventSizeError ''state_key too large'' strict_byte_limits)) (\<lambda>_.
     bindR (raise_if (utf8_len (ev_type event) > 255)
              (EventSizeError ''type too large'' strict_byte_limits)) (\<lambda>_.
     raise_if (utf8_len (ev_event_id event) > 255)
              (EventSizeError ''event_id too large'' strict_byte_limits))))))))))))"

text \<open>\<^verbatim>\<open>get_domain_from_id\<close> on a decoded value: only strings have \<^verbatim>\<open>find\<close>.\<close>

fun get_domain_from_json :: "json \<Rightarrow> string res" where
  "get_domain_from_json (JStr s) = get_domain_from_id s"
| "get_domain_from_json _ = Inl AttributeError"

text \<open>\<^verbatim>\<open>event.type == Member and event.membership == m\<close>, with the short circuit.\<close>

definition is_membership :: "event \<Rightarrow> string \<Rightarrow> bool res" where
  "is_membership e m =
     (if ev_type e \<noteq> ET_Member then Inr False
      else bindR (membership_attr e) (\<lambda>v. Inr (eq_str v m)))"

text \<open>The event object always has a \<^verbatim>\<open>room_id\<close> attribute, so that check of the source never raises.\<close>

definition validate_event_for_room_version :: "ext \<Rightarrow> event \<Rightarrow> unit res" where
  "validate_event_for_room_version x event =
     bindR (check_size_limits x event) (\<lambda>_.
     bindR (get_domain_from_id (ev_sender event)) (\<lambda>sender_domain.
     bindR (is_membership event M_INVITE) (\<lambda>inv.
     let is_invite_via_3pid = inv \<and> map_of (ev_content event) ''third_party_invite'' \<noteq> None in
     bindR (raise_if (sender_domain \<notin> set (ev_signatures event) \<and> \<not> is_invite_via_3pid)
              (AuthError 403 ''Event not signed by sender's server'')) (\<lambda>_.
     bindR (if rv_event_format (ev_room_version event) = ROOM_V1_V2 then
              bindR (get_domain_from_id (ev_event_id event)) (\<lambda>event_id_domain.
              raise_if (event_id_domain \<notin> set (ev_signatures event))
                (AuthError 403 ''Event not signed by sending server''))
            else Inr ()) (\<lambda>_.
     bindR (if rv_restricted_join_rule (ev_room_version event) then is_membership event M_JOIN
            else Inr False) (\<lambda>join.
     if join \<and> map_of (ev_content event) F_AUTHORISING_USER \<noteq> None then
       bindR (get_item (ev_content event) F_AUTHORISING_USER) (\<lambda>authoriser.
       bindR (get_domain_from_json authoriser) (\<lambda>authoriser_domain.
       raise_if (authoriser_domain \<notin> set (ev_signatures event))
         (AuthError 403 ''Event not signed by authorising server'')))
     else Inr ()))))))"

section \<open>The create event\<close>

definition check_valid_additional_creators :: "ext \<Rightarrow> json \<Rightarrow> unit res" where
  "check_valid_additional_creators x additional_creators =
     (case additional_creators of
        JList entries \<Rightarrow>
          forR (\<lambda>entry.
            (case entry of
               JStr s \<Rightarrow>
                 bindR (raise_if (\<not> ds_is_valid (ext_valid_ipv6 x) user_sigil s)
                   (AuthError 400 ''entry in additional_creators is not a valid user ID'')) (\<lambda>_.
                 raise_if (length s > 255 \<or> utf8_len s > 255)
                   (AuthError 400 ''entry in additional_creators too long''))
             | _ \<Rightarrow> Inl (AuthError 400 ''entry in additional_creators is not a string''))) entries
      | _ \<Rightarrow> Inl (AuthError 400 ''additional_creators must be an array''))"

definition room_version_known :: "ext \<Rightarrow> json \<Rightarrow> bool" where
  "room_version_known x v = (case v of JStr s \<Rightarrow> s \<in> set (ext_known_room_versions x) | _ \<Rightarrow> False)"

definition check_create :: "ext \<Rightarrow> event \<Rightarrow> unit res" where
  "check_create x event =
     (let rv = ev_room_version event in
     bindR (raise_if (ev_type event \<noteq> ET_Create) AssertionError) (\<lambda>_.
     bindR (raise_if (ev_prev_event_ids event \<noteq> []) (AuthError 403 ''Create event has prev events'')) (\<lambda>_.
     bindR (raise_if (supports_msc4242_state_dag event \<and> length (ev_prev_state_events event) > 0)
              (AuthError 403 ''Create event has prev state events'')) (\<lambda>_.
     bindR (if rv_msc4291_room_ids_as_hashes rv then
              raise_if (ev_room_id_in_event event) (AuthError 403 ''Create event has a room_id'')
            else
              bindR (get_domain_from_id (ev_sender event)) (\<lambda>sender_domain.
              bindR (get_domain_from_id (ev_room_id event)) (\<lambda>room_id_domain.
              raise_if (room_id_domain \<noteq> sender_domain)
                (AuthError 403 ''Creation event's room_id domain does not match sender's'')))) (\<lambda>_.
     bindR (raise_if (\<not> room_version_known x (get_default (ev_content event) ''room_version'' (JStr ''1'')))
              (AuthError 403 ''room appears to have unsupported version'')) (\<lambda>_.
     bindR (raise_if (\<not> rv_implicit_room_creator rv \<and> map_of (ev_content event) F_ROOM_CREATOR = None)
              (AuthError 403 ''Create event lacks a 'creator' property'')) (\<lambda>_.
     if rv_msc4289_creator_power_enabled rv then
       (case map_of (ev_content event) F_ADDITIONAL_CREATORS of
          None \<Rightarrow> Inr ()
        | Some v \<Rightarrow> check_valid_additional_creators x v)
     else Inr ())))))))"

definition can_federate :: "event_state \<Rightarrow> bool" where
  "can_federate auth_events =
     (case auth_events CREATE_KEY of
        None \<Rightarrow> False
      | Some creation_event \<Rightarrow>
          get_default (ev_content creation_event) F_FEDERATE (JBool True) = JBool True)"

section \<open>Power levels\<close>

text \<open>\<^verbatim>\<open>x.get(k)\<close> gives \<^verbatim>\<open>None\<close> both for a missing key and for a JSON null.\<close>

definition not_null :: "json option \<Rightarrow> json option" where
  "not_null v = (case v of Some JNull \<Rightarrow> None | _ \<Rightarrow> v)"

definition get_power_level_event :: "event_state \<Rightarrow> event option" where
  "get_power_level_event auth_events = auth_events (ET_PowerLevels, '''')"

definition creator_of :: "event \<Rightarrow> json res" where
  "creator_of create =
     (if rv_implicit_room_creator (ev_room_version create) then Inr (JStr (ev_sender create))
      else get_item (ev_content create) F_ROOM_CREATOR)"

definition get_user_power_level :: "string \<Rightarrow> event_state \<Rightarrow> int res" where
  "get_user_power_level user_id auth_events =
     (case auth_events CREATE_KEY of
        None \<Rightarrow> Inl AssertionError
      | Some create_event \<Rightarrow>
          bindR (if rv_msc4289_creator_power_enabled (ev_room_version create_event)
                 then is_creator create_event user_id else Inr False) (\<lambda>c.
          if c then Inr CREATOR_POWER_LEVEL
          else case get_power_level_event auth_events of
              Some pl \<Rightarrow>
                bindR (py_get (get_default (ev_content pl) ''users'' (JObj [])) user_id) (\<lambda>level.
                let level = (case not_null level of
                               Some v \<Rightarrow> v
                             | None \<Rightarrow> get_default (ev_content pl) ''users_default'' (JInt 0))
                in if level = JNull then Inr 0 else py_int level)
            | None \<Rightarrow>
                bindR (creator_of create_event) (\<lambda>creator.
                Inr (if eq_str creator user_id then 100 else 0))))"

definition get_named_level :: "event_state \<Rightarrow> string \<Rightarrow> int \<Rightarrow> int res" where
  "get_named_level auth_events name d =
     (case get_power_level_event auth_events of
        None \<Rightarrow> Inr d
      | Some pl \<Rightarrow>
          (case not_null (map_of (ev_content pl) name) of None \<Rightarrow> Inr d | Some level \<Rightarrow> py_int level))"

definition get_send_level :: "string \<Rightarrow> string option \<Rightarrow> event option \<Rightarrow> int res" where
  "get_send_level etype state_key power_levels_event =
     (let power_levels_content = (case power_levels_event of Some e \<Rightarrow> ev_content e | None \<Rightarrow> []) in
     bindR (py_get (get_default power_levels_content ''events'' (JObj [])) etype) (\<lambda>send_level.
     case not_null send_level of
       Some v \<Rightarrow> py_int v
     | None \<Rightarrow>
         if state_key \<noteq> None then py_int (get_default power_levels_content ''state_default'' (JInt 50))
         else py_int (get_default power_levels_content ''events_default'' (JInt 0))))"

section \<open>Who may send an event\<close>

definition check_joined_room :: "event option \<Rightarrow> unit res" where
  "check_joined_room member =
     (case member of
        None \<Rightarrow> Inl (AuthError 403 ''User not in room'')
      | Some e \<Rightarrow>
          bindR (membership_attr e) (\<lambda>m.
          raise_if (\<not> eq_str m M_JOIN) (AuthError 403 ''User not in room'')))"

definition check_event_sender_in_room :: "event \<Rightarrow> event_state \<Rightarrow> unit res" where
  "check_event_sender_in_room event auth_events =
     check_joined_room (auth_events (ET_Member, ev_sender event))"

text \<open>The user ID at the start of a state key (MSC3757): the part before the first underscore after
  the colon, or the whole key. \<^verbatim>\<open>None\<close> where the source raises \<^verbatim>\<open>ValueError\<close>.\<close>

definition state_key_user_id :: "ext \<Rightarrow> string \<Rightarrow> string option" where
  "state_key_user_id x state_key =
     (case split1 CHR '':'' (tl state_key) of
        None \<Rightarrow> None
      | Some (l, d) \<Rightarrow>
          (let user = (case split1 CHR ''_'' d of
                         None \<Rightarrow> state_key
                       | Some (d', _) \<Rightarrow> hd state_key # l @ CHR '':'' # d')
           in if ds_is_valid (ext_valid_ipv6 x) user_sigil user then Some user else None))"

definition can_send_event :: "ext \<Rightarrow> event \<Rightarrow> event_state \<Rightarrow> bool res" where
  "can_send_event x event auth_events =
     (let state_key = ev_state_key event in
     bindR (get_send_level (ev_type event) state_key (get_power_level_event auth_events)) (\<lambda>send_level.
     bindR (get_user_power_level (ev_sender event) auth_events) (\<lambda>user_level.
     if user_level < send_level then
       Inl (UnstableSpecAuthError 403 ''You don't have permission to post that to the room. ''
              ''ORG.MATRIX.MSC3848.INSUFFICIENT_POWER'')
     else
       (case state_key of
          None \<Rightarrow> Inr True
        | Some k \<Rightarrow>
            if k \<noteq> [] \<and> hd k = CHR ''@'' \<and> k \<noteq> ev_sender event then
              (if rv_msc3757_enabled (ev_room_version event) then
                 (case state_key_user_id x k of
                    None \<Rightarrow> Inl (SynapseError 400 ''State key neither equals a valid user ID, nor starts with one plus an underscore'')
                  | Some u \<Rightarrow>
                      if u = ev_sender event then Inr True
                      else bindR (get_user_power_level u auth_events) (\<lambda>owner_level.
                        if user_level > owner_level then Inr True
                        else Inl (AuthError 403 ''You are not allowed to set others state'')))
               else Inl (AuthError 403 ''You are not allowed to set others state''))
            else Inr True))))"

text \<open>\<^verbatim>\<open>check_redaction\<close> also returns the event, whose metadata it may mark for a later recheck.\<close>

definition check_redaction :: "room_version \<Rightarrow> event \<Rightarrow> event_state \<Rightarrow> (bool \<times> event) res" where
  "check_redaction room_version_obj event auth_events =
     bindR (get_user_power_level (ev_sender event) auth_events) (\<lambda>user_level.
     bindR (get_named_level auth_events ''redact'' 50) (\<lambda>redact_level.
     if user_level \<ge> redact_level then Inr (False, event)
     else if rv_event_format room_version_obj = ROOM_V1_V2 then
       bindR (get_domain_from_id (ev_event_id event)) (\<lambda>redacter_domain.
       case ev_redacts event of
         Some (JStr r) \<Rightarrow>
           bindR (get_domain_from_id r) (\<lambda>redactee_domain.
           if redacter_domain = redactee_domain then Inr (True, event)
           else Inl (AuthError 403 ''You don't have permission to redact events''))
       | _ \<Rightarrow> Inr (False, event))
     else Inr (True, event\<lparr>ev_recheck_redaction := True\<rparr>)))"

section \<open>Changes to the power levels\<close>

text \<open>The validation of \<^verbatim>\<open>content.users\<close>; returns the decoded value and its items.\<close>

definition validate_power_users :: "event \<Rightarrow> (json \<times> jobj) res" where
  "validate_power_users event =
     (let user_list = get_default (ev_content event) ''users'' (JObj []) in
     bindR (py_items user_list) (\<lambda>items.
     bindR (forR (\<lambda>(k, v).
              bindR (case ds_from_string user_sigil k of
                       Inl e \<Rightarrow> Inl (SynapseError 400 ''Not a valid user_id'')
                     | Inr _ \<Rightarrow> Inr ()) (\<lambda>_.
              case py_int v of
                Inl e \<Rightarrow> Inl (SynapseError 400 ''Not a valid power level'')
              | Inr _ \<Rightarrow> Inr ())) items) (\<lambda>_.
     Inr (user_list, items))))"

text \<open>MSC4289: no creator may appear in \<^verbatim>\<open>content.users\<close>.\<close>

definition check_creators_not_in_users :: "event_state \<Rightarrow> jobj \<Rightarrow> unit res" where
  "check_creators_not_in_users auth_events items =
     (case auth_events CREATE_KEY of
        None \<Rightarrow> Inl (SynapseError 400 ''Cannot check power levels without a create event in auth_events'')
      | Some create_event \<Rightarrow>
          bindR (raise_if (map_of items (ev_sender create_event) \<noteq> None)
                   (SynapseError 400 ''Creator user must not appear in content.users'')) (\<lambda>_.
          let additional_creators =
            get_default (ev_content create_event) F_ADDITIONAL_CREATORS (JList [])
          in if py_truthy additional_creators then
            bindR (py_iter additional_creators) (\<lambda>xs.
            bindR (py_set xs) (\<lambda>creators.
            raise_if (list_ex (\<lambda>c. c \<in> set (map (JStr \<circ> fst) items)) creators)
              (SynapseError 400 ''Additional creators users must not appear in content.users'')))
          else Inr ()))"

abbreviation int_level_keys :: "string list" where
  "int_level_keys \<equiv> [''users_default'', ''events_default'', ''state_default'', ''ban'', ''redact'',
     ''kick'', ''invite'']"

abbreviation dict_level_keys :: "string list" where
  "dict_level_keys \<equiv> [''events'', ''notifications'', ''users'']"

definition check_int_power_levels :: "event \<Rightarrow> unit res" where
  "check_int_power_levels event =
     forR (\<lambda>(k, v).
       bindR (raise_if (k \<in> set int_level_keys \<and> \<not> is_jint v)
                (SynapseError 400 ''must be an integer.'')) (\<lambda>_.
       raise_if (k \<in> set dict_level_keys \<and> \<not> (is_jobj v \<and> list_all is_jint (obj_values v)))
         (SynapseError 400 ''must be a dict wherein all the values are integers.'')))
     (ev_content event)"

text \<open>\<^verbatim>\<open>set(list(old_list) + list(new_list))\<close>, each paired with the dictionary it belongs to.\<close>

definition levels_in :: "string \<Rightarrow> json \<Rightarrow> json \<Rightarrow> (json \<times> string option) list res" where
  "levels_in d old_list new_list =
     bindR (py_iter old_list) (\<lambda>old.
     bindR (py_iter new_list) (\<lambda>new.
     bindR (py_set (old @ new)) (\<lambda>ks. Inr (map (\<lambda>k. (k, Some d)) ks))))"

definition levels_to_check ::
  "room_version \<Rightarrow> jobj \<Rightarrow> jobj \<Rightarrow> (json \<times> string option) list res" where
  "levels_to_check rv old_content new_content =
     bindR (levels_in ''users'' (get_default old_content ''users'' (JObj []))
              (get_default new_content ''users'' (JObj []))) (\<lambda>users.
     bindR (levels_in ''events'' (get_default old_content ''events'' (JObj []))
              (get_default new_content ''events'' (JObj []))) (\<lambda>events.
     bindR (if rv_limit_notifications_power_levels rv then
              levels_in ''notifications'' (get_default old_content ''notifications'' (JObj []))
                (get_default new_content ''notifications'' (JObj []))
            else Inr []) (\<lambda>notifications.
     Inr (map (\<lambda>k. (JStr k, None)) int_level_keys @ users @ events @ notifications))))"

text \<open>\<^verbatim>\<open>int(loc[k]) if k in loc else None\<close>.\<close>

definition level_at :: "json \<Rightarrow> json \<Rightarrow> int option res" where
  "level_at loc k =
     bindR (py_in k loc) (\<lambda>b.
     if b then bindR (py_getitem loc k) (\<lambda>v. bindR (py_int v) (\<lambda>i. Inr (Some i)))
     else Inr None)"

definition loc_of :: "jobj \<Rightarrow> string option \<Rightarrow> json" where
  "loc_of content d = (case d of None \<Rightarrow> JObj content | Some k \<Rightarrow> get_default content k (JObj []))"

definition check_level ::
  "string \<Rightarrow> int \<Rightarrow> jobj \<Rightarrow> jobj \<Rightarrow> json \<times> string option \<Rightarrow> unit res" where
  "check_level sender user_level old_state new_state ld =
     (case ld of (level_to_check, d) \<Rightarrow>
       bindR (level_at (loc_of old_state d) level_to_check) (\<lambda>old_level.
       bindR (level_at (loc_of new_state d) level_to_check) (\<lambda>new_level.
       if new_level \<noteq> None \<and> old_level \<noteq> None \<and> new_level = old_level then Inr ()
       else
         bindR (raise_if (d = Some ''users'' \<and> level_to_check \<noteq> JStr sender \<and>
                  old_level = Some user_level)
                  (AuthError 403 ''You don't have permission to remove ops level equal to your own'')) (\<lambda>_.
         raise_if ((case old_level of None \<Rightarrow> False | Some l \<Rightarrow> l > user_level) \<or>
                   (case new_level of None \<Rightarrow> False | Some l \<Rightarrow> l > user_level))
           (AuthError 403 ''You don't have permission to add ops level greater than your own'')))))"

definition check_power_levels :: "room_version \<Rightarrow> event \<Rightarrow> event_state \<Rightarrow> unit res" where
  "check_power_levels room_version_obj event auth_events =
     bindR (validate_power_users event) (\<lambda>(user_list, items).
     bindR (if rv_msc4289_creator_power_enabled room_version_obj
            then check_creators_not_in_users auth_events items else Inr ()) (\<lambda>_.
     bindR (if ev_type event = ET_PowerLevels \<and> rv_enforce_int_power_levels room_version_obj
            then check_int_power_levels event else Inr ()) (\<lambda>_.
     bindR (state_key_attr event) (\<lambda>state_key.
     case auth_events (ev_type event, state_key) of
       None \<Rightarrow> Inr ()
     | Some current_state \<Rightarrow>
         bindR (get_user_power_level (ev_sender event) auth_events) (\<lambda>user_level.
         bindR (levels_to_check room_version_obj (ev_content current_state) (ev_content event)) (\<lambda>levels.
         forR (check_level (ev_sender event) user_level (ev_content current_state)
                 (ev_content event)) levels))))))"

section \<open>Third-party invites\<close>

definition get_public_keys :: "event \<Rightarrow> json list res" where
  "get_public_keys invite_event =
     (let c = ev_content invite_event;
          own = (case map_of c ''public_key'' of
                   None \<Rightarrow> []
                 | Some k \<Rightarrow>
                     [JObj ((''public_key'', k) #
                        (case map_of c ''key_validity_url'' of
                           None \<Rightarrow> [] | Some u \<Rightarrow> [(''key_validity_url'', u)]))])
      in bindR (py_iter (get_default c ''public_keys'' (JList []))) (\<lambda>ks. Inr (own @ ks)))"

text \<open>The key names of one signature block: the first \<^verbatim>\<open>ed25519\<close> signature that verifies wins
  (\<open>Inr True\<close>), one that does not verify raises.\<close>

fun verify_key_names :: "ext \<Rightarrow> json \<Rightarrow> string \<Rightarrow> json \<Rightarrow> string list \<Rightarrow> bool res" where
  "verify_key_names x signed server public_key [] = Inr False"
| "verify_key_names x signed server public_key (key_name # ks) =
     (if \<not> str_prefix ''ed25519:'' key_name then verify_key_names x signed server public_key ks
      else bindR (ext_verify_signed x signed server key_name public_key) (\<lambda>_. Inr True))"

fun verify_signature_blocks :: "ext \<Rightarrow> json \<Rightarrow> json \<Rightarrow> jobj \<Rightarrow> bool res" where
  "verify_signature_blocks x signed public_key [] = Inr False"
| "verify_signature_blocks x signed public_key ((server, signature_block) # rest) =
     bindR (py_items signature_block) (\<lambda>block.
     bindR (verify_key_names x signed server public_key (map fst block)) (\<lambda>ok.
     if ok then Inr True else verify_signature_blocks x signed public_key rest))"

text \<open>The loop over the public keys: \<^verbatim>\<open>KeyError\<close> and \<^verbatim>\<open>SignatureVerifyException\<close> inside the \<^verbatim>\<open>try\<close>
  move on to the next key; every other exception leaves the function.\<close>

fun verify_public_keys :: "ext \<Rightarrow> json \<Rightarrow> json list \<Rightarrow> bool res" where
  "verify_public_keys x signed [] = Inr False"
| "verify_public_keys x signed (public_key_object # rest) =
     bindR (py_getitem public_key_object (JStr ''public_key'')) (\<lambda>public_key.
     case bindR (py_getitem signed (JStr ''signatures'')) (\<lambda>sigs.
            bindR (py_items sigs) (verify_signature_blocks x signed public_key)) of
       Inr True \<Rightarrow> Inr True
     | Inr False \<Rightarrow> verify_public_keys x signed rest
     | Inl e \<Rightarrow> if e = KeyError \<or> e = SignatureVerifyException
                then verify_public_keys x signed rest else Inl e)"

text \<open>\<^verbatim>\<open>auth_events.get((ThirdPartyInvite, token))\<close>: a token that is not a string matches no state key,
  and one that cannot be hashed raises.\<close>

definition lookup_json_key :: "event_state \<Rightarrow> string \<Rightarrow> json \<Rightarrow> event option res" where
  "lookup_json_key auth_events typ k =
     (case k of
        JStr s \<Rightarrow> Inr (auth_events (typ, s))
      | _ \<Rightarrow> if hashable k then Inr None else Inl TypeError)"

definition verify_third_party_invite :: "ext \<Rightarrow> event \<Rightarrow> event_state \<Rightarrow> bool res" where
  "verify_third_party_invite x event auth_events =
     (case map_of (ev_content event) ''third_party_invite'' of
        Some (JObj third_party_invite) \<Rightarrow>
          (case map_of third_party_invite ''signed'' of
             Some (JObj signed) \<Rightarrow>
               if \<not> list_all (\<lambda>key. map_of signed key \<noteq> None) [''mxid'', ''token'', ''signatures'']
               then Inr False
               else
                 bindR (get_item signed ''token'') (\<lambda>token.
                 bindR (lookup_json_key auth_events ET_ThirdPartyInvite token) (\<lambda>invite.
                 case invite of
                   None \<Rightarrow> Inr False
                 | Some invite_event \<Rightarrow>
                     if ev_sender invite_event \<noteq> ev_sender event then Inr False
                     else
                       bindR (get_item signed ''mxid'') (\<lambda>mxid.
                       bindR (state_key_attr event) (\<lambda>state_key.
                       if \<not> eq_str mxid state_key then Inr False
                       else
                         bindR (get_public_keys invite_event)
                           (verify_public_keys x (JObj signed))))))
           | _ \<Rightarrow> Inr False)
      | _ \<Rightarrow> Inr False)"

section \<open>Membership changes\<close>

text \<open>What the membership rules read of the state: the memberships of the sender and the target, the
  join rule, and the power levels.\<close>

record member_info =
  mi_caller_in_room :: bool
  mi_caller_invited :: bool
  mi_caller_knocked :: bool
  mi_target_in_room :: bool
  mi_target_banned :: bool
  mi_join_rule :: json
  mi_user_level :: int
  mi_target_level :: int
  mi_invite_level :: int
  mi_ban_level :: int

text \<open>\<^verbatim>\<open>member and member.membership == m\<close>.\<close>

definition member_is :: "event option \<Rightarrow> string \<Rightarrow> bool res" where
  "member_is member m =
     (case member of
        None \<Rightarrow> Inr False
      | Some e \<Rightarrow> bindR (membership_attr e) (\<lambda>v. Inr (eq_str v m)))"

text \<open>Is this the creator of the room joining right after the create event.\<close>

definition creator_first_join :: "room_version \<Rightarrow> event \<Rightarrow> event_state \<Rightarrow> json \<Rightarrow> bool res" where
  "creator_first_join room_version event auth_events membership =
     (if length (ev_prev_event_ids event) = 1 \<and> eq_str membership M_JOIN then
        (case auth_events CREATE_KEY of
           None \<Rightarrow> Inr False
         | Some create \<Rightarrow>
             if hd (ev_prev_event_ids event) = ev_event_id create then
               bindR (if rv_implicit_room_creator room_version then Inr (JStr (ev_sender create))
                      else get_item (ev_content create) F_ROOM_CREATOR) (\<lambda>creator.
               bindR (state_key_attr event) (\<lambda>k. Inr (eq_str creator k)))
             else Inr False)
      else Inr False)"

definition join_rule_of :: "event_state \<Rightarrow> json" where
  "join_rule_of auth_events =
     (case auth_events (ET_JoinRules, '''') of
        None \<Rightarrow> JStr JR_INVITE
      | Some e \<Rightarrow> get_default (ev_content e) ''join_rule'' (JStr JR_INVITE))"

definition gather_member_info ::
  "room_version \<Rightarrow> string \<Rightarrow> string \<Rightarrow> event_state \<Rightarrow> member_info res" where
  "gather_member_info room_version sender target_user_id auth_events =
     (let caller = auth_events (ET_Member, sender);
          target = auth_events (ET_Member, target_user_id)
      in
     bindR (member_is caller M_JOIN) (\<lambda>caller_in_room.
     bindR (member_is caller M_INVITE) (\<lambda>caller_invited.
     bindR (if rv_knock_join_rule room_version then member_is caller M_KNOCK
            else Inr False) (\<lambda>caller_knocked.
     bindR (member_is target M_JOIN) (\<lambda>target_in_room.
     bindR (member_is target M_BAN) (\<lambda>target_banned.
     bindR (get_user_power_level sender auth_events) (\<lambda>user_level.
     bindR (get_user_power_level target_user_id auth_events) (\<lambda>target_level.
     bindR (get_named_level auth_events ''invite'' 0) (\<lambda>invite_level.
     bindR (get_named_level auth_events ''ban'' 50) (\<lambda>ban_level.
     Inr \<lparr>mi_caller_in_room = caller_in_room, mi_caller_invited = caller_invited,
       mi_caller_knocked = caller_knocked, mi_target_in_room = target_in_room,
       mi_target_banned = target_banned, mi_join_rule = join_rule_of auth_events,
       mi_user_level = user_level, mi_target_level = target_level,
       mi_invite_level = invite_level, mi_ban_level = ban_level\<rparr>))))))))))"

abbreviation insufficient_power :: "string \<Rightarrow> py_error" where
  "insufficient_power m \<equiv> UnstableSpecAuthError 403 m ''ORG.MATRIX.MSC3848.INSUFFICIENT_POWER''"

abbreviation already_joined :: "string \<Rightarrow> py_error" where
  "already_joined m \<equiv> UnstableSpecAuthError 403 m ''ORG.MATRIX.MSC3848.ALREADY_JOINED''"

abbreviation not_joined :: "string \<Rightarrow> py_error" where
  "not_joined m \<equiv> UnstableSpecAuthError 403 m ''ORG.MATRIX.MSC3848.NOT_JOINED''"

definition check_invite :: "member_info \<Rightarrow> unit res" where
  "check_invite mi =
     (if mi_target_banned mi then Inl (AuthError 403 ''target is banned from the room'')
      else if mi_target_in_room mi then Inl (already_joined ''target is already in the room.'')
      else raise_if (mi_user_level mi < mi_invite_level mi)
             (insufficient_power ''You don't have permission to invite users''))"

text \<open>A restricted join names a member of the room who may invite. Only a string can name one, so the
  level is looked up for a string.\<close>

definition check_authorising_user :: "event \<Rightarrow> event_state \<Rightarrow> int \<Rightarrow> unit res" where
  "check_authorising_user event auth_events invite_level =
     (case not_null (map_of (ev_content event) F_AUTHORISING_USER) of
        None \<Rightarrow> Inl (AuthError 403 ''Join event is missing authorising user.'')
      | Some authorising_user \<Rightarrow>
          bindR (lookup_json_key auth_events ET_Member authorising_user) (\<lambda>member_event.
          bindR (check_joined_room member_event) (\<lambda>_.
          case authorising_user of
            JStr u \<Rightarrow>
              bindR (get_user_power_level u auth_events) (\<lambda>authorising_user_level.
              raise_if (authorising_user_level < invite_level)
                (AuthError 403 ''Join event authorised by invalid server.''))
          | _ \<Rightarrow> Inl TypeError)))"

definition check_join ::
  "room_version \<Rightarrow> event \<Rightarrow> event_state \<Rightarrow> string \<Rightarrow> member_info \<Rightarrow> unit res" where
  "check_join room_version event auth_events target_user_id mi =
     (if ev_sender event \<noteq> target_user_id then Inl (AuthError 403 ''Cannot force another user to join.'')
      else if mi_target_banned mi then Inl (AuthError 403 ''You are banned from this room'')
      else if eq_str (mi_join_rule mi) JR_PUBLIC then Inr ()
      else if (rv_restricted_join_rule room_version \<and> eq_str (mi_join_rule mi) JR_RESTRICTED) \<or>
              (rv_knock_restricted_join_rule room_version \<and>
                 eq_str (mi_join_rule mi) JR_KNOCK_RESTRICTED) then
        (if \<not> mi_caller_in_room mi \<and> \<not> mi_caller_invited mi
         then check_authorising_user event auth_events (mi_invite_level mi) else Inr ())
      else if eq_str (mi_join_rule mi) JR_INVITE \<or>
              (rv_knock_join_rule room_version \<and> eq_str (mi_join_rule mi) JR_KNOCK) \<or>
              (rv_knock_restricted_join_rule room_version \<and>
                 eq_str (mi_join_rule mi) JR_KNOCK_RESTRICTED) then
        raise_if (\<not> (mi_caller_in_room mi \<or> mi_caller_invited mi))
          (AuthError 403 ''You are not invited to this room.'')
      else Inl (AuthError 403 ''You are not allowed to join this room''))"

definition check_leave :: "event \<Rightarrow> event_state \<Rightarrow> string \<Rightarrow> member_info \<Rightarrow> unit res" where
  "check_leave event auth_events target_user_id mi =
     (if mi_target_banned mi \<and> mi_user_level mi < mi_ban_level mi
      then Inl (insufficient_power ''You cannot unban user.'')
      else if target_user_id \<noteq> ev_sender event then
        bindR (get_named_level auth_events ''kick'' 50) (\<lambda>kick_level.
        raise_if (mi_user_level mi < kick_level \<or> mi_user_level mi \<le> mi_target_level mi)
          (insufficient_power ''You cannot kick user.''))
      else Inr ())"

definition check_ban :: "member_info \<Rightarrow> unit res" where
  "check_ban mi =
     (if mi_user_level mi < mi_ban_level mi
      then Inl (insufficient_power ''You don't have permission to ban'')
      else raise_if (mi_user_level mi \<le> mi_target_level mi)
             (insufficient_power ''You don't have permission to ban this user''))"

definition check_knock :: "room_version \<Rightarrow> event \<Rightarrow> string \<Rightarrow> member_info \<Rightarrow> unit res" where
  "check_knock room_version event target_user_id mi =
     (if \<not> eq_str (mi_join_rule mi) JR_KNOCK \<and>
         (\<not> rv_knock_restricted_join_rule room_version \<or>
          \<not> eq_str (mi_join_rule mi) JR_KNOCK_RESTRICTED)
      then Inl (AuthError 403 ''You don't have permission to knock'')
      else if target_user_id \<noteq> ev_sender event then Inl (AuthError 403 ''You cannot knock for other users'')
      else if mi_target_in_room mi then Inl (already_joined ''You cannot knock on a room you are already in'')
      else if mi_caller_invited mi then Inl (AuthError 403 ''You are already invited to this room'')
      else raise_if (mi_target_banned mi) (AuthError 403 ''You are banned from this room''))"

text \<open>The body of the rule after the information has been gathered.\<close>

definition membership_rules ::
  "ext \<Rightarrow> room_version \<Rightarrow> event \<Rightarrow> event_state \<Rightarrow> json \<Rightarrow> string \<Rightarrow> member_info \<Rightarrow> unit res" where
  "membership_rules x room_version event auth_events membership target_user_id mi =
     (if eq_str membership M_INVITE \<and> map_of (ev_content event) ''third_party_invite'' \<noteq> None then
        bindR (verify_third_party_invite x event auth_events) (\<lambda>ok.
        bindR (raise_if (\<not> ok) (AuthError 403 ''You are not invited to this room.'')) (\<lambda>_.
        raise_if (mi_target_banned mi) (AuthError 403 ''target is banned from the room'')))
      else if (mi_caller_invited mi \<or> mi_caller_knocked mi) \<and> eq_str membership M_LEAVE \<and>
              target_user_id = ev_sender event then Inr ()
      else if \<not> eq_str membership M_JOIN \<and> \<not> eq_str membership M_KNOCK \<and>
              \<not> mi_caller_in_room mi then Inl (not_joined ''sender not in room.'')
      else if eq_str membership M_INVITE then check_invite mi
      else if eq_str membership M_JOIN then
        check_join room_version event auth_events target_user_id mi
      else if eq_str membership M_LEAVE then check_leave event auth_events target_user_id mi
      else if eq_str membership M_BAN then check_ban mi
      else if rv_knock_join_rule room_version \<and> eq_str membership M_KNOCK then
        check_knock room_version event target_user_id mi
      else Inl (AuthError 500 ''Unknown membership''))"

definition is_membership_change_allowed ::
  "ext \<Rightarrow> room_version \<Rightarrow> event \<Rightarrow> event_state \<Rightarrow> unit res" where
  "is_membership_change_allowed x room_version event auth_events =
     bindR (get_item (ev_content event) ''membership'') (\<lambda>membership.
     bindR (creator_first_join room_version event auth_events membership) (\<lambda>first.
     if first then Inr ()
     else
       bindR (state_key_attr event) (\<lambda>target_user_id.
       case auth_events CREATE_KEY of
         None \<Rightarrow> Inl (AuthError 403 ''Create event missing from auth_events'')
       | Some create_event \<Rightarrow>
           bindR (get_domain_from_id (ev_sender create_event)) (\<lambda>creating_domain.
           bindR (get_domain_from_id target_user_id) (\<lambda>target_domain.
           bindR (raise_if (creating_domain \<noteq> target_domain \<and> \<not> can_federate auth_events)
                    (AuthError 403 ''This room has been marked as unfederatable.'')) (\<lambda>_.
           bindR (gather_member_info room_version (ev_sender event) target_user_id auth_events)
             (membership_rules x room_version event auth_events membership target_user_id)))))))"

section \<open>The auth events of an event\<close>

text \<open>A key of the set of auth types: only a string can name a state key, and a value that cannot be
  hashed cannot be put in the set.\<close>

definition json_state_key :: "string \<Rightarrow> json \<Rightarrow> state_key set res" where
  "json_state_key typ k =
     (case k of
        JStr s \<Rightarrow> Inr {(typ, s)}
      | _ \<Rightarrow> if hashable k then Inr {} else Inl TypeError)"

definition auth_types_for_event :: "room_version \<Rightarrow> event \<Rightarrow> state_key set res" where
  "auth_types_for_event room_version event =
     (if ev_type event = ET_Create then Inr {}
      else
        let auth_types = {(ET_PowerLevels, ''''), (ET_Member, ev_sender event), CREATE_KEY} in
        if ev_type event = ET_Member then
          bindR (get_item (ev_content event) ''membership'') (\<lambda>membership.
          bindR (state_key_attr event) (\<lambda>state_key.
          bindR (if eq_str membership M_INVITE then
                   (case map_of (ev_content event) ''third_party_invite'' of
                      None \<Rightarrow> Inr {}
                    | Some tpi \<Rightarrow>
                        bindR (py_getitem tpi (JStr ''signed'')) (\<lambda>signed.
                        bindR (py_getitem signed (JStr ''token''))
                          (json_state_key ET_ThirdPartyInvite)))
                 else Inr {}) (\<lambda>tpi_key.
          bindR (if rv_restricted_join_rule room_version \<and> eq_str membership M_JOIN then
                   (case map_of (ev_content event) F_AUTHORISING_USER of
                      None \<Rightarrow> Inr {}
                    | Some u \<Rightarrow> json_state_key ET_Member u)
                 else Inr {}) (\<lambda>auth_key.
          Inr (auth_types \<union>
               (if membership \<in> {JStr M_JOIN, JStr M_INVITE, JStr M_KNOCK}
                then {(ET_JoinRules, '''')} else {}) \<union>
               {(ET_Member, state_key)} \<union> tpi_key \<union> auth_key)))))
        else Inr auth_types)"

section \<open>The state-independent rules\<close>

definition is_forgivable_partial_state_rejection :: "event \<Rightarrow> event \<Rightarrow> bool res" where
  "is_forgivable_partial_state_rejection event auth_event =
     bindR (is_membership event M_JOIN) (\<lambda>join.
     if \<not> join then Inr False
     else
       bindR (state_key_attr auth_event) (\<lambda>k.
       if ev_sender event \<noteq> k \<or> ev_rejected_reason auth_event \<noteq> Some PARTIAL_STATE_AUTH_ERROR \<or>
          ev_type auth_event \<noteq> ET_Member then Inr False
       else
         bindR (state_key_attr event) (\<lambda>k'.
         if k \<noteq> k' then Inr False
         else bindR (membership_attr auth_event) (\<lambda>m. Inr (m \<in> {JStr M_JOIN, JStr M_LEAVE})))))"

text \<open>
  Events are looked up in the batch first and then in the store, which is what both the dictionary of
  \<^verbatim>\<open>prev_state_events\<close> and the chain map of auth events come to: the store is asked only for the
  identifiers the batch does not have. An absent batch is the empty one.
\<close>

definition lookup_event ::
  "(string \<rightharpoonup> event) \<Rightarrow> (string \<rightharpoonup> event) \<Rightarrow> string \<Rightarrow> event option" where
  "lookup_event batched store event_id =
     (case batched event_id of Some e \<Rightarrow> Some e | None \<Rightarrow> store event_id)"

definition check_prev_state_event :: "(string \<rightharpoonup> string) \<Rightarrow> event \<Rightarrow> event \<Rightarrow> unit res" where
  "check_prev_state_event batched_rejections event prev_state_event =
     bindR (raise_if (ev_room_id prev_state_event \<noteq> ev_room_id event)
       (AuthError 403 ''found event in prev_state_events which belongs to a different room'')) (\<lambda>_.
     bindR (raise_if (\<not> is_state prev_state_event)
       (AuthError 403 ''event has a prev_state_event which is not state'')) (\<lambda>_.
     raise_if (ev_rejected_reason prev_state_event \<noteq> None \<or>
               batched_rejections (ev_event_id prev_state_event) \<noteq> None)
       (AuthError 403 ''event has a prev_state_event which is rejected'')))"

text \<open>The source iterates over a set; the model in the order of the event's field, which decides only
  which of several \<^verbatim>\<open>AuthError\<close>s is raised.\<close>

definition check_prev_state_events ::
  "(string \<rightharpoonup> event) \<Rightarrow> (string \<rightharpoonup> string) \<Rightarrow> (string \<rightharpoonup> event) \<Rightarrow> event \<Rightarrow> unit res" where
  "check_prev_state_events batched batched_rejections store event =
     (let events = map (lookup_event batched store) (remdups (ev_prev_state_events event)) in
     if list_ex (\<lambda>o'. o' = None) events then Inl AssertionError
     else forR (check_prev_state_event batched_rejections event) (map the events))"

text \<open>One iteration of the loop over the auth events, with the dictionary built so far.\<close>

definition check_auth_event ::
  "bool \<Rightarrow> (string \<rightharpoonup> event) \<Rightarrow> event \<Rightarrow> state_key set \<Rightarrow> (state_key \<rightharpoonup> string) \<Rightarrow> string
     \<Rightarrow> (state_key \<rightharpoonup> string) res" where
  "check_auth_event allow_rejected lookup event expected_auth_types auth_dict auth_event_id =
     (case lookup auth_event_id of
        None \<Rightarrow> Inl RuntimeError
      | Some auth_event \<Rightarrow>
          bindR (raise_if (ev_room_id auth_event \<noteq> ev_room_id event)
            (AuthError 403 ''found event in the state which is in another room'')) (\<lambda>_.
          bindR (state_key_attr auth_event) (\<lambda>state_key.
          let k = (ev_type auth_event, state_key) in
          bindR (raise_if (auth_dict k \<noteq> None)
            (AuthError 403 ''Event has duplicate auth_events'')) (\<lambda>_.
          bindR (raise_if (k \<notin> expected_auth_types)
            (AuthError 403 ''Event has unexpected auth_event'')) (\<lambda>_.
          let rejected = ev_rejected_reason auth_event \<notin> {None, Some ''''} in
          bindR (if rejected \<and> allow_rejected
                 then is_forgivable_partial_state_rejection event auth_event
                 else Inr False) (\<lambda>forgiven.
          bindR (raise_if (rejected \<and> \<not> forgiven)
            (AuthError 403 ''found rejected event in the state'')) (\<lambda>_.
          Inr (auth_dict(k \<mapsto> auth_event_id)))))))))"

fun check_auth_events_loop ::
  "bool \<Rightarrow> (string \<rightharpoonup> event) \<Rightarrow> event \<Rightarrow> state_key set \<Rightarrow> (state_key \<rightharpoonup> string) \<Rightarrow> string list
     \<Rightarrow> (state_key \<rightharpoonup> string) res" where
  "check_auth_events_loop allow lookup event expected auth_dict [] = Inr auth_dict"
| "check_auth_events_loop allow lookup event expected auth_dict (i # ids) =
     bindR (check_auth_event allow lookup event expected auth_dict i) (\<lambda>d.
     check_auth_events_loop allow lookup event expected d ids)"

definition check_state_independent_auth_rules ::
  "ext \<Rightarrow> (string \<rightharpoonup> event) \<Rightarrow> event \<Rightarrow> (string \<rightharpoonup> event) \<Rightarrow> (string \<rightharpoonup> string) \<Rightarrow> bool \<Rightarrow> unit res" where
  "check_state_independent_auth_rules x store event batched_auth_events batched_rejections
     allow_rejected_auth_events =
     (if ev_type event = ET_Create then check_create x event
      else
        bindR (if supports_msc4242_state_dag event
               then check_prev_state_events batched_auth_events batched_rejections store event
               else Inr ()) (\<lambda>_.
        bindR (auth_types_for_event (ev_room_version event) event) (\<lambda>expected_auth_types.
        bindR (check_auth_events_loop allow_rejected_auth_events
                 (lookup_event batched_auth_events store) event expected_auth_types Map.empty
                 (ev_auth_event_ids event)) (\<lambda>auth_dict.
        raise_if (auth_dict CREATE_KEY \<in> {None, Some ''''})
          (AuthError 403 ''No create event in auth events'')))))"

section \<open>The state-dependent rules\<close>

text \<open>\<^verbatim>\<open>{(e.type, e.state_key): e for e in auth_events}\<close>: a later event replaces an earlier one.\<close>

fun auth_dict_of :: "event_state \<Rightarrow> event list \<Rightarrow> event_state res" where
  "auth_dict_of d [] = Inr d"
| "auth_dict_of d (e # es) =
     bindR (state_key_attr e) (\<lambda>k. auth_dict_of (d((ev_type e, k) \<mapsto> e)) es)"

text \<open>The rules on the dictionary. The event is returned because the redaction rule may mark it.\<close>

definition state_dependent_rules :: "ext \<Rightarrow> event \<Rightarrow> event_state \<Rightarrow> event res" where
  "state_dependent_rules x event auth_dict =
     (case auth_dict CREATE_KEY of
        None \<Rightarrow> Inl (AuthError 403 ''Event is missing a create event in auth_events.'')
      | Some create_event \<Rightarrow>
          bindR (get_domain_from_id (ev_sender create_event)) (\<lambda>creating_domain.
          bindR (get_domain_from_id (ev_sender event)) (\<lambda>originating_domain.
          bindR (raise_if (creating_domain \<noteq> originating_domain \<and> \<not> can_federate auth_dict)
                   (AuthError 403 ''This room has been marked as unfederatable.'')) (\<lambda>_.
          if ev_type event = ET_Aliases \<and> rv_special_case_aliases_auth (ev_room_version event) then
            (case ev_state_key event of
               None \<Rightarrow> Inl (AuthError 403 ''Alias event must be a state event'')
             | Some k \<Rightarrow>
                 bindR (raise_if (k = []) (AuthError 403 ''Alias event must have non-empty state_key'')) (\<lambda>_.
                 bindR (get_domain_from_id (ev_sender event)) (\<lambda>sender_domain.
                 bindR (raise_if (k \<noteq> sender_domain)
                   (AuthError 403 ''Alias event's state_key does not match sender's domain'')) (\<lambda>_.
                 Inr event))))
          else if ev_type event = ET_Member then
            bindR (is_membership_change_allowed x (ev_room_version event) event auth_dict)
              (\<lambda>_. Inr event)
          else
            bindR (check_event_sender_in_room event auth_dict) (\<lambda>_.
            if ev_type event = ET_ThirdPartyInvite then
              bindR (get_user_power_level (ev_sender event) auth_dict) (\<lambda>user_level.
              bindR (get_named_level auth_dict ''invite'' 0) (\<lambda>invite_level.
              bindR (raise_if (user_level < invite_level)
                (insufficient_power ''You don't have permission to invite users'')) (\<lambda>_.
              Inr event)))
            else
              bindR (can_send_event x event auth_dict) (\<lambda>_.
              bindR (if ev_type event = ET_PowerLevels
                     then check_power_levels (ev_room_version event) event auth_dict
                     else Inr ()) (\<lambda>_.
              if ev_type event = ET_Redaction then
                bindR (check_redaction (ev_room_version event) event auth_dict) (\<lambda>r. Inr (snd r))
              else Inr event)))))))"

definition check_state_dependent_auth_rules :: "ext \<Rightarrow> event \<Rightarrow> event list \<Rightarrow> event res" where
  "check_state_dependent_auth_rules x event auth_events =
     (if ev_type event = ET_Create then Inr event
      else bindR (auth_dict_of Map.empty auth_events) (state_dependent_rules x event))"

end
