(* ===== verification/Event_Auth_Props.thy ===== *)
theory Event_Auth_Props
  imports Event_Auth
begin

text \<open>
  What the event authorisation rules guarantee: the selection of auth events is sufficient, joins,
  kicks, bans and changes of power levels respect the memberships and levels of the state, and the
  state-independent checks bind an event to auth events of its own room.
\<close>

section \<open>The rules read only the auth types\<close>

text \<open>The two entries every rule may read: the create event and the power levels.\<close>

definition core_agree :: "event_state \<Rightarrow> event_state \<Rightarrow> bool" where
  "core_agree d d' \<longleftrightarrow>
     d CREATE_KEY = d' CREATE_KEY \<and> d (ET_PowerLevels, '''') = d' (ET_PowerLevels, '''')"

lemma core_agreeD:
  assumes "core_agree d d'"
  shows "d CREATE_KEY = d' CREATE_KEY" "d (ET_PowerLevels, '''') = d' (ET_PowerLevels, '''')"
  using assms by (simp_all add: core_agree_def)

lemma get_user_power_level_agree:
  assumes "core_agree d d'"
  shows "get_user_power_level u d = get_user_power_level u d'"
  unfolding get_user_power_level_def get_power_level_event_def core_agreeD [OF assms] ..

lemma get_named_level_agree:
  assumes "core_agree d d'"
  shows "get_named_level d name n = get_named_level d' name n"
  unfolding get_named_level_def get_power_level_event_def core_agreeD [OF assms] ..

lemma can_federate_agree: "core_agree d d' \<Longrightarrow> can_federate d = can_federate d'"
  by (simp add: can_federate_def core_agree_def)

lemma creator_first_join_agree:
  "core_agree d d' \<Longrightarrow> creator_first_join rv event d m = creator_first_join rv event d' m"
  by (simp add: creator_first_join_def core_agree_def)

lemmas level_agree = get_user_power_level_agree get_named_level_agree can_federate_agree
  creator_first_join_agree

lemma can_send_event_agree:
  assumes "core_agree d d'"
  shows "can_send_event x event d = can_send_event x event d'"
  unfolding can_send_event_def get_power_level_event_def core_agreeD [OF assms]
    level_agree(1) [OF assms] ..

lemma check_redaction_agree:
  assumes "core_agree d d'"
  shows "check_redaction rv event d = check_redaction rv event d'"
  unfolding check_redaction_def level_agree(1,2) [OF assms] ..

lemma check_creators_not_in_users_agree:
  assumes "core_agree d d'"
  shows "check_creators_not_in_users d items = check_creators_not_in_users d' items"
  unfolding check_creators_not_in_users_def core_agreeD [OF assms] ..

lemma check_power_levels_agree:
  assumes "core_agree d d'" and "ev_type event = ET_PowerLevels"
    and k: "\<And>k. ev_state_key event = Some k \<Longrightarrow> d (ET_PowerLevels, k) = d' (ET_PowerLevels, k)"
  shows "check_power_levels rv event d = check_power_levels rv event d'"
  unfolding check_power_levels_def check_creators_not_in_users_agree [OF assms(1)]
    level_agree(1) [OF assms(1)]
  using assms(2) by (auto intro!: bindR_cong simp: k)

text \<open>The information gathered for a membership change depends on the join rules event only through
  the join rule.\<close>

lemma gather_member_info_agree:
  assumes "core_agree d d'"
    and "d (ET_Member, s) = d' (ET_Member, s)" "d (ET_Member, t) = d' (ET_Member, t)"
  shows "gather_member_info rv s t d' =
    bindR (gather_member_info rv s t d) (\<lambda>mi. Inr (mi\<lparr>mi_join_rule := join_rule_of d'\<rparr>))"
  unfolding gather_member_info_def Let_def assms(2,3) level_agree(1,2) [OF assms(1)]
  by (simp add: bindR_def split: sum.splits)

lemma membership_rules_join_rule:
  assumes "\<not> eq_str m M_JOIN" "\<not> eq_str m M_KNOCK"
  shows "membership_rules x rv event d m t (mi\<lparr>mi_join_rule := j\<rparr>) = membership_rules x rv event d m t mi"
  using assms by (simp add: membership_rules_def check_invite_def check_leave_def check_ban_def)

text \<open>The keys beyond the common ones that a membership event is checked against.\<close>

lemma verify_third_party_invite_agree:
  assumes tok: "\<And>tpi signed token. map_of (ev_content event) ''third_party_invite'' = Some tpi \<Longrightarrow>
      py_getitem tpi (JStr ''signed'') = Inr signed \<Longrightarrow>
      py_getitem signed (JStr ''token'') = Inr token \<Longrightarrow>
      lookup_json_key d ET_ThirdPartyInvite token = lookup_json_key d' ET_ThirdPartyInvite token"
  shows "verify_third_party_invite x event d = verify_third_party_invite x event d'"
proof -
  have *: "lookup_json_key d ET_ThirdPartyInvite v = lookup_json_key d' ET_ThirdPartyInvite v"
    if "map_of (ev_content event) ''third_party_invite'' = Some (JObj tpi)"
      "map_of tpi ''signed'' = Some (JObj signed)" "map_of signed ''token'' = Some v" for tpi signed v
    using tok [OF that(1)] that(2,3) by simp
  show ?thesis
    by (auto simp: verify_third_party_invite_def get_item_def * intro!: bindR_cong
        split: option.splits json.splits)
qed

lemma check_authorising_user_agree:
  assumes "core_agree d d'"
    and "\<And>u. map_of (ev_content event) F_AUTHORISING_USER = Some (JStr u) \<Longrightarrow>
      d (ET_Member, u) = d' (ET_Member, u)"
  shows "check_authorising_user event d n = check_authorising_user event d' n"
  unfolding check_authorising_user_def level_agree(1) [OF assms(1)]
  using assms(2) by (auto simp: lookup_json_key_def not_null_def split: option.splits json.splits)

lemma check_join_agree:
  assumes "check_authorising_user event d (mi_invite_level mi) =
      check_authorising_user event d' (mi_invite_level mi) \<or> \<not> rv_restricted_join_rule rv"
    and "rv_knock_restricted_join_rule rv \<longrightarrow> rv_restricted_join_rule rv"
  shows "check_join rv event d t mi = check_join rv event d' t mi"
  using assms by (auto simp: check_join_def)

lemma membership_rules_agree:
  assumes "core_agree d d'"
    and "eq_str m M_INVITE \<Longrightarrow> map_of (ev_content event) ''third_party_invite'' \<noteq> None \<Longrightarrow>
      verify_third_party_invite x event d = verify_third_party_invite x event d'"
    and "eq_str m M_JOIN \<Longrightarrow> check_join rv event d t mi = check_join rv event d' t mi"
  shows "membership_rules x rv event d m t mi = membership_rules x rv event d' m t mi"
  unfolding membership_rules_def check_leave_def level_agree(2) [OF assms(1)]
  using assms(2,3) by auto


text \<open>Membership changes agree on states that agree on the auth types of the event.\<close>

lemma auth_types_Member:
  assumes "auth_types_for_event rv event = Inr ks" "ev_type event = ET_Member"
  obtains m k where "map_of (ev_content event) ''membership'' = Some m" "ev_state_key event = Some k"
    "(ET_Member, k) \<in> ks" "(ET_Member, ev_sender event) \<in> ks"
    "m \<in> {JStr M_JOIN, JStr M_KNOCK} \<Longrightarrow> (ET_JoinRules, '''') \<in> ks"
    "\<And>tpi signed token. m = JStr M_INVITE \<Longrightarrow>
       map_of (ev_content event) ''third_party_invite'' = Some tpi \<Longrightarrow>
       py_getitem tpi (JStr ''signed'') = Inr signed \<Longrightarrow>
       py_getitem signed (JStr ''token'') = Inr (JStr token) \<Longrightarrow> (ET_ThirdPartyInvite, token) \<in> ks"
    "\<And>u. m = JStr M_JOIN \<Longrightarrow> rv_restricted_join_rule rv \<Longrightarrow>
       map_of (ev_content event) F_AUTHORISING_USER = Some (JStr u) \<Longrightarrow> (ET_Member, u) \<in> ks"
proof -
  from assms obtain m k tk ak where m: "map_of (ev_content event) ''membership'' = Some m"
    and k: "ev_state_key event = Some k"
    and tk: "(if eq_str m M_INVITE then
                (case map_of (ev_content event) ''third_party_invite'' of
                   None \<Rightarrow> Inr {}
                 | Some tpi \<Rightarrow>
                     bindR (py_getitem tpi (JStr ''signed'')) (\<lambda>signed.
                     bindR (py_getitem signed (JStr ''token'')) (json_state_key ET_ThirdPartyInvite)))
              else Inr {}) = Inr tk"
    and ak: "(if rv_restricted_join_rule rv \<and> eq_str m M_JOIN then
                (case map_of (ev_content event) F_AUTHORISING_USER of
                   None \<Rightarrow> Inr {} | Some u \<Rightarrow> json_state_key ET_Member u)
              else Inr {}) = Inr ak"
    and ks: "ks = {(ET_PowerLevels, ''''), (ET_Member, ev_sender event), CREATE_KEY} \<union>
      (if m \<in> {JStr M_JOIN, JStr M_INVITE, JStr M_KNOCK} then {(ET_JoinRules, '''')} else {}) \<union>
      {(ET_Member, k)} \<union> tk \<union> ak"
    unfolding auth_types_for_event_def Let_def
    by (simp add: bindR_eq_Inr split del: if_split) blast
  show thesis
  proof (rule that [OF m k])
    show "(ET_ThirdPartyInvite, token) \<in> ks"
      if "m = JStr M_INVITE" "map_of (ev_content event) ''third_party_invite'' = Some tpi"
        "py_getitem tpi (JStr ''signed'') = Inr signed"
        "py_getitem signed (JStr ''token'') = Inr (JStr token)" for tpi signed token
      using tk that by (auto simp: json_state_key_def ks)
    show "(ET_Member, u) \<in> ks" if "m = JStr M_JOIN" "rv_restricted_join_rule rv"
      "map_of (ev_content event) F_AUTHORISING_USER = Some (JStr u)" for u
      using ak that by (auto simp: json_state_key_def ks)
  qed (auto simp: ks)
qed

lemma auth_types_core:
  assumes "auth_types_for_event rv event = Inr ks" "ev_type event \<noteq> ET_Create"
  shows "{CREATE_KEY, (ET_PowerLevels, ''''), (ET_Member, ev_sender event)} \<subseteq> ks"
  using assms
  by (auto simp: auth_types_for_event_def bindR_eq_Inr Let_def split: if_splits)

lemma membership_change_agree:
  assumes ks: "auth_types_for_event rv event = Inr ks" and ety: "ev_type event = ET_Member"
    and eq: "\<And>k. k \<in> ks \<Longrightarrow> d k = d' k"
    and rv: "rv_knock_restricted_join_rule rv \<longrightarrow> rv_restricted_join_rule rv"
  shows "is_membership_change_allowed x rv event d = is_membership_change_allowed x rv event d'"
proof -
  have core: "core_agree d d'"
    using auth_types_core [OF ks] ety eq by (auto simp: core_agree_def)
  from ks ety obtain m t where m: "map_of (ev_content event) ''membership'' = Some m"
    and t: "ev_state_key event = Some t"
    and mem: "(ET_Member, t) \<in> ks" "(ET_Member, ev_sender event) \<in> ks"
    and jr: "m \<in> {JStr M_JOIN, JStr M_KNOCK} \<Longrightarrow> (ET_JoinRules, '''') \<in> ks"
    and tpi: "\<And>tpi signed token. m = JStr M_INVITE \<Longrightarrow>
       map_of (ev_content event) ''third_party_invite'' = Some tpi \<Longrightarrow>
       py_getitem tpi (JStr ''signed'') = Inr signed \<Longrightarrow>
       py_getitem signed (JStr ''token'') = Inr (JStr token) \<Longrightarrow> (ET_ThirdPartyInvite, token) \<in> ks"
    and au: "\<And>u. m = JStr M_JOIN \<Longrightarrow> rv_restricted_join_rule rv \<Longrightarrow>
       map_of (ev_content event) F_AUTHORISING_USER = Some (JStr u) \<Longrightarrow> (ET_Member, u) \<in> ks"
    by (rule auth_types_Member) blast
  have rules: "membership_rules x rv event d m t mi = membership_rules x rv event d' m t mi" for mi
  proof (rule membership_rules_agree [OF core])
    show "verify_third_party_invite x event d = verify_third_party_invite x event d'"
      if "eq_str m M_INVITE"
      using tpi [OF that] eq
      by (intro verify_third_party_invite_agree) (auto simp: lookup_json_key_def split: json.splits)
    show "check_join rv event d t mi = check_join rv event d' t mi" if "eq_str m M_JOIN"
      using check_authorising_user_agree [OF core] au [OF that] eq
      by (intro check_join_agree rv) blast
  qed
  have jr_eq: "membership_rules x rv event d m t (mi\<lparr>mi_join_rule := join_rule_of d'\<rparr>) =
      membership_rules x rv event d m t (mi\<lparr>mi_join_rule := join_rule_of d\<rparr>)" for mi
    using jr eq membership_rules_join_rule by (cases "m \<in> {JStr M_JOIN, JStr M_KNOCK}")
      (auto simp: join_rule_of_def)
  have self: "gather_member_info rv s u d =
      bindR (gather_member_info rv s u d) (\<lambda>mi. Inr (mi\<lparr>mi_join_rule := join_rule_of d\<rparr>))" for s u
    by (rule gather_member_info_agree) (simp_all add: core_agree_def)
  have "bindR (gather_member_info rv (ev_sender event) t d) (membership_rules x rv event d m t) =
      bindR (gather_member_info rv (ev_sender event) t d') (membership_rules x rv event d' m t)"
    unfolding gather_member_info_agree [OF core eq [OF mem(2)] eq [OF mem(1)]]
    by (subst self) (simp add: bindR_def rules [symmetric] jr_eq split: sum.splits)
  then show ?thesis
    unfolding is_membership_change_allowed_def level_agree(3,4) [OF core] core_agreeD(1) [OF core]
    by (auto intro!: bindR_cong simp: m t split: option.splits)
qed

lemma state_dependent_rules_agree:
  assumes ks: "auth_types_for_event (ev_room_version event) event = Inr ks"
    and ety: "ev_type event \<noteq> ET_Create" and eq: "\<And>k. k \<in> ks \<Longrightarrow> d k = d' k"
    and rv: "rv_knock_restricted_join_rule (ev_room_version event) \<longrightarrow>
      rv_restricted_join_rule (ev_room_version event)"
    and pl: "\<And>k. ev_type event = ET_PowerLevels \<Longrightarrow> ev_state_key event = Some k \<Longrightarrow>
      d (ET_PowerLevels, k) = d' (ET_PowerLevels, k)"
  shows "state_dependent_rules x event d = state_dependent_rules x event d'"
proof -
  have core: "core_agree d d'" and sender: "d (ET_Member, ev_sender event) = d' (ET_Member, ev_sender event)"
    using auth_types_core [OF ks ety] eq by (auto simp: core_agree_def)
  have "ev_type event = ET_Member \<Longrightarrow> is_membership_change_allowed x (ev_room_version event) event d =
      is_membership_change_allowed x (ev_room_version event) event d'"
    using membership_change_agree [OF ks] eq rv by blast
  moreover have "ev_type event = ET_PowerLevels \<Longrightarrow> check_power_levels (ev_room_version event) event d =
      check_power_levels (ev_room_version event) event d'"
    using check_power_levels_agree [OF core] pl by blast
  ultimately show ?thesis
    unfolding state_dependent_rules_def core_agreeD(1) [OF core] level_agree(1-3) [OF core]
      can_send_event_agree [OF core] check_redaction_agree [OF core]
      check_event_sender_in_room_def sender
    by (auto intro!: bindR_cong split: option.splits)
qed


section \<open>Membership changes\<close>

definition has_membership :: "event_state \<Rightarrow> string \<Rightarrow> string \<Rightarrow> bool" where
  "has_membership d u m \<longleftrightarrow>
     (case d (ET_Member, u) of
        None \<Rightarrow> False | Some e \<Rightarrow> map_of (ev_content e) ''membership'' = Some (JStr m))"

lemma member_is_eq_Inr:
  "member_is (d (ET_Member, u)) m = Inr b \<Longrightarrow> b \<longleftrightarrow> has_membership d u m"
  by (auto simp: member_is_def has_membership_def bindR_eq_Inr split: option.splits)

lemma check_joined_room_eq_Inr:
  "check_joined_room (d (ET_Member, u)) = Inr () \<longleftrightarrow> has_membership d u M_JOIN"
  by (auto simp: check_joined_room_def has_membership_def bindR_eq_Inr split: option.splits)

lemma gather_member_info_eq_Inr:
  assumes "gather_member_info rv s t d = Inr mi"
  shows "mi_caller_in_room mi \<longleftrightarrow> has_membership d s M_JOIN"
    and "mi_caller_invited mi \<longleftrightarrow> has_membership d s M_INVITE"
    and "mi_caller_knocked mi \<longleftrightarrow> rv_knock_join_rule rv \<and> has_membership d s M_KNOCK"
    and "mi_target_in_room mi \<longleftrightarrow> has_membership d t M_JOIN"
    and "mi_target_banned mi \<longleftrightarrow> has_membership d t M_BAN"
    and "mi_join_rule mi = join_rule_of d"
    and "get_user_power_level s d = Inr (mi_user_level mi)"
    and "get_user_power_level t d = Inr (mi_target_level mi)"
    and "get_named_level d ''invite'' 0 = Inr (mi_invite_level mi)"
    and "get_named_level d ''ban'' 50 = Inr (mi_ban_level mi)"
  using assms
  by (auto simp: gather_member_info_def Let_def bindR_eq_Inr dest!: member_is_eq_Inr split: if_splits)

text \<open>A restricted join is authorised by a member of the room who may invite.\<close>

definition authorised_by :: "event_state \<Rightarrow> event \<Rightarrow> int \<Rightarrow> bool" where
  "authorised_by d event invite_level \<longleftrightarrow>
     (case map_of (ev_content event) F_AUTHORISING_USER of
        Some (JStr u) \<Rightarrow>
          has_membership d u M_JOIN \<and>
          (case get_user_power_level u d of Inr l \<Rightarrow> invite_level \<le> l | Inl _ \<Rightarrow> False)
      | _ \<Rightarrow> False)"

lemma check_authorising_user_eq_Inr:
  "check_authorising_user event d n = Inr () \<longleftrightarrow> authorised_by d event n"
  by (auto simp: check_authorising_user_def authorised_by_def not_null_def lookup_json_key_def
      bindR_eq_Inr check_joined_room_def has_membership_def not_less
      split: option.splits json.splits sum.splits if_splits)

text \<open>The exact condition under which a join passes the membership rules.\<close>

definition join_permitted :: "room_version \<Rightarrow> event \<Rightarrow> event_state \<Rightarrow> int \<Rightarrow> bool" where
  "join_permitted rv event d invite_level \<longleftrightarrow>
     (let u = ev_sender event; rule = join_rule_of d;
          present = has_membership d u M_JOIN \<or> has_membership d u M_INVITE;
          restricted = (rv_restricted_join_rule rv \<and> rule = JStr JR_RESTRICTED) \<or>
            (rv_knock_restricted_join_rule rv \<and> rule = JStr JR_KNOCK_RESTRICTED)
      in ev_state_key event = Some u \<and> \<not> has_membership d u M_BAN \<and>
         (rule = JStr JR_PUBLIC \<or>
          (restricted \<and> (present \<or> authorised_by d event invite_level)) \<or>
          ((rule = JStr JR_INVITE \<or> rv_knock_join_rule rv \<and> rule = JStr JR_KNOCK) \<and> present)))"

lemma check_join_eq_Inr:
  assumes "gather_member_info rv (ev_sender event) t d = Inr mi" "ev_state_key event = Some t"
  shows "check_join rv event d t mi = Inr () \<longleftrightarrow> join_permitted rv event d (mi_invite_level mi)"
proof (cases "t = ev_sender event")
  case True
  then show ?thesis
    using assms(2)
    by (auto simp: check_join_def join_permitted_def Let_def check_authorising_user_eq_Inr
        gather_member_info_eq_Inr [OF assms(1)])
qed (use assms(2) in \<open>auto simp: check_join_def join_permitted_def\<close>)

text \<open>The rest of the membership rule around it: the creator's first join, and whether the server of
  the target may take part in the room.\<close>

definition creator_joins :: "room_version \<Rightarrow> event \<Rightarrow> event_state \<Rightarrow> bool" where
  "creator_joins rv event d \<longleftrightarrow>
     (\<exists>c u. d CREATE_KEY = Some c \<and> ev_prev_event_ids event = [ev_event_id c] \<and>
        ev_state_key event = Some u \<and>
        (if rv_implicit_room_creator rv then u = ev_sender c
         else map_of (ev_content c) F_ROOM_CREATOR = Some (JStr u)))"

definition creator_named :: "room_version \<Rightarrow> event \<Rightarrow> event_state \<Rightarrow> bool" where
  "creator_named rv event d \<longleftrightarrow>
     (\<forall>c. d CREATE_KEY = Some c \<and> ev_prev_event_ids event = [ev_event_id c] \<longrightarrow>
        rv_implicit_room_creator rv \<or> map_of (ev_content c) F_ROOM_CREATOR \<noteq> None)"

definition server_admitted :: "event \<Rightarrow> string \<Rightarrow> event_state \<Rightarrow> bool" where
  "server_admitted create t d \<longleftrightarrow>
     (\<exists>c u. get_domain_from_id (ev_sender create) = Inr c \<and> get_domain_from_id t = Inr u \<and>
        (c = u \<or> can_federate d))"

lemma creator_first_join_eq:
  assumes "map_of (ev_content event) ''membership'' = Some (JStr M_JOIN)"
  shows "creator_first_join rv event d (JStr M_JOIN) = Inr True \<longleftrightarrow> creator_joins rv event d"
    and "creator_first_join rv event d (JStr M_JOIN) = Inr False \<and> ev_state_key event \<noteq> None \<longleftrightarrow>
      \<not> creator_joins rv event d \<and> creator_named rv event d \<and> ev_state_key event \<noteq> None"
  by (auto simp: creator_first_join_def creator_joins_def creator_named_def get_item_def
      state_key_attr_def bindR_eq_Inr length_Suc_conv split: option.splits if_splits)

lemma membership_change_accepted:
  assumes "is_membership_change_allowed x rv event d = Inr ()"
    and "map_of (ev_content event) ''membership'' = Some m" "ev_state_key event = Some t"
  obtains "creator_first_join rv event d m = Inr True"
  | mi where "gather_member_info rv (ev_sender event) t d = Inr mi"
    "membership_rules x rv event d m t mi = Inr ()" "creator_first_join rv event d m = Inr False"
  using assms
  by (auto simp: is_membership_change_allowed_def get_item_def state_key_attr_def bindR_eq_Inr
      split: if_splits option.splits)


section \<open>A sample room\<close>

text \<open>A concrete room in which the properties are exercised: \<open>@a:x\<close> created it and has power 100,
  \<open>@b:x\<close> is a moderator with power 50, \<open>@c:x\<close> is an ordinary member and \<open>@d:x\<close> is outside.\<close>

definition sample_ext :: ext where
  "sample_ext = \<lparr>ext_valid_ipv6 = (\<lambda>_. False), ext_pdu_json_len = (\<lambda>_. 1000),
     ext_known_room_versions = [''10'', ''11''],
     ext_verify_signed = (\<lambda>_ _ _ _. Inl SignatureVerifyException)\<rparr>"

definition sample_event :: "string \<Rightarrow> string \<Rightarrow> string \<Rightarrow> string \<Rightarrow> jobj \<Rightarrow> event" where
  "sample_event i etype sender sk content =
     \<lparr>ev_event_id = i, ev_room_id = ''!r:x'', ev_room_id_in_event = True, ev_type = etype,
      ev_sender = sender, ev_state_key = Some sk, ev_content = content, ev_origin_server_ts = 1, ev_depth = 1,
      ev_auth_event_ids = [], ev_prev_event_ids = [''$p''], ev_prev_state_events = [],
      ev_signatures = [''x''], ev_redacts = None, ev_rejected_reason = None,
      ev_room_version = RV_V10, ev_recheck_redaction = False\<rparr>"

definition sample_create :: event where
  "sample_create = sample_event ''$create'' ET_Create ''@a:x'' '''' [(''creator'', JStr ''@a:x'')]"

definition sample_levels :: event where
  "sample_levels = sample_event ''$pl'' ET_PowerLevels ''@a:x'' ''''
     [(''users'', JObj [(''@a:x'', JInt 100), (''@b:x'', JInt 50)])]"

definition sample_join_rules :: event where
  "sample_join_rules = sample_event ''$jr'' ET_JoinRules ''@a:x'' '''' [(''join_rule'', JStr ''public'')]"

definition sample_member :: "string \<Rightarrow> string \<Rightarrow> string \<Rightarrow> event" where
  "sample_member sender target m =
     sample_event (''$m'' @ target) ET_Member sender target [(''membership'', JStr m)]"

definition sample_state :: event_state where
  "sample_state = [CREATE_KEY \<mapsto> sample_create, (ET_PowerLevels, '''') \<mapsto> sample_levels,
     (ET_JoinRules, '''') \<mapsto> sample_join_rules,
     (ET_Member, ''@a:x'') \<mapsto> sample_member ''@a:x'' ''@a:x'' M_JOIN,
     (ET_Member, ''@b:x'') \<mapsto> sample_member ''@b:x'' ''@b:x'' M_JOIN,
     (ET_Member, ''@c:x'') \<mapsto> sample_member ''@c:x'' ''@c:x'' M_JOIN]"

lemmas sample_defs = sample_ext_def sample_event_def sample_create_def sample_levels_def
  sample_join_rules_def sample_member_def sample_state_def

section \<open>Properties\<close>

text \<open>C1: what the verdict on an event depends on. For an event that is not a create event and whose
  auth types can be selected, two room states that agree on the (type, state key) pairs that
  \<^verbatim>\<open>auth_types_for_event\<close> selects give the same verdict, the same error included, whatever else they
  contain. There is one exception, which the second premise spells out: the rule for
  \<^verbatim>\<open>m.room.power_levels\<close> also reads the event under the new event's own state key, and that key is
  selected only when it is empty, so for a power-levels event with another state key the states must
  agree there as well (\<open>own_key_not_selected\<close> below shows that they must). The room version is one
  that offers \<^verbatim>\<open>knock_restricted\<close> only together with \<^verbatim>\<open>restricted\<close>, as every room version of the code
  does.\<close>

theorem auth_types_sufficient:
  assumes "auth_types_for_event (ev_room_version event) event = Inr ks"
    and "\<forall>k \<in> ks \<union> {(ET_PowerLevels, s) | s. ev_type event = ET_PowerLevels \<and> ev_state_key event = Some s}.
      d k = d' k"
    and "ev_type event \<noteq> ET_Create"
    and "rv_knock_restricted_join_rule (ev_room_version event) \<longrightarrow>
      rv_restricted_join_rule (ev_room_version event)"
  shows "state_dependent_rules x event d = state_dependent_rules x event d'"
  using assms by (intro state_dependent_rules_agree) auto

theorem auth_types_sufficient_witness:
  "state_dependent_rules sample_ext (sample_member ''@b:x'' ''@c:x'' M_BAN) sample_state =
   state_dependent_rules sample_ext (sample_member ''@b:x'' ''@c:x'' M_BAN)
     (sample_state((ET_JoinRules, '''') := None))"
  by (rule auth_types_sufficient
      [where ks = "{(ET_PowerLevels, ''''), (ET_Member, ''@b:x''), CREATE_KEY, (ET_Member, ''@c:x'')}"])
    (auto simp: sample_defs room_version_defs auth_types_for_event_def get_item_def state_key_attr_def)

text \<open>Without that premise the selection is not sufficient: a power-levels event with the state key
  \<^verbatim>\<open>x\<close> is refused or accepted according to the power-levels event under \<^verbatim>\<open>x\<close>, which is not among its
  auth types.\<close>

definition sample_levels_x :: "jobj \<Rightarrow> event" where
  "sample_levels_x = sample_event ''$plx'' ET_PowerLevels ''@b:x'' ''x''"

lemma own_key_not_selected:
  "auth_types_for_event RV_V10 (sample_levels_x []) =
     Inr {(ET_PowerLevels, ''''), (ET_Member, ''@b:x''), CREATE_KEY} \<and>
   state_dependent_rules sample_ext (sample_levels_x []) sample_state = Inr (sample_levels_x []) \<and>
   state_dependent_rules sample_ext (sample_levels_x [])
     (sample_state((ET_PowerLevels, ''x'') \<mapsto> sample_levels_x [(''ban'', JInt 100)])) \<noteq>
     Inr (sample_levels_x [])"
  by code_simp

text \<open>C2: who may join. A join is accepted exactly when it is the creator's first join, right after
  the create event, or, unless the create event is the only previous event and does not name the
  creator it has to: the room has a create event, the user's server created the room or the room may
  be federated, the memberships and levels of the state can be read, and the join is the sender's own,
  the sender is not banned, and the room is public, or restricted and the sender is present or
  authorised by a member who may invite, or by invitation (or knocking) and the sender is already in
  the room or invited.\<close>

theorem join_allowed_iff:
  assumes "map_of (ev_content event) ''membership'' = Some (JStr M_JOIN)"
  shows "is_membership_change_allowed x rv event d = Inr () \<longleftrightarrow>
    creator_joins rv event d \<or>
    creator_named rv event d \<and>
    (\<exists>t create mi. ev_state_key event = Some t \<and> d CREATE_KEY = Some create \<and>
       server_admitted create t d \<and> gather_member_info rv (ev_sender event) t d = Inr mi \<and>
       join_permitted rv event d (mi_invite_level mi))"
  using creator_first_join_eq [OF assms] assms
  by (auto simp: is_membership_change_allowed_def get_item_def state_key_attr_def bindR_eq_Inr
      server_admitted_def membership_rules_def check_join_eq_Inr split: option.splits)

theorem join_allowed_iff_witness:
  "creator_joins RV_V10 (sample_member ''@d:x'' ''@d:x'' M_JOIN) sample_state \<or>
   creator_named RV_V10 (sample_member ''@d:x'' ''@d:x'' M_JOIN) sample_state \<and>
    (\<exists>t create mi. ev_state_key (sample_member ''@d:x'' ''@d:x'' M_JOIN) = Some t \<and>
       sample_state CREATE_KEY = Some create \<and> server_admitted create t sample_state \<and>
       gather_member_info RV_V10 (ev_sender (sample_member ''@d:x'' ''@d:x'' M_JOIN)) t sample_state
         = Inr mi \<and>
       join_permitted RV_V10 (sample_member ''@d:x'' ''@d:x'' M_JOIN) sample_state (mi_invite_level mi))"
proof -
  have "is_membership_change_allowed sample_ext RV_V10 (sample_member ''@d:x'' ''@d:x'' M_JOIN)
      sample_state = Inr ()"
    by code_simp
  then show ?thesis
    by (subst (asm) join_allowed_iff) (simp add: sample_defs)
qed

text \<open>C3: moderation needs strictly more power. If a membership change of somebody else to \<^verbatim>\<open>leave\<close> or
  \<^verbatim>\<open>ban\<close> is accepted, the sender is joined, has at least the level the room requires for it, and is
  strictly above the target.\<close>

theorem moderation_needs_power:
  assumes "is_membership_change_allowed x rv event d = Inr ()"
    and "map_of (ev_content event) ''membership'' = Some (JStr m)" "m \<in> {M_LEAVE, M_BAN}"
    and "ev_state_key event = Some t" "t \<noteq> ev_sender event"
  shows "has_membership d (ev_sender event) M_JOIN \<and>
    (\<exists>l l' n. get_user_power_level (ev_sender event) d = Inr l \<and> get_user_power_level t d = Inr l' \<and>
       get_named_level d (if m = M_BAN then ''ban'' else ''kick'') 50 = Inr n \<and> l' < l \<and> n \<le> l)"
  using assms(1,2,4)
proof (cases rule: membership_change_accepted)
  case 1
  then show ?thesis using assms(3) by (auto simp: creator_first_join_def)
next
  case (2 mi)
  note info = gather_member_info_eq_Inr [OF 2(1)]
  show ?thesis
    using 2(2) assms(3,5) info
    by (auto simp: membership_rules_def check_leave_def check_ban_def bindR_eq_Inr not_less not_le
        split: if_splits)
qed

theorem moderation_needs_power_witness:
  "has_membership sample_state ''@b:x'' M_JOIN \<and>
    (\<exists>l l' n. get_user_power_level ''@b:x'' sample_state = Inr l \<and>
       get_user_power_level ''@c:x'' sample_state = Inr l' \<and>
       get_named_level sample_state ''ban'' 50 = Inr n \<and> l' < l \<and> n \<le> l)"
proof -
  have "is_membership_change_allowed sample_ext RV_V10 (sample_member ''@b:x'' ''@c:x'' M_BAN)
      sample_state = Inr ()"
    by code_simp
  from moderation_needs_power [OF this, of M_BAN "''@c:x''"] show ?thesis
    by (simp add: sample_member_def sample_event_def)
qed


section \<open>Power levels, senders and auth events\<close>

text \<open>Only an object gives a level under a name, and then iterating over it yields that name.\<close>

lemma level_at_JStr:
  assumes "level_at loc (JStr u) = Inr (Some n)" "py_iter loc = Inr ks"
  shows "JStr u \<in> set ks"
proof (cases loc)
  case (JObj kvs)
  then show ?thesis
    using assms by (force simp: level_at_def bindR_eq_Inr split: if_splits option.splits
        dest: map_of_SomeD)
qed (use assms in \<open>auto simp: level_at_def bindR_eq_Inr split: if_splits\<close>)

lemma levels_in_JStr:
  assumes "levels_in k old new = Inr ls" "level_at old (JStr u) = Inr a" "level_at new (JStr u) = Inr b"
    and "a \<noteq> None \<or> b \<noteq> None"
  shows "(JStr u, Some k) \<in> set ls"
proof -
  obtain oo nn ks where on: "py_iter old = Inr oo" "py_iter new = Inr nn"
    and ks: "py_set (oo @ nn) = Inr ks" and ls: "ls = map (\<lambda>x. (x, Some k)) ks"
    using assms(1) by (auto simp: levels_in_def bindR_eq_Inr)
  have "JStr u \<in> set (oo @ nn)"
    using assms(2-4) on level_at_JStr by (auto dest!: level_at_JStr)
  then show ?thesis
    using py_set_JStr_in [OF ks] by (auto simp: ls)
qed

lemma check_level_eq_Inr:
  assumes "check_level s l old new (k, dct) = Inr ()"
    and "level_at (loc_of old dct) k = Inr a" "level_at (loc_of new dct) k = Inr b" "a \<noteq> b"
  shows "(\<forall>n. a = Some n \<longrightarrow> n \<le> l) \<and> (\<forall>n. b = Some n \<longrightarrow> n \<le> l)"
    and "dct = Some ''users'' \<Longrightarrow> k \<noteq> JStr s \<Longrightarrow> a \<noteq> Some l"
  using assms by (auto simp: check_level_def bindR_eq_Inr split: if_splits option.splits)

lemma check_power_levels_accepted:
  assumes "check_power_levels rv event d = Inr ()"
    and "ev_state_key event = Some k" "d (ev_type event, k) = Some cur"
  obtains l ls where "get_user_power_level (ev_sender event) d = Inr l"
    "levels_to_check rv (ev_content cur) (ev_content event) = Inr ls"
    "\<forall>y \<in> set ls. check_level (ev_sender event) l (ev_content cur) (ev_content event) y = Inr ()"
  using assms
  by (force simp: check_power_levels_def bindR_eq_Inr forR_eq_Inr split_beta)

text \<open>The levels a power-levels content can state that a change is checked for: the seven levels at
  the top, and every entry of the dictionaries of users, of event types and, in room versions that
  limit them, of notifications. \<open>None\<close> is the content itself, \<open>Some\<close> the dictionary of that name.\<close>

definition guarded_level :: "room_version \<Rightarrow> string option \<Rightarrow> string \<Rightarrow> bool" where
  "guarded_level rv dct name \<longleftrightarrow>
     dct = None \<and> name \<in> {''users_default'', ''events_default'', ''state_default'', ''ban'', ''redact'',
       ''kick'', ''invite''} \<or>
     dct = Some ''users'' \<or> dct = Some ''events'' \<or>
     dct = Some ''notifications'' \<and> rv_limit_notifications_power_levels rv"

definition stated_level :: "jobj \<Rightarrow> string option \<Rightarrow> string \<Rightarrow> int option res" where
  "stated_level content dct name =
     level_at (case dct of None \<Rightarrow> JObj content | Some k \<Rightarrow> get_default content k (JObj [])) (JStr name)"

text \<open>Every guarded level that is stated before or after a change is among those the loop checks.\<close>

lemma guarded_level_checked:
  assumes ls: "levels_to_check rv old new = Inr ls" and g: "guarded_level rv dct name"
    and "stated_level old dct name = Inr a" "stated_level new dct name = Inr b" "a \<noteq> None \<or> b \<noteq> None"
  shows "(JStr name, dct) \<in> set ls"
proof (cases dct)
  case None
  then show ?thesis
    using ls g by (auto simp: levels_to_check_def guarded_level_def bindR_eq_Inr)
next
  case (Some k)
  have "\<exists>us. levels_in k (get_default old k (JObj [])) (get_default new k (JObj [])) = Inr us \<and>
      set us \<subseteq> set ls"
    using ls g Some by (auto simp: levels_to_check_def guarded_level_def bindR_eq_Inr)
  then obtain us where "levels_in k (get_default old k (JObj [])) (get_default new k (JObj [])) = Inr us"
    "set us \<subseteq> set ls" by blast
  then show ?thesis
    using levels_in_JStr [of k _ _ us name a b] assms(3-) Some by (auto simp: stated_level_def)
qed

text \<open>C4: no privilege escalation. When a change of the power levels of a room is accepted (an event
  that replaces one under its own type and state key), then for every level that is checked and that
  changes, be it one of \<^verbatim>\<open>users_default\<close>, \<^verbatim>\<open>events_default\<close>, \<^verbatim>\<open>state_default\<close>, \<^verbatim>\<open>ban\<close>, \<^verbatim>\<open>redact\<close>, \<^verbatim>\<open>kick\<close> and
  \<^verbatim>\<open>invite\<close>, the level of a user, of an event type or, where the room version limits them, of a
  notification: neither the old nor the new level is above the sender's own current level, and the
  old level of another user is strictly below it. An absent level has no value: the defaults that
  then apply are not compared.\<close>

theorem power_levels_no_escalation:
  assumes "check_power_levels rv event d = Inr ()"
    and "ev_state_key event = Some k" "d (ev_type event, k) = Some cur"
    and "guarded_level rv dct name"
    and "stated_level (ev_content cur) dct name = Inr a" "stated_level (ev_content event) dct name = Inr b"
    and "a \<noteq> b"
  shows "\<exists>l. get_user_power_level (ev_sender event) d = Inr l \<and>
    (\<forall>n. a = Some n \<longrightarrow> n \<le> l \<and> (dct = Some ''users'' \<and> name \<noteq> ev_sender event \<longrightarrow> n < l)) \<and>
    (\<forall>n. b = Some n \<longrightarrow> n \<le> l)"
proof -
  from assms(1-3) obtain l ls where l: "get_user_power_level (ev_sender event) d = Inr l"
    and ls: "levels_to_check rv (ev_content cur) (ev_content event) = Inr ls"
    and ok: "\<forall>y \<in> set ls. check_level (ev_sender event) l (ev_content cur) (ev_content event) y = Inr ()"
    by (rule check_power_levels_accepted)
  have "check_level (ev_sender event) l (ev_content cur) (ev_content event) (JStr name, dct) = Inr ()"
    using guarded_level_checked [OF ls assms(4-6)] ok assms(7) by (cases a; cases b) auto
  from check_level_eq_Inr [OF this _ _ assms(7)] show ?thesis
    using assms(5,6) by (intro exI [of _ l]) (auto simp: l order_less_le stated_level_def loc_of_def)
qed

definition sample_levels2 :: event where
  "sample_levels2 = sample_event ''$pl2'' ET_PowerLevels ''@a:x'' ''''
     [(''users'', JObj [(''@a:x'', JInt 100), (''@b:x'', JInt 75)]), (''ban'', JInt 60)]"

theorem power_levels_no_escalation_witness:
  "(\<exists>l. get_user_power_level ''@a:x'' sample_state = Inr l \<and> 50 < l \<and> 75 \<le> l) \<and>
   (\<exists>l. get_user_power_level ''@a:x'' sample_state = Inr l \<and> 60 \<le> l)"
proof -
  have 1: "check_power_levels RV_V10 sample_levels2 sample_state = Inr ()"
    by code_simp
  have 2: "sample_state (ev_type sample_levels2, '''') = Some sample_levels"
    by (simp add: sample_levels2_def sample_defs)
  have 3: "ev_sender sample_levels2 = ''@a:x''"
    by (simp add: sample_levels2_def sample_event_def)
  note defs = sample_levels2_def sample_levels_def sample_event_def stated_level_def guarded_level_def
    level_at_def get_default_def
  show ?thesis
    using power_levels_no_escalation [OF 1 _ 2, of "Some ''users''" "''@b:x''" "Some 50" "Some 75"]
      power_levels_no_escalation [OF 1 _ 2, of None "''ban''" None "Some 60"] unfolding 3
    by (simp add: defs) blast
qed

text \<open>What an accepted event that is neither a create, a membership nor a special-cased aliases
  event tells: there is a create event, the sender's server may take part in the room, the sender is
  joined, and, unless it is a third-party invite, has the power level the event type requires.\<close>

lemma accepted_event_sender:
  assumes "state_dependent_rules x event d = Inr event'"
    and "ev_type event \<noteq> ET_Member"
    and "\<not> (ev_type event = ET_Aliases \<and> rv_special_case_aliases_auth (ev_room_version event))"
  shows "\<exists>create l. d CREATE_KEY = Some create \<and>
    (get_domain_from_id (ev_sender create) = get_domain_from_id (ev_sender event) \<or> can_federate d) \<and>
    has_membership d (ev_sender event) M_JOIN \<and>
    get_user_power_level (ev_sender event) d = Inr l \<and>
    (if ev_type event = ET_ThirdPartyInvite
     then \<exists>n. get_named_level d ''invite'' 0 = Inr n \<and> n \<le> l
     else \<exists>n. get_send_level (ev_type event) (ev_state_key event) (get_power_level_event d) = Inr n \<and>
       n \<le> l)"
proof -
  from assms obtain create where c: "d CREATE_KEY = Some create"
    "get_domain_from_id (ev_sender create) = get_domain_from_id (ev_sender event) \<or> can_federate d"
    "has_membership d (ev_sender event) M_JOIN"
    by (auto simp: state_dependent_rules_def bindR_eq_Inr check_event_sender_in_room_def
        check_joined_room_eq_Inr split: option.splits if_splits)
  have "\<exists>l. get_user_power_level (ev_sender event) d = Inr l \<and>
    (if ev_type event = ET_ThirdPartyInvite
     then \<exists>n. get_named_level d ''invite'' 0 = Inr n \<and> n \<le> l
     else \<exists>n. get_send_level (ev_type event) (ev_state_key event) (get_power_level_event d) = Inr n \<and>
       n \<le> l)"
    using assms
    by (auto simp: state_dependent_rules_def bindR_eq_Inr can_send_event_def Let_def not_less
        split: option.splits if_splits)
  with c show ?thesis by blast
qed

lemma accepted_event_sender_witness:
  "\<exists>create l. sample_state CREATE_KEY = Some create \<and>
    (get_domain_from_id (ev_sender create) = get_domain_from_id ''@a:x'' \<or> can_federate sample_state) \<and>
    has_membership sample_state ''@a:x'' M_JOIN \<and> get_user_power_level ''@a:x'' sample_state = Inr l"
proof -
  have "state_dependent_rules sample_ext sample_levels2 sample_state = Inr sample_levels2"
    by code_simp
  from accepted_event_sender [OF this] show ?thesis
    by (auto simp: sample_levels2_def sample_event_def)
qed


text \<open>What one auth event has to satisfy to be accepted.\<close>

definition good_auth_event :: "bool \<Rightarrow> event \<Rightarrow> state_key set \<Rightarrow> event \<Rightarrow> bool" where
  "good_auth_event allow event expected e \<longleftrightarrow>
     ev_room_id e = ev_room_id event \<and>
     (case ev_state_key e of None \<Rightarrow> False | Some k \<Rightarrow> (ev_type e, k) \<in> expected) \<and>
     (ev_rejected_reason e \<in> {None, Some ''''} \<or>
      allow \<and> is_forgivable_partial_state_rejection event e = Inr True)"

definition auth_key :: "(string \<rightharpoonup> event) \<Rightarrow> string \<Rightarrow> state_key" where
  "auth_key lookup i = (case lookup i of Some e \<Rightarrow> (ev_type e, the (ev_state_key e)) | None \<Rightarrow> CREATE_KEY)"

lemma check_auth_event_eq_Inr:
  "check_auth_event allow lookup event expected d i = Inr d' \<longleftrightarrow>
   (\<exists>e. lookup i = Some e \<and> good_auth_event allow event expected e \<and>
      d (auth_key lookup i) = None \<and> d' = d(auth_key lookup i \<mapsto> i))"
  by (auto simp: check_auth_event_def good_auth_event_def auth_key_def Let_def bindR_eq_Inr
      split: option.splits if_splits)

lemma check_auth_events_loop_eq_Inr:
  assumes "check_auth_events_loop allow lookup event expected d ids = Inr d'"
  shows "(\<forall>i \<in> set ids. \<exists>e. lookup i = Some e \<and> good_auth_event allow event expected e) \<and>
    distinct (map (auth_key lookup) ids) \<and> (\<forall>i \<in> set ids. d (auth_key lookup i) = None) \<and>
    (\<forall>k. k \<notin> auth_key lookup ` set ids \<longrightarrow> d' k = d k) \<and>
    (\<forall>i \<in> set ids. d' (auth_key lookup i) = Some i)"
  using assms
proof (induction ids arbitrary: d)
  case (Cons i ids)
  then obtain e where e: "lookup i = Some e" "good_auth_event allow event expected e"
    "d (auth_key lookup i) = None"
    and rest: "check_auth_events_loop allow lookup event expected (d(auth_key lookup i \<mapsto> i)) ids = Inr d'"
    by (auto simp: bindR_eq_Inr check_auth_event_eq_Inr)
  note IH = Cons.IH [OF rest]
  then have new: "auth_key lookup i \<notin> auth_key lookup ` set ids" by auto
  with IH have "d' (auth_key lookup i) = Some i" by (simp del: split_paired_All)
  moreover have "\<forall>j \<in> set ids. d (auth_key lookup j) = None"
    using IH new by (metis fun_upd_other imageI)
  moreover have "\<forall>k. k \<notin> auth_key lookup ` set (i # ids) \<longrightarrow> d' k = d k"
    using IH by (simp del: split_paired_All)
  ultimately show ?case
    using e new IH by (auto simp del: split_paired_All)
qed simp

lemma check_state_independent_accepted:
  assumes "check_state_independent_auth_rules x store event batch rejs allow = Inr ()"
    and "ev_type event \<noteq> ET_Create"
  obtains ks auth where "auth_types_for_event (ev_room_version event) event = Inr ks"
    "check_auth_events_loop allow (lookup_event batch store) event ks Map.empty
       (ev_auth_event_ids event) = Inr auth"
    "auth CREATE_KEY \<notin> {None, Some ''''}"
  using assms by (auto simp: check_state_independent_auth_rules_def bindR_eq_Inr)

text \<open>C5: an event that passes the state-independent rules names auth events that are all known,
  belong to its own room, are state events the selection algorithm expects, are not rejected (or are
  the forgivable partial-state rejection, when the caller allows those), no two of them for the same
  (type, state key) pair, and a create event is among them.\<close>

theorem state_independent_rules_sound:
  assumes "check_state_independent_auth_rules x store event batch rejs allow = Inr ()"
    and "ev_type event \<noteq> ET_Create"
  shows "\<exists>ks. auth_types_for_event (ev_room_version event) event = Inr ks \<and>
    (\<forall>i \<in> set (ev_auth_event_ids event). \<exists>e. lookup_event batch store i = Some e \<and>
       good_auth_event allow event ks e) \<and>
    distinct (map (auth_key (lookup_event batch store)) (ev_auth_event_ids event)) \<and>
    (\<exists>i \<in> set (ev_auth_event_ids event). auth_key (lookup_event batch store) i = CREATE_KEY)"
proof -
  from assms obtain ks auth where ks: "auth_types_for_event (ev_room_version event) event = Inr ks"
    and loop: "check_auth_events_loop allow (lookup_event batch store) event ks Map.empty
      (ev_auth_event_ids event) = Inr auth"
    and create: "auth CREATE_KEY \<notin> {None, Some ''''}"
    by (rule check_state_independent_accepted)
  note L = check_auth_events_loop_eq_Inr [OF loop]
  have "k \<notin> auth_key (lookup_event batch store) ` set (ev_auth_event_ids event) \<Longrightarrow> auth k = None" for k
    using L by (simp del: split_paired_All)
  then have "CREATE_KEY \<in> auth_key (lookup_event batch store) ` set (ev_auth_event_ids event)"
    using create by blast
  then have "\<exists>i \<in> set (ev_auth_event_ids event). auth_key (lookup_event batch store) i = CREATE_KEY"
    by (auto simp: image_iff)
  with ks L show ?thesis by blast
qed

definition sample_store :: "string \<rightharpoonup> event" where
  "sample_store = [''$create'' \<mapsto> sample_create, ''$pl'' \<mapsto> sample_levels,
     ''$m@b:x'' \<mapsto> sample_member ''@b:x'' ''@b:x'' M_JOIN]"

definition sample_topic :: event where
  "sample_topic = (sample_event ''$t'' ''m.room.topic'' ''@b:x'' '''' [])
     \<lparr>ev_auth_event_ids := [''$create'', ''$pl'', ''$m@b:x'']\<rparr>"

theorem state_independent_rules_sound_witness:
  "\<exists>ks. auth_types_for_event (ev_room_version sample_topic) sample_topic = Inr ks \<and>
    (\<forall>i \<in> set (ev_auth_event_ids sample_topic). \<exists>e. lookup_event Map.empty sample_store i = Some e \<and>
       good_auth_event False sample_topic ks e) \<and>
    distinct (map (auth_key (lookup_event Map.empty sample_store)) (ev_auth_event_ids sample_topic)) \<and>
    (\<exists>i \<in> set (ev_auth_event_ids sample_topic).
       auth_key (lookup_event Map.empty sample_store) i = CREATE_KEY)"
proof (rule state_independent_rules_sound)
  show "check_state_independent_auth_rules sample_ext sample_store sample_topic Map.empty Map.empty
      False = Inr ()"
    by code_simp
  show "ev_type sample_topic \<noteq> ET_Create"
    by code_simp
qed

text \<open>In rooms that track state through \<^verbatim>\<open>prev_state_events\<close> (MSC4242) an accepted event has only
  known, unrejected state events of its own room among them, whether the rejection is recorded on
  the event or reported for the batch.\<close>

lemma prev_state_events_sound:
  assumes "check_state_independent_auth_rules x store event batch rejs allow = Inr ()"
    and "ev_type event \<noteq> ET_Create" "rv_msc4242_state_dags (ev_room_version event)"
    and "i \<in> set (ev_prev_state_events event)"
  shows "\<exists>e. lookup_event batch store i = Some e \<and> ev_room_id e = ev_room_id event \<and> is_state e \<and>
    ev_rejected_reason e = None \<and> rejs (ev_event_id e) = None"
proof -
  have "check_prev_state_events batch rejs store event = Inr ()"
    using assms(1-3)
    by (auto simp: check_state_independent_auth_rules_def supports_msc4242_state_dag_def bindR_eq_Inr)
  then have known: "lookup_event batch store i \<noteq> None"
    and "check_prev_state_event rejs event (the (lookup_event batch store i)) = Inr ()"
    using assms(4)
    by (force simp: check_prev_state_events_def Let_def list_ex_iff forR_eq_Inr split: if_splits)+
  then show ?thesis
    by (auto simp: check_prev_state_event_def bindR_eq_Inr)
qed

definition sample_dag_event :: event where
  "sample_dag_event = sample_topic\<lparr>ev_room_version := RV_MSC4242V12,
     ev_prev_state_events := [''$pl'', ''$m@b:x'']\<rparr>"

lemma prev_state_events_sound_witness:
  "\<exists>e. lookup_event Map.empty sample_store ''$pl'' = Some e \<and>
     ev_room_id e = ev_room_id sample_dag_event \<and> is_state e \<and>
     ev_rejected_reason e = None \<and> Map.empty (ev_event_id e) = (None :: string option)"
proof (rule prev_state_events_sound)
  show "check_state_independent_auth_rules sample_ext sample_store sample_dag_event Map.empty
      Map.empty False = Inr ()"
    by code_simp
qed (code_simp | simp add: sample_dag_event_def)+


section \<open>Redactions, sizes and third-party invites\<close>

text \<open>An accepted redaction by a sender below the room's redaction level comes, in room versions 1
  and 2, from the server that created the redacted event; in later versions it is accepted but
  marked to be rechecked when the redacted event is known. A sender with enough power is accepted
  with the event unchanged.\<close>

lemma redaction_needs_power_or_origin:
  assumes "check_redaction rv event d = Inr (same_origin, event')"
  shows "\<exists>l n. get_user_power_level (ev_sender event) d = Inr l \<and> get_named_level d ''redact'' 50 = Inr n \<and>
    (if n \<le> l then event' = event \<and> \<not> same_origin
     else if rv_event_format rv = ROOM_V1_V2 then
       event' = event \<and> (\<forall>r. ev_redacts event = Some (JStr r) \<longrightarrow>
         same_origin \<and> get_domain_from_id r = get_domain_from_id (ev_event_id event))
     else same_origin \<and> event' = event\<lparr>ev_recheck_redaction := True\<rparr>)"
proof -
  from assms obtain l n where ln: "get_user_power_level (ev_sender event) d = Inr l"
    "get_named_level d ''redact'' 50 = Inr n"
    by (auto simp: check_redaction_def bindR_eq_Inr)
  show ?thesis
  proof (cases "ev_redacts event")
    case None
    with assms ln show ?thesis by (auto simp: check_redaction_def bindR_eq_Inr)
  next
    case (Some r)
    with assms ln show ?thesis
      by (cases r) (auto simp: check_redaction_def bindR_eq_Inr split: if_splits)
  qed
qed

definition sample_redaction :: event where
  "sample_redaction = (sample_event ''$r'' ET_Redaction ''@c:x'' '''' [])\<lparr>ev_state_key := None\<rparr>"

lemma redaction_needs_power_or_origin_witness:
  "\<exists>l n. get_user_power_level (ev_sender sample_redaction) sample_state = Inr l \<and>
    get_named_level sample_state ''redact'' 50 = Inr n \<and>
    (if n \<le> l then (sample_redaction\<lparr>ev_recheck_redaction := True\<rparr>) = sample_redaction \<and> \<not> True
     else if rv_event_format RV_V10 = ROOM_V1_V2 then
       (sample_redaction\<lparr>ev_recheck_redaction := True\<rparr>) = sample_redaction \<and>
       (\<forall>r. ev_redacts sample_redaction = Some (JStr r) \<longrightarrow>
         True \<and> get_domain_from_id r = get_domain_from_id (ev_event_id sample_redaction))
     else True \<and> sample_redaction\<lparr>ev_recheck_redaction := True\<rparr> =
       sample_redaction\<lparr>ev_recheck_redaction := True\<rparr>)"
proof (rule redaction_needs_power_or_origin)
  show "check_redaction RV_V10 sample_redaction sample_state =
      Inr (True, sample_redaction\<lparr>ev_recheck_redaction := True\<rparr>)"
    by code_simp
qed

lemma length_le_255: "utf8_len s \<le> 255 \<Longrightarrow> length s \<le> 255"
  using length_le_utf8_len [of s] by linarith

text \<open>The five identifiers of an event that are limited to 255 bytes.\<close>

definition limited_fields :: "event \<Rightarrow> string list" where
  "limited_fields e = [ev_sender e, ev_room_id e, ev_type e, ev_event_id e] @
     (case ev_state_key e of None \<Rightarrow> [] | Some k \<Rightarrow> [k])"

text \<open>The size check accepts exactly the events whose JSON fits in 65536 bytes and whose
  identifiers fit in 255 bytes of UTF-8; and when it refuses, the event is reported as one that must
  not be persisted exactly when it is too large as a whole, an identifier has more than 255 code
  points, or the room version enforces the byte limits.\<close>

lemma check_size_limits_iff:
  "(check_size_limits x event = Inr () \<longleftrightarrow>
      ext_pdu_json_len x event \<le> MAX_PDU_SIZE \<and> (\<forall>s. s \<in> set (limited_fields event) \<longrightarrow> utf8_len s \<le> 255)) \<and>
   (\<forall>m unpersistable. check_size_limits x event = Inl (EventSizeError m unpersistable) \<longrightarrow>
      (unpersistable \<longleftrightarrow> ext_pdu_json_len x event > MAX_PDU_SIZE \<or>
         list_ex (\<lambda>s. length s > 255) (limited_fields event) \<or>
         rv_strict_event_byte_limits (ev_room_version event)))"
proof (intro conjI allI impI)
  show "check_size_limits x event = Inr () \<longleftrightarrow>
      ext_pdu_json_len x event \<le> MAX_PDU_SIZE \<and> (\<forall>s. s \<in> set (limited_fields event) \<longrightarrow> utf8_len s \<le> 255)"
    using length_le_255
    by (cases "ev_state_key event")
      (simp_all add: check_size_limits_def limited_fields_def Let_def is_state_def bindR_eq_Inr
        not_less all_conj_distrib imp_conjL, blast+)
next
  fix m u
  assume "check_size_limits x event = Inl (EventSizeError m u)"
  then show "u \<longleftrightarrow> ext_pdu_json_len x event > MAX_PDU_SIZE \<or>
         list_ex (\<lambda>s. length s > 255) (limited_fields event) \<or>
         rv_strict_event_byte_limits (ev_room_version event)"
    by (cases "ev_state_key event")
      (auto simp: check_size_limits_def limited_fields_def Let_def is_state_def bindR_eq_Inl)
qed

lemma check_size_limits_iff_witness:
  "check_size_limits sample_ext sample_topic = Inr () \<and>
   (\<exists>m. check_size_limits sample_ext (sample_topic\<lparr>ev_type := replicate 256 CHR ''a''\<rparr>) =
     Inl (EventSizeError m True))"
proof -
  have "utf8_len s \<le> 255" if "s \<in> set (limited_fields sample_topic)" for s
    using that
    by (auto simp: limited_fields_def sample_topic_def sample_event_def utf8_len_def)
  then have ok: "check_size_limits sample_ext sample_topic = Inr ()"
    using check_size_limits_iff [of sample_ext sample_topic] by (simp add: sample_ext_def)
  let ?e = "sample_topic\<lparr>ev_type := replicate 256 CHR ''a''\<rparr>"
  have "check_size_limits sample_ext ?e = Inl (EventSizeError ''type too large'' True)"
    by (simp add: check_size_limits_def sample_ext_def sample_topic_def sample_event_def is_state_def
        bindR_raise_if Let_def)
  with ok show ?thesis by blast
qed

lemma verify_key_names_True:
  "verify_key_names x signed server public_key ks = Inr True \<Longrightarrow>
   \<exists>k \<in> set ks. str_prefix ''ed25519:'' k \<and> ext_verify_signed x signed server k public_key = Inr ()"
  by (induction ks) (auto simp: bindR_eq_Inr split: if_splits)

lemma verify_signature_blocks_True:
  "verify_signature_blocks x signed public_key sigs = Inr True \<Longrightarrow>
   \<exists>server k. str_prefix ''ed25519:'' k \<and> ext_verify_signed x signed server k public_key = Inr ()"
  by (induction sigs) (auto simp: bindR_eq_Inr dest!: verify_key_names_True split: if_splits, blast)

lemma verify_public_keys_True:
  "verify_public_keys x signed keys = Inr True \<Longrightarrow>
   \<exists>o' \<in> set keys. \<exists>public_key server k. py_getitem o' (JStr ''public_key'') = Inr public_key \<and>
     str_prefix ''ed25519:'' k \<and> ext_verify_signed x signed server k public_key = Inr ()"
proof (induction keys)
  case (Cons o' keys)
  then obtain public_key where pk: "py_getitem o' (JStr ''public_key'') = Inr public_key"
    by (auto simp: bindR_eq_Inr)
  show ?case
  proof (cases "bindR (py_getitem signed (JStr ''signatures'')) (\<lambda>sigs.
      bindR (py_items sigs) (verify_signature_blocks x signed public_key)) = Inr True")
    case True
    then show ?thesis
      using pk by (auto simp: bindR_eq_Inr dest!: verify_signature_blocks_True)
  next
    case False
    with Cons.prems pk have "verify_public_keys x signed keys = Inr True"
      by (auto split: sum.splits if_splits bool.splits)
    with Cons.IH show ?thesis by auto
  qed
qed simp

text \<open>A third-party invite is honoured only when the state holds, under the token of the signed
  block, a third-party invite sent by the very sender of this event, the signed block names the
  invited user, and one of that invite's public keys verifies an ed25519 signature of the block.\<close>

lemma third_party_invite_sound:
  assumes "verify_third_party_invite x event d = Inr True"
  shows "\<exists>tpi signed token invite t public_key keys o' server k.
    map_of (ev_content event) ''third_party_invite'' = Some (JObj tpi) \<and>
    map_of tpi ''signed'' = Some (JObj signed) \<and>
    map_of signed ''token'' = Some (JStr token) \<and> d (ET_ThirdPartyInvite, token) = Some invite \<and>
    ev_sender invite = ev_sender event \<and>
    ev_state_key event = Some t \<and> map_of signed ''mxid'' = Some (JStr t) \<and>
    get_public_keys invite = Inr keys \<and> o' \<in> set keys \<and>
    py_getitem o' (JStr ''public_key'') = Inr public_key \<and> str_prefix ''ed25519:'' k \<and>
    ext_verify_signed x (JObj signed) server k public_key = Inr ()"
proof -
  from assms obtain tpi signed token invite t keys where
    *: "map_of (ev_content event) ''third_party_invite'' = Some (JObj tpi)"
      "map_of tpi ''signed'' = Some (JObj signed)" "map_of signed ''token'' = Some (JStr token)"
      "d (ET_ThirdPartyInvite, token) = Some invite" "ev_sender invite = ev_sender event"
      "ev_state_key event = Some t" "map_of signed ''mxid'' = Some (JStr t)"
      "get_public_keys invite = Inr keys" "verify_public_keys x (JObj signed) keys = Inr True"
    by (auto simp: verify_third_party_invite_def lookup_json_key_def bindR_eq_Inr
        split: option.splits json.splits if_splits)
  from verify_public_keys_True [OF *(9)] * show ?thesis by blast
qed

definition sample_3pid_ext :: ext where
  "sample_3pid_ext = sample_ext\<lparr>ext_verify_signed := (\<lambda>_ _ _ k. if k = JStr ''pk'' then Inr ()
     else Inl SignatureVerifyException)\<rparr>"

definition sample_3pid_invite :: event where
  "sample_3pid_invite = sample_event ''$i'' ET_Member ''@b:x'' ''@d:x''
     [(''membership'', JStr M_INVITE), (''third_party_invite'', JObj [(''signed'',
        JObj [(''mxid'', JStr ''@d:x''), (''token'', JStr ''tok''),
          (''signatures'', JObj [(''x'', JObj [(''ed25519:0'', JStr ''sig'')])])])])]"

definition sample_3pid_state :: event_state where
  "sample_3pid_state = sample_state((ET_ThirdPartyInvite, ''tok'') \<mapsto>
     sample_event ''$tpi'' ET_ThirdPartyInvite ''@b:x'' ''tok'' [(''public_key'', JStr ''pk'')])"

lemma third_party_invite_sound_witness:
  "\<exists>tpi signed token invite t public_key keys o' server k.
    map_of (ev_content sample_3pid_invite) ''third_party_invite'' = Some (JObj tpi) \<and>
    map_of tpi ''signed'' = Some (JObj signed) \<and>
    map_of signed ''token'' = Some (JStr token) \<and>
    sample_3pid_state (ET_ThirdPartyInvite, token) = Some invite \<and>
    ev_sender invite = ev_sender sample_3pid_invite \<and>
    ev_state_key sample_3pid_invite = Some t \<and> map_of signed ''mxid'' = Some (JStr t) \<and>
    get_public_keys invite = Inr keys \<and> o' \<in> set keys \<and>
    py_getitem o' (JStr ''public_key'') = Inr public_key \<and> str_prefix ''ed25519:'' k \<and>
    ext_verify_signed sample_3pid_ext (JObj signed) server k public_key = Inr ()"
proof (rule third_party_invite_sound)
  show "verify_third_party_invite sample_3pid_ext sample_3pid_invite sample_3pid_state = Inr True"
    by code_simp
qed

end
