(* ===== verification/Overlay_Map.thy ===== *)
theory Overlay_Map
  imports Prelude
begin

text \<open>
  \<^verbatim>\<open>MutableOverlayMapping\<close> of \<^verbatim>\<open>synapse/util/__init__.py\<close>: a dictionary that records changes over a
  read-only one, possibly itself an overlay. Python dictionaries keep their insertion order and are
  association lists with distinct keys here; the set of deletions is a list without duplicates.

  The interface \<open>mutable_map\<close> states what a client of a Python mutable mapping relies on; the overlay
  is an instance of it, and so is a plain dictionary.
\<close>

section \<open>Python dictionaries\<close>

type_synonym ('k, 'v) dict = "('k \<times> 'v) list"

fun dict_set :: "'k \<Rightarrow> 'v \<Rightarrow> ('k, 'v) dict \<Rightarrow> ('k, 'v) dict" where
  "dict_set k v [] = [(k, v)]"
| "dict_set k v (e # es) = (if fst e = k then (k, v) # es else e # dict_set k v es)"

definition dict_pop :: "'k \<Rightarrow> ('k, 'v) dict \<Rightarrow> ('k, 'v) dict" where
  "dict_pop k = filter (\<lambda>e. fst e \<noteq> k)"

definition dict_wf :: "('k, 'v) dict \<Rightarrow> bool" where
  "dict_wf d \<longleftrightarrow> distinct (map fst d)"

text \<open>\<^verbatim>\<open>d.get(k, default)\<close>.\<close>

definition dict_get :: "'k \<Rightarrow> 'v \<Rightarrow> ('k, 'v) dict \<Rightarrow> 'v" where
  "dict_get k d m = (case map_of m k of None \<Rightarrow> d | Some v \<Rightarrow> v)"

lemma map_of_dict_set [simp]: "map_of (dict_set k v d) = (map_of d)(k \<mapsto> v)"
  by (induction d) (auto simp: fun_eq_iff)

lemma dict_get_set: "dict_get k d (dict_set k' v m) = (if k = k' then v else dict_get k d m)"
  by (simp add: dict_get_def)

lemma dict_get_Cons: "dict_get k d [] = d" "dict_get k d (e # m) = (if k = fst e then snd e else dict_get k d m)"
  by (simp_all add: dict_get_def)
lemma map_of_dict_pop [simp]: "map_of (dict_pop k d) = (map_of d)(k := None)"
  unfolding dict_pop_def by (induction d) (auto simp: fun_eq_iff)

lemma dict_set_subset: "set (dict_set k v d) \<subseteq> insert (k, v) (set d)"
  by (induction d) auto

lemma fst_set_dict_set [simp]: "fst ` set (dict_set k v d) = insert k (fst ` set d)"
  by (induction d) auto

lemma dict_wf_simps [simp]: "dict_wf []" "dict_wf d \<Longrightarrow> dict_wf (dict_set k v d)"
  "dict_wf d \<Longrightarrow> dict_wf (dict_pop k d)"
proof -
  show "dict_wf (dict_set k v d)" if "dict_wf d"
    using that unfolding dict_wf_def by (induction d) auto
  show "dict_wf (dict_pop k d)" if "dict_wf d"
    using that unfolding dict_wf_def dict_pop_def by (induction d) auto
qed (simp add: dict_wf_def)

lemma dict_dom: "fst ` set d = dom (map_of d)"
  by (simp add: dom_map_of_conv_image_fst)

lemma dict_wf_filter: "dict_wf d \<Longrightarrow> dict_wf (filter P d)"
  unfolding dict_wf_def by (rule distinct_map_filter)

lemma map_of_filter_wf:
  "dict_wf d \<Longrightarrow> map_of (filter P d) k =
     (case map_of d k of None \<Rightarrow> None | Some v \<Rightarrow> if P (k, v) then Some v else None)"
  unfolding dict_wf_def by (induction d) (auto split: option.splits dest: map_of_SomeD intro: rev_image_eqI)

lemma map_of_filter_key: "map_of (filter (\<lambda>(k, i). P k) d) k = (if P k then map_of d k else None)"
  by (induction d) auto

lemma dict_set_new: "k \<notin> fst ` set d \<Longrightarrow> dict_set k v d = d @ [(k, v)]"
  by (induction d) auto

text \<open>\<^verbatim>\<open>d.update(other)\<close>.\<close>

definition dict_update :: "('k, 'v) dict \<Rightarrow> ('k, 'v) dict \<Rightarrow> ('k, 'v) dict" where
  "dict_update d other = fold (\<lambda>(k, v). dict_set k v) other d"

lemma map_of_dict_update [simp]: "dict_wf e \<Longrightarrow> map_of (dict_update d e) = map_of d ++ map_of e"
proof (induction e arbitrary: d)
  case (Cons kv e)
  obtain k v where kv: "kv = (k, v)" by (cases kv) simp
  have "map_of e k = None" using Cons.prems by (simp add: dict_wf_def kv map_of_eq_None_iff)
  with Cons show ?case by (auto simp: dict_update_def dict_wf_def kv map_add_def fun_eq_iff split: option.splits)
qed (simp add: dict_update_def)

lemma dict_wf_update [simp]: "dict_wf d \<Longrightarrow> dict_wf (dict_update d e)"
  by (induction e arbitrary: d) (auto simp: dict_update_def split: prod.splits)

section \<open>The overlay\<close>

text \<open>The underlying map is a dictionary, or another overlay.\<close>

datatype ('k, 'v) overlay =
    Plain "('k, 'v) dict"
  | Overlay (ov_underlying: "('k, 'v) overlay") (ov_mutable: "('k, 'v) dict") (ov_deletions: "'k list")

definition overlay_new :: "('k, 'v) overlay \<Rightarrow> ('k, 'v) overlay" where
  "overlay_new m = Overlay m [] []"

fun overlay_getitem :: "('k, 'v) overlay \<Rightarrow> 'k \<Rightarrow> 'v res" where
  "overlay_getitem (Plain d) k = (case map_of d k of None \<Rightarrow> Inl KeyError | Some v \<Rightarrow> Inr v)"
| "overlay_getitem (Overlay u m dels) k =
     (if k \<in> set dels then Inl KeyError
      else case map_of m k of Some v \<Rightarrow> Inr v | None \<Rightarrow> overlay_getitem u k)"

text \<open>\<^verbatim>\<open>key in mapping\<close>, which \<^verbatim>\<open>collections.abc.Mapping\<close> derives from \<^verbatim>\<open>__getitem__\<close>.\<close>

definition overlay_contains :: "('k, 'v) overlay \<Rightarrow> 'k \<Rightarrow> bool" where
  "overlay_contains ov k = (case overlay_getitem ov k of Inl _ \<Rightarrow> False | Inr _ \<Rightarrow> True)"

text \<open>\<^verbatim>\<open>__setitem__\<close> and \<^verbatim>\<open>__delitem__\<close>.\<close>

fun overlay_setitem :: "('k, 'v) overlay \<Rightarrow> 'k \<Rightarrow> 'v \<Rightarrow> ('k, 'v) overlay" where
  "overlay_setitem (Plain d) k v = Plain (dict_set k v d)"
| "overlay_setitem (Overlay u m dels) k v = Overlay u (dict_set k v m) (removeAll k dels)"

definition overlay_delitem :: "('k, 'v) overlay \<Rightarrow> 'k \<Rightarrow> ('k, 'v) overlay res" where
  "overlay_delitem ov k =
     (if \<not> overlay_contains ov k then Inl KeyError
      else Inr (case ov of
          Plain d \<Rightarrow> Plain (dict_pop k d)
        | Overlay u m dels \<Rightarrow> Overlay u (dict_pop k m) (List.insert k dels)))"

fun overlay_iter :: "('k, 'v) overlay \<Rightarrow> 'k list" where
  "overlay_iter (Plain d) = map fst d"
| "overlay_iter (Overlay u m dels) =
     filter (\<lambda>k. k \<notin> set dels) (map fst m) @
     filter (\<lambda>k. k \<notin> set dels \<and> k \<notin> fst ` set m) (overlay_iter u)"

fun overlay_len :: "('k, 'v) overlay \<Rightarrow> int" where
  "overlay_len (Plain d) = int (length d)"
| "overlay_len (Overlay u m dels) =
     overlay_len u + int (length m)
       - int (card (fst ` set m \<inter> set (overlay_iter u)))
       - int (card (set (overlay_iter u) \<inter> set dels))"

fun overlay_total_entries :: "('k, 'v) overlay \<Rightarrow> nat" where
  "overlay_total_entries (Plain d) = length d"
| "overlay_total_entries (Overlay u m dels) = overlay_total_entries u + length m + length dels"

definition overlay_clear :: "('k, 'v) overlay \<Rightarrow> ('k, 'v) overlay" where
  "overlay_clear ov = (case ov of Plain d \<Rightarrow> Plain [] | Overlay u m dels \<Rightarrow> Overlay (Plain []) [] [])"

section \<open>The abstraction\<close>

fun overlay_map :: "('k, 'v) overlay \<Rightarrow> ('k \<rightharpoonup> 'v)" where
  "overlay_map (Plain d) = map_of d"
| "overlay_map (Overlay u m dels) =
     (\<lambda>k. if k \<in> set dels then None else (overlay_map u ++ map_of m) k)"

text \<open>Well-formed: dictionaries have distinct keys, and no key is both changed and deleted.\<close>

fun overlay_wf :: "('k, 'v) overlay \<Rightarrow> bool" where
  "overlay_wf (Plain d) = dict_wf d"
| "overlay_wf (Overlay u m dels) \<longleftrightarrow>
     overlay_wf u \<and> dict_wf m \<and> distinct dels \<and> fst ` set m \<inter> set dels = {}"

lemma item_res_inject:
  "(case a of None \<Rightarrow> Inl KeyError | Some v \<Rightarrow> Inr v) =
   (case b of None \<Rightarrow> Inl KeyError | Some v \<Rightarrow> Inr v) \<Longrightarrow> a = b"
  by (cases a; cases b) auto

lemma overlay_getitem_map:
  "overlay_getitem ov k = (case overlay_map ov k of None \<Rightarrow> Inl KeyError | Some v \<Rightarrow> Inr v)"
  by (induction ov) (auto simp: map_add_def split: option.splits)

lemma overlay_contains_map: "overlay_contains ov k \<longleftrightarrow> overlay_map ov k \<noteq> None"
  by (auto simp: overlay_contains_def overlay_getitem_map split: option.splits)

lemma overlay_setitem_map: "overlay_map (overlay_setitem ov k v) = (overlay_map ov)(k \<mapsto> v)"
  by (cases ov) (auto simp: fun_eq_iff map_add_def)

lemma overlay_delitem_map:
  "overlay_delitem ov k = Inr ov' \<Longrightarrow> overlay_map ov' = (overlay_map ov)(k := None)"
  by (cases ov) (auto simp: overlay_delitem_def fun_eq_iff map_add_def split: if_splits)

lemma overlay_delitem_eq_Inl:
  "overlay_delitem ov k = Inl e \<longleftrightarrow> overlay_map ov k = None \<and> e = KeyError"
  by (auto simp: overlay_delitem_def overlay_contains_map)

lemma overlay_new_map [simp]: "overlay_map (overlay_new m) = overlay_map m"
  by (simp add: overlay_new_def fun_eq_iff)

lemma overlay_iter_dom: "set (overlay_iter ov) = dom (overlay_map ov)"
proof (induction ov)
  case (Overlay u m dels)
  have "dom (\<lambda>k. if k \<in> set dels then None else f k) = dom f - set dels" for f :: "'a \<rightharpoonup> 'b"
    by (auto simp: dom_def split: if_splits)
  then show ?case
    using Overlay by (auto simp: dict_dom simp del: map_add_None)
qed (simp add: dict_dom)

lemma overlay_iter_distinct: "overlay_wf ov \<Longrightarrow> distinct (overlay_iter ov)"
  by (induction ov) (auto simp: dict_wf_def)

lemma overlay_wf_setitem: "overlay_wf ov \<Longrightarrow> overlay_wf (overlay_setitem ov k v)"
  by (cases ov) (auto simp: distinct_removeAll)

lemma overlay_wf_delitem:
  "overlay_wf ov \<Longrightarrow> overlay_delitem ov k = Inr ov' \<Longrightarrow> overlay_wf ov'"
  by (cases ov) (auto simp: overlay_delitem_def dict_dom disjoint_iff split: if_splits)

lemma overlay_len_iter: "overlay_wf ov \<Longrightarrow> overlay_len ov = int (length (overlay_iter ov))"
proof (induction ov)
  case (Overlay u m dels)
  let ?U = "set (overlay_iter u)" and ?M = "fst ` set m" and ?D = "set dels"
  have wf: "overlay_wf u" "distinct (map fst m)" "?M \<inter> ?D = {}"
    using Overlay.prems by (auto simp: dict_wf_def)
  have m: "length (filter (\<lambda>k. k \<notin> ?D) (map fst m)) = length m"
    using wf(3) by (subst filter_True) auto
  have u: "length (filter P (overlay_iter u)) = card {k \<in> ?U. P k}" for P
    by (metis overlay_iter_distinct wf(1) distinct_card distinct_filter set_filter)
  have len: "length (overlay_iter u) = card ?U"
    by (simp add: distinct_card overlay_iter_distinct wf(1))
  have "?U = {k \<in> ?U. k \<notin> ?D \<and> k \<notin> ?M} \<union> (?M \<inter> ?U) \<union> (?U \<inter> ?D)" by auto
  then have "card ?U = card ({k \<in> ?U. k \<notin> ?D \<and> k \<notin> ?M} \<union> (?M \<inter> ?U) \<union> (?U \<inter> ?D))" by simp
  also have "\<dots> = card {k \<in> ?U. k \<notin> ?D \<and> k \<notin> ?M} + card (?M \<inter> ?U) + card (?U \<inter> ?D)"
    using wf(3) by (subst card_Un_disjoint, auto)+
  finally show ?case
    using Overlay.IH [OF wf(1)] m u len by simp
qed simp

section \<open>The interface\<close>

locale mutable_map =
  fixes get :: "'m \<Rightarrow> 'k \<Rightarrow> 'v res"
    and set_item :: "'m \<Rightarrow> 'k \<Rightarrow> 'v \<Rightarrow> 'm"
    and keys :: "'m \<Rightarrow> 'k list"
  assumes get_set: "get (set_item m k v) k' = (if k' = k then Inr v else get m k')"
    and get_keys: "k \<in> set (keys m) \<longleftrightarrow> (\<exists>v. get m k = Inr v)"
begin

fun set_items :: "'m \<Rightarrow> ('k \<times> 'v) list \<Rightarrow> 'm" where
  "set_items m [] = m"
| "set_items m ((k, v) # kvs) = set_items (set_item m k v) kvs"

lemma get_set_items:
  "get (set_items m kvs) k = (case map_of (rev kvs) k of Some v \<Rightarrow> Inr v | None \<Rightarrow> get m k)"
  by (induction m kvs rule: set_items.induct)
    (auto simp: get_set map_add_def split: option.splits)

lemma keys_set_items: "set (keys (set_items m kvs)) = set (keys m) \<union> fst ` set kvs"
  by (induction m kvs rule: set_items.induct) (auto simp: get_keys get_set)

end

interpretation ovm: mutable_map overlay_getitem overlay_setitem overlay_iter
  by unfold_locales
    (auto simp: overlay_getitem_map overlay_setitem_map overlay_iter_dom split: option.splits)

text \<open>An overlay over any mapping behaves as a mutable copy of it. After any sequence of
  assignments every lookup, every membership test and the iteration agree with the same assignments
  applied to a copy; the underlying map is what it was.\<close>

lemma overlay_is_mutable_copy:
  "overlay_map (ovm.set_items (overlay_new m) kvs) = overlay_map m ++ map_of (rev kvs) \<and>
   set (overlay_iter (ovm.set_items (overlay_new m) kvs)) = dom (overlay_map m) \<union> fst ` set kvs \<and>
   ov_underlying (ovm.set_items (overlay_new m) kvs) = m"
proof (intro conjI)
  have "(case overlay_map (ovm.set_items (overlay_new m) kvs) k of None \<Rightarrow> Inl KeyError | Some v \<Rightarrow> Inr v) =
    (case (overlay_map m ++ map_of (rev kvs)) k of None \<Rightarrow> Inl KeyError | Some v \<Rightarrow> Inr v)" for k
    using ovm.get_set_items [of "overlay_new m" kvs k]
    by (simp add: overlay_getitem_map map_add_def split: option.splits)
  then show "overlay_map (ovm.set_items (overlay_new m) kvs) = overlay_map m ++ map_of (rev kvs)"
    by (intro ext item_res_inject)
  show "set (overlay_iter (ovm.set_items (overlay_new m) kvs)) = dom (overlay_map m) \<union> fst ` set kvs"
    using ovm.keys_set_items [of "overlay_new m" kvs] by (simp add: overlay_iter_dom)
  have "ov_underlying (ovm.set_items ov kvs) = ov_underlying ov \<and> (\<exists>u d x. ovm.set_items ov kvs = Overlay u d x)"
    if "\<exists>u d x. ov = Overlay u d x" for ov
    using that by (induction ov kvs rule: ovm.set_items.induct) auto
  then show "ov_underlying (ovm.set_items (overlay_new m) kvs) = m"
    by (simp add: overlay_new_def)
qed

text \<open>\<^verbatim>\<open>__iter__\<close> yields every key of the overlay exactly once and \<^verbatim>\<open>__len__\<close>, computed from the
  sizes of the parts, is the number of those keys.\<close>

lemma overlay_iter_len:
  assumes "overlay_wf ov"
  shows "distinct (overlay_iter ov) \<and> set (overlay_iter ov) = dom (overlay_map ov) \<and>
    overlay_len ov = int (card (dom (overlay_map ov)))"
  using assms overlay_iter_distinct [OF assms] overlay_len_iter [OF assms] overlay_iter_dom [of ov]
  by (metis distinct_card)

lemma overlay_iter_len_witness:
  "overlay_len (Overlay (Plain [(''a'', 1), (''b'', 2), (''c'', 3 :: int)]) [(''a'', 9), (''d'', 4)] [''b'']) =
   int (card (dom (overlay_map
     (Overlay (Plain [(''a'', 1), (''b'', 2), (''c'', 3 :: int)]) [(''a'', 9), (''d'', 4)] [''b'']))))"
  using overlay_iter_len
    [of "Overlay (Plain [(''a'', 1), (''b'', 2), (''c'', 3 :: int)]) [(''a'', 9), (''d'', 4)] [''b'']"]
  by (simp add: dict_wf_def)

end
