(* ===== verification/State_Filter.thy ===== *)
theory State_Filter
  imports Events Overlay_Map
begin

text \<open>
  \<^verbatim>\<open>StateFilter\<close> of \<^verbatim>\<open>synapse/types/state.py\<close>: which (type, state key) pairs a query for room state
  asks for. A Python set is a list without duplicates here, in some iteration order. What a filter
  means is \<open>sf_contains\<close>; the operations are compared with it.
\<close>

section \<open>The filter\<close>

record state_filter =
  sf_types :: "(string, string list option) dict"
  sf_include_others :: bool

text \<open>\<^verbatim>\<open>__attrs_post_init__\<close> canonicalises every filter when it is made.\<close>

definition StateFilter :: "(string, string list option) dict \<Rightarrow> bool \<Rightarrow> state_filter" where
  "StateFilter types include_others =
     \<lparr>sf_types = filter (\<lambda>(k, v). if include_others then v \<noteq> None else v = None \<or> v \<noteq> Some []) types,
      sf_include_others = include_others\<rparr>"

definition ALL_STATE_FILTER :: state_filter where
  "ALL_STATE_FILTER = StateFilter [] True"

definition ALL_NON_MEMBER_STATE_FILTER :: state_filter where
  "ALL_NON_MEMBER_STATE_FILTER = StateFilter [(ET_Member, Some [])] True"

definition NONE_STATE_FILTER :: state_filter where
  "NONE_STATE_FILTER = StateFilter [] False"

text \<open>\<^verbatim>\<open>key in filter\<close>, for a pair of strings.\<close>

definition sf_contains :: "state_filter \<Rightarrow> state_key \<Rightarrow> bool" where
  "sf_contains f key =
     (case map_of (sf_types f) (fst key) of
        Some state_keys \<Rightarrow> (case state_keys of None \<Rightarrow> True | Some ks \<Rightarrow> snd key \<in> set ks)
      | None \<Rightarrow> sf_include_others f)"

definition sf_bool :: "state_filter \<Rightarrow> bool" where
  "sf_bool f = (if sf_include_others f then True else sf_types f \<noteq> [])"

fun add_type :: "(string, string list option) dict \<Rightarrow> (string \<times> string option) list \<Rightarrow> (string, string list option) dict" where
  "add_type d [] = d"
| "add_type d ((typ, s) # rest) =
     (if map_of d typ = Some None then add_type d rest
      else
        (case s of
           None \<Rightarrow> add_type (dict_set typ None d) rest
         | Some k \<Rightarrow>
             add_type (dict_set typ (Some (List.insert k
               (case map_of d typ of Some (Some ks) \<Rightarrow> ks | _ \<Rightarrow> []))) d) rest))"

definition from_types :: "(string \<times> string option) list \<Rightarrow> state_filter" where
  "from_types types = StateFilter (add_type [] types) False"

definition to_types :: "state_filter \<Rightarrow> (string \<times> string option) list" where
  "to_types f = concat (map (\<lambda>(t, state_keys). case state_keys of
       None \<Rightarrow> [(t, None)] | Some ks \<Rightarrow> map (\<lambda>k. (t, Some k)) ks) (sf_types f))"

definition from_lazy_load_member_list :: "string list \<Rightarrow> state_filter" where
  "from_lazy_load_member_list members = StateFilter [(ET_Member, Some (remdups members))] True"

definition freeze :: "(string, string list option) dict \<Rightarrow> bool \<Rightarrow> state_filter" where
  "freeze types include_others =
     StateFilter (map (\<lambda>(t, ks). (t, map_option remdups ks)) types) include_others"

section \<open>Queries\<close>

definition is_full :: "state_filter \<Rightarrow> bool" where
  "is_full f \<longleftrightarrow> sf_include_others f \<and> sf_types f = []"

definition has_wildcards :: "state_filter \<Rightarrow> bool" where
  "has_wildcards f \<longleftrightarrow> sf_include_others f \<or> list_ex (\<lambda>(t, ks). ks = None) (sf_types f)"

definition concrete_types :: "state_filter \<Rightarrow> state_key list" where
  "concrete_types f = concat (map (\<lambda>(t, ks). case ks of None \<Rightarrow> [] | Some l \<Rightarrow> map (Pair t) l) (sf_types f))"

definition wildcard_types :: "state_filter \<Rightarrow> string list" where
  "wildcard_types f = map fst (filter (\<lambda>(t, ks). ks = None) (sf_types f))"

definition return_expanded :: "state_filter \<Rightarrow> state_filter" where
  "return_expanded f =
     (if is_full f then f
      else if \<not> has_wildcards f then f
      else
        let get_all_members =
              (case map_of (sf_types f) ET_Member of Some ks \<Rightarrow> ks = None | None \<Rightarrow> sf_include_others f);
            has_non_member_wildcard =
              sf_include_others f \<or> list_ex (\<lambda>(t, ks). t \<noteq> ET_Member \<and> ks = None) (sf_types f)
        in
        if \<not> has_non_member_wildcard then f
        else if get_all_members then ALL_STATE_FILTER
        else
          (case map_of (sf_types f) ET_Member of
             Some ks \<Rightarrow> StateFilter [(ET_Member, ks)] True
           | None \<Rightarrow> ALL_NON_MEMBER_STATE_FILTER))"

definition max_entries_returned :: "state_filter \<Rightarrow> nat option" where
  "max_entries_returned f = (if has_wildcards f then None else Some (length (concrete_types f)))"

definition filter_state :: "state_filter \<Rightarrow> (state_key, 'v) dict \<Rightarrow> (state_key, 'v) dict" where
  "filter_state f state_dict =
     (if is_full f then state_dict
      else filter (\<lambda>((typ, state_key), v).
             case map_of (sf_types f) typ of
               Some ks \<Rightarrow> (case ks of None \<Rightarrow> True | Some l \<Rightarrow> state_key \<in> set l)
             | None \<Rightarrow> sf_include_others f) state_dict)"

definition get_member_split :: "state_filter \<Rightarrow> state_filter \<times> state_filter" where
  "get_member_split f =
     ((case map_of (sf_types f) ET_Member of
         Some ks \<Rightarrow> if ks = None then ALL_STATE_FILTER else StateFilter [(ET_Member, ks)] False
       | None \<Rightarrow> if sf_include_others f then ALL_STATE_FILTER else NONE_STATE_FILTER),
      StateFilter (filter (\<lambda>(k, v). k \<noteq> ET_Member) (sf_types f)) (sf_include_others f))"

definition must_await_full_state :: "(string \<Rightarrow> bool) \<Rightarrow> state_filter \<Rightarrow> bool" where
  "must_await_full_state is_mine_id f =
     (case map_of (sf_types f) ET_Member of
        None \<Rightarrow> sf_include_others f
      | Some None \<Rightarrow> True
      | Some (Some ks) \<Rightarrow> list_ex (\<lambda>k. \<not> is_mine_id k) ks)"

text \<open>The SQL clause and its arguments.\<close>

definition make_sql_filter_clause :: "state_filter \<Rightarrow> string \<times> string list" where
  "make_sql_filter_clause f =
     (if is_full f then ('''', [])
      else if \<not> sf_include_others f \<and> sf_types f = [] then (''1 = 2'', [])
      else
        let clauses = concat (map (\<lambda>(t, ks). case ks of
              None \<Rightarrow> [''(type = ?)''] | Some l \<Rightarrow> map (\<lambda>_. ''(type = ? AND state_key = ?)'') l) (sf_types f));
            args = concat (map (\<lambda>(t, ks). case ks of
              None \<Rightarrow> [t] | Some l \<Rightarrow> concat (map (\<lambda>k. [t, k]) l)) (sf_types f));
            where_clause = join_with '' OR '' clauses
        in
        if sf_include_others f then
          ((if where_clause = '''' then '''' else where_clause @ '' OR '') @
             ''type NOT IN ('' @ join_with '','' (map (\<lambda>_. ''?'') (sf_types f)) @ '')'',
           args @ map fst (sf_types f))
        else (where_clause, args))"

section \<open>Differences\<close>

type_synonym four_parts = "(bool \<times> string list) \<times> (string list \<times> state_key list)"

definition decompose_into_four_parts :: "state_filter \<Rightarrow> four_parts" where
  "decompose_into_four_parts f =
     ((sf_include_others f, if sf_include_others f then map fst (sf_types f) else []),
      (wildcard_types f, concrete_types f))"

fun add_state_keys :: "bool \<Rightarrow> (string, string list option) dict \<Rightarrow> state_key list \<Rightarrow> (string, string list option) dict" where
  "add_state_keys all_part new_types [] = new_types"
| "add_state_keys all_part new_types ((t, k) # rest) =
     add_state_keys all_part
       (case map_of new_types t of
          Some (Some ks) \<Rightarrow> dict_set t (Some (List.insert k ks)) new_types
        | Some None \<Rightarrow> new_types
        | None \<Rightarrow> if all_part then new_types else dict_set t (Some [k]) new_types) rest"

definition recompose_from_four_parts :: "four_parts \<Rightarrow> state_filter" where
  "recompose_from_four_parts parts =
     (case parts of ((all_part, minus_wildcards), (plus_wildcards, plus_state_keys)) \<Rightarrow>
       (let excluded = (if all_part then fold (\<lambda>t. dict_set t (Some [])) minus_wildcards [] else []);
            wild = fold (\<lambda>t. dict_set t None) plus_wildcards excluded
        in freeze (add_state_keys all_part wild plus_state_keys) all_part))"

definition approx_difference :: "state_filter \<Rightarrow> state_filter \<Rightarrow> state_filter" where
  "approx_difference self other =
     (case (decompose_into_four_parts self, decompose_into_four_parts other) of
        (((self_all, self_excludes), (self_wildcards, self_concrete_keys)),
         ((other_all, other_excludes), (other_wildcards, other_concrete_keys))) \<Rightarrow>
       (let new_excludes = self_excludes @ other_wildcards;
            new_wildcards = filter (\<lambda>t. t \<notin> set other_wildcards) self_wildcards;
            new_concrete_keys = filter (\<lambda>(t, k). t \<notin> set other_wildcards \<and> (t, k) \<notin> set other_concrete_keys)
              self_concrete_keys
        in
        if other_all then
          (let wild = (if self_all then new_wildcards @ filter (\<lambda>t. t \<notin> set self_excludes) other_excludes
                       else new_wildcards)
           in recompose_from_four_parts
             ((False, []), (filter (\<lambda>t. t \<in> set other_excludes) wild,
               filter (\<lambda>(t, k). t \<in> set other_excludes) new_concrete_keys)))
        else recompose_from_four_parts
          ((self_all, new_excludes), (new_wildcards, new_concrete_keys))))"


section \<open>What a filter means\<close>

text \<open>The meaning of the two fields before canonicalisation.\<close>

definition types_contain :: "(string, string list option) dict \<Rightarrow> bool \<Rightarrow> state_key \<Rightarrow> bool" where
  "types_contain d others key =
     (case map_of d (fst key) of Some None \<Rightarrow> True | Some (Some ks) \<Rightarrow> snd key \<in> set ks | None \<Rightarrow> others)"

text \<open>Filters as the code makes them.\<close>

definition sf_wf :: "state_filter \<Rightarrow> bool" where
  "sf_wf f \<longleftrightarrow> dict_wf (sf_types f) \<and>
     list_all (\<lambda>(t, ks). (case ks of None \<Rightarrow> \<not> sf_include_others f
       | Some l \<Rightarrow> distinct l \<and> (\<not> sf_include_others f \<longrightarrow> l \<noteq> []))) (sf_types f)"

lemma sf_contains_StateFilter:
  "dict_wf d \<Longrightarrow> sf_contains (StateFilter d others) key = types_contain d others key"
  by (cases "map_of d (fst key)")
    (auto simp: sf_contains_def StateFilter_def types_contain_def map_of_filter_wf split: option.splits)

lemma sf_contains_alt: "sf_contains f key = types_contain (sf_types f) (sf_include_others f) key"
  by (simp add: sf_contains_def types_contain_def split: option.splits)

lemma sf_wf_StateFilter:
  assumes "dict_wf d" "\<forall>t l. (t, Some l) \<in> set d \<longrightarrow> distinct l"
  shows "sf_wf (StateFilter d others)"
  using assms by (auto simp: sf_wf_def StateFilter_def dict_wf_filter list_all_iff split: option.splits if_splits)

lemma types_contain_map_remdups:
  "types_contain (map (\<lambda>(t, ks). (t, map_option remdups ks)) d) others key = types_contain d others key"
proof -
  have "map_of (map (\<lambda>(t, ks). (t, map_option remdups ks)) d) t = map_option (map_option remdups) (map_of d t)" for t
    by (induction d) auto
  then show ?thesis by (auto simp: types_contain_def split: option.splits)
qed

lemma add_state_keys_contain:
  "types_contain (add_state_keys all_part d keys) all_part (t, k) \<longleftrightarrow>
   (case map_of d t of Some None \<Rightarrow> True | Some (Some ks) \<Rightarrow> k \<in> set ks \<or> (t, k) \<in> set keys
    | None \<Rightarrow> all_part \<or> (t, k) \<in> set keys)"
  by (induction all_part d keys rule: add_state_keys.induct)
    (auto simp: types_contain_def split: option.splits if_splits)

lemma dict_wf_add_state_keys: "dict_wf d \<Longrightarrow> dict_wf (add_state_keys all_part d keys)"
  by (induction all_part d keys rule: add_state_keys.induct) (auto split: option.splits)

lemma map_of_fold_dict_set:
  "map_of (fold (\<lambda>t. dict_set t v) ts d) t = (if t \<in> set ts then Some v else map_of d t)"
  by (induction ts arbitrary: d) auto

lemma dict_wf_fold_dict_set: "dict_wf d \<Longrightarrow> dict_wf (fold (\<lambda>t. dict_set t v) ts d)"
  by (induction ts arbitrary: d) auto

text \<open>The meaning of the four parts: all, less the excluded types, plus the wildcards and the keys.\<close>

lemma recompose_contains:
  "sf_contains (recompose_from_four_parts ((all_part, ex), (wild, keys))) (t, k) \<longleftrightarrow>
     t \<in> set wild \<or> (t, k) \<in> set keys \<or> all_part \<and> t \<notin> set ex"
proof -
  let ?d = "fold (\<lambda>t. dict_set t None) wild (if all_part then fold (\<lambda>t. dict_set t (Some [])) ex [] else [])"
  have "dict_wf (map (\<lambda>(t, ks). (t, map_option remdups ks)) (add_state_keys all_part ?d keys))"
    using dict_wf_add_state_keys [OF dict_wf_fold_dict_set, of "if all_part then fold (\<lambda>t. dict_set t (Some [])) ex [] else []" all_part None wild keys]
    by (simp add: dict_wf_def split_beta comp_def dict_wf_fold_dict_set [unfolded dict_wf_def])
  then show ?thesis
    by (simp add: recompose_from_four_parts_def Let_def freeze_def sf_contains_StateFilter
        types_contain_map_remdups add_state_keys_contain map_of_fold_dict_set)
qed

lemma decompose_contains:
  assumes "sf_wf f" "decompose_into_four_parts f = ((all_part, ex), (wild, keys))"
  shows "sf_contains f (t, k) \<longleftrightarrow> t \<in> set wild \<or> (t, k) \<in> set keys \<or> all_part \<and> t \<notin> set ex"
    and "all_part \<Longrightarrow> wild = [] \<and> ((t, k) \<in> set keys \<longrightarrow> t \<in> set ex)"
    and "t \<in> set wild \<Longrightarrow> (t, k) \<notin> set keys" "\<not> all_part \<Longrightarrow> ex = []"
proof -
  have d: "all_part = sf_include_others f" "ex = (if all_part then map fst (sf_types f) else [])"
    "wild = wildcard_types f" "keys = concrete_types f"
    using assms(2) by (auto simp: decompose_into_four_parts_def)
  have wf: "dict_wf (sf_types f)" using assms(1) by (simp add: sf_wf_def)
  have mo: "(t, v) \<in> set (sf_types f) \<longleftrightarrow> map_of (sf_types f) t = Some v" for t v
    using wf by (auto simp: dict_wf_def intro: map_of_SomeD)
  have w: "t \<in> set wild \<longleftrightarrow> map_of (sf_types f) t = Some None"
    by (force simp: d wildcard_types_def mo [symmetric])
  have c: "(t, k) \<in> set keys \<longleftrightarrow> (\<exists>l. map_of (sf_types f) t = Some (Some l) \<and> k \<in> set l)"
    by (force simp: d concrete_types_def mo [symmetric] split: option.splits)
  have e: "all_part \<Longrightarrow> t \<in> set ex \<longleftrightarrow> map_of (sf_types f) t \<noteq> None"
    by (auto simp: d map_of_eq_None_iff)
  have "all_part \<Longrightarrow> (t, None) \<notin> set (sf_types f)" for t
    using assms(1) d(1) by (force simp: sf_wf_def list_all_iff split: option.splits)
  moreover have "wild \<noteq> [] \<Longrightarrow> \<exists>t. (t, None) \<in> set (sf_types f)"
    by (auto simp: d(3) wildcard_types_def filter_empty_conv)
  ultimately have nw: "all_part \<Longrightarrow> wild = []" by blast
  show "sf_contains f (t, k) \<longleftrightarrow> t \<in> set wild \<or> (t, k) \<in> set keys \<or> all_part \<and> t \<notin> set ex"
    using e unfolding w c sf_contains_def by (auto simp: d(1) split: option.splits)
  show "all_part \<Longrightarrow> wild = [] \<and> ((t, k) \<in> set keys \<longrightarrow> t \<in> set ex)"
    using e nw c by auto
  show "t \<in> set wild \<Longrightarrow> (t, k) \<notin> set keys" using w c by simp
  show "\<not> all_part \<Longrightarrow> ex = []" using d(2) by simp
qed

section \<open>Properties\<close>

text \<open>C19: the contract of \<^verbatim>\<open>approx_difference\<close>. The difference includes every pair that the first
  filter includes and the second does not, and includes nothing the first one does not include.\<close>

theorem approx_difference_sound:
  assumes "sf_wf self" "sf_wf other"
  shows "(sf_contains self key \<and> \<not> sf_contains other key \<longrightarrow> sf_contains (approx_difference self other) key) \<and>
    (sf_contains (approx_difference self other) key \<longrightarrow> sf_contains self key)"
proof -
  obtain sa se sw sk where s: "decompose_into_four_parts self = ((sa, se), (sw, sk))"
    by (metis prod.exhaust)
  obtain oa oe ow ok where o: "decompose_into_four_parts other = ((oa, oe), (ow, ok))"
    by (metis prod.exhaust)
  obtain t k where key: "key = (t, k)" by (cases key)
  note S = decompose_contains(1-3) [OF assms(1) s, of t k] decompose_contains(4) [OF assms(1) s]
    and O = decompose_contains(1-3) [OF assms(2) o, of t k] decompose_contains(4) [OF assms(2) o]
  show ?thesis
  proof (cases oa)
    case True
    then show ?thesis
      using S O unfolding key
      by (cases sa) (auto simp: approx_difference_def s o Let_def recompose_contains)
  next
    case False
    then show ?thesis
      using S O unfolding key
      by (cases sa) (auto simp: approx_difference_def s o Let_def recompose_contains)
  qed
qed

theorem approx_difference_sound_witness:
  "sf_contains (approx_difference (from_types [(''m'', None), (''n'', Some ''a'')]) (from_types [(''m'', Some ''x'')])) (''n'', ''a'')"
proof -
  have "sf_wf (from_types [(''m'', None), (''n'', Some ''a'')])" "sf_wf (from_types [(''m'', Some ''x'')])"
    by code_simp+
  from approx_difference_sound [OF this, of "(''n'', ''a'')"] show ?thesis
    by (simp add: from_types_def sf_contains_def StateFilter_def)
qed

text \<open>Decomposing a filter into its four parts and recomposing it gives a filter with the same
  meaning.\<close>

lemma recompose_decompose:
  assumes "sf_wf f"
  shows "sf_contains (recompose_from_four_parts (decompose_into_four_parts f)) key = sf_contains f key"
proof -
  obtain fa fe fw fk where p: "decompose_into_four_parts f = ((fa, fe), (fw, fk))"
    by (metis prod.exhaust)
  show ?thesis
    using decompose_contains(1) [OF assms p, of "fst key" "snd key"] recompose_contains [of fa fe fw fk "fst key" "snd key"] p
    by simp
qed

lemma add_type_contain:
  "types_contain (add_type d ts) False (t, k) \<longleftrightarrow>
   types_contain d False (t, k) \<or> (t, None) \<in> set ts \<or> (t, Some k) \<in> set ts"
  by (induction d ts rule: add_type.induct)
    (auto simp: types_contain_def split: option.splits if_splits)

lemma dict_wf_add_type: "dict_wf d \<Longrightarrow> dict_wf (add_type d ts)"
  by (induction d ts rule: add_type.induct) (auto split: option.splits)

lemma from_types_contains: "sf_contains (from_types ts) (t, k) \<longleftrightarrow> (t, None) \<in> set ts \<or> (t, Some k) \<in> set ts"
  by (simp add: from_types_def sf_contains_StateFilter dict_wf_add_type add_type_contain)
    (simp add: types_contain_def)

text \<open>\<^verbatim>\<open>from_types\<close> builds the filter that matches exactly the listed pairs, a missing state key
  standing for all of them, and \<^verbatim>\<open>to_types\<close> is its inverse: rebuilding a filter from its own types
  gives the same matches, for every filter that does not include other types.\<close>

lemma from_types_to_types:
  assumes "sf_wf f" "\<not> sf_include_others f"
  shows "sf_contains (from_types ts) (t, k) = ((t, None) \<in> set ts \<or> (t, Some k) \<in> set ts) \<and>
    sf_contains (from_types (to_types f)) (t, k) = sf_contains f (t, k)"
proof
  have mo: "(t, v) \<in> set (sf_types f) \<longleftrightarrow> map_of (sf_types f) t = Some v" for t v
    using assms(1) by (auto simp: sf_wf_def dict_wf_def intro: map_of_SomeD)
  let ?F = "\<lambda>(t, state_keys). case state_keys of None \<Rightarrow> [(t, None)] | Some ks \<Rightarrow> map (\<lambda>k. (t, Some k)) ks"
  have "((t, None) \<in> set (concat (map ?F d)) \<longleftrightarrow> (t, None) \<in> set d) \<and>
    ((t, Some k) \<in> set (concat (map ?F d)) \<longleftrightarrow> (\<exists>l. (t, Some l) \<in> set d \<and> k \<in> set l))" for d
  proof (induction d)
    case (Cons p d)
    obtain t' ks where p: "p = (t', ks)" by (cases p)
    have "(t, None) \<in> set (?F p) \<longleftrightarrow> p = (t, None)" "(t, Some k) \<in> set (?F p) \<longleftrightarrow> (\<exists>l. p = (t, Some l) \<and> k \<in> set l)"
      unfolding p by (cases ks; auto)+
    then show ?case using Cons by auto
  qed simp
  note tt = this [of "sf_types f", folded to_types_def, THEN conjunct1] this [of "sf_types f", folded to_types_def, THEN conjunct2]
  show "sf_contains (from_types (to_types f)) (t, k) = sf_contains f (t, k)"
    unfolding from_types_contains sf_contains_def [of f] tt mo using assms(2) by (auto split: option.splits)
qed (rule from_types_contains)

lemma from_types_to_types_witness:
  "sf_contains (from_types (to_types (from_types [(''m'', None), (''n'', Some ''a'')]))) (''n'', ''a'')"
proof -
  have "sf_wf (from_types [(''m'', None), (''n'', Some ''a'')])"
    "\<not> sf_include_others (from_types [(''m'', None), (''n'', Some ''a'')])"
    by code_simp+
  from from_types_to_types [OF this, of "[(''m'', None), (''n'', Some ''a'')]" "''n''" "''a''"] show ?thesis
    by simp
qed

text \<open>\<^verbatim>\<open>filter_state\<close> keeps exactly the entries the filter contains, in their order, and when
  \<^verbatim>\<open>max_entries_returned\<close> knows a bound no state has more matching entries.\<close>

lemma filter_state_exact:
  "filter_state f st = filter (\<lambda>(key, v). sf_contains f key) st \<and>
   (\<forall>n. max_entries_returned f = Some n \<and> dict_wf st \<and> dict_wf (sf_types f) \<longrightarrow> length (filter_state f st) \<le> n)"
proof (intro conjI allI impI)
  have full: "is_full f \<Longrightarrow> sf_contains f key" for key
    by (simp add: is_full_def sf_contains_def)
  show eq: "filter_state f st = filter (\<lambda>(key, v). sf_contains f key) st"
  proof (cases "is_full f")
    case True
    then show ?thesis by (simp add: filter_state_def full)
  next
    case False
    then show ?thesis
      unfolding filter_state_def by (auto simp: sf_contains_def intro!: filter_cong split: option.splits)
  qed
  fix n
  assume "max_entries_returned f = Some n \<and> dict_wf st \<and> dict_wf (sf_types f)"
  then have n: "n = length (concrete_types f)" "\<not> has_wildcards f" and wf: "dict_wf st" "dict_wf (sf_types f)"
    by (auto simp: max_entries_returned_def split: if_splits)
  have sub: "fst ` set (filter_state f st) \<subseteq> set (concrete_types f)"
  proof
    fix key
    assume "key \<in> fst ` set (filter_state f st)"
    then have "sf_contains f key" unfolding eq by auto
    then obtain ks where ks: "map_of (sf_types f) (fst key) = Some ks" "ks = None \<or> (\<exists>l. ks = Some l \<and> snd key \<in> set l)"
      using n(2) by (auto simp: sf_contains_def has_wildcards_def split: option.splits)
    moreover have "(fst key, ks) \<in> set (sf_types f)" using ks(1) by (rule map_of_SomeD)
    ultimately show "key \<in> set (concrete_types f)"
      using n(2) by (cases key) (force simp: concrete_types_def has_wildcards_def list_ex_iff)
  qed
  have "length (filter_state f st) = card (fst ` set (filter_state f st))"
    using dict_wf_filter [OF wf(1)] unfolding eq dict_wf_def
    by (metis distinct_card length_map list.set_map)
  also have "\<dots> \<le> card (set (concrete_types f))" by (rule card_mono) (use sub in auto)
  finally show "length (filter_state f st) \<le> n" using n(1) card_length le_trans by blast
qed

lemma filter_state_exact_witness:
  "length (filter_state (from_types [(''n'', Some ''a'')]) [((''n'', ''a''), 1 :: int), ((''n'', ''b''), 2)]) \<le> 1"
proof -
  have "max_entries_returned (from_types [(''n'', Some ''a'')]) = Some 1" "dict_wf (sf_types (from_types [(''n'', Some ''a'')]))"
    by code_simp+
  moreover have "dict_wf [((''n'', ''a''), 1 :: int), ((''n'', ''b''), 2)]" by (simp add: dict_wf_def)
  ultimately show ?thesis
    using filter_state_exact [of "from_types [(''n'', Some ''a'')]" "[((''n'', ''a''), 1 :: int), ((''n'', ''b''), 2)]"]
    by blast
qed

text \<open>\<^verbatim>\<open>return_expanded\<close> only widens a filter and leaves the membership events it asks for as they
  were; \<^verbatim>\<open>get_member_split\<close> splits it into a filter right on membership events and one right on all
  others.\<close>

lemma expanded_and_split:
  assumes "sf_wf f"
  shows "(sf_contains f key \<longrightarrow> sf_contains (return_expanded f) key) \<and>
    (fst key = ET_Member \<longrightarrow> sf_contains (return_expanded f) key = sf_contains f key \<and>
       sf_contains (fst (get_member_split f)) key = sf_contains f key) \<and>
    (fst key \<noteq> ET_Member \<longrightarrow> sf_contains (snd (get_member_split f)) key = sf_contains f key)"
proof -
  have fixed: "sf_contains ALL_STATE_FILTER key" "\<not> sf_contains NONE_STATE_FILTER key"
    "sf_contains ALL_NON_MEMBER_STATE_FILTER key \<longleftrightarrow> fst key \<noteq> ET_Member"
    "sf_contains (StateFilter [(ET_Member, ks)] b) key \<longleftrightarrow>
       (if fst key = ET_Member then (case ks of None \<Rightarrow> True | Some l \<Rightarrow> snd key \<in> set l) else b)" for ks b
    by (auto simp: ALL_STATE_FILTER_def NONE_STATE_FILTER_def ALL_NON_MEMBER_STATE_FILTER_def
        sf_contains_StateFilter dict_wf_def types_contain_def split: option.splits)
  have rest: "sf_contains (snd (get_member_split f)) key = sf_contains f key" if "fst key \<noteq> ET_Member"
    using that assms unfolding get_member_split_def snd_conv
    by (subst sf_contains_StateFilter)
      (auto simp: sf_wf_def dict_wf_filter types_contain_def map_of_filter_wf sf_contains_def split: option.splits)
  have mem: "fst key = ET_Member \<Longrightarrow> sf_contains (fst (get_member_split f)) key = sf_contains f key"
    by (auto simp: get_member_split_def fixed sf_contains_def [of f] split: option.splits)
  have exp: "(sf_contains f key \<longrightarrow> sf_contains (return_expanded f) key) \<and>
      (fst key = ET_Member \<longrightarrow> sf_contains (return_expanded f) key = sf_contains f key)"
    by (auto simp: return_expanded_def Let_def fixed sf_contains_def [of f] split: option.splits)
  from rest mem exp show ?thesis by blast
qed

lemma expanded_and_split_witness:
  "sf_contains (return_expanded (from_types [(''m'', None), (ET_Member, Some ''@a:x'')])) (''m'', ''k'')"
proof -
  have "sf_wf (from_types [(''m'', None), (ET_Member, Some ''@a:x'')])" by code_simp
  from expanded_and_split [OF this, of "(''m'', ''k'')"] show ?thesis
    by (simp add: from_types_contains)
qed

definition placeholders :: "string \<Rightarrow> nat" where
  "placeholders s = length (filter (\<lambda>c. c = CHR ''?'') s)"

lemma placeholders_join_with:
  "placeholders sep = 0 \<Longrightarrow> placeholders (join_with sep ps) = sum_list (map placeholders ps)"
  by (induction sep ps rule: join_with.induct) (auto simp: placeholders_def)

text \<open>The SQL clause has exactly one placeholder for every argument.\<close>

lemma sql_placeholders_match:
  "placeholders (fst (make_sql_filter_clause f)) = length (snd (make_sql_filter_clause f))"
proof -
  have clauses: "sum_list (map placeholders (concat (map (\<lambda>(t, ks). case ks of
        None \<Rightarrow> [''(type = ?)''] | Some l \<Rightarrow> map (\<lambda>_. ''(type = ? AND state_key = ?)'') l) d))) =
      length (concat (map (\<lambda>(t, ks). case ks of
        None \<Rightarrow> [t] | Some l \<Rightarrow> concat (map (\<lambda>k. [t, k]) l)) d))" for d :: "(string, string list option) dict"
  proof (induction d)
    case (Cons p d)
    have "sum_list (map (placeholders \<circ> (\<lambda>_. ''(type = ? AND state_key = ?)'')) l) = 2 * length l"
      "length (concat (map (\<lambda>k. [t, k]) l)) = 2 * length l" for t :: string and l :: "string list"
      by (induction l) (auto simp: placeholders_def)
    moreover have "placeholders ''(type = ?)'' = 1" by (simp add: placeholders_def)
    ultimately show ?case using Cons by (cases p) (auto split: option.splits)
  qed simp
  have others: "sum_list (map (placeholders \<circ> (\<lambda>_. ''?'')) d) = length d" for d :: "(string, string list option) dict"
    by (induction d) (auto simp: placeholders_def)
  have app: "placeholders (a @ b) = placeholders a + placeholders b" for a b
    by (simp add: placeholders_def)
  have lits: "placeholders (c # s) = (if c = CHR ''?'' then 1 else 0) + placeholders s" "placeholders [] = 0" for c s
    by (simp_all add: placeholders_def)
  have "placeholders (join_with '' OR '' (concat (map (\<lambda>(t, ks). case ks of
        None \<Rightarrow> [''(type = ?)''] | Some l \<Rightarrow> map (\<lambda>_. ''(type = ? AND state_key = ?)'') l) (sf_types f)))) =
      length (concat (map (\<lambda>(t, ks). case ks of
        None \<Rightarrow> [t] | Some l \<Rightarrow> concat (map (\<lambda>k. [t, k]) l)) (sf_types f)))"
    unfolding clauses [symmetric] by (rule placeholders_join_with) (simp add: lits)
  then show ?thesis
    unfolding make_sql_filter_clause_def Let_def
    by (auto simp: app lits others placeholders_join_with [of "'',''"])
qed

end
