(* ===== verification/Visibility.thy ===== *)
theory Visibility
  imports State_Filter
begin

text \<open>
  \<^verbatim>\<open>synapse/visibility.py\<close>: which events of a room a user or another server may be shown. The storage
  controllers the module queries are the record \<open>vis_storage\<close>, and \<^verbatim>\<open>prune_event\<close>, which calls the
  redaction of the Rust library, is an argument. \<^verbatim>\<open>event_visible_to_server\<close> is
  \<^verbatim>\<open>rust/src/events/filter.rs\<close>. The clock is read as one time for a whole call.
\<close>

section \<open>Data\<close>

abbreviation "ET_RoomHistoryVisibility \<equiv> ''m.room.history_visibility''"
abbreviation "ET_Dummy \<equiv> ''org.matrix.dummy_event''"
abbreviation "ET_CallInvite \<equiv> ''m.call.invite''"

abbreviation "HV_INVITED \<equiv> ''invited''"
abbreviation "HV_JOINED \<equiv> ''joined''"
abbreviation "HV_SHARED \<equiv> ''shared''"
abbreviation "HV_WORLD_READABLE \<equiv> ''world_readable''"

definition VISIBILITY_PRIORITY :: "string list" where
  "VISIBILITY_PRIORITY = [HV_WORLD_READABLE, HV_SHARED, HV_INVITED, HV_JOINED]"

definition MEMBERSHIP_PRIORITY :: "string list" where
  "MEMBERSHIP_PRIORITY = [M_JOIN, M_INVITE, M_KNOCK, M_LEAVE, M_BAN]"

abbreviation HISTORY_VIS_KEY :: state_key where
  "HISTORY_VIS_KEY \<equiv> (ET_RoomHistoryVisibility, '''')"

text \<open>The parts of an event that only its handling on this server uses: \<^verbatim>\<open>internal_metadata\<close>, \<^verbatim>\<open>unsigned\<close>
  and the time until which it is sticky.\<close>

record internal_metadata =
  im_soft_failed :: bool
  im_outlier :: bool
  im_policy_server_spammy :: bool

record client_event =
  ce_event :: event
  ce_unsigned :: jobj
  ce_metadata :: internal_metadata
  ce_locally_sticky_until_ts :: "int option"

abbreviation ce_id :: "client_event \<Rightarrow> string" where "ce_id e \<equiv> ev_event_id (ce_event e)"
abbreviation ce_type :: "client_event \<Rightarrow> string" where "ce_type e \<equiv> ev_type (ce_event e)"
abbreviation ce_is_state :: "client_event \<Rightarrow> bool" where "ce_is_state e \<equiv> is_state (ce_event e)"
abbreviation ce_outlier :: "client_event \<Rightarrow> bool" where "ce_outlier e \<equiv> im_outlier (ce_metadata e)"
abbreviation ce_soft_failed :: "client_event \<Rightarrow> bool" where "ce_soft_failed e \<equiv> im_soft_failed (ce_metadata e)"

datatype check_filter = FILTER_MAYBE_ALLOWED | FILTER_DENIED

datatype check_visibility = VISIBILITY_ALLOWED | VISIBILITY_MAYBE_DENIED

record check_membership_return =
  cm_allowed :: bool
  cm_joined :: bool

abbreviation CheckMembershipReturn :: "bool \<Rightarrow> bool \<Rightarrow> check_membership_return" where
  "CheckMembershipReturn a j \<equiv> \<lparr>cm_allowed = a, cm_joined = j\<rparr>"

text \<open>\<^verbatim>\<open>v if v in known else default\<close>, for a value of an event's content, and \<^verbatim>\<open>known.index(v)\<close>.\<close>

definition known_or :: "string list \<Rightarrow> string \<Rightarrow> json option \<Rightarrow> string" where
  "known_or known d v = (case v of Some (JStr s) \<Rightarrow> (if s \<in> set known then s else d) | _ \<Rightarrow> d)"

fun tuple_index :: "string list \<Rightarrow> string \<Rightarrow> nat res" where
  "tuple_index [] x = Inl ValueError"
| "tuple_index (y # ys) x = (if x = y then Inr 0 else bindR (tuple_index ys x) (\<lambda>n. Inr (Suc n)))"

text \<open>\<^verbatim>\<open>event.unsigned.get("prev_content", {}).get(k, None)\<close>.\<close>

definition prev_content_get :: "client_event \<Rightarrow> string \<Rightarrow> json option res" where
  "prev_content_get e k = py_get (get_default (ce_unsigned e) ''prev_content'' (JObj [])) k"

text \<open>\<^verbatim>\<open>event.type == EventTypes.Member and event.state_key == user_id\<close>.\<close>

definition is_own_membership :: "string \<Rightarrow> client_event \<Rightarrow> bool res" where
  "is_own_membership user_id e =
     (if ce_type e = ET_Member
      then bindR (state_key_attr (ce_event e)) (\<lambda>k. Inr (k = user_id)) else Inr False)"

section \<open>The checks\<close>

definition check_filter_send_to_client ::
  "client_event \<Rightarrow> int \<Rightarrow> int option \<Rightarrow> bool \<Rightarrow> check_filter" where
  "check_filter_send_to_client e now max_lifetime sender_ignored =
     (if ce_type e = ET_Dummy then FILTER_DENIED
      else if \<not> ce_is_state e \<and> sender_ignored then FILTER_DENIED
      else if ce_type e = ET_Aliases then FILTER_DENIED
      else if \<not> ce_is_state e then
        (case max_lifetime of
           None \<Rightarrow> FILTER_MAYBE_ALLOWED
         | Some l \<Rightarrow>
             if ev_origin_server_ts (ce_event e) < now - l then FILTER_DENIED else FILTER_MAYBE_ALLOWED)
      else FILTER_MAYBE_ALLOWED)"

definition check_history_visibility ::
  "client_event \<Rightarrow> string \<Rightarrow> bool \<Rightarrow> check_visibility res" where
  "check_history_visibility e visibility is_peeking =
     bindR (if ce_type e = ET_RoomHistoryVisibility then
              bindR (prev_content_get e ''history_visibility'') (\<lambda>p.
                let prev_visibility = known_or VISIBILITY_PRIORITY HV_SHARED p in
                bindR (tuple_index VISIBILITY_PRIORITY visibility) (\<lambda>new_priority.
                bindR (tuple_index VISIBILITY_PRIORITY prev_visibility) (\<lambda>old_priority.
                  Inr (if old_priority < new_priority then prev_visibility else visibility))))
            else Inr visibility) (\<lambda>visibility.
       Inr (if visibility = HV_SHARED \<and> \<not> is_peeking then VISIBILITY_ALLOWED
            else if visibility = HV_WORLD_READABLE then VISIBILITY_ALLOWED
            else VISIBILITY_MAYBE_DENIED))"

definition get_effective_room_visibility_from_state :: "event_state \<Rightarrow> string" where
  "get_effective_room_visibility_from_state state =
     (case state HISTORY_VIS_KEY of
        None \<Rightarrow> HV_SHARED
      | Some visibility_event \<Rightarrow>
          known_or VISIBILITY_PRIORITY HV_SHARED
            (map_of (ev_content visibility_event) ''history_visibility''))"

text \<open>The end of \<^verbatim>\<open>_check_membership\<close>: from the membership at the event and the visibility of the room.\<close>

definition membership_verdict :: "string \<Rightarrow> bool \<Rightarrow> json option \<Rightarrow> check_membership_return" where
  "membership_verdict visibility is_peeking membership =
     (if membership = Some (JStr M_JOIN) then CheckMembershipReturn True True
      else if visibility = HV_JOINED then CheckMembershipReturn False False
      else if visibility = HV_INVITED then
        CheckMembershipReturn (membership = Some (JStr M_INVITE)) False
      else if visibility = HV_SHARED \<and> is_peeking then CheckMembershipReturn False False
      else CheckMembershipReturn True False)"

definition check_membership ::
  "string \<Rightarrow> client_event \<Rightarrow> string \<Rightarrow> event_state \<Rightarrow> bool \<Rightarrow> check_membership_return res" where
  "check_membership user_id e visibility state is_peeking =
     bindR (is_own_membership user_id e) (\<lambda>own.
       if own then
         let membership = known_or MEMBERSHIP_PRIORITY M_LEAVE (map_of (ev_content (ce_event e)) ''membership'') in
         bindR (prev_content_get e ''membership'') (\<lambda>p.
         let prev_membership = known_or MEMBERSHIP_PRIORITY M_LEAVE p in
         if membership = M_LEAVE \<and> (prev_membership = M_JOIN \<or> prev_membership = M_INVITE)
         then Inr (CheckMembershipReturn True False)
         else
           bindR (tuple_index MEMBERSHIP_PRIORITY membership) (\<lambda>new_priority.
           bindR (tuple_index MEMBERSHIP_PRIORITY prev_membership) (\<lambda>old_priority.
             Inr (membership_verdict visibility is_peeking
               (Some (JStr (if old_priority < new_priority then prev_membership else membership)))))))
       else
         (case state (ET_Member, user_id) of
            None \<Rightarrow> Inr (membership_verdict visibility is_peeking None)
          | Some membership_event \<Rightarrow>
              bindR (membership_attr membership_event) (\<lambda>m.
                Inr (membership_verdict visibility is_peeking (Some m)))))"

text \<open>\<^verbatim>\<open>_check_client_allowed_to_see_event\<close>. \<open>cc_max_lifetime\<close> is the one field of the retention policy
  it reads.\<close>

record client_check =
  cc_user_id :: string
  cc_now :: int
  cc_msc4354_enabled :: bool
  cc_filter_send_to_client :: bool
  cc_is_peeking :: bool
  cc_always_include_ids :: "string set"
  cc_sender_ignored :: bool
  cc_max_lifetime :: "int option"
  cc_state :: "event_state option"
  cc_sender_erased :: bool

definition is_still_sticky :: "client_check \<Rightarrow> client_event \<Rightarrow> bool" where
  "is_still_sticky c e \<longleftrightarrow> cc_msc4354_enabled c \<and> \<not> cc_is_peeking c \<and>
     (case ce_locally_sticky_until_ts e of None \<Rightarrow> False | Some t \<Rightarrow> cc_now c < t)"

definition check_client_allowed_to_see_event ::
  "(client_event \<Rightarrow> client_event) \<Rightarrow> client_check \<Rightarrow> client_event \<Rightarrow> client_event option res" where
  "check_client_allowed_to_see_event prune c e =
     (if cc_filter_send_to_client c \<and>
         check_filter_send_to_client e (cc_now c) (cc_max_lifetime c) (cc_sender_ignored c) = FILTER_DENIED
      then Inr None
      else if ce_id e \<in> cc_always_include_ids c then Inr (Some e)
      else if ce_outlier e then
        bindR (is_own_membership (cc_user_id c) e) (\<lambda>own. Inr (if own then Some e else None))
      else
        (case cc_state c of
           None \<Rightarrow> Inl (GenericException ''Missing state for non-outlier event'')
         | Some state \<Rightarrow>
             if is_still_sticky c e then Inr (Some e)
             else
               let visibility = get_effective_room_visibility_from_state state in
               bindR (if cc_sender_erased c then Inr VISIBILITY_MAYBE_DENIED
                      else check_history_visibility e visibility (cc_is_peeking c)) (\<lambda>lax.
               if lax = VISIBILITY_ALLOWED then Inr (Some e)
               else
                 bindR (check_membership (cc_user_id c) e visibility state (cc_is_peeking c)) (\<lambda>r.
                 Inr (if \<not> cm_allowed r then None
                      else if cc_sender_erased c \<and> \<not> cm_joined r then Some (prune e)
                      else Some e)))))"

section \<open>Filtering a list of events for a user\<close>

record vis_storage =
  vs_return_soft_failed_events :: "string \<Rightarrow> bool"
  vs_return_policy_server_spammy_events :: "string \<Rightarrow> bool"
  vs_is_server_admin :: "string \<Rightarrow> bool"
  vs_get_state_for_events :: "string set \<Rightarrow> state_filter \<Rightarrow> string \<rightharpoonup> event_state"
  vs_ignored_users :: "string \<Rightarrow> string set"
  vs_ignored_by :: "string \<Rightarrow> string set"
  vs_are_users_erased :: "string set \<Rightarrow> string \<rightharpoonup> bool"
  vs_get_retention_policy_for_room :: "string \<Rightarrow> int option"
  vs_get_events :: "string set \<Rightarrow> string \<rightharpoonup> event"
  vs_get_state_ids_for_events :: "string set \<Rightarrow> state_filter \<Rightarrow> string \<rightharpoonup> (state_key, string) dict"
  vs_is_partial_state_room :: "string \<Rightarrow> bool"
  vs_time_msec :: int
  vs_msc4354_enabled :: bool

record filtered_event =
  fe_event :: client_event
  fe_membership :: json

definition is_call_invite :: "client_event \<Rightarrow> bool" where
  "is_call_invite e \<longleftrightarrow> ce_type e = ET_CallInvite \<and> \<not> ce_is_state e"

text \<open>Which soft-failed events stay in the list.\<close>

definition drop_soft_failed :: "vis_storage \<Rightarrow> string \<Rightarrow> bool \<Rightarrow> client_event list \<Rightarrow> client_event list" where
  "drop_soft_failed s user_id filter_send_to_client events =
     (if filter_send_to_client \<and> vs_is_server_admin s user_id then
        if vs_return_soft_failed_events s user_id then events
        else if vs_return_policy_server_spammy_events s user_id then
          filter (\<lambda>e. \<not> ce_soft_failed e \<or> im_policy_server_spammy (ce_metadata e)) events
        else filter (\<lambda>e. \<not> ce_soft_failed e) events
      else filter (\<lambda>e. \<not> ce_soft_failed e) events)"

definition client_state_types :: "string \<Rightarrow> client_event list \<Rightarrow> (string \<times> string option) list" where
  "client_state_types user_id events =
     [(ET_RoomHistoryVisibility, Some ''''), (ET_Member, Some user_id)] @
     (if list_ex (\<lambda>e. \<not> ce_soft_failed e \<and> is_call_invite e) events
      then [(ET_JoinRules, Some '''')] else [])"

text \<open>The rest of \<^verbatim>\<open>allowed\<close> once the event is known to be visible: call invites of public rooms are
  dropped, and the user's membership after the event is attached.\<close>

definition is_public_call_invite :: "client_event \<Rightarrow> event_state option \<Rightarrow> bool res" where
  "is_public_call_invite e state_after =
     (if is_call_invite e then
        (case state_after of
           None \<Rightarrow> Inl AssertionError
         | Some st \<Rightarrow>
             Inr (case st (ET_JoinRules, '''') of
                    None \<Rightarrow> False
                  | Some jr \<Rightarrow> map_of (ev_content jr) ''join_rule'' = Some (JStr JR_PUBLIC)))
      else Inr False)"

definition annotate_membership ::
  "string \<Rightarrow> client_event \<Rightarrow> event_state option \<Rightarrow> client_event \<Rightarrow> filtered_event option res" where
  "annotate_membership user_id e state_after filtered =
     bindR (is_own_membership user_id e) (\<lambda>own.
       if own then bindR (membership_attr (ce_event e)) (\<lambda>m. Inr (Some \<lparr>fe_event = filtered, fe_membership = m\<rparr>))
       else
         (case state_after of
            Some st \<Rightarrow>
              (case st (ET_Member, user_id) of
                 None \<Rightarrow> Inr (Some \<lparr>fe_event = filtered, fe_membership = JStr M_LEAVE\<rparr>)
               | Some me \<Rightarrow>
                   bindR (membership_attr me) (\<lambda>m. Inr (Some \<lparr>fe_event = filtered, fe_membership = m\<rparr>)))
          | None \<Rightarrow>
              bindR (state_key_attr (ce_event e)) (\<lambda>_.
                if ce_outlier e then Inr None
                else Inl (GenericException ''Missing state for event that is not user's own membership''))))"

text \<open>\<^verbatim>\<open>allowed\<close>. \<^verbatim>\<open>retention_policies\<close> is bound only where the events go to a client, so reading it
  raises \<^verbatim>\<open>NameError\<close> otherwise.\<close>

definition allowed_event ::
  "(client_event \<Rightarrow> client_event) \<Rightarrow> vis_storage \<Rightarrow> client_check \<Rightarrow> (string \<rightharpoonup> event_state) \<Rightarrow>
   (string \<rightharpoonup> bool) \<Rightarrow> client_event \<Rightarrow> filtered_event option res" where
  "allowed_event prune s c event_id_to_state erased_senders e =
     (let state_after = event_id_to_state (ce_id e) in
      bindR (raise_if (\<not> cc_filter_send_to_client c) NameError) (\<lambda>_.
      bindR (check_client_allowed_to_see_event prune
         (c\<lparr>cc_sender_ignored := ev_sender (ce_event e) \<in> vs_ignored_users s (cc_user_id c),
            cc_max_lifetime := vs_get_retention_policy_for_room s (ev_room_id (ce_event e)),
            cc_state := state_after,
            cc_sender_erased := erased_senders (ev_sender (ce_event e)) = Some True\<rparr>) e) (\<lambda>r.
      case r of
        None \<Rightarrow> Inr None
      | Some filtered \<Rightarrow>
          bindR (is_public_call_invite e state_after) (\<lambda>public.
            if public then Inr None
            else annotate_membership (cc_user_id c) e state_after filtered))))"

definition base_check :: "vis_storage \<Rightarrow> string \<Rightarrow> bool \<Rightarrow> string set \<Rightarrow> bool \<Rightarrow> client_check" where
  "base_check s user_id is_peeking always_include_ids filter_send_to_client =
     \<lparr>cc_user_id = user_id, cc_now = vs_time_msec s, cc_msc4354_enabled = vs_msc4354_enabled s,
      cc_filter_send_to_client = filter_send_to_client, cc_is_peeking = is_peeking,
      cc_always_include_ids = always_include_ids, cc_sender_ignored = False, cc_max_lifetime = None,
      cc_state = None, cc_sender_erased = False\<rparr>"

definition filter_and_transform_events_for_client ::
  "(client_event \<Rightarrow> client_event) \<Rightarrow> vis_storage \<Rightarrow> string \<Rightarrow> client_event list \<Rightarrow> bool \<Rightarrow> string set \<Rightarrow>
   bool \<Rightarrow> filtered_event list res" where
  "filter_and_transform_events_for_client prune s user_id events_before is_peeking always_include_ids
     filter_send_to_client =
     (let events = drop_soft_failed s user_id filter_send_to_client events_before;
          event_id_to_state = vs_get_state_for_events s
            (set (map ce_id (filter (\<lambda>e. \<not> ce_outlier e) events)))
            (from_types (client_state_types user_id events_before));
          erased_senders = vs_are_users_erased s (set (map (\<lambda>e. ev_sender (ce_event e)) events))
      in bindR (mapR (allowed_event prune s
             (base_check s user_id is_peeking always_include_ids filter_send_to_client)
             event_id_to_state erased_senders) events) (\<lambda>filtered_events.
           Inr (List.map_filter id filtered_events)))"

section \<open>One event and many users\<close>

text \<open>\<^verbatim>\<open>_get_state_map\<close>: \<open>get_prev_state_ids\<close> is the method of the event's context.\<close>

definition get_state_map ::
  "vis_storage \<Rightarrow> client_event \<Rightarrow> (state_filter \<Rightarrow> (state_key, string) dict) \<Rightarrow> state_filter \<Rightarrow> event_state" where
  "get_state_map s e get_prev_state_ids f =
     (let state_map = get_prev_state_ids f;
          event_map = vs_get_events s (set (map snd state_map));
          updated = (\<lambda>key. Option.bind (map_of state_map key) event_map)
      in case ev_state_key (ce_event e) of
           None \<Rightarrow> updated
         | Some k \<Rightarrow> updated((ce_type e, k) \<mapsto> ce_event e))"

text \<open>The users left by the checks of \<^verbatim>\<open>_check_filter_send_to_client\<close>.\<close>

definition users_to_send ::
  "vis_storage \<Rightarrow> string list \<Rightarrow> client_event \<Rightarrow> bool \<Rightarrow> string list" where
  "users_to_send s user_ids e filter_send_to_client =
     (if filter_send_to_client then
        filter (\<lambda>u. check_filter_send_to_client e (vs_time_msec s)
          (vs_get_retention_policy_for_room s (ev_room_id (ce_event e)))
          (u \<in> vs_ignored_by s (ev_sender (ce_event e))) \<noteq> FILTER_DENIED) user_ids
      else user_ids)"

definition filter_event_for_clients_with_state ::
  "vis_storage \<Rightarrow> string list \<Rightarrow> client_event \<Rightarrow> (state_filter \<Rightarrow> (state_key, string) dict) \<Rightarrow> bool \<Rightarrow>
   bool \<Rightarrow> string list res" where
  "filter_event_for_clients_with_state s user_ids e get_prev_state_ids is_peeking filter_send_to_client =
     (if ce_soft_failed e then Inr []
      else if user_ids = [] then Inr []
      else
        let allowed_user_ids = users_to_send s (remdups user_ids) e filter_send_to_client in
        if ce_outlier e then
          if ce_type e = ET_Member then
            bindR (state_key_attr (ce_event e)) (\<lambda>k. Inr (if k \<in> set allowed_user_ids then [k] else []))
          else Inr []
        else
          let visibility = get_effective_room_visibility_from_state
                (get_state_map s e get_prev_state_ids (from_types [(ET_RoomHistoryVisibility, Some '''')]))
          in bindR (check_history_visibility e visibility is_peeking) (\<lambda>lax.
          if lax = VISIBILITY_ALLOWED then Inr allowed_user_ids
          else
            let state_map = get_state_map s e get_prev_state_ids
                  (from_types (map (\<lambda>u. (ET_Member, Some u)) allowed_user_ids @
                     [(ET_RoomHistoryVisibility, Some '''')]))
            in filterR (\<lambda>u. bindR (check_membership u e visibility state_map is_peeking)
                   (\<lambda>r. Inr (cm_allowed r))) allowed_user_ids))"

section \<open>Filtering a list of events for a server\<close>

text \<open>\<^verbatim>\<open>event_visible_to_server\<close> of the Rust library. \<open>parse_user_id\<close> gives the server name of a valid
  user id; an error is raised to Python as \<^verbatim>\<open>ValueError\<close>.\<close>

definition parse_user_id :: "string \<Rightarrow> string option" where
  "parse_user_id s =
     (if take 1 s = ''@'' then map_option snd (split1 CHR '':'' s) else None)"

fun any_visible_member :: "string \<Rightarrow> string \<Rightarrow> (string \<times> string) list \<Rightarrow> bool res" where
  "any_visible_member target vis [] = Inr False"
| "any_visible_member target vis ((state_key, membership) # rest) =
     (case parse_user_id state_key of
        None \<Rightarrow> Inl ValueError
      | Some server \<Rightarrow>
          if server \<noteq> target then Inl ValueError
          else if membership = M_INVITE \<and> vis = HV_INVITED then Inr True
          else if membership = M_JOIN then Inr True
          else any_visible_member target vis rest)"

definition event_visible_to_server ::
  "string \<Rightarrow> string \<Rightarrow> string \<Rightarrow> (string \<rightharpoonup> bool) \<Rightarrow> bool \<Rightarrow> (string \<times> string) list \<Rightarrow> bool res" where
  "event_visible_to_server sender target vis erased_senders partial_state_invisible memberships =
     (if erased_senders sender = Some True then Inr False
      else if partial_state_invisible then Inr False
      else if vis \<noteq> HV_INVITED \<and> vis \<noteq> HV_JOINED then Inr True
      else any_visible_member target vis memberships)"

text \<open>\<^verbatim>\<open>_event_to_history_vis\<close>.\<close>

definition history_vis_of ::
  "(string \<rightharpoonup> (state_key, string) dict) \<Rightarrow> (string \<rightharpoonup> event) \<Rightarrow> client_event \<Rightarrow> (string \<times> string) res" where
  "history_vis_of event_to_state_ids vis_events e =
     (case Option.bind (event_to_state_ids (ce_id e)) (\<lambda>state_ids. map_of state_ids HISTORY_VIS_KEY) of
        None \<Rightarrow> Inr (ce_id e, HV_SHARED)
      | Some visibility_id \<Rightarrow>
          if visibility_id = '''' then Inr (ce_id e, HV_SHARED)
          else
            (case vis_events visibility_id of
               None \<Rightarrow> Inl KeyError
             | Some vis_event \<Rightarrow>
                 (case get_default (ev_content vis_event) ''history_visibility'' (JStr HV_SHARED) of
                    JStr vis \<Rightarrow> Inr (ce_id e, vis)
                  | _ \<Rightarrow> Inl AssertionError)))"

definition event_to_history_vis :: "vis_storage \<Rightarrow> client_event list \<Rightarrow> (string, string) dict res" where
  "event_to_history_vis s events =
     (let event_to_state_ids = vs_get_state_ids_for_events s
            (set (map ce_id (filter (\<lambda>e. \<not> ce_outlier e) events)))
            (from_types [(ET_RoomHistoryVisibility, Some '''')]);
          visibility_ids = {v. v \<noteq> '''' \<and> v \<in> set (List.map_filter (\<lambda>e. Option.bind
            (event_to_state_ids (ce_id e)) (\<lambda>state_ids. map_of state_ids HISTORY_VIS_KEY)) events)};
          vis_events = vs_get_events s visibility_ids
      in bindR (mapR (history_vis_of event_to_state_ids vis_events) events) (\<lambda>kvs.
           Inr (fold (\<lambda>(k, v). dict_set k v) kvs [])))"

text \<open>\<^verbatim>\<open>_event_to_memberships\<close>. The dictionary of the storage is iterated in the order of the events.\<close>

definition include_state_key :: "string \<Rightarrow> string \<Rightarrow> bool" where
  "include_state_key server_name state_key =
     (case split1 CHR '':'' state_key of None \<Rightarrow> False | Some (_, domain) \<Rightarrow> domain = server_name)"

definition member_entry :: "event \<Rightarrow> (string \<times> json) res" where
  "member_entry m = bindR (state_key_attr m) (\<lambda>k. bindR (membership_attr m) (\<lambda>v. Inr (k, v)))"

definition memberships_in ::
  "(string \<rightharpoonup> event) \<Rightarrow> (state_key, string) dict \<Rightarrow> (state_key, string \<times> json) dict res" where
  "memberships_in event_map key_to_eid =
     mapR (\<lambda>(key, m). bindR (member_entry m) (\<lambda>v. Inr (key, v)))
       (List.map_filter (\<lambda>(key, inner). map_option (Pair key) (event_map inner)) key_to_eid)"

definition event_to_memberships ::
  "vis_storage \<Rightarrow> client_event list \<Rightarrow> string \<Rightarrow> (string, (state_key, string \<times> json) dict) dict res" where
  "event_to_memberships s events server_name =
     (if events = [] then Inr []
      else
        let event_to_state_ids = vs_get_state_ids_for_events s (set (map ce_id events))
              (from_types [(ET_Member, None)]);
            per_event = List.map_filter (\<lambda>e_id. map_option (Pair e_id) (event_to_state_ids e_id))
              (remdups (map ce_id events));
            event_id_to_state_key =
              fold (\<lambda>(key, e_id). dict_set e_id key) (concat (map snd per_event)) [];
            event_map = vs_get_events s
              (set (map fst (filter (\<lambda>(e_id, key). include_state_key server_name (snd key)) event_id_to_state_key)))
        in mapR (\<lambda>(e_id, key_to_eid). bindR (memberships_in event_map key_to_eid) (\<lambda>d. Inr (e_id, d))) per_event)"

text \<open>The conversion of the list of memberships to the \<^verbatim>\<open>Vec<(String, String)>\<close> of the Rust function.\<close>

fun member_strings :: "(string \<times> json) list \<Rightarrow> (string \<times> string) list res" where
  "member_strings [] = Inr []"
| "member_strings ((k, v) # rest) =
     (case v of JStr m \<Rightarrow> bindR (member_strings rest) (\<lambda>ms. Inr ((k, m) # ms)) | _ \<Rightarrow> Inl TypeError)"

definition partial_state_invisible_ids :: "vis_storage \<Rightarrow> string \<Rightarrow> client_event list \<Rightarrow> string set res" where
  "partial_state_invisible_ids s local_server_name events =
     bindR (filterR (\<lambda>e. bindR (get_domain_from_id (ev_sender (ce_event e))) (\<lambda>sender_domain.
         Inr (sender_domain \<noteq> local_server_name \<and> vs_is_partial_state_room s (ev_room_id (ce_event e))))) events)
       (\<lambda>invisible. Inr (set (map ce_id invisible)))"

definition filter_events_for_server ::
  "(client_event \<Rightarrow> client_event) \<Rightarrow> vis_storage \<Rightarrow> string \<Rightarrow> string \<Rightarrow> client_event list \<Rightarrow> bool \<Rightarrow> bool \<Rightarrow>
   bool \<Rightarrow> client_event list res" where
  "filter_events_for_server prune s target_server_name local_server_name events redact
     filter_out_erased_senders filter_out_remote_partial_state_events =
     (let erased_senders =
            (if filter_out_erased_senders
             then vs_are_users_erased s (set (map (\<lambda>e. ev_sender (ce_event e)) events)) else Map.empty)
      in bindR (if filter_out_remote_partial_state_events
                then partial_state_invisible_ids s local_server_name events else Inr {}) (\<lambda>invisible_ids.
         bindR (event_to_history_vis s events) (\<lambda>history_vis.
         bindR (event_to_memberships s
             (filter (\<lambda>e. dict_get (ce_id e) '''' history_vis \<notin> {HV_SHARED, HV_WORLD_READABLE}) events)
             target_server_name) (\<lambda>memberships.
         bindR (mapR (\<lambda>e.
             bindR (member_strings (map snd (dict_get (ce_id e) [] memberships))) (\<lambda>ms.
             bindR (event_visible_to_server (ev_sender (ce_event e)) target_server_name
                 (dict_get (ce_id e) '''' history_vis) erased_senders (ce_id e \<in> invisible_ids) ms) (\<lambda>visible.
             Inr (if visible then Some e else if redact then Some (prune e) else None)))) events) (\<lambda>to_return.
         Inr (List.map_filter id to_return))))))"


end
