(* ===== verification/Visibility_Props.thy ===== *)
theory Visibility_Props
  imports Visibility "HOL-Library.Sublist"
begin

text \<open>
  What the visibility checks decide. The rules are stated on the visibilities and the memberships on
  both sides of an event: a history visibility event counts under the setting it replaces too, and a
  user's own membership event counts under the membership it replaces.
\<close>

section \<open>The rules\<close>

definition prev_value :: "client_event \<Rightarrow> string \<Rightarrow> json option" where
  "prev_value e k = (case prev_content_get e k of Inl _ \<Rightarrow> None | Inr v \<Rightarrow> v)"

definition own_member_event :: "string \<Rightarrow> client_event \<Rightarrow> bool" where
  "own_member_event u e \<longleftrightarrow> ce_type e = ET_Member \<and> ev_state_key (ce_event e) = Some u"

definition memberships_around :: "string \<Rightarrow> client_event \<Rightarrow> event_state \<Rightarrow> string set" where
  "memberships_around u e st =
     (if own_member_event u e then
        {known_or MEMBERSHIP_PRIORITY M_LEAVE (map_of (ev_content (ce_event e)) ''membership''),
         known_or MEMBERSHIP_PRIORITY M_LEAVE (prev_value e ''membership'')}
      else {m. \<exists>me. st (ET_Member, u) = Some me \<and> map_of (ev_content me) ''membership'' = Some (JStr m)})"

definition visibilities_around :: "client_event \<Rightarrow> event_state \<Rightarrow> string set" where
  "visibilities_around e st =
     insert (get_effective_room_visibility_from_state st)
       (if ce_type e = ET_RoomHistoryVisibility
        then {known_or VISIBILITY_PRIORITY HV_SHARED (prev_value e ''history_visibility'')} else {})"

text \<open>The user's own departure, and whether the user was joined at the event.\<close>

definition own_departure :: "string \<Rightarrow> client_event \<Rightarrow> bool" where
  "own_departure u e \<longleftrightarrow> own_member_event u e \<and>
     known_or MEMBERSHIP_PRIORITY M_LEAVE (map_of (ev_content (ce_event e)) ''membership'') = M_LEAVE \<and>
     known_or MEMBERSHIP_PRIORITY M_LEAVE (prev_value e ''membership'') \<in> {M_JOIN, M_INVITE}"

definition was_joined :: "string \<Rightarrow> client_event \<Rightarrow> event_state \<Rightarrow> bool" where
  "was_joined u e st \<longleftrightarrow> M_JOIN \<in> memberships_around u e st \<and> \<not> own_departure u e"

definition open_to :: "bool \<Rightarrow> string \<Rightarrow> bool" where
  "open_to is_peeking vis \<longleftrightarrow> vis = HV_WORLD_READABLE \<or> vis = HV_SHARED \<and> \<not> is_peeking"

definition member_may_see :: "string \<Rightarrow> client_event \<Rightarrow> event_state \<Rightarrow> bool \<Rightarrow> bool" where
  "member_may_see u e st is_peeking \<longleftrightarrow>
     own_departure u e \<or> M_JOIN \<in> memberships_around u e st \<or>
     open_to is_peeking (get_effective_room_visibility_from_state st) \<or>
     get_effective_room_visibility_from_state st = HV_INVITED \<and> M_INVITE \<in> memberships_around u e st"

text \<open>An event whose parts have the shapes the server gives them: none of the checks raises on it.\<close>

definition well_shaped :: "client_event \<Rightarrow> bool" where
  "well_shaped e \<longleftrightarrow> (ce_type e = ET_Member \<longrightarrow> ce_is_state e) \<and>
     is_jobj (get_default (ce_unsigned e) ''prev_content'' (JObj []))"

definition member_ok :: "string \<Rightarrow> event_state \<Rightarrow> bool" where
  "member_ok u st \<longleftrightarrow> (\<forall>me. st (ET_Member, u) = Some me \<longrightarrow> map_of (ev_content me) ''membership'' \<noteq> None)"

lemma known_or_cases: "known_or known d v = d \<or> known_or known d v \<in> set known"
  by (auto simp: known_or_def split: option.splits json.splits)

lemma known_membership: "known_or MEMBERSHIP_PRIORITY M_LEAVE v \<in> {M_JOIN, M_INVITE, M_KNOCK, M_LEAVE, M_BAN}"
  using known_or_cases [of MEMBERSHIP_PRIORITY M_LEAVE v] by (auto simp: MEMBERSHIP_PRIORITY_def)

lemma known_visibility:
  "known_or VISIBILITY_PRIORITY HV_SHARED v \<in> {HV_WORLD_READABLE, HV_SHARED, HV_INVITED, HV_JOINED}"
  using known_or_cases [of VISIBILITY_PRIORITY HV_SHARED v] by (auto simp: VISIBILITY_PRIORITY_def)

lemma effective_visibility:
  "get_effective_room_visibility_from_state st \<in> {HV_WORLD_READABLE, HV_SHARED, HV_INVITED, HV_JOINED}"
  using known_visibility by (auto simp: get_effective_room_visibility_from_state_def split: option.splits)

lemma prev_content_ok: "well_shaped e \<Longrightarrow> prev_content_get e k = Inr (prev_value e k)"
  by (cases "get_default (ce_unsigned e) ''prev_content'' (JObj [])")
    (simp_all add: well_shaped_def prev_content_get_def prev_value_def)

lemma own_membership_ok: "well_shaped e \<Longrightarrow> is_own_membership u e = Inr (own_member_event u e)"
  by (auto simp: well_shaped_def is_own_membership_def own_member_event_def is_state_def
      state_key_attr_def split: option.splits)

lemma own_membership_Inr: "is_own_membership u e = Inr b \<Longrightarrow> b = own_member_event u e"
  by (auto simp: is_own_membership_def own_member_event_def state_key_attr_def
      split: if_splits option.splits)

lemma check_history_visibility_Inr:
  assumes "check_history_visibility e (get_effective_room_visibility_from_state st) is_peeking = Inr r"
  shows "r = VISIBILITY_ALLOWED \<longleftrightarrow> (\<exists>v \<in> visibilities_around e st. open_to is_peeking v)"
proof (cases "ce_type e = ET_RoomHistoryVisibility")
  case False
  then show ?thesis using assms
    by (auto simp: check_history_visibility_def visibilities_around_def open_to_def split: if_splits)
next
  case True
  obtain p where p: "prev_content_get e ''history_visibility'' = Inr p" "prev_value e ''history_visibility'' = p"
    using assms True by (cases "prev_content_get e ''history_visibility''")
      (auto simp: check_history_visibility_def prev_value_def)
  show ?thesis
    using assms True p effective_visibility [of st] known_visibility [of p]
    by (auto simp: check_history_visibility_def visibilities_around_def open_to_def VISIBILITY_PRIORITY_def)
qed

lemma membership_verdict_iff:
  assumes "vis \<in> {HV_WORLD_READABLE, HV_SHARED, HV_INVITED, HV_JOINED}"
  shows "cm_joined (membership_verdict vis is_peeking m) \<longleftrightarrow> m = Some (JStr M_JOIN)"
    and "cm_allowed (membership_verdict vis is_peeking m) \<longleftrightarrow>
      m = Some (JStr M_JOIN) \<or> open_to is_peeking vis \<or> vis = HV_INVITED \<and> m = Some (JStr M_INVITE)"
  using assms by (auto simp: membership_verdict_def open_to_def)

text \<open>Of the memberships on both sides of the user's own event the one that comes first counts.\<close>

lemma most_joined:
  assumes "a \<in> {M_JOIN, M_INVITE, M_KNOCK, M_LEAVE, M_BAN}" "b \<in> {M_JOIN, M_INVITE, M_KNOCK, M_LEAVE, M_BAN}"
  shows "\<exists>i j. tuple_index MEMBERSHIP_PRIORITY a = Inr i \<and> tuple_index MEMBERSHIP_PRIORITY b = Inr j \<and>
    ((if j < i then b else a) = M_JOIN \<longleftrightarrow> a = M_JOIN \<or> b = M_JOIN) \<and>
    ((if j < i then b else a) = M_INVITE \<longleftrightarrow> (a = M_INVITE \<or> b = M_INVITE) \<and> a \<noteq> M_JOIN \<and> b \<noteq> M_JOIN)"
proof -
  have "tuple_index MEMBERSHIP_PRIORITY x = Inr (if x = M_JOIN then 0 else if x = M_INVITE then 1 else
      if x = M_KNOCK then 2 else if x = M_LEAVE then 3 else 4)"
    if "x \<in> {M_JOIN, M_INVITE, M_KNOCK, M_LEAVE, M_BAN}" for x
    using that by (auto simp: MEMBERSHIP_PRIORITY_def)
  from this [OF assms(1)] this [OF assms(2)] show ?thesis by simp
qed

lemma check_membership_own:
  fixes e :: client_event
  defines "a \<equiv> known_or MEMBERSHIP_PRIORITY M_LEAVE (map_of (ev_content (ce_event e)) ''membership'')"
    and "b \<equiv> known_or MEMBERSHIP_PRIORITY M_LEAVE (prev_value e ''membership'')"
  assumes "is_own_membership u e = Inr True" "prev_content_get e ''membership'' = Inr (prev_value e ''membership'')"
  shows "\<exists>m. check_membership u e vis st is_peeking =
      Inr (if a = M_LEAVE \<and> (b = M_JOIN \<or> b = M_INVITE) then CheckMembershipReturn True False
           else membership_verdict vis is_peeking (Some (JStr m))) \<and>
    (m = M_JOIN \<longleftrightarrow> M_JOIN \<in> {a, b}) \<and> (m = M_INVITE \<longleftrightarrow> M_INVITE \<in> {a, b} \<and> M_JOIN \<notin> {a, b})"
proof -
  have "a \<in> {M_JOIN, M_INVITE, M_KNOCK, M_LEAVE, M_BAN}" "b \<in> {M_JOIN, M_INVITE, M_KNOCK, M_LEAVE, M_BAN}"
    unfolding a_def b_def by (rule known_membership)+
  from most_joined [OF this]
  obtain i j where ij: "tuple_index MEMBERSHIP_PRIORITY a = Inr i" "tuple_index MEMBERSHIP_PRIORITY b = Inr j"
    and m: "(if j < i then b else a) = M_JOIN \<longleftrightarrow> a = M_JOIN \<or> b = M_JOIN"
      "(if j < i then b else a) = M_INVITE \<longleftrightarrow> (a = M_INVITE \<or> b = M_INVITE) \<and> a \<noteq> M_JOIN \<and> b \<noteq> M_JOIN"
    by (elim exE conjE)
  have "check_membership u e vis st is_peeking =
      Inr (if a = M_LEAVE \<and> (b = M_JOIN \<or> b = M_INVITE) then CheckMembershipReturn True False
           else membership_verdict vis is_peeking (Some (JStr (if j < i then b else a))))"
    using assms(3,4) ij unfolding check_membership_def a_def [symmetric] by (auto simp: Let_def b_def)
  then show ?thesis using m by (intro exI [of _ "if j < i then b else a"]) (simp, blast)
qed

lemma check_membership_Inr:
  assumes "check_membership u e (get_effective_room_visibility_from_state st) st is_peeking = Inr r"
  shows "cm_allowed r = member_may_see u e st is_peeking \<and> cm_joined r = was_joined u e st"
proof (cases "own_member_event u e")
  case True
  then have own: "is_own_membership u e = Inr True"
    using assms own_membership_Inr by (cases "is_own_membership u e") (auto simp: check_membership_def)
  obtain p where p: "prev_content_get e ''membership'' = Inr p" "prev_value e ''membership'' = p"
    using assms own by (cases "prev_content_get e ''membership''")
      (auto simp: check_membership_def prev_value_def Let_def)
  let ?a = "known_or MEMBERSHIP_PRIORITY M_LEAVE (map_of (ev_content (ce_event e)) ''membership'')"
  let ?b = "known_or MEMBERSHIP_PRIORITY M_LEAVE (prev_value e ''membership'')"
  have ar: "memberships_around u e st = {?a, ?b}" using True by (simp add: memberships_around_def)
  have dep: "own_departure u e \<longleftrightarrow> ?a = M_LEAVE \<and> (?b = M_JOIN \<or> ?b = M_INVITE)"
    using True by (simp add: own_departure_def)
  have "prev_content_get e ''membership'' = Inr (prev_value e ''membership'')" using p by simp
  from check_membership_own [OF own this, of "get_effective_room_visibility_from_state st" st is_peeking]
  obtain m where m: "r = (if own_departure u e then CheckMembershipReturn True False
      else membership_verdict (get_effective_room_visibility_from_state st) is_peeking (Some (JStr m)))"
    and mj: "m = M_JOIN \<longleftrightarrow> M_JOIN \<in> {?a, ?b}"
    and mi: "m = M_INVITE \<longleftrightarrow> M_INVITE \<in> {?a, ?b} \<and> M_JOIN \<notin> {?a, ?b}"
    unfolding assms dep [symmetric] sum.inject by (elim exE conjE)
  show ?thesis
  proof (cases "own_departure u e")
    case True
    then show ?thesis by (simp add: m member_may_see_def was_joined_def)
  next
    case False
    then have r: "r = membership_verdict (get_effective_room_visibility_from_state st) is_peeking (Some (JStr m))"
      by (simp add: m)
    show ?thesis
      unfolding r member_may_see_def was_joined_def membership_verdict_iff [OF effective_visibility] ar
        option.inject json.inject mj mi using False by blast
  qed
next
  case False
  then have own: "is_own_membership u e = Inr False"
    using assms own_membership_Inr by (cases "is_own_membership u e") (auto simp: check_membership_def)
  show ?thesis
    using assms own False
    by (auto simp: check_membership_def member_may_see_def memberships_around_def own_departure_def
        was_joined_def bindR_eq_Inr membership_verdict_iff [OF effective_visibility] split: option.splits)
      (simp add: membership_verdict_def)
qed

lemma check_history_visibility_ok:
  assumes "well_shaped e"
  shows "check_history_visibility e (get_effective_room_visibility_from_state st) is_peeking =
    Inr (if \<exists>v \<in> visibilities_around e st. open_to is_peeking v then VISIBILITY_ALLOWED else VISIBILITY_MAYBE_DENIED)"
proof -
  have idx: "\<exists>n. tuple_index VISIBILITY_PRIORITY v = Inr n"
    if "v \<in> {HV_WORLD_READABLE, HV_SHARED, HV_INVITED, HV_JOINED}" for v
    using that by (auto simp: VISIBILITY_PRIORITY_def)
  have "\<exists>r. check_history_visibility e (get_effective_room_visibility_from_state st) is_peeking = Inr r"
    using idx [OF effective_visibility, of st] idx [OF known_visibility, of "prev_value e ''history_visibility''"]
    by (auto simp: check_history_visibility_def prev_content_ok [OF assms] Let_def)
  then obtain r where "check_history_visibility e (get_effective_room_visibility_from_state st) is_peeking = Inr r"
    by blast
  with check_history_visibility_Inr [OF this] show ?thesis by (cases r) simp_all
qed

lemma check_membership_ok:
  assumes "well_shaped e" "member_ok u st"
  shows "check_membership u e (get_effective_room_visibility_from_state st) st is_peeking =
    Inr (CheckMembershipReturn (member_may_see u e st is_peeking) (was_joined u e st))"
proof -
  have "\<exists>r. check_membership u e (get_effective_room_visibility_from_state st) st is_peeking = Inr r"
  proof (cases "own_member_event u e")
    case True
    then show ?thesis
      using check_membership_own [of u e "get_effective_room_visibility_from_state st" st is_peeking]
        own_membership_ok [OF assms(1), of u] prev_content_ok [OF assms(1)] by fastforce
  next
    case False
    then show ?thesis using assms(2) own_membership_ok [OF assms(1), of u]
      by (auto simp: check_membership_def member_ok_def bindR_eq_Inr split: option.splits)
  qed
  then show ?thesis using check_membership_Inr by fastforce
qed

section \<open>One event and one user\<close>

lemma client_check_result:
  assumes "well_shaped e" "cc_state c = Some st" "member_ok (cc_user_id c) st" "\<not> ce_outlier e"
    and "ce_id e \<notin> cc_always_include_ids c"
    and "cc_filter_send_to_client c \<longrightarrow>
      check_filter_send_to_client e (cc_now c) (cc_max_lifetime c) (cc_sender_ignored c) \<noteq> FILTER_DENIED"
  shows "check_client_allowed_to_see_event prune c e =
    Inr (if is_still_sticky c e then Some e
         else if cc_sender_erased c then
           (if was_joined (cc_user_id c) e st then Some e
            else if member_may_see (cc_user_id c) e st (cc_is_peeking c) then Some (prune e) else None)
         else if (\<exists>v \<in> visibilities_around e st. open_to (cc_is_peeking c) v) \<or>
                 member_may_see (cc_user_id c) e st (cc_is_peeking c) then Some e else None)"
  using assms
  by (auto simp: check_client_allowed_to_see_event_def check_history_visibility_ok check_membership_ok Let_def
      was_joined_def member_may_see_def)

text \<open>C7: who may see an event. For a well-shaped event that is not an outlier, is not on the list of events to
  include always and passes the checks of \<^verbatim>\<open>_check_filter_send_to_client\<close>, the user is given the event
  as it is while it is sticky; otherwise, where the sender is not erased, exactly when the room's history is
  open (world readable, or shared and the user not a peeker) under the setting before or after the
  event, when the user was joined or invited enough on either side of it, or when it is the user's own
  departure. Where the sender is erased, the full event goes only to those who were joined, and the
  pruned one to the others who may see it.\<close>

theorem client_sees_event_iff:
  assumes "well_shaped e" "cc_state c = Some st" "member_ok (cc_user_id c) st" "\<not> ce_outlier e"
    and "ce_id e \<notin> cc_always_include_ids c"
    and "cc_filter_send_to_client c \<longrightarrow>
      check_filter_send_to_client e (cc_now c) (cc_max_lifetime c) (cc_sender_ignored c) \<noteq> FILTER_DENIED"
  shows "check_client_allowed_to_see_event prune c e =
    Inr (if is_still_sticky c e then Some e
         else if cc_sender_erased c then
           (if was_joined (cc_user_id c) e st then Some e
            else if member_may_see (cc_user_id c) e st (cc_is_peeking c) then Some (prune e) else None)
         else if (\<exists>v \<in> visibilities_around e st. open_to (cc_is_peeking c) v) \<or>
                 member_may_see (cc_user_id c) e st (cc_is_peeking c) then Some e else None)"
  using assms by (rule client_check_result)

text \<open>A room whose history is for its joined members, with one member, and a message in it.\<close>

definition vis_event :: "string \<Rightarrow> string \<Rightarrow> string option \<Rightarrow> jobj \<Rightarrow> event" where
  "vis_event i etype sk content = \<lparr>ev_event_id = i, ev_room_id = ''!r:a'', ev_room_id_in_event = True,
     ev_type = etype, ev_sender = ''@s:a'', ev_state_key = sk, ev_content = content,
     ev_origin_server_ts = 0, ev_depth = 1, ev_auth_event_ids = [], ev_prev_event_ids = [], ev_prev_state_events = [],
     ev_signatures = [], ev_redacts = None, ev_rejected_reason = None, ev_room_version = RV_V1,
     ev_recheck_redaction = False\<rparr>"

definition vis_message :: client_event where
  "vis_message = \<lparr>ce_event = vis_event ''$m'' ''m.room.message'' None [], ce_unsigned = [],
     ce_metadata = \<lparr>im_soft_failed = False, im_outlier = False, im_policy_server_spammy = False\<rparr>,
     ce_locally_sticky_until_ts = None\<rparr>"

definition vis_state :: event_state where
  "vis_state = [HISTORY_VIS_KEY \<mapsto> vis_event ''$v'' ET_RoomHistoryVisibility (Some '''')
       [(''history_visibility'', JStr HV_JOINED)],
     (ET_Member, ''@u:b'') \<mapsto> vis_event ''$j'' ET_Member (Some ''@u:b'') [(''membership'', JStr M_JOIN)]]"

definition vis_check :: "string \<Rightarrow> client_check" where
  "vis_check u = \<lparr>cc_user_id = u, cc_now = 10, cc_msc4354_enabled = True, cc_filter_send_to_client = True,
     cc_is_peeking = False, cc_always_include_ids = {}, cc_sender_ignored = False, cc_max_lifetime = None,
     cc_state = Some vis_state, cc_sender_erased = False\<rparr>"

lemmas vis_samples = vis_event_def vis_message_def vis_state_def vis_check_def

theorem client_sees_event_iff_witness:
  "check_client_allowed_to_see_event id (vis_check ''@u:b'') vis_message = Inr (Some vis_message) \<and>
   check_client_allowed_to_see_event id (vis_check ''@w:b'') vis_message = Inr None"
proof -
  have shaped: "well_shaped vis_message" "\<not> ce_outlier vis_message" "cc_state (vis_check u) = Some vis_state"
    "ce_id vis_message \<notin> cc_always_include_ids (vis_check u)"
    "check_filter_send_to_client vis_message (cc_now (vis_check u)) (cc_max_lifetime (vis_check u))
      (cc_sender_ignored (vis_check u)) \<noteq> FILTER_DENIED" "member_ok u vis_state"
    "\<not> is_still_sticky (vis_check u) vis_message" "cc_user_id (vis_check u) = u" "\<not> cc_sender_erased (vis_check u)"
    for u
    by (auto simp: vis_samples well_shaped_def get_default_def check_filter_send_to_client_def is_state_def
        member_ok_def is_still_sticky_def)
  have vis: "get_effective_room_visibility_from_state vis_state = HV_JOINED"
    "visibilities_around vis_message vis_state = {HV_JOINED}"
    by (simp_all add: vis_samples get_effective_room_visibility_from_state_def known_or_def
        VISIBILITY_PRIORITY_def visibilities_around_def)
  have "M_JOIN \<in> memberships_around ''@u:b'' vis_message vis_state"
    "memberships_around ''@w:b'' vis_message vis_state = {}" "\<not> own_departure ''@w:b'' vis_message"
    by (simp_all add: vis_samples memberships_around_def own_member_event_def own_departure_def)
  then show ?thesis
    using client_sees_event_iff [of vis_message "vis_check ''@u:b''" vis_state id]
      client_sees_event_iff [of vis_message "vis_check ''@w:b''" vis_state id] shaped
    by (simp add: vis open_to_def member_may_see_def)
qed


section \<open>One event and many users\<close>

lemma visibility_cong:
  "st HISTORY_VIS_KEY = st' HISTORY_VIS_KEY \<Longrightarrow>
   get_effective_room_visibility_from_state st = get_effective_room_visibility_from_state st'"
  by (simp add: get_effective_room_visibility_from_state_def)

lemma check_membership_cong:
  "st (ET_Member, u) = st' (ET_Member, u) \<Longrightarrow>
   check_membership u e vis st is_peeking = check_membership u e vis st' is_peeking"
  by (simp only: check_membership_def)

text \<open>The state after an event, from the ids of the state before it and the events of the database.\<close>

definition state_after :: "(state_key \<rightharpoonup> string) \<Rightarrow> (string \<rightharpoonup> event) \<Rightarrow> client_event \<Rightarrow> event_state" where
  "state_after prev_ids db e =
     (let before = (\<lambda>key. Option.bind (prev_ids key) db)
      in case ev_state_key (ce_event e) of None \<Rightarrow> before | Some k \<Rightarrow> before((ce_type e, k) \<mapsto> ce_event e))"

lemma get_state_map_eq:
  assumes "\<forall>f key. map_of (g f) key = (if sf_contains f key then prev_ids key else None)"
    and "\<forall>ids i. vs_get_events s ids i = (if i \<in> ids then db i else None)"
    and "sf_contains f key"
  shows "get_state_map s e g f key = state_after prev_ids db e key"
proof -
  have "Option.bind (map_of (g f) k) (vs_get_events s (snd ` set (g f))) =
      (if sf_contains f k then Option.bind (prev_ids k) db else None)" for k
  proof (cases "map_of (g f) k")
    case (Some i)
    then have "i \<in> snd ` set (g f)" by (force dest: map_of_SomeD)
    moreover have "sf_contains f k" "prev_ids k = Some i"
      using Some assms(1) by (metis option.distinct(1))+
    ultimately show ?thesis using Some assms(2) by simp
  next
    case None
    then show ?thesis using assms(1) by (metis bind.bind_lzero)
  qed
  then show ?thesis using assms(3)
    by (auto simp: get_state_map_def state_after_def Let_def split: option.splits)
qed

text \<open>The check that \<^verbatim>\<open>filter_and_transform_events_for_client\<close> makes of one event for one user, with
  nothing to include always: at a state, with the erasure of the sender and the setting for sticky
  events as they are.\<close>

definition check_for ::
  "vis_storage \<Rightarrow> client_event \<Rightarrow> event_state \<Rightarrow> bool \<Rightarrow> bool \<Rightarrow> bool \<Rightarrow> string \<Rightarrow> client_check" where
  "check_for s e st is_peeking filter_send_to_client erased u =
     (base_check s u is_peeking {} filter_send_to_client)
       \<lparr>cc_sender_ignored := ev_sender (ce_event e) \<in> vs_ignored_users s u,
        cc_max_lifetime := vs_get_retention_policy_for_room s (ev_room_id (ce_event e)),
        cc_state := Some st, cc_sender_erased := erased\<rparr>"

lemma check_for_simps [simp]:
  "cc_state (check_for s e st p fs er u) = Some st" "cc_user_id (check_for s e st p fs er u) = u"
  "cc_always_include_ids (check_for s e st p fs er u) = {}" "cc_is_peeking (check_for s e st p fs er u) = p"
  "cc_sender_erased (check_for s e st p fs er u) = er" "cc_filter_send_to_client (check_for s e st p fs er u) = fs"
  "is_still_sticky (check_for s e st p fs er u) e' \<longleftrightarrow> vs_msc4354_enabled s \<and> \<not> p \<and>
     (case ce_locally_sticky_until_ts e' of None \<Rightarrow> False | Some t \<Rightarrow> vs_time_msec s < t)"
  by (simp_all add: check_for_def base_check_def is_still_sticky_def split: option.splits)

lemma users_to_send_iff:
  assumes "\<forall>u v. u \<in> vs_ignored_by s v \<longleftrightarrow> v \<in> vs_ignored_users s u"
  shows "u \<in> set (users_to_send s users e fs) \<longleftrightarrow> u \<in> set users \<and>
   (fs \<longrightarrow> check_filter_send_to_client e (cc_now (check_for s e st p fs er u))
      (cc_max_lifetime (check_for s e st p fs er u))
      (cc_sender_ignored (check_for s e st p fs er u)) \<noteq> FILTER_DENIED)"
  using assms by (auto simp: users_to_send_def check_for_def base_check_def)

lemma check_for_result:
  assumes "well_shaped e" "member_ok u st" "\<forall>u v. u \<in> vs_ignored_by s v \<longleftrightarrow> v \<in> vs_ignored_users s u"
  shows "check_client_allowed_to_see_event prune (check_for s e st p fs er u) e =
    Inr (if u \<notin> set (users_to_send s [u] e fs) then None
         else if ce_outlier e then if own_member_event u e then Some e else None
         else if is_still_sticky (check_for s e st p fs er u) e then Some e
         else if er then
           (if was_joined u e st then Some e else if member_may_see u e st p then Some (prune e) else None)
         else if (\<exists>v \<in> visibilities_around e st. open_to p v) \<or> member_may_see u e st p then Some e else None)"
proof (cases "u \<in> set (users_to_send s [u] e fs)")
  case False
  then show ?thesis unfolding users_to_send_iff [OF assms(3), of u "[u]" e fs st p er]
    by (simp add: check_client_allowed_to_see_event_def)
next
  case True
  let ?c = "check_for s e st p fs er u"
  have "fs \<longrightarrow> check_filter_send_to_client e (cc_now ?c) (cc_max_lifetime ?c) (cc_sender_ignored ?c) \<noteq> FILTER_DENIED"
    using True unfolding users_to_send_iff [OF assms(3), of u "[u]" e fs st p er] by simp
  then show ?thesis
    using True client_check_result [of e ?c st prune] assms(1,2)
    by (cases "ce_outlier e")
      (auto simp: check_client_allowed_to_see_event_def own_membership_ok simp del: check_for_simps(7))
qed


lemma bulk_result:
  assumes "well_shaped e" "\<forall>u \<in> set users. member_ok u st" "\<not> ce_soft_failed e"
    and vis: "\<And>f. sf_contains f HISTORY_VIS_KEY \<Longrightarrow> get_state_map s e g f HISTORY_VIS_KEY = st HISTORY_VIS_KEY"
    and mem: "\<And>f u. sf_contains f (ET_Member, u) \<Longrightarrow> get_state_map s e g f (ET_Member, u) = st (ET_Member, u)"
  shows "\<exists>out. filter_event_for_clients_with_state s users e g p fs = Inr out \<and>
    set out = {u \<in> set (users_to_send s users e fs). if ce_outlier e then own_member_event u e
      else (\<exists>v \<in> visibilities_around e st. open_to p v) \<or> member_may_see u e st p}"
proof (cases "users = [] \<or> ce_outlier e")
  case True
  then show ?thesis using assms(1,3)
    by (auto simp: filter_event_for_clients_with_state_def users_to_send_def well_shaped_def is_state_def
        own_member_event_def state_key_attr_def Let_def split: option.splits if_splits)
next
  case False
  let ?us = "users_to_send s (remdups users) e fs"
  let ?g = "get_state_map s e g (from_types (map (\<lambda>u. (ET_Member, Some u)) ?us @ [(ET_RoomHistoryVisibility, Some '''')]))"
  have "get_effective_room_visibility_from_state
      (get_state_map s e g (from_types [(ET_RoomHistoryVisibility, Some '''')])) =
      get_effective_room_visibility_from_state st"
    by (intro visibility_cong vis) (simp add: from_types_contains)
  note v = this
  have us: "set ?us = set (users_to_send s users e fs)" "set ?us \<subseteq> set users"
    by (auto simp: users_to_send_def)
  have "check_membership u e (get_effective_room_visibility_from_state st) ?g p =
      Inr (CheckMembershipReturn (member_may_see u e st p) (was_joined u e st))" if "u \<in> set ?us" for u
  proof -
    have "check_membership u e (get_effective_room_visibility_from_state st) ?g p =
        check_membership u e (get_effective_room_visibility_from_state st) st p"
      using that by (intro check_membership_cong mem) (simp add: from_types_contains)
    then show ?thesis using check_membership_ok assms(1,2) that us(2) by (metis subsetD)
  qed
  then have "filterR (\<lambda>u. bindR (check_membership u e (get_effective_room_visibility_from_state st) ?g p)
      (\<lambda>r. Inr (cm_allowed r))) ?us = Inr (filter (\<lambda>u. member_may_see u e st p) ?us)"
    by (intro filterR_ok) simp
  then show ?thesis
    using False assms(3) us(1)
    by (simp add: filter_event_for_clients_with_state_def Let_def v check_history_visibility_ok [OF assms(1)])
qed

text \<open>C8: the bulk check compared with the check for one user. Where the state before the event and the
  events of the database are what the queries return and \<^verbatim>\<open>ignored_by\<close> is the inverse of
  \<^verbatim>\<open>ignored_users\<close>, \<^verbatim>\<open>filter_event_for_clients_with_state\<close> returns, for a well-shaped event that is not
  soft-failed, a set of the given users that compares as follows with what
  \<^verbatim>\<open>_check_client_allowed_to_see_event\<close> gives each of them at the state after the event, under the same
  setting for sticky events. Where the sender is not erased, the single check returns the event exactly
  to the users of the bulk result and, the one difference, to every user who may be sent anything of
  the sender's while the event is sticky: the bulk check has no exemption for sticky events. Where the
  sender is erased, which the bulk check does not look at, whoever gets the event or its pruned form
  from the single check is in the bulk result, sticky events aside again.\<close>

theorem bulk_check_agrees:
  assumes "\<forall>f key. map_of (get_prev_state_ids f) key = (if sf_contains f key then prev_ids key else None)"
    and "\<forall>ids i. vs_get_events s ids i = (if i \<in> ids then db i else None)"
    and "\<forall>u v. u \<in> vs_ignored_by s v \<longleftrightarrow> v \<in> vs_ignored_users s u"
    and "well_shaped e" "\<not> ce_soft_failed e"
    and "\<forall>u \<in> set user_ids. member_ok u (state_after prev_ids db e)"
  shows "\<exists>out. filter_event_for_clients_with_state s user_ids e get_prev_state_ids is_peeking filter_send_to_client = Inr out \<and>
    set out \<subseteq> set user_ids \<and>
    (\<forall>u \<in> set user_ids.
       (check_client_allowed_to_see_event prune
          (check_for s e (state_after prev_ids db e) is_peeking filter_send_to_client False u) e = Inr (Some e) \<longleftrightarrow>
        u \<in> set out \<or>
        is_still_sticky (check_for s e (state_after prev_ids db e) is_peeking filter_send_to_client False u) e \<and>
        \<not> ce_outlier e \<and> u \<in> set (users_to_send s user_ids e filter_send_to_client)) \<and>
       (check_client_allowed_to_see_event prune
          (check_for s e (state_after prev_ids db e) is_peeking filter_send_to_client True u) e \<noteq> Inr None \<longrightarrow>
        u \<in> set out \<or>
        is_still_sticky (check_for s e (state_after prev_ids db e) is_peeking filter_send_to_client True u) e))"
proof -
  let ?st = "state_after prev_ids db e"
  have st: "sf_contains f key \<Longrightarrow> get_state_map s e get_prev_state_ids f key = ?st key" for f key
    by (rule get_state_map_eq [OF assms(1,2)])
  have one: "u \<in> set (users_to_send s user_ids e filter_send_to_client) \<longleftrightarrow>
      u \<in> set user_ids \<and> u \<in> set (users_to_send s [u] e filter_send_to_client)" for u
    by (auto simp: users_to_send_def)
  obtain out where out: "filter_event_for_clients_with_state s user_ids e get_prev_state_ids is_peeking
      filter_send_to_client = Inr out"
    "set out = {u \<in> set (users_to_send s user_ids e filter_send_to_client). if ce_outlier e then own_member_event u e
      else (\<exists>v \<in> visibilities_around e ?st. open_to is_peeking v) \<or> member_may_see u e ?st is_peeking}"
    using bulk_result [OF assms(4,6,5) st st, of is_peeking filter_send_to_client] by blast
  have joined: "was_joined u e ?st \<Longrightarrow> member_may_see u e ?st is_peeking" for u
    by (auto simp: was_joined_def member_may_see_def)
  have res: "member_ok u ?st" if "u \<in> set user_ids" for u using assms(6) that by blast
  show ?thesis
  proof (intro exI conjI ballI)
    show "set out \<subseteq> set user_ids" by (auto simp: out(2) one)
  qed (auto simp: check_for_result [OF assms(4) res assms(3)] out one joined simp del: check_for_simps(7)
      split: if_splits)
qed

text \<open>The difference is real: with sticky events enabled, a sticky message in a room whose history is
  for its joined members is given by the single check to a user outside and not by the bulk check.\<close>


definition vis_ids :: "state_key \<rightharpoonup> string" where
  "vis_ids = [HISTORY_VIS_KEY \<mapsto> ''$v'', (ET_Member, ''@u:b'') \<mapsto> ''$j'']"

definition vis_db :: "string \<rightharpoonup> event" where
  "vis_db = [''$v'' \<mapsto> vis_event ''$v'' ET_RoomHistoryVisibility (Some '''') [(''history_visibility'', JStr HV_JOINED)],
     ''$j'' \<mapsto> vis_event ''$j'' ET_Member (Some ''@u:b'') [(''membership'', JStr M_JOIN)]]"

definition vis_store :: vis_storage where
  "vis_store = \<lparr>vs_return_soft_failed_events = (\<lambda>_. False), vs_return_policy_server_spammy_events = (\<lambda>_. False),
     vs_is_server_admin = (\<lambda>_. False),
     vs_get_state_for_events = (\<lambda>ids f i. if i \<in> ids then Some (\<lambda>key. if sf_contains f key then vis_state key else None) else None),
     vs_ignored_users = (\<lambda>_. {}), vs_ignored_by = (\<lambda>_. {}), vs_are_users_erased = (\<lambda>_ _. None),
     vs_get_retention_policy_for_room = (\<lambda>_. None), vs_get_events = (\<lambda>ids i. if i \<in> ids then vis_db i else None),
     vs_get_state_ids_for_events = (\<lambda>ids f i. if i \<in> ids then
        Some (filter (\<lambda>(key, _). sf_contains f key) [(HISTORY_VIS_KEY, ''$v''), ((ET_Member, ''@u:b''), ''$j'')]) else None),
     vs_is_partial_state_room = (\<lambda>_. False), vs_time_msec = 10, vs_msc4354_enabled = True\<rparr>"

lemma sticky_event_not_in_bulk:
  "let e = vis_message\<lparr>ce_locally_sticky_until_ts := Some 20\<rparr> in
   check_client_allowed_to_see_event id (check_for vis_store e vis_state False True False ''@w:b'') e = Inr (Some e) \<and>
   filter_event_for_clients_with_state vis_store [''@w:b''] e
       (\<lambda>f. filter (\<lambda>(key, i). sf_contains f key) [(HISTORY_VIS_KEY, ''$v''), ((ET_Member, ''@u:b''), ''$j'')])
       False True = Inr []"
  by (simp add: vis_store_def) code_simp

theorem bulk_check_agrees_witness:
  "\<exists>out. filter_event_for_clients_with_state vis_store [''@u:b'', ''@w:b''] vis_message
       (\<lambda>f. filter (\<lambda>(key, i). sf_contains f key) [(HISTORY_VIS_KEY, ''$v''), ((ET_Member, ''@u:b''), ''$j'')])
       False True = Inr out \<and>
     set out = {u \<in> {''@u:b'', ''@w:b''}. check_client_allowed_to_see_event id
       (check_for vis_store vis_message (state_after vis_ids vis_db vis_message) False True False u) vis_message = Inr (Some vis_message)}"
proof -
  let ?c = "check_for vis_store vis_message (state_after vis_ids vis_db vis_message) False True"
  have not_sticky: "\<not> is_still_sticky (?c er u) vis_message" for er u by (simp add: vis_message_def)
  let ?g = "\<lambda>f. filter (\<lambda>(key, i). sf_contains f key) [(HISTORY_VIS_KEY, ''$v''), ((ET_Member, ''@u:b''), ''$j'')]"
  have ids: "\<forall>f key. map_of (?g f) key = (if sf_contains f key then vis_ids key else None)"
    by (auto simp: vis_ids_def)
  have store: "\<forall>ids i. vs_get_events vis_store ids i = (if i \<in> ids then vis_db i else None)"
    "\<forall>u v. u \<in> vs_ignored_by vis_store v \<longleftrightarrow> v \<in> vs_ignored_users vis_store u"
    by (simp_all add: vis_store_def)
  have shaped: "well_shaped vis_message" "\<not> ce_soft_failed vis_message"
    by (simp_all add: vis_samples well_shaped_def get_default_def)
  have "\<forall>u \<in> set [''@u:b'', ''@w:b'']. member_ok u (state_after vis_ids vis_db vis_message)"
    by (simp add: vis_samples member_ok_def state_after_def vis_ids_def vis_db_def)
  note agrees = bulk_check_agrees [OF ids store shaped this, of False True id]
  then obtain out where out: "filter_event_for_clients_with_state vis_store [''@u:b'', ''@w:b''] vis_message ?g
      False True = Inr out" "set out \<subseteq> set [''@u:b'', ''@w:b'']"
    "\<forall>u \<in> set [''@u:b'', ''@w:b'']. check_client_allowed_to_see_event id (?c False u) vis_message =
       Inr (Some vis_message) \<longleftrightarrow> u \<in> set out"
    using not_sticky by fastforce
  then show ?thesis by (intro exI [of _ out]) auto
qed

section \<open>A list of events for a user\<close>

lemma mapR_map_filter:
  assumes "mapR f xs = Inr ys" "\<And>x y. x \<in> set xs \<Longrightarrow> f x = Inr (Some y) \<Longrightarrow> P x y"
  shows "\<exists>zs. subseq zs xs \<and> list_all2 P zs (List.map_filter id ys)"
  using assms
proof (induction xs arbitrary: ys)
  case (Cons x xs)
  then obtain y ys' where y: "f x = Inr y" "mapR f xs = Inr ys'" "ys = y # ys'"
    by (auto simp: bindR_eq_Inr)
  then obtain zs where zs: "subseq zs xs" "list_all2 P zs (List.map_filter id ys')"
    using Cons by (metis list.set_intros(2))
  show ?case
  proof (cases y)
    case None
    then show ?thesis using zs y by (intro exI [of _ zs]) (simp add: map_filter_simps id_def list_emb_Cons)
  next
    case (Some v)
    then show ?thesis using zs y Cons.prems(2) by (intro exI [of _ "x # zs"]) (simp add: map_filter_simps id_def)
  qed
qed (simp add: map_filter_simps)

text \<open>What an entry of the result tells about the event it stands for.\<close>

definition shown_rightly :: "(client_event \<Rightarrow> client_event) \<Rightarrow> vis_storage \<Rightarrow> string \<Rightarrow> bool \<Rightarrow> string set \<Rightarrow>
    (client_event \<Rightarrow> event_state) \<Rightarrow> bool \<Rightarrow> client_event \<Rightarrow> client_event \<Rightarrow> bool" where
  "shown_rightly prune s u is_peeking always st erased e shown \<longleftrightarrow>
     (ce_soft_failed e \<longrightarrow> vs_is_server_admin s u) \<and>
     ce_type e \<noteq> ET_Dummy \<and> ce_type e \<noteq> ET_Aliases \<and>
     (\<not> ce_is_state e \<longrightarrow> ev_sender (ce_event e) \<notin> vs_ignored_users s u) \<and>
     (if ce_id e \<in> always then shown = e
      else if ce_outlier e then own_member_event u e \<and> shown = e
      else if vs_msc4354_enabled s \<and> \<not> is_peeking \<and> (\<exists>t. ce_locally_sticky_until_ts e = Some t \<and> vs_time_msec s < t)
      then shown = e
      else if erased then member_may_see u e (st e) is_peeking \<and> shown = (if was_joined u e (st e) then e else prune e)
      else ((\<exists>v \<in> visibilities_around e (st e). open_to is_peeking v) \<or> member_may_see u e (st e) is_peeking) \<and> shown = e)"

lemma check_filter_not_denied:
  "check_filter_send_to_client e now l ig \<noteq> FILTER_DENIED \<Longrightarrow>
   ce_type e \<noteq> ET_Dummy \<and> ce_type e \<noteq> ET_Aliases \<and> (\<not> ce_is_state e \<longrightarrow> \<not> ig)"
  by (auto simp: check_filter_send_to_client_def split: if_splits)

lemma check_client_sound:
  assumes "check_client_allowed_to_see_event prune c e = Inr (Some shown)"
    and "ce_id e \<notin> cc_always_include_ids c"
  shows "if ce_outlier e then own_member_event (cc_user_id c) e \<and> shown = e
    else if is_still_sticky c e then shown = e
    else \<exists>st. cc_state c = Some st \<and>
      (if cc_sender_erased c then member_may_see (cc_user_id c) e st (cc_is_peeking c) \<and>
         shown = (if was_joined (cc_user_id c) e st then e else prune e)
       else ((\<exists>v \<in> visibilities_around e st. open_to (cc_is_peeking c) v) \<or>
         member_may_see (cc_user_id c) e st (cc_is_peeking c)) \<and> shown = e)"
proof (cases "ce_outlier e \<or> is_still_sticky c e")
  case True
  then show ?thesis using assms
    by (auto simp: check_client_allowed_to_see_event_def bindR_eq_Inr dest: own_membership_Inr
        split: if_splits option.splits)
next
  case False
  let ?v = "\<lambda>st. get_effective_room_visibility_from_state st"
  obtain st lax where st: "cc_state c = Some st"
    and lax: "(if cc_sender_erased c then Inr VISIBILITY_MAYBE_DENIED
      else check_history_visibility e (?v st) (cc_is_peeking c)) = Inr lax"
    and rest: "(if lax = VISIBILITY_ALLOWED then Inr (Some e)
      else bindR (check_membership (cc_user_id c) e (?v st) st (cc_is_peeking c)) (\<lambda>r.
        Inr (if \<not> cm_allowed r then None
             else if cc_sender_erased c \<and> \<not> cm_joined r then Some (prune e) else Some e))) = Inr (Some shown)"
    using assms False
    by (auto simp: check_client_allowed_to_see_event_def bindR_eq_Inr Let_def split: if_splits option.splits)
  show ?thesis
  proof (cases "lax = VISIBILITY_ALLOWED")
    case True
    then show ?thesis using lax rest st False check_history_visibility_Inr [of e st "cc_is_peeking c" lax]
      by (auto split: if_splits)
  next
    case not_lax: False
    then obtain r where r: "check_membership (cc_user_id c) e (?v st) st (cc_is_peeking c) = Inr r"
      "cm_allowed r" "shown = (if cc_sender_erased c \<and> \<not> cm_joined r then prune e else e)"
      using rest by (auto simp: bindR_eq_Inr split: if_splits)
    then show ?thesis using st False check_membership_Inr [OF r(1)] by auto
  qed
qed

lemma around_cong:
  assumes "st HISTORY_VIS_KEY = st' HISTORY_VIS_KEY" "st (ET_Member, u) = st' (ET_Member, u)"
  shows "visibilities_around e st = visibilities_around e st'"
    and "member_may_see u e st p = member_may_see u e st' p"
    and "was_joined u e st = was_joined u e st'"
  unfolding visibilities_around_def member_may_see_def was_joined_def memberships_around_def
    visibility_cong [of st st', OF assms(1)] assms(2) by simp_all

lemma annotate_membership_event:
  "annotate_membership u e st shown = Inr (Some fe) \<Longrightarrow> fe_event fe = shown"
  by (auto simp: annotate_membership_def bindR_eq_Inr split: if_splits option.splits)

lemma allowed_event_sound:
  assumes "allowed_event prune s (base_check s u is_peeking always True) states erased e = Inr (Some fe)"
    and "\<not> ce_outlier e \<Longrightarrow> \<exists>st'. states (ce_id e) = Some st' \<and>
      st' HISTORY_VIS_KEY = st e HISTORY_VIS_KEY \<and> st' (ET_Member, u) = st e (ET_Member, u)"
    and "ce_soft_failed e \<longrightarrow> vs_is_server_admin s u"
  shows "shown_rightly prune s u is_peeking always st (erased (ev_sender (ce_event e)) = Some True) e (fe_event fe)"
proof -
  let ?c = "(base_check s u is_peeking always True)
    \<lparr>cc_sender_ignored := ev_sender (ce_event e) \<in> vs_ignored_users s u,
     cc_max_lifetime := vs_get_retention_policy_for_room s (ev_room_id (ce_event e)),
     cc_state := states (ce_id e), cc_sender_erased := erased (ev_sender (ce_event e)) = Some True\<rparr>"
  have c: "cc_user_id ?c = u" "cc_always_include_ids ?c = always" "cc_is_peeking ?c = is_peeking"
    "cc_state ?c = states (ce_id e)" "cc_sender_ignored ?c = (ev_sender (ce_event e) \<in> vs_ignored_users s u)"
    "cc_sender_erased ?c = (erased (ev_sender (ce_event e)) = Some True)"
    by (simp_all add: base_check_def)
  have sticky: "is_still_sticky ?c e \<longleftrightarrow> vs_msc4354_enabled s \<and> \<not> is_peeking \<and>
      (\<exists>t. ce_locally_sticky_until_ts e = Some t \<and> vs_time_msec s < t)"
    by (auto simp: base_check_def is_still_sticky_def split: option.splits)
  have chk: "check_client_allowed_to_see_event prune ?c e = Inr (Some (fe_event fe))"
    using assms(1) by (auto simp: allowed_event_def base_check_def Let_def bindR_eq_Inr
        dest: annotate_membership_event split: option.splits if_splits)
  have nd: "check_filter_send_to_client e (cc_now ?c) (cc_max_lifetime ?c) (cc_sender_ignored ?c) \<noteq> FILTER_DENIED"
    using chk by (auto simp: check_client_allowed_to_see_event_def base_check_def split: if_splits)
  show ?thesis
  proof (cases "ce_id e \<in> always")
    case True
    then have "fe_event fe = e"
      using chk by (simp add: check_client_allowed_to_see_event_def c split: if_splits)
    then show ?thesis using True assms(3) check_filter_not_denied [OF nd [unfolded c]]
      by (simp add: shown_rightly_def)
  next
    case False
    have sound: "if ce_outlier e then own_member_event u e \<and> fe_event fe = e
      else if is_still_sticky ?c e then fe_event fe = e
      else \<exists>st. states (ce_id e) = Some st \<and>
        (if erased (ev_sender (ce_event e)) = Some True then member_may_see u e st is_peeking \<and>
           fe_event fe = (if was_joined u e st then e else prune e)
         else ((\<exists>v \<in> visibilities_around e st. open_to is_peeking v) \<or> member_may_see u e st is_peeking) \<and>
           fe_event fe = e)"
      by (rule check_client_sound [OF chk, unfolded c, OF False])
    have "if erased (ev_sender (ce_event e)) = Some True then member_may_see u e (st e) is_peeking \<and>
           fe_event fe = (if was_joined u e (st e) then e else prune e)
         else ((\<exists>v \<in> visibilities_around e (st e). open_to is_peeking v) \<or> member_may_see u e (st e) is_peeking) \<and>
           fe_event fe = e" if o: "\<not> ce_outlier e" and "\<not> is_still_sticky ?c e"
    proof -
      obtain st' where "states (ce_id e) = Some st'" and st': "st' HISTORY_VIS_KEY = st e HISTORY_VIS_KEY"
        "st' (ET_Member, u) = st e (ET_Member, u)" using assms(2) [OF o] by blast
      then show ?thesis using sound that unfolding around_cong [OF st', symmetric] by simp
    qed
    with sound False assms(3) check_filter_not_denied [OF nd [unfolded c]] show ?thesis
      unfolding shown_rightly_def sticky by simp
  qed
qed

text \<open>An event on which the whole pass over a list does not raise.\<close>

definition passes :: "string \<Rightarrow> string set \<Rightarrow> (string \<Rightarrow> event_state) \<Rightarrow> client_event \<Rightarrow> bool" where
  "passes u always st e \<longleftrightarrow> well_shaped e \<and> member_ok u (st (ce_id e)) \<and>
     (own_member_event u e \<longrightarrow> map_of (ev_content (ce_event e)) ''membership'' \<noteq> None) \<and>
     (ce_outlier e \<longrightarrow> ce_id e \<notin> always)"

lemma check_client_returns:
  assumes "well_shaped e" "ce_outlier e \<or> (\<exists>st. cc_state c = Some st \<and> member_ok (cc_user_id c) st)"
  shows "\<exists>r. check_client_allowed_to_see_event prune c e = Inr r"
proof (cases "ce_outlier e")
  case True
  then show ?thesis
    by (auto simp: check_client_allowed_to_see_event_def own_membership_ok [OF assms(1)])
next
  case False
  then obtain st where "cc_state c = Some st" "member_ok (cc_user_id c) st" using assms(2) by blast
  then show ?thesis using False assms(1)
    by (auto simp: check_client_allowed_to_see_event_def Let_def check_history_visibility_ok check_membership_ok)
qed

lemma annotate_membership_returns:
  assumes "well_shaped e" "own_member_event u e \<longrightarrow> map_of (ev_content (ce_event e)) ''membership'' \<noteq> None"
    and "own_member_event u e \<or> (\<exists>st'. st = Some st' \<and> member_ok u st')"
  shows "\<exists>y. annotate_membership u e st x = Inr y"
  using assms(2,3) unfolding annotate_membership_def own_membership_ok [OF assms(1)]
  by (cases "own_member_event u e") (auto simp: member_ok_def bindR_eq_Inr split: option.splits)

lemma allowed_event_returns:
  assumes "passes u always st e"
    and "\<not> ce_outlier e \<Longrightarrow> \<exists>st'. states (ce_id e) = Some st' \<and> st' (ET_Member, u) = st (ce_id e) (ET_Member, u)"
  shows "\<exists>r. allowed_event prune s (base_check s u is_peeking always True) states erased e = Inr r"
proof -
  let ?c = "(base_check s u is_peeking always True)
    \<lparr>cc_sender_ignored := ev_sender (ce_event e) \<in> vs_ignored_users s u,
     cc_max_lifetime := vs_get_retention_policy_for_room s (ev_room_id (ce_event e)),
     cc_state := states (ce_id e), cc_sender_erased := erased (ev_sender (ce_event e)) = Some True\<rparr>"
  have c: "cc_user_id ?c = u" "cc_always_include_ids ?c = always" "cc_state ?c = states (ce_id e)"
    by (simp_all add: base_check_def)
  have shaped: "well_shaped e" using assms(1) by (simp add: passes_def)
  have st: "ce_outlier e \<or> (\<exists>st'. states (ce_id e) = Some st' \<and> member_ok u st')"
  proof (cases "ce_outlier e")
    case False
    then show ?thesis using assms(1) assms(2) [OF False] by (auto simp: passes_def member_ok_def)
  qed simp
  then obtain r where r: "check_client_allowed_to_see_event prune ?c e = Inr r"
    using check_client_returns [OF shaped, of ?c prune] by (auto simp: c)
  have own: "own_member_event u e" if "ce_outlier e" "r = Some x" for x
    using that r check_client_sound [of prune ?c e x] assms(1) by (simp add: c passes_def)
  have pub: "\<exists>b. is_public_call_invite e (states (ce_id e)) = Inr b" if "r = Some x" for x
    using st own [OF _ that] shaped
    by (auto simp: is_public_call_invite_def is_call_invite_def own_member_event_def split: option.splits)
  have ann: "\<exists>y. annotate_membership u e (states (ce_id e)) x = Inr y" if "r = Some x" for x
    by (rule annotate_membership_returns [OF shaped]) (use assms(1) st own [OF _ that] in \<open>auto simp: passes_def\<close>)
  have u: "cc_user_id (base_check s u is_peeking always True) = u"
    "cc_filter_send_to_client (base_check s u is_peeking always True)" by (simp_all add: base_check_def)
  show ?thesis
  proof (cases r)
    case None
    then show ?thesis using r by (simp add: allowed_event_def u)
  next
    case (Some x)
    obtain b y where "is_public_call_invite e (states (ce_id e)) = Inr b"
      "annotate_membership u e (states (ce_id e)) x = Inr y" using pub ann Some by blast
    then show ?thesis using r Some by (simp add: allowed_event_def u)
  qed
qed


text \<open>C6: no event is shown to a user who may not see it. Let the storage return, for the events it is
  asked about, the entries the filter asks for of the state after them. Then
  \<^verbatim>\<open>filter_and_transform_events_for_client\<close> returns a list for events on which no check raises, and every
  entry of a list it returns stands for an event of the input, in the order of the input: a soft-failed
  one only for a server admin, never a dummy event, an alias event or a message of an ignored user. An
  event that is to be included always, an outlier, which is the user's own membership event, and an
  event that is still sticky are returned as they are, without a look at the erasure of their sender.
  Of the others, those of an erased sender are returned only where the user's membership lets the user
  see them, pruned unless the user was joined, and those of other senders are returned unpruned and
  only where the history of the room or the user's membership lets the user see them. (The function is
  called for events that are sent to a client, with \<^verbatim>\<open>filter_send_to_client\<close> set.)\<close>

theorem client_filter_no_leak:
  assumes "\<forall>ids f i. vs_get_state_for_events s ids f i =
      (if i \<in> ids then Some (\<lambda>key. if sf_contains f key then st i key else None) else None)"
  shows "((\<forall>e \<in> set events. passes user_id always_include_ids st e) \<longrightarrow>
      (\<exists>out. filter_and_transform_events_for_client prune s user_id events is_peeking always_include_ids True = Inr out)) \<and>
    (filter_and_transform_events_for_client prune s user_id events is_peeking always_include_ids True = Inr out \<longrightarrow>
      (\<exists>es. subseq es events \<and> list_all2 (\<lambda>e fe. shown_rightly prune s user_id is_peeking always_include_ids
        (\<lambda>e. st (ce_id e)) (vs_are_users_erased s
           (set (map (\<lambda>e. ev_sender (ce_event e)) (drop_soft_failed s user_id True events))) (ev_sender (ce_event e)) = Some True)
        e (fe_event fe)) es out))"
proof (rule conjI)
  let ?es = "drop_soft_failed s user_id True events"
  let ?types = "from_types (client_state_types user_id events)"
  let ?states = "vs_get_state_for_events s (set (map ce_id (filter (\<lambda>e. \<not> ce_outlier e) ?es))) ?types"
  let ?erased = "vs_are_users_erased s (set (map (\<lambda>e. ev_sender (ce_event e)) ?es))"
  let ?f = "allowed_event prune s (base_check s user_id is_peeking always_include_ids True) ?states ?erased"
  let ?R = "\<lambda>e fe. shown_rightly prune s user_id is_peeking always_include_ids (\<lambda>e. st (ce_id e))
      (?erased (ev_sender (ce_event e)) = Some True) e (fe_event fe)"
  have sub: "subseq ?es events" "set ?es \<subseteq> set events" by (auto simp: drop_soft_failed_def)
  have soft: "ce_soft_failed e \<longrightarrow> vs_is_server_admin s user_id" if "e \<in> set ?es" for e
    using that by (auto simp: drop_soft_failed_def split: if_splits)
  have state: "\<exists>st'. ?states (ce_id e) = Some st' \<and> st' HISTORY_VIS_KEY = st (ce_id e) HISTORY_VIS_KEY \<and>
      st' (ET_Member, user_id) = st (ce_id e) (ET_Member, user_id)" if "e \<in> set ?es" "\<not> ce_outlier e" for e
    using that assms by (auto simp: from_types_contains client_state_types_def)
  have unfold: "filter_and_transform_events_for_client prune s user_id events is_peeking always_include_ids True =
      bindR (mapR ?f ?es) (\<lambda>ys. Inr (List.map_filter id ys))"
    by (simp add: filter_and_transform_events_for_client_def Let_def)
  show "(\<forall>e \<in> set events. passes user_id always_include_ids st e) \<longrightarrow>
      (\<exists>out. filter_and_transform_events_for_client prune s user_id events is_peeking always_include_ids True = Inr out)"
  proof
    assume ok: "\<forall>e \<in> set events. passes user_id always_include_ids st e"
    have "\<exists>y. ?f e = Inr y" if e: "e \<in> set ?es" for e
    proof (rule allowed_event_returns [where st = st])
      show "passes user_id always_include_ids st e" using e ok sub(2) by blast
    qed (use state [OF e] in blast)
    then show "\<exists>out. filter_and_transform_events_for_client prune s user_id events is_peeking always_include_ids True = Inr out"
      using mapR_total [of ?es ?f] by (auto simp: unfold bindR_eq_Inr)
  qed
  have R: "?R e fe" if "e \<in> set ?es" "?f e = Inr (Some fe)" for e fe
    using allowed_event_sound [OF that(2), of "\<lambda>e. st (ce_id e)"] soft [OF that(1)] state [OF that(1)] by blast
  show "filter_and_transform_events_for_client prune s user_id events is_peeking always_include_ids True = Inr out \<longrightarrow>
      (\<exists>es. subseq es events \<and> list_all2 ?R es out)"
  proof
    assume "filter_and_transform_events_for_client prune s user_id events is_peeking always_include_ids True = Inr out"
    then obtain ys where "mapR ?f ?es = Inr ys" "out = List.map_filter id ys"
      by (auto simp: unfold bindR_eq_Inr)
    with mapR_map_filter [of ?f ?es ys ?R] R sub(1) show "\<exists>es. subseq es events \<and> list_all2 ?R es out"
      by (blast intro: subseq_order.trans)
  qed
qed


text \<open>The three kinds of events that are returned unpruned even where their sender is erased and the
  user was not joined, although the function is documented to prune the events of erased senders.\<close>

lemma exempt_events_not_pruned:
  "check_client_allowed_to_see_event prune ((vis_check ''@w:b'')\<lparr>cc_sender_erased := True,
     cc_always_include_ids := {''$m''}\<rparr>) vis_message = Inr (Some vis_message)"
  "check_client_allowed_to_see_event prune ((vis_check ''@w:b'')\<lparr>cc_sender_erased := True, cc_msc4354_enabled := True,
     cc_now := 10\<rparr>) (vis_message\<lparr>ce_locally_sticky_until_ts := Some 20\<rparr>) =
   Inr (Some (vis_message\<lparr>ce_locally_sticky_until_ts := Some 20\<rparr>))"
  by (simp_all add: check_client_allowed_to_see_event_def vis_samples check_filter_send_to_client_def is_state_def
      is_still_sticky_def)

theorem client_filter_no_leak_witness:
  "\<exists>out es. filter_and_transform_events_for_client id vis_store ''@w:b'' [vis_message] False {} True = Inr out \<and>
     subseq es [vis_message] \<and> list_all2 (\<lambda>e fe. shown_rightly id vis_store ''@w:b'' False {}
       (\<lambda>e. vis_state) False e (fe_event fe)) es out"
proof -
  have "\<forall>ids f i. vs_get_state_for_events vis_store ids f i =
      (if i \<in> ids then Some (\<lambda>key. if sf_contains f key then vis_state key else None) else None)"
    by (simp add: vis_store_def)
  note leak = client_filter_no_leak [where st = "\<lambda>_. vis_state", OF this, of "[vis_message]" "''@w:b''" "{}" id False]
  have "passes ''@w:b'' {} (\<lambda>_. vis_state) vis_message"
    by (simp add: passes_def vis_samples well_shaped_def get_default_def member_ok_def own_member_event_def)
  then obtain out where "filter_and_transform_events_for_client id vis_store ''@w:b'' [vis_message] False {} True = Inr out"
    using leak by auto
  moreover have "vs_are_users_erased vis_store X y \<noteq> Some True" for X y by (simp add: vis_store_def)
  ultimately show ?thesis using leak [of out] by auto
qed

text \<open>A caller that asks whether a user can see the state at some events, with \<^verbatim>\<open>filter_send_to_client\<close>
  false, gets \<^verbatim>\<open>NameError\<close> as soon as one event is not soft-failed.\<close>

lemma state_check_raises:
  assumes "e \<in> set events" "\<not> ce_soft_failed e"
  shows "filter_and_transform_events_for_client prune s user_id events is_peeking always_include_ids False = Inl NameError"
proof -
  have al: "allowed_event prune s (base_check s user_id is_peeking always_include_ids False) st er x = Inl NameError" for st er x
    by (simp add: allowed_event_def base_check_def)
  have "drop_soft_failed s user_id False events = filter (\<lambda>e. \<not> ce_soft_failed e) events"
    by (simp add: drop_soft_failed_def)
  moreover obtain x xs where "filter (\<lambda>e. \<not> ce_soft_failed e) events = x # xs"
    using assms by (metis (mono_tags, lifting) filter_empty_conv neq_Nil_conv)
  ultimately show ?thesis by (simp add: filter_and_transform_events_for_client_def al)
qed


section \<open>A list of events for a server\<close>

text \<open>The queries return what the database holds: \<open>ids i\<close> is the state at event \<open>i\<close>, \<open>db\<close> the events.\<close>

definition store_ok :: "vis_storage \<Rightarrow> (string \<Rightarrow> (state_key, string) dict) \<Rightarrow> (string \<rightharpoonup> event) \<Rightarrow> bool" where
  "store_ok s ids db \<longleftrightarrow>
     (\<forall>X f i. vs_get_state_ids_for_events s X f i =
        (if i \<in> X then Some (filter (\<lambda>(key, _). sf_contains f key) (ids i)) else None)) \<and>
     (\<forall>X i. vs_get_events s X i = (if i \<in> X then db i else None))"

text \<open>A state holds events of the database under their own keys; its history visibility is a string
  where it is set, and its members have user ids and memberships.\<close>

definition state_shaped :: "(string \<rightharpoonup> event) \<Rightarrow> (state_key, string) dict \<Rightarrow> bool" where
  "state_shaped db d \<longleftrightarrow> dict_wf d \<and> (\<forall>(key, j) \<in> set d. j \<noteq> '''' \<and>
     (\<exists>m. db j = Some m \<and> ev_type m = fst key \<and> ev_state_key m = Some (snd key) \<and>
        (key = HISTORY_VIS_KEY \<longrightarrow> (\<exists>v. get_default (ev_content m) ''history_visibility'' (JStr HV_SHARED) = JStr v)) \<and>
        (fst key = ET_Member \<longrightarrow> take 1 (snd key) = ''@'' \<and>
           (\<exists>v. map_of (ev_content m) ''membership'' = Some (JStr v)))))"

definition vis_at :: "(string \<Rightarrow> (state_key, string) dict) \<Rightarrow> (string \<rightharpoonup> event) \<Rightarrow> client_event \<Rightarrow> string" where
  "vis_at ids db e =
     (case if ce_outlier e then None else Option.bind (map_of (ids (ce_id e)) HISTORY_VIS_KEY) db of
        None \<Rightarrow> HV_SHARED
      | Some m \<Rightarrow> (case get_default (ev_content m) ''history_visibility'' (JStr HV_SHARED) of JStr v \<Rightarrow> v | _ \<Rightarrow> HV_SHARED))"

text \<open>Some user of the server has one of the given memberships in the state.\<close>

definition server_has_member ::
  "(string \<rightharpoonup> event) \<Rightarrow> (state_key, string) dict \<Rightarrow> string \<Rightarrow> string set \<Rightarrow> bool" where
  "server_has_member db d server ms \<longleftrightarrow>
     (\<exists>u j m v. ((ET_Member, u), j) \<in> set d \<and> include_state_key server u \<and> db j = Some m \<and>
        map_of (ev_content m) ''membership'' = Some (JStr v) \<and> v \<in> ms)"

definition server_may_see ::
  "vis_storage \<Rightarrow> (string \<Rightarrow> (state_key, string) dict) \<Rightarrow> (string \<rightharpoonup> event) \<Rightarrow> string \<Rightarrow> string \<Rightarrow> (string \<rightharpoonup> bool) \<Rightarrow> bool \<Rightarrow>
   client_event \<Rightarrow> bool" where
  "server_may_see s ids db target local erased partial e \<longleftrightarrow>
     erased (ev_sender (ce_event e)) \<noteq> Some True \<and>
     \<not> (partial \<and> get_domain_from_id (ev_sender (ce_event e)) \<noteq> Inr local \<and>
        vs_is_partial_state_room s (ev_room_id (ce_event e))) \<and>
     (vis_at ids db e = HV_JOINED \<longrightarrow> server_has_member db (ids (ce_id e)) target {M_JOIN}) \<and>
     (vis_at ids db e = HV_INVITED \<longrightarrow> server_has_member db (ids (ce_id e)) target {M_JOIN, M_INVITE})"

lemma history_vis_of_ok:
  assumes "store_ok s ids db" "e \<in> set es" "\<not> ce_outlier e \<Longrightarrow> state_shaped db (ids (ce_id e))"
    and states: "states = vs_get_state_ids_for_events s (set (map ce_id (filter (\<lambda>e. \<not> ce_outlier e) es)))
      (from_types [(ET_RoomHistoryVisibility, Some '''')])"
    and inj: "inj_on ce_id (set es)"
  shows "history_vis_of states (vs_get_events s {v. v \<noteq> '''' \<and> v \<in> set (List.map_filter (\<lambda>e. Option.bind
      (states (ce_id e)) (\<lambda>state_ids. map_of state_ids HISTORY_VIS_KEY)) es)}) e = Inr (ce_id e, vis_at ids db e)"
proof -
  have at: "Option.bind (states (ce_id e)) (\<lambda>d. map_of d HISTORY_VIS_KEY) =
      (if ce_outlier e then None else map_of (ids (ce_id e)) HISTORY_VIS_KEY)"
  proof (cases "ce_outlier e")
    case True
    then have "ce_id e \<notin> ce_id ` {e \<in> set es. \<not> ce_outlier e}"
      using inj assms(2) by (auto dest: inj_onD)
    then show ?thesis using assms(1) True by (simp add: states store_ok_def)
  next
    case False
    then have "states (ce_id e) =
        Some (filter (\<lambda>(key, _). sf_contains (from_types [(ET_RoomHistoryVisibility, Some '''')]) key) (ids (ce_id e)))"
      using assms(1,2) by (simp add: states store_ok_def)
    then show ?thesis using False by (simp add: map_of_filter_key from_types_contains)
  qed
  show ?thesis
  proof (cases "if ce_outlier e then None else map_of (ids (ce_id e)) HISTORY_VIS_KEY")
    case None
    then show ?thesis by (auto simp: history_vis_of_def at vis_at_def split: if_splits)
  next
    case (Some v)
    then have o: "\<not> ce_outlier e" "map_of (ids (ce_id e)) HISTORY_VIS_KEY = Some v" by (auto split: if_splits)
    then have "(HISTORY_VIS_KEY, v) \<in> set (ids (ce_id e))" by (auto dest: map_of_SomeD)
    then obtain m x where m: "v \<noteq> ''''" "db v = Some m"
      "get_default (ev_content m) ''history_visibility'' (JStr HV_SHARED) = JStr x"
      using assms(3) [OF o(1)] by (force simp: state_shaped_def)
    have "v \<in> set (List.map_filter (\<lambda>e. Option.bind (states (ce_id e)) (\<lambda>d. map_of d HISTORY_VIS_KEY)) es)"
      using assms(2) o at by (force simp: set_map_filter)
    then show ?thesis
      using assms(1) m o by (simp add: history_vis_of_def at vis_at_def store_ok_def)
  qed
qed


lemma event_to_history_vis_ok:
  assumes "store_ok s ids db" "\<forall>e \<in> set es. \<not> ce_outlier e \<longrightarrow> state_shaped db (ids (ce_id e))" "inj_on ce_id (set es)"
  shows "\<exists>d. event_to_history_vis s es = Inr d \<and> (\<forall>e \<in> set es. dict_get (ce_id e) '''' d = vis_at ids db e)"
proof -
  let ?kvs = "map (\<lambda>e. (ce_id e, vis_at ids db e)) es"
  have "event_to_history_vis s es = Inr (fold (\<lambda>(k, v). dict_set k v) ?kvs [])"
    using history_vis_of_ok [OF assms(1) _ _ refl assms(3)] assms(2)
    by (simp add: event_to_history_vis_def Let_def mapR_Inr_map [where g = "\<lambda>e. (ce_id e, vis_at ids db e)"])
  moreover have "map_of (fold (\<lambda>(k, v). dict_set k v) (map (\<lambda>e. (ce_id e, vis_at ids db e)) xs) d) k =
      (if k \<in> ce_id ` set xs then Some (vis_at ids db (inv_into (set es) ce_id k)) else map_of d k)"
    if "set xs \<subseteq> set es" for xs d k
    using that by (induction xs arbitrary: d) (auto simp: inv_into_f_f [OF assms(3)])
  ultimately show ?thesis by (auto simp: dict_get_def inv_into_f_f [OF assms(3)])
qed

lemma map_of_fold_keys:
  "map_of (fold (\<lambda>(key, j). dict_set j key) xs d) j =
   (case map_of (rev (map prod.swap xs)) j of None \<Rightarrow> map_of d j | Some key \<Rightarrow> Some key)"
  by (induction xs arbitrary: d) (auto simp: map_add_def prod.swap_def split: option.splits)

lemma dict_wf_fold_keys: "dict_wf d \<Longrightarrow> dict_wf (fold (\<lambda>(key, j). dict_set j key) xs d)"
  by (induction xs arbitrary: d) auto

text \<open>The memberships of the users of a server, in the order of the state.\<close>

definition server_members :: "(string \<rightharpoonup> event) \<Rightarrow> (state_key, string) dict \<Rightarrow> string \<Rightarrow> (string \<times> json) list" where
  "server_members db d server =
     map (\<lambda>(key, j). (snd key, the (map_of (ev_content (the (db j))) ''membership'')))
       (filter (\<lambda>(key, j). fst key = ET_Member \<and> include_state_key server (snd key)) d)"

lemma memberships_in_ok:
  assumes "\<forall>(key, j) \<in> set d. \<exists>m v. db j = Some m \<and> ev_state_key m = Some (snd key) \<and>
      map_of (ev_content m) ''membership'' = Some v"
    and "\<forall>(key, j) \<in> set d. event_map j = (if include_state_key server (snd key) then db j else None)"
    and "\<forall>(key, j) \<in> set d. fst key = ET_Member"
  shows "\<exists>r. memberships_in event_map d = Inr r \<and> map snd r = server_members db d server"
  using assms
proof (induction d)
  case Nil
  then show ?case by (simp add: memberships_in_def server_members_def map_filter_simps)
next
  case (Cons kj d)
  then obtain r where r: "memberships_in event_map d = Inr r" "map snd r = server_members db d server" by auto
  obtain key j where kj: "kj = (key, j)" by (cases kj) simp
  with Cons.prems(1) obtain m v where m: "db j = Some m" "ev_state_key m = Some (snd key)"
    "map_of (ev_content m) ''membership'' = Some v" by auto
  then have "member_entry m = Inr (snd key, v)"
    by (simp add: member_entry_def state_key_attr_def membership_attr_def get_item_def)
  with r m Cons.prems(2,3) show ?case
    by (auto simp: memberships_in_def server_members_def map_filter_simps kj bindR_eq_Inr)
qed


lemma fst_filter_wf:
  assumes "dict_wf d" "map_of d j = Some key"
  shows "j \<in> set (map fst (filter (\<lambda>(j, key). P key) d)) \<longleftrightarrow> P key"
proof -
  have "(j, k) \<in> set d \<longleftrightarrow> k = key" for k
    using assms map_of_eq_Some_iff [of d j k] by (auto simp: dict_wf_def)
  then show ?thesis by (force simp: image_iff)
qed

lemma last_key:
  assumes "\<forall>(key, j) \<in> set xs. db j \<noteq> None \<and> key = f (the (db j))"
  shows "map_of (fold (\<lambda>(key, j). dict_set j key) xs []) j =
    (if j \<in> snd ` set xs then Some (f (the (db j))) else None)"
proof (cases "map_of (rev (map prod.swap xs)) j")
  case None
  then have "j \<notin> snd ` set xs" by (force simp: map_of_eq_None_iff)
  then show ?thesis by (simp add: map_of_fold_keys None)
next
  case (Some key)
  then have "(key, j) \<in> set xs" by (auto dest!: map_of_SomeD)
  then show ?thesis using assms by (force simp: map_of_fold_keys Some)
qed

lemma event_to_memberships_ok:
  assumes "store_ok s ids db" "\<forall>e \<in> set es. state_shaped db (ids (ce_id e))"
  shows "\<exists>d. event_to_memberships s es server = Inr d \<and> fst ` set d \<subseteq> ce_id ` set es \<and>
    (\<forall>e \<in> set es. map snd (dict_get (ce_id e) [] d) = server_members db (ids (ce_id e)) server)"
proof (cases "es = []")
  case False
  let ?F = "\<lambda>i. filter (\<lambda>(key, _). fst key = ET_Member) (ids i)"
  let ?is = "remdups (map ce_id es)"
  let ?xs = "concat (map ?F ?is)"
  let ?D = "fold (\<lambda>(key, j). dict_set j key) ?xs []"
  let ?map = "vs_get_events s (set (map fst (filter (\<lambda>(j, key). include_state_key server (snd key)) ?D)))"
  have ids: "vs_get_state_ids_for_events s (set (map ce_id es)) (from_types [(ET_Member, None)]) i =
      (if i \<in> set (map ce_id es) then Some (?F i) else None)" for i
  proof -
    have "sf_contains (from_types [(ET_Member, None)]) key \<longleftrightarrow> fst key = ET_Member" for key
      by (cases key) (simp add: from_types_contains)
    then show ?thesis using assms(1) by (simp add: store_ok_def)
  qed
  have shaped: "\<exists>m v. db j = Some m \<and> ev_state_key m = Some (snd key) \<and> ev_type m = fst key \<and>
      map_of (ev_content m) ''membership'' = Some v" if "(key, j) \<in> set (?F i)" "i \<in> set (map ce_id es)" for key j i
    using that assms(2) by (fastforce simp: state_shaped_def)
  have "\<forall>(key, j) \<in> set ?xs. db j \<noteq> None \<and> key = (ev_type (the (db j)), the (ev_state_key (the (db j))))"
    using shaped by fastforce
  note D = last_key [OF this]
  have wf: "dict_wf ?D" by (rule dict_wf_fold_keys) simp
  have fetched: "?map j = (if include_state_key server (snd key) then db j else None)"
    if "(key, j) \<in> set (?F i)" "i \<in> set (map ce_id es)" for key j i
  proof -
    have "j \<in> snd ` set ?xs" using that by force
    then have "map_of ?D j = Some key" using D shaped [OF that] by force
    then have "j \<in> set (map fst (filter (\<lambda>(j, key). include_state_key server (snd key)) ?D)) \<longleftrightarrow>
        include_state_key server (snd key)"
      by (rule fst_filter_wf [OF wf])
    then show ?thesis using assms(1) by (simp only: store_ok_def)
  qed
  have "\<exists>r. memberships_in ?map (?F i) = Inr r \<and> map snd r = server_members db (ids i) server"
    if "i \<in> set ?is" for i
  proof -
    have "server_members db (?F i) server = server_members db (ids i) server"
      unfolding server_members_def filter_filter by (rule arg_cong [where f = "map _"], rule filter_cong) auto
    moreover have "\<exists>r. memberships_in ?map (?F i) = Inr r \<and> map snd r = server_members db (?F i) server"
      using that shaped fetched by (intro memberships_in_ok) fastforce+
    ultimately show ?thesis by simp
  qed
  then obtain R where R: "\<And>i. i \<in> set ?is \<Longrightarrow> memberships_in ?map (?F i) = Inr (R i)"
    "\<And>i. i \<in> set ?is \<Longrightarrow> map snd (R i) = server_members db (ids i) server"
    by metis
  have "List.map_filter (\<lambda>i. map_option (Pair i) (vs_get_state_ids_for_events s (set (map ce_id es))
      (from_types [(ET_Member, None)]) i)) ?is = map (\<lambda>i. (i, ?F i)) ?is"
    by (rule map_filter_total) (use ids in simp)
  moreover have "mapR (\<lambda>i. bindR (memberships_in ?map (?F i)) (\<lambda>d. Inr (i, d))) ?is = Inr (map (\<lambda>i. (i, R i)) ?is)"
    by (rule mapR_Inr_map) (subst R(1), assumption, rule bindR_Inr)
  ultimately have "event_to_memberships s es server = Inr (map (\<lambda>i. (i, R i)) ?is)"
    using False by (simp add: event_to_memberships_def Let_def o_def mapR_map)
  moreover have "map_of (map (\<lambda>i. (i, R i)) ?is) (ce_id e) = Some (R (ce_id e))" if "e \<in> set es" for e
    using that by (simp add: map_of_map_restrict)
  ultimately show ?thesis using R(2) by (auto simp: dict_get_def)
qed (simp add: event_to_memberships_def)


lemma any_visible_member_ok:
  assumes "\<forall>x \<in> set ms. parse_user_id (fst x) = Some server"
  shows "any_visible_member server vis ms =
    Inr (\<exists>x \<in> set ms. snd x = M_JOIN \<or> snd x = M_INVITE \<and> vis = HV_INVITED)"
  using assms by (induction ms) auto

lemma server_members_ok:
  assumes "state_shaped db d"
  shows "\<exists>ms. member_strings (server_members db d server) = Inr ms \<and>
    any_visible_member server vis ms = Inr (server_has_member db d server
      (if vis = HV_INVITED then {M_JOIN, M_INVITE} else {M_JOIN}))"
proof -
  let ?ms = "map (\<lambda>(key, j). (snd key, case map_of (ev_content (the (db j))) ''membership'' of Some (JStr v) \<Rightarrow> v | _ \<Rightarrow> ''''))
    (filter (\<lambda>(key, j). fst key = ET_Member \<and> include_state_key server (snd key)) d)"
  have shaped: "\<exists>m v. db j = Some m \<and> map_of (ev_content m) ''membership'' = Some (JStr v) \<and> take 1 (snd key) = ''@''"
    if "(key, j) \<in> set d" "fst key = ET_Member" for key j
    using that assms by (fastforce simp: state_shaped_def)
  have "member_strings (map (\<lambda>(key, j). (snd key, the (map_of (ev_content (the (db j))) ''membership''))) xs) =
      Inr (map (\<lambda>(key, j). (snd key, case map_of (ev_content (the (db j))) ''membership'' of Some (JStr v) \<Rightarrow> v | _ \<Rightarrow> '''')) xs)"
    if "\<forall>(key, j) \<in> set xs. \<exists>m v. db j = Some m \<and> map_of (ev_content m) ''membership'' = Some (JStr v)"
    for xs :: "(state_key, string) dict"
    using that by (induction xs) auto
  note conv = this
  have "member_strings (server_members db d server) = Inr ?ms"
    unfolding server_members_def by (rule conv) (use shaped in fastforce)
  moreover have "any_visible_member server vis ?ms = Inr (server_has_member db d server
      (if vis = HV_INVITED then {M_JOIN, M_INVITE} else {M_JOIN}))"
  proof -
    have "\<forall>x \<in> set ?ms. parse_user_id (fst x) = Some server"
    proof
      fix x assume "x \<in> set ?ms"
      then obtain u j where "((ET_Member, u), j) \<in> set d" "include_state_key server u" "fst x = u" by auto
      then show "parse_user_id (fst x) = Some server"
        using shaped [of "(ET_Member, u)" j]
        by (auto simp: parse_user_id_def include_state_key_def split: option.splits)
    qed
    note any = any_visible_member_ok [OF this]
    have entries: "x \<in> set ?ms \<longleftrightarrow> (\<exists>u j m v. ((ET_Member, u), j) \<in> set d \<and> include_state_key server u \<and>
        db j = Some m \<and> map_of (ev_content m) ''membership'' = Some (JStr v) \<and> x = (u, v))" (is "_ \<longleftrightarrow> ?P x") for x
    proof
      assume "x \<in> set ?ms"
      then obtain u j where uj: "((ET_Member, u), j) \<in> set d" "include_state_key server u"
        "x = (u, case map_of (ev_content (the (db j))) ''membership'' of Some (JStr v) \<Rightarrow> v | _ \<Rightarrow> '''')" by auto
      obtain m v where "db j = Some m" "map_of (ev_content m) ''membership'' = Some (JStr v)"
        using shaped [OF uj(1)] by auto
      with uj show "?P x" by (intro exI [of _ u] exI [of _ j] exI [of _ m] exI [of _ v]) simp
    qed force
    have "(\<exists>x \<in> set ?ms. snd x = M_JOIN \<or> snd x = M_INVITE \<and> vis = HV_INVITED) \<longleftrightarrow>
        server_has_member db d server (if vis = HV_INVITED then {M_JOIN, M_INVITE} else {M_JOIN})"
      unfolding Bex_def entries server_has_member_def by (cases "vis = HV_INVITED") (simp, blast)+
    then show ?thesis unfolding any by simp
  qed
  ultimately show ?thesis by blast
qed


lemma partial_ids_ok:
  assumes "\<forall>e \<in> set es. CHR '':'' \<in> set (ev_sender (ce_event e))" "inj_on ce_id (set es)"
  shows "\<exists>X. partial_state_invisible_ids s local es = Inr X \<and> (\<forall>e \<in> set es. ce_id e \<in> X \<longleftrightarrow>
    get_domain_from_id (ev_sender (ce_event e)) \<noteq> Inr local \<and> vs_is_partial_state_room s (ev_room_id (ce_event e)))"
proof -
  let ?P = "\<lambda>e. get_domain_from_id (ev_sender (ce_event e)) \<noteq> Inr local \<and> vs_is_partial_state_room s (ev_room_id (ce_event e))"
  have "bindR (get_domain_from_id (ev_sender (ce_event e))) (\<lambda>d. Inr (d \<noteq> local \<and>
      vs_is_partial_state_room s (ev_room_id (ce_event e)))) = Inr (?P e)" if "e \<in> set es" for e
    using that assms(1) get_domain_ok_iff [of "ev_sender (ce_event e)"] by auto
  then have "partial_state_invisible_ids s local es = Inr (set (map ce_id (filter ?P es)))"
    by (simp add: partial_state_invisible_ids_def filterR_ok [where P = ?P])
  then show ?thesis using assms(2) by (auto dest: inj_onD)
qed

text \<open>C9: what another server is given. Let the storage return the entries the filters ask for of the
  states it holds, and let these be well shaped. For events with distinct ids whose senders have a domain
  \<^verbatim>\<open>filter_events_for_server\<close> returns, in the order of the events, exactly those the server may see
  and, where redaction is asked for, the pruned form of the others: an event is withheld where its
  sender is erased, where it was sent by another server to a room whose state is partial (each where
  asked for), and where the room's history at the event is for joined (or invited) members and
  none of the server's users was joined (or invited).\<close>

theorem server_filter_exact:
  fixes s :: vis_storage and filter_out_erased_senders :: bool and events :: "client_event list"
  defines "erased \<equiv> if filter_out_erased_senders
      then vs_are_users_erased s (set (map (\<lambda>e. ev_sender (ce_event e)) events)) else Map.empty"
  assumes "store_ok s ids db" "\<forall>e \<in> set events. \<not> ce_outlier e \<longrightarrow> state_shaped db (ids (ce_id e))"
    and "distinct (map ce_id events)" "\<forall>e \<in> set events. CHR '':'' \<in> set (ev_sender (ce_event e))"
  shows "filter_events_for_server prune s target local events redact filter_out_erased_senders partial =
    Inr (concat (map (\<lambda>e. if server_may_see s ids db target local erased partial e then [e]
      else if redact then [prune e] else []) events))"
proof -
  have inj: "inj_on ce_id (set events)" using assms(4) by (simp add: distinct_map)
  obtain X where X: "(if partial then partial_state_invisible_ids s local events else Inr {}) = Inr X"
    "\<And>e. e \<in> set events \<Longrightarrow> ce_id e \<in> X \<longleftrightarrow> partial \<and> get_domain_from_id (ev_sender (ce_event e)) \<noteq> Inr local \<and>
      vs_is_partial_state_room s (ev_room_id (ce_event e))"
    using partial_ids_ok [OF assms(5) inj, of s local] by (cases partial) auto
  obtain hv where hv: "event_to_history_vis s events = Inr hv"
    "\<And>e. e \<in> set events \<Longrightarrow> dict_get (ce_id e) '''' hv = vis_at ids db e"
    using event_to_history_vis_ok [OF assms(2,3) inj] by blast
  let ?res = "filter (\<lambda>e. dict_get (ce_id e) '''' hv \<notin> {HV_SHARED, HV_WORLD_READABLE}) events"
  have res: "\<not> ce_outlier e" if "e \<in> set ?res" for e
    using that hv(2) by (auto simp: vis_at_def)
  obtain d where d: "event_to_memberships s ?res target = Inr d" "fst ` set d \<subseteq> ce_id ` set ?res"
    "\<And>e. e \<in> set ?res \<Longrightarrow> map snd (dict_get (ce_id e) [] d) = server_members db (ids (ce_id e)) target"
    using event_to_memberships_ok [OF assms(2), of ?res target] res assms(3) by auto
  let ?g = "\<lambda>e. if server_may_see s ids db target local erased partial e then Some e
    else if redact then Some (prune e) else None"
  have "bindR (member_strings (map snd (dict_get (ce_id e) [] d))) (\<lambda>ms.
      bindR (event_visible_to_server (ev_sender (ce_event e)) target (dict_get (ce_id e) '''' hv) erased (ce_id e \<in> X) ms)
        (\<lambda>visible. Inr (if visible then Some e else if redact then Some (prune e) else None))) = Inr (?g e)"
    if e: "e \<in> set events" for e
  proof (cases "e \<in> set ?res")
    case True
    then have "state_shaped db (ids (ce_id e))" using assms(3) res by simp
    from server_members_ok [OF this, of target "vis_at ids db e"] show ?thesis
      unfolding d(3) [OF True] hv(2) [OF e] X(2) [OF e] event_visible_to_server_def server_may_see_def
      by (auto split: if_splits)
  next
    case False
    then have "ce_id e \<notin> fst ` set d" using d(2) inj e by (auto dest: inj_onD)
    then have "dict_get (ce_id e) [] d = []" by (simp add: dict_get_def dict_dom domIff split: option.splits)
    moreover have "vis_at ids db e \<in> {HV_SHARED, HV_WORLD_READABLE}" using False e hv(2) by auto
    ultimately show ?thesis
      unfolding hv(2) [OF e] X(2) [OF e] event_visible_to_server_def server_may_see_def by auto
  qed
  then have "filter_events_for_server prune s target local events redact filter_out_erased_senders partial =
      Inr (List.map_filter id (map ?g events))"
    using X(1) hv(1) d(1) mapR_Inr_map [of events _ ?g]
    by (simp add: filter_events_for_server_def Let_def erased_def [symmetric])
  also have "List.map_filter id (map ?g events) = concat (map (\<lambda>e. if server_may_see s ids db target local erased partial e then [e]
      else if redact then [prune e] else []) events)"
    by (induction events) (simp_all add: map_filter_simps)
  finally show ?thesis .
qed


theorem server_filter_exact_witness:
  "filter_events_for_server id vis_store ''b'' ''a'' [vis_message] False True True = Inr [vis_message] \<and>
   filter_events_for_server id vis_store ''c'' ''a'' [vis_message] False True True = Inr []"
proof -
  let ?ids = "\<lambda>_. [(HISTORY_VIS_KEY, ''$v''), ((ET_Member, ''@u:b''), ''$j'')]"
  have "store_ok vis_store ?ids vis_db" by (simp add: store_ok_def vis_store_def)
  moreover have "state_shaped vis_db (?ids i)" for i
    by (simp add: state_shaped_def dict_wf_def vis_db_def vis_event_def get_default_def)
  moreover have "CHR '':'' \<in> set (ev_sender (ce_event vis_message))" by (simp add: vis_samples)
  ultimately have ex: "filter_events_for_server id vis_store t ''a'' [vis_message] False True True =
      Inr (if server_may_see vis_store ?ids vis_db t ''a'' (vs_are_users_erased vis_store {''@s:a''}) True vis_message
        then [vis_message] else [])" for t
    using server_filter_exact [of vis_store ?ids vis_db "[vis_message]" id t "''a''" False True True]
    by (simp add: vis_samples)
  have vis: "vis_at ?ids vis_db vis_message = HV_JOINED"
    by (simp add: vis_at_def vis_samples vis_db_def get_default_def)
  have mem: "server_has_member vis_db (?ids i) t {M_JOIN} \<longleftrightarrow> t = ''b''" for t i
    by (auto simp: server_has_member_def include_state_key_def vis_db_def vis_event_def)
  have "server_may_see vis_store ?ids vis_db t ''a'' (vs_are_users_erased vis_store {''@s:a''}) True vis_message \<longleftrightarrow> t = ''b''" for t
    by (simp add: server_may_see_def vis mem) (simp add: vis_store_def)
  then show ?thesis by (simp add: ex)
qed


end
