(* ===== verification/Topo_Sort.thy ===== *)
theory Topo_Sort
  imports Overlay_Map "HOL-Library.Multiset"
begin

text \<open>
  \<^verbatim>\<open>lexicographical_topological_sort\<close> of \<^verbatim>\<open>synapse/state/v2.py\<close>: Kahn's algorithm on the outgoing
  edges, with a heap of the nodes that have none left. The graph is a dictionary from nodes to the
  set of their edges; the functions of \<^verbatim>\<open>heapq\<close> are used through the interface \<open>min_queue\<close>, which a
  sorted list implements. The abstract algorithm \<open>greedy\<close> takes the smallest ready node at every step.
\<close>

section \<open>The heap\<close>

locale min_queue =
  fixes heapify :: "'a::linorder list \<Rightarrow> 'q"
    and push :: "'a \<Rightarrow> 'q \<Rightarrow> 'q"
    and pop :: "'q \<Rightarrow> ('a \<times> 'q) option"
    and elems :: "'q \<Rightarrow> 'a multiset"
    and is_heap :: "'q \<Rightarrow> bool"
  assumes heapify: "is_heap (heapify xs)" "elems (heapify xs) = mset xs"
    and push: "is_heap q \<Longrightarrow> is_heap (push x q)" "elems (push x q) = add_mset x (elems q)"
    and pop_None: "pop q = None \<longleftrightarrow> elems q = {#}"
    and pop_Some: "is_heap q \<Longrightarrow> pop q = Some (x, q') \<Longrightarrow>
      is_heap q' \<and> elems q = add_mset x (elems q') \<and> (\<forall>y. y \<in># elems q \<longrightarrow> x \<le> y)"
begin

lemma push_all: "is_heap q \<Longrightarrow> is_heap (fold push xs q) \<and> elems (fold push xs q) = mset xs + elems q"
  by (induction xs arbitrary: q) (simp_all add: push)

end

definition heapify :: "'a::linorder list \<Rightarrow> 'a list" where
  "heapify xs = sort xs"

definition heappush :: "'a::linorder \<Rightarrow> 'a list \<Rightarrow> 'a list" where
  "heappush x q = insort x q"

fun heappop :: "'a list \<Rightarrow> ('a \<times> 'a list) option" where
  "heappop [] = None"
| "heappop (x # q) = Some (x, q)"

interpretation hq: min_queue heapify heappush heappop mset sorted
proof
  show "sorted q' \<and> mset q = add_mset x (mset q') \<and> (\<forall>y. y \<in># mset q \<longrightarrow> x \<le> y)"
    if "sorted q" "heappop q = Some (x, q')" for q q' :: "'a list" and x
    using that by (cases q) auto
  show "heappop q = None \<longleftrightarrow> mset q = {#}" for q :: "'a list"
    by (cases q) auto
qed (simp_all add: heapify_def heappush_def sorted_insort)

section \<open>The sort\<close>

type_synonym 'n graph = "('n, 'n list) dict"

text \<open>\<^verbatim>\<open>graph[n]\<close>; the algorithm only looks up nodes of the graph.\<close>

definition edges_of :: "'n graph \<Rightarrow> 'n \<Rightarrow> 'n list" where
  "edges_of g n = (case map_of g n of None \<Rightarrow> [] | Some es \<Rightarrow> es)"

definition setdefault :: "'k \<Rightarrow> 'v \<Rightarrow> ('k, 'v) dict \<Rightarrow> ('k, 'v) dict" where
  "setdefault k v d = (case map_of d k of None \<Rightarrow> d @ [(k, v)] | Some _ \<Rightarrow> d)"

text \<open>\<^verbatim>\<open>graph.setdefault(k, set()).add(n)\<close>.\<close>

definition graph_add :: "'n \<Rightarrow> 'n \<Rightarrow> 'n graph \<Rightarrow> 'n graph" where
  "graph_add k n g = dict_set k (List.insert n (edges_of g k)) g"

text \<open>The first loop: the reversed graph and the nodes without edges.\<close>

fun topo_scan ::
  "('n \<Rightarrow> 'k) \<Rightarrow> 'n graph \<Rightarrow> 'n graph \<Rightarrow> ('k \<times> 'n) list \<Rightarrow> 'n graph \<times> ('k \<times> 'n) list" where
  "topo_scan key [] reverse_graph zero = (reverse_graph, zero)"
| "topo_scan key ((node, edges) # g) reverse_graph zero =
     topo_scan key g
       (fold (\<lambda>edge. graph_add edge node) edges (setdefault node [] reverse_graph))
       (if edges = [] then zero @ [(key node, node)] else zero)"

text \<open>The loop over the parents of the node taken from the heap.\<close>

fun topo_relax ::
  "('n \<Rightarrow> 'k::linorder) \<Rightarrow> 'n::linorder \<Rightarrow> 'n list \<Rightarrow> 'n graph \<Rightarrow> ('k \<times> 'n) list
     \<Rightarrow> 'n graph \<times> ('k \<times> 'n) list" where
  "topo_relax key node [] outdegree_map zero = (outdegree_map, zero)"
| "topo_relax key node (parent # ps) outdegree_map zero =
     (let out = removeAll node (edges_of outdegree_map parent)
      in topo_relax key node ps (dict_set parent out outdegree_map)
           (if out = [] then heappush (key parent, parent) zero else zero))"

partial_function (option) topo_loop ::
  "('n \<Rightarrow> 'k::linorder) \<Rightarrow> 'n::linorder graph \<Rightarrow> 'n graph \<Rightarrow> ('k \<times> 'n) list \<Rightarrow> 'n list option" where
  "topo_loop key reverse_graph outdegree_map zero =
     (case heappop zero of
        None \<Rightarrow> Some []
      | Some ((_, node), zero') \<Rightarrow>
          (let r = topo_relax key node (edges_of reverse_graph node) outdegree_map zero'
           in Option.bind (topo_loop key reverse_graph (fst r) (snd r)) (\<lambda>xs. Some (node # xs))))"

declare topo_loop.simps [code]

definition lexicographical_topological_sort ::
  "'n::linorder graph \<Rightarrow> ('n \<Rightarrow> 'k::linorder) \<Rightarrow> 'n list option" where
  "lexicographical_topological_sort graph key =
     (let r = topo_scan key graph [] [] in topo_loop key (fst r) graph (heapify (snd r)))"

section \<open>The abstract algorithm\<close>

definition gnodes :: "'n graph \<Rightarrow> 'n set" where
  "gnodes g = fst ` set g"

text \<open>The nodes that can come next once the nodes of \<open>P\<close> are out.\<close>

definition ready :: "'n graph \<Rightarrow> 'n set \<Rightarrow> 'n set" where
  "ready g P = {n \<in> gnodes g. n \<notin> P \<and> set (edges_of g n) \<subseteq> P}"

fun greedy :: "'n::linorder graph \<Rightarrow> ('n \<Rightarrow> 'k::linorder) \<Rightarrow> 'n set \<Rightarrow> 'n list \<Rightarrow> bool" where
  "greedy g key P [] \<longleftrightarrow> ready g P = {}"
| "greedy g key P (x # xs) \<longleftrightarrow>
     x \<in> ready g P \<and> (\<forall>y. y \<in> ready g P \<longrightarrow> (key x, x) \<le> (key y, y)) \<and> greedy g key (insert x P) xs"

lemma greedy_unique: "greedy g key P xs \<Longrightarrow> greedy g key P ys \<Longrightarrow> xs = ys"
proof (induction xs arbitrary: P ys)
  case Nil
  then show ?case by (cases ys) auto
next
  case (Cons x xs)
  then obtain y ys' where ys: "ys = y # ys'" by (cases ys) auto
  have "(key x, x) = (key y, y)"
    using Cons.prems ys by (intro antisym) auto
  then show ?case using Cons ys by auto
qed

lemma greedy_cong:
  "gnodes g = gnodes h \<Longrightarrow> (\<And>n. set (edges_of g n) = set (edges_of h n)) \<Longrightarrow>
   greedy g key P xs = greedy h key P xs"
  by (induction xs arbitrary: P) (simp_all add: ready_def)

lemma greedy_distinct: "greedy g key P xs \<Longrightarrow> distinct xs \<and> set xs \<inter> P = {} \<and> set xs \<subseteq> gnodes g"
  by (induction xs arbitrary: P) (force simp: ready_def)+

text \<open>Every edge of a node leads to a node that came earlier.\<close>

lemma greedy_order:
  "greedy g key P xs \<Longrightarrow> xs = ys @ n # zs \<Longrightarrow> set (edges_of g n) \<subseteq> P \<union> set ys"
proof (induction xs arbitrary: P ys)
  case (Cons x xs)
  then show ?case
  proof (cases ys)
    case (Cons y ys')
    then show ?thesis
      using Cons.prems Cons.IH [of "insert x P" ys'] by (auto simp: ready_def)
  qed (auto simp: ready_def)
qed simp

lemma greedy_complete:
  assumes "greedy g key P xs" "\<And>n. n \<in> gnodes g \<Longrightarrow> set (edges_of g n) \<subseteq> gnodes g"
    and "wf {(m, n). n \<in> gnodes g \<and> m \<in> set (edges_of g n)}"
  shows "gnodes g \<subseteq> P \<union> set xs"
  using assms(1)
proof (induction xs arbitrary: P)
  case Nil
  have "n \<in> gnodes g \<longrightarrow> n \<in> P" for n
  proof (induction n rule: wf_induct_rule [OF assms(3)])
    case (1 n)
    then show ?case using Nil assms(2) [of n] by (fastforce simp: ready_def)
  qed
  then show ?case by auto
next
  case (Cons x xs)
  then show ?case using Cons.IH [of "insert x P"] by auto
qed

section \<open>The loop implements the abstract algorithm\<close>

lemma edges_of_dict_set [simp]: "edges_of (dict_set k v g) n = (if n = k then v else edges_of g n)"
  by (simp add: edges_of_def)

lemma set_edges_of_graph_add [simp]:
  "set (edges_of (graph_add k m g) n) = (if n = k then insert m (set (edges_of g k)) else set (edges_of g n))"
  by (simp add: graph_add_def)

lemma distinct_edges_of_graph_add [simp]:
  "(\<forall>n. distinct (edges_of g n)) \<Longrightarrow> distinct (edges_of (graph_add k m g) n)"
  by (simp add: graph_add_def)

lemma edges_of_setdefault [simp]: "edges_of (setdefault k [] g) n = edges_of g n"
  by (auto simp: edges_of_def setdefault_def map_add_def split: option.splits)

lemma fold_graph_add:
  "set (edges_of (fold (\<lambda>edge. graph_add edge node) es g) n) =
     set (edges_of g n) \<union> (if n \<in> set es then {node} else {})"
  "(\<forall>n. distinct (edges_of g n)) \<Longrightarrow>
     \<forall>n. distinct (edges_of (fold (\<lambda>edge. graph_add edge node) es g) n)"
  by (induction es arbitrary: g) auto

lemma edges_of_Cons: "edges_of ((n, es) # g) m = (if m = n then es else edges_of g m)"
  by (simp add: edges_of_def)

lemma topo_scan_reverse:
  assumes "dict_wf g" "topo_scan key g r z = (r', z')" "\<forall>n. distinct (edges_of r n)"
  shows "(\<forall>n. distinct (edges_of r' n)) \<and>
    (\<forall>n. set (edges_of r' n) = set (edges_of r n) \<union> {p \<in> gnodes g. n \<in> set (edges_of g p)}) \<and>
    z' = z @ map (\<lambda>n. (key n, n)) (filter (\<lambda>n. edges_of g n = []) (map fst g))"
  using assms
proof (induction key g r z rule: topo_scan.induct)
  case (2 key node es g r z)
  have wf: "dict_wf g" and nin: "node \<notin> gnodes g"
    using 2(2) by (auto simp: dict_wf_def gnodes_def)
  have same: "p \<in> gnodes g \<Longrightarrow> edges_of ((node, es) # g) p = edges_of g p" for p
    using nin by (auto simp: edges_of_Cons)
  have flt: "filter (\<lambda>n. edges_of ((node, es) # g) n = []) (map fst g) =
      filter (\<lambda>n. edges_of g n = []) (map fst g)"
    by (rule filter_cong) (auto simp: same gnodes_def)
  note IH = 2(1) [OF wf 2(3) [unfolded topo_scan.simps]]
  show ?case
    using IH 2(4) same nin flt
    by (auto simp: fold_graph_add edges_of_Cons gnodes_def split: if_splits)
qed (auto simp: gnodes_def)

text \<open>The invariant of the main loop after the nodes of \<open>P\<close> have been taken.\<close>

definition topo_inv ::
  "'n::linorder graph \<Rightarrow> ('n \<Rightarrow> 'k::linorder) \<Rightarrow> 'n set \<Rightarrow> 'n graph \<Rightarrow> ('k \<times> 'n) list \<Rightarrow> bool" where
  "topo_inv g key P out zero \<longleftrightarrow>
     sorted zero \<and> distinct zero \<and> set zero = (\<lambda>n. (key n, n)) ` ready g P \<and>
     (\<forall>n. n \<in> P \<longrightarrow> set (edges_of g n) \<subseteq> P) \<and>
     (\<forall>n. n \<in> gnodes g \<longrightarrow> set (edges_of out n) = set (edges_of g n) - P)"

lemma topo_relax_correct:
  assumes "topo_relax key node ps out zero = (out', zero')" "distinct ps"
    and "sorted zero" "distinct zero" "\<forall>p \<in> set ps. (key p, p) \<notin> set zero"
  shows "sorted zero' \<and> distinct zero' \<and>
    set zero' = set zero \<union> (\<lambda>p. (key p, p)) ` {p \<in> set ps. set (edges_of out p) \<subseteq> {node}} \<and>
    (\<forall>n. set (edges_of out' n) = set (edges_of out n) - (if n \<in> set ps then {node} else {}))"
  using assms
proof (induction key node ps out zero rule: topo_relax.induct)
  case (2 key node p ps out zero)
  let ?e = "removeAll node (edges_of out p)"
  let ?out = "dict_set p ?e out" and ?zero = "if ?e = [] then heappush (key p, p) zero else zero"
  have pre: "sorted ?zero" "distinct ?zero" "\<forall>q \<in> set ps. (key q, q) \<notin> set ?zero" "distinct ps" "p \<notin> set ps"
    using 2(3-6) by (auto simp: heappush_def sorted_insort distinct_insort set_insort_key)
  have emp: "?e = [] \<longleftrightarrow> set (edges_of out p) \<subseteq> {node}"
    by (auto simp: removeAll_filter_not_eq filter_empty_conv)
  note IH = 2(1) [OF refl _ pre(4,1-3)]
  have "topo_relax key node ps ?out ?zero = (out', zero')"
    using 2(2) by (simp add: Let_def)
  from IH [OF this] show ?case
    using pre(5) emp
    by (auto simp: heappush_def set_insort_key split: if_splits)
qed auto

lemma topo_loop_correct:
  assumes "topo_inv g key P out zero" "P \<subseteq> gnodes g"
    and "\<And>n. distinct (edges_of rg n)"
    and "\<And>n. set (edges_of rg n) = {p \<in> gnodes g. n \<in> set (edges_of g p)}"
  shows "\<exists>xs. topo_loop key rg out zero = Some xs \<and> greedy g key P xs"
  using assms(1,2)
proof (induction "card (gnodes g - P)" arbitrary: P out zero rule: less_induct)
  case less
  have fin: "finite (gnodes g)" by (simp add: gnodes_def)
  show ?case
  proof (cases zero)
    case Nil
    then show ?thesis
      using less.prems by (auto simp: topo_inv_def topo_loop.simps)
  next
    case (Cons kn zero')
    have zs: "insert kn (set zero') = (\<lambda>n. (key n, n)) ` ready g P" "kn \<notin> set zero'" "sorted (kn # zero')"
      "distinct zero'"
      using less.prems Cons by (auto simp: topo_inv_def)
    from zs(1) obtain node where kn: "kn = (key node, node)" and rdy: "node \<in> ready g P"
      by blast
    obtain out1 zero1 where rel: "topo_relax key node (edges_of rg node) out zero' = (out1, zero1)"
      by fastforce
    have nP: "node \<notin> P" "node \<in> gnodes g" "set (edges_of g node) \<subseteq> P"
      using rdy by (auto simp: ready_def)
    have z': "set zero' = (\<lambda>n. (key n, n)) ` (ready g P - {node})" "sorted zero'" "distinct zero'"
      using zs kn by auto
    have par: "p \<in> set (edges_of rg node) \<Longrightarrow> p \<notin> ready g P" for p
      using nP assms(4) by (auto simp: ready_def)
    have R: "sorted zero1 \<and> distinct zero1 \<and>
      set zero1 = set zero' \<union> (\<lambda>p. (key p, p)) ` {p \<in> set (edges_of rg node). set (edges_of out p) \<subseteq> {node}} \<and>
      (\<forall>n. set (edges_of out1 n) = set (edges_of out n) - (if n \<in> set (edges_of rg node) then {node} else {}))"
      by (rule topo_relax_correct [OF rel assms(3) z'(2,3)]) (use par z'(1) in auto)
    have out: "n \<in> gnodes g \<Longrightarrow> set (edges_of out n) = set (edges_of g n) - P" for n
      using less.prems by (simp add: topo_inv_def)
    have closed: "n \<in> P \<Longrightarrow> set (edges_of g n) \<subseteq> P" for n
      using less.prems by (auto simp: topo_inv_def)
    have "ready g (insert node P) =
        (ready g P - {node}) \<union> {p \<in> set (edges_of rg node). set (edges_of out p) \<subseteq> {node}}"
      using nP out closed unfolding ready_def assms(4) by blast
    moreover have "set (edges_of out1 n) = set (edges_of g n) - insert node P" if "n \<in> gnodes g" for n
      using R out [OF that] assms(4) that by auto
    ultimately have inv: "topo_inv g key (insert node P) out1 zero1"
      using R z'(1) closed [THEN subsetD] nP(3) by (auto simp: topo_inv_def image_Un)
    have "card (gnodes g - insert node P) < card (gnodes g - P)"
      using nP fin by (intro psubset_card_mono) auto
    from less.hyps [OF this inv] less.prems(2) nP obtain xs where
      xs: "topo_loop key rg out1 zero1 = Some xs" "greedy g key (insert node P) xs"
      by auto
    have "(key y, y) \<in> insert kn (set zero')" if "y \<in> ready g P" for y
      unfolding zs(1) using that by blast
    then have "y \<in> ready g P \<longrightarrow> (key node, node) \<le> (key y, y)" for y
      using zs(3) kn by fastforce
    then show ?thesis
      using xs rdy Cons kn rel by (subst topo_loop.simps) auto
  qed
qed

lemma topo_sort_greedy:
  assumes "dict_wf g"
  shows "\<exists>xs. lexicographical_topological_sort g key = Some xs \<and> greedy g key {} xs"
proof -
  obtain r z where scan: "topo_scan key g [] [] = (r, z)" by fastforce
  have nil: "edges_of [] n = []" for n :: 'a
    by (simp add: edges_of_def)
  have S: "(\<forall>n. distinct (edges_of r n)) \<and>
    (\<forall>n. set (edges_of r n) = {p \<in> gnodes g. n \<in> set (edges_of g p)}) \<and>
    z = map (\<lambda>n. (key n, n)) (filter (\<lambda>n. edges_of g n = []) (map fst g))"
    using topo_scan_reverse [OF assms scan] nil by simp
  have "set z = (\<lambda>n. (key n, n)) ` ready g {}" "distinct z"
    using S assms by (auto simp: ready_def gnodes_def dict_wf_def distinct_map inj_on_def)
  then have "topo_inv g key {} g (heapify z)"
    by (simp add: topo_inv_def heapify_def)
  then show ?thesis
    unfolding lexicographical_topological_sort_def scan using S by (simp add: topo_loop_correct)
qed

section \<open>Properties\<close>

text \<open>C10: the sort always returns, even on a graph with cycles, and what it yields is a reverse
  topological order: no node twice, only nodes of the graph, and every node after all the nodes it
  refers to. On a graph without cycles every node is yielded.\<close>

theorem topo_sort_correct:
  assumes "dict_wf g"
  shows "\<exists>xs. lexicographical_topological_sort g key = Some xs \<and> distinct xs \<and> set xs \<subseteq> gnodes g \<and>
    (\<forall>ys n zs. xs = ys @ n # zs \<longrightarrow> set (edges_of g n) \<subseteq> set ys) \<and>
    ((\<forall>n. n \<in> gnodes g \<longrightarrow> set (edges_of g n) \<subseteq> gnodes g) \<and>
       wf {(m, n). n \<in> gnodes g \<and> m \<in> set (edges_of g n)} \<longrightarrow> set xs = gnodes g)"
proof -
  obtain xs where xs: "lexicographical_topological_sort g key = Some xs" "greedy g key {} xs"
    using topo_sort_greedy [OF assms] by blast
  have "\<forall>ys n zs. xs = ys @ n # zs \<longrightarrow> set (edges_of g n) \<subseteq> set ys"
    using greedy_order [OF xs(2)] by auto
  then show ?thesis
    using xs greedy_distinct [OF xs(2)] greedy_complete [OF xs(2)] by blast
qed

theorem topo_sort_correct_witness:
  "\<exists>xs. lexicographical_topological_sort [(''a'', [''b'', ''c'']), (''b'', []), (''c'', [''b''])]
      (\<lambda>n. 0 :: int) = Some xs \<and> distinct xs"
  using topo_sort_correct [of "[(''a'', [''b'', ''c'']), (''b'', []), (''c'', [''b''])]" "\<lambda>n. 0 :: int"]
  by (auto simp: dict_wf_def)

text \<open>The order is canonical. At every step the node yielded is the least, by key and then by
  node, of those whose references have all been yielded; so the result does not depend on the order
  in which the dictionary lists its nodes or the sets list their members.\<close>

lemma topo_sort_canonical:
  assumes "dict_wf g" "dict_wf h" "gnodes g = gnodes h"
    and "\<forall>n. set (edges_of g n) = set (edges_of h n)"
  shows "lexicographical_topological_sort g key = lexicographical_topological_sort h key \<and>
    (\<exists>xs. lexicographical_topological_sort g key = Some xs \<and> greedy g key {} xs)"
proof -
  obtain xs where xs: "lexicographical_topological_sort g key = Some xs" "greedy g key {} xs"
    using topo_sort_greedy [OF assms(1)] by blast
  obtain ys where ys: "lexicographical_topological_sort h key = Some ys" "greedy h key {} ys"
    using topo_sort_greedy [OF assms(2)] by blast
  have "greedy g key {} ys"
    using greedy_cong [of g h key "{}" ys] assms(3,4) ys(2) by simp
  with xs ys greedy_unique [of g key "{}" xs ys] show ?thesis by auto
qed

lemma topo_sort_canonical_witness:
  "lexicographical_topological_sort [(''a'', [''b'', ''c'']), (''b'', []), (''c'', [])] (\<lambda>n. 0 :: int) =
   lexicographical_topological_sort [(''c'', []), (''b'', []), (''a'', [''c'', ''b''])] (\<lambda>n. 0 :: int)"
  by (rule conjunct1 [OF topo_sort_canonical]) (auto simp: dict_wf_def gnodes_def edges_of_def)

end
