(* ===== verification/State_Res.thy ===== *)
theory State_Res
  imports Event_Auth_Props Topo_Sort
begin

text \<open>
  State resolution v2, \<^verbatim>\<open>synapse/state/v2.py\<close>: the resolution of the conflicted set. The dictionary
  \<open>event_map\<close>, which the functions use as a cache of the store and mutate, is threaded through a state
  monad with exceptions; \<open>None\<close> stands for a loop that does not return. A set that the code iterates
  over is a list in some order.
\<close>

section \<open>The monad\<close>

type_synonym evmap = "string \<rightharpoonup> event"
type_synonym 'a sr = "evmap \<Rightarrow> (evmap \<times> 'a) res option"

definition retS :: "'a \<Rightarrow> 'a sr" where
  "retS x = (\<lambda>em. Some (Inr (em, x)))"

definition raiseS :: "py_error \<Rightarrow> 'a sr" where
  "raiseS e = (\<lambda>em. Some (Inl e))"

definition bindS :: "'a sr \<Rightarrow> ('a \<Rightarrow> 'b sr) \<Rightarrow> 'b sr" where
  "bindS m f = (\<lambda>em. case m em of
     None \<Rightarrow> None
   | Some (Inl e) \<Rightarrow> Some (Inl e)
   | Some (Inr (em', x)) \<Rightarrow> f x em')"

definition liftS :: "'a res \<Rightarrow> 'a sr" where
  "liftS r = (case r of Inl e \<Rightarrow> raiseS e | Inr x \<Rightarrow> retS x)"

fun foldS :: "('a \<Rightarrow> 'b \<Rightarrow> 'b sr) \<Rightarrow> 'a list \<Rightarrow> 'b \<Rightarrow> 'b sr" where
  "foldS f [] acc = retS acc"
| "foldS f (x # xs) acc = bindS (f x acc) (foldS f xs)"

fun mapS :: "('a \<Rightarrow> 'b sr) \<Rightarrow> 'a list \<Rightarrow> 'b list sr" where
  "mapS f [] = retS []"
| "mapS f (x # xs) = bindS (f x) (\<lambda>y. bindS (mapS f xs) (\<lambda>ys. retS (y # ys)))"

text \<open>\<^verbatim>\<open>event_map[event_id]\<close>.\<close>

definition event_map_item :: "string \<Rightarrow> event sr" where
  "event_map_item i = (\<lambda>em. case em i of None \<Rightarrow> Some (Inl KeyError) | Some e \<Rightarrow> Some (Inr (em, e)))"

section \<open>Looking up events\<close>

text \<open>\<^verbatim>\<open>_get_event(..., allow_none=True)\<close> and \<^verbatim>\<open>_get_event(...)\<close>. The store returns the events it has.\<close>

definition get_event_opt :: "string \<Rightarrow> evmap \<Rightarrow> string \<Rightarrow> event option sr" where
  "get_event_opt room_id store event_id = (\<lambda>em.
     let em' = (if em event_id = None then em(event_id := store event_id) else em)
     in case em' event_id of
          None \<Rightarrow> Some (Inr (em', None))
        | Some event \<Rightarrow>
            if ev_room_id event \<noteq> room_id then Some (Inl (GenericException ''event is in another room''))
            else Some (Inr (em', Some event)))"

definition get_event :: "string \<Rightarrow> evmap \<Rightarrow> string \<Rightarrow> event sr" where
  "get_event room_id store event_id =
     bindS (get_event_opt room_id store event_id) (\<lambda>e.
     case e of None \<Rightarrow> raiseS (GenericException ''Unknown event'') | Some event \<Rightarrow> retS event)"

text \<open>\<^verbatim>\<open>(ev.type, ev.state_key) == key\<close>.\<close>

definition has_key :: "event \<Rightarrow> state_key \<Rightarrow> bool res" where
  "has_key e key = bindR (state_key_attr e) (\<lambda>k. Inr ((ev_type e, k) = key))"

abbreviation PL_KEY :: state_key where "PL_KEY \<equiv> (ET_PowerLevels, '''')"
abbreviation JR_KEY :: state_key where "JR_KEY \<equiv> (ET_JoinRules, '''')"

section \<open>Separating conflicted from unconflicted state\<close>

text \<open>The state sets are dictionaries from state keys to event identifiers.\<close>

definition seperate ::
  "(state_key, string) dict list \<Rightarrow> (state_key, string) dict \<times> (state_key, string list) dict" where
  "seperate state_sets =
     (let keys = remdups (concat (map (map fst) state_sets));
          event_ids = (\<lambda>key. remdups (map (\<lambda>s. map_of s key) state_sets))
      in (concat (map (\<lambda>key. case event_ids key of [Some i] \<Rightarrow> [(key, i)] | _ \<Rightarrow> []) keys),
          concat (map (\<lambda>key. if length (event_ids key) = 1 then []
                       else [(key, map the (filter (\<lambda>i. i \<noteq> None) (event_ids key)))]) keys)))"

section \<open>Power events and their order\<close>

definition is_power_event :: "event \<Rightarrow> bool res" where
  "is_power_event event =
     bindR (state_key_attr event) (\<lambda>state_key.
     if (ev_type event, state_key) \<in> {PL_KEY, JR_KEY, CREATE_KEY} then Inr True
     else if ev_type event = ET_Member then
       bindR (membership_attr event) (\<lambda>m.
       if m \<in> {JStr M_LEAVE, JStr M_BAN} then Inr (ev_sender event \<noteq> state_key) else Inr False)
     else Inr False)"

text \<open>The loop over the auth events of one event, and the traversal of the auth chain; the head of
  the list is the top of the stack.\<close>

fun add_auth_edges ::
  "string list \<Rightarrow> string \<Rightarrow> string list \<Rightarrow> string graph \<Rightarrow> string list \<Rightarrow> string graph \<times> string list" where
  "add_auth_edges full eid [] graph state = (graph, state)"
| "add_auth_edges full eid (aid # aids) graph state =
     (if aid \<in> set full then
        add_auth_edges full eid aids (graph_add eid aid graph)
          (if map_of graph aid = None then aid # state else state)
      else add_auth_edges full eid aids graph state)"

partial_function (option) add_chain_loop ::
  "string \<Rightarrow> evmap \<Rightarrow> string list \<Rightarrow> string list \<Rightarrow> string graph \<Rightarrow> evmap
     \<Rightarrow> (evmap \<times> string graph) res option" where
  "add_chain_loop room_id store full state graph em =
     (case state of
        [] \<Rightarrow> Some (Inr (em, graph))
      | eid # state' \<Rightarrow>
          (let graph' = setdefault eid [] graph in
           case get_event room_id store eid em of
             None \<Rightarrow> None
           | Some (Inl e) \<Rightarrow> Some (Inl e)
           | Some (Inr (em', event)) \<Rightarrow>
               (let r = add_auth_edges full eid (ev_auth_event_ids event) graph' state'
                in add_chain_loop room_id store full (snd r) (fst r) em')))"

declare add_chain_loop.simps [code]

definition add_event_and_auth_chain_to_graph ::
  "string \<Rightarrow> evmap \<Rightarrow> string list \<Rightarrow> string \<Rightarrow> string graph \<Rightarrow> string graph sr" where
  "add_event_and_auth_chain_to_graph room_id store full event_id graph =
     add_chain_loop room_id store full [event_id] graph"

text \<open>The level in the \<^verbatim>\<open>users\<close> of a power levels event.\<close>

definition sender_level :: "event \<Rightarrow> string \<Rightarrow> int res" where
  "sender_level pl sender =
     bindR (py_get (get_default (ev_content pl) ''users'' (JObj [])) sender) (\<lambda>level.
     let level = (case not_null level of
                    Some v \<Rightarrow> v
                  | None \<Rightarrow> get_default (ev_content pl) ''users_default'' (JInt 0))
     in if level = JNull then Inr 0 else py_int level)"

text \<open>The first loop of \<^verbatim>\<open>_get_power_level_for_sender\<close>: the last power levels and create events among
  the auth events; the second loop stops at the first create event.\<close>

definition scan_auth_event ::
  "string \<Rightarrow> evmap \<Rightarrow> string \<Rightarrow> event option \<times> event option \<Rightarrow> (event option \<times> event option) sr" where
  "scan_auth_event room_id store aid acc =
     bindS (get_event_opt room_id store aid) (\<lambda>aev.
     case aev of
       None \<Rightarrow> retS acc
     | Some e \<Rightarrow>
         bindS (liftS (has_key e PL_KEY)) (\<lambda>is_pl.
         bindS (liftS (has_key e CREATE_KEY)) (\<lambda>is_create.
         retS (if is_pl then Some e else fst acc, if is_create then Some e else snd acc))))"

fun creator_level :: "string \<Rightarrow> evmap \<Rightarrow> event \<Rightarrow> string list \<Rightarrow> int sr" where
  "creator_level room_id store event [] = retS 0"
| "creator_level room_id store event (aid # aids) =
     bindS (get_event_opt room_id store aid) (\<lambda>aev.
     case aev of
       None \<Rightarrow> creator_level room_id store event aids
     | Some e \<Rightarrow>
         bindS (liftS (has_key e CREATE_KEY)) (\<lambda>is_create.
         if is_create then
           (let creator = (if rv_implicit_room_creator (ev_room_version event) then JStr (ev_sender e)
                           else get_default (ev_content e) ''creator'' JNull)
            in retS (if eq_str creator (ev_sender event) then 100 else 0))
         else creator_level room_id store event aids))"

definition get_power_level_for_sender :: "string \<Rightarrow> evmap \<Rightarrow> string \<Rightarrow> int sr" where
  "get_power_level_for_sender room_id store event_id =
     bindS (get_event room_id store event_id) (\<lambda>event.
     bindS (foldS (scan_auth_event room_id store) (ev_auth_event_ids event) (None, None)) (\<lambda>(pl, create).
     bindS (liftS (raise_if (ev_type event \<noteq> ET_Create \<and> create = None) AssertionError)) (\<lambda>_.
     bindS (case create of
              None \<Rightarrow> retS False
            | Some c \<Rightarrow>
                if rv_msc4289_creator_power_enabled (ev_room_version c)
                then liftS (is_creator c (ev_sender event)) else retS False) (\<lambda>creator.
     if creator then retS CREATOR_POWER_LEVEL
     else case pl of
            None \<Rightarrow> creator_level room_id store event (ev_auth_event_ids event)
          | Some p \<Rightarrow> liftS (sender_level p (ev_sender event))))))"

text \<open>\<^verbatim>\<open>_get_power_order\<close>: descending power, then time, then identifier. Both look-ups succeed, the
  events having been fetched for their levels.\<close>

definition power_order :: "evmap \<Rightarrow> (string, int) dict \<Rightarrow> string \<Rightarrow> int \<times> int \<times> string" where
  "power_order em event_to_pl event_id =
     (- (case map_of event_to_pl event_id of Some pl \<Rightarrow> pl | None \<Rightarrow> 0),
      (case em event_id of Some ev \<Rightarrow> ev_origin_server_ts ev | None \<Rightarrow> 0), event_id)"

definition topo_sort_events :: "string graph \<Rightarrow> (string, int) dict \<Rightarrow> string list sr" where
  "topo_sort_events graph event_to_pl = (\<lambda>em.
     map_option (\<lambda>xs. Inr (em, xs))
       (lexicographical_topological_sort graph (power_order em event_to_pl)))"

definition reverse_topological_power_sort ::
  "string \<Rightarrow> evmap \<Rightarrow> string list \<Rightarrow> string list \<Rightarrow> string list sr" where
  "reverse_topological_power_sort room_id store event_ids full =
     bindS (foldS (add_event_and_auth_chain_to_graph room_id store full) event_ids []) (\<lambda>graph.
     bindS (mapS (\<lambda>event_id. bindS (get_power_level_for_sender room_id store event_id) (\<lambda>pl.
              retS (event_id, pl))) (map fst graph))
       (topo_sort_events graph))"

section \<open>Iterative auth checks\<close>

text \<open>The events an event is checked against: first its own auth events, then what the resolved state
  has for the auth types of the event.\<close>

definition collect_auth_event ::
  "string \<Rightarrow> evmap \<Rightarrow> string \<Rightarrow> (state_key, event) dict \<Rightarrow> (state_key, event) dict sr" where
  "collect_auth_event room_id store aid auth_events =
     bindS (\<lambda>em. case em aid of
              Some e \<Rightarrow> Some (Inr (em, Some e))
            | None \<Rightarrow> get_event_opt room_id store aid em) (\<lambda>ev.
     case ev of
       None \<Rightarrow> retS auth_events
     | Some e \<Rightarrow>
         if ev_rejected_reason e = None then
           bindS (liftS (state_key_attr e)) (\<lambda>k. retS (dict_set (ev_type e, k) e auth_events))
         else retS auth_events)"

definition collect_resolved ::
  "string \<Rightarrow> evmap \<Rightarrow> (state_key, string) overlay \<Rightarrow> state_key \<Rightarrow> (state_key, event) dict
     \<Rightarrow> (state_key, event) dict sr" where
  "collect_resolved room_id store resolved_state key auth_events =
     (case overlay_getitem resolved_state key of
        Inl _ \<Rightarrow> retS auth_events
      | Inr ev_id \<Rightarrow>
          bindS (\<lambda>em. case em ev_id of
                   Some e \<Rightarrow> Some (Inr (em, e))
                 | None \<Rightarrow> get_event room_id store ev_id em) (\<lambda>ev.
          if ev_rejected_reason ev = None then
            bindS (event_map_item ev_id) (\<lambda>e. retS (dict_set key e auth_events))
          else retS auth_events))"

text \<open>One iteration: only an \<^verbatim>\<open>AuthError\<close> is caught.\<close>

definition iterative_auth_check ::
  "ext \<Rightarrow> string \<Rightarrow> room_version \<Rightarrow> evmap \<Rightarrow> string \<Rightarrow> (state_key, string) overlay
     \<Rightarrow> (state_key, string) overlay sr" where
  "iterative_auth_check x room_id room_version store event_id resolved_state =
     bindS (event_map_item event_id) (\<lambda>event.
     bindS (foldS (collect_auth_event room_id store) (ev_auth_event_ids event) []) (\<lambda>auth1.
     bindS (liftS (auth_types_for_event room_version event)) (\<lambda>keys.
     bindS (foldS (collect_resolved room_id store resolved_state) (sorted_list_of_set keys) auth1) (\<lambda>auth_events.
     if ev_rejected_reason event \<noteq> None then retS resolved_state
     else
       (case check_state_dependent_auth_rules x event (map snd auth_events) of
          Inl e \<Rightarrow> if is_auth_error e then retS resolved_state else raiseS e
        | Inr _ \<Rightarrow>
            bindS (liftS (state_key_attr event)) (\<lambda>k.
            retS (overlay_setitem resolved_state (ev_type event, k) event_id)))))))"

definition iterative_auth_checks ::
  "ext \<Rightarrow> string \<Rightarrow> room_version \<Rightarrow> evmap \<Rightarrow> string list \<Rightarrow> (state_key, string) overlay
     \<Rightarrow> (state_key, string) overlay sr" where
  "iterative_auth_checks x room_id room_version store event_ids base_state =
     foldS (iterative_auth_check x room_id room_version store) event_ids (overlay_new base_state)"

section \<open>The mainline\<close>

text \<open>The first auth event that is a power levels event.\<close>

fun find_pl_auth :: "string \<Rightarrow> evmap \<Rightarrow> string list \<Rightarrow> (string \<times> event) option sr" where
  "find_pl_auth room_id store [] = retS None"
| "find_pl_auth room_id store (aid # aids) =
     bindS (get_event_opt room_id store aid) (\<lambda>ev.
     case ev of
       None \<Rightarrow> find_pl_auth room_id store aids
     | Some e \<Rightarrow>
         bindS (liftS (has_key e PL_KEY)) (\<lambda>is_pl.
         if is_pl then retS (Some (aid, e)) else find_pl_auth room_id store aids))"

text \<open>One turn of the mainline loop from \<open>pl\<close>: the next power levels event.\<close>

definition mainline_step :: "string \<Rightarrow> evmap \<Rightarrow> string \<Rightarrow> string option sr" where
  "mainline_step room_id store pl =
     bindS (get_event room_id store pl) (\<lambda>pl_ev.
     bindS (find_pl_auth room_id store (ev_auth_event_ids pl_ev)) (\<lambda>next. retS (map_option fst next)))"

partial_function (option) mainline_loop ::
  "string \<Rightarrow> evmap \<Rightarrow> string option \<Rightarrow> string list \<Rightarrow> evmap \<Rightarrow> (evmap \<times> string list) res option" where
  "mainline_loop room_id store pl mainline em =
     (if pl = None \<or> pl = Some '''' then Some (Inr (em, mainline))
      else
        (case mainline_step room_id store (the pl) em of
           None \<Rightarrow> None
         | Some (Inl e) \<Rightarrow> Some (Inl e)
         | Some (Inr (em', pl')) \<Rightarrow> mainline_loop room_id store pl' (mainline @ [the pl]) em'))"

declare mainline_loop.simps [code]

text \<open>\<^verbatim>\<open>{ev_id: i + 1 for i, ev_id in enumerate(reversed(mainline))}\<close>.\<close>

definition mainline_map :: "string list \<Rightarrow> (string, nat) dict" where
  "mainline_map mainline =
     fold (\<lambda>(i, ev_id). dict_set ev_id (i + 1)) (zip [0..<length mainline] (rev mainline)) []"

partial_function (option) mainline_depth_loop ::
  "string \<Rightarrow> evmap \<Rightarrow> (string, nat) dict \<Rightarrow> event option \<Rightarrow> evmap \<Rightarrow> (evmap \<times> nat) res option" where
  "mainline_depth_loop room_id store mmap tmp_event em =
     (case tmp_event of
        None \<Rightarrow> Some (Inr (em, 0))
      | Some e \<Rightarrow>
          (case map_of mmap (ev_event_id e) of
             Some depth \<Rightarrow> Some (Inr (em, depth))
           | None \<Rightarrow>
               (case find_pl_auth room_id store (ev_auth_event_ids e) em of
                  None \<Rightarrow> None
                | Some (Inl err) \<Rightarrow> Some (Inl err)
                | Some (Inr (em', next)) \<Rightarrow>
                    mainline_depth_loop room_id store mmap (map_option snd next) em')))"

declare mainline_depth_loop.simps [code]

definition get_mainline_depth_for_event :: "evmap \<Rightarrow> event \<Rightarrow> (string, nat) dict \<Rightarrow> nat sr" where
  "get_mainline_depth_for_event store event mmap =
     mainline_depth_loop (ev_room_id event) store mmap (Some event)"

definition mainline_order :: "evmap \<Rightarrow> (string, nat) dict \<Rightarrow> string \<Rightarrow> (nat \<times> int \<times> string) sr" where
  "mainline_order store mmap ev_id =
     bindS (event_map_item ev_id) (\<lambda>event.
     bindS (get_mainline_depth_for_event store event mmap) (\<lambda>depth.
     bindS (event_map_item ev_id) (\<lambda>event'.
     retS (depth, ev_origin_server_ts event', ev_id))))"

definition mainline_sort ::
  "string \<Rightarrow> evmap \<Rightarrow> string list \<Rightarrow> string option \<Rightarrow> string list sr" where
  "mainline_sort room_id store event_ids resolved_power_event_id =
     (if event_ids = [] then retS []
      else
        bindS (mainline_loop room_id store resolved_power_event_id []) (\<lambda>mainline.
        bindS (mapS (mainline_order store (mainline_map mainline)) event_ids) (\<lambda>orders.
        retS (map (snd \<circ> snd) (sort orders)))))"

section \<open>Resolving the conflicted set\<close>

text \<open>The power events are selected by a generator that the sort consumes; selecting them first only
  matters for which of several exceptions is raised.\<close>

definition power_events_of :: "string list \<Rightarrow> string list sr" where
  "power_events_of full =
     bindS (mapS (\<lambda>eid. bindS (event_map_item eid) (\<lambda>e. bindS (liftS (is_power_event e)) (\<lambda>b.
        retS (eid, b)))) full) (\<lambda>bs.
     retS (map fst (filter snd bs)))"

definition resolve_conflicted_set ::
  "ext \<Rightarrow> string \<Rightarrow> room_version \<Rightarrow> evmap \<Rightarrow> string list \<Rightarrow> (state_key, string) overlay
     \<Rightarrow> (state_key, string) overlay sr" where
  "resolve_conflicted_set x room_id room_version store full_conflicted_set base_state =
     bindS (power_events_of full_conflicted_set) (\<lambda>power_events.
     bindS (reverse_topological_power_sort room_id store power_events full_conflicted_set) (\<lambda>sorted_power_events.
     bindS (iterative_auth_checks x room_id room_version store sorted_power_events base_state) (\<lambda>resolved_state.
     let leftover_events = filter (\<lambda>i. i \<notin> set sorted_power_events) full_conflicted_set;
         pl = (case overlay_getitem resolved_state PL_KEY of Inl _ \<Rightarrow> None | Inr i \<Rightarrow> Some i)
     in
     bindS (mainline_sort room_id store leftover_events pl) (\<lambda>leftover.
     iterative_auth_checks x room_id room_version store leftover resolved_state))))"

end
