(* ===== verification/State_Res_Props.thy ===== *)
theory State_Res_Props
  imports State_Res
begin

text \<open>
  Properties of the resolution of the conflicted set: the loops return, the separation of the state
  sets is exact, only events that are not rejected and pass the rules enter the state, and the state
  outside the auth types of the conflicted events cannot influence the outcome.
\<close>

named_theorems sr_simps \<open>rewriting of state resolution steps\<close>

lemma retS_simp [sr_simps]: "retS x em = Some (Inr (em, x))"
  by (simp add: retS_def)

lemma raiseS_simp [sr_simps]: "raiseS e em = Some (Inl e)"
  by (simp add: raiseS_def)

lemma bindS_Some_Inr [sr_simps]:
  "bindS m f em = Some (Inr (em2, y)) \<longleftrightarrow>
   (\<exists>em1 x. m em = Some (Inr (em1, x)) \<and> f x em1 = Some (Inr (em2, y)))"
  by (auto simp: bindS_def split: option.splits sum.splits)

lemma bindS_None:
  "bindS m f em = None \<longleftrightarrow> m em = None \<or> (\<exists>em1 x. m em = Some (Inr (em1, x)) \<and> f x em1 = None)"
  by (auto simp: bindS_def split: option.splits sum.splits)

lemma liftS_Some_Inr [sr_simps]: "liftS r em = Some (Inr (em2, x)) \<longleftrightarrow> r = Inr x \<and> em2 = em"
  by (auto simp: liftS_def retS_def raiseS_def split: sum.splits)

text \<open>The result without the event map.\<close>

lemma erase_eq_Some_Inr [sr_simps]:
  "map_option (map_sum id snd) r = Some (Inr y) \<longleftrightarrow> (\<exists>em'. r = Some (Inr (em', y)))"
proof (cases r)
  case (Some q)
  then show ?thesis by (cases q) auto
qed simp

lemma liftS_None [simp]: "liftS r em \<noteq> None"
  by (auto simp: liftS_def retS_def raiseS_def split: sum.splits)

lemma bindS_cong: "m em = n em \<Longrightarrow> (\<And>em1 x. n em = Some (Inr (em1, x)) \<Longrightarrow> f x em1 = g x em1) \<Longrightarrow>
  bindS m f em = bindS n g em"
  by (auto simp: bindS_def split: option.splits sum.splits)

text \<open>An invariant of the event map and the accumulator that the body keeps holds after the loop.\<close>

lemma foldS_invariant:
  assumes "foldS f xs acc em = Some (Inr (em', acc'))" "P acc em"
    and "\<And>y acc em em' acc'. y \<in> set xs \<Longrightarrow> P acc em \<Longrightarrow> f y acc em = Some (Inr (em', acc')) \<Longrightarrow> P acc' em'"
  shows "P acc' em'"
  using assms
proof (induction xs arbitrary: acc em)
  case (Cons x xs)
  then obtain em1 acc1 where "f x acc em = Some (Inr (em1, acc1))"
    "foldS f xs acc1 em1 = Some (Inr (em', acc'))"
    by (auto simp: bindS_Some_Inr)
  moreover from this have "P acc1 em1" using Cons.prems(2,3) by (meson list.set_intros(1))
  ultimately show ?case using Cons.IH [of acc1 em1] Cons.prems(3) by (meson list.set_intros(2))
qed (simp add: retS_def)

section \<open>Computations that return\<close>

definition totalS :: "'a sr \<Rightarrow> bool" where
  "totalS m \<longleftrightarrow> (\<forall>em. m em \<noteq> None)"

named_theorems total_intros \<open>computations that return\<close>

lemma total_basic [total_intros]: "totalS (retS y)" "totalS (raiseS e)" "totalS (liftS r)"
  "totalS (event_map_item i)" "totalS (get_event_opt room store i)"
  by (auto simp: totalS_def retS_def raiseS_def liftS_def event_map_item_def get_event_opt_def Let_def
      split: option.splits sum.splits if_splits)

lemma total_bind [total_intros]: "totalS m \<Longrightarrow> (\<And>y. totalS (f y)) \<Longrightarrow> totalS (bindS m f)"
  unfolding totalS_def bindS_None by blast

lemma total_cases [total_intros]:
  "(\<And>y. totalS (f y)) \<Longrightarrow> totalS g \<Longrightarrow> totalS (case oe of None \<Rightarrow> g | Some y \<Rightarrow> f y)"
  "totalS m \<Longrightarrow> totalS n \<Longrightarrow> totalS (if b then m else n)"
  "(\<And>e. totalS (h e)) \<Longrightarrow> (\<And>y. totalS (f y)) \<Longrightarrow> totalS (case r of Inl e \<Rightarrow> h e | Inr y \<Rightarrow> f y)"
  "(\<And>a b. totalS (k a b)) \<Longrightarrow> totalS (case p of (a, b) \<Rightarrow> k a b)"
  by (auto split: option.splits sum.splits prod.splits)

lemma total_cached [total_intros]:
  "totalS m \<Longrightarrow> totalS (\<lambda>em. case em i of Some e \<Rightarrow> Some (Inr (em, f e)) | None \<Rightarrow> m em)"
  by (auto simp: totalS_def split: option.splits)

lemma total_get_event [total_intros]: "totalS (get_event room store i)"
  unfolding get_event_def by (intro total_intros)

lemma total_foldS [total_intros]: "(\<And>y acc. totalS (f y acc)) \<Longrightarrow> totalS (foldS f xs acc)"
  by (induction xs arbitrary: acc) (auto intro!: total_intros)

lemma total_mapS [total_intros]: "(\<And>y. totalS (f y)) \<Longrightarrow> totalS (mapS f xs)"
  by (induction xs) (auto intro!: total_intros)

lemma total_find_pl_auth [total_intros]: "totalS (find_pl_auth room store aids)"
  by (induction aids) (auto intro!: total_intros)

lemma total_creator_level [total_intros]: "totalS (creator_level room store event aids)"
  by (induction aids) (auto intro!: total_intros simp: Let_def)

lemma total_mainline_step [total_intros]: "totalS (mainline_step room store pl)"
  unfolding mainline_step_def by (intro total_intros)

lemma total_get_power_level [total_intros]: "totalS (get_power_level_for_sender room store i)"
  unfolding get_power_level_for_sender_def scan_auth_event_def by (intro total_intros)

lemma total_collect [total_intros]:
  "totalS (collect_auth_event room store aid acc)" "totalS (collect_resolved room store ov key acc)"
  unfolding collect_auth_event_def collect_resolved_def
  by (intro total_intros total_cached [where f = Some] total_cached [where f = "\<lambda>e. e"])+

lemma total_iterative_auth_checks [total_intros]:
  "totalS (iterative_auth_check x room rv store i ov)"
  "totalS (iterative_auth_checks x room rv store ids base)"
  unfolding iterative_auth_checks_def iterative_auth_check_def by (intro total_intros)+

lemma totalSD: "totalS m \<Longrightarrow> m em \<noteq> None"
  by (simp add: totalS_def)

section \<open>Fetching events\<close>

lemma get_event_opt_Some:
  "get_event_opt room store i em = Some (Inr (em', oe)) \<Longrightarrow>
   oe = (store ++ em) i \<and> em' = em(i := (store ++ em) i) \<and> (\<forall>e. oe = Some e \<longrightarrow> ev_room_id e = room)"
  by (auto simp: get_event_opt_def Let_def map_add_def fun_eq_iff split: option.splits if_splits)

lemma get_event_Some:
  "get_event room store i em = Some (Inr (em', e)) \<Longrightarrow>
   (store ++ em) i = Some e \<and> em' = em(i \<mapsto> e) \<and> ev_room_id e = room"
  by (auto simp: get_event_def bindS_Some_Inr retS_def raiseS_def dest!: get_event_opt_Some
      split: option.splits)

text \<open>Fetching does not change the view of the events that the cache and the store give together.\<close>

lemma view_upd: "store ++ em(i := (store ++ em) i) = store ++ em"
  by (auto simp: fun_eq_iff map_add_def split: option.splits)

section \<open>Separating the state\<close>

lemma remdups_eq_singleton: "remdups xs = [a] \<longleftrightarrow> set xs = {a}"
proof
  assume "set xs = {a}"
  then have "length (remdups xs) = 1" by (simp add: length_remdups_card_conv)
  then obtain b where "remdups xs = [b]" by (auto simp: length_Suc_conv)
  moreover from this have "set xs = {b}" by (metis list.simps(15) list.set(1) set_remdups)
  ultimately show "remdups xs = [a]" using \<open>set xs = {a}\<close> by simp
qed (metis list.simps(15) list.set(1) set_remdups)

lemma ids_singleton:
  assumes "state_sets \<noteq> []"
  shows "remdups (map (\<lambda>s. map_of s k) state_sets) = [v] \<longleftrightarrow> (\<forall>s \<in> set state_sets. map_of s k = v)"
  unfolding remdups_eq_singleton using assms by (cases state_sets) auto

lemma in_keys: "k \<in> set (concat (map (map fst) state_sets)) \<longleftrightarrow> (\<exists>s \<in> set state_sets. map_of s k \<noteq> None)"
  by (auto simp: map_of_eq_None_iff)

lemma seperate_unconflicted:
  assumes "state_sets \<noteq> []"
  shows "map_of (fst (seperate state_sets)) k = Some i \<longleftrightarrow> (\<forall>s \<in> set state_sets. map_of s k = Some i)"
proof -
  let ?ids = "\<lambda>key. remdups (map (\<lambda>s. map_of s key) state_sets)"
  have mo: "map_of (concat (map (\<lambda>key. case ?ids key of [Some i] \<Rightarrow> [(key, i)] | _ \<Rightarrow> []) ks)) k = Some i \<longleftrightarrow>
      k \<in> set ks \<and> ?ids k = [Some i]" for ks
    by (induction ks) (auto split: list.splits option.splits)
  have "k \<in> set (remdups (concat (map (map fst) state_sets)))"
    if "\<forall>s \<in> set state_sets. map_of s k = Some i"
    unfolding set_remdups in_keys using that assms by (cases state_sets) auto
  then show ?thesis
    unfolding seperate_def Let_def fst_conv mo ids_singleton [OF assms] by blast
qed

lemma seperate_conflicted:
  assumes "state_sets \<noteq> []"
  shows "map_of (snd (seperate state_sets)) k =
    (if (\<exists>s \<in> set state_sets. map_of s k \<noteq> None) \<and> \<not> (\<exists>i. \<forall>s \<in> set state_sets. map_of s k = Some i)
     then Some (map the (filter (\<lambda>i. i \<noteq> None) (remdups (map (\<lambda>s. map_of s k) state_sets)))) else None)"
proof -
  let ?ids = "\<lambda>key. remdups (map (\<lambda>s. map_of s key) state_sets)"
  have mo: "map_of (concat (map (\<lambda>key. if length (?ids key) = 1 then []
      else [(key, map the (filter (\<lambda>i. i \<noteq> None) (?ids key)))]) ks)) k =
    (if k \<in> set ks \<and> length (?ids k) \<noteq> 1 then Some (map the (filter (\<lambda>i. i \<noteq> None) (?ids k))) else None)" for ks
    by (induction ks) auto
  have "length (?ids k) = 1 \<longleftrightarrow> (\<exists>v. ?ids k = [v])"
    by (auto simp: length_Suc_conv)
  then have one: "length (?ids k) = 1 \<longleftrightarrow> (\<exists>v. \<forall>s \<in> set state_sets. map_of s k = v)"
    unfolding ids_singleton [OF assms] .
  show ?thesis
    unfolding seperate_def Let_def snd_conv mo one set_remdups in_keys by (auto; blast)
qed

text \<open>The separation of the state sets is exact. A key is unconflicted with event \<open>i\<close> when every
  state set has \<open>i\<close> there; otherwise, when some state set has the key, it is conflicted with exactly
  the events the state sets have for it (a key missing from one of them counts as conflicted); no
  key is both.\<close>

lemma seperate_exact:
  assumes "state_sets \<noteq> []"
  shows "(\<forall>i. map_of (fst (seperate state_sets)) k = Some i \<longleftrightarrow> (\<forall>s \<in> set state_sets. map_of s k = Some i)) \<and>
    (\<forall>ids. map_of (snd (seperate state_sets)) k = Some ids \<longrightarrow>
       map_of (fst (seperate state_sets)) k = None \<and> distinct ids \<and> ids \<noteq> [] \<and>
       set ids = {i. \<exists>s \<in> set state_sets. map_of s k = Some i}) \<and>
    ((\<exists>s \<in> set state_sets. map_of s k \<noteq> None) \<longrightarrow>
       (map_of (fst (seperate state_sets)) k = None) \<noteq> (map_of (snd (seperate state_sets)) k = None))"
proof (intro conjI allI impI)
  fix ids
  assume ids: "map_of (snd (seperate state_sets)) k = Some ids"
  then have ids_def: "ids = map the (filter (\<lambda>i. i \<noteq> None) (remdups (map (\<lambda>s. map_of s k) state_sets)))"
    and not: "\<not> (\<exists>i. \<forall>s \<in> set state_sets. map_of s k = Some i)"
    and some: "\<exists>s \<in> set state_sets. map_of s k \<noteq> None"
    by (auto simp: seperate_conflicted [OF assms] split: if_splits)
  show "map_of (fst (seperate state_sets)) k = None"
    using not seperate_unconflicted [OF assms] by (metis option.exhaust)
  show "distinct ids" unfolding ids_def by (auto simp: distinct_map inj_on_def)
  show eq: "set ids = {i. \<exists>s \<in> set state_sets. map_of s k = Some i}"
    unfolding ids_def by (force simp: image_iff)
  show "ids \<noteq> []"
    using eq some by fastforce
next
  assume "\<exists>s \<in> set state_sets. map_of s k \<noteq> None"
  moreover have "map_of (fst (seperate state_sets)) k = None \<longleftrightarrow>
      \<not> (\<exists>i. \<forall>s \<in> set state_sets. map_of s k = Some i)"
    unfolding seperate_unconflicted [OF assms, symmetric] by (cases "map_of (fst (seperate state_sets)) k") auto
  ultimately show "(map_of (fst (seperate state_sets)) k = None) \<noteq> (map_of (snd (seperate state_sets)) k = None)"
    unfolding seperate_conflicted [OF assms, of k] by simp
qed (simp add: seperate_unconflicted [OF assms])

lemma seperate_exact_witness:
  "map_of (fst (seperate [[(PL_KEY, ''$p''), (JR_KEY, ''$a'')], [(PL_KEY, ''$p''), (JR_KEY, ''$b'')]])) PL_KEY
     = Some ''$p''"
  using seperate_exact
    [of "[[(PL_KEY, ''$p''), (JR_KEY, ''$a'')], [(PL_KEY, ''$p''), (JR_KEY, ''$b'')]]" PL_KEY]
  by simp

section \<open>The graph of power events\<close>

text \<open>The auth events of an event that are in the full conflicted set.\<close>

definition kids :: "evmap \<Rightarrow> string list \<Rightarrow> string \<Rightarrow> string set" where
  "kids v full e = (case v e of None \<Rightarrow> {} | Some ev \<Rightarrow> set (ev_auth_event_ids ev) \<inter> set full)"

text \<open>The traversal has expanded the nodes of the graph: their edges are their auth events, which are
  nodes themselves or still on the stack, above any second occurrence of the node.\<close>

definition chain_inv :: "evmap \<Rightarrow> string list \<Rightarrow> string list \<Rightarrow> string graph \<Rightarrow> bool" where
  "chain_inv v full stack g \<longleftrightarrow> dict_wf g \<and>
     (\<forall>e. e \<in> gnodes g \<longrightarrow> set (edges_of g e) = kids v full e \<and> kids v full e \<subseteq> gnodes g \<union> set stack) \<and>
     (\<forall>ys e zs. stack = ys @ e # zs \<longrightarrow> e \<in> gnodes g \<longrightarrow> kids v full e \<subseteq> gnodes g \<union> set ys)"

lemma gnodes_simps [simp]:
  "gnodes (graph_add k n g) = insert k (gnodes g)"
  "gnodes (setdefault k x g) = insert k (gnodes g)"
  by (auto simp: gnodes_def graph_add_def setdefault_def map_of_eq_None_iff split: option.splits)
    (metis domI dom_map_of_conv_image_fst)

lemma dict_wf_graph_ops [simp]:
  "dict_wf g \<Longrightarrow> dict_wf (graph_add k n g)"
  "dict_wf d \<Longrightarrow> dict_wf (setdefault k x d)"
  by (auto simp: graph_add_def setdefault_def dict_wf_def map_of_eq_None_iff split: option.splits)
    (metis dict_wf_def dict_wf_simps(2))

lemma add_auth_edges_correct:
  assumes "add_auth_edges full eid aids g st = (g', st')" "eid \<in> gnodes g" "dict_wf g"
  shows "dict_wf g' \<and> gnodes g' = gnodes g \<and>
    (\<forall>n. set (edges_of g' n) = set (edges_of g n) \<union> (if n = eid then set aids \<inter> set full else {})) \<and>
    (\<exists>ps. st' = ps @ st \<and> set ps = (set aids \<inter> set full) - gnodes g)"
  using assms
proof (induction full eid aids g st rule: add_auth_edges.induct)
  case (2 full eid aid aids g st)
  show ?case
  proof (cases "aid \<in> set full")
    case True
    have gn: "insert eid (gnodes g) = gnodes g" using 2(4) by auto
    let ?st = "if map_of g aid = None then aid # st else st"
    have IH: "dict_wf g' \<and> gnodes g' = gnodes (graph_add eid aid g) \<and>
      (\<forall>n. set (edges_of g' n) = set (edges_of (graph_add eid aid g) n) \<union>
         (if n = eid then set aids \<inter> set full else {})) \<and>
      (\<exists>ps. st' = ps @ ?st \<and> set ps = (set aids \<inter> set full) - gnodes (graph_add eid aid g))"
      using 2(1) [OF True _ _ _] 2(3-5) True by simp
    then obtain ps where ps: "st' = ps @ ?st" "set ps = (set aids \<inter> set full) - gnodes g"
      by (auto simp: gn)
    have "\<exists>ps. st' = ps @ st \<and> set ps = (set (aid # aids) \<inter> set full) - gnodes g"
      using ps True by (intro exI [of _ "ps @ (if map_of g aid = None then [aid] else [])"])
        (auto simp: gnodes_def map_of_eq_None_iff)
    with IH True show ?thesis by (auto simp: gn)
  qed (use 2 in auto)
qed auto

lemma chain_step:
  assumes inv: "chain_inv v full (eid # st) g" and ev: "v eid = Some ev"
    and r: "add_auth_edges full eid (ev_auth_event_ids ev) (setdefault eid [] g) st = (g', st')"
  shows "chain_inv v full st' g'" "gnodes g' = insert eid (gnodes g)"
    and "set st \<subseteq> set st'" "set st' \<subseteq> set st \<union> set full" "eid \<in> gnodes g \<Longrightarrow> st' = st"
proof -
  have kids: "kids v full eid = set (ev_auth_event_ids ev) \<inter> set full"
    by (simp add: kids_def ev)
  have wf: "dict_wf g" using inv by (simp add: chain_inv_def)
  note R = add_auth_edges_correct [OF r, simplified, OF wf [THEN dict_wf_graph_ops(2)]]
  from R obtain ps where ps: "st' = ps @ st" "set ps = kids v full eid - insert eid (gnodes g)"
    by (auto simp: kids)
  show gn: "gnodes g' = insert eid (gnodes g)" using R by simp
  show "set st \<subseteq> set st'" "set st' \<subseteq> set st \<union> set full" using ps kids by auto
  have old: "kids v full eid \<subseteq> gnodes g" if "eid \<in> gnodes g"
    using inv that unfolding chain_inv_def by (metis append_Nil list.set(1) sup_bot.right_neutral)
  have "set ps = {}" if "eid \<in> gnodes g"
    using old [OF that] ps(2) by auto
  then show "st' = st" if "eid \<in> gnodes g" using that ps(1) by simp
  have edges: "set (edges_of g' e) = kids v full e" if "e \<in> gnodes g'" for e
  proof -
    have "e \<in> gnodes g \<Longrightarrow> set (edges_of g e) = kids v full e"
      using inv by (simp add: chain_inv_def)
    moreover have "e \<notin> gnodes g \<Longrightarrow> edges_of g e = []"
      by (simp add: gnodes_def edges_of_def flip: map_of_eq_None_iff)
    ultimately show ?thesis using R that gn kids by (cases "e \<in> gnodes g") auto
  qed
  have sub: "kids v full e \<subseteq> gnodes g' \<union> set st'" if "e \<in> gnodes g'" for e
  proof (cases "e = eid")
    case False
    then have "kids v full e \<subseteq> gnodes g \<union> set (eid # st)"
      using inv that gn by (simp add: chain_inv_def)
    then show ?thesis using gn ps by auto
  qed (use ps gn in auto)
  have pos: "kids v full e \<subseteq> gnodes g' \<union> set ys" if st: "st' = ys @ e # zs" and e: "e \<in> gnodes g'" for ys e zs
  proof -
    have "e \<notin> set ps" using e ps(2) gn by auto
    then obtain us where us: "ys = ps @ us" "st = us @ e # zs"
      using st ps(1) by (auto simp: append_eq_append_conv2 append_eq_Cons_conv)
    show ?thesis
    proof (cases "e = eid")
      case False
      then have "kids v full e \<subseteq> gnodes g \<union> set (eid # us)"
        using inv e gn us(2) unfolding chain_inv_def
        by (metis append_Cons insertE)
      then show ?thesis using gn us by auto
    qed (use ps gn us in auto)
  qed
  show "chain_inv v full st' g'"
    unfolding chain_inv_def
  proof (intro conjI allI impI)
    show "dict_wf g'" using R by simp
  qed (use edges sub in blast, use sub in blast, rule pos)
qed

lemma add_chain_loop_total:
  assumes "chain_inv (store ++ em) full st g"
  shows "\<exists>r. add_chain_loop room store full st g em = Some r \<and>
    (\<forall>em' g'. r = Inr (em', g') \<longrightarrow> chain_inv (store ++ em) full [] g' \<and> store ++ em' = store ++ em \<and>
       em \<subseteq>\<^sub>m em' \<and> gnodes g \<union> set st \<subseteq> gnodes g' \<and> gnodes g' \<subseteq> gnodes g \<union> set st \<union> set full)"
  using assms
proof (induction "(card ((set full \<union> set st) - gnodes g), length st)" arbitrary: st g em
    rule: wf_induct_rule [OF wf_lex_prod [OF wf_measure wf_measure], of id id])
  case (1 st g em)
  show ?case
  proof (cases st)
    case Nil
    then show ?thesis using 1(2) by (simp add: add_chain_loop.simps)
  next
    case (Cons eid st1)
    show ?thesis
    proof (cases "get_event room store eid em")
      case (Some r)
      show ?thesis
      proof (cases r)
        case (Inl e)
        then show ?thesis using Cons Some by (simp add: add_chain_loop.simps)
      next
        case (Inr p)
        then obtain em1 ev where p: "r = Inr (em1, ev)" by (cases p) auto
        then have ev: "(store ++ em) eid = Some ev" "em1 = em(eid \<mapsto> ev)"
          using get_event_Some Some by auto
        have view: "store ++ em1 = store ++ em"
          using view_upd [of store em eid] ev by simp
        have sub: "em \<subseteq>\<^sub>m em1"
          using ev by (auto simp: map_le_def map_add_def split: option.splits)
        obtain g1 st2 where r1: "add_auth_edges full eid (ev_auth_event_ids ev) (setdefault eid [] g) st1 = (g1, st2)"
          by fastforce
        note S = chain_step [OF 1(2) [unfolded Cons] ev(1) r1]
        have "((card ((set full \<union> set st2) - gnodes g1), length st2),
            (card ((set full \<union> set st) - gnodes g), length st)) \<in> measure id <*lex*> measure id"
        proof (cases "eid \<in> gnodes g")
          case True
          then show ?thesis using S(2,5) Cons by (auto simp: insert_absorb)
        next
          case False
          have "(set full \<union> set st2) - gnodes g1 \<subset> (set full \<union> set st) - gnodes g"
            using S(2-4) False Cons by auto
          then show ?thesis by (simp add: psubset_card_mono)
        qed
        from 1(1) [OF this, of em1] S(1) view obtain r' where
          "add_chain_loop room store full st2 g1 em1 = Some r'"
          "\<forall>em' g'. r' = Inr (em', g') \<longrightarrow> chain_inv (store ++ em) full [] g' \<and> store ++ em' = store ++ em \<and>
             em1 \<subseteq>\<^sub>m em' \<and> gnodes g1 \<union> set st2 \<subseteq> gnodes g' \<and> gnodes g' \<subseteq> gnodes g1 \<union> set st2 \<union> set full"
          by auto
        moreover have "add_chain_loop room store full st g em = add_chain_loop room store full st2 g1 em1"
          using Cons Some p r1 by (subst add_chain_loop.simps) (simp add: Let_def)
        moreover have "gnodes g1 \<union> set st2 \<union> set full = gnodes g \<union> set st \<union> set full"
          "gnodes g \<union> set st \<subseteq> gnodes g1 \<union> set st2"
          using S(2-4) Cons by auto
        ultimately show ?thesis
          using map_le_trans [OF sub] by (intro exI [of _ r']) (auto 0 3)
      qed
    qed (use totalSD [OF total_get_event] in blast)
  qed
qed

section \<open>Every step keeps the view of the events\<close>

text \<open>A computation only adds to the cache, and only what the store has.\<close>

definition keeps_view :: "evmap \<Rightarrow> 'a sr \<Rightarrow> bool" where
  "keeps_view store m \<longleftrightarrow>
     (\<forall>em em' y. m em = Some (Inr (em', y)) \<longrightarrow> store ++ em' = store ++ em \<and> em \<subseteq>\<^sub>m em')"

named_theorems keeps_intros \<open>computations that keep the view\<close>

lemma keeps_viewD:
  "keeps_view store m \<Longrightarrow> m em = Some (Inr (em', y)) \<Longrightarrow> store ++ em' = store ++ em \<and> em \<subseteq>\<^sub>m em'"
  by (auto simp: keeps_view_def)

lemma keeps_ret [keeps_intros]: "keeps_view store (retS y)"
  "keeps_view store (raiseS e)" "keeps_view store (liftS r)" "keeps_view store (event_map_item i)"
  by (auto simp: keeps_view_def retS_def raiseS_def liftS_Some_Inr event_map_item_def split: option.splits)

lemma keeps_bind [keeps_intros]:
  "keeps_view store m \<Longrightarrow> (\<And>y. keeps_view store (f y)) \<Longrightarrow> keeps_view store (bindS m f)"
  unfolding keeps_view_def bindS_Some_Inr by (metis map_le_trans)

lemma keeps_get_event_opt [keeps_intros]: "keeps_view store (get_event_opt room store i)"
  unfolding keeps_view_def
proof (intro allI impI)
  fix em em' y
  assume "get_event_opt room store i em = Some (Inr (em', y))"
  from get_event_opt_Some [OF this] have "em' = em(i := (store ++ em) i)" by simp
  moreover have "em \<subseteq>\<^sub>m em(i := (store ++ em) i)"
    by (auto simp: map_le_def map_add_def split: option.splits)
  ultimately show "store ++ em' = store ++ em \<and> em \<subseteq>\<^sub>m em'"
    using view_upd [of store em i] by simp
qed

lemma keeps_cases [keeps_intros]:
  "(\<And>y. keeps_view store (f y)) \<Longrightarrow> keeps_view store g \<Longrightarrow> keeps_view store (case oe of None \<Rightarrow> g | Some y \<Rightarrow> f y)"
  "keeps_view store m \<Longrightarrow> keeps_view store n \<Longrightarrow> keeps_view store (if b then m else n)"
  "(\<And>e. keeps_view store (h e)) \<Longrightarrow> (\<And>y. keeps_view store (f y)) \<Longrightarrow>
     keeps_view store (case r of Inl e \<Rightarrow> h e | Inr y \<Rightarrow> f y)"
  by (auto split: option.splits sum.splits)

lemma keeps_get_event [keeps_intros]: "keeps_view store (get_event room store i)"
  unfolding get_event_def by (intro keeps_intros)

lemma keeps_foldS [keeps_intros]:
  "(\<And>y acc. keeps_view store (f y acc)) \<Longrightarrow> keeps_view store (foldS f xs acc)"
  by (induction xs arbitrary: acc) (auto intro!: keeps_intros)

lemma keeps_mapS [keeps_intros]: "(\<And>y. keeps_view store (f y)) \<Longrightarrow> keeps_view store (mapS f xs)"
  by (induction xs) (auto intro!: keeps_intros)

lemma keeps_find_pl_auth [keeps_intros]: "keeps_view store (find_pl_auth room store aids)"
  by (induction aids) (auto intro!: keeps_intros)

lemma keeps_creator_level [keeps_intros]: "keeps_view store (creator_level room store event aids)"
  by (induction aids) (auto intro!: keeps_intros simp: Let_def)

lemma keeps_cached [keeps_intros]:
  "keeps_view store m \<Longrightarrow> keeps_view store (\<lambda>em. case em i of Some e \<Rightarrow> Some (Inr (em, f e)) | None \<Rightarrow> m em)"
  by (auto simp: keeps_view_def split: option.splits)

lemma keeps_collect [keeps_intros]:
  "keeps_view store (collect_auth_event room store aid acc)"
  "keeps_view store (collect_resolved room store ov key acc)"
  unfolding collect_auth_event_def collect_resolved_def
  by (intro keeps_intros keeps_cached [where f = Some] keeps_cached [where f = "\<lambda>e. e"])+

lemma keeps_iterative_auth_checks [keeps_intros]:
  "keeps_view store (iterative_auth_check x room rv store i ov)"
  "keeps_view store (iterative_auth_checks x room rv store ids base)"
  unfolding iterative_auth_checks_def iterative_auth_check_def
  by (intro keeps_intros)+

section \<open>What enters the resolved state\<close>

text \<open>The specification of one check, on plain maps. \<open>v\<close> is the view of the events that the cache and the
  database give together and \<open>st\<close> the state resolved so far. An event is checked against its own auth
  events that are known and not rejected, and over them against what \<open>st\<close> has under the auth types of
  the event, unless that is a rejected event.\<close>

definition own_key :: "event \<Rightarrow> state_key \<Rightarrow> bool" where
  "own_key e key \<longleftrightarrow> ev_type e = fst key \<and> ev_state_key e = Some (snd key)"

definition cited_event :: "evmap \<Rightarrow> event \<Rightarrow> state_key \<Rightarrow> event option" where
  "cited_event v event key =
     (case filter (\<lambda>e. own_key e key \<and> ev_rejected_reason e = None)
             (List.map_filter v (ev_auth_event_ids event)) of
        [] \<Rightarrow> None | es \<Rightarrow> Some (last es))"

definition resolved_event :: "evmap \<Rightarrow> (state_key \<rightharpoonup> string) \<Rightarrow> state_key set \<Rightarrow> state_key \<Rightarrow> event option" where
  "resolved_event v st ks key =
     (if key \<in> ks then
        (case Option.bind (st key) v of
           Some e \<Rightarrow> if ev_rejected_reason e = None then Some e else None | None \<Rightarrow> None)
      else None)"

definition checked_against :: "room_version \<Rightarrow> evmap \<Rightarrow> event \<Rightarrow> (state_key \<rightharpoonup> string) \<Rightarrow> event_state" where
  "checked_against rv v event st =
     cited_event v event ++
     (case auth_types_for_event rv event of Inr ks \<Rightarrow> resolved_event v st ks | Inl _ \<Rightarrow> Map.empty)"

definition auth_rules_pass :: "ext \<Rightarrow> event \<Rightarrow> event_state \<Rightarrow> bool" where
  "auth_rules_pass x event d \<longleftrightarrow>
     ev_type event = ET_Create \<or> (case state_dependent_rules x event d of Inr _ \<Rightarrow> True | Inl _ \<Rightarrow> False)"

definition auth_step :: "ext \<Rightarrow> room_version \<Rightarrow> evmap \<Rightarrow> (state_key \<rightharpoonup> string) \<Rightarrow> string \<Rightarrow> (state_key \<rightharpoonup> string)" where
  "auth_step x rv v st i =
     (case v i of
        Some event \<Rightarrow>
          (case ev_state_key event of
             Some k \<Rightarrow>
               if ev_rejected_reason event = None \<and> auth_rules_pass x event (checked_against rv v event st)
               then st((ev_type event, k) \<mapsto> i) else st
           | None \<Rightarrow> st)
      | None \<Rightarrow> st)"

text \<open>A state whose events are under their own type and state key.\<close>

definition keyed_state :: "evmap \<Rightarrow> (state_key \<rightharpoonup> string) \<Rightarrow> bool" where
  "keyed_state v st \<longleftrightarrow> (\<forall>key i e. st key = Some i \<longrightarrow> v i = Some e \<longrightarrow> own_key e key)"

lemma keyed_stateD: "keyed_state v st \<Longrightarrow> st key = Some i \<Longrightarrow> v i = Some e \<Longrightarrow> own_key e key"
  unfolding keyed_state_def by blast

lemma keyed_state_step: "keyed_state v st \<Longrightarrow> keyed_state v (auth_step x rv v st i)"
  by (auto simp: keyed_state_def auth_step_def own_key_def split: option.splits)

lemma keyed_state_foldl: "keyed_state v st \<Longrightarrow> keyed_state v (foldl (auth_step x rv v) st ids)"
  by (induction ids arbitrary: st) (simp_all add: keyed_state_step)

text \<open>The dictionary of auth events that the code collects, entry by entry.\<close>

definition auth_dict_ok :: "(state_key, event) dict \<Rightarrow> bool" where
  "auth_dict_ok d \<longleftrightarrow> dict_wf d \<and> (\<forall>(key, e) \<in> set d. own_key e key)"

lemma auth_dict_ok_set: "auth_dict_ok d \<Longrightarrow> own_key e key \<Longrightarrow> auth_dict_ok (dict_set key e d)"
  unfolding auth_dict_ok_def using dict_set_subset [of key e d] by auto

lemma auth_dict_of_dict:
  assumes "auth_dict_ok d"
  shows "auth_dict_of m (map snd d) = Inr (m ++ map_of d)"
  using assms
proof (induction d arbitrary: m)
  case (Cons y d)
  obtain k e where y: "y = (k, e)" by (cases y)
  have "auth_dict_ok d" "own_key e k" "map_of d k = None"
    using Cons.prems by (auto simp: auth_dict_ok_def dict_wf_def y map_of_eq_None_iff)
  note y' = this
  have "auth_dict_of m (map snd (y # d)) = auth_dict_of (m(k \<mapsto> e)) (map snd d)"
    using y'(2) by (simp add: y own_key_def state_key_attr_def)
  also have "\<dots> = Inr (m(k \<mapsto> e) ++ map_of d)" by (rule Cons.IH [OF y'(1)])
  also have "m(k \<mapsto> e) ++ map_of d = m ++ map_of (y # d)"
    using y'(3) by (auto simp: y map_add_def fun_eq_iff split: option.split)
  finally show ?case .
qed simp

lemma cached_or_fetched:
  assumes "(\<lambda>em. case em i of Some e \<Rightarrow> Some (Inr (em, Some e)) | None \<Rightarrow> get_event_opt room store i em) em =
    Some (Inr (em', oe))"
  shows "oe = (store ++ em) i"
proof (cases "em i")
  case (Some e)
  then have "oe = Some e" using assms by simp
  then show ?thesis using Some by simp
qed (use assms in \<open>auto dest: get_event_opt_Some\<close>)

lemma cached_or_fetched':
  assumes "(\<lambda>em. case em i of Some e \<Rightarrow> Some (Inr (em, e)) | None \<Rightarrow> get_event room store i em) em =
    Some (Inr (em', e))"
  shows "(store ++ em) i = Some e \<and> em' i = Some e"
proof (cases "em i")
  case (Some e')
  then have "e' = e" "em' = em" using assms by simp_all
  then show ?thesis using Some by simp
qed (use assms in \<open>auto dest: get_event_Some\<close>)

lemma collect_auth_event_run:
  assumes "collect_auth_event room store aid acc em = Some (Inr (em', acc'))" "auth_dict_ok acc"
  shows "auth_dict_ok acc'"
    and "map_of acc' key =
      (case filter (\<lambda>e. own_key e key \<and> ev_rejected_reason e = None) (List.map_filter (store ++ em) [aid]) of
         [] \<Rightarrow> map_of acc key | es \<Rightarrow> Some (last es))"
proof -
  define v where "v = store ++ em"
  from assms(1) obtain em1 oe where oe: "oe = v aid"
    and rest: "(case oe of None \<Rightarrow> retS acc
     | Some e \<Rightarrow> if ev_rejected_reason e = None then
           bindS (liftS (state_key_attr e)) (\<lambda>k. retS (dict_set (ev_type e, k) e acc))
         else retS acc) em1 = Some (Inr (em', acc'))"
    unfolding collect_auth_event_def bindS_Some_Inr v_def by (blast dest: cached_or_fetched)
  have "auth_dict_ok acc' \<and> map_of acc' key =
      (case filter (\<lambda>e. own_key e key \<and> ev_rejected_reason e = None) (List.map_filter v [aid]) of
         [] \<Rightarrow> map_of acc key | es \<Rightarrow> Some (last es))"
  proof (cases oe)
    case None
    then show ?thesis using rest oe [symmetric] assms(2) by (simp add: retS_def map_filter_simps)
  next
    case (Some e)
    show ?thesis
    proof (cases "ev_rejected_reason e = None")
      case True
      with rest Some obtain k where k: "ev_state_key e = Some k" "acc' = dict_set (ev_type e, k) e acc"
        by (auto simp: bindS_Some_Inr liftS_Some_Inr retS_def state_key_attr_def split: option.splits)
      then have "auth_dict_ok acc'"
        using auth_dict_ok_set [OF assms(2), of e "(ev_type e, k)"] by (simp add: own_key_def)
      moreover have "own_key e key \<longleftrightarrow> key = (ev_type e, k)"
        using k(1) by (cases key) (auto simp: own_key_def)
      ultimately show ?thesis
        using k(2) True Some oe [symmetric] by (simp add: map_filter_simps)
    next
      case False
      then have "acc' = acc" using rest Some by (auto simp: retS_def)
      then show ?thesis using False Some oe [symmetric] assms(2) by (auto simp: map_filter_simps)
    qed
  qed
  then show "auth_dict_ok acc'" "map_of acc' key =
      (case filter (\<lambda>e. own_key e key \<and> ev_rejected_reason e = None) (List.map_filter (store ++ em) [aid]) of
         [] \<Rightarrow> map_of acc key | es \<Rightarrow> Some (last es))" unfolding v_def by blast+
qed

lemma last_cited_Cons:
  "(case filter P (List.map_filter v (a # aids)) of [] \<Rightarrow> d | es \<Rightarrow> Some (last es)) =
   (case filter P (List.map_filter v aids) of
      [] \<Rightarrow> (case filter P (List.map_filter v [a]) of [] \<Rightarrow> d | es \<Rightarrow> Some (last es))
    | es \<Rightarrow> Some (last es))"
  by (cases "v a") (auto simp: map_filter_simps split: list.split)

lemma collect_auth_events_run:
  assumes "foldS (collect_auth_event room store) aids acc em = Some (Inr (em', acc'))" "auth_dict_ok acc"
  shows "auth_dict_ok acc' \<and> map_of acc' key =
      (case filter (\<lambda>e. own_key e key \<and> ev_rejected_reason e = None) (List.map_filter (store ++ em) aids) of
         [] \<Rightarrow> map_of acc key | es \<Rightarrow> Some (last es))"
  using assms
proof (induction aids arbitrary: acc em)
  case (Cons a aids)
  then obtain em1 acc1 where one: "collect_auth_event room store a acc em = Some (Inr (em1, acc1))"
    and rest: "foldS (collect_auth_event room store) aids acc1 em1 = Some (Inr (em', acc'))"
    by (auto simp: bindS_Some_Inr)
  have view: "store ++ em1 = store ++ em" using keeps_viewD [OF keeps_collect(1) one] by simp
  note run = collect_auth_event_run [OF one Cons.prems(2)]
  from Cons.IH [OF rest run(1)] show ?case
    unfolding view run(2) [of key] last_cited_Cons [where a = a and aids = aids] .
qed (simp add: retS_def map_filter_simps)

lemma collect_resolved_run:
  assumes "collect_resolved room store ov key acc em = Some (Inr (em', acc'))" "auth_dict_ok acc"
    and "keyed_state (store ++ em) (overlay_map ov)"
  shows "auth_dict_ok acc' \<and>
    map_of acc' = map_of acc ++ resolved_event (store ++ em) (overlay_map ov) {key}"
proof (cases "overlay_map ov key")
  case None
  then show ?thesis
    using assms(1,2) by (auto simp: collect_resolved_def overlay_getitem_map retS_def resolved_event_def fun_eq_iff
        map_add_def split: option.splits)
next
  case (Some i)
  have "overlay_getitem ov key = Inr i" using Some by (simp add: overlay_getitem_map)
  with assms(1) obtain em1 e where e: "(store ++ em) i = Some e \<and> em1 i = Some e"
    and rest: "(if ev_rejected_reason e = None then bindS (event_map_item i) (\<lambda>e. retS (dict_set key e acc))
      else retS acc) em1 = Some (Inr (em', acc'))"
    unfolding collect_resolved_def
    by (simp add: bindS_Some_Inr [of "\<lambda>em. case em i of None \<Rightarrow> get_event room store i em | Some e \<Rightarrow> Some (Inr (em, e))"])
      (blast dest: cached_or_fetched')
  have "own_key e key" by (rule keyed_stateD [OF assms(3) Some conjunct1 [OF e]])
  moreover have "resolved_event (store ++ em) (overlay_map ov) {key} =
      (if ev_rejected_reason e = None then [key \<mapsto> e] else Map.empty)"
    unfolding resolved_event_def fun_eq_iff using Some by (auto simp: conjunct1 [OF e])
  ultimately show ?thesis
    using rest conjunct2 [OF e] assms(2) auth_dict_ok_set [of acc e key]
    by (auto simp: bindS_Some_Inr event_map_item_def retS_def split: if_splits)
qed

lemma resolved_event_insert:
  "resolved_event v st (insert key ks) = resolved_event v st {key} ++ resolved_event v st ks"
  by (auto simp: resolved_event_def fun_eq_iff map_add_def split: option.splits)

lemma resolved_events_run:
  assumes "foldS (collect_resolved room store ov) keys acc em = Some (Inr (em', acc'))" "auth_dict_ok acc"
    and "keyed_state (store ++ em) (overlay_map ov)"
  shows "auth_dict_ok acc' \<and> map_of acc' = map_of acc ++ resolved_event (store ++ em) (overlay_map ov) (set keys)"
  using assms
proof (induction keys arbitrary: acc em)
  case (Cons k keys)
  then obtain em1 acc1 where one: "collect_resolved room store ov k acc em = Some (Inr (em1, acc1))"
    and rest: "foldS (collect_resolved room store ov) keys acc1 em1 = Some (Inr (em', acc'))"
    by (auto simp: bindS_Some_Inr)
  have view: "store ++ em1 = store ++ em" using keeps_viewD [OF keeps_collect(2) one] by simp
  note run = collect_resolved_run [OF one Cons.prems(2,3)]
  show ?case
    using Cons.IH [OF rest] run Cons.prems(3) unfolding view
    by (simp add: resolved_event_insert [of _ _ k "set keys"])
qed (simp add: retS_def resolved_event_def fun_eq_iff map_add_def)

lemma json_state_key_finite: "json_state_key t k = Inr s \<Longrightarrow> finite s"
  by (auto simp: json_state_key_def split: json.splits if_splits)

lemma auth_types_finite:
  assumes "auth_types_for_event rv event = Inr ks"
  shows "finite ks"
proof (cases "ev_type event = ET_Member")
  case True
  with assms obtain m k tk ak where
    "(if eq_str m M_INVITE then
        (case map_of (ev_content event) ''third_party_invite'' of
           None \<Rightarrow> Inr {}
         | Some tpi \<Rightarrow>
             bindR (py_getitem tpi (JStr ''signed'')) (\<lambda>signed.
             bindR (py_getitem signed (JStr ''token'')) (json_state_key ET_ThirdPartyInvite)))
      else Inr {}) = Inr tk"
    and "(if rv_restricted_join_rule rv \<and> eq_str m M_JOIN then
        (case map_of (ev_content event) F_AUTHORISING_USER of
           None \<Rightarrow> Inr {} | Some u \<Rightarrow> json_state_key ET_Member u)
      else Inr {}) = Inr ak"
    and ks: "ks = {(ET_PowerLevels, ''''), (ET_Member, ev_sender event), CREATE_KEY} \<union>
      (if m \<in> {JStr M_JOIN, JStr M_INVITE, JStr M_KNOCK} then {(ET_JoinRules, '''')} else {}) \<union>
      {(ET_Member, k)} \<union> tk \<union> ak"
    unfolding auth_types_for_event_def Let_def
    by (simp add: bindR_eq_Inr split del: if_split) blast
  then have "finite tk" "finite ak"
    by (auto simp: bindR_eq_Inr dest: json_state_key_finite split: if_splits option.splits)
  then show ?thesis by (simp add: ks)
qed (use assms in \<open>auto simp: auth_types_for_event_def Let_def split: if_splits\<close>)

text \<open>One iteration of the code is one step of the specification.\<close>

lemma iterative_auth_check_step:
  assumes "iterative_auth_check x room rv store i ov em = Some (Inr (em', ov'))"
    and "keyed_state (store ++ em) (overlay_map ov)"
  shows "overlay_map ov' = auth_step x rv (store ++ em) (overlay_map ov) i"
proof -
  from assms(1) obtain em0 event em1 auth1 em2 ks em3 auth where
    it: "event_map_item i em = Some (Inr (em0, event))"
    and a1: "foldS (collect_auth_event room store) (ev_auth_event_ids event) [] em0 = Some (Inr (em1, auth1))"
    and ks: "liftS (auth_types_for_event rv event) em1 = Some (Inr (em2, ks))"
    and a2: "foldS (collect_resolved room store ov) (sorted_list_of_set ks) auth1 em2 = Some (Inr (em3, auth))"
    and rest: "(if ev_rejected_reason event \<noteq> None then retS ov
     else (case check_state_dependent_auth_rules x event (map snd auth) of
          Inl e \<Rightarrow> if is_auth_error e then retS ov else raiseS e
        | Inr _ \<Rightarrow> bindS (liftS (state_key_attr event)) (\<lambda>k.
            retS (overlay_setitem ov (ev_type event, k) i)))) em3 = Some (Inr (em', ov'))"
    unfolding iterative_auth_check_def bindS_Some_Inr [of "event_map_item i"]
      bindS_Some_Inr [of "foldS f xs acc" for f xs acc] bindS_Some_Inr [of "liftS (auth_types_for_event rv e)" for e]
    by blast
  from it have ev: "em i = Some event" "em0 = em"
    by (auto simp: event_map_item_def split: option.splits)
  then have vi: "(store ++ em) i = Some event" by simp
  have ks': "auth_types_for_event rv event = Inr ks" "em2 = em1"
    using ks by (auto simp: liftS_Some_Inr)
  have view: "store ++ em1 = store ++ em"
    using keeps_viewD [OF keeps_foldS [OF keeps_collect(1)] a1] ev(2) by simp
  have ok0: "auth_dict_ok []" by (simp add: auth_dict_ok_def dict_wf_def)
  have auth1: "auth_dict_ok auth1" "map_of auth1 = cited_event (store ++ em) event"
    using collect_auth_events_run [OF a1 ok0] by (auto simp: ev(2) cited_event_def fun_eq_iff split: list.split)
  have "auth_dict_ok auth" "map_of auth = checked_against rv (store ++ em) event (overlay_map ov)"
    using resolved_events_run [OF a2 auth1(1)] assms(2) auth_types_finite [OF ks'(1)] auth1(2)
    by (simp_all add: ks' view checked_against_def)
  then have "check_state_dependent_auth_rules x event (map snd auth) =
      (if ev_type event = ET_Create then Inr event
       else state_dependent_rules x event (checked_against rv (store ++ em) event (overlay_map ov)))"
    by (simp add: check_state_dependent_auth_rules_def auth_dict_of_dict)
  then show ?thesis
    using rest vi
    by (auto simp: auth_step_def auth_rules_pass_def bindS_Some_Inr liftS_Some_Inr retS_def raiseS_def
        state_key_attr_def overlay_setitem_map split: if_splits sum.splits option.splits)
qed

lemma iterative_auth_checks_fold:
  assumes "iterative_auth_checks x room rv store ids base em = Some (Inr (em', ov))"
    and "keyed_state (store ++ em) (overlay_map base)"
  shows "overlay_map ov = foldl (auth_step x rv (store ++ em)) (overlay_map base) ids"
proof -
  have "overlay_map ov = foldl (auth_step x rv (store ++ em)) (overlay_map b) ids"
    if "foldS (iterative_auth_check x room rv store) ids b em = Some (Inr (em', ov))"
      "keyed_state (store ++ em) (overlay_map b)" for b
    using that
  proof (induction ids arbitrary: b em)
    case (Cons i ids)
    then obtain em1 b1 where one: "iterative_auth_check x room rv store i b em = Some (Inr (em1, b1))"
      and rest: "foldS (iterative_auth_check x room rv store) ids b1 em1 = Some (Inr (em', ov))"
      by (auto simp: bindS_Some_Inr)
    have view: "store ++ em1 = store ++ em"
      using keeps_viewD [OF keeps_iterative_auth_checks(1) one] by simp
    note b1 = iterative_auth_check_step [OF one Cons.prems(2)]
    show ?case
      using Cons.IH [OF rest] keyed_state_step [OF Cons.prems(2)] by (simp add: view b1)
  qed (simp add: retS_def)
  from this [of "overlay_new base"] assms show ?thesis
    by (simp add: iterative_auth_checks_def)
qed

text \<open>What may be in the state after the checks: what was there, or an event that was not rejected and
  passed the rules at its turn, under its own key.\<close>

definition admitted ::
  "ext \<Rightarrow> room_version \<Rightarrow> evmap \<Rightarrow> (state_key \<rightharpoonup> string) \<Rightarrow> string list \<Rightarrow> state_key \<Rightarrow> string \<Rightarrow> bool" where
  "admitted x rv v base order key i \<longleftrightarrow>
     (\<exists>before after event. order = before @ i # after \<and> v i = Some event \<and> ev_rejected_reason event = None \<and>
        own_key event key \<and>
        auth_rules_pass x event (checked_against rv v event (foldl (auth_step x rv v) base before)))"

lemma auth_step_cases:
  assumes "auth_step x rv v st j key = Some i"
  shows "st key = Some i \<or> j = i \<and> (\<exists>event. v i = Some event \<and> ev_rejected_reason event = None \<and>
    own_key event key \<and> auth_rules_pass x event (checked_against rv v event st))"
  using assms by (auto simp: auth_step_def own_key_def split: option.splits if_splits)

lemma foldl_auth_step_admitted:
  assumes "foldl (auth_step x rv v) base order key = Some i"
  shows "base key = Some i \<or> admitted x rv v base order key i"
  using assms
proof (induction order rule: rev_induct)
  case (snoc j order)
  show ?case
  proof (cases "foldl (auth_step x rv v) base order key = Some i")
    case True
    then show ?thesis using snoc.IH unfolding admitted_def by fastforce
  next
    case False
    have "j = i \<and> (\<exists>event. v i = Some event \<and> ev_rejected_reason event = None \<and> own_key event key \<and>
        auth_rules_pass x event (checked_against rv v event (foldl (auth_step x rv v) base order)))"
      using auth_step_cases [of x rv v "foldl (auth_step x rv v) base order" j key i] snoc.prems False by simp
    then show ?thesis unfolding admitted_def by blast
  qed
qed simp

section \<open>The mainline\<close>

lemma keeps_mainline_step [keeps_intros]: "keeps_view store (mainline_step room store pl)"
  unfolding mainline_step_def by (intro keeps_intros)

lemma mainline_loop_view:
  assumes "mainline_loop room store pl acc em = Some r"
  shows "\<forall>em' y. r = Inr (em', y) \<longrightarrow> store ++ em' = store ++ em \<and> em \<subseteq>\<^sub>m em'"
proof (rule mainline_loop.raw_induct [OF _ assms, where P = "\<lambda>room store pl acc em r.
    \<forall>em' y. r = Inr (em', y) \<longrightarrow> store ++ em' = store ++ em \<and> em \<subseteq>\<^sub>m em'"], goal_cases)
  case (1 loop room store pl acc em r)
  show ?case
  proof (cases "pl = None \<or> pl = Some ''''")
    case False
    obtain s where s: "mainline_step room store (the pl) em = Some s"
      using totalSD [OF total_mainline_step] by blast
    show ?thesis
    proof (cases s)
      case (Inl e)
      with 1(2) False s show ?thesis by auto
    next
      case (Inr q)
      then obtain em1 pl1 where q: "s = Inr (em1, pl1)" by (cases q) auto
      have v: "store ++ em1 = store ++ em \<and> em \<subseteq>\<^sub>m em1"
        using s q keeps_viewD [OF keeps_mainline_step] by blast
      have l: "loop room store pl1 (acc @ [the pl]) em1 = Some r"
        using 1(2) False s q by simp
      from 1(1) [OF l] v show ?thesis by (auto intro: map_le_trans)
    qed
  qed (use 1(2) in auto)
qed

lemma mainline_depth_loop_view:
  assumes "mainline_depth_loop room store mm t em = Some r"
  shows "\<forall>em' y. r = Inr (em', y) \<longrightarrow> store ++ em' = store ++ em \<and> em \<subseteq>\<^sub>m em'"
proof (rule mainline_depth_loop.raw_induct [OF _ assms, where P = "\<lambda>room store mm t em r.
    \<forall>em' y. r = Inr (em', y) \<longrightarrow> store ++ em' = store ++ em \<and> em \<subseteq>\<^sub>m em'"], goal_cases)
  case (1 loop room store mm t em r)
  show ?case
  proof (cases t)
    case (Some e)
    show ?thesis
    proof (cases "map_of mm (ev_event_id e)")
      case None
      obtain s where s: "find_pl_auth room store (ev_auth_event_ids e) em = Some s"
        using totalSD [OF total_find_pl_auth] by blast
      show ?thesis
      proof (cases s)
        case (Inl err)
        with 1(2) Some None s show ?thesis by auto
      next
        case (Inr q)
        then obtain em1 nx where q: "s = Inr (em1, nx)" by (cases q) auto
        have v: "store ++ em1 = store ++ em \<and> em \<subseteq>\<^sub>m em1"
          using s q keeps_viewD [OF keeps_find_pl_auth] by blast
        have l: "loop room store mm (map_option snd nx) em1 = Some r"
          using 1(2) Some None s q by simp
        from 1(1) [OF l] v show ?thesis by (auto intro: map_le_trans)
      qed
    qed (use 1(2) Some in auto)
  qed (use 1(2) in auto)
qed

lemma keeps_mainline [keeps_intros]:
  "keeps_view store (mainline_loop room store pl acc)"
  "keeps_view store (get_mainline_depth_for_event store event mm)"
  using mainline_loop_view mainline_depth_loop_view
  unfolding keeps_view_def get_mainline_depth_for_event_def by blast+

lemma keeps_mainline_sort [keeps_intros]: "keeps_view store (mainline_sort room store ids pl)"
  unfolding mainline_sort_def mainline_order_def by (intro keeps_intros)

text \<open>Auth events come before the events that cite them.\<close>

definition auth_rel :: "evmap \<Rightarrow> (string \<times> string) set" where
  "auth_rel v = {(a, b). \<exists>e. v b = Some e \<and> a \<in> set (ev_auth_event_ids e)}"

lemma find_pl_auth_Some:
  "find_pl_auth room store aids em = Some (Inr (em', Some (aid, e))) \<Longrightarrow>
   aid \<in> set aids \<and> (store ++ em) aid = Some e"
proof (induction aids arbitrary: em)
  case (Cons a aids)
  from Cons.prems obtain em1 oe where g: "get_event_opt room store a em = Some (Inr (em1, oe))"
    and rest: "(case oe of None \<Rightarrow> find_pl_auth room store aids
       | Some e \<Rightarrow> bindS (liftS (has_key e PL_KEY)) (\<lambda>is_pl.
           if is_pl then retS (Some (a, e)) else find_pl_auth room store aids)) em1 = Some (Inr (em', Some (aid, e)))"
    by (auto simp: bindS_Some_Inr)
  have oe: "(store ++ em) a = oe" and view: "store ++ em1 = store ++ em"
    using get_event_opt_Some [OF g] view_upd [of store em a] by simp_all
  define v where "v = store ++ em"
  have "aid \<in> set (a # aids) \<and> v aid = Some e"
    using rest oe [folded v_def] Cons.IH [of em1, unfolded view, folded v_def]
    by (cases oe) (auto simp: bindS_Some_Inr liftS_Some_Inr retS_def split: if_splits)
  then show ?case by (simp add: v_def)
qed (simp add: retS_def)

lemma mainline_loop_total:
  assumes "wf (auth_rel v)" "store ++ em = v"
  shows "mainline_loop room store pl acc em \<noteq> None"
proof (cases pl)
  case (Some i)
  have "mainline_loop room store (Some i) acc em \<noteq> None"
    using assms(1,2)
  proof (induction i arbitrary: acc em rule: wf_induct_rule)
    case (less i)
    have "mainline_loop room store pl' acc' em' \<noteq> None"
      if step: "mainline_step room store i em = Some (Inr (em', pl'))" for em' pl' acc'
    proof (cases pl')
      case (Some a)
      have view: "store ++ em' = v"
        using keeps_viewD [OF keeps_mainline_step step] less.prems by simp
      from step Some obtain em1 ev e where "get_event room store i em = Some (Inr (em1, ev))"
        and fp: "find_pl_auth room store (ev_auth_event_ids ev) em1 = Some (Inr (em', Some (a, e)))"
        by (auto simp: mainline_step_def bindS_Some_Inr retS_def)
      then have "v i = Some ev" using get_event_Some less.prems by auto
      then have "(a, i) \<in> auth_rel v"
        using find_pl_auth_Some [OF fp] by (auto simp: auth_rel_def)
      then show ?thesis using less.IH view Some by auto
    qed (simp add: mainline_loop.simps)
    then show ?case
      using totalSD [OF total_mainline_step, of room store i em]
      by (subst mainline_loop.simps) (auto split: option.splits sum.splits)
  qed
  then show ?thesis using Some by simp
qed (simp add: mainline_loop.simps)

lemma mainline_depth_loop_total:
  assumes "wf (auth_rel v)" "store ++ em = v"
  shows "mainline_depth_loop room store mm t em \<noteq> None"
proof -
  have step: "mainline_depth_loop room store mm (Some e) em \<noteq> None"
    if view: "store ++ em = v" and IH: "\<And>a ea em'. a \<in> set (ev_auth_event_ids e) \<Longrightarrow> v a = Some ea \<Longrightarrow>
      store ++ em' = v \<Longrightarrow> mainline_depth_loop room store mm (Some ea) em' \<noteq> None" for e em
  proof -
    have nx: "mainline_depth_loop room store mm (map_option snd nx) em1 \<noteq> None"
      if "find_pl_auth room store (ev_auth_event_ids e) em = Some (Inr (em1, nx))" for em1 nx
    proof (cases nx)
      case (Some p)
      then obtain a ea where p: "nx = Some (a, ea)" by (cases p) auto
      have "store ++ em1 = v" using keeps_viewD [OF keeps_find_pl_auth that] view by simp
      then show ?thesis
        using IH [of a ea em1] find_pl_auth_Some [of room store "ev_auth_event_ids e" em em1 a ea] that p view
        by simp
    qed (simp add: mainline_depth_loop.simps)
    obtain s where s: "find_pl_auth room store (ev_auth_event_ids e) em = Some s"
      using totalSD [OF total_find_pl_auth] by blast
    show ?thesis
      using nx s by (subst mainline_depth_loop.simps) (auto split: option.splits sum.splits)
  qed
  have "mainline_depth_loop room store mm (Some e) em \<noteq> None" if "v i = Some e" "store ++ em = v" for i e em
    using assms(1) that
  proof (induction i arbitrary: e em rule: wf_induct_rule)
    case (less i)
    show ?case
      by (rule step [OF less.prems(2)]) (use less in \<open>auto simp: auth_rel_def\<close>)
  qed
  then show ?thesis
    using step [OF assms(2)] by (cases t) (auto simp: mainline_depth_loop.simps [of _ _ _ None])
qed

section \<open>The power sort\<close>

lemma add_event_total:
  assumes "chain_inv (store ++ em) full [] g"
  shows "add_event_and_auth_chain_to_graph room store full i g em \<noteq> None"
    and "add_event_and_auth_chain_to_graph room store full i g em = Some (Inr (em', g')) \<Longrightarrow>
      chain_inv (store ++ em) full [] g' \<and> store ++ em' = store ++ em \<and> em \<subseteq>\<^sub>m em' \<and>
      insert i (gnodes g) \<subseteq> gnodes g' \<and> gnodes g' \<subseteq> insert i (gnodes g) \<union> set full"
proof -
  have "chain_inv (store ++ em) full [i] g"
    using assms by (auto simp: chain_inv_def Cons_eq_append_conv)
  from add_chain_loop_total [OF this, of room] show
    "add_event_and_auth_chain_to_graph room store full i g em \<noteq> None"
    "add_event_and_auth_chain_to_graph room store full i g em = Some (Inr (em', g')) \<Longrightarrow>
      chain_inv (store ++ em) full [] g' \<and> store ++ em' = store ++ em \<and> em \<subseteq>\<^sub>m em' \<and>
      insert i (gnodes g) \<subseteq> gnodes g' \<and> gnodes g' \<subseteq> insert i (gnodes g) \<union> set full"
    by (auto simp: add_event_and_auth_chain_to_graph_def)
qed

lemma power_graph:
  assumes "chain_inv (store ++ em) full [] g"
  shows "foldS (add_event_and_auth_chain_to_graph room store full) ids g em \<noteq> None \<and>
    (\<forall>em' g'. foldS (add_event_and_auth_chain_to_graph room store full) ids g em = Some (Inr (em', g')) \<longrightarrow>
      chain_inv (store ++ em) full [] g' \<and> store ++ em' = store ++ em \<and> em \<subseteq>\<^sub>m em' \<and>
      set ids \<union> gnodes g \<subseteq> gnodes g' \<and> gnodes g' \<subseteq> set ids \<union> gnodes g \<union> set full)"
  using assms
proof (induction ids arbitrary: g em)
  case (Cons i ids)
  note T = add_event_total [OF Cons.prems, of room i]
  have step: "foldS (add_event_and_auth_chain_to_graph room store full) ids g1 em1 \<noteq> None \<and>
    (\<forall>em' g'. foldS (add_event_and_auth_chain_to_graph room store full) ids g1 em1 = Some (Inr (em', g')) \<longrightarrow>
      chain_inv (store ++ em) full [] g' \<and> store ++ em' = store ++ em \<and> em \<subseteq>\<^sub>m em' \<and>
      set (i # ids) \<union> gnodes g \<subseteq> gnodes g' \<and> gnodes g' \<subseteq> set (i # ids) \<union> gnodes g \<union> set full)"
    if run: "add_event_and_auth_chain_to_graph room store full i g em = Some (Inr (em1, g1))" for em1 g1
  proof -
    have st: "chain_inv (store ++ em1) full [] g1" "store ++ em1 = store ++ em" "em \<subseteq>\<^sub>m em1"
      "insert i (gnodes g) \<subseteq> gnodes g1" "gnodes g1 \<subseteq> insert i (gnodes g) \<union> set full"
      using T(2) [OF run] by simp_all
    have "set (i # ids) \<union> gnodes g \<subseteq> set ids \<union> gnodes g1"
      "set ids \<union> gnodes g1 \<union> set full \<subseteq> set (i # ids) \<union> gnodes g \<union> set full"
      using st(4,5) by auto
    with Cons.IH [OF st(1)] st(2,3) show ?thesis
      by (metis (no_types, lifting) map_le_trans subset_trans)
  qed
  show ?case
  proof (intro conjI allI impI)
    show "foldS (add_event_and_auth_chain_to_graph room store full) (i # ids) g em \<noteq> None"
      using T(1) step by (simp add: bindS_None)
  qed (use step in \<open>simp add: bindS_Some_Inr, blast\<close>)+
qed (auto simp: retS_def)

lemma chain_inv_Nil: "chain_inv v full [] []"
  by (simp add: chain_inv_def gnodes_def)

lemma power_sort_run:
  assumes "reverse_topological_power_sort room store ids full em = Some (Inr (em', xs))"
  obtains g key where "chain_inv (store ++ em) full [] g" "set ids \<subseteq> gnodes g" "gnodes g \<subseteq> set ids \<union> set full"
    "lexicographical_topological_sort g (key :: string \<Rightarrow> int \<times> int \<times> string) = Some xs"
    "store ++ em' = store ++ em" "em \<subseteq>\<^sub>m em'"
proof -
  from assms obtain em1 g em2 pls where
    fold: "foldS (add_event_and_auth_chain_to_graph room store full) ids [] em = Some (Inr (em1, g))"
    and pls: "mapS (\<lambda>event_id. bindS (get_power_level_for_sender room store event_id) (\<lambda>pl.
              retS (event_id, pl))) (map fst g) em1 = Some (Inr (em2, pls))"
    and topo: "topo_sort_events g pls em2 = Some (Inr (em', xs))"
    unfolding reverse_topological_power_sort_def bindS_Some_Inr [of "foldS f y acc" for f y acc]
      bindS_Some_Inr [of "mapS f y" for f y] by blast
  have G: "chain_inv (store ++ em) full [] g" "store ++ em1 = store ++ em" "em \<subseteq>\<^sub>m em1" "set ids \<subseteq> gnodes g"
    "gnodes g \<subseteq> set ids \<union> set full"
    using power_graph [OF chain_inv_Nil, where store = store and em = em and full = full and room = room and ids = ids] fold
    by (auto simp: gnodes_def)
  have "keeps_view store (mapS (\<lambda>event_id. bindS (get_power_level_for_sender room store event_id) (\<lambda>pl.
              retS (event_id, pl))) (map fst g))"
    unfolding get_power_level_for_sender_def scan_auth_event_def split_beta by (intro keeps_intros)
  from keeps_viewD [OF this pls] G(2,3) have "store ++ em2 = store ++ em" "em \<subseteq>\<^sub>m em2"
    by (auto intro: map_le_trans)
  with topo G that [of g "power_order em2 pls"] show thesis
    by (auto simp: topo_sort_events_def)
qed

lemma power_sort_total: "totalS (reverse_topological_power_sort room store ids full)"
  unfolding totalS_def
proof (intro allI notI)
  fix em
  assume none: "reverse_topological_power_sort room store ids full em = None"
  have fold: "foldS (add_event_and_auth_chain_to_graph room store full) ids [] em \<noteq> None"
    using power_graph [OF chain_inv_Nil] by blast
  have lvl: "totalS (mapS (\<lambda>event_id. bindS (get_power_level_for_sender room store event_id) (\<lambda>pl.
      retS (event_id, pl))) ys)" for ys
    by (intro total_intros)
  from none fold obtain em1 g em2 pls where
    "foldS (add_event_and_auth_chain_to_graph room store full) ids [] em = Some (Inr (em1, g))"
    "topo_sort_events g pls em2 = None"
    unfolding reverse_topological_power_sort_def bindS_None using totalSD [OF lvl] by blast
  moreover from this(1) have "dict_wf g"
    using power_graph [OF chain_inv_Nil, where store = store and em = em and full = full and room = room and ids = ids] by (auto simp: chain_inv_def)
  ultimately show False
    using topo_sort_greedy [of g "power_order em2 pls"] by (auto simp: topo_sort_events_def)
qed

text \<open>C11: the order of the power events. Given that auth events never form a cycle, a successful sort
  yields each event once; all the given power events are there, with every auth event of theirs that
  is conflicted, and each one comes after its own conflicted auth events. Fetching has not changed
  what any identifier denotes.\<close>

theorem reverse_topological_power_sort_correct:
  assumes "reverse_topological_power_sort room store ids full em = Some (Inr (em', xs))"
    and "wf (auth_rel (store ++ em))"
  shows "distinct xs \<and> set ids \<subseteq> set xs \<and> set xs \<subseteq> set ids \<union> set full \<and>
    (\<forall>ys n zs. xs = ys @ n # zs \<longrightarrow> kids (store ++ em) full n \<subseteq> set ys) \<and> store ++ em' = store ++ em"
proof -
  from assms(1) obtain g key where g: "chain_inv (store ++ em) full [] g" "set ids \<subseteq> gnodes g"
    "gnodes g \<subseteq> set ids \<union> set full"
    and topo: "lexicographical_topological_sort g (key :: string \<Rightarrow> int \<times> int \<times> string) = Some xs"
    and view: "store ++ em' = store ++ em"
    by (rule power_sort_run)
  have edges: "n \<in> gnodes g \<Longrightarrow> set (edges_of g n) = kids (store ++ em) full n \<and> kids (store ++ em) full n \<subseteq> gnodes g" for n
    using g(1) by (simp add: chain_inv_def)
  have "greedy g key {} xs"
    using topo_sort_greedy [of g key] topo g(1) by (auto simp: chain_inv_def)
  moreover have "wf {(m, n). n \<in> gnodes g \<and> m \<in> set (edges_of g n)}"
    by (rule wf_subset [OF assms(2)])
      (auto simp: edges auth_rel_def kids_def split: option.splits)
  ultimately have G: "distinct xs" "set xs = gnodes g" "\<And>ys n zs. xs = ys @ n # zs \<Longrightarrow> set (edges_of g n) \<subseteq> set ys"
    using greedy_distinct greedy_complete [of g key "{}" xs] greedy_order [of g key "{}" xs] edges
    by blast+
  then have "xs = ys @ n # zs \<longrightarrow> kids (store ++ em) full n \<subseteq> set ys" for ys n zs
    using edges [of n] by (metis in_set_conv_decomp)
  with G g view show ?thesis by simp
qed

text \<open>A concrete conflict: two power levels events that both cite the first one.\<close>

definition sample_pl :: "string \<Rightarrow> string list \<Rightarrow> int \<Rightarrow> event" where
  "sample_pl i auth ts = sample_levels\<lparr>ev_event_id := i, ev_auth_event_ids := auth, ev_origin_server_ts := ts\<rparr>"

definition sample_evmap :: evmap where
  "sample_evmap = [''$create'' \<mapsto> sample_create, ''$m@a:x'' \<mapsto> sample_member ''@a:x'' ''@a:x'' M_JOIN,
     ''$p1'' \<mapsto> sample_pl ''$p1'' [''$create'', ''$m@a:x''] 1,
     ''$p2'' \<mapsto> sample_pl ''$p2'' [''$create'', ''$m@a:x'', ''$p1''] 2]"

lemma sample_auth_wf: "wf (auth_rel (Map.empty ++ sample_evmap))"
proof (rule wf_subset [OF wf_measure])
  show "auth_rel (Map.empty ++ sample_evmap) \<subseteq>
    measure (\<lambda>i. if i = ''$p2'' then 2 else if i = ''$p1'' then 1 else 0)"
    by (auto simp: auth_rel_def sample_evmap_def sample_pl_def sample_defs split: if_splits)
qed

theorem reverse_topological_power_sort_correct_witness:
  "\<exists>em'. reverse_topological_power_sort ''!r:x'' Map.empty [''$p2''] [''$p1'', ''$p2''] sample_evmap =
      Some (Inr (em', [''$p1'', ''$p2''])) \<and> distinct [''$p1'', ''$p2''] \<and>
    kids (Map.empty ++ sample_evmap) [''$p1'', ''$p2''] ''$p2'' \<subseteq> {''$p1''}"
proof -
  have "map_option (map_sum id snd)
      (reverse_topological_power_sort ''!r:x'' Map.empty [''$p2''] [''$p1'', ''$p2''] sample_evmap) =
      Some (Inr [''$p1'', ''$p2''])"
    by code_simp
  then obtain em' where run: "reverse_topological_power_sort ''!r:x'' Map.empty [''$p2'']
      [''$p1'', ''$p2''] sample_evmap = Some (Inr (em', [''$p1'', ''$p2'']))"
    unfolding erase_eq_Some_Inr by blast
  from reverse_topological_power_sort_correct [OF run sample_auth_wf] run show ?thesis
    by (metis append_Cons append_Nil list.set(1) list.simps(15))
qed

section \<open>The resolution of the conflicted set\<close>

lemma mapS_ids:
  assumes "mapS f xs em = Some (Inr (em', ys))"
    and "\<And>y em em' z. f y em = Some (Inr (em', z)) \<Longrightarrow> g z = y"
  shows "map g ys = xs"
  using assms(1)
proof (induction xs arbitrary: em ys)
  case (Cons x xs)
  then show ?case using assms(2) by (fastforce simp: bindS_Some_Inr retS_def)
qed (simp add: retS_def)

lemma mainline_sort_perm:
  assumes "mainline_sort room store ids pl em = Some (Inr (em', xs))"
  shows "mset xs = mset ids"
proof (cases "ids = []")
  case False
  with assms obtain em1 mm em2 orders where
    o: "mapS (mainline_order store (mainline_map mm)) ids em1 = Some (Inr (em2, orders))"
    and xs: "xs = map (snd \<circ> snd) (sort orders)"
    by (auto simp: mainline_sort_def bindS_Some_Inr retS_def)
  have "map (snd \<circ> snd) orders = ids"
    by (rule mapS_ids [OF o]) (auto simp: mainline_order_def bindS_Some_Inr retS_def)
  moreover have "mset (map (snd \<circ> snd) (sort orders)) = mset (map (snd \<circ> snd) orders)"
    by simp
  ultimately show ?thesis by (simp add: xs)
qed (use assms in \<open>simp add: mainline_sort_def retS_def\<close>)

lemma power_events_of_subset:
  assumes "power_events_of full em = Some (Inr (em', ps))"
  shows "set ps \<subseteq> set full" "em' = em"
proof -
  from assms obtain bs where bs: "mapS (\<lambda>eid. bindS (event_map_item eid) (\<lambda>e. bindS (liftS (is_power_event e)) (\<lambda>b.
      retS (eid, b)))) full em = Some (Inr (em', bs))" and ps: "ps = map fst (filter snd bs)"
    by (auto simp: power_events_of_def bindS_Some_Inr retS_def)
  have "map fst bs = full"
    by (rule mapS_ids [OF bs]) (auto simp: bindS_Some_Inr retS_def)
  then show "set ps \<subseteq> set full" unfolding ps by force
  from bs show "em' = em"
    by (induction full arbitrary: em bs)
      (auto simp: bindS_Some_Inr retS_def liftS_Some_Inr event_map_item_def split: option.splits)
qed

lemma resolve_run:
  assumes "resolve_conflicted_set x room rv store full base em = Some (Inr (em', ov))"
  obtains em1 em2 em3 ps sps rs ls pl where
    "power_events_of full em = Some (Inr (em, ps))"
    "reverse_topological_power_sort room store ps full em = Some (Inr (em1, sps))"
    "iterative_auth_checks x room rv store sps base em1 = Some (Inr (em2, rs))"
    "mainline_sort room store (filter (\<lambda>i. i \<notin> set sps) full) pl em2 = Some (Inr (em3, ls))"
    "iterative_auth_checks x room rv store ls rs em3 = Some (Inr (em', ov))"
    "set sps \<subseteq> set full" "set ls = set full - set sps"
    "store ++ em1 = store ++ em" "store ++ em2 = store ++ em" "store ++ em3 = store ++ em"
proof -
  from assms obtain em0 ps em1 sps em2 rs em3 ls where
    p: "power_events_of full em = Some (Inr (em0, ps))"
    and s: "reverse_topological_power_sort room store ps full em0 = Some (Inr (em1, sps))"
    and i: "iterative_auth_checks x room rv store sps base em1 = Some (Inr (em2, rs))"
    and m: "mainline_sort room store (filter (\<lambda>i. i \<notin> set sps) full)
      (case overlay_getitem rs PL_KEY of Inl _ \<Rightarrow> None | Inr i \<Rightarrow> Some i) em2 = Some (Inr (em3, ls))"
    and j: "iterative_auth_checks x room rv store ls rs em3 = Some (Inr (em', ov))"
    unfolding resolve_conflicted_set_def bindS_Some_Inr Let_def by blast
  note pe = power_events_of_subset [OF p]
  from s [unfolded pe] obtain g key where
    "gnodes g \<subseteq> set ps \<union> set full" "lexicographical_topological_sort g (key :: string \<Rightarrow> int \<times> int \<times> string) = Some sps"
    "chain_inv (store ++ em) full [] g" and v1: "store ++ em1 = store ++ em"
    by (rule power_sort_run)
  then have sps: "set sps \<subseteq> set full"
    using topo_sort_greedy [of g key] greedy_distinct [of g key "{}" sps] pe(1) by (fastforce simp: chain_inv_def)
  have "set ls = set full - set sps"
    using mset_eq_setD [OF mainline_sort_perm [OF m]] by auto
  moreover have v2: "store ++ em2 = store ++ em"
    using keeps_viewD [OF keeps_iterative_auth_checks(2) i] v1 by simp
  moreover have "store ++ em3 = store ++ em"
    using keeps_viewD [OF keeps_mainline_sort m] v2 by simp
  ultimately show thesis
    using that p s i m j v1 sps pe(2) by blast
qed

text \<open>C12: the resolution of a conflicted set returns, with a state or an exception, whenever auth
  events do not form a cycle: every loop of the algorithm, the traversal of auth chains, the
  topological sort and the walks along the mainline included, ends.\<close>

theorem resolve_conflicted_set_returns:
  assumes "wf (auth_rel (store ++ em))"
  shows "\<exists>r. resolve_conflicted_set x room rv store full base em = Some r"
proof (rule ccontr)
  assume "\<not> ?thesis"
  then have none: "resolve_conflicted_set x room rv store full base em = None" by simp
  have pe: "totalS (power_events_of full)"
    unfolding power_events_of_def by (intro total_intros)
  obtain ps em0 sps em1 rs em2 pl where
    p: "power_events_of full em = Some (Inr (em0, ps))"
    and s: "reverse_topological_power_sort room store ps full em0 = Some (Inr (em1, sps))"
    and i: "iterative_auth_checks x room rv store sps base em1 = Some (Inr (em2, rs))"
    and m: "mainline_sort room store (filter (\<lambda>i. i \<notin> set sps) full) pl em2 = None"
    using none unfolding resolve_conflicted_set_def bindS_None Let_def
    using totalSD [OF pe] totalSD [OF power_sort_total] totalSD [OF total_iterative_auth_checks(2)] by blast
  have "store ++ em1 = store ++ em"
    using s unfolding power_events_of_subset(2) [OF p] by (rule power_sort_run)
  then have "store ++ em2 = store ++ em"
    using keeps_viewD [OF keeps_iterative_auth_checks(2) i] by simp
  then have v: "wf (auth_rel (store ++ em2))" using assms by simp
  have "mainline_loop room store pl [] em2 \<noteq> None"
    by (rule mainline_loop_total [OF v refl])
  moreover have "mapS (mainline_order store mm) ids em3 \<noteq> None" if "store ++ em3 = store ++ em2" for mm ids em3
    using that
  proof (induction ids arbitrary: em3)
    case (Cons j ids)
    have "mainline_order store mm j em3 \<noteq> None"
      using mainline_depth_loop_total [OF v] Cons.prems
      by (auto simp: mainline_order_def bindS_None get_mainline_depth_for_event_def retS_def
          event_map_item_def split: option.splits)
    moreover have "keeps_view store (mainline_order store mm j)"
      unfolding mainline_order_def by (intro keeps_intros)
    ultimately show ?case
      using Cons keeps_viewD [of store "mainline_order store mm j" em3]
      by (auto simp: bindS_None retS_def simp del: not_None_eq)
  qed (simp add: retS_def)
  ultimately show False
    using m keeps_viewD [OF keeps_mainline(1), of room store pl "[]" em2]
    by (auto simp: mainline_sort_def bindS_None retS_def simp del: not_None_eq split: if_splits)
qed

theorem resolve_conflicted_set_returns_witness:
  "\<exists>r. resolve_conflicted_set sample_ext ''!r:x'' RV_V10 Map.empty [''$p1'', ''$p2'']
     (Plain [(CREATE_KEY, ''$create''), ((ET_Member, ''@a:x''), ''$m@a:x'')]) sample_evmap = Some r"
  by (rule resolve_conflicted_set_returns [OF sample_auth_wf])

lemma resolve_fold:
  assumes "resolve_conflicted_set x room rv store full base em = Some (Inr (em', ov))"
    and "keyed_state (store ++ em) (overlay_map base)"
  shows "\<exists>order. set order = set full \<and>
    overlay_map ov = foldl (auth_step x rv (store ++ em)) (overlay_map base) order"
  using assms(1)
proof (rule resolve_run)
  fix em1 em2 em3 ps sps rs ls pl
  assume runs: "iterative_auth_checks x room rv store sps base em1 = Some (Inr (em2, rs))"
      "iterative_auth_checks x room rv store ls rs em3 = Some (Inr (em', ov))"
    and sets: "set sps \<subseteq> set full" "set ls = set full - set sps"
    and views: "store ++ em1 = store ++ em" "store ++ em3 = store ++ em"
  have rs: "overlay_map rs = foldl (auth_step x rv (store ++ em)) (overlay_map base) sps"
    using iterative_auth_checks_fold [OF runs(1)] assms(2) by (simp add: views)
  then have "overlay_map ov = foldl (auth_step x rv (store ++ em)) (overlay_map base) (sps @ ls)"
    using iterative_auth_checks_fold [OF runs(2)] keyed_state_foldl [OF assms(2), of x rv sps] by (simp add: views)
  with sets show ?thesis by (intro exI [of _ "sps @ ls"]) auto
qed

text \<open>C13: what resolution may put into the state. From a base state whose entries are under their own
  type and state key, the resolution of a conflicted set is a run through all events of the set in
  some order in which each is checked once it is its turn: an event that was not rejected and passes the
  state-dependent auth rules replaces the entry under its own type and state key, any other changes
  nothing. It is checked against its own known and unrejected auth events, overridden, under the auth
  types of the event, by the unrejected events of the state as it was resolved up to then. So every
  entry of the result is an entry of the base state or an event of the set that was not rejected and
  passed the rules against that state.\<close>

theorem resolved_state_admitted:
  assumes "resolve_conflicted_set x room rv store full base em = Some (Inr (em', ov))"
    and "keyed_state (store ++ em) (overlay_map base)"
  shows "\<exists>order. set order = set full \<and>
    overlay_map ov = foldl (auth_step x rv (store ++ em)) (overlay_map base) order \<and>
    (\<forall>key i. overlay_map ov key = Some i \<longrightarrow>
       overlay_map base key = Some i \<or> admitted x rv (store ++ em) (overlay_map base) order key i)"
  using resolve_fold [OF assms] foldl_auth_step_admitted by metis

theorem resolved_state_admitted_witness:
  "\<exists>em' ov order. resolve_conflicted_set sample_ext ''!r:x'' RV_V10 Map.empty [''$p1'', ''$p2'']
     (Plain [(CREATE_KEY, ''$create''), ((ET_Member, ''@a:x''), ''$m@a:x'')]) sample_evmap =
       Some (Inr (em', ov)) \<and> overlay_map ov PL_KEY = Some ''$p2'' \<and> set order = {''$p1'', ''$p2''} \<and>
     admitted sample_ext RV_V10 (Map.empty ++ sample_evmap)
       (map_of [(CREATE_KEY, ''$create''), ((ET_Member, ''@a:x''), ''$m@a:x'')]) order PL_KEY ''$p2''"
proof -
  let ?base = "[(CREATE_KEY, ''$create''), ((ET_Member, ''@a:x''), ''$m@a:x'')]"
  have "map_option (map_sum id snd) (bindS (resolve_conflicted_set sample_ext ''!r:x'' RV_V10 Map.empty
      [''$p1'', ''$p2''] (Plain ?base)) (\<lambda>ov. retS (overlay_map ov PL_KEY)) sample_evmap) = Some (Inr (Some ''$p2''))"
    by code_simp
  then obtain em' ov where run: "resolve_conflicted_set sample_ext ''!r:x'' RV_V10 Map.empty
      [''$p1'', ''$p2''] (Plain ?base) sample_evmap = Some (Inr (em', ov))"
    and ov: "overlay_map ov PL_KEY = Some ''$p2''"
    unfolding erase_eq_Some_Inr bindS_Some_Inr by (auto simp: retS_def)
  have "keyed_state (Map.empty ++ sample_evmap) (overlay_map (Plain ?base))"
    by (auto simp: keyed_state_def own_key_def sample_evmap_def sample_defs split: if_splits)
  from resolved_state_admitted [OF run this] obtain order where order: "set order = set [''$p1'', ''$p2'']"
    and from_order: "\<forall>key i. overlay_map ov key = Some i \<longrightarrow> overlay_map (Plain ?base) key = Some i \<or>
      admitted sample_ext RV_V10 (Map.empty ++ sample_evmap) (overlay_map (Plain ?base)) order key i"
    by (elim exE conjE) (rule that)
  have "overlay_map (Plain ?base) PL_KEY = None" by simp
  with from_order [rule_format, OF ov]
  have "admitted sample_ext RV_V10 (Map.empty ++ sample_evmap) (map_of ?base) order PL_KEY ''$p2''" by simp
  with run ov order show ?thesis
    by (intro exI [of _ em'] exI [of _ ov] exI [of _ order]) simp
qed

section \<open>The base state may be restricted\<close>

text \<open>Two runs from different base states that end in the same way: the same exception, or the same
  event map and the same entries written over the two bases.\<close>

definition same_writes ::
  "(state_key \<rightharpoonup> string) \<Rightarrow> (state_key \<rightharpoonup> string) \<Rightarrow> (evmap \<times> (state_key, string) overlay) res option
     \<Rightarrow> (evmap \<times> (state_key, string) overlay) res option \<Rightarrow> bool" where
  "same_writes b b' r r' \<longleftrightarrow>
     r = None \<and> r' = None \<or> (\<exists>e. r = Some (Inl e) \<and> r' = Some (Inl e)) \<or>
     (\<exists>em ov ov' ws. r = Some (Inr (em, ov)) \<and> r' = Some (Inr (em, ov')) \<and>
        overlay_map ov = b ++ ws \<and> overlay_map ov' = b' ++ ws)"

text \<open>The events of \<open>ids\<close> are known and the keys they are checked against lie in \<open>K\<close>.\<close>

definition types_within :: "room_version \<Rightarrow> state_key set \<Rightarrow> string list \<Rightarrow> evmap \<Rightarrow> bool" where
  "types_within rv K ids em \<longleftrightarrow>
     (\<forall>i. i \<in> set ids \<longrightarrow> (\<exists>e. em i = Some e \<and> (\<forall>ks. auth_types_for_event rv e = Inr ks \<longrightarrow> ks \<subseteq> K)))"

lemma types_within_mono: "types_within rv K ids em \<Longrightarrow> em \<subseteq>\<^sub>m em' \<Longrightarrow> set ids' \<subseteq> set ids \<Longrightarrow> types_within rv K ids' em'"
  unfolding types_within_def map_le_def by (metis domI subsetD)

lemma foldS_cong: "(\<And>y acc. y \<in> set xs \<Longrightarrow> f y acc = g y acc) \<Longrightarrow> foldS f xs acc = foldS g xs acc"
proof (induction xs arbitrary: acc)
  case (Cons y xs)
  have "foldS f xs = foldS g xs" by (rule ext) (use Cons in auto)
  then show ?case using Cons.prems by simp
qed simp

lemma same_writes_bind:
  assumes "\<And>em1 y. m em = Some (Inr (em1, y)) \<Longrightarrow> same_writes b b' (f y em1) (g y em1)"
  shows "same_writes b b' (bindS m f em) (bindS m g em)"
  using assms by (auto simp: bindS_def same_writes_def split: option.splits sum.splits)

lemma same_writes_ret:
  assumes "overlay_map ov = b ++ ws" "overlay_map ov' = b' ++ ws"
  shows "same_writes b b' (retS ov em) (retS ov' em)"
  unfolding same_writes_def retS_def using assms by auto

lemma same_writes_raise: "same_writes b b' (raiseS e em) (raiseS e em)"
  by (simp add: same_writes_def raiseS_def)

lemma iterative_auth_check_restrict:
  assumes ov: "overlay_map ov = b ++ ws" "overlay_map ov' = b' ++ ws"
    and K: "\<And>k. k \<in> K \<Longrightarrow> b k = b' k" and ty: "types_within rv K [i] em"
  shows "same_writes b b' (iterative_auth_check x room rv store i ov em) (iterative_auth_check x room rv store i ov' em)"
  unfolding iterative_auth_check_def
proof (rule same_writes_bind, rule same_writes_bind, rule same_writes_bind)
  fix em0 event em1 auth1 em2 ks
  assume "event_map_item i em = Some (Inr (em0, event))"
    and "liftS (auth_types_for_event rv event) em1 = Some (Inr (em2, ks))"
  then have "ks \<subseteq> K"
    using ty by (auto simp: types_within_def event_map_item_def liftS_Some_Inr split: option.splits)
  then have get: "overlay_getitem ov k = overlay_getitem ov' k" if "k \<in> set (sorted_list_of_set ks)" for k
  proof -
    have "k \<in> K" using that \<open>ks \<subseteq> K\<close> by (cases "finite ks") auto
    then have "b k = b' k" by (rule K)
    then show ?thesis by (simp add: overlay_getitem_map ov map_add_def split: option.splits)
  qed
  have eq: "foldS (collect_resolved room store ov) (sorted_list_of_set ks) auth1 =
      foldS (collect_resolved room store ov') (sorted_list_of_set ks) auth1"
    by (rule foldS_cong) (simp add: collect_resolved_def get)
  have upd: "overlay_map (overlay_setitem ov k i) = b ++ ws(k \<mapsto> i)"
    "overlay_map (overlay_setitem ov' k i) = b' ++ ws(k \<mapsto> i)" for k
    using ov by (simp_all add: overlay_setitem_map)
  have fin: "same_writes b b' ((if ev_rejected_reason event \<noteq> None then retS ov
     else (case check_state_dependent_auth_rules x event (map snd auth_events) of
          Inl e \<Rightarrow> if is_auth_error e then retS ov else raiseS e
        | Inr _ \<Rightarrow> bindS (liftS (state_key_attr event)) (\<lambda>k.
            retS (overlay_setitem ov (ev_type event, k) i)))) em3)
    ((if ev_rejected_reason event \<noteq> None then retS ov'
     else (case check_state_dependent_auth_rules x event (map snd auth_events) of
          Inl e \<Rightarrow> if is_auth_error e then retS ov' else raiseS e
        | Inr _ \<Rightarrow> bindS (liftS (state_key_attr event)) (\<lambda>k.
            retS (overlay_setitem ov' (ev_type event, k) i)))) em3)" for em3 and auth_events :: "(state_key, event) dict"
  proof -
    have "same_writes b b' (retS ov em3) (retS ov' em3)" "same_writes b b' (raiseS e em3) (raiseS e em3)"
      "same_writes b b' (retS (overlay_setitem ov k i) em3) (retS (overlay_setitem ov' k i) em3)" for e k
      by (rule same_writes_ret [OF ov] same_writes_raise same_writes_ret [OF upd])+
    moreover have "same_writes b b' (bindS (liftS r) (\<lambda>k. retS (overlay_setitem ov (t, k) i)) em3)
        (bindS (liftS r) (\<lambda>k. retS (overlay_setitem ov' (t, k) i)) em3)" for r t
      by (rule same_writes_bind) (rule same_writes_ret [OF upd])
    ultimately show ?thesis by (auto split: sum.splits)
  qed
  show "same_writes b b'
     (bindS (foldS (collect_resolved room store ov) (sorted_list_of_set ks) auth1) (\<lambda>auth_events.
        if ev_rejected_reason event \<noteq> None then retS ov
        else (case check_state_dependent_auth_rules x event (map snd auth_events) of
          Inl e \<Rightarrow> if is_auth_error e then retS ov else raiseS e
        | Inr _ \<Rightarrow> bindS (liftS (state_key_attr event)) (\<lambda>k.
            retS (overlay_setitem ov (ev_type event, k) i)))) em2)
     (bindS (foldS (collect_resolved room store ov') (sorted_list_of_set ks) auth1) (\<lambda>auth_events.
        if ev_rejected_reason event \<noteq> None then retS ov'
        else (case check_state_dependent_auth_rules x event (map snd auth_events) of
          Inl e \<Rightarrow> if is_auth_error e then retS ov' else raiseS e
        | Inr _ \<Rightarrow> bindS (liftS (state_key_attr event)) (\<lambda>k.
            retS (overlay_setitem ov' (ev_type event, k) i)))) em2)"
    unfolding eq by (rule same_writes_bind) (rule fin)
qed

lemma iterative_auth_checks_restrict:
  assumes "overlay_map ov = b ++ ws" "overlay_map ov' = b' ++ ws"
    and K: "\<And>k. k \<in> K \<Longrightarrow> b k = b' k" and "types_within rv K ids em"
  shows "same_writes b b' (iterative_auth_checks x room rv store ids ov em) (iterative_auth_checks x room rv store ids ov' em)"
proof -
  let ?f = "iterative_auth_check x room rv store"
  have "same_writes b b' (foldS ?f ids ov em) (foldS ?f ids ov' em)"
    if "overlay_map ov = b ++ ws" "overlay_map ov' = b' ++ ws" "types_within rv K ids em" for ov ov' em ws
    using that
  proof (induction ids arbitrary: ov ov' em ws)
    case Nil
    then show ?case by (auto simp: same_writes_def retS_def)
  next
    case (Cons i ids)
    have one: "types_within rv K [i] em" using Cons.prems(3) by (auto simp: types_within_def)
    have rest: "types_within rv K ids em1" if "?f i ov em = Some (Inr (em1, ov1))" for em1 ov1
      using types_within_mono [OF Cons.prems(3), of em1 ids] keeps_viewD [OF keeps_iterative_auth_checks(1) that]
      by auto
    have "same_writes b b' (?f i ov em) (?f i ov' em)"
      by (rule iterative_auth_check_restrict [OF Cons.prems(1,2) _ one]) (rule K)
    then consider "?f i ov em = None" "?f i ov' em = None"
      | e where "?f i ov em = Some (Inl e)" "?f i ov' em = Some (Inl e)"
      | em1 ov1 ov1' ws1 where "?f i ov em = Some (Inr (em1, ov1))" "?f i ov' em = Some (Inr (em1, ov1'))"
        "overlay_map ov1 = b ++ ws1" "overlay_map ov1' = b' ++ ws1"
      unfolding same_writes_def by auto
    then show ?case
    proof cases
      case (3 em1 ov1 ov1' ws1)
      with Cons.IH [OF 3(3,4) rest [OF 3(1)]] show ?thesis
        by (simp add: bindS_def)
    qed (simp_all add: bindS_def same_writes_def)
  qed
  from this [of "overlay_new ov" ws "overlay_new ov'" em] assms show ?thesis
    unfolding iterative_auth_checks_def by simp
qed

lemma same_writes_bind_both:
  assumes "same_writes b b' (m em) (m' em)"
    and "\<And>em1 ov ov' ws. m em = Some (Inr (em1, ov)) \<Longrightarrow> m' em = Some (Inr (em1, ov')) \<Longrightarrow>
      overlay_map ov = b ++ ws \<Longrightarrow> overlay_map ov' = b' ++ ws \<Longrightarrow> same_writes b b' (f ov em1) (g ov' em1)"
  shows "same_writes b b' (bindS m f em) (bindS m' g em)"
proof -
  from assms(1) consider "m em = None" "m' em = None" | e where "m em = Some (Inl e)" "m' em = Some (Inl e)"
    | em1 ov ov' ws where "m em = Some (Inr (em1, ov))" "m' em = Some (Inr (em1, ov'))"
      "overlay_map ov = b ++ ws" "overlay_map ov' = b' ++ ws"
    unfolding same_writes_def by auto
  then show ?thesis
  proof cases
    case (3 em1 ov ov' ws)
    with assms(2) [OF 3] show ?thesis by (simp add: bindS_def)
  qed (simp_all add: bindS_def same_writes_def)
qed

lemma resolve_restrict:
  assumes base: "overlay_map base = b" "overlay_map base' = b'"
    and K: "\<And>k. k \<in> K \<Longrightarrow> b k = b' k" "PL_KEY \<in> K" and ty: "types_within rv K full em"
  shows "same_writes b b' (resolve_conflicted_set x room rv store full base em)
    (resolve_conflicted_set x room rv store full base' em)"
  unfolding resolve_conflicted_set_def
proof (rule same_writes_bind, rule same_writes_bind, rule same_writes_bind_both)
  fix em0 ps em1 sps
  assume p: "power_events_of full em = Some (Inr (em0, ps))"
    and s: "reverse_topological_power_sort room store ps full em0 = Some (Inr (em1, sps))"
  note pe = power_events_of_subset [OF p]
  obtain g key where g: "gnodes g \<subseteq> set ps \<union> set full" "chain_inv (store ++ em) full [] g"
    "lexicographical_topological_sort g (key :: string \<Rightarrow> int \<times> int \<times> string) = Some sps" and em1: "em \<subseteq>\<^sub>m em1"
    using s unfolding pe(2) by (rule power_sort_run)
  then have sps: "set sps \<subseteq> set full"
    using topo_sort_greedy [of g key] greedy_distinct [of g key "{}" sps] pe(1) by (fastforce simp: chain_inv_def)
  have ty1: "types_within rv K ids em'" if "set ids \<subseteq> set full" "em1 \<subseteq>\<^sub>m em'" for ids em'
    using types_within_mono [OF ty map_le_trans [OF em1 that(2)] that(1)] .
  show "same_writes b b' (iterative_auth_checks x room rv store sps base em1)
      (iterative_auth_checks x room rv store sps base' em1)"
    by (rule iterative_auth_checks_restrict [where ws = Map.empty and K = K])
      (simp_all add: base K ty1 [OF sps map_le_refl])
  fix em2 ov ov' ws
  assume run: "iterative_auth_checks x room rv store sps base em1 = Some (Inr (em2, ov))"
    and ov: "overlay_map ov = b ++ ws" "overlay_map ov' = b' ++ ws"
  have em2: "em1 \<subseteq>\<^sub>m em2" using keeps_viewD [OF keeps_iterative_auth_checks(2) run] by simp
  have pl: "overlay_getitem ov' PL_KEY = overlay_getitem ov PL_KEY"
    using K by (simp add: overlay_getitem_map ov map_add_def split: option.splits)
  show "same_writes b b'
     ((let leftover_events = filter (\<lambda>i. i \<notin> set sps) full;
           pl = (case overlay_getitem ov PL_KEY of Inl _ \<Rightarrow> None | Inr i \<Rightarrow> Some i)
       in bindS (mainline_sort room store leftover_events pl) (\<lambda>leftover.
          iterative_auth_checks x room rv store leftover ov)) em2)
     ((let leftover_events = filter (\<lambda>i. i \<notin> set sps) full;
           pl = (case overlay_getitem ov' PL_KEY of Inl _ \<Rightarrow> None | Inr i \<Rightarrow> Some i)
       in bindS (mainline_sort room store leftover_events pl) (\<lambda>leftover.
          iterative_auth_checks x room rv store leftover ov')) em2)"
    unfolding Let_def pl
  proof (rule same_writes_bind)
    fix em3 ls
    assume m: "mainline_sort room store (filter (\<lambda>i. i \<notin> set sps) full)
      (case overlay_getitem ov PL_KEY of Inl _ \<Rightarrow> None | Inr i \<Rightarrow> Some i) em2 = Some (Inr (em3, ls))"
    have "set ls \<subseteq> set full" using mset_eq_setD [OF mainline_sort_perm [OF m]] by auto
    moreover have "em1 \<subseteq>\<^sub>m em3" using keeps_viewD [OF keeps_mainline_sort m] em2 map_le_trans by blast
    ultimately show "same_writes b b' (iterative_auth_checks x room rv store ls ov em3)
        (iterative_auth_checks x room rv store ls ov' em3)"
      using iterative_auth_checks_restrict [OF ov, where K = K] K(1) ty1 by blast
  qed
qed

text \<open>The final state: the unconflicted state over the resolved one.\<close>

definition layered ::
  "(state_key \<rightharpoonup> string) \<Rightarrow> (evmap \<times> (state_key, string) overlay) res option \<Rightarrow> (evmap \<times> (state_key \<rightharpoonup> string)) res option" where
  "layered u r = map_option (map_sum id (\<lambda>(em, ov). (em, overlay_map ov ++ u))) r"

text \<open>C14: restricting the base state to the keys that matter is safe, as the comment in
  \<^verbatim>\<open>resolve_events_with_store\<close> claims. When \<open>K\<close> holds the power levels key and the auth types of every
  conflicted event, resolving over the unconflicted state restricted to \<open>K\<close> and over all of it ends
  in the same final state (with the unconflicted state layered on top), the same cache of events,
  or the same exception.\<close>

theorem base_state_restriction_safe:
  assumes "types_within rv K full em" "PL_KEY \<in> K"
    and "map_of base = map_of unconflicted |` K"
  shows "layered (map_of unconflicted) (resolve_conflicted_set x room rv store full (Plain base) em) =
    layered (map_of unconflicted) (resolve_conflicted_set x room rv store full (Plain unconflicted) em)"
proof -
  let ?u = "map_of unconflicted"
  have eq: "(?u |` K ++ ws) ++ ?u = (?u ++ ws) ++ ?u" for ws
    by (auto simp: fun_eq_iff map_add_def restrict_map_def split: option.splits)
  have "same_writes (?u |` K) ?u (resolve_conflicted_set x room rv store full (Plain base) em)
      (resolve_conflicted_set x room rv store full (Plain unconflicted) em)"
    by (rule resolve_restrict [OF _ _ _ assms(2,1)]) (simp_all add: assms(3))
  then show ?thesis
    unfolding same_writes_def layered_def using eq by auto
qed

theorem base_state_restriction_safe_witness:
  "layered (map_of [(CREATE_KEY, ''$create''), ((ET_Member, ''@a:x''), ''$m@a:x''), ((''t'', ''''), ''$t'')])
     (resolve_conflicted_set sample_ext ''!r:x'' RV_V10 Map.empty [''$p1'', ''$p2'']
       (Plain [(CREATE_KEY, ''$create''), ((ET_Member, ''@a:x''), ''$m@a:x'')]) sample_evmap) =
   layered (map_of [(CREATE_KEY, ''$create''), ((ET_Member, ''@a:x''), ''$m@a:x''), ((''t'', ''''), ''$t'')])
     (resolve_conflicted_set sample_ext ''!r:x'' RV_V10 Map.empty [''$p1'', ''$p2'']
       (Plain [(CREATE_KEY, ''$create''), ((ET_Member, ''@a:x''), ''$m@a:x''), ((''t'', ''''), ''$t'')]) sample_evmap)"
proof (rule base_state_restriction_safe [where K = "{PL_KEY, CREATE_KEY, (ET_Member, ''@a:x'')}"])
  show "types_within RV_V10 {PL_KEY, CREATE_KEY, (ET_Member, ''@a:x'')} [''$p1'', ''$p2''] sample_evmap"
    by (simp add: types_within_def sample_evmap_def sample_pl_def sample_levels_def sample_event_def
        auth_types_for_event_def all_conj_distrib)
qed (auto simp: fun_eq_iff restrict_map_def)

end
