(* ===== verification/Auth_Diff.thy ===== *)
theory Auth_Diff
  imports State_Res
begin

text \<open>
  \<^verbatim>\<open>_get_auth_chain_difference\<close> of \<^verbatim>\<open>synapse/state/v2.py\<close>: the events in some but not all of the auth
  chains of the state sets, and for state resolution v2.1 the conflicted subgraph. Events that are not
  persisted yet are handled in memory, everything else by the store, whose answer is a parameter.
\<close>

section \<open>The in-memory auth chains\<close>

type_synonym evdict = "(string, event) dict"

text \<open>\<^verbatim>\<open>direct_auth_events\<close> and \<^verbatim>\<open>event_to_next_event\<close>, built by the first loop.\<close>

definition direct_auth_events :: "evdict \<Rightarrow> (string, string list) dict" where
  "direct_auth_events unpersisted =
     fold (\<lambda>e. dict_set (ev_event_id e) (ev_auth_event_ids e)) (map snd unpersisted) []"

definition event_to_next_event :: "evdict \<Rightarrow> string graph" where
  "event_to_next_event unpersisted =
     fold (\<lambda>e. fold (\<lambda>auth_id. graph_add auth_id (ev_event_id e)) (ev_auth_event_ids e)) (map snd unpersisted) []"

definition auths_of :: "(string, string list) dict \<Rightarrow> string \<Rightarrow> string list" where
  "auths_of direct i = (case map_of direct i of None \<Rightarrow> [] | Some as \<Rightarrow> as)"

type_synonym memo = "string \<rightharpoonup> string set"

text \<open>The depth-first loop of \<^verbatim>\<open>_build_auth_chain\<close>; the head of the list is the top of the stack, so the
  auth events are pushed in order and visited from the last. It does not end when unpersisted events
  cite one another in a cycle.\<close>

partial_function (option) postorder_loop ::
  "(string, string list) dict \<Rightarrow> string set \<Rightarrow> memo \<Rightarrow> (string \<times> bool) list \<Rightarrow> string list \<Rightarrow> string list option" where
  "postorder_loop direct unpersisted memo stack postorder =
     (case stack of
        [] \<Rightarrow> Some postorder
      | (event_id, expanded) # rest \<Rightarrow>
          if expanded then postorder_loop direct unpersisted memo rest (postorder @ [event_id])
          else if memo event_id \<noteq> None then postorder_loop direct unpersisted memo rest postorder
          else
            postorder_loop direct unpersisted memo
              (rev (map (\<lambda>a. (a, False))
                 (filter (\<lambda>a. a \<in> unpersisted \<and> memo a = None) (auths_of direct event_id)))
               @ (event_id, True) # rest) postorder)"

declare postorder_loop.simps [code]

text \<open>The chain of one event from the chains computed so far.\<close>

definition chain_of :: "(string, string list) dict \<Rightarrow> memo \<Rightarrow> string \<Rightarrow> string set" where
  "chain_of direct memo event_id =
     insert event_id (set (auths_of direct event_id)) \<union>
     \<Union> (set (map (\<lambda>a. case memo a of None \<Rightarrow> {} | Some c \<Rightarrow> c) (auths_of direct event_id)))"

definition build_auth_chain ::
  "(string, string list) dict \<Rightarrow> string set \<Rightarrow> string \<Rightarrow> memo \<Rightarrow> memo option" where
  "build_auth_chain direct unpersisted root_event_id memo =
     (if memo root_event_id \<noteq> None then Some memo
      else map_option (\<lambda>postorder. fold (\<lambda>i ch. ch(i \<mapsto> chain_of direct ch i)) postorder memo)
             (postorder_loop direct unpersisted memo [(root_event_id, False)] []))"

fun build_all ::
  "(string, string list) dict \<Rightarrow> string set \<Rightarrow> string list \<Rightarrow> memo \<Rightarrow> memo option" where
  "build_all direct unpersisted [] memo = Some memo"
| "build_all direct unpersisted (i # ids) memo =
     Option.bind (build_auth_chain direct unpersisted i memo) (build_all direct unpersisted ids)"

section \<open>The difference\<close>

text \<open>One state set split into the persisted events to ask the store about and the unpersisted events
  its events reach.\<close>

definition split_state_set ::
  "memo \<Rightarrow> string set \<Rightarrow> (state_key, string) dict \<Rightarrow> string set \<times> string set" where
  "split_state_set memo unpersisted state_set =
     fold (\<lambda>event_id (set_ids, unpersisted_ids).
             case memo event_id of
               Some chain \<Rightarrow> (set_ids \<union> (chain - unpersisted), unpersisted_ids \<union> (chain \<inter> unpersisted))
             | None \<Rightarrow> (insert event_id set_ids, unpersisted_ids))
       (map snd state_set) ({}, {})"

text \<open>The unpersisted conflicted events, and the persisted events they reach.\<close>

definition conflicted_reach ::
  "memo \<Rightarrow> string set \<Rightarrow> string list \<Rightarrow> string set \<times> string set" where
  "conflicted_reach memo unpersisted conflicted =
     fold (\<lambda>i (unpersisted_conflicted, reachable).
             case memo i of
               Some chain \<Rightarrow> (insert i unpersisted_conflicted, reachable \<union> (chain - unpersisted))
             | None \<Rightarrow> (unpersisted_conflicted, reachable))
       conflicted ({}, {})"

text \<open>The union less the intersection of the sets; the code indexes the first one.\<close>

definition union_minus_intersection :: "string set list \<Rightarrow> string set res" where
  "union_minus_intersection sets =
     (case sets of [] \<Rightarrow> Inl IndexError | s # ss \<Rightarrow> Inr ((s \<union> \<Union> (set ss)) - fold (\<inter>) ss s))"

text \<open>What the store answers: the auth difference and, for v2.1, the conflicted subgraph.\<close>

record state_difference =
  sd_auth_difference :: "string set"
  sd_conflicted_subgraph :: "string set option"

type_synonym store_difference =
  "string set list \<Rightarrow> string set option \<Rightarrow> string set \<Rightarrow> state_difference"

text \<open>The forwards search of v2.1: the queue is a set of which an arbitrary member is popped.\<close>

partial_function (option) forwards_loop ::
  "string graph \<Rightarrow> string list \<Rightarrow> string set \<Rightarrow> string set option" where
  "forwards_loop next_events queue forwards =
     (case queue of
        [] \<Rightarrow> Some forwards
      | frontier_event # rest \<Rightarrow>
          forwards_loop next_events
            (rest @ filter (\<lambda>i. i \<notin> set rest) (edges_of next_events frontier_event))
            (insert frontier_event forwards))"

declare forwards_loop.simps [code]

text \<open>The expansion of the conflicted subgraph into unpersisted events.\<close>

definition expand_subgraph ::
  "string graph \<Rightarrow> memo \<Rightarrow> string set \<Rightarrow> string set \<Rightarrow> string set \<Rightarrow> string set \<Rightarrow> string set option" where
  "expand_subgraph next_events memo conflicted unpersisted_conflicted additional subgraph =
     (let subgraph = subgraph \<union> conflicted;
          frontier = subgraph \<inter> additional;
          queue = sorted_list_of_set (frontier \<union> unpersisted_conflicted);
          backwards = \<Union> ((\<lambda>i. case memo i of None \<Rightarrow> {} | Some c \<Rightarrow> c) ` unpersisted_conflicted)
      in map_option (\<lambda>forwards. subgraph \<union> (backwards \<inter> forwards)) (forwards_loop next_events queue {}))"

text \<open>The function. \<open>rust\<close> is the answer of the Rust fast path, \<open>None\<close> when it raises; the conflicted
  state is given for v2.1 only. The result is \<open>None\<close> when a loop does not return.\<close>

definition get_auth_chain_difference ::
  "(state_key, string) dict list \<Rightarrow> evdict \<Rightarrow> store_difference \<Rightarrow> string set option
     \<Rightarrow> string list option \<Rightarrow> bool \<Rightarrow> string set res option" where
  "get_auth_chain_difference state_sets unpersisted_events store_diff rust conflicted_state complete_event_graph =
     (if conflicted_state = None \<and> complete_event_graph \<and> rust \<noteq> None then Some (Inr (the rust))
      else
        (let direct = direct_auth_events unpersisted_events;
             unp = fst ` set unpersisted_events
         in Option.bind (build_all direct unp (map fst unpersisted_events) Map.empty) (\<lambda>memo.
         let splits = map (split_state_set memo unp) state_sets;
             cr = conflicted_reach memo unp (case conflicted_state of None \<Rightarrow> [] | Some c \<Rightarrow> c);
             additional = (if unpersisted_events = [] then {} else snd cr);
             unp_conf = (if unpersisted_events = [] then {} else fst cr)
         in
         case (if unpersisted_events = [] then Inr {} else union_minus_intersection (map snd splits)) of
           Inl e \<Rightarrow> Some (Inl e)
         | Inr unp_diff \<Rightarrow>
             (let state_sets_ids = (if unpersisted_events = [] then map (\<lambda>s. snd ` set s) state_sets
                                    else map fst splits);
                  conflicted = map_option (\<lambda>c. set c - unp_conf) conflicted_state;
                  difference = store_diff state_sets_ids conflicted additional;
                  auth_difference = sd_auth_difference difference \<union> unp_diff
              in
              case sd_conflicted_subgraph difference of
                None \<Rightarrow> Some (Inr auth_difference)
              | Some subgraph \<Rightarrow>
                  if conflicted_state \<noteq> None \<and> unpersisted_events \<noteq> [] then
                    map_option (\<lambda>sg. Inr (auth_difference \<union> sg))
                      (expand_subgraph (event_to_next_event unpersisted_events) memo (the conflicted)
                         unp_conf additional subgraph)
                  else Some (Inr (auth_difference \<union> subgraph))))))"


section \<open>The chains are the reflexive transitive closure\<close>

definition direct_rel :: "(string, string list) dict \<Rightarrow> (string \<times> string) set" where
  "direct_rel direct = {(e, a). a \<in> set (auths_of direct e)}"

definition closure_of :: "(string, string list) dict \<Rightarrow> string \<Rightarrow> string set" where
  "closure_of direct e = (direct_rel direct)\<^sup>* `` {e}"

lemma closure_of_unfold:
  "closure_of direct e = insert e (\<Union> (closure_of direct ` set (auths_of direct e)))"
proof -
  have "(e, a) \<in> (direct_rel direct)\<^sup>* \<longleftrightarrow> a = e \<or> (\<exists>b \<in> set (auths_of direct e). (b, a) \<in> (direct_rel direct)\<^sup>*)" for a
    by (auto simp: direct_rel_def elim: converse_rtranclE intro: converse_rtrancl_into_rtrancl)
  then show ?thesis by (auto simp: closure_of_def)
qed

text \<open>The memo holds closures of unpersisted events.\<close>

definition memo_ok :: "(string, string list) dict \<Rightarrow> string set \<Rightarrow> memo \<Rightarrow> bool" where
  "memo_ok direct unp memo \<longleftrightarrow> (\<forall>i c. memo i = Some c \<longrightarrow> i \<in> unp \<and> c = closure_of direct i)"

text \<open>The order in which the loop finishes events: every unpersisted auth event without an entry comes
  earlier.\<close>

definition visit_ok :: "(string, string list) dict \<Rightarrow> string set \<Rightarrow> memo \<Rightarrow> string set \<Rightarrow> string list \<Rightarrow> bool" where
  "visit_ok direct unp memo pre vs \<longleftrightarrow> set vs \<subseteq> unp \<and>
     (\<forall>ys i zs. vs = ys @ i # zs \<longrightarrow>
        (\<forall>a \<in> set (auths_of direct i). a \<in> unp \<longrightarrow> memo a \<noteq> None \<or> a \<in> pre \<union> set ys))"

lemma visit_ok_append:
  assumes "visit_ok direct unp memo pre us" "visit_ok direct unp memo (pre \<union> set us) vs"
  shows "visit_ok direct unp memo pre (us @ vs)"
proof -
  have "memo a \<noteq> None \<or> a \<in> pre \<union> set ys"
    if "us @ vs = ys @ i # zs" "a \<in> set (auths_of direct i)" "a \<in> unp" for ys i zs a
  proof -
    from that(1) consider ws where "us = ys @ i # ws" | ws where "ys = us @ ws" "vs = ws @ i # zs"
      by (auto simp: append_eq_append_conv2 append_eq_Cons_conv Cons_eq_append_conv)
    then show ?thesis
      using assms that(2,3) by cases (fastforce simp: visit_ok_def)+
  qed
  then show ?thesis using assms by (auto simp: visit_ok_def)
qed

lemma postorder_visit:
  assumes wf: "wf {(a, e). e \<in> unp \<and> a \<in> unp \<and> a \<in> set (auths_of direct e)}" and e: "e \<in> unp"
  shows "\<exists>vs. (\<forall>rest po. postorder_loop direct unp memo ((e, False) # rest) po =
        postorder_loop direct unp memo rest (po @ vs)) \<and>
      visit_ok direct unp memo {} vs \<and> (memo e = None \<longrightarrow> e \<in> set vs)"
  using wf e
proof (induction e rule: wf_induct_rule)
  case (less e)
  show ?case
  proof (cases "memo e")
    case None
    let ?as = "filter (\<lambda>a. a \<in> unp \<and> memo a = None) (auths_of direct e)"
    have "\<exists>vs. (\<forall>rest po. postorder_loop direct unp memo (map (\<lambda>a. (a, False)) as @ rest) po =
          postorder_loop direct unp memo rest (po @ vs)) \<and>
        visit_ok direct unp memo {} vs \<and> set as \<subseteq> set vs"
      if "set as \<subseteq> set ?as" for as
      using that
    proof (induction as)
      case Nil
      show ?case by (rule exI [of _ "[]"]) (simp add: visit_ok_def)
    next
      case (Cons a as)
      then have a: "a \<in> unp" "a \<in> set (auths_of direct e)" "memo a = None" by auto
      from less.IH [of a] a less.prems obtain us where us:
        "\<And>rest po. postorder_loop direct unp memo ((a, False) # rest) po = postorder_loop direct unp memo rest (po @ us)"
        "visit_ok direct unp memo {} us" "a \<in> set us"
        by auto
      from Cons obtain vs where vs:
        "\<And>rest po. postorder_loop direct unp memo (map (\<lambda>a. (a, False)) as @ rest) po =
          postorder_loop direct unp memo rest (po @ vs)"
        "visit_ok direct unp memo {} vs" "set as \<subseteq> set vs"
        by auto
      have "visit_ok direct unp memo (set us) vs"
        using vs(2) by (auto simp: visit_ok_def)
      then have "visit_ok direct unp memo {} (us @ vs)"
        using visit_ok_append [OF us(2)] by simp
      then show ?case
        using us vs by (intro exI [of _ "us @ vs"]) auto
    qed
    from this [of "rev ?as"] obtain vs where vs:
      "\<And>rest po. postorder_loop direct unp memo (map (\<lambda>a. (a, False)) (rev ?as) @ rest) po =
        postorder_loop direct unp memo rest (po @ vs)"
      "visit_ok direct unp memo {} vs" "set ?as \<subseteq> set vs"
      by auto
    have "postorder_loop direct unp memo ((e, False) # rest) po = postorder_loop direct unp memo rest (po @ vs @ [e])" for rest po
      using vs(1) None
      by (subst postorder_loop.simps) (simp add: rev_map [symmetric] postorder_loop.simps [of _ _ _ "(e, True) # rest"])
    moreover have "visit_ok direct unp memo (set vs) [e]"
      using vs(3) less.prems by (auto simp: visit_ok_def Cons_eq_append_conv)
    then have "visit_ok direct unp memo {} (vs @ [e])"
      using visit_ok_append [OF vs(2)] by simp
    ultimately show ?thesis by (intro exI [of _ "vs @ [e]"]) auto
  next
    case (Some c)
    then show ?thesis
      by (intro exI [of _ "[]"]) (subst postorder_loop.simps, simp add: visit_ok_def)
  qed
qed

lemma visit_ok_ConsD:
  assumes "visit_ok direct unp memo pre (i # vs)"
  shows "visit_ok direct unp memo (insert i pre) vs"
proof -
  have "memo a \<noteq> None \<or> a \<in> insert i pre \<union> set ys"
    if "vs = ys @ j # zs" "a \<in> set (auths_of direct j)" "a \<in> unp" for ys j zs a
  proof -
    have "i # vs = (i # ys) @ j # zs" using that(1) by simp
    then have "memo a \<noteq> None \<or> a \<in> pre \<union> set (i # ys)"
      using assms that(2,3) unfolding visit_ok_def by blast
    then show ?thesis by auto
  qed
  then show ?thesis using assms by (auto simp: visit_ok_def)
qed

lemma chain_of_closure:
  assumes "memo_ok direct unp memo" "\<And>e. e \<notin> unp \<Longrightarrow> auths_of direct e = []"
    and "\<And>a. a \<in> set (auths_of direct i) \<Longrightarrow> a \<in> unp \<Longrightarrow> memo a \<noteq> None"
  shows "chain_of direct memo i = closure_of direct i"
proof -
  have "insert a (case memo a of None \<Rightarrow> {} | Some c \<Rightarrow> c) = closure_of direct a"
    if "a \<in> set (auths_of direct i)" for a
  proof (cases "memo a")
    case None
    then have "a \<notin> unp" using assms(3) that by blast
    then have "closure_of direct a = {a}" using assms(2) closure_of_unfold [of direct a] by simp
    then show ?thesis using None by simp
  next
    case (Some c)
    then show ?thesis
      using assms(1) closure_of_unfold [of direct a] by (auto simp: memo_ok_def)
  qed
  then have "(\<Union>a \<in> set (auths_of direct i). insert a (case memo a of None \<Rightarrow> {} | Some c \<Rightarrow> c)) =
      \<Union> (closure_of direct ` set (auths_of direct i))"
    by simp
  then show ?thesis
    unfolding closure_of_unfold [of direct i] chain_of_def by auto
qed

lemma fold_chain_of:
  assumes "visit_ok direct unp memo0 pre vs" "memo_ok direct unp memo"
    and "\<And>a. memo0 a \<noteq> None \<or> a \<in> pre \<Longrightarrow> memo a \<noteq> None"
    and "\<And>e. e \<notin> unp \<Longrightarrow> auths_of direct e = []"
  shows "memo_ok direct unp (fold (\<lambda>i ch. ch(i \<mapsto> chain_of direct ch i)) vs memo) \<and>
    dom (fold (\<lambda>i ch. ch(i \<mapsto> chain_of direct ch i)) vs memo) = dom memo \<union> set vs"
  using assms(1-3)
proof (induction vs arbitrary: memo pre)
  case (Cons i vs)
  have i: "i \<in> unp" using Cons.prems(1) by (auto simp: visit_ok_def)
  have pre: "a \<in> set (auths_of direct i) \<Longrightarrow> a \<in> unp \<Longrightarrow> memo a \<noteq> None" for a
    using Cons.prems(1,3) unfolding visit_ok_def by (metis append_Nil list.set(1) sup_bot.right_neutral)
  let ?memo = "memo(i \<mapsto> chain_of direct memo i)"
  have ok: "memo_ok direct unp ?memo"
    using Cons.prems(2) i chain_of_closure [OF Cons.prems(2) assms(4) pre] by (auto simp: memo_ok_def)
  have v: "visit_ok direct unp memo0 (insert i pre) vs"
    using Cons.prems(1) by (rule visit_ok_ConsD)
  have "memo0 a \<noteq> None \<or> a \<in> insert i pre \<Longrightarrow> ?memo a \<noteq> None" for a
    using Cons.prems(3) [of a] by auto
  from Cons.IH [OF v ok this] show ?case by (auto simp: dom_def split: if_splits)
qed simp

lemma build_auth_chain_correct:
  assumes wf: "wf {(a, e). e \<in> unp \<and> a \<in> unp \<and> a \<in> set (auths_of direct e)}" and e: "e \<in> unp"
    and memo: "memo_ok direct unp memo" and out: "\<And>e. e \<notin> unp \<Longrightarrow> auths_of direct e = []"
  shows "\<exists>memo'. build_auth_chain direct unp e memo = Some memo' \<and> memo_ok direct unp memo' \<and>
    insert e (dom memo) \<subseteq> dom memo'"
proof (cases "memo e")
  case None
  from postorder_visit [OF wf e] None obtain vs where
    vs: "postorder_loop direct unp memo [(e, False)] [] = postorder_loop direct unp memo [] vs"
      "visit_ok direct unp memo {} vs" "e \<in> set vs"
    by (metis append_Nil)
  have "postorder_loop direct unp memo [(e, False)] [] = Some vs"
    unfolding vs(1) by (simp add: postorder_loop.simps)
  moreover note fold_chain_of [OF vs(2) memo _ out]
  ultimately show ?thesis
    using None vs(3) by (auto simp: build_auth_chain_def)
qed (use memo in \<open>auto simp: build_auth_chain_def\<close>)

lemma build_all_correct:
  assumes "wf {(a, e). e \<in> unp \<and> a \<in> unp \<and> a \<in> set (auths_of direct e)}" "set ids \<subseteq> unp"
    and "memo_ok direct unp memo" "\<And>e. e \<notin> unp \<Longrightarrow> auths_of direct e = []"
  shows "\<exists>memo'. build_all direct unp ids memo = Some memo' \<and> memo_ok direct unp memo' \<and>
    set ids \<union> dom memo \<subseteq> dom memo'"
  using assms(2,3)
proof (induction ids arbitrary: memo)
  case (Cons e ids)
  then have "e \<in> unp" by simp
  from build_auth_chain_correct [OF assms(1) this Cons.prems(2) assms(4)] obtain memo1 where
    m1: "build_auth_chain direct unp e memo = Some memo1" "memo_ok direct unp memo1"
    "insert e (dom memo) \<subseteq> dom memo1"
    by auto
  from Cons.IH [OF _ m1(2)] Cons.prems obtain memo2 where
    "build_all direct unp ids memo1 = Some memo2" "memo_ok direct unp memo2" "set ids \<union> dom memo1 \<subseteq> dom memo2"
    by auto
  moreover from this(3) m1(3) have "set (e # ids) \<union> dom memo \<subseteq> dom memo2"
    unfolding list.set by blast
  ultimately show ?case using m1(1) by simp
qed simp

section \<open>The difference of the chains\<close>

lemma split_state_set_eq:
  "split_state_set memo unp s =
     (\<Union> ((\<lambda>i. case memo i of Some c \<Rightarrow> c - unp | None \<Rightarrow> {i}) ` snd ` set s),
      \<Union> ((\<lambda>i. case memo i of Some c \<Rightarrow> c \<inter> unp | None \<Rightarrow> {}) ` snd ` set s))"
proof -
  let ?f = "\<lambda>event_id (set_ids, unpersisted_ids).
             case memo event_id of
               Some chain \<Rightarrow> (set_ids \<union> (chain - unp), unpersisted_ids \<union> (chain \<inter> unp))
             | None \<Rightarrow> (insert event_id set_ids, unpersisted_ids)"
  have "fold ?f ids (A, B) =
    (A \<union> \<Union> ((\<lambda>i. case memo i of Some c \<Rightarrow> c - unp | None \<Rightarrow> {i}) ` set ids),
     B \<union> \<Union> ((\<lambda>i. case memo i of Some c \<Rightarrow> c \<inter> unp | None \<Rightarrow> {}) ` set ids))" for ids A B
    by (induction ids arbitrary: A B) (auto split: option.splits)
  then show ?thesis by (simp add: split_state_set_def)
qed

lemma fold_Int: "fold (\<inter>) ss s = s \<inter> \<Inter> (set ss)"
  by (induction ss arbitrary: s) auto

lemma union_minus_intersection_eq:
  "sets \<noteq> [] \<Longrightarrow> union_minus_intersection sets = Inr (\<Union> (set sets) - \<Inter> (set sets))"
  by (cases sets) (auto simp: union_minus_intersection_def fold_Int)

text \<open>The auth chain of a state set in the whole graph: the unpersisted events and the persisted ones.\<close>

definition full_chain :: "(string \<times> string) set \<Rightarrow> string set \<Rightarrow> string set" where
  "full_chain R S = R\<^sup>* `` S"

lemma direct_auth_events_auths:
  assumes "dict_wf unpersisted" "\<And>i e. (i, e) \<in> set unpersisted \<Longrightarrow> ev_event_id e = i"
  shows "auths_of (direct_auth_events unpersisted) i =
    (case map_of unpersisted i of None \<Rightarrow> [] | Some e \<Rightarrow> ev_auth_event_ids e)"
proof -
  have "map_of (fold (\<lambda>e. dict_set (ev_event_id e) (ev_auth_event_ids e)) (map snd u) d) i =
    (case map_of u i of None \<Rightarrow> map_of d i | Some e \<Rightarrow> Some (ev_auth_event_ids e))"
    if "dict_wf u" "\<And>i e. (i, e) \<in> set u \<Longrightarrow> ev_event_id e = i" for u d
    using that
  proof (induction u arbitrary: d)
    case (Cons p u)
    obtain j e where p: "p = (j, e)" by (cases p)
    have u: "dict_wf u" "map_of u j = None" "ev_event_id e = j"
      using Cons.prems p by (auto simp: dict_wf_def map_of_eq_None_iff)
    have "(i', e') \<in> set u \<Longrightarrow> ev_event_id e' = i'" for i' e'
      using Cons.prems(2) by simp
    from Cons.IH [OF u(1) this, of "dict_set j (ev_auth_event_ids e) d"] show ?case
      using u(2,3) p by (simp split: option.splits)
  qed simp
  from this [OF assms] show ?thesis
    by (simp add: auths_of_def direct_auth_events_def split: option.splits)
qed

text \<open>The chain of an event in the whole graph, where unpersisted events cite by \<open>direct\<close> and persisted
  events cite persisted events by \<open>P\<close>.\<close>

lemma full_chain_split:
  assumes out: "\<And>e. e \<notin> unp \<Longrightarrow> auths_of direct e = []" and P: "P \<subseteq> (- unp) \<times> (- unp)"
  shows "full_chain (direct_rel direct \<union> P) S =
    (\<Union>i \<in> S. closure_of direct i \<inter> unp) \<union> full_chain P (\<Union>i \<in> S. closure_of direct i - unp)"
    (is "?L = ?B \<union> ?A")
proof
  have PS: "P\<^sup>* `` X \<inter> unp = {}" if "X \<inter> unp = {}" for X
  proof -
    have "b \<notin> unp" if "(a, b) \<in> P\<^sup>*" "a \<notin> unp" for a b
      using that by induction (use P in auto)
    then show ?thesis using that by blast
  qed
  show "?L \<subseteq> ?B \<union> ?A"
  proof
    fix b
    assume "b \<in> ?L"
    then obtain i where i: "i \<in> S" "(i, b) \<in> (direct_rel direct \<union> P)\<^sup>*"
      by (auto simp: full_chain_def)
    from i(2) show "b \<in> ?B \<union> ?A"
    proof induction
      case base
      have "i \<in> closure_of direct i" by (simp add: closure_of_def)
      then show ?case using i(1) by (cases "i \<in> unp") (auto simp: full_chain_def)
    next
      case (step y z)
      show ?case
      proof (cases "(y, z) \<in> direct_rel direct")
        case True
        then have "y \<in> unp" using out by (force simp: direct_rel_def)
        then have "y \<in> ?B" using step.IH PS [of "\<Union>i \<in> S. closure_of direct i - unp"]
          by (auto simp: full_chain_def)
        then obtain j where "j \<in> S" "y \<in> closure_of direct j" by auto
        then have "z \<in> closure_of direct j"
          using True by (auto simp: closure_of_def intro: rtrancl_into_rtrancl)
        then show ?thesis using \<open>j \<in> S\<close> by (cases "z \<in> unp") (auto simp: full_chain_def)
      next
        case False
        then have "(y, z) \<in> P" "y \<notin> unp" using step.hyps P by auto
        then show ?thesis using step.IH by (auto simp: full_chain_def intro: rtrancl_into_rtrancl)
      qed
    qed
  qed
  have D: "(a, b) \<in> (direct_rel direct)\<^sup>* \<Longrightarrow> (a, b) \<in> (direct_rel direct \<union> P)\<^sup>*"
    and Q: "(a, b) \<in> P\<^sup>* \<Longrightarrow> (a, b) \<in> (direct_rel direct \<union> P)\<^sup>*" for a b
    by (auto intro: in_rtrancl_UnI)
  show "?B \<union> ?A \<subseteq> ?L"
    unfolding full_chain_def closure_of_def by (auto intro: D rtrancl_trans [OF D Q])
qed

lemma partition_difference:
  assumes "\<And>s. s \<in> SS \<Longrightarrow> A s \<inter> U = {}" "\<And>s. s \<in> SS \<Longrightarrow> B s \<subseteq> U"
  shows "(\<Union>s \<in> SS. B s \<union> A s) - (\<Inter>s \<in> SS. B s \<union> A s) =
    ((\<Union>s \<in> SS. A s) - (\<Inter>s \<in> SS. A s)) \<union> ((\<Union>s \<in> SS. B s) - (\<Inter>s \<in> SS. B s))"
proof (rule set_eqI)
  fix y
  show "y \<in> (\<Union>s \<in> SS. B s \<union> A s) - (\<Inter>s \<in> SS. B s \<union> A s) \<longleftrightarrow>
    y \<in> ((\<Union>s \<in> SS. A s) - (\<Inter>s \<in> SS. A s)) \<union> ((\<Union>s \<in> SS. B s) - (\<Inter>s \<in> SS. B s))"
  proof (cases "y \<in> U")
    case True
    then have "y \<notin> A s" if "s \<in> SS" for s using assms(1) that by blast
    then show ?thesis by auto
  next
    case False
    then have "y \<notin> B s" if "s \<in> SS" for s using assms(2) that by blast
    then show ?thesis by auto
  qed
qed

text \<open>The direct auth events are those of the events that are not persisted.\<close>

lemma direct_auths:
  fixes unpersisted :: evdict
  assumes "dict_wf unpersisted" "\<forall>i e. (i, e) \<in> set unpersisted \<longrightarrow> ev_event_id e = i"
  shows "a \<in> set (auths_of (direct_auth_events unpersisted) e) \<longleftrightarrow>
      (\<exists>ev. map_of unpersisted e = Some ev \<and> a \<in> set (ev_auth_event_ids ev))"
    and "e \<notin> fst ` set unpersisted \<Longrightarrow> auths_of (direct_auth_events unpersisted) e = []"
    and "direct_rel (direct_auth_events unpersisted) =
      {(e, a). \<exists>ev. map_of unpersisted e = Some ev \<and> a \<in> set (ev_auth_event_ids ev)}"
proof -
  have au: "auths_of (direct_auth_events unpersisted) i =
      (case map_of unpersisted i of None \<Rightarrow> [] | Some e \<Rightarrow> ev_auth_event_ids e)" for i
    using direct_auth_events_auths assms by blast
  show mem: "a \<in> set (auths_of (direct_auth_events unpersisted) e) \<longleftrightarrow>
      (\<exists>ev. map_of unpersisted e = Some ev \<and> a \<in> set (ev_auth_event_ids ev))" for a e
    unfolding au by (cases "map_of unpersisted e") auto
  show "e \<notin> fst ` set unpersisted \<Longrightarrow> auths_of (direct_auth_events unpersisted) e = []"
    using au map_of_eq_None_iff [of unpersisted e] by simp
  show "direct_rel (direct_auth_events unpersisted) =
      {(e, a). \<exists>ev. map_of unpersisted e = Some ev \<and> a \<in> set (ev_auth_event_ids ev)}"
    unfolding direct_rel_def mem ..
qed

lemma build_all_closures:
  assumes "wf {(a, e). e \<in> set us \<and> a \<in> set us \<and> a \<in> set (auths_of direct e)}"
    and "\<And>e. e \<notin> set us \<Longrightarrow> auths_of direct e = []"
  shows "\<exists>memo. build_all direct (set us) us Map.empty = Some memo \<and>
    (\<forall>i. memo i = (if i \<in> set us then Some (closure_of direct i) else None))"
proof -
  from build_all_correct [OF assms(1), of us Map.empty] assms(2) obtain memo where
    memo: "build_all direct (set us) us Map.empty = Some memo" "memo_ok direct (set us) memo" "set us \<subseteq> dom memo"
    by (auto simp: memo_ok_def)
  have "memo i = (if i \<in> set us then Some (closure_of direct i) else None)" for i
    using memo(2,3) by (cases "memo i") (auto simp: memo_ok_def)
  with memo(1) show ?thesis by blast
qed

lemma split_closures:
  assumes "\<And>i. memo i = (if i \<in> unp then Some (closure_of direct i) else None)"
    and "\<And>i. i \<notin> unp \<Longrightarrow> closure_of direct i = {i}"
  shows "split_state_set memo unp s =
    (\<Union>i \<in> snd ` set s. closure_of direct i - unp, \<Union>i \<in> snd ` set s. closure_of direct i \<inter> unp)"
proof -
  have "(case memo i of Some c \<Rightarrow> c - unp | None \<Rightarrow> {i}) = closure_of direct i - unp"
    "(case memo i of Some c \<Rightarrow> c \<inter> unp | None \<Rightarrow> {}) = closure_of direct i \<inter> unp" for i
    using assms(1) [of i] assms(2) [of i] by auto
  then show ?thesis unfolding split_state_set_eq by simp
qed

lemma full_chain_outside:
  assumes "P \<subseteq> (- U) \<times> (- U)" "S \<inter> U = {}"
  shows "full_chain P S \<inter> U = {}"
proof -
  have "b \<notin> U" if "(a, b) \<in> P\<^sup>*" "a \<notin> U" for a b
    using that by induction (use assms(1) in auto)
  then show ?thesis using assms(2) by (auto simp: full_chain_def)
qed

text \<open>C15: the auth chain difference for state resolution v2. Suppose auth events do not form a cycle,
  persisted events cite only persisted events, and the store answers with the union less the
  intersection of the persisted auth chains it is asked about. Then the in-memory computation
  returns, and its result is the union less the intersection of the complete auth chains of the
  state sets, over unpersisted and persisted events together.\<close>

theorem auth_chain_difference_correct:
  assumes "dict_wf unpersisted" "\<forall>i e. (i, e) \<in> set unpersisted \<longrightarrow> ev_event_id e = i"
    and "state_sets \<noteq> []"
    and "wf {(a, e). \<exists>ev. map_of unpersisted e = Some ev \<and> a \<in> set (ev_auth_event_ids ev) \<and> a \<in> fst ` set unpersisted}"
    and "P \<subseteq> (- fst ` set unpersisted) \<times> (- fst ` set unpersisted)"
    and "\<forall>sets. sets \<noteq> [] \<longrightarrow> sd_conflicted_subgraph (store_diff sets None {}) = None \<and>
      sd_auth_difference (store_diff sets None {}) = \<Union> (full_chain P ` set sets) - \<Inter> (full_chain P ` set sets)"
  shows "get_auth_chain_difference state_sets unpersisted store_diff rust None False =
    (let R = {(e, a). \<exists>ev. map_of unpersisted e = Some ev \<and> a \<in> set (ev_auth_event_ids ev)} \<union> P;
         chain_sets = (\<lambda>s. full_chain R (snd ` set s)) ` set state_sets
     in Some (Inr (\<Union> chain_sets - \<Inter> chain_sets)))"
proof -
  let ?unp = "fst ` set unpersisted" and ?direct = "direct_auth_events unpersisted"
  note direct = direct_auths [OF assms(1,2)]
  have wf: "wf {(a, e). e \<in> ?unp \<and> a \<in> ?unp \<and> a \<in> set (auths_of ?direct e)}"
    unfolding direct(1) by (rule wf_subset [OF assms(4)]) auto
  obtain memo where memo: "build_all ?direct ?unp (map fst unpersisted) Map.empty = Some memo"
    and m: "\<And>i. memo i = (if i \<in> ?unp then Some (closure_of ?direct i) else None)"
    using build_all_closures [of "map fst unpersisted" ?direct] wf direct(2) by auto
  let ?A = "\<lambda>s. \<Union>i \<in> snd ` set s. closure_of ?direct i - ?unp"
  let ?B = "\<lambda>s. \<Union>i \<in> snd ` set s. closure_of ?direct i \<inter> ?unp"
  have self: "i \<notin> ?unp \<Longrightarrow> closure_of ?direct i = {i}" for i
    using direct(2) closure_of_unfold [of ?direct i] by simp
  have split: "split_state_set memo ?unp s = (?A s, ?B s)" for s by (rule split_closures [OF m self])
  have chain: "full_chain (direct_rel ?direct \<union> P) (snd ` set s) = ?B s \<union> full_chain P (?A s)" for s
    by (rule full_chain_split [OF direct(2) assms(5)])
  have disj: "full_chain P (?A s) \<inter> ?unp = {}" for s
    by (rule full_chain_outside [OF assms(5)]) auto
  have store: "sd_conflicted_subgraph (store_diff (map ?A state_sets) None {}) = None"
    "sd_auth_difference (store_diff (map ?A state_sets) None {}) =
      (\<Union>s \<in> set state_sets. full_chain P (?A s)) - (\<Inter>s \<in> set state_sets. full_chain P (?A s))"
    using assms(3,6) by (simp_all add: image_image)
  have cr: "conflicted_reach memo ?unp [] = ({}, {})"
    by (simp add: conflicted_reach_def)
  have ids: "(if unpersisted = [] then map (\<lambda>s. snd ` set s) state_sets else map fst (map (split_state_set memo ?unp) state_sets))
      = map ?A state_sets"
    using self by (force simp: split)
  have unp: "(if unpersisted = [] then Inr {} else union_minus_intersection (map snd (map (split_state_set memo ?unp) state_sets)))
      = Inr ((\<Union>s \<in> set state_sets. ?B s) - (\<Inter>s \<in> set state_sets. ?B s))"
    using assms(3) by (simp add: split union_minus_intersection_eq image_image)
  have "get_auth_chain_difference state_sets unpersisted store_diff rust None False =
    Some (Inr (((\<Union>s \<in> set state_sets. full_chain P (?A s)) - (\<Inter>s \<in> set state_sets. full_chain P (?A s))) \<union>
      ((\<Union>s \<in> set state_sets. ?B s) - (\<Inter>s \<in> set state_sets. ?B s))))"
    unfolding get_auth_chain_difference_def Let_def memo bind.bind_lunit ids unp option.case cr
      fst_conv snd_conv if_cancel option.map(1) sum.case store
    by simp
  also have "\<dots> = Some (Inr ((\<Union>s \<in> set state_sets. ?B s \<union> full_chain P (?A s)) -
      (\<Inter>s \<in> set state_sets. ?B s \<union> full_chain P (?A s))))"
    by (subst partition_difference [where U = ?unp, symmetric]) (use disj in auto)
  finally show ?thesis
    unfolding Let_def image_image direct(3) [symmetric] chain .
qed

text \<open>Two state sets that differ in the power levels event, one of them not persisted.\<close>

definition sample_diff_store :: store_difference where
  "sample_diff_store sets c a =
     \<lparr>sd_auth_difference = \<Union> (full_chain {(''$p1'', ''$create'')} ` set sets) -
        \<Inter> (full_chain {(''$p1'', ''$create'')} ` set sets), sd_conflicted_subgraph = None\<rparr>"

definition sample_unpersisted :: evdict where
  "sample_unpersisted = [(''$p2'', sample_levels\<lparr>ev_event_id := ''$p2'', ev_auth_event_ids := [''$p1'', ''$create'']\<rparr>)]"

theorem auth_chain_difference_correct_witness:
  "get_auth_chain_difference [[(PL_KEY, ''$p1'')], [(PL_KEY, ''$p2'')]] sample_unpersisted sample_diff_store
     None None False = Some (Inr {''$p2''})"
proof -
  let ?u = "sample_unpersisted" and ?P = "{(''$p1'', ''$create'')}"
  let ?R = "{(e, a). \<exists>ev. map_of ?u e = Some ev \<and> a \<in> set (ev_auth_event_ids ev)} \<union> ?P"
  have u: "map_of ?u e = Some ev \<longleftrightarrow> e = ''$p2'' \<and> ev = snd (hd ?u)" for e ev
    by (auto simp: sample_unpersisted_def)
  have R: "?R = {(''$p2'', ''$p1''), (''$p2'', ''$create''), (''$p1'', ''$create'')}"
    unfolding u by (auto simp: sample_unpersisted_def)
  have "get_auth_chain_difference [[(PL_KEY, ''$p1'')], [(PL_KEY, ''$p2'')]] ?u sample_diff_store None None False =
    (let R = ?R; chain_sets = (\<lambda>s. full_chain R (snd ` set s)) ` set [[(PL_KEY, ''$p1'')], [(PL_KEY, ''$p2'')]]
     in Some (Inr (\<Union> chain_sets - \<Inter> chain_sets)))"
  proof (rule auth_chain_difference_correct)
    show "wf {(a, e). \<exists>ev. map_of ?u e = Some ev \<and> a \<in> set (ev_auth_event_ids ev) \<and> a \<in> fst ` set ?u}"
      unfolding u by (rule wf_subset [OF wf_measure [of "\<lambda>_. 0"]]) (auto simp: sample_unpersisted_def)
  qed (auto simp: sample_unpersisted_def sample_diff_store_def dict_wf_def)
  moreover have "full_chain ?R {''$p1''} = {''$p1'', ''$create''}"
  proof -
    have "(''$p1'', b) \<in> ?R\<^sup>* \<Longrightarrow> b \<in> {''$p1'', ''$create''}" for b
      unfolding R by (induction rule: rtrancl_induct) auto
    then show ?thesis unfolding full_chain_def R by auto
  qed
  moreover have "full_chain ?R {''$p2''} = {''$p2'', ''$p1'', ''$create''}"
  proof -
    have "(''$p2'', b) \<in> ?R\<^sup>* \<Longrightarrow> b \<in> {''$p2'', ''$p1'', ''$create''}" for b
      unfolding R by (induction rule: rtrancl_induct) auto
    then show ?thesis unfolding full_chain_def R by auto
  qed
  ultimately show ?thesis by (auto simp: Let_def)
qed

end
