(* ===== verification/State_Res_Store.thy ===== *)
theory State_Res_Store
  imports State_Res_Props Auth_Diff
begin

text \<open>
  \<^verbatim>\<open>resolve_events_with_store\<close> of \<^verbatim>\<open>synapse/state/v2.py\<close>: separating the state sets, prefetching the
  events, choosing the base state, the cache of resolutions, the Rust resolver with its Python
  fallback, and layering the unconflicted state over the result. The Rust functions, the store and
  the digest of the cache key are parameters.
\<close>

text \<open>The externals. A Rust function gives \<open>None\<close> when it raises.\<close>

record resolver_ext =
  re_store :: "string \<rightharpoonup> event"
  re_store_difference :: store_difference
  re_rust_difference :: "(state_key, string) dict list \<Rightarrow> evdict \<Rightarrow> string set option"
  re_rust_resolve :: "(state_key, string) dict \<Rightarrow> string list \<Rightarrow> evdict \<Rightarrow> room_version \<Rightarrow> (state_key, string) dict option"
  re_digest :: "string \<times> string \<times> string list \<times> string list \<Rightarrow> string"

section \<open>Prefetching\<close>

text \<open>Is every event of the auth chains of the state sets in the map: the loop that sets
  \<^verbatim>\<open>complete_event_graph\<close>. The last element of the list is popped.\<close>

function complete_graph_loop :: "evdict \<Rightarrow> string list \<Rightarrow> string list \<Rightarrow> bool" where
  "complete_graph_loop event_map to_check checked =
     (if to_check = [] then True
      else
        let event_id = last to_check; rest = butlast to_check in
        if event_id \<in> set checked then complete_graph_loop event_map rest checked
        else (case map_of event_map event_id of
                None \<Rightarrow> False
              | Some event \<Rightarrow>
                  complete_graph_loop event_map (rest @ ev_auth_event_ids event) (event_id # checked)))"
  by pat_completeness auto
termination
proof (relation "(\<lambda>(em, tc, ch). card (fst ` set em - set ch)) <*mlex*> measure (\<lambda>(em, tc, ch). length tc)", goal_cases)
  case 1
  show ?case by (simp add: wf_mlex)
next
  case 2
  then show ?case by (auto intro!: mlex_leq)
next
  case (3 em tc ch i rest e)
  then have "i \<in> fst ` set em - set ch" by (force dest: map_of_SomeD)
  then have "card (fst ` set em - set (i # ch)) < card (fst ` set em - set ch)"
    by (intro psubset_card_mono) auto
  then show ?case by (simp add: mlex_less)
qed

declare complete_graph_loop.simps [simp del]

definition is_complete_event_graph :: "room_version \<Rightarrow> (state_key, string) dict list \<Rightarrow> evdict \<Rightarrow> bool" where
  "is_complete_event_graph room_version state_sets event_map =
     (let ids = concat (map (map snd) state_sets) in
      rv_state_res room_version = SR_V2 \<and>
      list_all (\<lambda>i. map_of event_map i \<noteq> None) ids \<and> complete_graph_loop event_map ids [])"

text \<open>The edges the resolver walks: \<^verbatim>\<open>prev_state_events\<close> in state-DAG rooms, auth events elsewhere.\<close>

definition chain_edges :: "event \<Rightarrow> string list" where
  "chain_edges e = (if supports_msc4242_state_dag e then ev_prev_state_events e else ev_auth_event_ids e)"

definition initial_to_fetch ::
  "evdict \<Rightarrow> string list \<Rightarrow> (state_key, string) dict \<Rightarrow> string list" where
  "initial_to_fetch event_map full_conflicted_set unconflicted =
     remdups (filter (\<lambda>i. map_of event_map i = None)
       (full_conflicted_set @ map snd unconflicted @ concat (map (chain_edges \<circ> snd) event_map)))"

text \<open>One round of the loop: fetch, and collect the edges of the fetched events that are unknown.\<close>

definition fetch_events :: "(string \<rightharpoonup> event) \<Rightarrow> string list \<Rightarrow> evdict \<Rightarrow> evdict" where
  "fetch_events store to_fetch event_map =
     fold (\<lambda>i em. case store i of None \<Rightarrow> em | Some e \<Rightarrow> dict_set i e em) to_fetch event_map"

definition next_to_fetch :: "string list \<Rightarrow> evdict \<Rightarrow> string list" where
  "next_to_fetch to_fetch event_map =
     remdups (filter (\<lambda>i. map_of event_map i = None)
       (concat (map (\<lambda>i. case map_of event_map i of None \<Rightarrow> [] | Some e \<Rightarrow> chain_edges e) to_fetch)))"

partial_function (option) prefetch_loop ::
  "(string \<rightharpoonup> event) \<Rightarrow> string list \<Rightarrow> evdict \<Rightarrow> evdict option" where
  "prefetch_loop store to_fetch event_map =
     (if to_fetch = [] then Some event_map
      else
        (let em = fetch_events store to_fetch event_map
         in prefetch_loop store (next_to_fetch to_fetch em) em))"

declare prefetch_loop.simps [code]

section \<open>The base state and the cache\<close>

definition base_state_keys :: "room_version \<Rightarrow> string list \<Rightarrow> evdict \<Rightarrow> state_key set res" where
  "base_state_keys room_version full_conflicted_set event_map =
     bindR (mapR (\<lambda>i. bindR (case map_of event_map i of None \<Rightarrow> Inl KeyError | Some e \<Rightarrow> Inr e)
              (auth_types_for_event room_version)) full_conflicted_set) (\<lambda>kss.
     Inr (insert PL_KEY (\<Union> (set kss))))"

definition choose_base_state ::
  "room_version \<Rightarrow> string list \<Rightarrow> evdict \<Rightarrow> (state_key, string) dict \<Rightarrow> (state_key, string) dict res" where
  "choose_base_state room_version full_conflicted_set event_map unconflicted =
     (case rv_state_res room_version of
        SR_V2 \<Rightarrow>
          bindR (base_state_keys room_version full_conflicted_set event_map) (\<lambda>keys.
          Inr (filter (\<lambda>(k, i). k \<in> keys) unconflicted))
      | SR_V2_1 \<Rightarrow> Inr (filter (\<lambda>(k, i). k \<in> {CREATE_KEY, JR_KEY, PL_KEY}) unconflicted)
      | SR_V1 \<Rightarrow> Inr [])"

text \<open>\<^verbatim>\<open>_conflict_cache_key\<close>: a digest of the room, the version, the conflicted events and the base state.\<close>

definition conflict_cache_key ::
  "resolver_ext \<Rightarrow> string \<Rightarrow> room_version \<Rightarrow> string list \<Rightarrow> (state_key, string) dict \<Rightarrow> string" where
  "conflict_cache_key re room_id room_version full_conflicted_set base_state =
     re_digest re (room_id, rv_identifier room_version, sort full_conflicted_set, sort (map snd base_state))"

text \<open>\<^verbatim>\<open>_resolve_conflicted_set_with_rust\<close>: any exception of the Rust resolver falls back to Python. The
  result is the state as a map, together with the event map as the Python code leaves it.\<close>

definition resolve_conflicted_set_with_rust ::
  "ext \<Rightarrow> resolver_ext \<Rightarrow> string \<Rightarrow> room_version \<Rightarrow> string list \<Rightarrow> (state_key, string) dict \<Rightarrow> evdict
     \<Rightarrow> (state_key \<rightharpoonup> string) res option" where
  "resolve_conflicted_set_with_rust x re room_id room_version full base_state event_map =
     (case (if rv_state_res room_version \<in> {SR_V2, SR_V2_1}
            then re_rust_resolve re base_state full event_map room_version else None) of
        Some resolved \<Rightarrow>
          Some (Inr (map_of (if rv_state_res room_version = SR_V2_1
                             then filter (\<lambda>(k, i). i \<in> set full) resolved else resolved)))
      | None \<Rightarrow>
          map_option (map_sum id (overlay_map \<circ> snd))
            (resolve_conflicted_set x room_id room_version (re_store re) full (Plain base_state)
               (map_of event_map)))"

section \<open>The resolution\<close>

text \<open>The cache of resolutions, \<open>None\<close> when there is none.\<close>

type_synonym conflict_cache = "(string \<rightharpoonup> (state_key \<rightharpoonup> string)) option"

definition resolve_cached ::
  "ext \<Rightarrow> resolver_ext \<Rightarrow> string \<Rightarrow> room_version \<Rightarrow> string list \<Rightarrow> (state_key, string) dict \<Rightarrow> evdict
     \<Rightarrow> conflict_cache \<Rightarrow> (conflict_cache \<times> (state_key \<rightharpoonup> string)) res option" where
  "resolve_cached x re room_id room_version full base_state event_map cache =
     (let key = conflict_cache_key re room_id room_version full base_state in
      case (case cache of None \<Rightarrow> None | Some c \<Rightarrow> c key) of
        Some resolved \<Rightarrow> Some (Inr (cache, resolved))
      | None \<Rightarrow>
          map_option (map_sum id (\<lambda>resolved. (map_option (\<lambda>c. c(key \<mapsto> resolved)) cache, resolved)))
            (resolve_conflicted_set_with_rust x re room_id room_version full base_state event_map))"

definition resolve_events_with_store ::
  "ext \<Rightarrow> resolver_ext \<Rightarrow> string \<Rightarrow> room_version \<Rightarrow> (state_key, string) dict list \<Rightarrow> evdict
     \<Rightarrow> conflict_cache \<Rightarrow> (conflict_cache \<times> (state_key \<rightharpoonup> string)) res option" where
  "resolve_events_with_store x re room_id room_version state_sets event_map cache =
     (let (unconflicted, conflicted) = seperate state_sets in
      if conflicted = [] then Some (Inr (cache, map_of unconflicted))
      else
        (let conflicted_ids = concat (map snd conflicted);
             conflicted_set = (if rv_state_res room_version = SR_V2_1 then Some conflicted_ids else None)
         in
         case get_auth_chain_difference state_sets event_map (re_store_difference re)
                (re_rust_difference re state_sets event_map) conflicted_set
                (is_complete_event_graph room_version state_sets event_map) of
           None \<Rightarrow> None
         | Some (Inl e) \<Rightarrow> Some (Inl e)
         | Some (Inr auth_diff) \<Rightarrow>
             (let full = sorted_list_of_set (set conflicted_ids \<union> auth_diff) in
              case prefetch_loop (re_store re) (initial_to_fetch event_map full unconflicted) event_map of
                None \<Rightarrow> None
              | Some em \<Rightarrow>
                  if list_ex (\<lambda>(i, e). ev_room_id e \<noteq> room_id) em
                  then Some (Inl (GenericException ''Attempting to state-resolve with event in another room''))
                  else
                    (let full = filter (\<lambda>i. map_of em i \<noteq> None) full in
                     case choose_base_state room_version full em unconflicted of
                       Inl e \<Rightarrow> Some (Inl e)
                     | Inr base_state \<Rightarrow>
                         map_option (map_sum id (\<lambda>(cache', resolved). (cache', resolved ++ map_of unconflicted)))
                           (resolve_cached x re room_id room_version full base_state em cache)))))"

section \<open>Properties\<close>

text \<open>The prefetch loop ends when the store holds finitely many events.\<close>

lemma map_of_fetch_events:
  "map_of (fetch_events store fs em) i =
     (if i \<in> set fs \<and> store i \<noteq> None then store i else map_of em i)"
  unfolding fetch_events_def
  by (induction fs arbitrary: em) (auto split: option.splits)

lemma prefetch_loop_total:
  assumes "finite (dom store)" "\<forall>i. i \<in> set fs \<longrightarrow> map_of em i = None"
  shows "\<exists>em'. prefetch_loop store fs em = Some em' \<and> map_of em \<subseteq>\<^sub>m map_of em' \<and>
    (\<forall>i e. map_of em' i = Some e \<longrightarrow> map_of em i = Some e \<or> store i = Some e)"
  using assms(2)
proof (induction "card (dom store - dom (map_of em))" arbitrary: fs em rule: less_induct)
  case less
  let ?em = "fetch_events store fs em"
  have grow: "map_of em \<subseteq>\<^sub>m map_of ?em"
    using less.prems by (auto simp: map_le_def map_of_fetch_events)
  show ?case
  proof (cases "fs = []")
    case True
    then show ?thesis by (simp add: prefetch_loop.simps)
  next
    case False
    have step: "prefetch_loop store fs em = prefetch_loop store (next_to_fetch fs ?em) ?em"
      using False by (subst prefetch_loop.simps) (simp add: Let_def)
    have "\<exists>em'. prefetch_loop store (next_to_fetch fs ?em) ?em = Some em' \<and> map_of ?em \<subseteq>\<^sub>m map_of em' \<and>
      (\<forall>i e. map_of em' i = Some e \<longrightarrow> map_of ?em i = Some e \<or> store i = Some e)"
    proof (cases "next_to_fetch fs ?em = []")
      case True
      then show ?thesis by (simp add: prefetch_loop.simps)
    next
      case False
      then obtain i e where i: "i \<in> set fs" "map_of ?em i = Some e"
        by (fastforce simp: next_to_fetch_def filter_empty_conv split: option.splits)
      then have "i \<in> dom store - dom (map_of em)" "i \<notin> dom store - dom (map_of ?em)"
        using less.prems by (auto simp: map_of_fetch_events split: if_splits)
      moreover have "dom store - dom (map_of ?em) \<subseteq> dom store - dom (map_of em)"
        using map_le_implies_dom_le [OF grow] by blast
      ultimately have "card (dom store - dom (map_of ?em)) < card (dom store - dom (map_of em))"
        using assms(1) by (intro psubset_card_mono) auto
      from less.hyps [OF this] show ?thesis by (auto simp: next_to_fetch_def)
    qed
    then obtain em' where em': "prefetch_loop store (next_to_fetch fs ?em) ?em = Some em'"
      "map_of ?em \<subseteq>\<^sub>m map_of em'" "\<forall>i e. map_of em' i = Some e \<longrightarrow> map_of ?em i = Some e \<or> store i = Some e"
      by blast
    have "map_of ?em i = Some e \<Longrightarrow> map_of em i = Some e \<or> store i = Some e" for i e
      by (auto simp: map_of_fetch_events split: if_splits)
    with em'(3) have "\<forall>i e. map_of em' i = Some e \<longrightarrow> map_of em i = Some e \<or> store i = Some e" by blast
    with em'(1,2) step map_le_trans [OF grow em'(2)] show ?thesis by auto
  qed
qed

lemma map_res_eq_Some_Inr:
  "map_option (map_sum id f) r = Some (Inr y) \<longleftrightarrow> (\<exists>z. r = Some (Inr z) \<and> f z = y)"
proof (cases r)
  case (Some q)
  then show ?thesis by (cases q) auto
qed simp

lemma resolve_cases:
  assumes "resolve_events_with_store x re room rv state_sets em cache = Some (Inr (cache', st))"
  obtains "snd (seperate state_sets) = []" "st = map_of (fst (seperate state_sets))" "cache' = cache"
  | full base em' resolved where "snd (seperate state_sets) \<noteq> []"
    "resolve_cached x re room rv full base em' cache = Some (Inr (cache', resolved))"
    "st = resolved ++ map_of (fst (seperate state_sets))" "\<forall>i e. (i, e) \<in> set em' \<longrightarrow> ev_room_id e = room"
    "choose_base_state rv full em' (fst (seperate state_sets)) = Inr base"
proof (cases "snd (seperate state_sets) = []")
  case True
  then show thesis
    using assms that(1) by (simp add: resolve_events_with_store_def split_beta)
next
  case False
  let ?u = "fst (seperate state_sets)"
  from assms False obtain full base em' where
    room: "\<not> list_ex (\<lambda>(i, e). ev_room_id e \<noteq> room) em'"
    and base: "choose_base_state rv full em' ?u = Inr base"
    and run: "map_option (map_sum id (\<lambda>(cache', resolved). (cache', resolved ++ map_of ?u)))
      (resolve_cached x re room rv full base em' cache) = Some (Inr (cache', st))"
    unfolding resolve_events_with_store_def Let_def split_beta
    by (auto split: if_splits option.splits sum.splits simp del: not_None_eq map_option_eq_Some)
  from run show thesis
    unfolding map_res_eq_Some_Inr
    using that(2) [OF False _ _ _ base] room by (auto simp: list_ex_iff)
qed

text \<open>C16: resolution respects agreement. Whatever the Rust resolver, the store or the cache of
  resolutions return, a key on which all the state sets agree keeps its event in the resolved state;
  and when the state sets agree on everything the result is that common state and the cache is left
  alone.\<close>

theorem unconflicted_state_wins:
  assumes "resolve_events_with_store x re room rv state_sets em cache = Some (Inr (cache', st))"
    and "state_sets \<noteq> []"
  shows "((\<forall>s \<in> set state_sets. map_of s k = Some i) \<longrightarrow> st k = Some i) \<and>
    ((\<forall>s \<in> set state_sets. map_of s = map_of (hd state_sets)) \<longrightarrow> st = map_of (hd state_sets) \<and> cache' = cache)"
proof (intro conjI impI)
  assume "\<forall>s \<in> set state_sets. map_of s k = Some i"
  then have u: "map_of (fst (seperate state_sets)) k = Some i"
    using seperate_unconflicted [OF assms(2)] by simp
  show "st k = Some i"
    using assms(1) by (cases rule: resolve_cases) (use u in auto)
next
  assume same: "\<forall>s \<in> set state_sets. map_of s = map_of (hd state_sets)"
  have "map_of (snd (seperate state_sets)) k = None" for k
    unfolding seperate_conflicted [OF assms(2)] using same by auto
  then have "map_of (snd (seperate state_sets)) = Map.empty" by (intro ext)
  then have none: "snd (seperate state_sets) = []" by simp
  have "map_of (fst (seperate state_sets)) k = map_of (hd state_sets) k" for k
  proof (cases "map_of (hd state_sets) k")
    case (Some i)
    then show ?thesis using seperate_unconflicted [OF assms(2)] same by simp
  next
    case None
    then show ?thesis
      using seperate_unconflicted [OF assms(2), of k] assms(2) by (metis hd_in_set not_None_eq)
  qed
  then have "map_of (fst (seperate state_sets)) = map_of (hd state_sets)" by auto
  then show "st = map_of (hd state_sets)" "cache' = cache"
    using assms(1) none by (auto elim: resolve_cases)
qed

lemma choose_base_state_sub:
  "choose_base_state rv full em u = Inr base \<Longrightarrow> map_of base \<subseteq>\<^sub>m map_of u"
  by (auto simp: choose_base_state_def bindR_eq_Inr map_le_def map_of_filter_key
      split: state_resolution_version.splits if_splits)

definition sample_resolver :: resolver_ext where
  "sample_resolver = \<lparr>re_store = Map.empty, re_store_difference = (\<lambda>sets c a. \<lparr>sd_auth_difference = {}, sd_conflicted_subgraph = None\<rparr>),
     re_rust_difference = (\<lambda>_ _. None), re_rust_resolve = (\<lambda>_ _ _ _. None), re_digest = (\<lambda>_. ''k'')\<rparr>"

definition sample_dict :: evdict where
  "sample_dict = [(''$create'', sample_create), (''$m@a:x'', sample_member ''@a:x'' ''@a:x'' M_JOIN),
     (''$p1'', sample_pl ''$p1'' [''$create'', ''$m@a:x''] 1),
     (''$p2'', sample_pl ''$p2'' [''$create'', ''$m@a:x'', ''$p1''] 2)]"

definition sample_sets :: "(state_key, string) dict list" where
  "sample_sets = [[(CREATE_KEY, ''$create''), ((ET_Member, ''@a:x''), ''$m@a:x''), (PL_KEY, ''$p1'')],
     [(CREATE_KEY, ''$create''), ((ET_Member, ''@a:x''), ''$m@a:x''), (PL_KEY, ''$p2'')]]"

lemma sample_resolution:
  "map_option (map_sum id (\<lambda>p. (fst p = None, snd p PL_KEY)))
     (resolve_events_with_store sample_ext sample_resolver ''!r:x'' RV_V10 sample_sets sample_dict None) =
   Some (Inr (True, Some ''$p2''))"
  by code_simp

theorem unconflicted_state_wins_witness:
  "\<exists>cache' st. resolve_events_with_store sample_ext sample_resolver ''!r:x'' RV_V10 sample_sets sample_dict None =
     Some (Inr (cache', st)) \<and> st CREATE_KEY = Some ''$create''"
proof -
  obtain cache' st where run: "resolve_events_with_store sample_ext sample_resolver ''!r:x'' RV_V10
      sample_sets sample_dict None = Some (Inr (cache', st))"
    using sample_resolution unfolding map_res_eq_Some_Inr by fastforce
  have "\<forall>s \<in> set sample_sets. map_of s CREATE_KEY = Some ''$create''" "sample_sets \<noteq> []"
    by (simp_all add: sample_sets_def)
  with unconflicted_state_wins [OF run] run show ?thesis by blast
qed

end
