(* ===== verification/State_Res_V1.thy ===== *)
theory State_Res_V1
  imports State_Res
begin

text \<open>
  State resolution v1, \<^verbatim>\<open>synapse/state/v1.py\<close>, the algorithm of room version 1. \<^verbatim>\<open>state_map_factory\<close>,
  which fetches events, and \<^verbatim>\<open>hashlib.sha1(...).hexdigest()\<close> are arguments. A set that the code iterates
  over is a list without duplicates; the iteration over auth types is in the order of the keys. Only the identifiers of events are
  returned, so the flag that the redaction rule may set on an event is not kept. The theorems say what
  can be the result, and that it does not depend on the order of the state sets.
\<close>

section \<open>The algorithm\<close>

type_synonym id_state = "(state_key, string) dict"
type_synonym conflicts = "(state_key, string list) dict"

definition seperate_entry :: "state_key \<times> string \<Rightarrow> id_state \<times> conflicts \<Rightarrow> id_state \<times> conflicts" where
  "seperate_entry kv st =
     (let (key, value) = kv; (unconflicted, conflicted) = st in
      case map_of unconflicted key of
        None \<Rightarrow>
          (case map_of conflicted key of
             None \<Rightarrow> (dict_set key value unconflicted, conflicted)
           | Some ls \<Rightarrow> (unconflicted, dict_set key (List.insert value ls) conflicted))
      | Some unconflicted_value \<Rightarrow>
          if unconflicted_value \<noteq> value
          then (dict_pop key unconflicted, dict_set key [value, unconflicted_value] conflicted)
          else (unconflicted, conflicted))"

text \<open>\<^verbatim>\<open>next\<close> on an empty sequence raises \<^verbatim>\<open>StopIteration\<close>, which leaves the coroutine as \<^verbatim>\<open>RuntimeError\<close>.\<close>

fun v1_seperate :: "id_state list \<Rightarrow> (id_state \<times> conflicts) res" where
  "v1_seperate [] = Inl RuntimeError"
| "v1_seperate (s # state_sets) = Inr (fold (fold seperate_entry) state_sets (s, []))"

text \<open>\<^verbatim>\<open>_ordered_events\<close>.\<close>

definition event_rank :: "(string \<Rightarrow> string) \<Rightarrow> event \<Rightarrow> int \<times> string" where
  "event_rank sha1 e = (- ev_depth e, sha1 (ev_event_id e))"

definition ordered_events :: "(string \<Rightarrow> string) \<Rightarrow> event list \<Rightarrow> event list" where
  "ordered_events sha1 events = sort_key (event_rank sha1) events"

text \<open>The call of the rules in a \<^verbatim>\<open>try\<close> that catches \<^verbatim>\<open>AuthError\<close>.\<close>

definition auth_passes :: "ext \<Rightarrow> event \<Rightarrow> (state_key, event) dict \<Rightarrow> bool res" where
  "auth_passes x event auth_events =
     (case check_state_dependent_auth_rules x event (map snd auth_events) of
        Inl err \<Rightarrow> if is_auth_error err then Inr False else Inl err
      | Inr _ \<Rightarrow> Inr True)"

fun resolve_auth_loop :: "ext \<Rightarrow> (state_key, event) dict \<Rightarrow> event \<Rightarrow> event list \<Rightarrow> event res" where
  "resolve_auth_loop x auth_events prev_event [] = Inr prev_event"
| "resolve_auth_loop x auth_events prev_event (event # rest) =
     bindR (state_key_attr prev_event) (\<lambda>k.
     let auth_events = dict_set (ev_type prev_event, k) prev_event auth_events in
     bindR (auth_passes x event auth_events) (\<lambda>ok.
       if ok then resolve_auth_loop x auth_events event rest else Inr prev_event))"

definition resolve_auth_events ::
  "ext \<Rightarrow> (string \<Rightarrow> string) \<Rightarrow> room_version \<Rightarrow> event list \<Rightarrow> (state_key, event) dict \<Rightarrow> event res" where
  "resolve_auth_events x sha1 room_version events auth_events =
     bindR (mapR (auth_types_for_event room_version) events) (\<lambda>kss.
     let new_auth_events = List.map_filter (\<lambda>key. map_option (Pair key) (map_of auth_events key))
           (sorted_list_of_set (\<Union> (set kss)))
     in case rev (ordered_events sha1 events) of
          [] \<Rightarrow> Inl IndexError
        | prev_event # rest \<Rightarrow> resolve_auth_loop x new_auth_events prev_event rest)"

text \<open>After the loop \<^verbatim>\<open>event\<close> is the last one; it is unbound where there was none.\<close>

fun resolve_normal_loop :: "ext \<Rightarrow> (state_key, event) dict \<Rightarrow> event list \<Rightarrow> event res" where
  "resolve_normal_loop x auth_events [] = Inl NameError"
| "resolve_normal_loop x auth_events (event # rest) =
     bindR (auth_passes x event auth_events) (\<lambda>ok.
       if ok \<or> rest = [] then Inr event else resolve_normal_loop x auth_events rest)"

definition resolve_normal_events ::
  "ext \<Rightarrow> (string \<Rightarrow> string) \<Rightarrow> event list \<Rightarrow> (state_key, event) dict \<Rightarrow> event res" where
  "resolve_normal_events x sha1 events auth_events =
     resolve_normal_loop x auth_events (ordered_events sha1 events)"

text \<open>One pass over the conflicted state, for the keys that satisfy a condition.\<close>

fun resolve_pass ::
  "(state_key \<Rightarrow> bool) \<Rightarrow> (event list \<Rightarrow> event res) \<Rightarrow> (state_key, event list) dict \<Rightarrow> (state_key, event) dict \<Rightarrow>
   (state_key, event) dict res" where
  "resolve_pass P f [] resolved = Inr resolved"
| "resolve_pass P f ((key, events) # rest) resolved =
     (if P key then bindR (f events) (\<lambda>e. resolve_pass P f rest (dict_set key e resolved))
      else resolve_pass P f rest resolved)"

definition resolve_state_events ::
  "ext \<Rightarrow> (string \<Rightarrow> string) \<Rightarrow> room_version \<Rightarrow> (state_key, event list) dict \<Rightarrow> (state_key, event) dict \<Rightarrow>
   (state_key, event) dict res" where
  "resolve_state_events x sha1 room_version conflicted_state auth_events =
     bindR (case map_of conflicted_state PL_KEY of
              None \<Rightarrow> Inr []
            | Some events \<Rightarrow>
                bindR (resolve_auth_events x sha1 room_version events auth_events) (\<lambda>e. Inr [(PL_KEY, e)])) (\<lambda>power.
     let auth1 = dict_update auth_events power in
     bindR (resolve_pass (\<lambda>key. fst key = ET_JoinRules)
              (\<lambda>events. resolve_auth_events x sha1 room_version events auth1) conflicted_state power) (\<lambda>rules.
     let auth2 = dict_update auth1 rules in
     bindR (resolve_pass (\<lambda>key. fst key = ET_Member)
              (\<lambda>events. resolve_auth_events x sha1 room_version events auth2) conflicted_state rules) (\<lambda>members.
     let auth3 = dict_update auth2 members in
     resolve_pass (\<lambda>key. map_of members key = None)
       (\<lambda>events. resolve_normal_events x sha1 events auth3) conflicted_state members)))"

text \<open>The last loop tests \<^verbatim>\<open>key not in resolved_state\<close> while it adds to \<^verbatim>\<open>resolved_state\<close>; each key occurs
  once in the dictionary it runs over, so testing the state before the loop is the same.\<close>

definition add_auth_key :: "id_state \<Rightarrow> state_key \<Rightarrow> id_state \<Rightarrow> id_state" where
  "add_auth_key unconflicted key auth_events =
     (if map_of auth_events key = None then
        (case map_of unconflicted key of
           None \<Rightarrow> auth_events
         | Some i \<Rightarrow> if i = '''' then auth_events else dict_set key i auth_events)
      else auth_events)"

fun create_auth_events ::
  "room_version \<Rightarrow> id_state \<Rightarrow> (string \<rightharpoonup> event) \<Rightarrow> string list \<Rightarrow> id_state \<Rightarrow> id_state res" where
  "create_auth_events rv unconflicted state_map [] auth_events = Inr auth_events"
| "create_auth_events rv unconflicted state_map (event_id # rest) auth_events =
     (case state_map event_id of
        None \<Rightarrow> create_auth_events rv unconflicted state_map rest auth_events
      | Some event \<Rightarrow>
          bindR (auth_types_for_event rv event) (\<lambda>keys.
            create_auth_events rv unconflicted state_map rest
              (fold (add_auth_key unconflicted) (sorted_list_of_set keys) auth_events)))"

definition create_auth_events_from_maps ::
  "room_version \<Rightarrow> id_state \<Rightarrow> conflicts \<Rightarrow> (string \<rightharpoonup> event) \<Rightarrow> id_state res" where
  "create_auth_events_from_maps rv unconflicted conflicted state_map =
     create_auth_events rv unconflicted state_map (concat (map snd conflicted)) []"

text \<open>The first loop of \<^verbatim>\<open>_resolve_with_state\<close>.\<close>

fun known_conflicts ::
  "(string \<rightharpoonup> event) \<Rightarrow> conflicts \<Rightarrow> id_state \<times> (state_key, event list) dict \<Rightarrow>
   id_state \<times> (state_key, event list) dict" where
  "known_conflicts state_map [] acc = acc"
| "known_conflicts state_map ((key, event_ids) # rest) (unconflicted, conflicted) =
     known_conflicts state_map rest
       (case List.map_filter state_map event_ids of
          [] \<Rightarrow> (unconflicted, conflicted)
        | [e] \<Rightarrow> (dict_set key (ev_event_id e) unconflicted, conflicted)
        | es \<Rightarrow> (unconflicted, dict_set key es conflicted))"

definition resolve_with_state ::
  "ext \<Rightarrow> (string \<Rightarrow> string) \<Rightarrow> room_version \<Rightarrow> id_state \<Rightarrow> conflicts \<Rightarrow> id_state \<Rightarrow> (string \<rightharpoonup> event) \<Rightarrow> id_state res" where
  "resolve_with_state x sha1 rv unconflicted_ids conflicted_ids auth_event_ids state_map =
     (let (unconflicted, conflicted) = known_conflicts state_map conflicted_ids (unconflicted_ids, []);
          auth_events = List.map_filter (\<lambda>(key, i). map_option (Pair key) (state_map i)) auth_event_ids
      in bindR (resolve_state_events x sha1 rv conflicted auth_events) (\<lambda>resolved.
           Inr (dict_update unconflicted (map (\<lambda>(key, e). (key, ev_event_id e)) resolved))))"

definition check_rooms :: "string \<Rightarrow> (string, event) dict \<Rightarrow> unit res" where
  "check_rooms room_id events =
     forR (\<lambda>(i, e). raise_if (ev_room_id e \<noteq> room_id)
       (GenericException ''Attempting to state-resolve for room with event which is in another'')) events"

definition v1_resolve_events_with_store ::
  "ext \<Rightarrow> (string \<Rightarrow> string) \<Rightarrow> string \<Rightarrow> room_version \<Rightarrow> id_state list \<Rightarrow> (string, event) dict option \<Rightarrow>
   (string set \<Rightarrow> (string, event) dict) \<Rightarrow> id_state res" where
  "v1_resolve_events_with_store x sha1 room_id rv state_sets event_map state_map_factory =
     (if length state_sets = 1 then Inr (hd state_sets)
      else
        bindR (v1_seperate state_sets) (\<lambda>(unconflicted, conflicted).
        let in_flight = (case event_map of None \<Rightarrow> [] | Some m \<Rightarrow> m);
            needed_events = set (concat (map snd conflicted)) - fst ` set in_flight;
            state_map = dict_update (state_map_factory needed_events) in_flight in
        bindR (check_rooms room_id state_map) (\<lambda>_.
        bindR (create_auth_events_from_maps rv unconflicted conflicted (map_of state_map)) (\<lambda>auth_events.
        let new_needed_events = set (map snd auth_events) - needed_events - fst ` set in_flight;
            state_map_new = state_map_factory new_needed_events in
        bindR (check_rooms room_id state_map_new) (\<lambda>_.
        resolve_with_state x sha1 rv unconflicted conflicted auth_events
          (map_of (dict_update state_map state_map_new)))))))"

section \<open>The separation\<close>

definition candidates :: "id_state list \<Rightarrow> state_key \<Rightarrow> string set" where
  "candidates state_sets k = {i. \<exists>s \<in> set state_sets. map_of s k = Some i}"

text \<open>What the two dictionaries say of the values seen so far for a key.\<close>

fun sep_key :: "string set \<Rightarrow> string option \<Rightarrow> string list option \<Rightarrow> bool" where
  "sep_key X (Some i) c \<longleftrightarrow> X = {i} \<and> c = None"
| "sep_key X None None \<longleftrightarrow> X = {}"
| "sep_key X None (Some ls) \<longleftrightarrow> distinct ls \<and> set ls = X \<and> 2 \<le> length ls"

definition sep_ok :: "(state_key \<Rightarrow> string set) \<Rightarrow> id_state \<times> conflicts \<Rightarrow> bool" where
  "sep_ok cand st \<longleftrightarrow> dict_wf (fst st) \<and> dict_wf (snd st) \<and>
     (\<forall>k. sep_key (cand k) (map_of (fst st) k) (map_of (snd st) k))"

lemma sep_okD: "sep_ok cand (u, c) \<Longrightarrow> sep_key (cand k) (map_of u k) (map_of c k)"
  unfolding sep_ok_def fst_conv snd_conv by blast

lemma sep_okI:
  "dict_wf u \<Longrightarrow> dict_wf c \<Longrightarrow> (\<And>k. sep_key (cand k) (map_of u k) (map_of c k)) \<Longrightarrow> sep_ok cand (u, c)"
  unfolding sep_ok_def fst_conv snd_conv by blast

lemma seperate_entry_ok:
  assumes "sep_ok cand st"
  shows "sep_ok (cand(k := insert v (cand k))) (seperate_entry (k, v) st)"
proof -
  obtain u c where st: "st = (u, c)" by force
  have wf: "dict_wf u" "dict_wf c" using assms by (simp_all add: sep_ok_def st)
  note keys = sep_okD [OF assms [unfolded st]]
  consider (new) "map_of u k = None" "map_of c k = None" | (more) ls where "map_of u k = None" "map_of c k = Some ls"
    | (same) "map_of u k = Some v" | (conflict) i where "map_of u k = Some i" "i \<noteq> v"
    by (metis option.exhaust)
  then show ?thesis
  proof cases
    case new
    then show ?thesis unfolding st seperate_entry_def using wf keys [of k] keys by (auto intro!: sep_okI)
  next
    case more
    then show ?thesis unfolding st seperate_entry_def using wf keys [of k] keys
      by (auto intro!: sep_okI simp: List.insert_def)
  next
    case same
    then show ?thesis unfolding st seperate_entry_def using wf keys [of k] keys
      by (auto intro!: sep_okI)
  next
    case conflict
    then show ?thesis unfolding st seperate_entry_def using wf keys [of k] keys
      by (auto intro!: sep_okI simp: insert_commute)
  qed
qed

lemma seperate_entries_ok:
  assumes "sep_ok cand st" "dict_wf s"
  shows "sep_ok (\<lambda>k. cand k \<union> set_option (map_of s k)) (fold seperate_entry s st)"
  using assms
proof (induction s arbitrary: cand st)
  case (Cons kv s)
  obtain k v where kv: "kv = (k, v)" by (cases kv) simp
  have "map_of s k = None" using Cons.prems(2) by (simp add: dict_wf_def kv map_of_eq_None_iff)
  then have "(\<lambda>k'. (cand(k := insert v (cand k))) k' \<union> set_option (map_of s k')) =
      (\<lambda>k'. cand k' \<union> set_option (map_of (kv # s) k'))"
    by (auto simp: kv fun_eq_iff)
  with Cons.IH [OF seperate_entry_ok [OF Cons.prems(1), of k v]] Cons.prems(2) show ?case
    by (simp add: dict_wf_def kv)
qed simp

lemma seperate_sets_ok:
  assumes "sep_ok cand st" "\<forall>s \<in> set ss. dict_wf s"
  shows "sep_ok (\<lambda>k. cand k \<union> candidates ss k) (fold (fold seperate_entry) ss st)"
  using assms
proof (induction ss arbitrary: cand st)
  case (Cons s ss)
  have "(\<lambda>k. (cand k \<union> set_option (map_of s k)) \<union> candidates ss k) = (\<lambda>k. cand k \<union> candidates (s # ss) k)"
    by (auto simp: candidates_def fun_eq_iff)
  with Cons.IH [OF seperate_entries_ok [OF Cons.prems(1), of s]] Cons.prems(2) show ?case by simp
qed (simp add: candidates_def)

lemma v1_seperate_ok:
  assumes "state_sets \<noteq> []" "\<forall>s \<in> set state_sets. dict_wf s"
  shows "\<exists>st. v1_seperate state_sets = Inr st \<and> sep_ok (candidates state_sets) st"
proof -
  obtain s ss where ss: "state_sets = s # ss" using assms(1) by (cases state_sets) auto
  have "sep_ok (\<lambda>k. set_option (map_of s k)) (s, [])"
  proof (rule sep_okI)
    fix k show "sep_key (set_option (map_of s k)) (map_of s k) (map_of [] k)" by (cases "map_of s k") simp_all
  qed (use assms(2) in \<open>simp_all add: ss\<close>)
  from seperate_sets_ok [OF this, of ss] have "sep_ok (\<lambda>k. set_option (map_of s k) \<union> candidates ss k)
      (fold (fold seperate_entry) ss (s, []))"
    using assms(2) by (simp add: ss)
  moreover have "(\<lambda>k. set_option (map_of s k) \<union> candidates ss k) = candidates state_sets"
    by (auto simp: ss candidates_def fun_eq_iff)
  ultimately show ?thesis by (simp add: ss)
qed


section \<open>Dictionaries up to their order\<close>

lemma set_snd_map_of: "dict_wf d \<Longrightarrow> set (map snd d) = ran (map_of d)"
  by (simp add: dict_wf_def ran_distinct)

text \<open>Conflicted entries with the same events in another order.\<close>

definition same_lists :: "('k, 'a list) dict \<Rightarrow> ('k, 'a list) dict \<Rightarrow> bool" where
  "same_lists c c' \<longleftrightarrow> dict_wf c \<and> dict_wf c' \<and>
     (\<forall>k. rel_option (\<lambda>xs ys. set xs = set ys \<and> distinct xs \<and> distinct ys) (map_of c k) (map_of c' k))"

lemma same_lists_at:
  "same_lists c c' \<Longrightarrow> rel_option (\<lambda>xs ys. set xs = set ys \<and> distinct xs \<and> distinct ys) (map_of c k) (map_of c' k)"
  unfolding same_lists_def by (elim conjE allE)

lemma same_listsD:
  assumes "same_lists c c'" "map_of c k = Some xs"
  shows "\<exists>ys. map_of c' k = Some ys \<and> set ys = set xs \<and> distinct xs \<and> distinct ys"
  using same_lists_at [OF assms(1), of k] assms(2) by (cases "map_of c' k") auto

lemma same_lists_None: "same_lists c c' \<Longrightarrow> map_of c k = None \<longleftrightarrow> map_of c' k = None"
  using same_lists_at [of c c' k] by (cases "map_of c k"; cases "map_of c' k") auto

lemma same_lists_sym:
  assumes "same_lists c c'"
  shows "same_lists c' c"
  unfolding same_lists_def
proof (intro conjI allI)
  show "dict_wf c'" "dict_wf c" using assms by (simp_all add: same_lists_def)
  show "rel_option (\<lambda>xs ys. set xs = set ys \<and> distinct xs \<and> distinct ys) (map_of c' k) (map_of c k)" for k
    using same_listsD [OF assms, of k] same_lists_None [OF assms, of k] by (cases "map_of c k") auto
qed

lemma sep_key_same:
  assumes "sep_key X i c" "sep_key X j d"
  shows "i = j \<and> rel_option (\<lambda>xs ys. set xs = set ys \<and> distinct xs \<and> distinct ys) c d"
proof -
  have two: "\<not> set ls \<subseteq> {a}" if "distinct ls" "2 \<le> length ls" for ls :: "string list" and a
    using that card_mono [of "{a}" "set ls"] distinct_card [OF that(1)] by auto
  show ?thesis using assms two
    by (cases i; cases j; cases c; cases d) (auto simp del: set_empty)
qed

lemma sep_ok_same:
  assumes "sep_ok cand (u, c)" "sep_ok cand (u', c')"
  shows "map_of u = map_of u'" and "same_lists c c'"
proof -
  note k = sep_key_same [OF sep_okD [OF assms(1)] sep_okD [OF assms(2)]]
  show "map_of u = map_of u'" using k by blast
  show "same_lists c c'" unfolding same_lists_def using k assms by (auto simp: sep_ok_def)
qed

section \<open>Resolving one key\<close>

text \<open>With different ranks the order of the events is determined by the set of them.\<close>

lemma ordered_events_same:
  assumes "set es = set es'" "distinct es" "distinct es'" "inj_on (event_rank sha1) (set es)"
  shows "ordered_events sha1 es = ordered_events sha1 es'"
proof -
  let ?f = "event_rank sha1"
  have d: "distinct (map ?f (sort_key ?f xs))" if "set xs = set es" "distinct xs" for xs
    using that assms(4) by (simp add: distinct_map)
  have "map ?f (sort_key ?f es) = map ?f (sort_key ?f es')"
    using d [of es] d [of es'] assms(1-3) by (intro sorted_distinct_set_unique) simp_all
  then show ?thesis
    using assms(1,4) inj_on_map_eq_map [of ?f "sort_key ?f es" "sort_key ?f es'"]
    by (simp add: ordered_events_def)
qed

definition well_keyed :: "(state_key, event) dict \<Rightarrow> bool" where
  "well_keyed d \<longleftrightarrow> dict_wf d \<and> (\<forall>k e. map_of d k = Some e \<longrightarrow> ev_type e = fst k \<and> ev_state_key e = Some (snd k))"

lemma auth_dict_of_well_keyed:
  assumes "dict_wf d" "\<And>k e. (k, e) \<in> set d \<Longrightarrow> ev_type e = fst k \<and> ev_state_key e = Some (snd k)"
  shows "auth_dict_of m (map snd d) = Inr (m ++ map_of d)"
  using assms
proof (induction d arbitrary: m)
  case (Cons ke d)
  obtain k e where ke: "ke = (k, e)" by (cases ke) simp
  have "ev_type e = fst k" "ev_state_key e = Some (snd k)" using Cons.prems(2) [of k e] by (simp_all add: ke)
  moreover have "map_of d k = None" using Cons.prems(1) by (simp add: dict_wf_def ke map_of_eq_None_iff)
  moreover have "auth_dict_of m' (map snd d) = Inr (m' ++ map_of d)" for m'
    using Cons.prems by (intro Cons.IH) (simp_all add: dict_wf_def)
  ultimately show ?case
    by (auto simp: ke state_key_attr_def map_add_def fun_eq_iff split: option.splits)
qed simp

lemma auth_passes_well_keyed:
  assumes "well_keyed d"
  shows "auth_passes x e d =
    (case (if ev_type e = ET_Create then Inr e else state_dependent_rules x e (map_of d)) of
       Inl err \<Rightarrow> if is_auth_error err then Inr False else Inl err | Inr _ \<Rightarrow> Inr True)"
proof -
  have "auth_dict_of Map.empty (map snd d) = Inr (map_of d)"
  proof -
    have "ev_type e = fst k \<and> ev_state_key e = Some (snd k)" if "(k, e) \<in> set d" for k e
      using assms map_of_is_SomeI [of d k e] that unfolding well_keyed_def dict_wf_def by blast
    then show ?thesis using assms auth_dict_of_well_keyed [of d Map.empty] by (simp add: well_keyed_def)
  qed
  then show ?thesis by (simp add: auth_passes_def check_state_dependent_auth_rules_def)
qed

lemma auth_passes_same:
  "well_keyed d \<Longrightarrow> well_keyed d' \<Longrightarrow> map_of d = map_of d' \<Longrightarrow> auth_passes x e d = auth_passes x e d'"
  by (simp only: auth_passes_well_keyed)

lemma resolve_normal_loop_same:
  "well_keyed d \<Longrightarrow> well_keyed d' \<Longrightarrow> map_of d = map_of d' \<Longrightarrow> resolve_normal_loop x d es = resolve_normal_loop x d' es"
proof (induction es)
  case (Cons e es)
  show ?case unfolding resolve_normal_loop.simps auth_passes_same [OF Cons.prems] Cons.IH [OF Cons.prems] by (rule refl)
qed simp

lemma resolve_normal_loop_in:
  "resolve_normal_loop x d es = Inr e \<Longrightarrow> e \<in> set es \<and>
     (auth_passes x e d = Inr True \<or> (\<forall>e' \<in> set es. auth_passes x e' d = Inr False) \<and> e = last es)"
  by (induction es) (auto simp: bindR_eq_Inr split: if_splits)

lemma resolve_auth_loop_in:
  "resolve_auth_loop x d prev es = Inr e \<Longrightarrow> e = prev \<or> e \<in> set es"
  by (induction x d prev es rule: resolve_auth_loop.induct) (auto simp: bindR_eq_Inr Let_def split: if_splits)

lemma resolve_auth_events_same:
  assumes "set es = set es'" "distinct es" "distinct es'" "inj_on (event_rank sha1) (set es)"
    and "map_of d = map_of d'" "resolve_auth_events x sha1 rv es d = Inr e"
  shows "resolve_auth_events x sha1 rv es' d' = Inr e"
proof -
  obtain kss where kss: "mapR (auth_types_for_event rv) es = Inr kss"
    using assms(6) by (auto simp: resolve_auth_events_def bindR_eq_Inr)
  then obtain kss' where kss': "mapR (auth_types_for_event rv) es' = Inr kss'"
    using mapR_Inr_iff [of _ es] mapR_Inr_iff [of _ es'] assms(1) by metis
  have "set kss = set kss'" using mapR_set [OF kss] mapR_set [OF kss'] assms(1) by simp
  then have "resolve_auth_events x sha1 rv es' d' = resolve_auth_events x sha1 rv es d"
    unfolding resolve_auth_events_def kss kss' assms(5) ordered_events_same [OF assms(1-4)] bindR_Inr by simp
  then show ?thesis using assms(6) by simp
qed

lemma resolve_auth_events_in:
  "resolve_auth_events x sha1 rv es d = Inr e \<Longrightarrow> e \<in> set es"
proof -
  assume "resolve_auth_events x sha1 rv es d = Inr e"
  then obtain a p rest where r: "rev (ordered_events sha1 es) = p # rest" "resolve_auth_loop x a p rest = Inr e"
    by (cases "rev (ordered_events sha1 es)") (auto simp: resolve_auth_events_def bindR_eq_Inr Let_def)
  have "set (p # rest) = set es" using arg_cong [OF r(1), of set] by (simp add: ordered_events_def)
  then show ?thesis using resolve_auth_loop_in [OF r(2)] by auto
qed


section \<open>Resolving all keys\<close>

lemma resolve_pass_Inr:
  assumes "dict_wf conf" "resolve_pass P f conf r = Inr r'"
  shows "(P k \<and> map_of conf k = Some es \<longrightarrow> (\<exists>e. f es = Inr e \<and> map_of r' k = Some e)) \<and>
    (\<not> (P k \<and> map_of conf k \<noteq> None) \<longrightarrow> map_of r' k = map_of r k) \<and> (dict_wf r \<longrightarrow> dict_wf r')"
  using assms
proof (induction conf arbitrary: r)
  case (Cons ke conf)
  obtain k' es' where ke: "ke = (k', es')" by (cases ke) simp
  have "map_of conf k' = None" using Cons.prems(1) by (simp add: dict_wf_def ke map_of_eq_None_iff)
  moreover have wf: "dict_wf conf" using Cons.prems(1) by (simp add: dict_wf_def ke)
  ultimately show ?case
  proof (cases "P k'")
    case True
    then obtain e where "f es' = Inr e" "resolve_pass P f conf (dict_set k' e r) = Inr r'"
      using Cons.prems(2) by (auto simp: ke bindR_eq_Inr)
    with Cons.IH [OF wf this(2)] \<open>map_of conf k' = None\<close> True show ?thesis by (auto simp: ke)
  next
    case False
    with Cons.prems(2) have "resolve_pass P f conf r = Inr r'" by (simp add: ke)
    with Cons.IH [OF wf this] False show ?thesis by (auto simp: ke)
  qed
qed simp

lemma resolve_pass_total:
  assumes "dict_wf conf" "\<And>k es. map_of conf k = Some es \<Longrightarrow> P k \<Longrightarrow> \<exists>e. f es = Inr e"
  shows "\<exists>r'. resolve_pass P f conf r = Inr r'"
  using assms
proof (induction conf arbitrary: r)
  case (Cons ke conf)
  obtain k es where ke: "ke = (k, es)" by (cases ke) simp
  have none: "map_of conf k = None" using Cons.prems(1) by (simp add: dict_wf_def ke map_of_eq_None_iff)
  have "\<exists>r'. resolve_pass P f conf r = Inr r'" for r
  proof (rule Cons.IH)
    show "dict_wf conf" using Cons.prems(1) by (simp add: dict_wf_def ke)
    show "\<exists>e. f es' = Inr e" if "map_of conf k' = Some es'" "P k'" for k' es'
      using Cons.prems(2) [of k' es'] that none by (cases "k' = k") (auto simp: ke)
  qed
  then show ?case using Cons.prems(2) [of k es] by (auto simp: ke bindR_eq_Inr)
qed simp

lemma resolve_pass_same:
  assumes "same_lists conf conf'" "map_of r = map_of r0"
    and f: "\<And>k es es' e. map_of conf k = Some es \<Longrightarrow> map_of conf' k = Some es' \<Longrightarrow> set es' = set es \<Longrightarrow>
      distinct es \<Longrightarrow> distinct es' \<Longrightarrow> f es = Inr e \<Longrightarrow> f' es' = Inr e"
    and "resolve_pass P f conf r = Inr r'"
  shows "\<exists>r0'. resolve_pass P f' conf' r0 = Inr r0' \<and> map_of r0' = map_of r'"
proof -
  have wf: "dict_wf conf" "dict_wf conf'" using assms(1) by (simp_all add: same_lists_def)
  note R = resolve_pass_Inr [OF wf(1) assms(4)]
  have "\<exists>e. f' es' = Inr e" if kP: "map_of conf' k = Some es'" "P k" for k es'
  proof -
    obtain es where es: "map_of conf k = Some es" "set es = set es'" "distinct es" "distinct es'"
      using same_listsD [OF same_lists_sym [OF assms(1)] kP(1)] by auto
    then obtain e where "f es = Inr e" using R [of k es] kP(2) by auto
    with f [OF es(1) kP(1)] es show ?thesis by simp
  qed
  then obtain r0' where r0': "resolve_pass P f' conf' r0 = Inr r0'" using resolve_pass_total [OF wf(2)] by metis
  note R' = resolve_pass_Inr [OF wf(2) r0']
  have "map_of r0' k = map_of r' k" for k
  proof (cases "map_of conf k")
    case None
    then show ?thesis using R [of k] R' [of k] same_lists_None [OF assms(1), of k] assms(2) by simp
  next
    case (Some es)
    then obtain es' where es': "map_of conf' k = Some es'" "set es' = set es" "distinct es" "distinct es'"
      using same_listsD [OF assms(1)] by blast
    then show ?thesis using R [of k es] R' [of k es'] f [OF Some es'(1)] assms(2) Some by (cases "P k") auto
  qed
  with r0' show ?thesis by auto
qed


text \<open>A partial choice of one event for each conflicted key.\<close>

definition chosen :: "(state_key, event list) dict \<Rightarrow> (state_key, event) dict \<Rightarrow> bool" where
  "chosen conf r \<longleftrightarrow> dict_wf r \<and> (\<forall>k e. map_of r k = Some e \<longrightarrow> (\<exists>es. map_of conf k = Some es \<and> e \<in> set es))"

text \<open>The events of each conflicted key belong to it and have different ranks.\<close>

definition conf_ok :: "(string \<Rightarrow> string) \<Rightarrow> (state_key, event list) dict \<Rightarrow> bool" where
  "conf_ok sha1 conf \<longleftrightarrow> dict_wf conf \<and> (\<forall>k es. map_of conf k = Some es \<longrightarrow> inj_on (event_rank sha1) (set es) \<and>
     (\<forall>e \<in> set es. ev_type e = fst k \<and> ev_state_key e = Some (snd k)))"

lemma resolve_pass_chosen:
  assumes "dict_wf conf" "resolve_pass P f conf r = Inr r'" "chosen conf r" "\<And>es e. f es = Inr e \<Longrightarrow> e \<in> set es"
  shows "chosen conf r'"
proof -
  note R = resolve_pass_Inr [OF assms(1,2)]
  have "\<exists>es. map_of conf k = Some es \<and> e \<in> set es" if "map_of r' k = Some e" for k e
  proof (cases "P k \<and> map_of conf k \<noteq> None")
    case True
    then obtain es where "map_of conf k = Some es" by blast
    then show ?thesis using True R [of k es] that assms(4) by auto
  next
    case False
    then have "map_of r k = Some e" using R [of k] that by auto
    then show ?thesis using assms(3) unfolding chosen_def by blast
  qed
  moreover have "dict_wf r'" using R assms(3) by (simp add: chosen_def)
  ultimately show ?thesis unfolding chosen_def by blast
qed

lemma well_keyed_update:
  assumes "well_keyed d" "chosen conf r" "conf_ok sha1 conf"
  shows "well_keyed (dict_update d r)"
proof -
  have "ev_type e = fst k \<and> ev_state_key e = Some (snd k)" if "map_of r k = Some e" for k e
    using that assms(2,3) unfolding chosen_def conf_ok_def by blast
  then show ?thesis using assms(1,2) unfolding well_keyed_def chosen_def by (auto simp: map_add_Some_iff)
qed

text \<open>The four steps of \<^verbatim>\<open>_resolve_state_events\<close>.\<close>

lemma resolve_state_events_steps:
  "resolve_state_events x sha1 rv conf auth = Inr r \<longleftrightarrow> (\<exists>pl rules members.
     (case map_of conf PL_KEY of None \<Rightarrow> Inr []
      | Some events \<Rightarrow> bindR (resolve_auth_events x sha1 rv events auth) (\<lambda>e. Inr [(PL_KEY, e)])) = Inr pl \<and>
     resolve_pass (\<lambda>key. fst key = ET_JoinRules)
       (\<lambda>es. resolve_auth_events x sha1 rv es (dict_update auth pl)) conf pl = Inr rules \<and>
     resolve_pass (\<lambda>key. fst key = ET_Member)
       (\<lambda>es. resolve_auth_events x sha1 rv es (dict_update (dict_update auth pl) rules)) conf rules = Inr members \<and>
     resolve_pass (\<lambda>key. map_of members key = None) (\<lambda>es. resolve_normal_events x sha1 es
       (dict_update (dict_update (dict_update auth pl) rules) members)) conf members = Inr r)"
  unfolding resolve_state_events_def Let_def bindR_eq_Inr by blast

lemma power_chosen:
  assumes "(case map_of conf PL_KEY of None \<Rightarrow> Inr []
      | Some events \<Rightarrow> bindR (resolve_auth_events x sha1 rv events auth) (\<lambda>e. Inr [(PL_KEY, e)])) = Inr pl"
  shows "chosen conf pl"
  using assms resolve_auth_events_in [of x sha1 rv _ auth]
  by (auto simp: chosen_def bindR_eq_Inr dict_wf_def split: option.splits if_splits)

lemma resolve_normal_events_in: "resolve_normal_events x sha1 es d = Inr e \<Longrightarrow> e \<in> set es"
  by (auto simp: resolve_normal_events_def ordered_events_def dest: resolve_normal_loop_in)

lemma resolve_state_events_in:
  assumes "resolve_state_events x sha1 rv conf auth = Inr r" "dict_wf conf"
  shows "chosen conf r \<and> (\<forall>k. map_of r k = None \<longleftrightarrow> map_of conf k = None)"
proof -
  obtain pl rules members where steps:
    "(case map_of conf PL_KEY of None \<Rightarrow> Inr []
      | Some events \<Rightarrow> bindR (resolve_auth_events x sha1 rv events auth) (\<lambda>e. Inr [(PL_KEY, e)])) = Inr pl"
    "resolve_pass (\<lambda>key. fst key = ET_JoinRules)
       (\<lambda>es. resolve_auth_events x sha1 rv es (dict_update auth pl)) conf pl = Inr rules"
    "resolve_pass (\<lambda>key. fst key = ET_Member)
       (\<lambda>es. resolve_auth_events x sha1 rv es (dict_update (dict_update auth pl) rules)) conf rules = Inr members"
    "resolve_pass (\<lambda>key. map_of members key = None) (\<lambda>es. resolve_normal_events x sha1 es
       (dict_update (dict_update (dict_update auth pl) rules) members)) conf members = Inr r"
    using assms(1) unfolding resolve_state_events_steps by blast
  have "chosen conf members"
    using resolve_pass_chosen [OF assms(2) steps(3)] resolve_pass_chosen [OF assms(2) steps(2)]
      power_chosen [OF steps(1)] resolve_auth_events_in by metis
  moreover from this have "chosen conf r"
    using resolve_pass_chosen [OF assms(2) steps(4)] resolve_normal_events_in by metis
  moreover have "map_of r k \<noteq> None" if "map_of conf k \<noteq> None" for k
    using resolve_pass_Inr [OF assms(2) steps(4), of k] that by (cases "map_of members k") auto
  ultimately show ?thesis unfolding chosen_def by (metis option.exhaust option.distinct(1))
qed


lemma auth_pass_chosen:
  "dict_wf conf \<Longrightarrow> resolve_pass P (\<lambda>es. resolve_auth_events x sha1 rv es auth) conf r = Inr r' \<Longrightarrow>
   chosen conf r \<Longrightarrow> chosen conf r'"
  by (rule resolve_pass_chosen) (assumption | rule resolve_auth_events_in)+

lemma conf_ok_inj: "conf_ok sha1 conf \<Longrightarrow> map_of conf k = Some es \<Longrightarrow> inj_on (event_rank sha1) (set es)"
  unfolding conf_ok_def by blast

lemma auth_pass_same:
  assumes "same_lists conf conf'" "conf_ok sha1 conf" "map_of auth = map_of auth'" "map_of r = map_of r0"
    and "resolve_pass P (\<lambda>es. resolve_auth_events x sha1 rv es auth) conf r = Inr r'"
  shows "\<exists>r0'. resolve_pass P (\<lambda>es. resolve_auth_events x sha1 rv es auth') conf' r0 = Inr r0' \<and> map_of r0' = map_of r'"
proof (rule resolve_pass_same [OF assms(1,4) _ assms(5)])
  fix k es es' e
  assume *: "map_of conf k = Some es" "set es' = set es" "distinct es" "distinct es'"
    "resolve_auth_events x sha1 rv es auth = Inr e"
  show "resolve_auth_events x sha1 rv es' auth' = Inr e"
    by (rule resolve_auth_events_same [OF *(2) [symmetric] *(3,4) conf_ok_inj [OF assms(2) *(1)] assms(3) *(5)])
qed

lemma normal_pass_same:
  assumes "same_lists conf conf'" "conf_ok sha1 conf" "map_of auth = map_of auth'" "well_keyed auth" "well_keyed auth'"
    and "map_of r = map_of r0" "resolve_pass P (\<lambda>es. resolve_normal_events x sha1 es auth) conf r = Inr r'"
  shows "\<exists>r0'. resolve_pass P (\<lambda>es. resolve_normal_events x sha1 es auth') conf' r0 = Inr r0' \<and> map_of r0' = map_of r'"
proof (rule resolve_pass_same [OF assms(1,6) _ assms(7)])
  fix k es es' e
  assume *: "map_of conf k = Some es" "set es' = set es" "distinct es" "distinct es'"
    "resolve_normal_events x sha1 es auth = Inr e"
  show "resolve_normal_events x sha1 es' auth' = Inr e"
    using *(5) ordered_events_same [OF *(2) [symmetric] *(3,4) conf_ok_inj [OF assms(2) *(1)]]
      resolve_normal_loop_same [OF assms(4,5,3)]
    by (simp add: resolve_normal_events_def)
qed

lemma resolve_state_events_same:
  assumes "same_lists conf conf'" "conf_ok sha1 conf" "conf_ok sha1 conf'"
    and "map_of auth = map_of auth'" "well_keyed auth" "well_keyed auth'"
    and "resolve_state_events x sha1 rv conf auth = Inr r"
  shows "\<exists>r'. resolve_state_events x sha1 rv conf' auth' = Inr r' \<and> map_of r' = map_of r"
proof -
  have wf: "dict_wf conf" "dict_wf conf'" using assms(1) by (simp_all add: same_lists_def)
  let ?power = "\<lambda>conf auth. case map_of conf PL_KEY of None \<Rightarrow> Inr []
      | Some events \<Rightarrow> bindR (resolve_auth_events x sha1 rv events auth) (\<lambda>e. Inr [(PL_KEY, e)])"
  obtain pl rules members where steps: "?power conf auth = Inr pl"
    "resolve_pass (\<lambda>key. fst key = ET_JoinRules)
       (\<lambda>es. resolve_auth_events x sha1 rv es (dict_update auth pl)) conf pl = Inr rules"
    "resolve_pass (\<lambda>key. fst key = ET_Member)
       (\<lambda>es. resolve_auth_events x sha1 rv es (dict_update (dict_update auth pl) rules)) conf rules = Inr members"
    "resolve_pass (\<lambda>key. map_of members key = None) (\<lambda>es. resolve_normal_events x sha1 es
       (dict_update (dict_update (dict_update auth pl) rules) members)) conf members = Inr r"
    using assms(7) unfolding resolve_state_events_steps by blast
  note pick = auth_pass_chosen [OF wf(1)] auth_pass_chosen [OF wf(2)]
  note ch1 = power_chosen [OF steps(1)]
  note ch_rules = pick(1) [OF steps(2) ch1]
  note ch = ch1 ch_rules pick(1) [OF steps(3) ch_rules]
  have pl: "?power conf' auth' = Inr pl"
  proof (cases "map_of conf PL_KEY")
    case None
    then show ?thesis using steps(1) same_lists_None [OF assms(1), of PL_KEY] by simp
  next
    case (Some es)
    then obtain es' e where "map_of conf' PL_KEY = Some es'" "set es = set es'" "distinct es" "distinct es'"
      and e: "resolve_auth_events x sha1 rv es auth = Inr e" "pl = [(PL_KEY, e)]"
      using same_listsD [OF assms(1) Some] steps(1) by (auto simp: bindR_eq_Inr)
    with resolve_auth_events_same [OF this(2-4) conf_ok_inj [OF assms(2) Some] assms(4) e(1)] show ?thesis by simp
  qed
  have ch': "chosen conf' pl" by (rule power_chosen [OF pl])
  have wfd: "dict_wf pl" "dict_wf rules" "dict_wf members" using ch by (simp_all add: chosen_def)
  have a1: "map_of (dict_update auth pl) = map_of (dict_update auth' pl)" using assms(4) wfd by simp
  obtain rules' where rules': "resolve_pass (\<lambda>key. fst key = ET_JoinRules)
      (\<lambda>es. resolve_auth_events x sha1 rv es (dict_update auth' pl)) conf' pl = Inr rules'" "map_of rules' = map_of rules"
    using auth_pass_same [OF assms(1,2) a1 refl steps(2)] by blast
  note ch2 = pick(2) [OF rules'(1) ch']
  have a2: "map_of (dict_update (dict_update auth pl) rules) = map_of (dict_update (dict_update auth' pl) rules')"
    using a1 rules'(2) wfd ch2 by (simp add: chosen_def)
  obtain members' where members': "resolve_pass (\<lambda>key. fst key = ET_Member)
      (\<lambda>es. resolve_auth_events x sha1 rv es (dict_update (dict_update auth' pl) rules')) conf' rules' = Inr members'"
    "map_of members' = map_of members"
    using auth_pass_same [OF assms(1,2) a2 rules'(2) [symmetric] steps(3)] by blast
  note ch3 = pick(2) [OF members'(1) ch2]
  have a3: "map_of (dict_update (dict_update (dict_update auth pl) rules) members) =
      map_of (dict_update (dict_update (dict_update auth' pl) rules') members')"
    using a2 members'(2) wfd ch3 by (simp add: chosen_def)
  have "well_keyed (dict_update (dict_update (dict_update auth pl) rules) members)"
    "well_keyed (dict_update (dict_update (dict_update auth' pl) rules') members')"
    using assms(2,3,5,6) ch ch' ch2 ch3 well_keyed_update by blast+
  from normal_pass_same [OF assms(1,2) a3 this members'(2) [symmetric] steps(4)]
  obtain r' where r': "resolve_pass (\<lambda>key. map_of members' key = None) (\<lambda>es. resolve_normal_events x sha1 es
      (dict_update (dict_update (dict_update auth' pl) rules') members')) conf' members' = Inr r'" "map_of r' = map_of r"
    unfolding members'(2) by blast
  have "resolve_state_events x sha1 rv conf' auth' = Inr r'"
    unfolding resolve_state_events_steps
    by (intro exI [of _ pl] exI [of _ rules'] exI [of _ members'] conjI pl rules'(1) members'(1) r'(1))
  with r'(2) show ?thesis by blast
qed


section \<open>From identifiers to events\<close>

lemma known_conflicts_map:
  assumes "dict_wf c"
  shows "map_of (fst (known_conflicts sm c (u, d))) k = (case map_of c k of None \<Rightarrow> map_of u k
      | Some ids \<Rightarrow> (case List.map_filter sm ids of [e] \<Rightarrow> Some (ev_event_id e) | _ \<Rightarrow> map_of u k)) \<and>
    map_of (snd (known_conflicts sm c (u, d))) k = (case map_of c k of None \<Rightarrow> map_of d k
      | Some ids \<Rightarrow> if 2 \<le> length (List.map_filter sm ids) then Some (List.map_filter sm ids) else map_of d k)"
  using assms
proof (induction c arbitrary: u d)
  case (Cons ki c)
  obtain k' ids where ki: "ki = (k', ids)" by (cases ki) simp
  have none: "map_of c k' = None" using Cons.prems by (simp add: dict_wf_def ki map_of_eq_None_iff)
  have IH: "map_of (fst (known_conflicts sm c (u, d))) k = (case map_of c k of None \<Rightarrow> map_of u k
      | Some ids \<Rightarrow> (case List.map_filter sm ids of [e] \<Rightarrow> Some (ev_event_id e) | _ \<Rightarrow> map_of u k))"
    "map_of (snd (known_conflicts sm c (u, d))) k = (case map_of c k of None \<Rightarrow> map_of d k
      | Some ids \<Rightarrow> if 2 \<le> length (List.map_filter sm ids) then Some (List.map_filter sm ids) else map_of d k)"
    for u d using Cons.IH Cons.prems by (auto simp: dict_wf_def ki)
  show ?case
  proof (cases "k = k'")
    case True
    have "map_of c k = None" using none True by simp
    with IH True show ?thesis by (simp add: ki split: list.split)
  next
    case False
    with IH show ?thesis by (simp add: ki split: list.split option.split)
  qed
qed simp

lemma known_conflicts_wf:
  "dict_wf u \<Longrightarrow> dict_wf d \<Longrightarrow> dict_wf (fst (known_conflicts sm c (u, d))) \<and> dict_wf (snd (known_conflicts sm c (u, d)))"
  by (induction c arbitrary: u d) (auto split: list.splits)

definition nonempty_id :: "string option \<Rightarrow> string option" where
  "nonempty_id v = (case v of None \<Rightarrow> None | Some i \<Rightarrow> if i = '''' then None else Some i)"

lemma add_auth_keys_map:
  "map_of (fold (add_auth_key u) keys a) k =
   (case map_of a k of Some v \<Rightarrow> Some v | None \<Rightarrow> if k \<in> set keys then nonempty_id (map_of u k) else None)"
  by (induction keys arbitrary: a) (auto simp: add_auth_key_def nonempty_id_def split: option.splits)

lemma add_auth_keys_wf: "dict_wf a \<Longrightarrow> dict_wf (fold (add_auth_key u) keys a)"
  by (induction keys arbitrary: a) (auto simp: add_auth_key_def split: option.splits)

definition auth_key_of :: "room_version \<Rightarrow> (string \<rightharpoonup> event) \<Rightarrow> string set \<Rightarrow> state_key \<Rightarrow> bool" where
  "auth_key_of rv sm ids k \<longleftrightarrow>
     (\<exists>i \<in> ids. \<exists>e ks. sm i = Some e \<and> auth_types_for_event rv e = Inr ks \<and> k \<in> set (sorted_list_of_set ks))"

lemma auth_key_of_insert:
  "auth_key_of rv sm (insert i ids) k \<longleftrightarrow> auth_key_of rv sm ids k \<or>
   (\<exists>e ks. sm i = Some e \<and> auth_types_for_event rv e = Inr ks \<and> k \<in> set (sorted_list_of_set ks))"
  unfolding auth_key_of_def by blast

lemma create_auth_events_Inr:
  assumes "create_auth_events rv u sm ids a = Inr a'"
  shows "(\<forall>i \<in> set ids. \<forall>e. sm i = Some e \<longrightarrow> (\<exists>ks. auth_types_for_event rv e = Inr ks)) \<and>
    map_of a' k = (case map_of a k of Some v \<Rightarrow> Some v | None \<Rightarrow>
      if auth_key_of rv sm (set ids) k then nonempty_id (map_of u k) else None) \<and> (dict_wf a \<longrightarrow> dict_wf a')"
  using assms
proof (induction ids arbitrary: a)
  case Nil
  then show ?case by (simp add: auth_key_of_def split: option.split)
next
  case (Cons i ids)
  show ?case
  proof (cases "sm i")
    case None
    with Cons.prems have "create_auth_events rv u sm ids a = Inr a'" by simp
    from Cons.IH [OF this] show ?thesis using None by (simp add: auth_key_of_insert)
  next
    case (Some e)
    then obtain ks where ks: "auth_types_for_event rv e = Inr ks"
      "create_auth_events rv u sm ids (fold (add_auth_key u) (sorted_list_of_set ks) a) = Inr a'"
      using Cons.prems by (auto simp: bindR_eq_Inr)
    show ?thesis using Cons.IH [OF ks(2)] Some ks(1)
      by (simp add: auth_key_of_insert add_auth_keys_map add_auth_keys_wf split: option.split)
  qed
qed

lemma create_auth_events_total:
  "\<forall>i \<in> set ids. \<forall>e. sm i = Some e \<longrightarrow> (\<exists>ks. auth_types_for_event rv e = Inr ks) \<Longrightarrow>
   \<exists>a'. create_auth_events rv u sm ids a = Inr a'"
proof (induction ids arbitrary: a)
  case (Cons i ids)
  then show ?case by (cases "sm i") (auto simp: bindR_eq_Inr)
qed simp


lemma distinct_known:
  assumes "distinct ids" "\<And>i e. sm i = Some e \<Longrightarrow> ev_event_id e = i"
  shows "distinct (List.map_filter sm ids)"
  using assms(1)
proof (induction ids)
  case (Cons i ids)
  then show ?case
    by (auto simp: map_filter_simps set_map_filter dest: assms(2) split: option.split)
qed (simp add: map_filter_simps)

lemma known_conflicts_same:
  assumes "same_lists c c'" "map_of u = map_of u'" "dict_wf u" "dict_wf u'"
    and own: "\<And>i e. sm i = Some e \<Longrightarrow> ev_event_id e = i"
  shows "map_of (fst (known_conflicts sm c (u, []))) = map_of (fst (known_conflicts sm c' (u', [])))"
    and "same_lists (snd (known_conflicts sm c (u, []))) (snd (known_conflicts sm c' (u', [])))"
proof -
  have wf: "dict_wf c" "dict_wf c'" using assms(1) by (simp_all add: same_lists_def)
  have k: "map_of (fst (known_conflicts sm c (u, []))) k = map_of (fst (known_conflicts sm c' (u', []))) k \<and>
      rel_option (\<lambda>xs ys. set xs = set ys \<and> distinct xs \<and> distinct ys)
        (map_of (snd (known_conflicts sm c (u, []))) k) (map_of (snd (known_conflicts sm c' (u', []))) k)" for k
  proof (cases "map_of c k")
    case None
    then show ?thesis
      using known_conflicts_map [OF wf(1), of sm u "[]" k] known_conflicts_map [OF wf(2), of sm u' "[]" k]
        same_lists_None [OF assms(1), of k] assms(2) by simp
  next
    case (Some ids)
    then obtain ids' where ids': "map_of c' k = Some ids'" "set ids' = set ids" "distinct ids" "distinct ids'"
      using same_listsD [OF assms(1)] by blast
    let ?es = "List.map_filter sm ids" and ?es' = "List.map_filter sm ids'"
    have es: "distinct ?es" "distinct ?es'" "set ?es = set ?es'"
      using ids' own by (auto simp: set_map_filter intro: distinct_known)
    then have len: "length ?es = length ?es'" by (metis distinct_card)
    have "(case ?es of [e] \<Rightarrow> Some (ev_event_id e) | _ \<Rightarrow> map_of u k) =
        (case ?es' of [e] \<Rightarrow> Some (ev_event_id e) | _ \<Rightarrow> map_of u' k)"
      using es(3) len assms(2) by (auto split: list.split)
    then show ?thesis
      using known_conflicts_map [OF wf(1), of sm u "[]" k] known_conflicts_map [OF wf(2), of sm u' "[]" k]
        Some ids'(1) es len by simp
  qed
  then show "map_of (fst (known_conflicts sm c (u, []))) = map_of (fst (known_conflicts sm c' (u', [])))" by blast
  show "same_lists (snd (known_conflicts sm c (u, []))) (snd (known_conflicts sm c' (u', [])))"
    unfolding same_lists_def using k known_conflicts_wf [OF assms(3)] known_conflicts_wf [OF assms(4)] by simp
qed

text \<open>The events known under the identifiers of a state belong to its keys.\<close>

definition keyed :: "(string \<rightharpoonup> event) \<Rightarrow> (state_key \<Rightarrow> string set) \<Rightarrow> bool" where
  "keyed sm cand \<longleftrightarrow> (\<forall>i e. sm i = Some e \<longrightarrow> ev_event_id e = i) \<and>
     (\<forall>k i e. i \<in> cand k \<and> sm i = Some e \<longrightarrow> ev_type e = fst k \<and> ev_state_key e = Some (snd k))"

lemma conf_ok_known:
  assumes "sep_ok cand (u, c)" "keyed sm cand" "inj_on sha1 (\<Union>k. cand k)"
  shows "conf_ok sha1 (snd (known_conflicts sm c (u, [])))"
  unfolding conf_ok_def
proof (intro conjI allI impI)
  have wf: "dict_wf c" "dict_wf u" using assms(1) by (simp_all add: sep_ok_def)
  show "dict_wf (snd (known_conflicts sm c (u, [])))" using known_conflicts_wf [OF wf(2)] by simp
  fix k es assume "map_of (snd (known_conflicts sm c (u, []))) k = Some es"
  then obtain ids where ids: "map_of c k = Some ids" "es = List.map_filter sm ids"
    using known_conflicts_map [OF wf(1), of sm u "[]" k] by (auto split: option.splits if_splits)
  have cand: "set ids = cand k" using sep_okD [OF assms(1), of k] ids(1) by (cases "map_of u k") auto
  show "\<forall>e \<in> set es. ev_type e = fst k \<and> ev_state_key e = Some (snd k)"
    using assms(2) cand unfolding keyed_def ids(2) set_map_filter by blast
  show "inj_on (event_rank sha1) (set es)"
  proof (rule inj_onI)
    fix e e' assume "e \<in> set es" "e' \<in> set es" "event_rank sha1 e = event_rank sha1 e'"
    moreover obtain i i' where "i \<in> cand k" "sm i = Some e" "i' \<in> cand k" "sm i' = Some e'"
      using calculation cand by (auto simp: ids(2) set_map_filter)
    moreover have "ev_event_id e = i" "ev_event_id e' = i'" using calculation assms(2) unfolding keyed_def by blast+
    moreover have "i = i'" if "sha1 i = sha1 i'" using that calculation inj_onD [OF assms(3), of i i'] by blast
    ultimately show "e = e'" by (simp add: event_rank_def)
  qed
qed


lemma map_of_known:
  "dict_wf a \<Longrightarrow> map_of (List.map_filter (\<lambda>(key, i). map_option (Pair key) (sm i)) a) k = Option.bind (map_of a k) sm"
proof (induction a)
  case (Cons ki a)
  obtain k' i where ki: "ki = (k', i)" by (cases ki) simp
  have "map_of a k' = None" using Cons.prems by (simp add: dict_wf_def ki map_of_eq_None_iff)
  with Cons show ?case by (cases "sm i"; cases "k = k'") (auto simp: ki map_filter_simps dict_wf_def)
qed (simp add: map_filter_simps)

lemma dict_wf_known: "dict_wf a \<Longrightarrow> dict_wf (List.map_filter (\<lambda>(key, i). map_option (Pair key) (sm i)) a)"
proof (induction a)
  case (Cons ki a)
  have "fst ` set (List.map_filter (\<lambda>(key, i). map_option (Pair key) (sm i)) a) \<subseteq> fst ` set a"
    by (force simp: set_map_filter)
  with Cons show ?case by (cases ki) (auto simp: map_filter_simps dict_wf_def split: option.split)
qed (simp add: map_filter_simps)

lemma resolve_with_state_same:
  assumes "sep_ok cand (u, c)" "sep_ok cand (u', c')" "keyed sm cand" "inj_on sha1 (\<Union>k. cand k)"
    and "map_of a = map_of a'" "dict_wf a" "dict_wf a'" "\<And>k i. map_of a k = Some i \<Longrightarrow> i \<in> cand k"
    and "resolve_with_state x sha1 rv u c a sm = Inr r"
  shows "\<exists>r'. resolve_with_state x sha1 rv u' c' a' sm = Inr r' \<and> map_of r' = map_of r"
proof -
  have own: "\<And>i e. sm i = Some e \<Longrightarrow> ev_event_id e = i" using assms(3) unfolding keyed_def by blast
  have wf: "dict_wf u" "dict_wf u'" using assms(1,2) by (simp_all add: sep_ok_def)
  note same = known_conflicts_same [OF sep_ok_same(2) [OF assms(1,2)] sep_ok_same(1) [OF assms(1,2)] wf own]
  let ?auth = "\<lambda>a. List.map_filter (\<lambda>(key, i). map_option (Pair key) (sm i)) a"
  have keyed: "ev_type e = fst k \<and> ev_state_key e = Some (snd k)" if known: "map_of (?auth a) k = Some e" for k e
  proof -
    obtain i where "map_of a k = Some i" "sm i = Some e"
      using known map_of_known [OF assms(6), of sm k] by (auto simp: bind_eq_Some_conv)
    then show ?thesis using assms(3,8) unfolding keyed_def by blast
  qed
  have auth: "map_of (?auth a) = map_of (?auth a')"
  proof
    show "map_of (?auth a) k = map_of (?auth a') k" for k
      unfolding map_of_known [OF assms(6)] map_of_known [OF assms(7)] assms(5) by (rule refl)
  qed
  have wk: "well_keyed (?auth a)" "well_keyed (?auth a')"
    unfolding well_keyed_def using keyed dict_wf_known assms(6,7) auth by simp_all
  obtain res where res: "resolve_state_events x sha1 rv (snd (known_conflicts sm c (u, []))) (?auth a) = Inr res"
    "r = dict_update (fst (known_conflicts sm c (u, []))) (map (\<lambda>(key, e). (key, ev_event_id e)) res)"
    using assms(9) by (auto simp: resolve_with_state_def Let_def bindR_eq_Inr split: prod.splits)
  obtain res' where res': "resolve_state_events x sha1 rv (snd (known_conflicts sm c' (u', []))) (?auth a') = Inr res'"
    "map_of res' = map_of res"
    using resolve_state_events_same [OF same(2) conf_ok_known [OF assms(1,3,4)] conf_ok_known [OF assms(2,3,4)] auth wk res(1)]
    by blast
  have wfc: "dict_wf (snd (known_conflicts sm c (u, [])))" "dict_wf (snd (known_conflicts sm c' (u', [])))"
    using same(2) by (simp_all add: same_lists_def)
  have ids: "dict_wf (map (\<lambda>(key, e). (key, ev_event_id e)) d)"
    "map_of (map (\<lambda>(key, e). (key, ev_event_id e)) d) = map_option ev_event_id \<circ> map_of d"
    if "dict_wf d" for d :: "(state_key, event) dict"
    using that by (simp_all add: dict_wf_def map_of_map o_def case_prod_beta')
      (simp add: map_of_map [of ev_event_id d, unfolded case_prod_beta'] o_def)
  have "dict_wf res" "dict_wf res'"
    using resolve_state_events_in [OF res(1) wfc(1)] resolve_state_events_in [OF res'(1) wfc(2)] by (simp_all add: chosen_def)
  then have "map_of (dict_update (fst (known_conflicts sm c' (u', []))) (map (\<lambda>(key, e). (key, ev_event_id e)) res')) = map_of r"
    unfolding res(2) using ids same(1) res'(2) by simp
  then show ?thesis using res'(1) by (auto simp: resolve_with_state_def Let_def split: prod.splits)
qed


section \<open>The order of the state sets\<close>

text \<open>What the event map and the factory may return: dictionaries of events under their own identifiers
  which, where a state set has the identifier, are events of the key it has it under.\<close>

definition sources_ok ::
  "(string, event) dict option \<Rightarrow> (string set \<Rightarrow> (string, event) dict) \<Rightarrow> (state_key \<Rightarrow> string set) \<Rightarrow> bool" where
  "sources_ok event_map factory cand \<longleftrightarrow>
     (\<forall>X. dict_wf (factory X) \<and> keyed (map_of (factory X)) cand) \<and>
     (\<forall>m. event_map = Some m \<longrightarrow> dict_wf m \<and> keyed (map_of m) cand)"

lemma keyed_add: "keyed m cand \<Longrightarrow> keyed m' cand \<Longrightarrow> keyed (m ++ m') cand"
  unfolding keyed_def map_add_Some_iff by blast

lemma same_needed:
  fixes c c' :: conflicts
  assumes same: "same_lists c c'"
  shows "set (concat (map snd c)) = set (concat (map snd c'))"
proof -
  have sub: "set (concat (map snd c)) \<subseteq> set (concat (map snd c'))" if sl: "same_lists c c'" for c c' :: conflicts
  proof
    fix i assume "i \<in> set (concat (map snd c))"
    then obtain ls where "ls \<in> set (map snd c)" "i \<in> set ls" by auto
    moreover have "dict_wf c" "dict_wf c'" using sl by (simp_all add: same_lists_def)
    ultimately obtain k where "map_of c k = Some ls" by (auto simp: set_snd_map_of ran_def simp del: set_map)
    then obtain ls' where "map_of c' k = Some ls'" "set ls' = set ls" using same_listsD [OF sl] by blast
    then show "i \<in> set (concat (map snd c'))" using \<open>i \<in> set ls\<close> by (force dest: map_of_SomeD)
  qed
  show ?thesis using sub [OF same] sub [OF same_lists_sym [OF same]] by blast
qed

lemma create_auth_events_same:
  assumes "sep_ok cand (u, c)" "sep_ok cand (u', c')" "create_auth_events_from_maps rv u c sm = Inr a"
  shows "\<exists>a'. create_auth_events_from_maps rv u' c' sm = Inr a' \<and> map_of a' = map_of a \<and> dict_wf a \<and> dict_wf a' \<and>
    (\<forall>k i. map_of a k = Some i \<longrightarrow> i \<in> cand k)"
proof -
  note same = sep_ok_same [OF assms(1,2)]
  note A = create_auth_events_Inr [OF assms(3) [unfolded create_auth_events_from_maps_def]]
  obtain a' where a': "create_auth_events rv u' sm (concat (map snd c')) [] = Inr a'"
    using create_auth_events_total [of "concat (map snd c')" sm rv u' "[]"] A same_needed [OF same(2)] by metis
  note A' = create_auth_events_Inr [OF a']
  have "map_of a' k = map_of a k" for k
    using A [of k] A' [of k] same(1) same_needed [OF same(2)] by (simp only: map_of.simps)
  moreover have "i \<in> cand k" if "map_of a k = Some i" for k i
  proof -
    have "map_of u k = Some i" using A [of k] that by (auto simp: nonempty_id_def split: if_splits option.splits)
    then show ?thesis using sep_okD [OF assms(1), of k] by simp
  qed
  ultimately show ?thesis using a' A A' unfolding create_auth_events_from_maps_def by auto
qed

text \<open>C17: state resolution v1 does not depend on the order in which the state sets are given. Let the events that are
  fetched be stored under their own identifiers and keys, and let the digest tell the conflicting identifiers apart. If
  resolving two or more state sets returns a state, then resolving the same sets in another order, or with repetitions,
  returns one with the same event for every key.\<close>

theorem v1_order_independent:
  assumes "set state_sets' = set state_sets" "1 < length state_sets" "1 < length state_sets'"
    and "\<forall>s \<in> set state_sets. dict_wf s" "sources_ok event_map factory (candidates state_sets)"
    and "inj_on sha1 (\<Union>k. candidates state_sets k)"
    and "v1_resolve_events_with_store x sha1 room_id rv state_sets event_map factory = Inr r"
  shows "\<exists>r'. v1_resolve_events_with_store x sha1 room_id rv state_sets' event_map factory = Inr r' \<and> map_of r' = map_of r"
proof -
  let ?cand = "candidates state_sets"
  have cand: "candidates state_sets' = ?cand" using assms(1) by (simp add: candidates_def fun_eq_iff)
  obtain u c where sep: "v1_seperate state_sets = Inr (u, c)" "sep_ok ?cand (u, c)"
    using v1_seperate_ok [of state_sets] assms(2,4) by force
  obtain u' c' where sep': "v1_seperate state_sets' = Inr (u', c')" "sep_ok ?cand (u', c')"
    using v1_seperate_ok [of state_sets'] assms(1,3,4) cand by force
  have needed: "set (concat (map snd c')) = set (concat (map snd c))"
    using same_needed [OF sep_ok_same(2) [OF sep(2) sep'(2)]] by simp
  define fl where "fl = (case event_map of None \<Rightarrow> [] | Some m \<Rightarrow> m)"
  define X where "X = set (concat (map snd c)) - fst ` set fl"
  define sm where "sm = dict_update (factory X) fl"
  have fl: "dict_wf fl" "keyed (map_of fl) ?cand"
    using assms(5) by (auto simp: fl_def sources_ok_def keyed_def split: option.splits)
  obtain a where a: "check_rooms room_id sm = Inr ()" "create_auth_events_from_maps rv u c (map_of sm) = Inr a"
    and rest: "check_rooms room_id (factory (set (map snd a) - X - fst ` set fl)) = Inr ()"
      "resolve_with_state x sha1 rv u c a (map_of (dict_update sm (factory (set (map snd a) - X - fst ` set fl)))) = Inr r"
    using assms(2,7) sep(1) unfolding v1_resolve_events_with_store_def fl_def [symmetric]
    by (auto simp: bindR_eq_Inr Let_def sm_def X_def)
  obtain a' where a': "create_auth_events_from_maps rv u' c' (map_of sm) = Inr a'" "map_of a' = map_of a"
    "dict_wf a" "dict_wf a'" "\<forall>k i. map_of a k = Some i \<longrightarrow> i \<in> ?cand k"
    using create_auth_events_same [OF sep(2) sep'(2) a(2)] by blast
  have news: "set (map snd a') = set (map snd a)" using a'(2-4) by (simp add: set_snd_map_of del: set_map)
  have "keyed (map_of (dict_update sm (factory (set (map snd a) - X - fst ` set fl)))) ?cand"
    using assms(5) fl by (simp add: sources_ok_def sm_def keyed_add)
  from resolve_with_state_same [OF sep(2) sep'(2) this assms(6) a'(2) [symmetric] a'(3,4) _ rest(2)] a'(5)
  obtain r' where r': "resolve_with_state x sha1 rv u' c' a' (map_of (dict_update sm (factory (set (map snd a) - X - fst ` set fl)))) = Inr r'"
    "map_of r' = map_of r" by blast
  have "v1_resolve_events_with_store x sha1 room_id rv state_sets' event_map factory = Inr r'"
    using assms(3) sep'(1) a(1) a'(1) rest(1) r'(1) news needed
    unfolding v1_resolve_events_with_store_def fl_def [symmetric]
    by (simp add: Let_def sm_def [symmetric] X_def [symmetric] del: set_map set_concat)
  with r'(2) show ?thesis by blast
qed


section \<open>What can be the result\<close>

lemma resolve_with_state_at:
  assumes "sep_ok cand (u, c)" "keyed sm cand" "resolve_with_state x sha1 rv u c a sm = Inr r"
  shows "(\<forall>i. map_of r k = Some i \<longrightarrow> i \<in> cand k) \<and> (\<forall>i. cand k = {i} \<longrightarrow> map_of r k = Some i) \<and>
    ((\<exists>ls. map_of c k = Some ls \<and> (\<exists>i \<in> set ls. sm i \<noteq> None)) \<longrightarrow> map_of r k \<noteq> None)"
proof -
  let ?kc = "known_conflicts sm c (u, [])"
  have wf: "dict_wf c" "dict_wf u" using assms(1) by (simp_all add: sep_ok_def)
  have wfk: "dict_wf (fst ?kc)" "dict_wf (snd ?kc)" using known_conflicts_wf [OF wf(2)] by simp_all
  obtain auth res where res: "resolve_state_events x sha1 rv (snd ?kc) auth = Inr res"
    "r = dict_update (fst ?kc) (map (\<lambda>(key, e). (key, ev_event_id e)) res)"
    using assms(3) by (auto simp: resolve_with_state_def Let_def bindR_eq_Inr split: prod.splits)
  have ch: "chosen (snd ?kc) res" "map_of res k = None \<longleftrightarrow> map_of (snd ?kc) k = None"
    using resolve_state_events_in [OF res(1) wfk(2)] by blast+
  have wfr: "dict_wf (map (\<lambda>(key, e). (key, ev_event_id e)) res)"
    using ch(1) by (simp add: chosen_def dict_wf_def o_def case_prod_beta')
  have r: "map_of r k = (case map_of res k of None \<Rightarrow> map_of (fst ?kc) k | Some e \<Rightarrow> Some (ev_event_id e))"
    unfolding res(2) by (simp add: wfr map_add_def map_of_map split: option.splits)
  note sep = sep_okD [OF assms(1), of k]
  note kc = known_conflicts_map [OF wf(1), of sm u "[]" k]
  show ?thesis
  proof (cases "map_of c k")
    case None
    then have "map_of r k = map_of u k" using kc ch(2) by (simp add: r)
    then show ?thesis using sep None by (cases "map_of u k") auto
  next
    case (Some ls)
    then have u: "map_of u k = None" and ls: "distinct ls" "set ls = cand k" "2 \<le> length ls"
      using sep by (cases "map_of u k"; auto)+
    have two: "cand k \<noteq> {i}" for i using ls distinct_card [OF ls(1)] by auto
    have known: "ev_event_id e \<in> cand k" if "e \<in> set (List.map_filter sm ls)" for e
      using that ls(2) assms(2) unfolding keyed_def set_map_filter by blast
    have res_in: "e \<in> set (List.map_filter sm ls)" if "map_of res k = Some e" for e
      using that ch(1) kc Some unfolding chosen_def by (fastforce split: if_splits)
    have "sm i = None" if "List.map_filter sm ls = []" "i \<in> set ls" for i
      using that set_map_filter [of sm ls] by (cases "sm i") auto
    then show ?thesis
      using r kc Some u two known res_in ch(2) by (auto split: option.splits list.splits if_splits)
  qed
qed

text \<open>C18: what state resolution v1 can return. Every entry of the resolved state is one of the events that the
  state sets have for its key; a key on which the sets that have it agree keeps its event; and a key that
  a state set has is not lost, provided that the factory returns those of the events that the sets have
  for the key that it is asked for.\<close>

theorem v1_resolution_sound:
  assumes "1 < length state_sets" "\<forall>s \<in> set state_sets. dict_wf s"
    and "sources_ok event_map factory (candidates state_sets)"
    and "v1_resolve_events_with_store x sha1 room_id rv state_sets event_map factory = Inr r"
  shows "(\<forall>i. map_of r k = Some i \<longrightarrow> i \<in> candidates state_sets k) \<and>
    (\<forall>i. candidates state_sets k = {i} \<longrightarrow> map_of r k = Some i) \<and>
    ((\<forall>X. \<forall>i \<in> X \<inter> candidates state_sets k. map_of (factory X) i \<noteq> None) \<and> candidates state_sets k \<noteq> {} \<longrightarrow>
      map_of r k \<noteq> None)"
proof -
  let ?cand = "candidates state_sets"
  obtain u c where sep: "v1_seperate state_sets = Inr (u, c)" "sep_ok ?cand (u, c)"
    using v1_seperate_ok [of state_sets] assms(1,2) by force
  define fl where "fl = (case event_map of None \<Rightarrow> [] | Some m \<Rightarrow> m)"
  define X where "X = set (concat (map snd c)) - fst ` set fl"
  define sm where "sm = dict_update (factory X) fl"
  have fl: "dict_wf fl" "keyed (map_of fl) ?cand"
    using assms(3) by (auto simp: fl_def sources_ok_def keyed_def split: option.splits)
  obtain a Y where res: "resolve_with_state x sha1 rv u c a (map_of (dict_update sm (factory Y))) = Inr r"
    using assms(1,4) sep(1) unfolding v1_resolve_events_with_store_def fl_def [symmetric]
    by (auto simp: bindR_eq_Inr Let_def sm_def X_def)
  have "keyed (map_of (dict_update sm (factory Y))) ?cand"
    using assms(3) fl by (simp add: sources_ok_def sm_def keyed_add)
  note at = resolve_with_state_at [OF sep(2) this res, of k]
  have known: "map_of (dict_update sm (factory Y)) i \<noteq> None"
    if "\<forall>X. \<forall>i \<in> X \<inter> ?cand k. map_of (factory X) i \<noteq> None" "map_of c k = Some ls" "i \<in> set ls" for ls i
  proof (cases "i \<in> fst ` set fl")
    case True
    then show ?thesis using assms(3) fl(1) by (simp add: sources_ok_def sm_def dict_dom domIff)
  next
    case False
    then have "i \<in> X" using that(2,3) by (force simp: X_def dest: map_of_SomeD)
    moreover have "i \<in> ?cand k" using sep_okD [OF sep(2), of k] that(2,3) by (cases "map_of u k") auto
    ultimately have "map_of (factory X) i \<noteq> None" using that(1) by blast
    then show ?thesis using assms(3) fl(1) by (simp add: sources_ok_def sm_def)
  qed
  have "map_of r k \<noteq> None" if all: "\<forall>X. \<forall>i \<in> X \<inter> ?cand k. map_of (factory X) i \<noteq> None" and ne: "?cand k \<noteq> {}"
  proof (cases "map_of c k")
    case None
    then obtain i where "?cand k = {i}" using sep_okD [OF sep(2), of k] ne by (cases "map_of u k") auto
    then have "map_of r k = Some i" using conjunct1 [OF conjunct2 [OF at]] by blast
    then show ?thesis by simp
  next
    case (Some ls)
    then have "ls \<noteq> []" using sep_okD [OF sep(2), of k] by (cases "map_of u k") auto
    then obtain i where "i \<in> set ls" by (cases ls) auto
    with known [OF all Some] Some have "\<exists>ls. map_of c k = Some ls \<and> (\<exists>i \<in> set ls. map_of (dict_update sm (factory Y)) i \<noteq> None)"
      by blast
    then show ?thesis using at by (elim conjE) (rule mp)
  qed
  then show ?thesis using at by blast
qed


text \<open>Two states that disagree about the topic, in a room without a create event.\<close>

definition v1_topic :: "string \<Rightarrow> int \<Rightarrow> event" where
  "v1_topic i d = \<lparr>ev_event_id = i, ev_room_id = ''!r:a'', ev_room_id_in_event = True,
     ev_type = ''m.room.topic'', ev_sender = ''@s:a'', ev_state_key = Some '''', ev_content = [],
     ev_origin_server_ts = 0, ev_depth = d, ev_auth_event_ids = [], ev_prev_event_ids = [],
     ev_prev_state_events = [], ev_signatures = [], ev_redacts = None, ev_rejected_reason = None,
     ev_room_version = RV_V1, ev_recheck_redaction = False\<rparr>"

definition v1_sets :: "id_state list" where
  "v1_sets = [[((''m.room.topic'', ''''), ''$1''), ((''m.room.name'', ''''), ''$n'')], [((''m.room.topic'', ''''), ''$2'')]]"

definition v1_factory :: "string set \<Rightarrow> (string, event) dict" where
  "v1_factory X = filter (\<lambda>(i, e). i \<in> X) [(''$1'', v1_topic ''$1'' 5), (''$2'', v1_topic ''$2'' 7)]"

lemma v1_sample:
  "set (rev v1_sets) = set v1_sets" "1 < length v1_sets" "1 < length (rev v1_sets)" "\<forall>s \<in> set v1_sets. dict_wf s"
  "sources_ok None v1_factory (candidates v1_sets)"
  by (auto simp: v1_sets_def dict_wf_def sources_ok_def v1_factory_def keyed_def candidates_def v1_topic_def
      split: if_splits)

lemma v1_sample_result:
  "v1_resolve_events_with_store sample_ext id ''!r:a'' RV_V1 v1_sets None v1_factory =
     Inr [((''m.room.name'', ''''), ''$n''), ((''m.room.topic'', ''''), ''$1'')]"
  by code_simp

theorem v1_order_independent_witness:
  "\<exists>r. v1_resolve_events_with_store sample_ext id ''!r:a'' RV_V1 (rev v1_sets) None v1_factory = Inr r \<and>
     map_of r = map_of [((''m.room.name'', ''''), ''$n''), ((''m.room.topic'', ''''), ''$1'')]"
  using v1_order_independent [OF v1_sample(1-3) v1_sample(4,5) _ v1_sample_result] by simp

theorem v1_resolution_sound_witness:
  "\<exists>r i. v1_resolve_events_with_store sample_ext id ''!r:a'' RV_V1 v1_sets None v1_factory = Inr r \<and>
     map_of r (''m.room.name'', '''') = Some ''$n'' \<and>
     map_of r (''m.room.topic'', '''') = Some i \<and> i \<in> candidates v1_sets (''m.room.topic'', '''')"
proof -
  let ?r = "[((''m.room.name'', ''''), ''$n''), ((''m.room.topic'', ''''), ''$1'')] :: id_state"
  note sound = v1_resolution_sound [OF v1_sample(2) v1_sample(4,5) v1_sample_result]
  have cand: "candidates v1_sets (''m.room.name'', '''') = {''$n''}"
    "candidates v1_sets (''m.room.topic'', '''') = {''$1'', ''$2''}"
    by (auto simp: candidates_def v1_sets_def)
  have "map_of ?r (''m.room.name'', '''') = Some ''$n''"
    by (rule sound [THEN conjunct2, THEN conjunct1, rule_format, OF cand(1)])
  moreover have "\<forall>X. \<forall>i \<in> X \<inter> candidates v1_sets (''m.room.topic'', ''''). map_of (v1_factory X) i \<noteq> None"
    by (auto simp: cand v1_factory_def)
  then have "map_of ?r (''m.room.topic'', '''') \<noteq> None"
    by (intro mp [OF conjunct2 [OF conjunct2 [OF sound]]] conjI) (simp_all add: cand(2))
  then obtain i where i: "map_of ?r (''m.room.topic'', '''') = Some i" by (elim not_None_eq [THEN iffD1, elim_format] exE)
  moreover have "i \<in> candidates v1_sets (''m.room.topic'', '''')"
    using sound [THEN conjunct1, rule_format, OF i] .
  ultimately show ?thesis using v1_sample_result by (intro exI [of _ ?r] exI [of _ i] conjI)
qed


end
