(* ===== verification/Stream_Token.thy ===== *)
theory Stream_Token
  imports Overlay_Map
begin

text \<open>
  The positions in streams that clients and workers hold, from \<^verbatim>\<open>synapse/types/__init__.py\<close>: the
  multi-writer tokens (\<^verbatim>\<open>AbstractMultiWriterStreamToken\<close>, \<^verbatim>\<open>RoomStreamToken\<close>,
  \<^verbatim>\<open>MultiWriterStreamToken\<close> and its unresolved form), the \<^verbatim>\<open>StreamToken\<close> that collects one position
  per stream, \<^verbatim>\<open>SlidingSyncStreamToken\<close>, \<^verbatim>\<open>ThreadSubscriptionsToken\<close> and \<^verbatim>\<open>PersistedPosition\<close>.

  A multi-writer token denotes a vector clock, the function from writer names to positions that
  \<^verbatim>\<open>get_stream_pos_for_instance\<close> computes; the theorems are about that function. The two database
  lookups of the (de)serialisers, \<^verbatim>\<open>get_name_from_instance_id\<close> and \<^verbatim>\<open>get_id_for_instance\<close>, are the
  parameters \<open>name_of_id\<close> and \<open>id_of_name\<close>. Cancellation of a request while it waits for the database
  is not represented.
\<close>

named_theorems token_simps \<open>definitions of the token operations\<close>

section \<open>Multi-writer tokens\<close>

record mw_token =
  mt_stream :: int
  mt_map :: "(string, int) dict"

record room_token = mw_token +
  rt_topological :: "int option"

text \<open>\<^verbatim>\<open>instance_map.get(name, stream)\<close>, the position of a writer.\<close>

definition get_stream_pos_for_instance :: "'a mw_token_scheme \<Rightarrow> string \<Rightarrow> int" where
  "get_stream_pos_for_instance t i =
     (case map_of (mt_map t) i of None \<Rightarrow> mt_stream t | Some p \<Rightarrow> p)"

text \<open>The two \<^verbatim>\<open>__attrs_post_init__\<close>, which every construction of a token runs.\<close>

definition mw_post_init :: "'a mw_token_scheme \<Rightarrow> unit res" where
  "mw_post_init t = forR (\<lambda>(i, v). raise_if (v \<le> mt_stream t) ValueError) (mt_map t)"

definition topological_set :: "room_token \<Rightarrow> bool" where
  "topological_set t = (case rt_topological t of None \<Rightarrow> False | Some n \<Rightarrow> n \<noteq> 0)"

definition room_post_init :: "room_token \<Rightarrow> unit res" where
  "room_post_init t =
     bindR (raise_if (mt_map t \<noteq> [] \<and> topological_set t) ValueError) (\<lambda>_. mw_post_init t)"

definition make_token :: "('t \<Rightarrow> unit res) \<Rightarrow> 't \<Rightarrow> 't res" where
  "make_token post_init t = bindR (post_init t) (\<lambda>_. Inr t)"

abbreviation make_mw_token :: "mw_token \<Rightarrow> mw_token res" where
  "make_mw_token \<equiv> make_token mw_post_init"

abbreviation make_room_token :: "room_token \<Rightarrow> room_token res" where
  "make_room_token \<equiv> make_token room_post_init"

text \<open>\<^verbatim>\<open>copy_and_advance\<close> of the abstract class; \<^verbatim>\<open>attr.evolve\<close> runs the \<open>post_init\<close> of the subclass.\<close>

definition advance_map :: "'a mw_token_scheme \<Rightarrow> 'a mw_token_scheme \<Rightarrow> (string, int) dict" where
  "advance_map self other =
     (let max_stream = max (mt_stream self) (mt_stream other);
          instances = remdups (map fst (mt_map self) @ map fst (mt_map other));
          instance_map = map (\<lambda>i. (i, max (get_stream_pos_for_instance self i)
                                          (get_stream_pos_for_instance other i))) instances
      in filter (\<lambda>(i, s). s > max_stream) instance_map)"

definition mw_copy_and_advance ::
  "('a mw_token_scheme \<Rightarrow> unit res) \<Rightarrow> 'a mw_token_scheme \<Rightarrow> 'a mw_token_scheme \<Rightarrow>
   'a mw_token_scheme res" where
  "mw_copy_and_advance post_init self other =
     make_token post_init
       (self\<lparr>mt_stream := max (mt_stream self) (mt_stream other),
             mt_map := advance_map self other\<rparr>)"

definition room_copy_and_advance :: "room_token \<Rightarrow> room_token \<Rightarrow> room_token res" where
  "room_copy_and_advance self other =
     bindR (raise_if (topological_set self \<or> topological_set other)
              (GenericException ''Cannot advance topological tokens''))
       (\<lambda>_. mw_copy_and_advance room_post_init self other)"

definition get_max_stream_pos :: "'a mw_token_scheme \<Rightarrow> int" where
  "get_max_stream_pos t =
     (case map snd (mt_map t) of [] \<Rightarrow> mt_stream t | v # vs \<Rightarrow> fold max vs v)"

definition mw_is_before_or_eq :: "'a mw_token_scheme \<Rightarrow> 'a mw_token_scheme \<Rightarrow> bool" where
  "mw_is_before_or_eq self other =
     (if mt_stream self > mt_stream other then False
      else list_all (\<lambda>i. \<not> get_stream_pos_for_instance self i > get_stream_pos_for_instance other i)
             (remdups (map fst (mt_map self) @ map fst (mt_map other))))"

text \<open>\<^verbatim>\<open>bound_stream_token\<close>. Fields of a subclass keep their value: the only subclass with one asserts
  that it has the default value.\<close>

definition mw_bound_stream_token ::
  "('a mw_token_scheme \<Rightarrow> unit res) \<Rightarrow> 'a mw_token_scheme \<Rightarrow> int \<Rightarrow> 'a mw_token_scheme res" where
  "mw_bound_stream_token post_init self max_stream =
     (if get_max_stream_pos self \<le> max_stream then Inr self
      else let min_pos = min (mt_stream self) max_stream
        in make_token post_init
             (self\<lparr>mt_stream := min_pos,
                   mt_map := map (\<lambda>(k, s). (k, min s max_stream))
                     (filter (\<lambda>(k, s). min s max_stream > min_pos) (mt_map self))\<rparr>))"

definition room_bound_stream_token :: "room_token \<Rightarrow> int \<Rightarrow> room_token res" where
  "room_bound_stream_token self max_stream =
     bindR (raise_if (rt_topological self \<noteq> None) AssertionError)
       (\<lambda>_. mw_bound_stream_token room_post_init self max_stream)"

text \<open>\<^verbatim>\<open>from_generator\<close>, on the results of the generator's \<^verbatim>\<open>get_current_token\<close> and \<^verbatim>\<open>get_positions\<close>.\<close>

definition from_generator :: "int \<Rightarrow> (string, int) dict \<Rightarrow> mw_token res" where
  "from_generator min_pos positions =
     make_mw_token \<lparr>mt_stream = min_pos, mt_map = filter (\<lambda>(i, p). p > min_pos) positions\<rparr>"

definition as_historical_tuple :: "room_token \<Rightarrow> (int \<times> int) res" where
  "as_historical_tuple t =
     (case rt_topological t of
        None \<Rightarrow> Inl (GenericException ''Cannot call as_historical_tuple on live token'')
      | Some n \<Rightarrow> Inr (n, mt_stream t))"

definition room_pos_for_instance :: "room_token \<Rightarrow> string \<Rightarrow> int res" where
  "room_pos_for_instance t i =
     bindR (raise_if (rt_topological t \<noteq> None) AssertionError)
       (\<lambda>_. Inr (get_stream_pos_for_instance t i))"

section \<open>Positions of rows against tokens\<close>

definition is_stream_position_in_range ::
  "'a mw_token_scheme option \<Rightarrow> 'b mw_token_scheme option \<Rightarrow> string option \<Rightarrow> int \<Rightarrow> bool" where
  "is_stream_position_in_range low high instance_name pos =
     (let stream_at = (\<lambda>t. case instance_name of
            None \<Rightarrow> mt_stream t
          | Some i \<Rightarrow> if i = [] then mt_stream t else get_stream_pos_for_instance t i);
          stream_at' = (\<lambda>t. case instance_name of
            None \<Rightarrow> mt_stream t
          | Some i \<Rightarrow> if i = [] then mt_stream t else get_stream_pos_for_instance t i)
      in if (case low of None \<Rightarrow> False | Some t \<Rightarrow> pos \<le> stream_at t) then False
         else if (case high of None \<Rightarrow> False | Some t \<Rightarrow> stream_at' t < pos) then False
         else True)"

record persisted_position =
  pp_instance_name :: string
  pp_stream :: int

definition persisted_after :: "persisted_position \<Rightarrow> mw_token \<Rightarrow> bool" where
  "persisted_after p t \<longleftrightarrow> get_stream_pos_for_instance t (pp_instance_name p) < pp_stream p"

text \<open>On a room token the position lookup asserts that the token is live.\<close>

definition persisted_after_room :: "persisted_position \<Rightarrow> room_token \<Rightarrow> bool res" where
  "persisted_after_room p t =
     bindR (room_pos_for_instance t (pp_instance_name p)) (\<lambda>q. Inr (q < pp_stream p))"

definition to_room_stream_token :: "persisted_position \<Rightarrow> room_token res" where
  "to_room_stream_token p =
     make_room_token \<lparr>mt_stream = pp_stream p, mt_map = [], rt_topological = None\<rparr>"

section \<open>Serialisation of multi-writer tokens\<close>

text \<open>\<^verbatim>\<open>except Exception: ...\<close> followed by \<^verbatim>\<open>raise SynapseError(400, ...)\<close>.\<close>

definition or_bad_request :: "string \<Rightarrow> 'a res \<Rightarrow> 'a res" where
  "or_bad_request m r = (case r of Inl e \<Rightarrow> Inl (SynapseError 400 m) | Inr x \<Rightarrow> Inr x)"

text \<open>\<^verbatim>\<open>key, value = part.split(".")\<close>, both then read by \<^verbatim>\<open>int\<close>.\<close>

definition part_fields :: "string \<Rightarrow> (int \<times> int) res" where
  "part_fields part =
     (case split_all CHR ''.'' part of
        [key, v] \<Rightarrow> bindR (int_of_str key) (\<lambda>i. bindR (int_of_str v) (\<lambda>p. Inr (i, p)))
      | _ \<Rightarrow> Inl ValueError)"

fun parse_entries ::
  "(int \<Rightarrow> 'k res) \<Rightarrow> string list \<Rightarrow> ('k, int) dict \<Rightarrow> ('k, int) dict res" where
  "parse_entries key_of [] d = Inr d"
| "parse_entries key_of (part # parts) d =
     (if part = [] then parse_entries key_of parts d
      else bindR (part_fields part) (\<lambda>(instance_id, pos).
             bindR (key_of instance_id) (\<lambda>k. parse_entries key_of parts (dict_set k pos d))))"

text \<open>The head of \<^verbatim>\<open>string[1:].split("~")\<close> is the minimum position, the rest are entries.\<close>

definition parse_m :: "(int \<Rightarrow> 'k res) \<Rightarrow> string \<Rightarrow> (int \<times> ('k, int) dict) res" where
  "parse_m key_of s =
     (let parts = split_all CHR ''~'' s
      in bindR (int_of_str (hd parts)) (\<lambda>stream.
           bindR (parse_entries key_of (tl parts) []) (\<lambda>m. Inr (stream, m))))"

text \<open>\<^verbatim>\<open>RoomStreamToken.parse\<close>. The message of the first \<^verbatim>\<open>raise\<close> has the format specification
  \<^verbatim>\<open>{string:!r}\<close>, which \<^verbatim>\<open>str.__format__\<close> rejects: the exception that leaves is a \<^verbatim>\<open>ValueError\<close>.\<close>

definition room_parse :: "(int \<Rightarrow> string res) \<Rightarrow> string \<Rightarrow> room_token res" where
  "room_parse name_of_id s =
     (if s = [] \<or> hd s \<notin> {CHR ''s'', CHR ''t'', CHR ''m''} then Inl ValueError
      else or_bad_request ''Invalid room stream token''
        (if hd s = CHR ''s'' then
           bindR (int_of_str (tl s)) (\<lambda>n.
             make_room_token \<lparr>mt_stream = n, mt_map = [], rt_topological = None\<rparr>)
         else if hd s = CHR ''t'' then
           (case split1 CHR ''-'' (tl s) of
              None \<Rightarrow> Inl IndexError
            | Some (a, b) \<Rightarrow>
                bindR (int_of_str a) (\<lambda>topological. bindR (int_of_str b) (\<lambda>n.
                  make_room_token \<lparr>mt_stream = n, mt_map = [], rt_topological = Some topological\<rparr>)))
         else
           bindR (parse_m name_of_id (tl s)) (\<lambda>(n, m).
             make_room_token \<lparr>mt_stream = n, mt_map = m, rt_topological = None\<rparr>)))"

definition parse_stream_token :: "string \<Rightarrow> room_token res" where
  "parse_stream_token s =
     or_bad_request ''Invalid room stream token''
       (if s \<noteq> [] \<and> hd s = CHR ''s'' then
          bindR (int_of_str (tl s)) (\<lambda>n.
            make_room_token \<lparr>mt_stream = n, mt_map = [], rt_topological = None\<rparr>)
        else Inl ValueError)"

definition entry_str :: "int \<Rightarrow> int \<Rightarrow> string" where
  "entry_str instance_id pos = show_int instance_id @ CHR ''.'' # show_int pos"

text \<open>\<^verbatim>\<open>m{stream}~{encoded_map}\<close>.\<close>

definition m_str :: "int \<Rightarrow> string list \<Rightarrow> string" where
  "m_str stream entries = CHR ''m'' # show_int stream @ CHR ''~'' # join_str CHR ''~'' entries"

definition room_token_to_string :: "(string \<Rightarrow> int res) \<Rightarrow> room_token \<Rightarrow> string res" where
  "room_token_to_string id_of_name t =
     (case rt_topological t of
        Some n \<Rightarrow> Inr (CHR ''t'' # show_int n @ CHR ''-'' # show_int (mt_stream t))
      | None \<Rightarrow>
          if mt_map t \<noteq> [] then
            bindR (mapR (\<lambda>(name, pos). bindR (id_of_name name) (\<lambda>i. Inr (entry_str i pos)))
                     (filter (\<lambda>(name, pos). \<not> pos \<le> mt_stream t) (mt_map t)))
              (\<lambda>entries. Inr (if entries \<noteq> [] then m_str (mt_stream t) entries
                              else CHR ''s'' # show_int (mt_stream t)))
          else Inr (CHR ''s'' # show_int (mt_stream t)))"

record unresolved_token =
  ut_stream :: int
  ut_map :: "(int, int) dict"

text \<open>\<^verbatim>\<open>UnresolvedMultiWriterStreamToken.parse\<close>. \<^verbatim>\<open>str.isdigit\<close> also accepts superscript digits, which
  \<^verbatim>\<open>int\<close> then rejects: the result is the same error.\<close>

definition unresolved_parse :: "string \<Rightarrow> unresolved_token res" where
  "unresolved_parse s =
     or_bad_request ''Invalid stream token''
       (if s \<noteq> [] \<and> is_digit (hd s) then
          bindR (int_of_str s) (\<lambda>n. Inr \<lparr>ut_stream = n, ut_map = []\<rparr>)
        else if s \<noteq> [] \<and> hd s = CHR ''m'' then
          bindR (parse_m Inr (tl s)) (\<lambda>(n, m). Inr \<lparr>ut_stream = n, ut_map = m\<rparr>)
        else Inl IndexError)"

definition unresolved_to_string :: "unresolved_token \<Rightarrow> string" where
  "unresolved_to_string t =
     (if ut_map t \<noteq> [] then
        (let entries = map (\<lambda>(i, pos). entry_str i pos)
               (filter (\<lambda>(i, pos). \<not> pos \<le> ut_stream t) (ut_map t))
         in if entries \<noteq> [] then m_str (ut_stream t) entries else show_int (ut_stream t))
      else show_int (ut_stream t))"

text \<open>The dictionary comprehensions that replace instance ids by names and back: a later entry
  overwrites an earlier one with the same key.\<close>

fun rekey :: "('a \<Rightarrow> 'b res) \<Rightarrow> ('a, int) dict \<Rightarrow> ('b, int) dict \<Rightarrow> ('b, int) dict res" where
  "rekey f [] d = Inr d"
| "rekey f ((k, pos) # es) d = bindR (f k) (\<lambda>k'. rekey f es (dict_set k' pos d))"

definition from_unresolved :: "(int \<Rightarrow> string res) \<Rightarrow> unresolved_token \<Rightarrow> mw_token res" where
  "from_unresolved name_of_id u =
     or_bad_request ''Invalid stream token''
       (bindR (rekey name_of_id (ut_map u) []) (\<lambda>m.
          make_mw_token \<lparr>mt_stream = ut_stream u, mt_map = m\<rparr>))"

definition to_unresolved :: "(string \<Rightarrow> int res) \<Rightarrow> mw_token \<Rightarrow> unresolved_token res" where
  "to_unresolved id_of_name t =
     bindR (rekey id_of_name (mt_map t) []) (\<lambda>m. Inr \<lparr>ut_stream = mt_stream t, ut_map = m\<rparr>)"

definition mw_parse :: "(int \<Rightarrow> string res) \<Rightarrow> string \<Rightarrow> mw_token res" where
  "mw_parse name_of_id s = bindR (unresolved_parse s) (from_unresolved name_of_id)"

definition mw_to_string :: "(string \<Rightarrow> int res) \<Rightarrow> mw_token \<Rightarrow> string res" where
  "mw_to_string id_of_name t = bindR (to_unresolved id_of_name t) (\<lambda>u. Inr (unresolved_to_string u))"

section \<open>The token of a sync\<close>

datatype StreamKeyType =
    ROOM | PRESENCE | TYPING | RECEIPT | ACCOUNT_DATA | PUSH_RULES | TO_DEVICE | DEVICE_LIST
  | UN_PARTIAL_STATED_ROOMS | THREAD_SUBSCRIPTIONS | STICKY_EVENTS | QUARANTINED_MEDIA
  | PROFILE_UPDATES

text \<open>The iteration order of the enumeration.\<close>

definition stream_keys :: "StreamKeyType list" where
  "stream_keys =
     [ROOM, PRESENCE, TYPING, RECEIPT, ACCOUNT_DATA, PUSH_RULES, TO_DEVICE, DEVICE_LIST,
      UN_PARTIAL_STATED_ROOMS, THREAD_SUBSCRIPTIONS, STICKY_EVENTS, QUARANTINED_MEDIA,
      PROFILE_UPDATES]"

record stream_token =
  room_key :: room_token
  presence_key :: int
  typing_key :: int
  receipt_key :: mw_token
  account_data_key :: int
  push_rules_key :: int
  to_device_key :: int
  device_list_key :: mw_token
  groups_key :: int
  un_partial_stated_rooms_key :: int
  thread_subscriptions_key :: int
  sticky_events_key :: mw_token
  quarantined_media_key :: mw_token
  profile_updates_key :: int

text \<open>The values \<^verbatim>\<open>get_field\<close> returns and \<^verbatim>\<open>copy_and_replace\<close> takes.\<close>

datatype field_value = RoomVal room_token | MwVal mw_token | IntVal int

definition zero_token :: mw_token where
  "zero_token = \<lparr>mt_stream = 0, mt_map = []\<rparr>"

definition START :: stream_token where
  "START =
     \<lparr>room_key = \<lparr>mt_stream = 0, mt_map = [], rt_topological = None\<rparr>,
      presence_key = 0, typing_key = 0, receipt_key = zero_token, account_data_key = 0,
      push_rules_key = 0, to_device_key = 0, device_list_key = zero_token, groups_key = 0,
      un_partial_stated_rooms_key = 0, thread_subscriptions_key = 0,
      sticky_events_key = zero_token, quarantined_media_key = zero_token,
      profile_updates_key = 0\<rparr>"

definition from_string :: "(int \<Rightarrow> string res) \<Rightarrow> string \<Rightarrow> stream_token res" where
  "from_string name_of_id s =
     or_bad_request ''Invalid stream token''
       (let ks = split_all CHR ''_'' s;
            keys = ks @ replicate (14 - length ks) ''0''
        in if length keys \<noteq> 14 then Inl ValueError
           else
             bindR (room_parse name_of_id (keys ! 0)) (\<lambda>room_key.
             bindR (int_of_str (keys ! 1)) (\<lambda>presence_key.
             bindR (int_of_str (keys ! 2)) (\<lambda>typing_key.
             bindR (mw_parse name_of_id (keys ! 3)) (\<lambda>receipt_key.
             bindR (int_of_str (keys ! 4)) (\<lambda>account_data_key.
             bindR (int_of_str (keys ! 5)) (\<lambda>push_rules_key.
             bindR (int_of_str (keys ! 6)) (\<lambda>to_device_key.
             bindR (mw_parse name_of_id (keys ! 7)) (\<lambda>device_list_key.
             bindR (int_of_str (keys ! 8)) (\<lambda>groups_key.
             bindR (int_of_str (keys ! 9)) (\<lambda>un_partial_stated_rooms_key.
             bindR (int_of_str (keys ! 10)) (\<lambda>thread_subscriptions_key.
             bindR (mw_parse name_of_id (keys ! 11)) (\<lambda>sticky_events_key.
             bindR (mw_parse name_of_id (keys ! 12)) (\<lambda>quarantined_media_key.
             bindR (int_of_str (keys ! 13)) (\<lambda>profile_updates_key.
               Inr \<lparr>room_key = room_key, presence_key = presence_key, typing_key = typing_key,
                    receipt_key = receipt_key, account_data_key = account_data_key,
                    push_rules_key = push_rules_key, to_device_key = to_device_key,
                    device_list_key = device_list_key, groups_key = groups_key,
                    un_partial_stated_rooms_key = un_partial_stated_rooms_key,
                    thread_subscriptions_key = thread_subscriptions_key,
                    sticky_events_key = sticky_events_key,
                    quarantined_media_key = quarantined_media_key,
                    profile_updates_key = profile_updates_key\<rparr>)))))))))))))))"

definition to_string :: "(string \<Rightarrow> int res) \<Rightarrow> stream_token \<Rightarrow> string res" where
  "to_string id_of_name t =
     bindR (room_token_to_string id_of_name (room_key t)) (\<lambda>room.
     bindR (mw_to_string id_of_name (receipt_key t)) (\<lambda>receipt.
     bindR (mw_to_string id_of_name (device_list_key t)) (\<lambda>device_list.
     bindR (mw_to_string id_of_name (sticky_events_key t)) (\<lambda>sticky_events.
     bindR (mw_to_string id_of_name (quarantined_media_key t)) (\<lambda>quarantined_media.
       Inr (join_str CHR ''_''
         [room, show_int (presence_key t), show_int (typing_key t), receipt,
          show_int (account_data_key t), show_int (push_rules_key t), show_int (to_device_key t),
          device_list, show_int (groups_key t), show_int (un_partial_stated_rooms_key t),
          show_int (thread_subscriptions_key t), sticky_events, quarantined_media,
          show_int (profile_updates_key t)]))))))"

definition get_field :: "stream_token \<Rightarrow> StreamKeyType \<Rightarrow> field_value" where
  "get_field t key =
     (case key of
        ROOM \<Rightarrow> RoomVal (room_key t)
      | PRESENCE \<Rightarrow> IntVal (presence_key t)
      | TYPING \<Rightarrow> IntVal (typing_key t)
      | RECEIPT \<Rightarrow> MwVal (receipt_key t)
      | ACCOUNT_DATA \<Rightarrow> IntVal (account_data_key t)
      | PUSH_RULES \<Rightarrow> IntVal (push_rules_key t)
      | TO_DEVICE \<Rightarrow> IntVal (to_device_key t)
      | DEVICE_LIST \<Rightarrow> MwVal (device_list_key t)
      | UN_PARTIAL_STATED_ROOMS \<Rightarrow> IntVal (un_partial_stated_rooms_key t)
      | THREAD_SUBSCRIPTIONS \<Rightarrow> IntVal (thread_subscriptions_key t)
      | STICKY_EVENTS \<Rightarrow> MwVal (sticky_events_key t)
      | QUARANTINED_MEDIA \<Rightarrow> MwVal (quarantined_media_key t)
      | PROFILE_UPDATES \<Rightarrow> IntVal (profile_updates_key t))"

text \<open>\<^verbatim>\<open>copy_and_replace\<close>: \<^verbatim>\<open>attr.evolve\<close>, whose type validators reject a token of the wrong class. The
  integer fields have no validator; a token stored there is outside the annotated types and is
  rejected here too.\<close>

definition copy_and_replace ::
  "stream_token \<Rightarrow> StreamKeyType \<Rightarrow> field_value \<Rightarrow> stream_token res" where
  "copy_and_replace t key v =
     (case (key, v) of
        (ROOM, RoomVal r) \<Rightarrow> Inr (t\<lparr>room_key := r\<rparr>)
      | (RECEIPT, MwVal m) \<Rightarrow> Inr (t\<lparr>receipt_key := m\<rparr>)
      | (DEVICE_LIST, MwVal m) \<Rightarrow> Inr (t\<lparr>device_list_key := m\<rparr>)
      | (STICKY_EVENTS, MwVal m) \<Rightarrow> Inr (t\<lparr>sticky_events_key := m\<rparr>)
      | (QUARANTINED_MEDIA, MwVal m) \<Rightarrow> Inr (t\<lparr>quarantined_media_key := m\<rparr>)
      | (PRESENCE, IntVal i) \<Rightarrow> Inr (t\<lparr>presence_key := i\<rparr>)
      | (TYPING, IntVal i) \<Rightarrow> Inr (t\<lparr>typing_key := i\<rparr>)
      | (ACCOUNT_DATA, IntVal i) \<Rightarrow> Inr (t\<lparr>account_data_key := i\<rparr>)
      | (PUSH_RULES, IntVal i) \<Rightarrow> Inr (t\<lparr>push_rules_key := i\<rparr>)
      | (TO_DEVICE, IntVal i) \<Rightarrow> Inr (t\<lparr>to_device_key := i\<rparr>)
      | (UN_PARTIAL_STATED_ROOMS, IntVal i) \<Rightarrow> Inr (t\<lparr>un_partial_stated_rooms_key := i\<rparr>)
      | (THREAD_SUBSCRIPTIONS, IntVal i) \<Rightarrow> Inr (t\<lparr>thread_subscriptions_key := i\<rparr>)
      | (PROFILE_UPDATES, IntVal i) \<Rightarrow> Inr (t\<lparr>profile_updates_key := i\<rparr>)
      | _ \<Rightarrow> Inl TypeError)"

text \<open>\<^verbatim>\<open>copy_and_advance\<close>. The field of \<^verbatim>\<open>ROOM\<close> is a room token, those of \<^verbatim>\<open>RECEIPT\<close>, \<^verbatim>\<open>DEVICE_LIST\<close>,
  \<^verbatim>\<open>QUARANTINED_MEDIA\<close> and \<^verbatim>\<open>STICKY_EVENTS\<close> are multi-writer tokens, and the others are integers: the
  branches on the key are branches on the kind of its field. A new value of a kind other than the
  field's is outside the method's contract and is a \<^verbatim>\<open>TypeError\<close> here.\<close>

definition copy_and_advance ::
  "stream_token \<Rightarrow> StreamKeyType \<Rightarrow> field_value \<Rightarrow> stream_token res" where
  "copy_and_advance t key new_value =
     (case (get_field t key, new_value) of
        (RoomVal old, RoomVal new) \<Rightarrow>
          bindR (room_copy_and_advance old new) (\<lambda>r. copy_and_replace t key (RoomVal r))
      | (MwVal old, MwVal new) \<Rightarrow>
          bindR (mw_copy_and_advance mw_post_init old new) (\<lambda>m. copy_and_replace t key (MwVal m))
      | (IntVal old, IntVal new) \<Rightarrow>
          bindR (copy_and_replace t key (IntVal new)) (\<lambda>new_token.
            Inr (if old < new then new_token else t))
      | _ \<Rightarrow> Inl TypeError)"

text \<open>The test of one key in \<^verbatim>\<open>_iter_fields_strictly_after_token\<close>.\<close>

definition field_after :: "field_value \<Rightarrow> field_value \<Rightarrow> bool" where
  "field_after self_value other_value =
     (case (self_value, other_value) of
        (RoomVal a, RoomVal b) \<Rightarrow> \<not> mw_is_before_or_eq a b
      | (MwVal a, MwVal b) \<Rightarrow> \<not> mw_is_before_or_eq a b
      | (IntVal a, IntVal b) \<Rightarrow> a > b
      | _ \<Rightarrow> False)"

definition fields_strictly_after_token :: "stream_token \<Rightarrow> stream_token \<Rightarrow> StreamKeyType list" where
  "fields_strictly_after_token self other =
     filter (\<lambda>key. key \<noteq> TYPING \<and> field_after (get_field self key) (get_field other key)) stream_keys"

text \<open>\<^verbatim>\<open>next(iterator, None) is None\<close>.\<close>

definition is_before_or_eq :: "stream_token \<Rightarrow> stream_token \<Rightarrow> bool" where
  "is_before_or_eq self other =
     (find (\<lambda>key. key \<noteq> TYPING \<and> field_after (get_field self key) (get_field other key)) stream_keys
        = None)"

record sliding_sync_token =
  ss_stream_token :: stream_token
  ss_connection_position :: int

definition sliding_from_string :: "(int \<Rightarrow> string res) \<Rightarrow> string \<Rightarrow> sliding_sync_token res" where
  "sliding_from_string name_of_id s =
     (case (case split1 CHR ''/'' s of
              None \<Rightarrow> Inl ValueError
            | Some (a, b) \<Rightarrow>
                bindR (int_of_str a) (\<lambda>connection_position.
                bindR (from_string name_of_id b) (\<lambda>tok.
                  Inr \<lparr>ss_stream_token = tok, ss_connection_position = connection_position\<rparr>))) of
        Inl e \<Rightarrow> Inl (SlidingSyncUnknownPosition ''Invalid stream token'')
      | Inr t \<Rightarrow> Inr t)"

definition sliding_to_string :: "(string \<Rightarrow> int res) \<Rightarrow> sliding_sync_token \<Rightarrow> string res" where
  "sliding_to_string id_of_name t =
     bindR (to_string id_of_name (ss_stream_token t)) (\<lambda>s.
       Inr (show_int (ss_connection_position t) @ CHR ''/'' # s))"

definition thread_from_string :: "string \<Rightarrow> int res" where
  "thread_from_string s =
     (if \<not> str_prefix ''ts'' s then Inl ValueError else int_of_str (drop 2 s))"

definition thread_to_string :: "int \<Rightarrow> string" where
  "thread_to_string stream_id = ''ts'' @ show_int stream_id"

section \<open>Vector clocks\<close>

text \<open>What a reader of a stream relies on: a token stands for a function \<open>pos\<close> from writers to
  positions, comparison of tokens is comparison of these functions, and advancing takes their
  pointwise maximum.\<close>

locale vector_clock =
  fixes wf :: "'t \<Rightarrow> bool" and pos :: "'t \<Rightarrow> 'i \<Rightarrow> int" and le :: "'t \<Rightarrow> 't \<Rightarrow> bool"
  assumes le_iff: "wf a \<Longrightarrow> wf b \<Longrightarrow> le a b \<longleftrightarrow> (\<forall>i. pos a i \<le> pos b i)"
begin

lemma le_refl: "wf a \<Longrightarrow> le a a"
  by (simp add: le_iff)

lemma le_trans: "wf a \<Longrightarrow> wf b \<Longrightarrow> wf c \<Longrightarrow> le a b \<Longrightarrow> le b c \<Longrightarrow> le a c"
  by (auto simp: le_iff intro: order_trans)

lemma le_antisym: "wf a \<Longrightarrow> wf b \<Longrightarrow> le a b \<and> le b a \<longleftrightarrow> pos a = pos b"
  by (auto simp: le_iff fun_eq_iff eq_iff)

text \<open>A row at \<open>p\<close> by writer \<open>i\<close> seen between \<open>a\<close> and \<open>c\<close> is seen in exactly one of the two halves.\<close>

lemma halves:
  assumes "wf a" "wf b" "wf c" "le a b" "le b c"
  shows "pos a i < p \<and> p \<le> pos c i \<longleftrightarrow>
    (pos a i < p \<and> p \<le> pos b i) \<noteq> (pos b i < p \<and> p \<le> pos c i)"
proof -
  have "pos a i \<le> pos b i" "pos b i \<le> pos c i" using assms by (simp_all add: le_iff)
  then show ?thesis by linarith
qed

end

locale advancing_clock = vector_clock +
  fixes adv :: "'t \<Rightarrow> 't \<Rightarrow> 't res"
  assumes adv_pos: "wf a \<Longrightarrow> wf b \<Longrightarrow>
    \<exists>c. adv a b = Inr c \<and> wf c \<and> (\<forall>i. pos c i = max (pos a i) (pos b i))"
begin

lemma adv_lub:
  assumes "wf a" "wf b"
  shows "\<exists>c. adv a b = Inr c \<and> wf c \<and> le a c \<and> le b c \<and>
    (\<forall>d. wf d \<and> le a d \<and> le b d \<longrightarrow> le c d)"
proof -
  obtain c where c: "adv a b = Inr c" "wf c" and p: "\<forall>i. pos c i = max (pos a i) (pos b i)"
    using adv_pos [OF assms] by blast
  have "le a c" "le b c" using c p assms by (simp_all add: le_iff)
  moreover have "le c d" if "wf d \<and> le a d \<and> le b d" for d
    using that c p assms by (auto simp: le_iff)
  ultimately show ?thesis using c by blast
qed

text \<open>What the docstring of \<^verbatim>\<open>copy_and_advance\<close> promises, and its converse.\<close>

lemma after_adv:
  assumes "wf a" "wf b" "adv a b = Inr c"
  shows "pos c i < p \<longleftrightarrow> pos a i < p \<and> pos b i < p"
  using adv_pos [OF assms(1,2)] assms(3) by auto

end

section \<open>Multi-writer tokens are vector clocks\<close>

text \<open>Tokens whose instance map is a dictionary of positions ahead of the minimum; every constructed
  token is one.\<close>

definition mw_wf :: "'a mw_token_scheme \<Rightarrow> bool" where
  "mw_wf t \<longleftrightarrow> dict_wf (mt_map t) \<and> (\<forall>e \<in> set (mt_map t). snd e > mt_stream t)"

definition live_wf :: "room_token \<Rightarrow> bool" where
  "live_wf t \<longleftrightarrow> mw_wf t \<and> rt_topological t = None"

abbreviation pos_of :: "'a mw_token_scheme \<Rightarrow> string \<Rightarrow> int" where
  "pos_of \<equiv> get_stream_pos_for_instance"

lemma mw_post_init_ok [token_simps]:
  "mw_post_init t = Inr u \<longleftrightarrow> (\<forall>e \<in> set (mt_map t). snd e > mt_stream t)"
  by (auto simp: mw_post_init_def forR_eq_Inr split: prod.splits)

lemma room_post_init_live [token_simps]:
  "rt_topological t = None \<Longrightarrow> room_post_init t = mw_post_init t"
  by (simp add: room_post_init_def topological_set_def)

lemma make_token_ok [token_simps]: "make_token p t = Inr u \<longleftrightarrow> p t = Inr () \<and> u = t"
  by (auto simp: make_token_def bindR_eq_Inr)

lemma pos_of_absent: "i \<notin> fst ` set (mt_map t) \<Longrightarrow> pos_of t i = mt_stream t"
  by (auto simp: get_stream_pos_for_instance_def split: option.splits dest: map_of_SomeD
      intro: rev_image_eqI)

lemma pos_of_ge: "mw_wf t \<Longrightarrow> mt_stream t \<le> pos_of t i"
  by (fastforce simp: get_stream_pos_for_instance_def mw_wf_def split: option.splits
      dest: map_of_SomeD)

lemma fresh_instance: "\<exists>i :: string. i \<notin> fst ` set (mt_map a) \<and> i \<notin> fst ` set (mt_map b)"
  using ex_new_if_finite [OF infinite_UNIV_listI, of "fst ` set (mt_map a) \<union> fst ` set (mt_map b)"]
  by auto

text \<open>The comparison only looks at the writers of either map, and still decides all of them.\<close>

lemma mw_is_before_or_eq_iff: "mw_is_before_or_eq a b \<longleftrightarrow> (\<forall>i. pos_of a i \<le> pos_of b i)"
proof
  assume l: "mw_is_before_or_eq a b"
  show "\<forall>i. pos_of a i \<le> pos_of b i"
  proof
    fix i
    show "pos_of a i \<le> pos_of b i"
      using l pos_of_absent [of i a] pos_of_absent [of i b]
      by (cases "i \<in> fst ` set (mt_map a) \<union> fst ` set (mt_map b)")
        (auto simp: mw_is_before_or_eq_def list_all_iff not_less split: if_splits)
  qed
next
  assume r: "\<forall>i. pos_of a i \<le> pos_of b i"
  obtain i where "i \<notin> fst ` set (mt_map a)" "i \<notin> fst ` set (mt_map b)"
    using fresh_instance by blast
  with r have "mt_stream a \<le> mt_stream b" using pos_of_absent by metis
  with r show "mw_is_before_or_eq a b"
    by (simp add: mw_is_before_or_eq_def list_all_iff not_less)
qed

lemma map_of_keyed: "map_of (map (\<lambda>i. (i, f i)) is) i = (if i \<in> set is then Some (f i) else None)"
  by (induction "is") auto

lemma dict_wf_keyed: "distinct is \<Longrightarrow> dict_wf (map (\<lambda>i. (i, f i)) is)"
  by (simp add: dict_wf_def comp_def)

lemma advance_map_wf:
  "dict_wf (advance_map a b)"
  "\<forall>e \<in> set (advance_map a b). snd e > max (mt_stream a) (mt_stream b)"
  by (auto simp: advance_map_def Let_def intro!: dict_wf_filter dict_wf_keyed)

lemma advance_map_pos:
  assumes "mw_wf a" "mw_wf b"
  shows "(case map_of (advance_map a b) i of None \<Rightarrow> max (mt_stream a) (mt_stream b) | Some p \<Rightarrow> p) =
    max (pos_of a i) (pos_of b i)"
proof -
  define insts where "insts = remdups (map fst (mt_map a) @ map fst (mt_map b))"
  have wf: "dict_wf (map (\<lambda>i. (i, max (pos_of a i) (pos_of b i))) insts)"
    by (rule dict_wf_keyed) (simp add: insts_def)
  have ge: "mt_stream a \<le> pos_of a i" "mt_stream b \<le> pos_of b i"
    using assms by (simp_all add: pos_of_ge)
  show ?thesis
  proof (cases "i \<in> set insts")
    case True
    then show ?thesis using ge
      by (simp add: advance_map_def Let_def insts_def [symmetric] map_of_filter_wf [OF wf]
          map_of_keyed) linarith
  next
    case False
    then have "pos_of a i = mt_stream a" "pos_of b i = mt_stream b"
      by (auto simp: insts_def intro!: pos_of_absent)
    with False show ?thesis
      by (simp add: advance_map_def Let_def insts_def [symmetric] map_of_filter_wf [OF wf] map_of_keyed)
  qed
qed

lemma advanced_token:
  assumes "mw_wf a" "mw_wf b"
  defines "c \<equiv> a\<lparr>mt_stream := max (mt_stream a) (mt_stream b), mt_map := advance_map a b\<rparr>"
  shows "mw_wf c" "pos_of c i = max (pos_of a i) (pos_of b i)"
  using advance_map_wf [of a b] advance_map_pos [OF assms(1,2), of i]
  by (simp_all add: c_def mw_wf_def get_stream_pos_for_instance_def cong: option.case_cong)

interpretation mw: advancing_clock
  "mw_wf :: mw_token \<Rightarrow> bool" get_stream_pos_for_instance mw_is_before_or_eq
  "mw_copy_and_advance mw_post_init"
proof unfold_locales
  fix a b :: mw_token
  show "mw_is_before_or_eq a b \<longleftrightarrow> (\<forall>i. pos_of a i \<le> pos_of b i)"
    by (rule mw_is_before_or_eq_iff)
  assume wf: "mw_wf a" "mw_wf b"
  let ?c = "a\<lparr>mt_stream := max (mt_stream a) (mt_stream b), mt_map := advance_map a b\<rparr>"
  have "mw_copy_and_advance mw_post_init a b = Inr ?c"
    using advance_map_wf(2) [of a b]
    by (simp add: mw_copy_and_advance_def make_token_ok mw_post_init_ok)
  then show "\<exists>c. mw_copy_and_advance mw_post_init a b = Inr c \<and> mw_wf c \<and>
      (\<forall>i. pos_of c i = max (pos_of a i) (pos_of b i))"
    using advanced_token [OF wf] by blast
qed

interpretation room: advancing_clock
  live_wf get_stream_pos_for_instance mw_is_before_or_eq room_copy_and_advance
proof unfold_locales
  fix a b :: room_token
  show "mw_is_before_or_eq a b \<longleftrightarrow> (\<forall>i. pos_of a i \<le> pos_of b i)"
    by (rule mw_is_before_or_eq_iff)
  assume "live_wf a" "live_wf b"
  then have wf: "mw_wf a" "mw_wf b" and live: "rt_topological a = None" "rt_topological b = None"
    by (simp_all add: live_wf_def)
  let ?c = "a\<lparr>mt_stream := max (mt_stream a) (mt_stream b), mt_map := advance_map a b\<rparr>"
  have "room_copy_and_advance a b = Inr ?c"
    using advance_map_wf(2) [of a b] live
    by (simp add: room_copy_and_advance_def topological_set_def mw_copy_and_advance_def
        make_token_ok room_post_init_live mw_post_init_ok)
  moreover have "live_wf ?c" using advanced_token(1) [OF wf] live by (simp add: live_wf_def)
  ultimately show "\<exists>c. room_copy_and_advance a b = Inr c \<and> live_wf c \<and>
      (\<forall>i. pos_of c i = max (pos_of a i) (pos_of b i))"
    using advanced_token(2) [OF wf] by blast
qed

section \<open>Bounded tokens and tokens of a generator\<close>


lemma fold_max_le: "fold max vs v \<le> (m :: int) \<longleftrightarrow> v \<le> m \<and> (\<forall>w \<in> set vs. w \<le> m)"
  by (induction vs arbitrary: v) auto

lemma get_max_stream_pos_le:
  assumes "mw_wf t"
  shows "get_max_stream_pos t \<le> m \<longleftrightarrow> (\<forall>i. pos_of t i \<le> m)"
proof
  assume l: "get_max_stream_pos t \<le> m"
  show "\<forall>i. pos_of t i \<le> m"
  proof
    fix i
    show "pos_of t i \<le> m"
    proof (cases "mt_map t")
      case Nil
      then show ?thesis using l by (simp add: get_max_stream_pos_def get_stream_pos_for_instance_def)
    next
      case (Cons e es)
      then have all: "\<forall>x \<in> set (mt_map t). snd x \<le> m"
        using l by (auto simp: get_max_stream_pos_def fold_max_le)
      then have "mt_stream t \<le> m" using assms Cons by (force simp: mw_wf_def)
      with all show ?thesis
        by (force simp: get_stream_pos_for_instance_def split: option.splits dest: map_of_SomeD)
    qed
  qed
next
  assume r: "\<forall>i. pos_of t i \<le> m"
  have all: "snd e \<le> m" if "e \<in> set (mt_map t)" for e
    using r [rule_format, of "fst e"] assms that
    by (cases e) (simp add: get_stream_pos_for_instance_def mw_wf_def dict_wf_def)
  have "mt_stream t \<le> m" using r pos_of_ge [OF assms] order_trans by blast
  with all show "get_max_stream_pos t \<le> m"
    by (force simp: get_max_stream_pos_def fold_max_le split: list.splits)
qed

lemma map_of_map_snd: "map_of (map (\<lambda>(k, s). (k, f s)) d) k = map_option f (map_of d k)"
  by (induction d) auto

lemma bounded_token:
  fixes t :: "'a mw_token_scheme" and m :: int
  assumes "mw_wf t"
  defines "c \<equiv> t\<lparr>mt_stream := min (mt_stream t) m, mt_map := map (\<lambda>(k, s). (k, min s m))
      (filter (\<lambda>(k, s). min s m > min (mt_stream t) m) (mt_map t))\<rparr>"
  shows "mw_wf c" "pos_of c i = min (pos_of t i) m"
proof -
  let ?P = "\<lambda>(k :: string, s). min s m > min (mt_stream t) m"
  have d: "dict_wf (mt_map t)" and ahead: "\<forall>e \<in> set (mt_map t). snd e > mt_stream t"
    using assms by (simp_all add: mw_wf_def)
  have "map fst (map (\<lambda>(k, s). (k, min s m)) xs) = map fst xs" for xs :: "(string, int) dict"
    by (induction xs) auto
  then have "dict_wf (map (\<lambda>(k, s). (k, min s m)) (filter ?P (mt_map t)))"
    using dict_wf_filter [OF d, of ?P] by (simp only: dict_wf_def)
  then show "mw_wf c" by (auto simp: c_def mw_wf_def)
  show "pos_of c i = min (pos_of t i) m"
  proof (cases "map_of (mt_map t) i")
    case None
    then show ?thesis
      by (simp add: c_def get_stream_pos_for_instance_def map_of_map_snd map_of_filter_wf [OF d])
  next
    case (Some p)
    then have "p > mt_stream t" using ahead map_of_SomeD by fastforce
    with Some show ?thesis
      by (auto simp: c_def get_stream_pos_for_instance_def map_of_map_snd map_of_filter_wf [OF d])
  qed
qed

lemma mw_bound_stream_token_ok:
  fixes t :: "'a mw_token_scheme"
  assumes wf: "mw_wf t" and pi: "\<And>c :: 'a mw_token_scheme. mw_wf c \<Longrightarrow> mw_token.more c = mw_token.more t \<Longrightarrow> post_init c = Inr ()"
  shows "\<exists>c. mw_bound_stream_token post_init t m = Inr c \<and> mw_wf c \<and>
    mw_token.more c = mw_token.more t \<and> (\<forall>i. pos_of c i = min (pos_of t i) m)"
proof (cases "get_max_stream_pos t \<le> m")
  case True
  then show ?thesis
    using wf get_max_stream_pos_le [OF wf] by (simp add: mw_bound_stream_token_def)
next
  case False
  let ?c = "t\<lparr>mt_stream := min (mt_stream t) m, mt_map := map (\<lambda>(k, s). (k, min s m))
      (filter (\<lambda>(k, s). min s m > min (mt_stream t) m) (mt_map t))\<rparr>"
  have "post_init ?c = Inr ()" by (rule pi [OF bounded_token(1) [OF wf]]) simp
  then have "mw_bound_stream_token post_init t m = Inr ?c"
    using False by (simp add: mw_bound_stream_token_def Let_def make_token_def)
  moreover have "mw_token.more ?c = mw_token.more t" by simp
  ultimately show ?thesis using bounded_token [OF wf] by blast
qed

lemma from_generator_pos:
  assumes "dict_wf positions"
  shows "\<exists>t. from_generator m positions = Inr t \<and> mw_wf t \<and>
    (\<forall>i. pos_of t i = (case map_of positions i of None \<Rightarrow> m | Some p \<Rightarrow> max m p))"
proof -
  let ?t = "\<lparr>mt_stream = m, mt_map = filter (\<lambda>(i, p). p > m) positions\<rparr>"
  have "from_generator m positions = Inr ?t"
    by (auto simp: from_generator_def make_token_ok mw_post_init_ok)
  moreover have "mw_wf ?t" using dict_wf_filter [OF assms] by (auto simp: mw_wf_def)
  moreover have "pos_of ?t i = (case map_of positions i of None \<Rightarrow> m | Some p \<Rightarrow> max m p)" for i
    by (auto simp: get_stream_pos_for_instance_def map_of_filter_wf [OF assms] split: option.splits)
  ultimately show ?thesis by blast
qed

section \<open>The token of a sync is a vector clock\<close>

text \<open>One clock per stream and writer; the typing stream may reset and is not compared.\<close>

definition st_pos :: "stream_token \<Rightarrow> StreamKeyType \<times> string \<Rightarrow> int" where
  "st_pos t k =
     (if fst k = TYPING then 0
      else case get_field t (fst k) of
          RoomVal r \<Rightarrow> pos_of r (snd k)
        | MwVal m \<Rightarrow> pos_of m (snd k)
        | IntVal n \<Rightarrow> n)"

lemma stream_keys_UNIV: "set stream_keys = UNIV"
proof -
  have "k \<in> set stream_keys" for k by (cases k) (simp_all add: stream_keys_def)
  then show ?thesis by blast
qed

lemma field_after_iff:
  "key \<noteq> TYPING \<Longrightarrow>
   field_after (get_field a key) (get_field b key) \<longleftrightarrow> (\<exists>i. \<not> st_pos a (key, i) \<le> st_pos b (key, i))"
  by (cases key) (auto simp: field_after_def get_field_def st_pos_def mw_is_before_or_eq_iff)

interpretation st: vector_clock "\<lambda>_. True" st_pos is_before_or_eq
proof unfold_locales
  fix a b :: stream_token
  have "is_before_or_eq a b \<longleftrightarrow>
      (\<forall>key. key \<noteq> TYPING \<longrightarrow> \<not> field_after (get_field a key) (get_field b key))"
    by (auto simp: is_before_or_eq_def find_None_iff stream_keys_UNIV)
  also have "\<dots> \<longleftrightarrow> (\<forall>k. st_pos a k \<le> st_pos b k)"
    by (auto simp: field_after_iff) (auto simp: st_pos_def)
  finally show "is_before_or_eq a b \<longleftrightarrow> (\<forall>k. st_pos a k \<le> st_pos b k)" .
qed

section \<open>Printing and parsing\<close>

lemma show_int_free [simp]:
  "CHR ''.'' \<notin> set (show_int i)" "CHR ''~'' \<notin> set (show_int i)" "CHR ''_'' \<notin> set (show_int i)"
  "CHR ''/'' \<notin> set (show_int i)"
  by (auto dest: show_int_chars simp: is_digit_def)

lemma show_int_nonneg:
  assumes "0 \<le> i"
  shows "is_digit (hd (show_int i))" "CHR ''-'' \<notin> set (show_int i)"
proof -
  have e: "show_int i = show_nat (nat i)" using assms by (simp add: show_int_def)
  show "is_digit (hd (show_int i))" unfolding e using show_nat_digits [of "nat i"] by simp
  show "CHR ''-'' \<notin> set (show_int i)" unfolding e using show_nat_digits [of "nat i"]
    by (auto simp: is_digit_def)
qed

lemma entry_str_props [simp]:
  "part_fields (entry_str i p) = Inr (i, p)" "entry_str i p \<noteq> []"
  "CHR ''~'' \<notin> set (entry_str i p)" "CHR ''_'' \<notin> set (entry_str i p)"
  "CHR ''/'' \<notin> set (entry_str i p)"
  by (simp_all add: entry_str_def part_fields_def split_all_append split_all_no_sep)

lemma parse_entries_ok:
  "\<forall>(i, p) \<in> set es. key_of i = Inr (g i) \<Longrightarrow> distinct (map g (map fst es)) \<Longrightarrow>
   fst ` set d \<inter> g ` fst ` set es = {} \<Longrightarrow>
   parse_entries key_of (map (\<lambda>(i, p). entry_str i p) es) d = Inr (d @ map (\<lambda>(i, p). (g i, p)) es)"
proof (induction es arbitrary: d)
  case (Cons e es)
  obtain i p where e: "e = (i, p)" by (cases e)
  have "fst ` set (d @ [(g i, p)]) \<inter> g ` fst ` set es = {}"
    using Cons.prems(2,3) by (auto simp: e image_image)
  then show ?case using Cons by (auto simp: e dict_set_new)
qed simp

lemma rekey_ok:
  "\<forall>(i, p) \<in> set es. key_of i = Inr (g i) \<Longrightarrow> distinct (map g (map fst es)) \<Longrightarrow>
   fst ` set d \<inter> g ` fst ` set es = {} \<Longrightarrow>
   rekey key_of es d = Inr (d @ map (\<lambda>(i, p). (g i, p)) es)"
proof (induction es arbitrary: d)
  case (Cons e es)
  obtain i p where e: "e = (i, p)" by (cases e)
  have "fst ` set (d @ [(g i, p)]) \<inter> g ` fst ` set es = {}"
    using Cons.prems(2,3) by (auto simp: e image_image)
  then show ?case using Cons by (auto simp: e dict_set_new)
qed simp

lemma parse_m_ok:
  assumes "es \<noteq> []" "\<forall>(i, p) \<in> set es. key_of i = Inr (g i)" "distinct (map g (map fst es))"
  shows "parse_m key_of (tl (m_str n (map (\<lambda>(i, p). entry_str i p) es))) =
    Inr (n, map (\<lambda>(i, p). (g i, p)) es)"
proof -
  have "split_all CHR ''~'' (join_str CHR ''~'' (map (\<lambda>(i, p). entry_str i p) es)) =
      map (\<lambda>(i, p). entry_str i p) es"
    using assms(1) by (intro split_all_join_str) auto
  then show ?thesis
    using parse_entries_ok [OF assms(2,3), of "[]"]
    by (simp add: parse_m_def m_str_def split_all_append)
qed

lemma join_str_free: "\<forall>e \<in> set es. c \<notin> set e \<Longrightarrow> c \<noteq> d \<Longrightarrow> c \<notin> set (join_str d es)"
  by (induction d es rule: join_str.induct) auto

lemma m_str_free:
  "c \<in> {CHR ''_'', CHR ''/''} \<Longrightarrow> c \<notin> set (m_str n (map (\<lambda>(i, p). entry_str i p) es))"
  using join_str_free [of "map (\<lambda>(i, p). entry_str i p) es" c "CHR ''~''"]
  by (auto simp: m_str_def)

text \<open>The instance table knows the names: the id of a name reads back as that name.\<close>

definition resolvable ::
  "(string \<Rightarrow> int res) \<Rightarrow> (int \<Rightarrow> string res) \<Rightarrow> ('a mw_token_scheme) \<Rightarrow> bool" where
  "resolvable id_of_name name_of_id t \<longleftrightarrow>
     list_all (\<lambda>(n, p). case id_of_name n of Inl e \<Rightarrow> False | Inr i \<Rightarrow> name_of_id i = Inr n) (mt_map t)"

definition id_at :: "(string \<Rightarrow> int res) \<Rightarrow> string \<Rightarrow> int" where
  "id_at id_of_name n = (case id_of_name n of Inl e \<Rightarrow> 0 | Inr i \<Rightarrow> i)"

definition name_at :: "(int \<Rightarrow> string res) \<Rightarrow> int \<Rightarrow> string" where
  "name_at name_of_id i = (case name_of_id i of Inl e \<Rightarrow> [] | Inr n \<Rightarrow> n)"

text \<open>The instance map with ids for names.\<close>

abbreviation id_entries :: "(string \<Rightarrow> int res) \<Rightarrow> 'a mw_token_scheme \<Rightarrow> (int, int) dict" where
  "id_entries id_of_name t \<equiv> map (\<lambda>(n, p). (id_at id_of_name n, p)) (mt_map t)"

lemma resolvable_ids:
  assumes "resolvable idn nid t" "dict_wf (mt_map t)"
  shows "\<forall>(n, p) \<in> set (mt_map t). idn n = Inr (id_at idn n)"
    and "\<forall>(i, p) \<in> set (id_entries idn t). nid i = Inr (name_at nid i)"
    and "map (\<lambda>(i, p). (name_at nid i, p)) (id_entries idn t) = mt_map t"
    and "distinct (map (name_at nid) (map fst (id_entries idn t)))"
    and "distinct (map (id_at idn) (map fst (mt_map t)))"
proof -
  have k: "idn n = Inr (id_at idn n) \<and> nid (id_at idn n) = Inr n \<and> name_at nid (id_at idn n) = n"
    if "(n, p) \<in> set (mt_map t)" for n p
    using assms(1) that
    by (force simp: resolvable_def list_all_iff id_at_def name_at_def split: sum.splits)
  then show "\<forall>(n, p) \<in> set (mt_map t). idn n = Inr (id_at idn n)" by fast
  show "\<forall>(i, p) \<in> set (id_entries idn t). nid i = Inr (name_at nid i)" using k by fastforce
  show b: "map (\<lambda>(i, p). (name_at nid i, p)) (id_entries idn t) = mt_map t"
    using k by (auto intro!: map_idI simp: comp_def)
  have "map (name_at nid) (map fst (id_entries idn t)) = map fst (mt_map t)" using k by auto
  then show d: "distinct (map (name_at nid) (map fst (id_entries idn t)))"
    using assms(2) by (simp only: dict_wf_def)
  have "map fst (id_entries idn t) = map (id_at idn) (map fst (mt_map t))" by (auto simp: comp_def)
  then show "distinct (map (id_at idn) (map fst (mt_map t)))" using d distinct_map by metis
qed

lemma ahead_filter: "mw_wf t \<Longrightarrow> filter (\<lambda>(n, p). \<not> p \<le> mt_stream t) (mt_map t) = mt_map t"
  by (auto simp: mw_wf_def intro!: filter_True)

text \<open>Tokens that survive printing: an historical token has no instance map and a depth that is not
  negative, and a bare position is not negative.\<close>

definition mw_printable :: "mw_token \<Rightarrow> bool" where
  "mw_printable t \<longleftrightarrow> mw_wf t \<and> (mt_map t = [] \<longrightarrow> 0 \<le> mt_stream t)"

definition room_printable :: "room_token \<Rightarrow> bool" where
  "room_printable t \<longleftrightarrow>
     mw_wf t \<and> (case rt_topological t of None \<Rightarrow> True | Some n \<Rightarrow> 0 \<le> n \<and> mt_map t = [])"

definition token_char :: "char \<Rightarrow> bool" where
  "token_char c \<longleftrightarrow> c \<noteq> CHR ''_'' \<and> c \<noteq> CHR ''/''"

lemma show_int_token_chars: "\<forall>c \<in> set (show_int i). token_char c"
  by (auto simp: token_char_def)

lemma m_str_token_chars: "\<forall>c \<in> set (m_str n (map (\<lambda>(i, p). entry_str i p) es)). token_char c"
  using m_str_free [of _ n es] by (auto simp: token_char_def)

lemma mw_round_trip:
  assumes "mw_printable t" "resolvable idn nid t"
  shows "\<exists>s. mw_to_string idn t = Inr s \<and> mw_parse nid s = Inr t \<and> (\<forall>c \<in> set s. token_char c)"
proof -
  have wf: "mw_wf t" "dict_wf (mt_map t)" using assms(1) by (auto simp: mw_printable_def mw_wf_def)
  note ids = resolvable_ids [OF assms(2) wf(2)]
  let ?u = "\<lparr>ut_stream = mt_stream t, ut_map = id_entries idn t\<rparr>"
  have u: "to_unresolved idn t = Inr ?u"
    using rekey_ok [OF ids(1,5), of "[]"] by (simp add: to_unresolved_def)
  have "make_mw_token \<lparr>mt_stream = mt_stream t, mt_map = mt_map t\<rparr> = Inr t"
    using wf by (cases t) (simp add: make_token_ok mw_post_init_ok mw_wf_def)
  moreover have "rekey nid (id_entries idn t) [] = Inr (mt_map t)"
    using rekey_ok [OF ids(2,4), of "[]"] ids(3) by simp
  ultimately have f: "from_unresolved nid ?u = Inr t"
    by (simp add: from_unresolved_def or_bad_request_def)
  have a: "filter (\<lambda>(i, p). \<not> p \<le> mt_stream t) (id_entries idn t) = id_entries idn t"
    using wf by (intro filter_True) (fastforce simp: mw_wf_def)
  have "unresolved_parse (unresolved_to_string ?u) = Inr ?u \<and>
      (\<forall>c \<in> set (unresolved_to_string ?u). token_char c)"
  proof (cases "mt_map t = []")
    case True
    then have "0 \<le> mt_stream t" using assms(1) by (simp add: mw_printable_def)
    then show ?thesis using True show_int_nonneg show_int_token_chars
      by (simp add: unresolved_to_string_def unresolved_parse_def or_bad_request_def)
  next
    case False
    have d: "distinct (map id (map fst (id_entries idn t)))"
      using ids(4) by (simp only: list.map_id distinct_map)
    have p: "parse_m Inr (tl (m_str (mt_stream t) (map (\<lambda>(i, p). entry_str i p) (id_entries idn t)))) =
        Inr (mt_stream t, id_entries idn t)"
      using parse_m_ok [OF _ _ d, of Inr] False by simp
    have s: "unresolved_to_string ?u = m_str (mt_stream t) (map (\<lambda>(i, p). entry_str i p) (id_entries idn t))"
      using False a by (simp add: unresolved_to_string_def)
    have "hd (m_str n es) = CHR ''m''" "m_str n es \<noteq> []" for n es by (simp_all add: m_str_def)
    then show ?thesis unfolding s
      using p m_str_token_chars [of "mt_stream t" "id_entries idn t"]
      by (simp add: unresolved_parse_def or_bad_request_def is_digit_def)
  qed
  then show ?thesis using u f by (auto simp: mw_to_string_def mw_parse_def)
qed

lemma room_token_made:
  assumes "mw_wf t" "rt_topological t = None \<or> mt_map t = []"
  shows "make_room_token \<lparr>mt_stream = mt_stream t, mt_map = mt_map t,
    rt_topological = rt_topological t\<rparr> = Inr t"
  using assms by (cases t) (auto simp: make_token_ok room_post_init_def topological_set_def
      mw_post_init_ok mw_wf_def bindR_eq_Inr)

lemma room_round_trip:
  assumes "room_printable t" "resolvable idn nid t"
  shows "\<exists>s. room_token_to_string idn t = Inr s \<and> room_parse nid s = Inr t \<and> (\<forall>c \<in> set s. token_char c)"
proof (cases "rt_topological t")
  case (Some n)
  then have "0 \<le> n" and m: "mt_map t = []" using assms(1) by (simp_all add: room_printable_def)
  then have "split1 CHR ''-'' (show_int n @ CHR ''-'' # show_int (mt_stream t)) =
      Some (show_int n, show_int (mt_stream t))"
    using show_int_nonneg by simp
  then show ?thesis
    using room_token_made [of t] assms(1) Some m show_int_token_chars
    by (auto simp: room_printable_def room_token_to_string_def room_parse_def or_bad_request_def token_char_def)
next
  case None
  then have wf: "mw_wf t" "dict_wf (mt_map t)" using assms(1) by (auto simp: room_printable_def mw_wf_def)
  note ids = resolvable_ids [OF assms(2) wf(2)]
  show ?thesis
  proof (cases "mt_map t = []")
    case True
    then show ?thesis
      using room_token_made [OF wf(1)] None show_int_token_chars
      by (auto simp: room_token_to_string_def room_parse_def or_bad_request_def token_char_def)
  next
    case False
    let ?s = "m_str (mt_stream t) (map (\<lambda>(i, p). entry_str i p) (id_entries idn t))"
    have "mapR (\<lambda>(n, p). bindR (idn n) (\<lambda>i. Inr (entry_str i p))) (mt_map t) =
        Inr (map (\<lambda>(n, p). entry_str (id_at idn n) p) (mt_map t))"
      using ids(1) by (intro mapR_Inr_map) auto
    moreover have "map (\<lambda>(n, p). entry_str (id_at idn n) p) (mt_map t) =
        map (\<lambda>(i, p). entry_str i p) (id_entries idn t)"
      by auto
    ultimately have s: "room_token_to_string idn t = Inr ?s"
      using False None by (simp add: room_token_to_string_def ahead_filter [OF wf(1)])
    have "parse_m nid (tl ?s) = Inr (mt_stream t, mt_map t)"
      using parse_m_ok [OF _ ids(2,4), of "mt_stream t"] False ids(3) by simp
    moreover have "hd ?s = CHR ''m''" "?s \<noteq> []" by (simp_all add: m_str_def)
    ultimately have "room_parse nid ?s = Inr t"
      using room_token_made [OF wf(1)] None by (simp add: room_parse_def or_bad_request_def)
    then show ?thesis using s m_str_token_chars by blast
  qed
qed

definition printable :: "stream_token \<Rightarrow> bool" where
  "printable t \<longleftrightarrow>
     room_printable (room_key t) \<and> mw_printable (receipt_key t) \<and> mw_printable (device_list_key t) \<and>
     mw_printable (sticky_events_key t) \<and> mw_printable (quarantined_media_key t)"

definition resolvable_token ::
  "(string \<Rightarrow> int res) \<Rightarrow> (int \<Rightarrow> string res) \<Rightarrow> stream_token \<Rightarrow> bool" where
  "resolvable_token idn nid t \<longleftrightarrow>
     resolvable idn nid (room_key t) \<and> resolvable idn nid (receipt_key t) \<and>
     resolvable idn nid (device_list_key t) \<and> resolvable idn nid (sticky_events_key t) \<and>
     resolvable idn nid (quarantined_media_key t)"

lemma token_chars_free: "\<forall>c \<in> set s. token_char c \<Longrightarrow> CHR ''_'' \<notin> set s"
  by (auto simp: token_char_def)

lemma stream_token_round_trip:
  assumes "printable t" "resolvable_token idn nid t"
  shows "\<exists>s. to_string idn t = Inr s \<and> from_string nid s = Inr t"
proof -
  note p = assms [unfolded printable_def resolvable_token_def]
  obtain a where a: "room_token_to_string idn (room_key t) = Inr a" "room_parse nid a = Inr (room_key t)"
    "\<forall>c \<in> set a. token_char c" using room_round_trip p by blast
  obtain b where b: "mw_to_string idn (receipt_key t) = Inr b" "mw_parse nid b = Inr (receipt_key t)"
    "\<forall>c \<in> set b. token_char c" using mw_round_trip p by blast
  obtain d where d: "mw_to_string idn (device_list_key t) = Inr d"
    "mw_parse nid d = Inr (device_list_key t)" "\<forall>c \<in> set d. token_char c"
    using mw_round_trip p by blast
  obtain e where e: "mw_to_string idn (sticky_events_key t) = Inr e"
    "mw_parse nid e = Inr (sticky_events_key t)" "\<forall>c \<in> set e. token_char c"
    using mw_round_trip p by blast
  obtain q where q: "mw_to_string idn (quarantined_media_key t) = Inr q"
    "mw_parse nid q = Inr (quarantined_media_key t)" "\<forall>c \<in> set q. token_char c"
    using mw_round_trip p by blast
  let ?ks = "[a, show_int (presence_key t), show_int (typing_key t), b,
    show_int (account_data_key t), show_int (push_rules_key t), show_int (to_device_key t), d,
    show_int (groups_key t), show_int (un_partial_stated_rooms_key t),
    show_int (thread_subscriptions_key t), e, q, show_int (profile_updates_key t)]"
  have "to_string idn t = Inr (join_str CHR ''_'' ?ks)"
    by (simp add: to_string_def a b d e q)
  moreover have ks: "split_all CHR ''_'' (join_str CHR ''_'' ?ks) = ?ks"
    using token_chars_free a(3) b(3) d(3) e(3) q(3) by (intro split_all_join_str) auto
  have "from_string nid (join_str CHR ''_'' ?ks) = Inr t"
    unfolding from_string_def Let_def ks
    by (simp add: a(2) b(2) d(2) e(2) q(2) or_bad_request_def)
  ultimately show ?thesis by blast
qed

lemma sliding_round_trip:
  assumes "printable (ss_stream_token t)" "resolvable_token idn nid (ss_stream_token t)"
  shows "\<exists>s. sliding_to_string idn t = Inr s \<and> sliding_from_string nid s = Inr t"
proof -
  obtain s where "to_string idn (ss_stream_token t) = Inr s"
    "from_string nid s = Inr (ss_stream_token t)"
    using stream_token_round_trip [OF assms] by blast
  then show ?thesis by (simp add: sliding_to_string_def sliding_from_string_def)
qed

section \<open>Advancing one key\<close>

definition fv_wf :: "field_value \<Rightarrow> bool" where
  "fv_wf v = (case v of RoomVal r \<Rightarrow> live_wf r | MwVal m \<Rightarrow> mw_wf m | IntVal i \<Rightarrow> True)"

definition fv_pos :: "field_value \<Rightarrow> string \<Rightarrow> int" where
  "fv_pos v i = (case v of RoomVal r \<Rightarrow> pos_of r i | MwVal m \<Rightarrow> pos_of m i | IntVal n \<Rightarrow> n)"

fun same_kind :: "field_value \<Rightarrow> field_value \<Rightarrow> bool" where
  "same_kind (RoomVal _) (RoomVal _) = True"
| "same_kind (MwVal _) (MwVal _) = True"
| "same_kind (IntVal _) (IntVal _) = True"
| "same_kind _ _ = False"

lemma copy_and_replace_ok:
  assumes "same_kind (get_field t key) v"
  shows "\<exists>t'. copy_and_replace t key v = Inr t' \<and> get_field t' key = v \<and>
    (\<forall>k. k \<noteq> key \<longrightarrow> get_field t' k = get_field t k) \<and> groups_key t' = groups_key t"
  using assms
  by (cases key; cases v)
    (auto simp: copy_and_replace_def get_field_def split: StreamKeyType.splits)

text \<open>The new value of the key: advancing never fails on values of the key's kind, and takes the
  pointwise maximum.\<close>

lemma advance_value:
  assumes "fv_wf (get_field t key)" "fv_wf v" "same_kind (get_field t key) v"
  shows "\<exists>w. copy_and_advance t key v = copy_and_replace t key w \<and> same_kind (get_field t key) w \<and>
    fv_wf w \<and> (\<forall>i. fv_pos w i = max (fv_pos (get_field t key) i) (fv_pos v i))"
proof (cases "get_field t key"; cases v)
  fix a b
  assume f: "get_field t key = RoomVal a" "v = RoomVal b"
  then obtain c where "room_copy_and_advance a b = Inr c" "live_wf c"
    "\<forall>i. pos_of c i = max (pos_of a i) (pos_of b i)"
    using room.adv_pos [of a b] assms by (auto simp: fv_wf_def)
  then show ?thesis using f by (intro exI [of _ "RoomVal c"]) (simp add: copy_and_advance_def fv_wf_def fv_pos_def)
next
  fix a b
  assume f: "get_field t key = MwVal a" "v = MwVal b"
  then obtain c where "mw_copy_and_advance mw_post_init a b = Inr c" "mw_wf c"
    "\<forall>i. pos_of c i = max (pos_of a i) (pos_of b i)"
    using mw.adv_pos [of a b] assms by (auto simp: fv_wf_def)
  then show ?thesis using f by (intro exI [of _ "MwVal c"]) (simp add: copy_and_advance_def fv_wf_def fv_pos_def)
next
  fix a b
  assume f: "get_field t key = IntVal a" "v = IntVal b"
  have id: "copy_and_replace t key (IntVal a) = Inr t"
    using f(1) by (cases key) (auto simp: get_field_def copy_and_replace_def)
  show ?thesis
    using f id copy_and_replace_ok [OF assms(3)]
    by (intro exI [of _ "IntVal (max a b)"]) (auto simp: copy_and_advance_def fv_wf_def fv_pos_def max_def)
qed (use assms(3) in auto)

lemma st_pos_fv_pos: "st_pos t (k, i) = (if k = TYPING then 0 else fv_pos (get_field t k) i)"
  by (simp add: st_pos_def fv_pos_def split: field_value.splits)

lemma advanced_stream_token:
  assumes "fv_wf (get_field t key)" "fv_wf v" "same_kind (get_field t key) v"
  shows "\<exists>t'. copy_and_advance t key v = Inr t' \<and> fv_wf (get_field t' key) \<and>
    (\<forall>i. fv_pos (get_field t' key) i = max (fv_pos (get_field t key) i) (fv_pos v i)) \<and>
    (\<forall>k. k \<noteq> key \<longrightarrow> get_field t' k = get_field t k) \<and> groups_key t' = groups_key t \<and>
    is_before_or_eq t t'"
proof -
  obtain w where w: "copy_and_advance t key v = copy_and_replace t key w"
    "same_kind (get_field t key) w" "fv_wf w"
    "\<forall>i. fv_pos w i = max (fv_pos (get_field t key) i) (fv_pos v i)"
    using advance_value [OF assms] by blast
  obtain t' where t': "copy_and_replace t key w = Inr t'" "get_field t' key = w"
    "\<forall>k. k \<noteq> key \<longrightarrow> get_field t' k = get_field t k" "groups_key t' = groups_key t"
    using copy_and_replace_ok [OF w(2)] by blast
  have "st_pos t (k, i) \<le> st_pos t' (k, i)" for k i
    using t'(2,3) w(4) by (cases "k = key") (simp_all add: st_pos_fv_pos)
  then have "is_before_or_eq t t'" by (auto simp: st.le_iff)
  with w t' show ?thesis by auto
qed

section \<open>Properties\<close>

text \<open>Two writers, one ahead of the other in each token, and an instance table for them.\<close>

definition tok_a :: mw_token where
  "tok_a = \<lparr>mt_stream = 5, mt_map = [(''w1'', 9)]\<rparr>"

definition tok_b :: mw_token where
  "tok_b = \<lparr>mt_stream = 6, mt_map = [(''w1'', 9), (''w2'', 8)]\<rparr>"

definition live_a :: room_token where
  "live_a = \<lparr>mt_stream = 5, mt_map = [(''w1'', 9)], rt_topological = None\<rparr>"

definition sample_id :: "string \<Rightarrow> int res" where
  "sample_id n = (if n = ''w1'' then Inr 1 else if n = ''w2'' then Inr 2 else Inl KeyError)"

definition sample_name :: "int \<Rightarrow> string res" where
  "sample_name i = (if i = 1 then Inr ''w1'' else if i = 2 then Inr ''w2'' else Inl KeyError)"

lemmas token_samples =
  tok_a_def tok_b_def live_a_def START_def zero_token_def mw_wf_def live_wf_def dict_wf_def

text \<open>C20: \<^verbatim>\<open>copy_and_advance\<close> of multi-writer tokens, and of live room tokens, never raises, builds a
  valid token at the pointwise maximum of the two vector clocks, and that token is the least one that
  both are before or equal to. In particular a row is after it exactly when it is after both.\<close>

theorem token_advance_lub:
  assumes "mw_wf a" "mw_wf b" "live_wf r" "live_wf s"
  shows "(\<exists>c. mw_copy_and_advance mw_post_init a b = Inr c \<and> mw_wf c \<and>
      mw_is_before_or_eq a c \<and> mw_is_before_or_eq b c \<and>
      (\<forall>d. mw_wf d \<and> mw_is_before_or_eq a d \<and> mw_is_before_or_eq b d \<longrightarrow> mw_is_before_or_eq c d) \<and>
      (\<forall>p. persisted_after p c \<longleftrightarrow> persisted_after p a \<and> persisted_after p b)) \<and>
    (\<exists>c. room_copy_and_advance r s = Inr c \<and> live_wf c \<and>
      mw_is_before_or_eq r c \<and> mw_is_before_or_eq s c \<and>
      (\<forall>d. live_wf d \<and> mw_is_before_or_eq r d \<and> mw_is_before_or_eq s d \<longrightarrow> mw_is_before_or_eq c d))"
  using mw.adv_lub [OF assms(1,2)] mw.after_adv [OF assms(1,2)] room.adv_lub [OF assms(3,4)]
  by (auto simp: persisted_after_def)

theorem token_advance_lub_witness:
  "\<exists>c. mw_copy_and_advance mw_post_init tok_a tok_b = Inr c \<and> mw_is_before_or_eq tok_b c \<and>
     room_copy_and_advance live_a live_a \<noteq> Inl ValueError"
proof -
  have wf: "mw_wf tok_a" "mw_wf tok_b" "live_wf live_a" by (simp_all add: token_samples)
  show ?thesis using token_advance_lub [OF wf(1,2) wf(3,3)] by auto
qed

text \<open>Reading a stream in two steps. For tokens \<open>a\<close>, \<open>b\<close>, \<open>c\<close>, each before or equal to the next,
  a row is in the range from \<open>a\<close> to \<open>c\<close> exactly when it is in one, and only one, of the ranges from
  \<open>a\<close> to \<open>b\<close> and from \<open>b\<close> to \<open>c\<close>, whether or not the row has a writer. For a row with a writer, being in
  a range is being persisted after its lower and not after its upper token.\<close>

lemma ranges_partition:
  assumes "mw_is_before_or_eq a b" "mw_is_before_or_eq b c" "pp_instance_name q \<noteq> []"
  shows "(is_stream_position_in_range (Some a) (Some c) inst p \<longleftrightarrow>
      is_stream_position_in_range (Some a) (Some b) inst p \<noteq>
      is_stream_position_in_range (Some b) (Some c) inst p) \<and>
    (is_stream_position_in_range (Some a) (Some c) (Some (pp_instance_name q)) (pp_stream q) \<longleftrightarrow>
      persisted_after q a \<and> \<not> persisted_after q c)"
proof -
  have le: "pos_of a i \<le> pos_of b i" "pos_of b i \<le> pos_of c i" for i
    using assms by (simp_all add: mw_is_before_or_eq_iff)
  have st: "mt_stream a \<le> mt_stream b" "mt_stream b \<le> mt_stream c"
    using assms by (simp_all add: mw_is_before_or_eq_def split: if_splits)
  have "is_stream_position_in_range (Some a) (Some c) inst p \<longleftrightarrow>
      is_stream_position_in_range (Some a) (Some b) inst p \<noteq>
      is_stream_position_in_range (Some b) (Some c) inst p"
    using le st by (cases inst) (auto simp: is_stream_position_in_range_def Let_def
        intro: order_trans dest: order_trans; (metis le_less_trans not_le order_trans))+
  moreover have "is_stream_position_in_range (Some a) (Some c) (Some (pp_instance_name q)) (pp_stream q) \<longleftrightarrow>
      persisted_after q a \<and> \<not> persisted_after q c"
    using assms(3) by (auto simp: is_stream_position_in_range_def persisted_after_def)
  ultimately show ?thesis by blast
qed

lemma ranges_partition_witness:
  "mw_is_before_or_eq tok_a tok_b \<and> mw_is_before_or_eq tok_b tok_b \<and>
   (is_stream_position_in_range (Some tok_a) (Some tok_b) (Some ''w2'') 7 \<longleftrightarrow>
      is_stream_position_in_range (Some tok_a) (Some tok_b) (Some ''w2'') 7 \<noteq>
      is_stream_position_in_range (Some tok_b) (Some tok_b) (Some ''w2'') 7)"
proof -
  have le: "mw_is_before_or_eq tok_a tok_b" "mw_is_before_or_eq tok_b tok_b"
    by (simp_all add: mw_is_before_or_eq_def get_stream_pos_for_instance_def tok_a_def tok_b_def)
  show ?thesis
    using ranges_partition [OF le, of "\<lparr>pp_instance_name = ''w1'', pp_stream = 1\<rparr>" "Some ''w2''" 7] le
    by simp
qed

text \<open>\<^verbatim>\<open>bound_stream_token\<close>. On a valid token, and on a live room token, it never raises, and the
  result is a valid token whose position of every writer is the smaller of the old one and the bound.
  On an historical room token it fails its assertion.\<close>

lemma bound_stream_token_min:
  assumes "mw_wf t" "live_wf r"
  shows "(\<exists>c. mw_bound_stream_token mw_post_init t m = Inr c \<and> mw_wf c \<and>
      (\<forall>i. get_stream_pos_for_instance c i = min (get_stream_pos_for_instance t i) m)) \<and>
    (\<exists>c. room_bound_stream_token r m = Inr c \<and> live_wf c \<and>
      (\<forall>i. get_stream_pos_for_instance c i = min (get_stream_pos_for_instance r i) m)) \<and>
    room_bound_stream_token (r\<lparr>rt_topological := Some n\<rparr>) m = Inl AssertionError"
proof -
  have "\<exists>c. mw_bound_stream_token mw_post_init t m = Inr c \<and> mw_wf c \<and>
      mw_token.more c = mw_token.more t \<and> (\<forall>i. pos_of c i = min (pos_of t i) m)"
    by (rule mw_bound_stream_token_ok [OF assms(1)]) (simp add: mw_wf_def mw_post_init_ok)
  moreover have live: "rt_topological c = None" if "mw_token.more c = mw_token.more r" for c
    using that assms(2) by (cases c; cases r) (simp add: live_wf_def)
  have "\<exists>c. mw_bound_stream_token room_post_init r m = Inr c \<and> mw_wf c \<and>
      mw_token.more c = mw_token.more r \<and> (\<forall>i. pos_of c i = min (pos_of r i) m)"
    using assms(2)
    by (intro mw_bound_stream_token_ok)
      (simp_all add: live live_wf_def mw_wf_def mw_post_init_ok room_post_init_live)
  ultimately show ?thesis
    using assms(2) live by (auto simp: room_bound_stream_token_def live_wf_def)
qed

lemma bound_stream_token_min_witness:
  "mw_wf tok_b \<and> live_wf live_a \<and>
   (\<exists>c. mw_bound_stream_token mw_post_init tok_b 7 = Inr c \<and> get_stream_pos_for_instance c ''w1'' = 7)"
proof -
  have wf: "mw_wf tok_b" "live_wf live_a" by (simp_all add: token_samples)
  have "get_stream_pos_for_instance tok_b ''w1'' = 9"
    by (simp add: get_stream_pos_for_instance_def tok_b_def)
  then show ?thesis using bound_stream_token_min [OF wf, of 7 0] wf by auto
qed

text \<open>\<^verbatim>\<open>StreamToken.copy_and_advance\<close>. Given a valid value of the key's kind it never raises; the
  key's new value is at the pointwise maximum of the old and the given one, every other key keeps its
  value, and the old token is before or equal to the result.\<close>

lemma stream_token_advance:
  assumes "fv_wf (get_field t key)" "fv_wf v" "same_kind (get_field t key) v"
  shows "\<exists>t'. copy_and_advance t key v = Inr t' \<and> fv_wf (get_field t' key) \<and>
    (\<forall>i. fv_pos (get_field t' key) i = max (fv_pos (get_field t key) i) (fv_pos v i)) \<and>
    (\<forall>k. k \<noteq> key \<longrightarrow> get_field t' k = get_field t k) \<and> groups_key t' = groups_key t \<and>
    is_before_or_eq t t'"
  using advanced_stream_token [OF assms] .

lemma stream_token_advance_witness:
  "\<exists>t'. copy_and_advance START RECEIPT (MwVal tok_a) = Inr t' \<and> is_before_or_eq START t' \<and>
     fv_pos (get_field t' RECEIPT) ''w1'' = 9"
proof -
  have "fv_wf (get_field START RECEIPT)" "fv_wf (MwVal tok_a)"
    "same_kind (get_field START RECEIPT) (MwVal tok_a)"
    "fv_pos (get_field START RECEIPT) ''w1'' = 0" "fv_pos (MwVal tok_a) ''w1'' = 9"
    by (simp_all add: fv_wf_def get_field_def fv_pos_def get_stream_pos_for_instance_def token_samples)
  then show ?thesis using stream_token_advance [of START RECEIPT "MwVal tok_a"] by fastforce
qed

text \<open>C21: the token given to a client reads back as itself. A \<^verbatim>\<open>StreamToken\<close>, and a
  \<^verbatim>\<open>SlidingSyncStreamToken\<close> around it, whose bare positions are not negative and whose writers the
  instance table knows, prints to a string, and parsing that string returns the same token.\<close>

theorem sync_token_round_trip:
  assumes "printable (ss_stream_token t)"
    and "resolvable_token id_of_name name_of_id (ss_stream_token t)"
  shows "(\<exists>s. to_string id_of_name (ss_stream_token t) = Inr s \<and>
      from_string name_of_id s = Inr (ss_stream_token t)) \<and>
    (\<exists>s. sliding_to_string id_of_name t = Inr s \<and> sliding_from_string name_of_id s = Inr t)"
  using stream_token_round_trip [OF assms] sliding_round_trip [OF assms] by blast

theorem sync_token_round_trip_witness:
  "\<exists>s. sliding_to_string sample_id
         \<lparr>ss_stream_token = START\<lparr>receipt_key := tok_b, room_key := live_a\<rparr>, ss_connection_position = 4\<rparr> = Inr s \<and>
       sliding_from_string sample_name s = Inr
         \<lparr>ss_stream_token = START\<lparr>receipt_key := tok_b, room_key := live_a\<rparr>, ss_connection_position = 4\<rparr>"
  by (rule sync_token_round_trip [THEN conjunct2])
    (simp_all add: printable_def resolvable_token_def room_printable_def mw_printable_def
      resolvable_def sample_id_def sample_name_def token_samples)

section \<open>Error paths of the parsers\<close>

lemma room_parse_errors:
  "room_parse name_of_id s = Inl e \<Longrightarrow>
   e = (if s = [] \<or> hd s \<notin> {CHR ''s'', CHR ''t'', CHR ''m''} then ValueError
        else SynapseError 400 ''Invalid room stream token'')"
  unfolding room_parse_def or_bad_request_def by (auto split: if_splits sum.splits)

lemma mw_parse_errors: "mw_parse name_of_id s = Inl e \<Longrightarrow> e = SynapseError 400 ''Invalid stream token''"
  by (auto simp: mw_parse_def unresolved_parse_def from_unresolved_def or_bad_request_def bindR_eq_Inl
      split: sum.splits if_splits)

text \<open>C22: what leaves the token parsers. \<^verbatim>\<open>StreamToken.from_string\<close> and \<^verbatim>\<open>MultiWriterStreamToken.parse\<close>
  fail with a \<^verbatim>\<open>SynapseError\<close> of code 400 and nothing else, \<^verbatim>\<open>SlidingSyncStreamToken.from_string\<close> with
  \<^verbatim>\<open>SlidingSyncUnknownPosition\<close> and nothing else, whatever the string and the instance table. The parser
  of room tokens fails with code 400 too, except on a string that does not start with one of its three
  letters: there formatting the message fails, and a \<^verbatim>\<open>ValueError\<close> leaves it.\<close>

theorem token_parse_errors:
  "(room_parse name_of_id s = Inl e \<longrightarrow>
      e = (if s = [] \<or> hd s \<notin> {CHR ''s'', CHR ''t'', CHR ''m''} then ValueError
           else SynapseError 400 ''Invalid room stream token'')) \<and>
   (mw_parse name_of_id s = Inl e \<longrightarrow> e = SynapseError 400 ''Invalid stream token'') \<and>
   (from_string name_of_id s = Inl e \<longrightarrow> e = SynapseError 400 ''Invalid stream token'') \<and>
   (sliding_from_string name_of_id s = Inl e \<longrightarrow>
      e = SlidingSyncUnknownPosition ''Invalid stream token'')"
  using room_parse_errors [of name_of_id s e] mw_parse_errors [of name_of_id s e]
  by (auto simp: from_string_def or_bad_request_def sliding_from_string_def Let_def split: sum.splits)

theorem token_parse_errors_witness:
  "\<exists>e. room_parse sample_name ''x5'' = Inl e \<and> e = ValueError \<and>
     room_parse sample_name ''s?'' = Inl (SynapseError 400 ''Invalid room stream token'')"
proof -
  have "int_of_str ''?'' = Inl ValueError" by code_simp
  then have "\<exists>e. room_parse sample_name ''s?'' = Inl e" "\<exists>e. room_parse sample_name ''x5'' = Inl e"
    by (simp_all add: room_parse_def or_bad_request_def)
  then show ?thesis
    using token_parse_errors [of sample_name "''s?''"] token_parse_errors [of sample_name "''x5''"]
    by auto
qed

text \<open>The depth 0 counts as no depth: advancing such an historical token does not raise.\<close>

lemma advance_depth_zero:
  "room_copy_and_advance \<lparr>mt_stream = 3, mt_map = [], rt_topological = Some 0\<rparr> live_a =
   Inr \<lparr>mt_stream = 5, mt_map = [(''w1'', 9)], rt_topological = Some 0\<rparr>"
  by (simp add: room_copy_and_advance_def topological_set_def mw_copy_and_advance_def make_token_def
      room_post_init_def mw_post_init_def advance_map_def get_stream_pos_for_instance_def live_a_def)

end
