(* ===== verification/Id_Gen.thy ===== *)
theory Id_Gen
  imports Stream_Token Topo_Sort
begin

text \<open>
  \<^verbatim>\<open>MultiWriterIdGenerator\<close> of \<^verbatim>\<open>synapse/storage/util/id_generators.py\<close>: the positions of the writers of
  a stream, the identifiers this process is still writing, and the position up to which everything is
  known to be persisted. The methods take the lock of the generator for each of their critical
  sections; one definition here is one critical section, and the step relation of \<open>Id_Gen_Props\<close>
  interleaves them with the other writers.

  The database is a parameter: the rows and maxima that \<^verbatim>\<open>_load_current_ids\<close> reads and the identifiers
  the sequence hands out. Also here are the two helpers for reading a range of a sharded stream,
  \<^verbatim>\<open>make_multiwriter_sharded_token_bounds_sql\<close> and
  \<^verbatim>\<open>advance_multiwriter_sharded_token_after_partial_read\<close>.
\<close>

section \<open>State\<close>

text \<open>The sorted containers are sorted lists, \<^verbatim>\<open>_finished_ids\<close> is a list without duplicates, and the heap
  \<^verbatim>\<open>_known_persisted_positions\<close> is used through the operations of \<open>min_queue\<close>. Identifiers of a negative
  stream are kept positive and negated when they leave.\<close>

record id_gen =
  g_instance_name :: string
  g_writers :: "string list"
  g_positive :: bool
  g_current_positions :: "(string, int) dict"
  g_unfinished_ids :: "int list"
  g_in_flight_fetches :: "int list"
  g_finished_ids :: "int list"
  g_persisted_upto_position :: int
  g_known_persisted_positions :: "int list"
  g_max_seen_allocated_stream_id :: int
  g_max_position_of_local_instance :: int

definition return_factor :: "id_gen \<Rightarrow> int" where
  "return_factor g = (if g_positive g then 1 else -1)"

text \<open>\<^verbatim>\<open>min\<close> and \<^verbatim>\<open>max\<close> of the elements of a list with a default.\<close>
definition min_default :: "int \<Rightarrow> int list \<Rightarrow> int" where
  "min_default d xs = (case xs of [] \<Rightarrow> d | y # ys \<Rightarrow> fold min ys y)"

definition max_default :: "int \<Rightarrow> int list \<Rightarrow> int" where
  "max_default d xs = (case xs of [] \<Rightarrow> d | y # ys \<Rightarrow> fold max ys y)"

definition our_position :: "id_gen \<Rightarrow> int" where
  "our_position g = dict_get (g_instance_name g) 0 (g_current_positions g)"

text \<open>\<^verbatim>\<open>self._unfinished_ids or self._in_flight_fetches\<close>.\<close>

definition busy :: "id_gen \<Rightarrow> bool" where
  "busy g \<longleftrightarrow> g_unfinished_ids g \<noteq> [] \<or> g_in_flight_fetches g \<noteq> []"

section \<open>Persisted positions\<close>

text \<open>The loop at the end of \<^verbatim>\<open>_add_persisted_position\<close>: discard what is not above the position, step
  over a run without gaps.\<close>

fun drain_known :: "int list \<Rightarrow> int \<Rightarrow> int list \<times> int" where
  "drain_known [] pos = ([], pos)"
| "drain_known (k # ks) pos =
     (if k \<le> pos then drain_known ks pos
      else if k = pos + 1 then drain_known ks (pos + 1)
      else (k # ks, pos))"

definition min_current :: "id_gen \<Rightarrow> int" where
  "min_current g =
     (let our_current_position = our_position g;
          min_curr = min_default our_current_position
            (map snd (filter (\<lambda>(name, token). name \<noteq> g_instance_name g) (g_current_positions g)))
      in if our_current_position \<noteq> 0 \<and> busy g then min min_curr our_current_position else min_curr)"

definition add_persisted_position :: "int \<Rightarrow> id_gen \<Rightarrow> id_gen" where
  "add_persisted_position new_id g =
     (let pos = max (min_current g) (g_persisted_upto_position g);
          local_max = max (g_max_position_of_local_instance g) pos;
          local_max' = (if \<not> busy g then max (g_max_seen_allocated_stream_id g) local_max else local_max);
          r = drain_known (heappush new_id (g_known_persisted_positions g)) pos
      in g\<lparr>g_persisted_upto_position := snd r,
           g_max_position_of_local_instance := local_max',
           g_known_persisted_positions := fst r\<rparr>)"

section \<open>Allocating and finishing identifiers\<close>

text \<open>The guard of \<^verbatim>\<open>get_next\<close>, \<^verbatim>\<open>get_next_mult\<close> and their transaction variants.\<close>

definition check_is_writer :: "id_gen \<Rightarrow> unit res" where
  "check_is_writer g =
     raise_if (g_writers g \<noteq> [] \<and> g_instance_name g \<notin> set (g_writers g))
       (GenericException ''Tried to allocate stream ID on non-writer'')"

text \<open>The three critical sections of \<^verbatim>\<open>_load_next_mult_id_txn\<close>: before the query, after it (which fails on
  an empty set when no identifier was asked for), and the \<^verbatim>\<open>finally\<close> clause.\<close>

definition begin_fetch :: "id_gen \<Rightarrow> int \<times> id_gen" where
  "begin_fetch g =
     (let current_max = g_max_seen_allocated_stream_id g
      in (current_max, g\<lparr>g_in_flight_fetches := insort current_max (g_in_flight_fetches g)\<rparr>))"

definition record_ids :: "int list \<Rightarrow> id_gen \<Rightarrow> id_gen res" where
  "record_ids stream_ids g =
     (let unfinished = sort (remdups (g_unfinished_ids g @ stream_ids))
      in if unfinished = [] then Inl IndexError
         else Inr (g\<lparr>g_unfinished_ids := unfinished,
                     g_max_seen_allocated_stream_id :=
                       max (g_max_seen_allocated_stream_id g) (last unfinished)\<rparr>))"

definition end_fetch :: "int \<Rightarrow> id_gen \<Rightarrow> id_gen" where
  "end_fetch current_max g = g\<lparr>g_in_flight_fetches := remove1 current_max (g_in_flight_fetches g)\<rparr>"

text \<open>\<^verbatim>\<open>_load_next_mult_id_txn\<close> run without interleaving; \<open>fetched\<close> is what the sequence returns or raises.
  The result and the state after it, which the \<^verbatim>\<open>finally\<close> clause reaches on every path.\<close>

definition load_next_mult_id_txn :: "int list res \<Rightarrow> id_gen \<Rightarrow> int list res \<times> id_gen" where
  "load_next_mult_id_txn fetched g =
     (let (current_max, g1) = begin_fetch g in
      case fetched of
        Inl e \<Rightarrow> (Inl e, end_fetch current_max g1)
      | Inr stream_ids \<Rightarrow>
          (case record_ids stream_ids g1 of
             Inl e \<Rightarrow> (Inl e, end_fetch current_max g1)
           | Inr g2 \<Rightarrow> (Inr stream_ids, end_fetch current_max g2)))"

text \<open>\<^verbatim>\<open>get_next_mult_txn\<close> up to the callbacks it registers: the identifiers it returns carry the sign of
  the stream.\<close>

definition get_next_mult_txn :: "int list res \<Rightarrow> id_gen \<Rightarrow> int list res \<times> id_gen" where
  "get_next_mult_txn fetched g =
     (case check_is_writer g of
        Inl e \<Rightarrow> (Inl e, g)
      | Inr _ \<Rightarrow>
          (let (r, g') = load_next_mult_id_txn fetched g
           in (map_sum id (map (\<lambda>i. return_factor g * i)) r, g')))"

text \<open>The smallest identifier that may still be unfinished, when there is one.\<close>

definition min_unfinished :: "id_gen \<Rightarrow> int" where
  "min_unfinished g =
     (if g_unfinished_ids g \<noteq> [] \<and> g_in_flight_fetches g \<noteq> []
      then min (hd (g_unfinished_ids g)) (hd (g_in_flight_fetches g) + 1)
      else if g_in_flight_fetches g \<noteq> [] then hd (g_in_flight_fetches g) + 1
      else hd (g_unfinished_ids g))"

text \<open>The part of \<^verbatim>\<open>_mark_ids_as_finished\<close> that chooses the new position: \<^verbatim>\<open>new_cur\<close> and the finished
  identifiers that stay.\<close>

definition new_position :: "id_gen \<Rightarrow> (int option \<times> int list) res" where
  "new_position g =
     (if busy g then
        (let below = filter (\<lambda>s. s < min_unfinished g) (g_finished_ids g)
         in Inr (if below = [] then None else Some (max_default 0 below),
                 filter (\<lambda>s. \<not> s < min_unfinished g) (g_finished_ids g)))
      else if g_finished_ids g = [] then Inl ValueError
      else Inr (Some (max_default 0 (g_finished_ids g)), []))"

definition set_local_position :: "int option \<Rightarrow> id_gen \<Rightarrow> id_gen" where
  "set_local_position new_cur g =
     (case new_cur of
        None \<Rightarrow> g
      | Some c \<Rightarrow>
          if c = 0 then g
          else
            (let curr = our_position g
             in g\<lparr>g_current_positions := dict_set (g_instance_name g) (max curr c) (g_current_positions g),
                  g_max_position_of_local_instance :=
                    max (max curr c) (g_max_position_of_local_instance g)\<rparr>))"

text \<open>\<^verbatim>\<open>_mark_ids_as_finished\<close>. The \<^verbatim>\<open>ValueError\<close> of \<^verbatim>\<open>max\<close> arises only for an empty list of identifiers.\<close>

definition mark_ids_as_finished :: "int list \<Rightarrow> id_gen \<Rightarrow> id_gen res" where
  "mark_ids_as_finished next_ids g =
     (let g1 = g\<lparr>g_unfinished_ids := filter (\<lambda>i. i \<notin> set next_ids) (g_unfinished_ids g),
                 g_finished_ids := remdups (g_finished_ids g @ next_ids)\<rparr>
      in bindR (new_position g1) (\<lambda>(new_cur, finished).
           Inr (fold add_persisted_position next_ids
                  (set_local_position new_cur (g1\<lparr>g_finished_ids := finished\<rparr>)))))"

text \<open>\<^verbatim>\<open>advance\<close>, called for the positions that other writers announce.\<close>

definition advance :: "string \<Rightarrow> int \<Rightarrow> id_gen \<Rightarrow> id_gen" where
  "advance instance_name new_id g =
     (let new_id = return_factor g * new_id;
          g1 = g\<lparr>g_current_positions :=
                    dict_set instance_name (max new_id (dict_get instance_name 0 (g_current_positions g)))
                      (g_current_positions g),
                  g_max_seen_allocated_stream_id := max (g_max_seen_allocated_stream_id g) new_id\<rparr>
      in add_persisted_position new_id g1)"

section \<open>Queries\<close>

definition get_persisted_upto_position :: "id_gen \<Rightarrow> int" where
  "get_persisted_upto_position g = return_factor g * g_persisted_upto_position g"

definition get_current_token :: "id_gen \<Rightarrow> int" where
  "get_current_token g = get_persisted_upto_position g"

definition get_current_token_for_writer :: "string \<Rightarrow> id_gen \<Rightarrow> int" where
  "get_current_token_for_writer instance_name g =
     (if g_instance_name g = instance_name
      then return_factor g * g_max_position_of_local_instance g
      else return_factor g *
             max (dict_get instance_name (g_persisted_upto_position g) (g_current_positions g))
                 (g_persisted_upto_position g))"

definition get_minimal_local_current_token :: "id_gen \<Rightarrow> int" where
  "get_minimal_local_current_token g =
     return_factor g * dict_get (g_instance_name g) (g_persisted_upto_position g) (g_current_positions g)"

definition get_positions :: "id_gen \<Rightarrow> (string, int) dict" where
  "get_positions g = map (\<lambda>(name, i). (name, return_factor g * i)) (g_current_positions g)"

section \<open>Identifiers for the extent of a block\<close>

text \<open>\<^verbatim>\<open>_update_stream_positions_table_txn\<close>: the row of this process in \<^verbatim>\<open>stream_positions\<close> only moves along the
  direction of the stream.\<close>

definition update_stream_positions_table_txn :: "id_gen \<Rightarrow> (string, int) dict \<Rightarrow> (string, int) dict" where
  "update_stream_positions_table_txn g table =
     (if g_writers g = [] then table
      else
        (let pos = get_current_token_for_writer (g_instance_name g) g
         in case map_of table (g_instance_name g) of
              None \<Rightarrow> dict_set (g_instance_name g) pos table
            | Some old \<Rightarrow>
                if (if g_positive g then old < pos else old > pos)
                then dict_set (g_instance_name g) pos table else table))"

text \<open>\<^verbatim>\<open>_MultiWriterCtxManager.__aenter__\<close>: \<open>fetched\<close> is what the sequence returns or raises, \<open>interrupted\<close> an
  exception that reaches the block after the identifiers were recorded, such as a cancellation. The
  result and the state after it.\<close>

definition aenter :: "py_error option \<Rightarrow> int list res \<Rightarrow> id_gen \<Rightarrow> int list res \<times> id_gen" where
  "aenter interrupted fetched g =
     (case load_next_mult_id_txn fetched g of
        (Inl e, g') \<Rightarrow> (Inl e, g')
      | (Inr stream_ids, g') \<Rightarrow>
          (case interrupted of
             None \<Rightarrow> (Inr (map (\<lambda>i. i * return_factor g) stream_ids), g')
           | Some e \<Rightarrow>
               if stream_ids = [] then (Inl e, g')
               else (case mark_ids_as_finished stream_ids g' of
                       Inl e' \<Rightarrow> (Inl e', g')
                     | Inr g'' \<Rightarrow> (Inl e, g''))))"

text \<open>\<^verbatim>\<open>__aexit__\<close> of a block that was entered with \<open>stream_ids\<close>: the identifiers are finished whether or not
  the block raised, the table is updated only when it did not.\<close>

definition aexit :: "bool \<Rightarrow> int list \<Rightarrow> id_gen \<Rightarrow> (string, int) dict \<Rightarrow> (id_gen \<times> (string, int) dict) res" where
  "aexit raised stream_ids g table =
     bindR (mark_ids_as_finished stream_ids g) (\<lambda>g'.
       Inr (g', if \<not> raised \<and> g_writers g' \<noteq> [] then update_stream_positions_table_txn g' table else table))"

section \<open>Start-up\<close>

text \<open>What the database holds when the generator starts: the rows of \<^verbatim>\<open>stream_positions\<close> for the stream,
  the last value of the sequence (\<open>None\<close> on SQLite), the result of the maximum query of each table, and
  the rows of the tables at or beyond a position. Identifiers carry the sign of the stream.\<close>

record id_db =
  db_position_rows :: "(string \<times> int) list"
  db_last_value :: "int option"
  db_table_maxima :: "int list"
  db_rows_from :: "int \<Rightarrow> (string \<times> int) list"

definition dict_of :: "('k \<times> 'v) list \<Rightarrow> ('k, 'v) dict" where
  "dict_of es = fold (\<lambda>(k, v). dict_set k v) es []"

text \<open>The loop over the rows, sorted by the identifier as the table has it.\<close>

definition load_row :: "string \<times> int \<Rightarrow> id_gen \<Rightarrow> id_gen" where
  "load_row row g =
     (case row of (instance_name, stream_id) \<Rightarrow>
       (let stream_id = return_factor g * stream_id;
            g' = add_persisted_position stream_id g
        in if instance_name = g_instance_name g'
           then g'\<lparr>g_current_positions := dict_set instance_name stream_id (g_current_positions g')\<rparr>
           else g'))"

definition initial_positions :: "id_db \<Rightarrow> id_gen \<Rightarrow> (string, int) dict" where
  "initial_positions db g =
     (let stored = (if g_writers g = [] then g_current_positions g
                    else dict_of (map (\<lambda>(i, s). (i, s * return_factor g))
                           (filter (\<lambda>(i, s). i \<in> set (g_writers g)) (db_position_rows db))))
      in case db_last_value db of
           Some v \<Rightarrow> if g_instance_name g \<in> set (g_writers g) then dict_set (g_instance_name g) v stored
                     else stored
         | None \<Rightarrow> stored)"

definition load_current_ids :: "id_db \<Rightarrow> id_gen \<Rightarrow> id_gen" where
  "load_current_ids db g =
     (let positions = initial_positions db g;
          g1 = g\<lparr>g_current_positions := positions\<rparr>;
          g2 = (case map snd positions of
                  [] \<Rightarrow> g1\<lparr>g_persisted_upto_position := fold max (db_table_maxima db) 1\<rparr>
                | v # vs \<Rightarrow>
                    (let min_stream_id = fold min vs v
                     in fold load_row (sort_key snd (db_rows_from db (min_stream_id * return_factor g)))
                          (g1\<lparr>g_persisted_upto_position := min_stream_id\<rparr>)))
      in g2\<lparr>g_current_positions :=
              fold (\<lambda>w d. setdefault w (g_persisted_upto_position g2) d) (g_writers g2)
                (g_current_positions g2)\<rparr>)"

text \<open>\<^verbatim>\<open>__init__\<close>, less the handles it stores and the consistency check of the sequence.\<close>

definition new_id_gen :: "string \<Rightarrow> string list \<Rightarrow> bool \<Rightarrow> id_db \<Rightarrow> id_gen" where
  "new_id_gen instance_name writers positive db =
     (let g0 = \<lparr>g_instance_name = instance_name, g_writers = writers, g_positive = positive,
                g_current_positions = [], g_unfinished_ids = [], g_in_flight_fetches = [],
                g_finished_ids = [], g_persisted_upto_position = 1,
                g_known_persisted_positions = [], g_max_seen_allocated_stream_id = 1,
                g_max_position_of_local_instance = 1\<rparr>;
          g1 = load_current_ids db g0;
          max_seen = max (max_default 1 (map snd (g_current_positions g1))) (g_persisted_upto_position g1)
      in g1\<lparr>g_max_seen_allocated_stream_id := max_seen,
            g_max_position_of_local_instance := max_seen,
            g_current_positions :=
              (if writers = [] then dict_set instance_name (g_persisted_upto_position g1) (g_current_positions g1)
               else g_current_positions g1)\<rparr>)"

section \<open>Reading a range of a sharded stream\<close>

text \<open>The conditions of the SQL clause: comparisons of the two columns with placeholders, in the order
  in which the values are bound.\<close>

datatype sql_cond =
    AfterPos int
  | UpToPos int
  | WriterUpTo string int
  | NotC sql_cond
  | AllOf "sql_cond list"
  | AnyOf "sql_cond list"

definition bounds_cond :: "mw_token \<Rightarrow> mw_token \<Rightarrow> sql_cond" where
  "bounds_cond from_token_exclusive to_token_inclusive =
     AllOf ([AfterPos (mt_stream from_token_exclusive), UpToPos (get_max_stream_pos to_token_inclusive)]
       @ map (\<lambda>(instance_name, pos). NotC (WriterUpTo instance_name pos)) (mt_map from_token_exclusive)
       @ [AnyOf (UpToPos (mt_stream to_token_inclusive) #
                 map (\<lambda>(instance_name, pos). WriterUpTo instance_name pos) (mt_map to_token_inclusive))])"

datatype sql_value = SqlInt int | SqlStr string

text \<open>The text of a condition and the values of its placeholders; \<open>is_op\<close> is the null-safe equality of
  the database engine.\<close>

fun render :: "string \<Rightarrow> string \<Rightarrow> string \<Rightarrow> sql_cond \<Rightarrow> string \<times> sql_value list" where
  "render is_op idc inc (AfterPos p) = (''? < '' @ idc, [SqlInt p])"
| "render is_op idc inc (UpToPos p) = (idc @ '' <= ?'', [SqlInt p])"
| "render is_op idc inc (WriterUpTo w p) =
     (''('' @ inc @ '' '' @ is_op @ '' ? AND '' @ idc @ '' <= ?)'', [SqlStr w, SqlInt p])"
| "render is_op idc inc (NotC c) = (case render is_op idc inc c of (s, vs) \<Rightarrow> (''NOT '' @ s, vs))"
| "render is_op idc inc (AllOf cs) =
     (''( '' @ join_with '' AND '' (map (fst \<circ> render is_op idc inc) cs) @ '' )'',
      concat (map (snd \<circ> render is_op idc inc) cs))"
| "render is_op idc inc (AnyOf cs) =
     (''( '' @ join_with '' OR '' (map (fst \<circ> render is_op idc inc) cs) @ '' )'',
      concat (map (snd \<circ> render is_op idc inc) cs))"

definition make_multiwriter_sharded_token_bounds_sql ::
  "bool \<Rightarrow> string \<Rightarrow> string \<Rightarrow> mw_token \<Rightarrow> mw_token \<Rightarrow> string \<times> sql_value list" where
  "make_multiwriter_sharded_token_bounds_sql sqlite stream_id_column instance_name_column
       from_token_exclusive to_token_inclusive =
     render (if sqlite then ''IS'' else ''IS NOT DISTINCT FROM'') stream_id_column instance_name_column
       (bounds_cond from_token_exclusive to_token_inclusive)"

text \<open>What the database answers for a row: its writer (\<open>None\<close> for NULL) and position. The equality with a
  writer is null-safe, so every condition has a truth value.\<close>

fun sql_holds :: "sql_cond \<Rightarrow> string option \<Rightarrow> int \<Rightarrow> bool" where
  "sql_holds (AfterPos p) w pos = (p < pos)"
| "sql_holds (UpToPos p) w pos = (pos \<le> p)"
| "sql_holds (WriterUpTo n p) w pos = (w = Some n \<and> pos \<le> p)"
| "sql_holds (NotC c) w pos = (\<not> sql_holds c w pos)"
| "sql_holds (AllOf cs) w pos = list_all (\<lambda>c. sql_holds c w pos) cs"
| "sql_holds (AnyOf cs) w pos = list_ex (\<lambda>c. sql_holds c w pos) cs"

definition advance_multiwriter_sharded_token_after_partial_read ::
  "mw_token \<Rightarrow> mw_token \<Rightarrow> int \<Rightarrow> mw_token res" where
  "advance_multiwriter_sharded_token_after_partial_read from_token_exclusive to_token_inclusive
       last_read_stream_id =
     bindR (raise_if (\<not> mt_stream from_token_exclusive < last_read_stream_id) AssertionError) (\<lambda>_.
     let new_baseline = max (mt_stream from_token_exclusive)
           (min last_read_stream_id (mt_stream to_token_inclusive));
         worker_pos = (\<lambda>i. max (get_stream_pos_for_instance from_token_exclusive i)
           (min last_read_stream_id (get_stream_pos_for_instance to_token_inclusive i)));
         instances = remdups (map fst (mt_map from_token_exclusive) @ map fst (mt_map to_token_inclusive))
     in make_mw_token \<lparr>mt_stream = new_baseline,
          mt_map = map (\<lambda>i. (i, worker_pos i)) (filter (\<lambda>i. worker_pos i > new_baseline) instances)\<rparr>)"

end
