(* ===== verification/Id_Gen_Props.thy ===== *)
theory Id_Gen_Props
  imports Id_Gen
begin

text \<open>
  Correctness of the identifier generator. The critical sections of one process are interleaved, by a
  step relation, with the database sequence and with the positions the other writers announce. The
  invariant of the reachable states says that no position the process publishes reaches an identifier
  that it is still writing.
\<close>

named_theorems gen_simps \<open>projections of the operations of the generator\<close>

section \<open>Folds of minimum and maximum\<close>

lemma fold_min_le: "m \<le> fold min vs (v :: int) \<longleftrightarrow> m \<le> v \<and> (\<forall>w \<in> set vs. m \<le> w)"
  by (induction vs arbitrary: v) auto

lemma fold_min_in: "fold min vs (v :: int) \<in> insert v (set vs)"
proof (induction vs arbitrary: v)
  case (Cons w vs)
  then show ?case using Cons.IH [of "min w v"] by (auto simp: min_def split: if_splits)
qed simp

lemma fold_max_in: "fold max vs (v :: int) \<in> insert v (set vs)"
proof (induction vs arbitrary: v)
  case (Cons w vs)
  then show ?case using Cons.IH [of "max w v"] by (auto simp: max_def split: if_splits)
qed simp

lemma min_default_in: "min_default d xs \<in> insert d (set xs)"
  using fold_min_in by (auto simp: min_default_def split: list.splits)

lemma min_default_le: "xs \<noteq> [] \<Longrightarrow> m \<le> min_default d xs \<longleftrightarrow> (\<forall>x \<in> set xs. m \<le> x)"
  by (auto simp: min_default_def fold_min_le split: list.splits)

lemma max_default_in: "xs \<noteq> [] \<Longrightarrow> max_default d xs \<in> set xs"
  using fold_max_in by (auto simp: max_default_def split: list.splits)

lemma max_default_le: "xs \<noteq> [] \<Longrightarrow> max_default d xs \<le> m \<longleftrightarrow> (\<forall>x \<in> set xs. x \<le> m)"
  by (auto simp: max_default_def fold_max_le split: list.splits)

section \<open>The run of persisted positions\<close>

text \<open>The loop steps exactly over the positions that are known to be persisted without a gap, and leaves
  those beyond the gap.\<close>

definition drained :: "int list \<Rightarrow> int \<Rightarrow> int list \<Rightarrow> int \<Rightarrow> bool" where
  "drained ks p ks' q \<longleftrightarrow>
     p \<le> q \<and> (\<forall>y. p < y \<and> y \<le> q \<longrightarrow> y \<in> set ks) \<and> q + 1 \<notin> set ks \<and>
     set ks' = {k \<in> set ks. q < k} \<and> sorted ks'"

lemma drain_known_correct:
  "sorted ks \<Longrightarrow> drained ks p (fst (drain_known ks p)) (snd (drain_known ks p))"
proof (induction ks p rule: drain_known.induct)
  case (2 k ks p)
  have "sorted ks" using "2.prems" by simp
  consider "k \<le> p" | "k = p + 1" | "p + 1 < k" by linarith
  then show ?case
  proof cases
    case 1
    then show ?thesis using "2.IH"(1) \<open>sorted ks\<close> by (auto simp: drained_def)
  next
    case 2
    have ih: "drained ks (p + 1) (fst (drain_known ks (p + 1))) (snd (drain_known ks (p + 1)))"
      using "2.IH"(2) 2 \<open>sorted ks\<close> by simp
    have "y = p + 1 \<or> p + 1 < y" if "p < y" for y :: int using that by linarith
    then show ?thesis using ih 2 by (auto simp: drained_def)
  next
    case 3
    then have "\<forall>x \<in> set ks. p + 1 < x" using "2.prems" by auto
    then show ?thesis using 3 "2.prems" by (auto simp: drained_def)
  qed
qed (simp add: drained_def)

section \<open>The invariant of the generator\<close>

text \<open>\<open>outs\<close> are the identifiers this process has been given and not finished, \<open>seq\<close> is the last value the
  sequence has handed out to anybody. Published positions stay below every outstanding identifier, and
  nothing the process knows of is beyond the sequence.\<close>

definition is_writer :: "id_gen \<Rightarrow> bool" where
  "is_writer g \<longleftrightarrow> check_is_writer g = Inr ()"

definition below_all :: "int set \<Rightarrow> int set \<Rightarrow> id_gen \<Rightarrow> bool" where
  "below_all outs A g \<longleftrightarrow>
     (\<forall>x \<in> outs. our_position g < x) \<and>
     (\<forall>x \<in> outs - A. g_persisted_upto_position g < x \<and>
        g_max_position_of_local_instance g < x \<and> x \<notin> set (g_known_persisted_positions g))"

definition within_seq :: "int \<Rightarrow> id_gen \<Rightarrow> bool" where
  "within_seq seq g \<longleftrightarrow>
     (\<forall>v \<in> snd ` set (g_current_positions g). v \<le> seq) \<and> 0 \<le> seq \<and>
     g_persisted_upto_position g \<le> seq \<and> g_max_position_of_local_instance g \<le> seq \<and>
     g_max_seen_allocated_stream_id g \<le> seq \<and>
     (\<forall>k \<in> set (g_known_persisted_positions g). k \<le> seq) \<and> (\<forall>k \<in> set (g_finished_ids g). k \<le> seq) \<and>
     (\<forall>k \<in> set (g_in_flight_fetches g). k \<le> seq)"

definition containers_ok :: "id_gen \<Rightarrow> bool" where
  "containers_ok g \<longleftrightarrow>
     sorted (g_known_persisted_positions g) \<and> sorted (g_unfinished_ids g) \<and>
     sorted (g_in_flight_fetches g) \<and> dict_wf (g_current_positions g)"

definition gen_ok :: "int \<Rightarrow> int set \<Rightarrow> int set \<Rightarrow> id_gen \<Rightarrow> bool" where
  "gen_ok seq outs A g \<longleftrightarrow>
     below_all outs A g \<and> within_seq seq g \<and> containers_ok g \<and>
     (outs \<noteq> {} \<longrightarrow> busy g) \<and> (busy g \<longrightarrow> is_writer g) \<and> (is_writer g \<longrightarrow> 1 \<le> our_position g)"

lemmas gen_defs = gen_ok_def below_all_def within_seq_def containers_ok_def

lemma add_persisted_frame [gen_simps]:
  "g_instance_name (add_persisted_position y g) = g_instance_name g"
  "g_writers (add_persisted_position y g) = g_writers g"
  "g_positive (add_persisted_position y g) = g_positive g"
  "g_current_positions (add_persisted_position y g) = g_current_positions g"
  "g_unfinished_ids (add_persisted_position y g) = g_unfinished_ids g"
  "g_in_flight_fetches (add_persisted_position y g) = g_in_flight_fetches g"
  "g_finished_ids (add_persisted_position y g) = g_finished_ids g"
  "g_max_seen_allocated_stream_id (add_persisted_position y g) = g_max_seen_allocated_stream_id g"
  "our_position (add_persisted_position y g) = our_position g"
  "busy (add_persisted_position y g) = busy g"
  "is_writer (add_persisted_position y g) = is_writer g"
  by (simp_all add: add_persisted_position_def Let_def our_position_def busy_def is_writer_def
      check_is_writer_def)

lemma dict_get_in: "dict_get k d m \<in> insert d (snd ` set m)"
  by (auto simp: dict_get_def split: option.splits dest!: map_of_SomeD intro: rev_image_eqI)

lemma our_position_le: "within_seq seq g \<Longrightarrow> our_position g \<le> seq"
  using dict_get_in [of "g_instance_name g" 0 "g_current_positions g"]
  by (auto simp: our_position_def within_seq_def)

lemma min_current_le:
  assumes "within_seq seq g"
  shows "min_current g \<le> seq"
proof -
  let ?others = "map snd (filter (\<lambda>(name, token). name \<noteq> g_instance_name g) (g_current_positions g))"
  have "min_default (our_position g) ?others \<in> insert (our_position g) (set ?others)"
    by (rule min_default_in)
  then have "min_default (our_position g) ?others \<le> seq"
    using our_position_le [OF assms] assms by (auto simp: within_seq_def)
  then show ?thesis by (auto simp: min_current_def Let_def min_le_iff_disj)
qed

lemma min_current_busy: "busy g \<Longrightarrow> 1 \<le> our_position g \<Longrightarrow> min_current g \<le> our_position g"
  by (simp add: min_current_def Let_def)

text \<open>What one report of a persisted position does to the two published positions.\<close>

lemma add_persisted_positions:
  fixes g :: id_gen and y :: int
  assumes "sorted (g_known_persisted_positions g)"
  defines "p \<equiv> max (min_current g) (g_persisted_upto_position g)"
  shows "drained (insort y (g_known_persisted_positions g)) p
      (g_known_persisted_positions (add_persisted_position y g))
      (g_persisted_upto_position (add_persisted_position y g))"
    and "g_max_position_of_local_instance (add_persisted_position y g) =
      (let m = max (g_max_position_of_local_instance g) p
       in if busy g then m else max (g_max_seen_allocated_stream_id g) m)"
  using drain_known_correct [of "insort y (g_known_persisted_positions g)" p] assms
  by (simp_all add: add_persisted_position_def Let_def heappush_def sorted_insort)

lemma add_persisted_within:
  assumes w: "within_seq seq g" and c: "containers_ok g" and y: "y \<le> seq"
  shows "within_seq seq (add_persisted_position y g)" "containers_ok (add_persisted_position y g)"
proof -
  let ?g = "add_persisted_position y g"
  define p where "p = max (min_current g) (g_persisted_upto_position g)"
  have s: "sorted (g_known_persisted_positions g)" using c by (simp add: containers_ok_def)
  note upd = add_persisted_positions [OF s, of y, folded p_def]
  note q = upd(1) [unfolded drained_def]
  have p_le: "p \<le> seq" using min_current_le [OF w] w by (simp add: p_def within_seq_def)
  have known: "k \<le> seq" if "k \<in> insert y (set (g_known_persisted_positions g))" for k
    using that y w by (auto simp: within_seq_def)
  have "g_persisted_upto_position ?g \<le> seq"
  proof (cases "g_persisted_upto_position ?g = p")
    case False
    then have "g_persisted_upto_position ?g \<in> insert y (set (g_known_persisted_positions g))"
      using q by (auto simp: set_insort_key)
    then show ?thesis using known by blast
  qed (simp add: p_le)
  then show "within_seq seq ?g"
    using w p_le q known upd(2) by (auto simp: within_seq_def gen_simps Let_def set_insort_key)
  show "containers_ok ?g" using c q by (simp add: containers_ok_def gen_simps)
qed

lemma gen_ok_add_persisted:
  assumes ok: "gen_ok seq outs A g" and y: "y \<le> seq" "y \<notin> outs - A"
  shows "gen_ok seq outs A (add_persisted_position y g)"
proof -
  let ?g = "add_persisted_position y g"
  define p where "p = max (min_current g) (g_persisted_upto_position g)"
  have w: "within_seq seq g" and c: "containers_ok g" and b: "below_all outs A g"
    using ok by (simp_all add: gen_ok_def)
  have s: "sorted (g_known_persisted_positions g)" using c by (simp add: containers_ok_def)
  note upd = add_persisted_positions [OF s, of y, folded p_def]
  note q = upd(1) [unfolded drained_def]
  have "below_all outs A ?g"
    unfolding below_all_def
  proof (intro ballI conjI)
    show "our_position ?g < x" if "x \<in> outs" for x using b that by (simp add: below_all_def gen_simps)
    fix x assume x: "x \<in> outs - A"
    then have busy: "busy g" "1 \<le> our_position g" using ok by (auto simp: gen_ok_def)
    then have "min_current g < x" using min_current_busy [of g] b x by (force simp: below_all_def)
    then have p_less: "p < x" using b x by (simp add: p_def below_all_def)
    then show "g_max_position_of_local_instance ?g < x"
      using upd(2) busy b x by (auto simp: below_all_def)
    have x_new: "x \<notin> insert y (set (g_known_persisted_positions g))"
      using x y b by (auto simp: below_all_def)
    then show "x \<notin> set (g_known_persisted_positions ?g)" using q by (auto simp: set_insort_key)
    show "g_persisted_upto_position ?g < x"
      using q p_less x_new by (auto simp: set_insort_key not_less [symmetric])
  qed
  then show ?thesis
    using ok add_persisted_within [OF w c y(1)] by (simp add: gen_ok_def gen_simps)
qed

text \<open>A position announced by another writer.\<close>

lemma our_position_other:
  "w \<noteq> g_instance_name g \<Longrightarrow>
   our_position (g\<lparr>g_current_positions := dict_set w v (g_current_positions g),
                   g_max_seen_allocated_stream_id := m\<rparr>) = our_position g"
  by (simp add: our_position_def dict_get_def)

lemma set_dict_set: "e \<in> set (dict_set k v d) \<Longrightarrow> e = (k, v) \<or> e \<in> set d"
  using dict_set_subset [of k v d] by auto

lemma return_factor_square [simp]: "return_factor g * (return_factor g * y) = y"
  by (simp add: return_factor_def)

lemma gen_ok_advance:
  assumes ok: "gen_ok seq outs A g" and y: "y \<le> seq" "y \<notin> outs - A" and w: "w \<noteq> g_instance_name g"
  shows "gen_ok seq outs A (advance w (return_factor g * y) g)"
proof -
  let ?v = "max y (dict_get w 0 (g_current_positions g))"
  let ?g = "g\<lparr>g_current_positions := dict_set w ?v (g_current_positions g),
     g_max_seen_allocated_stream_id := max (g_max_seen_allocated_stream_id g) y\<rparr>"
  have v: "?v \<le> seq"
    using dict_get_in [of w 0 "g_current_positions g"] ok y by (auto simp: gen_defs)
  have "within_seq seq ?g"
    using ok y v by (auto simp: gen_defs dest!: set_dict_set)
  moreover have "busy ?g = busy g" "is_writer ?g = is_writer g"
    by (simp_all add: busy_def is_writer_def check_is_writer_def)
  ultimately have "gen_ok seq outs A ?g"
    using ok our_position_other [OF w] by (auto simp: gen_ok_def below_all_def containers_ok_def)
  then show ?thesis
    using gen_ok_add_persisted [OF _ y] by (simp add: advance_def Let_def)
qed

text \<open>Finishing identifiers. The identifiers outstanding besides the unfinished ones belong to fetches
  in flight, whose recorded maximum lies below them.\<close>

lemma new_position_less:
  assumes "new_position g = Inr (Some c, fin)" "sorted (g_unfinished_ids g)"
    and "x \<in> set (g_unfinished_ids g) \<or> (g_in_flight_fetches g \<noteq> [] \<and> hd (g_in_flight_fetches g) < x)"
  shows "c < x"
proof -
  have b: "busy g" using assms(3) by (auto simp: busy_def)
  then have "c \<in> set (filter (\<lambda>s. s < min_unfinished g) (g_finished_ids g))"
    using assms(1) max_default_in [of "filter (\<lambda>s. s < min_unfinished g) (g_finished_ids g)" 0]
    by (auto simp: new_position_def Let_def split: if_splits)
  moreover have "min_unfinished g \<le> x"
    using assms(2,3) by (cases "g_unfinished_ids g") (auto simp: min_unfinished_def)
  ultimately show ?thesis by simp
qed

lemma new_position_parts:
  assumes "new_position g = Inr (c, fin)"
  shows "set fin \<subseteq> set (g_finished_ids g)" "c = Some v \<Longrightarrow> v \<in> set (g_finished_ids g)"
  using assms max_default_in [of "g_finished_ids g" 0]
    max_default_in [of "filter (\<lambda>s. s < min_unfinished g) (g_finished_ids g)" 0]
  by (auto simp: new_position_def Let_def split: if_splits)

lemma gen_ok_set_local_position:
  assumes ok: "gen_ok seq outs A g" and c: "\<And>v. c = Some v \<Longrightarrow> v \<le> seq \<and> (\<forall>x \<in> outs. v < x)"
  shows "gen_ok seq outs A (set_local_position c g)"
proof (cases "c = None \<or> c = Some 0")
  case True
  then show ?thesis using ok by (auto simp: set_local_position_def)
next
  case False
  then obtain v where v: "c = Some v" "v \<noteq> 0" by auto
  let ?m = "max (our_position g) v"
  let ?g = "g\<lparr>g_current_positions := dict_set (g_instance_name g) ?m (g_current_positions g),
     g_max_position_of_local_instance := max ?m (g_max_position_of_local_instance g)\<rparr>"
  have m: "?m \<le> seq" "\<forall>x \<in> outs. ?m < x"
    using c [OF v(1)] ok our_position_le [of seq g] by (auto simp: gen_defs)
  have our: "our_position ?g = ?m" by (simp add: our_position_def dict_get_def)
  have fr: "busy ?g = busy g" "is_writer ?g = is_writer g"
    by (simp_all add: busy_def is_writer_def check_is_writer_def)
  have "within_seq seq ?g" using ok m by (auto simp: gen_defs dest!: set_dict_set)
  moreover have "below_all outs A ?g" unfolding below_all_def our using ok m by (auto simp: gen_defs)
  moreover have "containers_ok ?g" using ok by (simp add: gen_defs)
  moreover have "is_writer g \<longrightarrow> 1 \<le> ?m" using ok by (auto simp: gen_ok_def)
  ultimately have "gen_ok seq outs A ?g"
    using ok unfolding gen_ok_def our fr by simp
  then show ?thesis using v by (simp add: set_local_position_def Let_def)
qed

lemma gen_ok_fold_persisted:
  "gen_ok seq outs A g \<Longrightarrow> (\<And>y. y \<in> set ys \<Longrightarrow> y \<le> seq \<and> y \<notin> outs - A) \<Longrightarrow>
   gen_ok seq outs A (fold add_persisted_position ys g)"
  by (induction ys arbitrary: g) (auto intro: gen_ok_add_persisted)

lemma sorted_filter_id: "sorted xs \<Longrightarrow> sorted (filter P xs)" for xs :: "int list"
  using sorted_filter [of id xs P] by simp

lemma gen_ok_mark_finished:
  assumes ok: "gen_ok seq outs A g" and ids: "ids \<noteq> []" "set ids \<subseteq> set (g_unfinished_ids g)"
    and unf: "set (g_unfinished_ids g) \<subseteq> outs" and le: "\<forall>x \<in> outs. x \<le> seq"
    and fl: "\<forall>x \<in> outs - set (g_unfinished_ids g).
      g_in_flight_fetches g \<noteq> [] \<and> hd (g_in_flight_fetches g) < x"
  shows "\<exists>g'. mark_ids_as_finished ids g = Inr g' \<and> gen_ok seq (outs - set ids) A g' \<and>
    g_unfinished_ids g' = filter (\<lambda>i. i \<notin> set ids) (g_unfinished_ids g) \<and>
    g_in_flight_fetches g' = g_in_flight_fetches g \<and> g_writers g' = g_writers g \<and>
    g_instance_name g' = g_instance_name g"
proof -
  let ?outs = "outs - set ids"
  let ?g1 = "g\<lparr>g_unfinished_ids := filter (\<lambda>i. i \<notin> set ids) (g_unfinished_ids g),
     g_finished_ids := remdups (g_finished_ids g @ ids)\<rparr>"
  have fin: "v \<le> seq" if "v \<in> set (g_finished_ids ?g1)" for v
    using that ok ids unf le by (auto simp: gen_defs)
  have cover: "x \<in> set (g_unfinished_ids ?g1) \<or>
      (g_in_flight_fetches ?g1 \<noteq> [] \<and> hd (g_in_flight_fetches ?g1) < x)" if "x \<in> ?outs" for x
    using that fl by auto
  have srt: "sorted (g_unfinished_ids ?g1)"
    using ok sorted_filter_id by (simp add: gen_defs)
  obtain c fin' where np: "new_position ?g1 = Inr (c, fin')"
    using ids(1) by (cases "new_position ?g1") (auto simp: new_position_def Let_def split: if_splits)
  let ?g2 = "?g1\<lparr>g_finished_ids := fin'\<rparr>"
  have busy2: "busy ?g2 \<Longrightarrow> busy g" by (auto simp: busy_def)
  have "gen_ok seq ?outs A ?g2"
    unfolding gen_ok_def
  proof (intro conjI)
    show "below_all ?outs A ?g2" using ok by (auto simp: gen_defs our_position_def)
    show "within_seq seq ?g2" using ok fin new_position_parts(1) [OF np] by (auto simp: gen_defs)
    show "containers_ok ?g2" using ok srt by (simp add: gen_defs)
    show "?outs \<noteq> {} \<longrightarrow> busy ?g2" using cover by (auto simp: busy_def filter_empty_conv)
    show "busy ?g2 \<longrightarrow> is_writer ?g2"
      using ok busy2 by (auto simp: gen_ok_def is_writer_def check_is_writer_def)
    show "is_writer ?g2 \<longrightarrow> 1 \<le> our_position ?g2"
      using ok by (auto simp: gen_ok_def is_writer_def check_is_writer_def our_position_def)
  qed
  then have "gen_ok seq ?outs A (set_local_position c ?g2)"
    using new_position_less [OF _ srt cover] new_position_parts(2) [OF np] np fin
    by (intro gen_ok_set_local_position) auto
  then have "gen_ok seq ?outs A (fold add_persisted_position ids (set_local_position c ?g2))"
    using ids unf le by (intro gen_ok_fold_persisted) auto
  moreover have "mark_ids_as_finished ids g =
      Inr (fold add_persisted_position ids (set_local_position c ?g2))"
    by (simp add: mark_ids_as_finished_def np)
  moreover have fr: "g_unfinished_ids (fold add_persisted_position ys h) = g_unfinished_ids h"
    "g_in_flight_fetches (fold add_persisted_position ys h) = g_in_flight_fetches h"
    "g_writers (fold add_persisted_position ys h) = g_writers h"
    "g_instance_name (fold add_persisted_position ys h) = g_instance_name h" for ys h
    by (induction ys arbitrary: h) (simp_all add: gen_simps)
  moreover have "g_unfinished_ids (set_local_position c h) = g_unfinished_ids h"
    "g_in_flight_fetches (set_local_position c h) = g_in_flight_fetches h"
    "g_writers (set_local_position c h) = g_writers h"
    "g_instance_name (set_local_position c h) = g_instance_name h" for h
    by (auto simp: set_local_position_def Let_def split: option.splits)
  ultimately show ?thesis by simp
qed

section \<open>The generator among other writers\<close>

text \<open>A fetch has asked the sequence, has got its identifiers, or has recorded them; its recorded
  maximum leaves \<^verbatim>\<open>_in_flight_fetches\<close> last.\<close>

datatype fetch_phase = Requested | Allocated "int list" | Recorded

fun allocated :: "fetch_phase \<Rightarrow> int list" where
  "allocated (Allocated ids) = ids"
| "allocated _ = []"

record gen_sys =
  s_gen :: id_gen
  s_seq :: int
  s_fetches :: "(int \<times> fetch_phase) list"
  s_announced :: "int set"

definition in_transit :: "gen_sys \<Rightarrow> int list" where
  "in_transit s = concat (map (allocated \<circ> snd) (s_fetches s))"

definition outstanding :: "gen_sys \<Rightarrow> int set" where
  "outstanding s = set (g_unfinished_ids (s_gen s)) \<union> set (in_transit s)"

text \<open>The database at start-up holds positions between 1 and the last value of the sequence.\<close>

definition db_within :: "bool \<Rightarrow> int \<Rightarrow> id_db \<Rightarrow> bool" where
  "db_within positive seq db \<longleftrightarrow>
     (let pos = (\<lambda>v. v * (if positive then 1 else -1)); ok = (\<lambda>v. 1 \<le> v \<and> v \<le> seq)
      in 1 \<le> seq \<and> (\<forall>(i, v) \<in> set (db_position_rows db). ok (pos v)) \<and>
         (\<forall>v. db_last_value db = Some v \<longrightarrow> ok v) \<and> (\<forall>v \<in> set (db_table_maxima db). v \<le> seq) \<and>
         (\<forall>m. \<forall>(i, v) \<in> set (db_rows_from db m). ok (pos v)))"

text \<open>One step: a critical section of this process, the sequence handing out identifiers to one of its
  fetches or to another writer, or another writer announcing a position. A position that is announced has
  been handed out by the sequence, not necessarily to the writer that announces it: a writer that starts
  takes the last value of the sequence as its own position (\<^verbatim>\<open>_load_current_ids\<close>) and announces it.
  \<open>s_announced\<close> collects these positions.\<close>

inductive gen_step :: "gen_sys \<Rightarrow> gen_sys \<Rightarrow> bool" where
  request: "check_is_writer (s_gen s) = Inr () \<Longrightarrow> begin_fetch (s_gen s) = (m, g) \<Longrightarrow>
    gen_step s (s\<lparr>s_gen := g, s_fetches := s_fetches s @ [(m, Requested)]\<rparr>)"
| allocate: "s_fetches s = xs @ (m, Requested) # ys \<Longrightarrow> ids \<noteq> [] \<Longrightarrow> distinct ids \<Longrightarrow>
    \<forall>i \<in> set ids. s_seq s < i \<and> i \<le> seq \<Longrightarrow>
    gen_step s (s\<lparr>s_seq := seq, s_fetches := xs @ (m, Allocated ids) # ys\<rparr>)"
| record_fetch: "s_fetches s = xs @ (m, Allocated ids) # ys \<Longrightarrow> record_ids ids (s_gen s) = Inr g \<Longrightarrow>
    gen_step s (s\<lparr>s_gen := g, s_fetches := xs @ (m, Recorded) # ys\<rparr>)"
| leave_fetch: "s_fetches s = xs @ (m, ph) # ys \<Longrightarrow>
    gen_step s (s\<lparr>s_gen := end_fetch m (s_gen s), s_fetches := xs @ ys\<rparr>)"
| finish: "ids \<noteq> [] \<Longrightarrow> set ids \<subseteq> set (g_unfinished_ids (s_gen s)) \<Longrightarrow>
    mark_ids_as_finished ids (s_gen s) = Inr g \<Longrightarrow> gen_step s (s\<lparr>s_gen := g\<rparr>)"
| others_allocate: "s_seq s \<le> seq \<Longrightarrow> gen_step s (s\<lparr>s_seq := seq\<rparr>)"
| announce: "w \<noteq> g_instance_name (s_gen s) \<Longrightarrow> y \<le> s_seq s \<Longrightarrow>
    gen_step s (s\<lparr>s_gen := advance w (return_factor (s_gen s) * y) (s_gen s),
      s_announced := insert y (s_announced s)\<rparr>)"

inductive gen_reachable :: "gen_sys \<Rightarrow> bool" where
  start: "db_within positive seq db \<Longrightarrow>
    gen_reachable \<lparr>s_gen = new_id_gen instance_name writers positive db, s_seq = seq, s_fetches = [],
      s_announced = {}\<rparr>"
| step: "gen_reachable s \<Longrightarrow> gen_step s t \<Longrightarrow> gen_reachable t"

definition fetches_ok :: "gen_sys \<Rightarrow> bool" where
  "fetches_ok s \<longleftrightarrow>
     mset (g_in_flight_fetches (s_gen s)) = mset (map fst (s_fetches s)) \<and>
     distinct (g_unfinished_ids (s_gen s) @ in_transit s) \<and>
     (\<forall>f \<in> set (s_fetches s). \<forall>x \<in> set (allocated (snd f)). fst f < x) \<and>
     (\<forall>x \<in> outstanding s. x \<le> s_seq s)"

definition sys_inv :: "gen_sys \<Rightarrow> bool" where
  "sys_inv s \<longleftrightarrow> gen_ok (s_seq s) (outstanding s) (s_announced s) (s_gen s) \<and> fetches_ok s"

section \<open>Every step keeps the invariant\<close>

lemma gen_ok_mono:
  assumes "gen_ok seq outs A g" "outs' \<subseteq> outs" "seq \<le> seq'"
  shows "gen_ok seq' outs' A g"
  using assms by (fastforce simp: gen_defs)

lemma gen_ok_announced: "gen_ok seq outs A g \<Longrightarrow> gen_ok seq outs (insert y A) g"
  by (auto simp: gen_ok_def below_all_def)

lemma gen_ok_in_flight:
  assumes ok: "gen_ok seq outs A g" and fl: "sorted fl" "\<forall>k \<in> set fl. k \<le> seq"
    and "outs \<noteq> {} \<Longrightarrow> g_unfinished_ids g \<noteq> [] \<or> fl \<noteq> []" "fl \<noteq> [] \<Longrightarrow> is_writer g"
  shows "gen_ok seq outs A (g\<lparr>g_in_flight_fetches := fl\<rparr>)"
proof -
  let ?g = "g\<lparr>g_in_flight_fetches := fl\<rparr>"
  have fr: "our_position ?g = our_position g" "is_writer ?g = is_writer g"
    by (simp_all add: our_position_def is_writer_def check_is_writer_def)
  have "below_all outs A ?g" using ok fr by (simp add: gen_ok_def below_all_def)
  moreover have "within_seq seq ?g" "containers_ok ?g" using ok fl by (simp_all add: gen_defs)
  moreover have "busy ?g \<Longrightarrow> is_writer g" using ok assms(5) by (auto simp: gen_ok_def busy_def)
  moreover have "outs \<noteq> {} \<Longrightarrow> busy ?g" using assms(4) by (auto simp: busy_def)
  ultimately show ?thesis using ok by (simp add: gen_ok_def fr)
qed

lemma inv_request:
  assumes "sys_inv s" "check_is_writer (s_gen s) = Inr ()" "begin_fetch (s_gen s) = (m, g)"
  shows "sys_inv (s\<lparr>s_gen := g, s_fetches := s_fetches s @ [(m, Requested)]\<rparr>)"
proof -
  have g: "g = s_gen s\<lparr>g_in_flight_fetches := insort m (g_in_flight_fetches (s_gen s))\<rparr>"
    using assms(3) by (auto simp: begin_fetch_def Let_def)
  have w: "is_writer (s_gen s)" using assms(2) by (simp add: is_writer_def)
  have o: "outstanding (s\<lparr>s_gen := g, s_fetches := s_fetches s @ [(m, Requested)]\<rparr>) = outstanding s"
    by (simp add: outstanding_def in_transit_def g)
  have "gen_ok (s_seq s) (outstanding s) (s_announced s) g"
    unfolding g
  proof (rule gen_ok_in_flight)
    have ok: "gen_ok (s_seq s) (outstanding s) (s_announced s) (s_gen s)" using assms(1) by (simp add: sys_inv_def)
    then show "gen_ok (s_seq s) (outstanding s) (s_announced s) (s_gen s)" .
    show "sorted (insort m (g_in_flight_fetches (s_gen s)))"
      using ok by (simp add: gen_defs sorted_insort)
    have "m \<le> s_seq s" using assms(3) ok by (auto simp: begin_fetch_def Let_def gen_defs)
    then show "\<forall>k \<in> set (insort m (g_in_flight_fetches (s_gen s))). k \<le> s_seq s"
      using ok by (auto simp: gen_defs set_insort_key)
  qed (use w in simp_all)
  then show ?thesis
    using assms(1) unfolding sys_inv_def fetches_ok_def o
    by (auto simp: g in_transit_def)
qed

lemma inv_allocate:
  assumes "sys_inv s" "s_fetches s = xs @ (m, Requested) # ys" "ids \<noteq> []" "distinct ids"
    and new: "\<forall>i \<in> set ids. s_seq s < i \<and> i \<le> seq"
  shows "sys_inv (s\<lparr>s_seq := seq, s_fetches := xs @ (m, Allocated ids) # ys\<rparr>)"
proof -
  let ?t = "s\<lparr>s_seq := seq, s_fetches := xs @ (m, Allocated ids) # ys\<rparr>"
  have ok: "gen_ok (s_seq s) (outstanding s) (s_announced s) (s_gen s)" and f: "fetches_ok s"
    using assms(1) by (simp_all add: sys_inv_def)
  have seq: "s_seq s \<le> seq" using assms(3) new by (cases ids) auto
  have o: "outstanding ?t = outstanding s \<union> set ids"
    using assms(2) by (auto simp: outstanding_def in_transit_def)
  have m: "m \<in># mset (g_in_flight_fetches (s_gen s))" using f assms(2) by (simp add: fetches_ok_def)
  have fl: "g_in_flight_fetches (s_gen s) \<noteq> []" using m by auto
  have m_le: "m \<le> s_seq s" using m ok by (auto simp: gen_defs)
  have "our_position (s_gen s) \<le> s_seq s" using ok our_position_le by (simp add: gen_ok_def)
  then have "below_all (set ids) (s_announced s) (s_gen s)"
    using ok new by (fastforce simp: gen_defs)
  then have "gen_ok (s_seq s) (outstanding s \<union> set ids) (s_announced s) (s_gen s)"
    using ok fl by (auto simp: gen_ok_def below_all_def busy_def)
  then have ok': "gen_ok seq (outstanding ?t) (s_announced s) (s_gen ?t)"
    using gen_ok_mono [OF _ order_refl seq] by (simp add: o)
  have "set ids \<inter> outstanding s = {}" using f new by (fastforce simp: fetches_ok_def)
  then have "distinct (g_unfinished_ids (s_gen ?t) @ in_transit ?t)"
    using f assms(2,4) by (auto simp: fetches_ok_def in_transit_def outstanding_def)
  moreover have "\<forall>x \<in> outstanding ?t. x \<le> seq" using f new seq unfolding o by (auto simp: fetches_ok_def)
  moreover have "\<forall>x \<in> set ids. m < x" using new m_le by auto
  ultimately have "fetches_ok ?t" using f assms(2) by (auto simp: fetches_ok_def)
  with ok' show ?thesis by (simp add: sys_inv_def)
qed

lemma record_ids_eq_Inr:
  "record_ids ids g = Inr g' \<Longrightarrow>
   g' = g\<lparr>g_unfinished_ids := sort (remdups (g_unfinished_ids g @ ids)),
          g_max_seen_allocated_stream_id := max (g_max_seen_allocated_stream_id g)
            (last (sort (remdups (g_unfinished_ids g @ ids))))\<rparr> \<and>
   set (g_unfinished_ids g') = set (g_unfinished_ids g) \<union> set ids \<and>
   last (sort (remdups (g_unfinished_ids g @ ids))) \<in> set (g_unfinished_ids g) \<union> set ids"
proof -
  let ?u = "sort (remdups (g_unfinished_ids g @ ids))"
  assume r: "record_ids ids g = Inr g'"
  then have ne: "?u \<noteq> []" by (auto simp: record_ids_def Let_def split: if_splits)
  have "set ?u = set (g_unfinished_ids g) \<union> set ids" by simp
  moreover have "last ?u \<in> set ?u" using ne by (rule last_in_set)
  ultimately show ?thesis using r ne by (auto simp: record_ids_def Let_def)
qed

lemma inv_record:
  assumes "sys_inv s" "s_fetches s = xs @ (m, Allocated ids) # ys" "record_ids ids (s_gen s) = Inr g"
  shows "sys_inv (s\<lparr>s_gen := g, s_fetches := xs @ (m, Recorded) # ys\<rparr>)"
proof -
  let ?t = "s\<lparr>s_gen := g, s_fetches := xs @ (m, Recorded) # ys\<rparr>"
  let ?u = "sort (remdups (g_unfinished_ids (s_gen s) @ ids))"
  have ok: "gen_ok (s_seq s) (outstanding s) (s_announced s) (s_gen s)" and f: "fetches_ok s"
    using assms(1) by (simp_all add: sys_inv_def)
  note g = record_ids_eq_Inr [OF assms(3)]
  have fr: "g_in_flight_fetches g = g_in_flight_fetches (s_gen s)" "our_position g = our_position (s_gen s)"
    "is_writer g = is_writer (s_gen s)" "g_unfinished_ids g = ?u"
    by (subst g [THEN conjunct1], simp add: our_position_def is_writer_def check_is_writer_def)+
  have o: "outstanding ?t = outstanding s"
    using assms(2) g by (auto simp: outstanding_def in_transit_def)
  have "m \<in># mset (g_in_flight_fetches (s_gen s))" using f assms(2) by (simp add: fetches_ok_def)
  then have "g_in_flight_fetches (s_gen s) \<noteq> []" by auto
  then have b: "busy g" "busy (s_gen s)" by (simp_all add: busy_def fr)
  have "last ?u \<in> outstanding s"
    using g assms(2) by (auto simp: outstanding_def in_transit_def)
  then have l: "last ?u \<le> s_seq s" using f by (simp add: fetches_ok_def)
  have "within_seq (s_seq s) g" using ok l by (subst g [THEN conjunct1]) (auto simp: gen_defs)
  moreover have "below_all (outstanding s) (s_announced s) g"
    using ok unfolding below_all_def fr by (subst (1 2 3) g [THEN conjunct1]) (auto simp: gen_defs)
  moreover have "containers_ok g" using ok by (subst g [THEN conjunct1]) (auto simp: gen_defs)
  ultimately have "gen_ok (s_seq s) (outstanding s) (s_announced s) g" using ok b by (auto simp: gen_ok_def fr)
  moreover have "fetches_ok ?t"
    using f assms(2) unfolding fetches_ok_def o by (auto simp: fr in_transit_def)
  ultimately show ?thesis by (simp add: sys_inv_def o)
qed

lemma inv_leave:
  assumes "sys_inv s" "s_fetches s = xs @ (m, ph) # ys"
  shows "sys_inv (s\<lparr>s_gen := end_fetch m (s_gen s), s_fetches := xs @ ys\<rparr>)"
proof -
  let ?t = "s\<lparr>s_gen := end_fetch m (s_gen s), s_fetches := xs @ ys\<rparr>"
  let ?fl = "remove1 m (g_in_flight_fetches (s_gen s))"
  have ok: "gen_ok (s_seq s) (outstanding s) (s_announced s) (s_gen s)" and f: "fetches_ok s"
    using assms(1) by (simp_all add: sys_inv_def)
  have o: "outstanding ?t \<subseteq> outstanding s"
    using assms(2) by (auto simp: outstanding_def in_transit_def end_fetch_def)
  have fl: "mset ?fl = mset (map fst (xs @ ys))" using f assms(2) by (simp add: fetches_ok_def)
  have "gen_ok (s_seq s) (outstanding ?t) (s_announced s) (s_gen s\<lparr>g_in_flight_fetches := ?fl\<rparr>)"
  proof (rule gen_ok_in_flight)
    show "gen_ok (s_seq s) (outstanding ?t) (s_announced s) (s_gen s)" using gen_ok_mono [OF ok o order_refl] .
    show "sorted ?fl" using ok by (auto simp: gen_defs intro: sorted_remove1)
    show "\<forall>k \<in> set ?fl. k \<le> s_seq s" using ok set_remove1_subset by (fastforce simp: gen_defs)
    show "?fl \<noteq> [] \<Longrightarrow> is_writer (s_gen s)" using ok by (cases "g_in_flight_fetches (s_gen s)") (auto simp: gen_ok_def busy_def)
    assume "outstanding ?t \<noteq> {}"
    then show "g_unfinished_ids (s_gen s) \<noteq> [] \<or> ?fl \<noteq> []"
      using arg_cong [OF fl, of set_mset] by (force simp: outstanding_def in_transit_def end_fetch_def simp del: mset_remove1)
  qed
  then have "gen_ok (s_seq ?t) (outstanding ?t) (s_announced ?t) (s_gen ?t)" by (simp add: end_fetch_def)
  moreover have "fetches_ok ?t"
    using f fl o assms(2) by (auto simp: fetches_ok_def in_transit_def end_fetch_def)
  ultimately show ?thesis by (simp only: sys_inv_def)
qed

lemma hd_in_flight_less:
  assumes "gen_ok (s_seq s) (outstanding s) (s_announced s) (s_gen s)" "fetches_ok s" "x \<in> set (in_transit s)"
  shows "g_in_flight_fetches (s_gen s) \<noteq> [] \<and> hd (g_in_flight_fetches (s_gen s)) < x"
proof -
  obtain f where f: "f \<in> set (s_fetches s)" "fst f < x"
    using assms(2,3) by (auto simp: in_transit_def fetches_ok_def)
  have "set (g_in_flight_fetches (s_gen s)) = fst ` set (s_fetches s)"
    using assms(2) mset_eq_setD [of "g_in_flight_fetches (s_gen s)" "map fst (s_fetches s)"]
    by (simp add: fetches_ok_def)
  then have "fst f \<in> set (g_in_flight_fetches (s_gen s))" using f by simp
  moreover have "sorted (g_in_flight_fetches (s_gen s))" using assms(1) by (simp add: gen_defs)
  ultimately show ?thesis using f(2) by (cases "g_in_flight_fetches (s_gen s)") auto
qed

lemma inv_finish:
  assumes "sys_inv s" "ids \<noteq> []" "set ids \<subseteq> set (g_unfinished_ids (s_gen s))"
    and "mark_ids_as_finished ids (s_gen s) = Inr g"
  shows "sys_inv (s\<lparr>s_gen := g\<rparr>)"
proof -
  have ok: "gen_ok (s_seq s) (outstanding s) (s_announced s) (s_gen s)" and f: "fetches_ok s"
    using assms(1) by (simp_all add: sys_inv_def)
  have "\<exists>g'. mark_ids_as_finished ids (s_gen s) = Inr g' \<and> gen_ok (s_seq s) (outstanding s - set ids) (s_announced s) g' \<and>
    g_unfinished_ids g' = filter (\<lambda>i. i \<notin> set ids) (g_unfinished_ids (s_gen s)) \<and>
    g_in_flight_fetches g' = g_in_flight_fetches (s_gen s) \<and> g_writers g' = g_writers (s_gen s) \<and>
    g_instance_name g' = g_instance_name (s_gen s)"
  proof (rule gen_ok_mark_finished [OF ok assms(2,3)])
    show "\<forall>x \<in> outstanding s. x \<le> s_seq s" using f by (simp add: fetches_ok_def)
    show "\<forall>x \<in> outstanding s - set (g_unfinished_ids (s_gen s)).
        g_in_flight_fetches (s_gen s) \<noteq> [] \<and> hd (g_in_flight_fetches (s_gen s)) < x"
      using hd_in_flight_less [OF ok f] by (auto simp: outstanding_def)
  qed (simp add: outstanding_def)
  then have g: "gen_ok (s_seq s) (outstanding s - set ids) (s_announced s) g"
    "g_unfinished_ids g = filter (\<lambda>i. i \<notin> set ids) (g_unfinished_ids (s_gen s))"
    "g_in_flight_fetches g = g_in_flight_fetches (s_gen s)"
    using assms(4) by auto
  have "outstanding (s\<lparr>s_gen := g\<rparr>) = outstanding s - set ids"
    using f assms(3) g(2) by (fastforce simp: outstanding_def in_transit_def fetches_ok_def)
  then show ?thesis
    using f g by (auto simp: sys_inv_def fetches_ok_def in_transit_def)
qed

lemma inv_announce:
  assumes "sys_inv s" "w \<noteq> g_instance_name (s_gen s)" "y \<le> s_seq s"
  shows "sys_inv (s\<lparr>s_gen := advance w (return_factor (s_gen s) * y) (s_gen s),
      s_announced := insert y (s_announced s)\<rparr>)"
proof -
  let ?g = "advance w (return_factor (s_gen s) * y) (s_gen s)"
  let ?t = "s\<lparr>s_gen := ?g, s_announced := insert y (s_announced s)\<rparr>"
  have fr: "g_unfinished_ids ?g = g_unfinished_ids (s_gen s)"
    "g_in_flight_fetches ?g = g_in_flight_fetches (s_gen s)"
    by (simp_all add: advance_def Let_def gen_simps)
  have "outstanding ?t = outstanding s" by (simp add: outstanding_def in_transit_def fr)
  moreover have "gen_ok (s_seq s) (outstanding s) (insert y (s_announced s)) ?g"
    using assms by (intro gen_ok_advance gen_ok_announced) (simp_all add: sys_inv_def)
  ultimately show ?thesis
    using assms(1) by (auto simp: sys_inv_def fetches_ok_def in_transit_def fr)
qed

lemma inv_step: "gen_step s t \<Longrightarrow> sys_inv s \<Longrightarrow> sys_inv t"
proof (induction rule: gen_step.induct)
  case (others_allocate s seq)
  have o: "outstanding (s\<lparr>s_seq := seq\<rparr>) = outstanding s" by (simp add: outstanding_def in_transit_def)
  have "gen_ok seq (outstanding s) (s_announced s) (s_gen s)"
    using others_allocate gen_ok_mono [OF _ order_refl] by (auto simp: sys_inv_def)
  then show ?case using others_allocate unfolding sys_inv_def fetches_ok_def o
    by (auto simp: in_transit_def)
qed (blast intro: inv_request inv_allocate inv_record inv_leave inv_finish inv_announce)+

section \<open>The generator starts in the invariant\<close>

text \<open>What holds while the rows are loaded.\<close>

definition loading :: "int \<Rightarrow> id_gen \<Rightarrow> bool" where
  "loading seq g \<longleftrightarrow>
     within_seq seq g \<and> containers_ok g \<and> \<not> busy g \<and> 1 \<le> g_persisted_upto_position g \<and>
     (\<forall>v \<in> snd ` set (g_current_positions g). 1 \<le> v)"

lemma loading_row:
  assumes "loading seq g" "1 \<le> return_factor g * snd row" "return_factor g * snd row \<le> seq"
  shows "loading seq (load_row row g)"
proof -
  let ?y = "return_factor g * snd row"
  let ?g = "add_persisted_position ?y g"
  have wc: "within_seq seq ?g" "containers_ok ?g"
    using assms add_persisted_within [of seq g ?y] by (auto simp: loading_def)
  have "sorted (g_known_persisted_positions g)" using assms by (simp add: loading_def containers_ok_def)
  from add_persisted_positions(1) [OF this, of ?y]
  have "1 \<le> g_persisted_upto_position ?g" using assms(1) by (auto simp: drained_def loading_def)
  then have l: "loading seq ?g" using assms(1) wc by (simp add: loading_def gen_simps)
  have "loading seq (?g\<lparr>g_current_positions := dict_set (fst row) ?y (g_current_positions ?g)\<rparr>)"
    using l assms(2,3)
    by (auto simp: loading_def within_seq_def containers_ok_def busy_def dest!: set_dict_set)
  with l show ?thesis by (cases row) (auto simp: load_row_def Let_def)
qed

lemma load_row_frame:
  "g_positive (load_row row g) = g_positive g" "g_writers (load_row row g) = g_writers g"
  "g_instance_name (load_row row g) = g_instance_name g"
  "g_unfinished_ids (load_row row g) = g_unfinished_ids g"
  "g_in_flight_fetches (load_row row g) = g_in_flight_fetches g"
  by (cases row; simp add: load_row_def Let_def gen_simps)+

lemma fold_load_row_frame:
  "g_positive (fold load_row rows g) = g_positive g" "g_writers (fold load_row rows g) = g_writers g"
  "g_instance_name (fold load_row rows g) = g_instance_name g"
  "g_unfinished_ids (fold load_row rows g) = g_unfinished_ids g"
  "g_in_flight_fetches (fold load_row rows g) = g_in_flight_fetches g"
  by (induction rows arbitrary: g) (simp_all add: load_row_frame)

lemma loading_rows:
  "loading seq g \<Longrightarrow>
   (\<And>row. row \<in> set rows \<Longrightarrow> 1 \<le> return_factor g * snd row \<and> return_factor g * snd row \<le> seq) \<Longrightarrow>
   loading seq (fold load_row rows g)"
proof (induction rows arbitrary: g)
  case (Cons row rows)
  have "return_factor (load_row row g) = return_factor g" by (simp add: return_factor_def load_row_frame)
  then show ?case using Cons loading_row [of seq g row] by simp
qed simp

lemma dict_of_props:
  "dict_wf (dict_of es)" "snd ` set (dict_of es) \<subseteq> snd ` set es"
proof -
  have "dict_wf d \<Longrightarrow> dict_wf (fold (\<lambda>(k, v). dict_set k v) es d) \<and>
      snd ` set (fold (\<lambda>(k, v). dict_set k v) es d) \<subseteq> snd ` set d \<union> snd ` set es" for d
  proof (induction es arbitrary: d)
    case (Cons e es)
    obtain k v where e: "e = (k, v)" by (cases e)
    have "snd ` set (dict_set k v d) \<subseteq> insert v (snd ` set d)" by (auto dest!: set_dict_set)
    moreover have "dict_wf (dict_set k v d)" using Cons.prems by simp
    ultimately show ?case using Cons.IH [of "dict_set k v d"] by (simp add: e) blast
  qed simp
  from this [of "[]"] show "dict_wf (dict_of es)" "snd ` set (dict_of es) \<subseteq> snd ` set es"
    by (simp_all add: dict_of_def)
qed

lemma initial_positions_ok:
  assumes "db_within (g_positive g) seq db" "g_current_positions g = []"
  shows "dict_wf (initial_positions db g)"
    "\<forall>v \<in> snd ` set (initial_positions db g). 1 \<le> v \<and> v \<le> seq"
proof -
  let ?rows = "map (\<lambda>(i, s). (i, s * return_factor g))
      (filter (\<lambda>(i, s). i \<in> set (g_writers g)) (db_position_rows db))"
  let ?stored = "if g_writers g = [] then [] else dict_of ?rows"
  have "\<forall>v \<in> snd ` set ?rows. 1 \<le> v \<and> v \<le> seq"
    using assms(1) by (auto simp: db_within_def Let_def return_factor_def)
  then have st: "dict_wf ?stored" "\<forall>v \<in> snd ` set ?stored. 1 \<le> v \<and> v \<le> seq"
    using dict_of_props [of ?rows] by auto
  have lv: "1 \<le> v \<and> v \<le> seq" if "db_last_value db = Some v" for v
    using assms(1) that by (auto simp: db_within_def Let_def)
  show "dict_wf (initial_positions db g)"
    using st(1) assms(2) by (auto simp: initial_positions_def Let_def split: option.splits)
  show "\<forall>v \<in> snd ` set (initial_positions db g). 1 \<le> v \<and> v \<le> seq"
    using st(2) lv assms(2)
    by (auto simp: initial_positions_def Let_def split: option.splits dest!: set_dict_set)
qed

lemma fold_setdefault:
  "dict_wf d \<Longrightarrow> dict_wf (fold (\<lambda>w d. setdefault w u d) ws d) \<and>
   snd ` set (fold (\<lambda>w d. setdefault w u d) ws d) \<subseteq> insert u (snd ` set d) \<and>
   fst ` set (fold (\<lambda>w d. setdefault w u d) ws d) = fst ` set d \<union> set ws"
proof (induction ws arbitrary: d)
  case (Cons w ws)
  have "dict_wf (setdefault w u d)" "snd ` set (setdefault w u d) \<subseteq> insert u (snd ` set d)"
    "fst ` set (setdefault w u d) = insert w (fst ` set d)"
    using Cons.prems map_of_eq_None_iff [of d w]
    by (auto simp: setdefault_def dict_wf_def split: option.splits dest!: map_of_SomeD intro: rev_image_eqI)
  then show ?case using Cons.IH [of "setdefault w u d"] by simp blast
qed auto

lemma loading_update:
  assumes "loading seq g" "dict_wf ps" "\<forall>v \<in> snd ` set ps. 1 \<le> v \<and> v \<le> seq" "1 \<le> u" "u \<le> seq"
  shows "loading seq (g\<lparr>g_current_positions := ps, g_persisted_upto_position := u\<rparr>)"
  using assms by (simp add: loading_def within_seq_def containers_ok_def busy_def)

lemma db_rows_within:
  assumes "db_within (g_positive g) seq db" "row \<in> set (db_rows_from db m)"
  shows "1 \<le> return_factor g * snd row \<and> return_factor g * snd row \<le> seq"
proof -
  have "\<forall>(i, v) \<in> set (db_rows_from db m). 1 \<le> v * return_factor g \<and> v * return_factor g \<le> seq"
    using assms(1) by (simp add: db_within_def Let_def return_factor_def)
  then show ?thesis using assms(2) by (cases row) (auto simp: mult.commute)
qed

lemma loading_setdefaults:
  assumes "loading seq g"
  shows "loading seq (g\<lparr>g_current_positions :=
      fold (\<lambda>w d. setdefault w (g_persisted_upto_position g) d) ws (g_current_positions g)\<rparr>)"
proof -
  let ?ps = "fold (\<lambda>w d. setdefault w (g_persisted_upto_position g) d) ws (g_current_positions g)"
  have ps: "dict_wf ?ps" "snd ` set ?ps \<subseteq> insert (g_persisted_upto_position g) (snd ` set (g_current_positions g))"
    using fold_setdefault [of "g_current_positions g" "g_persisted_upto_position g" ws] assms
    by (simp_all add: loading_def containers_ok_def)
  have "1 \<le> v \<and> v \<le> seq" if "v \<in> insert (g_persisted_upto_position g) (snd ` set (g_current_positions g))" for v
    using that assms by (auto simp: loading_def within_seq_def)
  then have "\<forall>v \<in> snd ` set ?ps. 1 \<le> v \<and> v \<le> seq" using ps(2) by blast
  then show ?thesis
    using assms ps(1) by (simp add: loading_def within_seq_def containers_ok_def busy_def)
qed

lemma loading_load_current_ids:
  assumes db: "db_within (g_positive g) seq db" and g: "g_current_positions g = []"
    and start: "loading seq g"
  shows "loading seq (load_current_ids db g)"
    "set (g_writers g) \<subseteq> fst ` set (g_current_positions (load_current_ids db g))"
    "g_writers (load_current_ids db g) = g_writers g"
    "g_instance_name (load_current_ids db g) = g_instance_name g"
proof -
  let ?ps = "initial_positions db g"
  note ps = initial_positions_ok [OF db g] and ld = loading_update [OF start]
  let ?rows = "\<lambda>m. sort_key snd (db_rows_from db (m * return_factor g))"
  define g2 where "g2 = (case map snd ?ps of
      [] \<Rightarrow> g\<lparr>g_current_positions := ?ps, g_persisted_upto_position := fold max (db_table_maxima db) 1\<rparr>
    | v # vs \<Rightarrow> fold load_row (?rows (fold min vs v))
        (g\<lparr>g_current_positions := ?ps, g_persisted_upto_position := fold min vs v\<rparr>))"
  have "loading seq g2"
  proof (cases "map snd ?ps")
    case Nil
    have "1 \<le> fold max (db_table_maxima db) 1 \<and> fold max (db_table_maxima db) 1 \<le> seq"
      using db fold_max_le [of "db_table_maxima db" 1 seq] fold_max_le [of "db_table_maxima db" 1]
      by (auto simp: db_within_def Let_def)
    then show ?thesis using ld ps by (auto simp: g2_def Nil)
  next
    case (Cons v vs)
    let ?m = "fold min vs v"
    have "insert v (set vs) = snd ` set ?ps" using Cons by (metis list.set_map list.simps(15))
    then have "1 \<le> ?m \<and> ?m \<le> seq" using fold_min_in [of vs v] ps(2) by auto
    then have "loading seq (g\<lparr>g_current_positions := ?ps, g_persisted_upto_position := ?m\<rparr>)"
      using ld ps by blast
    then show ?thesis
      using db_rows_within [OF db] by (auto simp: g2_def Cons return_factor_def intro!: loading_rows)
  qed
  moreover have fr: "g_writers g2 = g_writers g" "g_instance_name g2 = g_instance_name g"
    by (auto simp: g2_def fold_load_row_frame split: list.splits)
  moreover have ld: "load_current_ids db g = g2\<lparr>g_current_positions :=
      fold (\<lambda>w d. setdefault w (g_persisted_upto_position g2) d) (g_writers g2) (g_current_positions g2)\<rparr>"
    by (simp add: load_current_ids_def Let_def g2_def cong: list.case_cong)
  ultimately show "loading seq (load_current_ids db g)"
    using loading_setdefaults by simp
  show "set (g_writers g) \<subseteq> fst ` set (g_current_positions (load_current_ids db g))"
    "g_writers (load_current_ids db g) = g_writers g"
    "g_instance_name (load_current_ids db g) = g_instance_name g"
    using fold_setdefault [of "g_current_positions g2" "g_persisted_upto_position g2" "g_writers g2"]
      \<open>loading seq g2\<close> by (simp_all add: ld fr loading_def containers_ok_def)
qed


lemma gen_ok_new_id_gen:
  assumes db: "db_within positive seq db"
  shows "gen_ok seq {} {} (new_id_gen inst ws positive db) \<and> \<not> busy (new_id_gen inst ws positive db)"
proof -
  define g0 where "g0 = \<lparr>g_instance_name = inst, g_writers = ws, g_positive = positive,
    g_current_positions = [], g_unfinished_ids = [], g_in_flight_fetches = [], g_finished_ids = [],
    g_persisted_upto_position = 1, g_known_persisted_positions = [], g_max_seen_allocated_stream_id = 1,
    g_max_position_of_local_instance = 1\<rparr>"
  define g1 where "g1 = load_current_ids db g0"
  define m where "m = max (max_default 1 (map snd (g_current_positions g1))) (g_persisted_upto_position g1)"
  let ?ps = "if ws = [] then dict_set inst (g_persisted_upto_position g1) (g_current_positions g1)
    else g_current_positions g1"
  let ?g = "g1\<lparr>g_max_seen_allocated_stream_id := m, g_max_position_of_local_instance := m,
    g_current_positions := ?ps\<rparr>"
  have g: "new_id_gen inst ws positive db = ?g"
    by (simp add: new_id_gen_def Let_def g0_def g1_def m_def)
  have p: "db_within (g_positive g0) seq db" "g_current_positions g0 = []" "g_writers g0 = ws"
    "g_instance_name g0 = inst" using db by (simp_all add: g0_def)
  have "loading seq g0"
    using db by (simp add: g0_def loading_def within_seq_def containers_ok_def busy_def db_within_def Let_def)
  note l = loading_load_current_ids [OF p(1,2) this, folded g1_def, unfolded p]
  have ld: "loading seq g1" and keys: "set ws \<subseteq> fst ` set (g_current_positions g1)"
    and fr: "g_writers g1 = ws" "g_instance_name g1 = inst"
    using l by auto
  have "m \<in> insert 1 (insert (g_persisted_upto_position g1) (snd ` set (g_current_positions g1)))"
    using max_default_in [of "map snd (g_current_positions g1)" 1]
    by (cases "g_current_positions g1 = []") (auto simp: m_def max_def max_default_def)
  then have m: "m \<le> seq" using ld db by (auto simp: loading_def within_seq_def db_within_def Let_def)
  have ps: "\<forall>v \<in> snd ` set ?ps. 1 \<le> v \<and> v \<le> seq" "dict_wf ?ps"
    using ld by (auto simp: loading_def within_seq_def containers_ok_def dest!: set_dict_set)
  then have val: "1 \<le> v" if "map_of ?ps i = Some v" for i v
    using map_of_SomeD [OF that] by force
  have "1 \<le> our_position ?g" if "is_writer ?g"
  proof -
    have "ws = [] \<or> inst \<in> fst ` set (g_current_positions g1)"
      using that keys fr by (auto simp: is_writer_def check_is_writer_def raise_if_def split: if_splits)
    then have "map_of ?ps inst \<noteq> None" by (auto simp: map_of_eq_None_iff)
    then show ?thesis using val [of inst] by (auto simp: our_position_def dict_get_def fr)
  qed
  moreover have "within_seq seq ?g" "containers_ok ?g" "\<not> busy ?g"
    using ld m ps by (simp_all add: loading_def within_seq_def containers_ok_def busy_def)
  ultimately show ?thesis unfolding g by (simp add: gen_ok_def below_all_def)
qed

lemma reachable_inv: "gen_reachable s \<Longrightarrow> sys_inv s"
proof (induction rule: gen_reachable.induct)
  case (start positive seq db inst ws)
  let ?g = "new_id_gen inst ws positive db"
  have "gen_ok seq {} {} ?g" "g_unfinished_ids ?g = []" "g_in_flight_fetches ?g = []"
    using gen_ok_new_id_gen [OF start] by (simp_all add: busy_def)
  then show ?case by (simp add: sys_inv_def fetches_ok_def outstanding_def in_transit_def)
qed (rule inv_step)


lemma new_id_gen_frame [gen_simps]:
  "g_positive (new_id_gen inst ws positive db) = positive"
  "g_writers (new_id_gen inst ws positive db) = ws"
  "g_instance_name (new_id_gen inst ws positive db) = inst"
  "g_unfinished_ids (new_id_gen inst ws positive db) = []"
  "g_in_flight_fetches (new_id_gen inst ws positive db) = []"
  by (auto simp: new_id_gen_def load_current_ids_def Let_def fold_load_row_frame split: list.splits)

lemma advance_frame [gen_simps]:
  "g_instance_name (advance w y g) = g_instance_name g" "g_positive (advance w y g) = g_positive g"
  "g_unfinished_ids (advance w y g) = g_unfinished_ids g" "g_writers (advance w y g) = g_writers g"
  "g_in_flight_fetches (advance w y g) = g_in_flight_fetches g"
  by (simp_all add: advance_def Let_def gen_simps)

section \<open>Blocks that are interrupted\<close>

lemma fold_persisted_unfinished: "g_unfinished_ids (fold add_persisted_position ys g) = g_unfinished_ids g"
  by (induction ys arbitrary: g) (simp_all add: gen_simps)

lemma mark_finished_unfinished:
  assumes "ids \<noteq> []"
  shows "\<exists>h. mark_ids_as_finished ids g = Inr h \<and>
    g_unfinished_ids h = filter (\<lambda>i. i \<notin> set ids) (g_unfinished_ids g)"
proof -
  let ?g = "g\<lparr>g_unfinished_ids := filter (\<lambda>i. i \<notin> set ids) (g_unfinished_ids g),
     g_finished_ids := remdups (g_finished_ids g @ ids)\<rparr>"
  obtain c fin where "new_position ?g = Inr (c, fin)"
    using assms by (cases "new_position ?g") (auto simp: new_position_def Let_def split: if_splits)
  moreover have "g_unfinished_ids (set_local_position c h) = g_unfinished_ids h" for h
    by (simp add: set_local_position_def Let_def split: option.split)
  ultimately show ?thesis by (simp add: mark_ids_as_finished_def fold_persisted_unfinished)
qed

text \<open>A block whose entry raises, at whatever point, leaves no identifier behind that is never finished.\<close>

lemma aenter_raises_leaves_nothing:
  assumes "aenter interrupted fetched g = (Inl e, h)"
  shows "set (g_unfinished_ids h) \<subseteq> set (g_unfinished_ids g)"
proof (cases "load_next_mult_id_txn fetched g")
  case (Pair r g')
  have "g_unfinished_ids g' = g_unfinished_ids g" if "r = Inl e'" for e'
    using Pair that by (auto simp: load_next_mult_id_txn_def begin_fetch_def Let_def end_fetch_def split: sum.splits)
  moreover have "set (g_unfinished_ids g') \<subseteq> set (g_unfinished_ids g) \<union> set ids" if "r = Inr ids" for ids
    using Pair that by (auto simp: load_next_mult_id_txn_def begin_fetch_def Let_def end_fetch_def
        record_ids_def split: sum.splits if_splits)
  ultimately show ?thesis
    using assms Pair mark_finished_unfinished [of _ g']
    by (fastforce simp: aenter_def split: sum.splits option.splits if_splits)
qed

section \<open>What the positions promise\<close>

text \<open>C23: what the process publishes while it writes. In every state that the process and the other
  writers can reach, the minimal position of the process has not reached any identifier that it was given
  and has not finished, even while the reply of the sequence is still on its way. Nor has the position up
  to which everything is persisted or the position of the process as a writer, unless another writer has
  announced that very identifier as its own position, as a writer that starts up does with the last value
  of the sequence (\<open>announced_id_is_passed\<close> below shows that both positions then pass it).\<close>

theorem published_below_outstanding:
  assumes "gen_reachable s" "x \<in> outstanding s"
  shows "return_factor (s_gen s) * get_minimal_local_current_token (s_gen s) < x \<and>
    (x \<notin> s_announced s \<longrightarrow>
      return_factor (s_gen s) * get_current_token (s_gen s) < x \<and>
      return_factor (s_gen s) * get_current_token_for_writer (g_instance_name (s_gen s)) (s_gen s) < x)"
proof -
  have ok: "gen_ok (s_seq s) (outstanding s) (s_announced s) (s_gen s)"
    using reachable_inv [OF assms(1)] by (simp add: sys_inv_def)
  then have b: "our_position (s_gen s) < x" "1 \<le> our_position (s_gen s)"
    "x \<notin> s_announced s \<Longrightarrow> g_persisted_upto_position (s_gen s) < x \<and> g_max_position_of_local_instance (s_gen s) < x"
    using assms(2) by (auto simp: gen_ok_def below_all_def)
  have "dict_get (g_instance_name (s_gen s)) (g_persisted_upto_position (s_gen s))
      (g_current_positions (s_gen s)) < x"
    using b(1,2) by (auto simp: dict_get_def our_position_def split: option.splits)
  then show ?thesis
    using b(3) by (simp add: get_current_token_def get_persisted_upto_position_def get_current_token_for_writer_def
        get_minimal_local_current_token_def)
qed

definition example_db :: id_db where
  "example_db = \<lparr>db_position_rows = [(''master'', 5), (''worker1'', 7)], db_last_value = Some 8,
     db_table_maxima = [8], db_rows_from = (\<lambda>m. [(''worker1'', 7), (''master'', 8)])\<rparr>"

definition example_start :: gen_sys where
  "example_start = \<lparr>s_gen = new_id_gen ''master'' [''master'', ''worker1''] True example_db, s_seq = 8,
     s_fetches = [], s_announced = {}\<rparr>"

lemma example_start_reachable: "gen_reachable example_start"
  unfolding example_start_def
  by (rule gen_reachable.start) (simp add: db_within_def example_db_def)


text \<open>The process asks the sequence, which hands it 9; the other writer then announces 10.\<close>

definition example_announced :: "int \<Rightarrow> gen_sys" where
  "example_announced y =
     (let (m, g) = begin_fetch (s_gen example_start)
      in \<lparr>s_gen = advance ''worker1'' y g, s_seq = 10, s_fetches = [(m, Allocated [9])], s_announced = {y}\<rparr>)"

definition example_writing :: gen_sys where
  "example_writing = example_announced 10"

lemma example_announced_reachable:
  assumes "y \<le> 10"
  shows "gen_reachable (example_announced y)"
proof -
  let ?g = "s_gen example_start"
  obtain m g where b: "begin_fetch ?g = (m, g)" by (cases "begin_fetch ?g")
  define s1 where "s1 = example_start\<lparr>s_gen := g, s_fetches := [(m, Requested)]\<rparr>"
  define s2 where "s2 = s1\<lparr>s_seq := 9, s_fetches := [(m, Allocated [9])]\<rparr>"
  define s3 where "s3 = s2\<lparr>s_seq := 10\<rparr>"
  have g: "g_instance_name g = ''master''" "g_positive g" "g_unfinished_ids g = []"
    using b by (auto simp: example_start_def begin_fetch_def Let_def gen_simps)
  have "check_is_writer ?g = Inr ()"
    by (simp add: example_start_def check_is_writer_def raise_if_def gen_simps)
  then have "gen_step example_start s1"
    using request [OF _ b] by (simp add: s1_def example_start_def)
  moreover have "gen_step s1 s2"
    using allocate [of s1 "[]" m "[]" "[9]" 9] by (simp add: s1_def s2_def example_start_def)
  moreover have "gen_step s2 s3"
    using others_allocate [of s2 10] by (simp add: s3_def s2_def)
  moreover have "gen_step s3 (s3\<lparr>s_gen := advance ''worker1'' y g, s_announced := {y}\<rparr>)"
    using announce [of "''worker1''" s3 y] g assms
    by (simp add: s3_def s2_def s1_def return_factor_def example_start_def)
  ultimately have "gen_reachable (s3\<lparr>s_gen := advance ''worker1'' y g, s_announced := {y}\<rparr>)"
    by (meson example_start_reachable gen_reachable.step)
  moreover have "example_announced y = s3\<lparr>s_gen := advance ''worker1'' y g, s_announced := {y}\<rparr>"
    unfolding example_announced_def b by (simp add: s3_def s2_def s1_def example_start_def)
  ultimately show ?thesis by simp
qed

lemmas example_writing_reachable = example_announced_reachable [of 10, folded example_writing_def, simplified]

text \<open>The other writer restarts while 9 is being written and announces it: the position up to which
  everything is persisted passes the unfinished identifier, and so does, with the next announcement, the
  position of the process as a writer.\<close>

lemma announced_id_is_passed:
  "gen_reachable (example_announced 9) \<and> 9 \<in> outstanding (example_announced 9) \<and>
   get_current_token (s_gen (example_announced 9)) = 9 \<and>
   get_current_token_for_writer ''master'' (advance ''worker1'' 10 (s_gen (example_announced 9))) = 9 \<and>
   get_minimal_local_current_token (s_gen (example_announced 9)) = 8"
proof (intro conjI)
  show "gen_reachable (example_announced 9)" by (rule example_announced_reachable) simp
  show "9 \<in> outstanding (example_announced 9)"
    by (simp add: example_announced_def outstanding_def in_transit_def split: prod.split)
qed code_simp+

lemma published_below_outstanding_witness:
  "gen_reachable example_writing \<and> 9 \<in> outstanding example_writing \<and>
   get_current_token (s_gen example_writing) < 9 \<and>
   get_current_token_for_writer ''master'' (s_gen example_writing) < 9"
proof -
  have x: "9 \<in> outstanding example_writing"
    by (simp add: example_writing_def example_announced_def outstanding_def in_transit_def split: prod.split)
  have g: "g_instance_name (s_gen example_writing) = ''master''" "return_factor (s_gen example_writing) = 1"
    "9 \<notin> s_announced example_writing"
    by (simp_all add: example_writing_def example_announced_def example_start_def begin_fetch_def Let_def
        return_factor_def gen_simps)
  show ?thesis
    using published_below_outstanding [OF example_writing_reachable x] example_writing_reachable x g by simp
qed


section \<open>Positions never go back\<close>

definition positions_le :: "id_gen \<Rightarrow> id_gen \<Rightarrow> bool" where
  "positions_le g h \<longleftrightarrow>
     g_instance_name h = g_instance_name g \<and> g_positive h = g_positive g \<and>
     g_persisted_upto_position g \<le> g_persisted_upto_position h \<and>
     g_max_position_of_local_instance g \<le> g_max_position_of_local_instance h \<and>
     (\<forall>w v. map_of (g_current_positions g) w = Some v \<longrightarrow>
        (\<exists>v'. map_of (g_current_positions h) w = Some v' \<and> v \<le> v'))"

lemma positions_le_refl [simp]: "positions_le g g"
  by (auto simp: positions_le_def)

lemma positions_le_trans [trans]: "positions_le g h \<Longrightarrow> positions_le h k \<Longrightarrow> positions_le g k"
  unfolding positions_le_def by (fastforce intro: order_trans)

lemma drain_known_ge: "p \<le> snd (drain_known ks p)"
  by (induction ks p rule: drain_known.induct) auto

lemma positions_le_add_persisted: "positions_le g (add_persisted_position y g)"
  using drain_known_ge [of "max (min_current g) (g_persisted_upto_position g)"]
  by (simp add: positions_le_def add_persisted_position_def Let_def le_max_iff_disj)

lemma positions_le_fold_persisted: "positions_le g (fold add_persisted_position ys g)"
  by (induction ys arbitrary: g) (simp_all, blast intro: positions_le_add_persisted positions_le_trans)

lemma positions_le_set_local: "positions_le g (set_local_position c g)"
  by (auto simp: positions_le_def set_local_position_def Let_def our_position_def dict_get_def
      split: option.splits)

lemma positions_le_advance: "positions_le g (advance w y g)"
proof -
  let ?y = "return_factor g * y"
  let ?g = "g\<lparr>g_current_positions :=
      dict_set w (max ?y (dict_get w 0 (g_current_positions g))) (g_current_positions g),
    g_max_seen_allocated_stream_id := max (g_max_seen_allocated_stream_id g) ?y\<rparr>"
  have "positions_le g ?g" by (auto simp: positions_le_def dict_get_def)
  then show ?thesis
    using positions_le_add_persisted positions_le_trans by (fastforce simp: advance_def Let_def)
qed

lemma positions_le_finish:
  assumes "mark_ids_as_finished ids g = Inr h"
  shows "positions_le g h"
proof -
  let ?g1 = "g\<lparr>g_unfinished_ids := filter (\<lambda>i. i \<notin> set ids) (g_unfinished_ids g),
     g_finished_ids := remdups (g_finished_ids g @ ids)\<rparr>"
  obtain c fin where "new_position ?g1 = Inr (c, fin)"
    and h: "h = fold add_persisted_position ids (set_local_position c (?g1\<lparr>g_finished_ids := fin\<rparr>))"
    using assms by (auto simp: mark_ids_as_finished_def bindR_eq_Inr)
  have "positions_le g (?g1\<lparr>g_finished_ids := fin\<rparr>)" by (auto simp: positions_le_def)
  then show ?thesis
    unfolding h by (blast intro: positions_le_set_local positions_le_fold_persisted positions_le_trans)
qed

lemma positions_le_record: "record_ids ids g = Inr h \<Longrightarrow> positions_le g h"
  by (auto simp: record_ids_def Let_def positions_le_def split: if_splits)

lemma positions_le_step: "gen_step s t \<Longrightarrow> positions_le (s_gen s) (s_gen t)"
proof (induction rule: gen_step.induct)
  case (request s m g)
  then show ?case by (auto simp: begin_fetch_def Let_def positions_le_def)
next
  case (leave_fetch s xs m ph ys)
  then show ?case by (auto simp: end_fetch_def positions_le_def)
qed (simp_all add: positions_le_advance positions_le_finish positions_le_record)

lemma positions_le_steps: "gen_step\<^sup>*\<^sup>* s t \<Longrightarrow> positions_le (s_gen s) (s_gen t)"
  by (induction rule: rtranclp_induct) (auto intro: positions_le_step positions_le_trans)

text \<open>However the critical sections interleave, the positions that the process publishes, the one up
  to which everything is persisted and the one of each writer, never go back.\<close>

lemma positions_never_go_back:
  assumes "gen_step\<^sup>*\<^sup>* s t"
  shows "return_factor (s_gen t) = return_factor (s_gen s) \<and>
    return_factor (s_gen s) * get_current_token (s_gen s) \<le>
      return_factor (s_gen s) * get_current_token (s_gen t) \<and>
    return_factor (s_gen s) * get_current_token_for_writer w (s_gen s) \<le>
      return_factor (s_gen s) * get_current_token_for_writer w (s_gen t)"
proof -
  have le: "positions_le (s_gen s) (s_gen t)" using assms by (rule positions_le_steps)
  then have rf: "return_factor (s_gen t) = return_factor (s_gen s)"
    and n: "g_instance_name (s_gen t) = g_instance_name (s_gen s)"
    by (simp_all add: positions_le_def return_factor_def)
  have u: "g_persisted_upto_position (s_gen s) \<le> g_persisted_upto_position (s_gen t)"
    and l: "g_max_position_of_local_instance (s_gen s) \<le> g_max_position_of_local_instance (s_gen t)"
    using le by (simp_all add: positions_le_def)
  have "max (dict_get w (g_persisted_upto_position (s_gen s)) (g_current_positions (s_gen s)))
        (g_persisted_upto_position (s_gen s)) \<le>
      max (dict_get w (g_persisted_upto_position (s_gen t)) (g_current_positions (s_gen t)))
        (g_persisted_upto_position (s_gen t))"
    using le u by (fastforce simp: positions_le_def dict_get_def le_max_iff_disj split: option.splits)
  then show ?thesis
    using rf u l n
    by (simp add: get_current_token_def get_persisted_upto_position_def get_current_token_for_writer_def)
qed


lemma positions_never_go_back_witness:
  "gen_step\<^sup>*\<^sup>* example_writing (example_writing\<lparr>s_seq := 12\<rparr>) \<and>
   get_current_token_for_writer ''worker1'' (s_gen example_writing) \<le>
     get_current_token_for_writer ''worker1'' (s_gen (example_writing\<lparr>s_seq := 12\<rparr>))"
proof -
  have s: "gen_step\<^sup>*\<^sup>* example_writing (example_writing\<lparr>s_seq := 12\<rparr>)"
    by (rule r_into_rtranclp, rule others_allocate)
      (simp add: example_writing_def example_announced_def split: prod.split)
  have "return_factor (s_gen example_writing) = 1"
    by (simp add: example_writing_def example_announced_def example_start_def begin_fetch_def Let_def
        return_factor_def gen_simps)
  then show ?thesis
    using s positions_never_go_back [OF s, of "''worker1''"] by simp
qed


end
