(* ===== verification/Stream_Reading.thy ===== *)
theory Stream_Reading
  imports Id_Gen_Props State_Filter
begin

text \<open>
  Reading a sharded stream in pages: \<^verbatim>\<open>get_linearized_receipts_for_all_rooms\<close> of
  \<^verbatim>\<open>storage/databases/main/receipts.py\<close> and \<^verbatim>\<open>get_sticky_events_in_rooms\<close> of
  \<^verbatim>\<open>storage/databases/main/sticky_events.py\<close>. Both select the rows between two multi-writer tokens in
  the order of the stream, stop at a limit, and answer with the token up to which they have read. A
  table is the list of its rows; the selection is what its SQL says, with the clause of
  \<open>bounds_cond\<close>. The contract the two share is the locale \<open>bounded_reader\<close>.
\<close>

section \<open>Tables and selections\<close>

record 'd stream_row =
  row_stream_id :: int
  row_instance_name :: "string option"
  row_data :: 'd

datatype Direction = FORWARDS | BACKWARDS

definition in_bounds :: "mw_token \<Rightarrow> mw_token \<Rightarrow> 'd stream_row \<Rightarrow> bool" where
  "in_bounds from_token to_token r =
     sql_holds (bounds_cond from_token to_token) (row_instance_name r) (row_stream_id r)"

text \<open>\<^verbatim>\<open>ORDER BY stream_id\<close> and \<^verbatim>\<open>LIMIT\<close>.\<close>

definition order_rows :: "Direction \<Rightarrow> 'd stream_row list \<Rightarrow> 'd stream_row list" where
  "order_rows order rows =
     (case order of
        FORWARDS \<Rightarrow> sort_key row_stream_id rows
      | BACKWARDS \<Rightarrow> sort_key (\<lambda>r. - row_stream_id r) rows)"

definition limit_rows :: "nat option \<Rightarrow> 'd stream_row list \<Rightarrow> 'd stream_row list" where
  "limit_rows limit rows = (case limit of None \<Rightarrow> rows | Some n \<Rightarrow> take n rows)"

section \<open>Receipts\<close>

record receipt =
  rc_room_id :: string
  rc_receipt_type :: string
  rc_user_id :: string
  rc_event_id :: string
  rc_data :: string

text \<open>The receipts of a room: by event, by type, by user.\<close>

type_synonym 'j receipt_content = "(string, (string, (string, 'j) dict) dict) dict"

record 'j receipt_edu =
  edu_type :: string
  edu_room_id :: string
  edu_content :: "'j receipt_content"

definition select_receipts ::
  "receipt stream_row list \<Rightarrow> mw_token \<Rightarrow> mw_token \<Rightarrow> nat \<Rightarrow> Direction \<Rightarrow> receipt stream_row list" where
  "select_receipts rows from_token to_key limit order =
     limit_rows (Some limit) (order_rows order (filter (in_bounds from_token to_key) rows))"

text \<open>One round of the loop that groups the receipts; \<open>db_to_json\<close> decodes the data.\<close>

definition add_receipt ::
  "(string \<Rightarrow> 'j res) \<Rightarrow> receipt \<Rightarrow> (string, 'j receipt_edu) dict \<Rightarrow> (string, 'j receipt_edu) dict res" where
  "add_receipt db_to_json rc results =
     (let room_event = dict_get (rc_room_id rc)
            \<lparr>edu_type = ''m.receipt'', edu_room_id = rc_room_id rc, edu_content = []\<rparr> results;
          event_entry = dict_get (rc_event_id rc) [] (edu_content room_event);
          receipt_type_dict = dict_get (rc_receipt_type rc) [] event_entry
      in bindR (db_to_json (rc_data rc)) (\<lambda>data.
         Inr (dict_set (rc_room_id rc)
           (room_event\<lparr>edu_content := dict_set (rc_event_id rc)
              (dict_set (rc_receipt_type rc) (dict_set (rc_user_id rc) data receipt_type_dict) event_entry)
              (edu_content room_event)\<rparr>)
           results)))"

fun group_receipts ::
  "(string \<Rightarrow> 'j res) \<Rightarrow> receipt list \<Rightarrow> (string, 'j receipt_edu) dict \<Rightarrow> (string, 'j receipt_edu) dict res" where
  "group_receipts db_to_json [] results = Inr results"
| "group_receipts db_to_json (rc # rcs) results =
     bindR (add_receipt db_to_json rc results) (group_receipts db_to_json rcs)"

definition get_linearized_receipts_for_all_rooms ::
  "(string \<Rightarrow> 'j res) \<Rightarrow> receipt stream_row list \<Rightarrow> mw_token \<Rightarrow> mw_token option \<Rightarrow> nat \<Rightarrow> Direction \<Rightarrow>
   ((string, 'j receipt_edu) dict \<times> mw_token) res" where
  "get_linearized_receipts_for_all_rooms db_to_json rows to_key from_key limit order =
     (let from_token = (case from_key of Some t \<Rightarrow> t | None \<Rightarrow> \<lparr>mt_stream = 0, mt_map = []\<rparr>);
          txn_results = select_receipts rows from_token to_key limit order
      in bindR (if order = FORWARDS \<and> length txn_results = limit
                then if txn_results = [] then Inl IndexError
                     else advance_multiwriter_sharded_token_after_partial_read from_token to_key
                            (row_stream_id (last txn_results))
                else Inr to_key) (\<lambda>reached_token.
         bindR (group_receipts db_to_json (map row_data txn_results) []) (\<lambda>results.
         Inr (results, reached_token))))"

section \<open>Sticky events\<close>

text \<open>A row joined with the metadata of its event in the database.\<close>

record sticky_event =
  se_room_id :: string
  se_event_id :: string
  se_expires_at :: int
  se_soft_failed :: bool

text \<open>The event metadata in the embedded store, where that is enabled: what \<^verbatim>\<open>get_event_json_batch\<close> finds
  for an event, read as its \<^verbatim>\<open>soft_failed\<close> flag.\<close>

type_synonym embedded_meta = "string \<Rightarrow> bool option"

definition sticky_relevant :: "string list \<Rightarrow> int \<Rightarrow> sticky_event \<Rightarrow> bool" where
  "sticky_relevant room_ids now se \<longleftrightarrow>
     \<not> se_soft_failed se \<and> now < se_expires_at se \<and> se_room_id se \<in> set room_ids"

definition select_sticky ::
  "sticky_event stream_row list \<Rightarrow> string list \<Rightarrow> mw_token \<Rightarrow> mw_token \<Rightarrow> int \<Rightarrow> nat option \<Rightarrow>
   sticky_event stream_row list" where
  "select_sticky rows room_ids from_token to_token now limit =
     (if room_ids = [] \<or> mw_is_before_or_eq to_token from_token then []
      else limit_rows limit (order_rows FORWARDS
             (filter (\<lambda>r. sticky_relevant room_ids now (row_data r) \<and> in_bounds from_token to_token r) rows)))"

definition get_sticky_events_in_rooms_txn ::
  "embedded_meta option \<Rightarrow> sticky_event stream_row list \<Rightarrow> string list \<Rightarrow> mw_token \<Rightarrow> mw_token \<Rightarrow> int \<Rightarrow>
   nat option \<Rightarrow> sticky_event stream_row list" where
  "get_sticky_events_in_rooms_txn embedded rows room_ids from_token to_token now limit =
     filter (\<lambda>r. \<not> (case embedded of
                      None \<Rightarrow> se_soft_failed (row_data r)
                    | Some meta \<Rightarrow>
                        (case meta (se_event_id (row_data r)) of
                           None \<Rightarrow> se_soft_failed (row_data r)
                         | Some soft_failed \<Rightarrow> soft_failed)))
       (select_sticky rows room_ids from_token to_token now limit)"

definition group_sticky :: "sticky_event stream_row list \<Rightarrow> (string, string list) dict" where
  "group_sticky sticky_rows =
     fold (\<lambda>r d. dict_set (se_room_id (row_data r))
            (dict_get (se_room_id (row_data r)) [] d @ [se_event_id (row_data r)]) d) sticky_rows []"

definition get_sticky_events_in_rooms ::
  "embedded_meta option \<Rightarrow> sticky_event stream_row list \<Rightarrow> string list \<Rightarrow> mw_token \<Rightarrow> mw_token \<Rightarrow> int \<Rightarrow>
   nat option \<Rightarrow> (mw_token \<times> (string, string list) dict) res" where
  "get_sticky_events_in_rooms embedded rows room_ids from_token to_token now limit =
     (if limit = Some 0 then Inr (from_token, [])
      else
        (let sticky_rows = get_sticky_events_in_rooms_txn embedded rows room_ids from_token to_token now limit
         in bindR (if limit = Some (length sticky_rows)
                   then advance_multiwriter_sharded_token_after_partial_read from_token to_token
                          (row_stream_id (last sticky_rows))
                   else mw_copy_and_advance mw_post_init from_token to_token) (\<lambda>new_to_token.
            Inr (new_to_token, group_sticky sticky_rows))))"

section \<open>The clause is exact\<close>

text \<open>The position of a token for a row without a writer, and with one.\<close>

definition token_at :: "'a mw_token_scheme \<Rightarrow> string option \<Rightarrow> int" where
  "token_at t w = (case w of None \<Rightarrow> mt_stream t | Some i \<Rightarrow> pos_of t i)"

definition between :: "mw_token \<Rightarrow> mw_token \<Rightarrow> 'd stream_row \<Rightarrow> bool" where
  "between a b r \<longleftrightarrow>
     token_at a (row_instance_name r) < row_stream_id r \<and> row_stream_id r \<le> token_at b (row_instance_name r)"

lemma token_at_ge: "mw_wf t \<Longrightarrow> mt_stream t \<le> token_at t w"
  by (simp add: token_at_def pos_of_ge split: option.split)

lemma token_at_le_max: "mw_wf t \<Longrightarrow> token_at t w \<le> get_max_stream_pos t"
  using get_max_stream_pos_le [of t "get_max_stream_pos t"] pos_of_ge [of t] order_trans
  by (fastforce simp: token_at_def split: option.split)

lemma upper_clause:
  assumes "mw_wf t"
  shows "(p \<le> mt_stream t \<or> (\<exists>(i, q) \<in> set (mt_map t). w = Some i \<and> p \<le> q)) \<longleftrightarrow> p \<le> token_at t w"
proof -
  have d: "distinct (map fst (mt_map t))" using assms by (simp add: mw_wf_def dict_wf_def)
  have e: "(\<exists>(i, q) \<in> set (mt_map t). w = Some i \<and> p \<le> q) \<longleftrightarrow>
      (\<exists>i q. w = Some i \<and> map_of (mt_map t) i = Some q \<and> p \<le> q)"
    by (auto simp: map_of_eq_Some_iff [OF d])
  show ?thesis
    using token_at_ge [OF assms, of w] unfolding e
    by (cases w) (auto simp: token_at_def get_stream_pos_for_instance_def split: option.splits)
qed

lemma bounds_cond_token_at:
  assumes "mw_wf a" "mw_wf b"
  shows "sql_holds (bounds_cond a b) w p \<longleftrightarrow> token_at a w < p \<and> p \<le> token_at b w"
proof -
  have "sql_holds (bounds_cond a b) w p \<longleftrightarrow>
      p \<le> get_max_stream_pos b \<and>
      \<not> (p \<le> mt_stream a \<or> (\<exists>(i, q) \<in> set (mt_map a). w = Some i \<and> p \<le> q)) \<and>
      (p \<le> mt_stream b \<or> (\<exists>(i, q) \<in> set (mt_map b). w = Some i \<and> p \<le> q))"
    by (auto simp: bounds_cond_def list_all_iff list_ex_iff split: prod.splits)
  then show ?thesis
    using upper_clause [OF assms(1)] upper_clause [OF assms(2)] token_at_le_max [OF assms(2), of w] by force
qed

lemma in_bounds_between: "mw_wf a \<Longrightarrow> mw_wf b \<Longrightarrow> in_bounds a b = between a b"
  by (simp add: fun_eq_iff in_bounds_def between_def bounds_cond_token_at)

lemma in_range_token_at:
  "w \<noteq> Some '''' \<Longrightarrow>
   is_stream_position_in_range (Some a) (Some b) w p \<longleftrightarrow> token_at a w < p \<and> p \<le> token_at b w"
  by (cases w) (auto simp: is_stream_position_in_range_def token_at_def Let_def)

lemma placeholders_simps:
  "placeholders [] = 0" "placeholders (c # s) = (if c = CHR ''?'' then 1 else 0) + placeholders s"
  "placeholders (s @ s') = placeholders s + placeholders s'"
  by (simp_all add: placeholders_def)

lemma placeholders_render:
  assumes "placeholders op = 0" "placeholders idc = 0" "placeholders inc = 0"
  shows "placeholders (fst (render op idc inc c)) = length (snd (render op idc inc c))"
proof (induction c)
  case (AllOf cs)
  then show ?case
    by (simp add: placeholders_simps placeholders_join_with length_concat) (induction cs; simp)
next
  case (AnyOf cs)
  then show ?case
    by (simp add: placeholders_simps placeholders_join_with length_concat) (induction cs; simp)
qed (use assms in \<open>auto simp: placeholders_simps split: prod.splits\<close>)

text \<open>C25: \<^verbatim>\<open>make_multiwriter_sharded_token_bounds_sql\<close>. For two valid tokens its clause selects a row, with
  a writer or with none, exactly when the row's position is past the first token and within the second
  for that writer, which is the range that \<^verbatim>\<open>is_stream_position_in_range\<close> checks in memory. The text
  has one placeholder for each value, on either database engine.\<close>

theorem bounds_sql_exact:
  assumes "mw_wf a" "mw_wf b" "w \<noteq> Some ''''"
    and "placeholders idc = 0" "placeholders inc = 0"
  shows "(sql_holds (bounds_cond a b) w p \<longleftrightarrow> is_stream_position_in_range (Some a) (Some b) w p) \<and>
    placeholders (fst (make_multiwriter_sharded_token_bounds_sql sqlite idc inc a b)) =
      length (snd (make_multiwriter_sharded_token_bounds_sql sqlite idc inc a b))"
  by (simp add: make_multiwriter_sharded_token_bounds_sql_def placeholders_simps
      bounds_cond_token_at [OF assms(1,2)] in_range_token_at [OF assms(3)]
      placeholders_render [OF _ assms(4,5)])

definition m5 :: mw_token where
  "m5 = \<lparr>mt_stream = 5, mt_map = [(''worker1'', 8)]\<rparr>"

definition m10 :: mw_token where
  "m10 = \<lparr>mt_stream = 10, mt_map = [(''worker2'', 14)]\<rparr>"

lemma m5_m10_wf: "mw_wf m5" "mw_wf m10"
  by (simp_all add: mw_wf_def dict_wf_def m5_def m10_def)

lemma bounds_sql_exact_witness:
  "sql_holds (bounds_cond m5 m10) (Some ''worker2'') 12 \<and>
   is_stream_position_in_range (Some m5) (Some m10) (Some ''worker2'') 12 \<and>
   \<not> is_stream_position_in_range (Some m5) (Some m10) (Some ''worker3'') 12"
proof -
  have c: "placeholders ''stream_id'' = 0" "placeholders ''instance_name'' = 0"
    by (simp_all add: placeholders_simps)
  note ex = bounds_sql_exact [OF m5_m10_wf _ c, of _ 12 True, THEN conjunct1]
  have "sql_holds (bounds_cond m5 m10) (Some ''worker2'') 12"
    "\<not> sql_holds (bounds_cond m5 m10) (Some ''worker3'') 12"
    by (simp_all add: bounds_cond_def m5_def m10_def get_max_stream_pos_def)
  then show ?thesis using ex [of "Some ''worker2''"] ex [of "Some ''worker3''"] by simp
qed

section \<open>The token after a partial read\<close>

text \<open>Every writer has been read up to the last row, or up to its end of the range when that comes first.\<close>

lemma partial_read_token:
  assumes wf: "mw_wf a" "mw_wf b" and l: "mt_stream a < l"
  shows "\<exists>t. advance_multiwriter_sharded_token_after_partial_read a b l = Inr t \<and> mw_wf t \<and>
    (\<forall>w. token_at t w = max (token_at a w) (min l (token_at b w)))"
proof -
  define base where "base = max (mt_stream a) (min l (mt_stream b))"
  define wp where "wp = (\<lambda>i. max (pos_of a i) (min l (pos_of b i)))"
  define insts where "insts = remdups (map fst (mt_map a) @ map fst (mt_map b))"
  let ?t = "\<lparr>mt_stream = base, mt_map = map (\<lambda>i. (i, wp i)) (filter (\<lambda>i. wp i > base) insts)\<rparr>"
  have r: "advance_multiwriter_sharded_token_after_partial_read a b l = Inr ?t"
    using l by (auto simp: advance_multiwriter_sharded_token_after_partial_read_def Let_def make_token_ok
        mw_post_init_ok raise_if_def base_def wp_def insts_def)
  have "mw_wf ?t" by (auto simp: mw_wf_def insts_def intro!: dict_wf_keyed)
  moreover have "token_at ?t w = max (token_at a w) (min l (token_at b w))" for w
  proof (cases w)
    case (Some i)
    have "base \<le> wp i"
      using pos_of_ge [OF wf(1), of i] pos_of_ge [OF wf(2), of i] by (auto simp: base_def wp_def)
    moreover have "wp i = base" if "i \<notin> set insts"
      using that pos_of_absent [of i a] pos_of_absent [of i b] by (simp add: base_def wp_def insts_def)
    ultimately have "pos_of ?t i = wp i"
      by (force simp: get_stream_pos_for_instance_def map_of_keyed)
    then show ?thesis by (simp add: Some token_at_def wp_def)
  qed (simp add: token_at_def base_def)
  ultimately show ?thesis using r by blast
qed


section \<open>The contract of a bounded reader\<close>

definition rows_between ::
  "('d \<Rightarrow> bool) \<Rightarrow> mw_token \<Rightarrow> mw_token \<Rightarrow> 'd stream_row list \<Rightarrow> 'd stream_row list" where
  "rows_between relevant a b rows =
     sort_key row_stream_id (filter (\<lambda>r. relevant (row_data r) \<and> between a b r) rows)"

lemma sort_key_wf:
  assumes "distinct (map f xs)"
  shows "distinct (map f (sort_key f (filter P xs)))" "sorted (map f (sort_key f (filter P xs)))"
proof -
  have "inj_on f (set xs)" "distinct xs" using assms by (simp_all add: distinct_map)
  then show "distinct (map f (sort_key f (filter P xs)))"
    by (auto simp: distinct_map intro: inj_on_subset)
qed simp

lemma filter_le_take:
  fixes f :: "'a \<Rightarrow> int"
  assumes "sorted (map f xs)" "distinct (map f xs)" "0 < n" "n \<le> length xs"
  shows "filter (\<lambda>x. f x \<le> f (last (take n xs))) xs = take n xs"
proof -
  have "last (take n xs) = xs ! (n - 1)" using assms(3,4) by (subst last_conv_nth) (auto simp: min_absorb2)
  moreover have "f (xs ! i) \<le> f (xs ! (n - 1)) \<longleftrightarrow> i < n" if "i < length xs" for i
  proof
    assume "i < n"
    then show "f (xs ! i) \<le> f (xs ! (n - 1))" using sorted_nth_mono [OF assms(1), of i "n - 1"] assms(3,4) by simp
  next
    assume le: "f (xs ! i) \<le> f (xs ! (n - 1))"
    show "i < n"
    proof (rule ccontr)
      assume "\<not> i < n"
      then have "f (xs ! (n - 1)) \<le> f (xs ! i)" "n - 1 \<noteq> i"
        using sorted_nth_mono [OF assms(1), of "n - 1" i] that assms(3) by simp_all
      moreover have "n - 1 < length xs" using assms(3,4) by linarith
      ultimately show False using le nth_eq_iff_index_eq [OF assms(2), of "n - 1" i] that by simp
    qed
  qed
  ultimately have "\<forall>x \<in> set (take n xs). f x \<le> f (last (take n xs))"
    "\<forall>x \<in> set (drop n xs). \<not> f x \<le> f (last (take n xs))"
    by (auto simp: set_conv_nth)
  then have "filter (\<lambda>x. f x \<le> f (last (take n xs))) (take n xs @ drop n xs) = take n xs"
    by (simp only: filter_append filter_True filter_False append_Nil2)
  then show ?thesis by simp
qed

locale bounded_reader =
  fixes relevant :: "'d \<Rightarrow> bool"
    and read :: "'d stream_row list \<Rightarrow> mw_token \<Rightarrow> mw_token \<Rightarrow> nat option \<Rightarrow> 'd stream_row list"
  assumes read_rows: "mw_wf a \<Longrightarrow> mw_wf b \<Longrightarrow>
    read rows a b limit = limit_rows limit (rows_between relevant a b rows)"
begin

lemma read_all:
  "mw_wf a \<Longrightarrow> mw_wf b \<Longrightarrow> limit \<noteq> Some (length (read rows a b limit)) \<Longrightarrow>
   read rows a b limit = rows_between relevant a b rows"
  by (auto simp: read_rows limit_rows_def split: option.splits)

lemma read_partial:
  assumes wf: "mw_wf a" "mw_wf b" and d: "distinct (map row_stream_id rows)"
    and n: "0 < n" "length (read rows a b (Some n)) = n"
  shows "\<exists>t. advance_multiwriter_sharded_token_after_partial_read a b
      (row_stream_id (last (read rows a b (Some n)))) = Inr t \<and> mw_wf t \<and>
    (\<forall>w. token_at a w \<le> token_at t w \<and> (token_at t w \<le> max (token_at a w) (token_at b w))) \<and>
    read rows a b (Some n) = rows_between relevant a t rows"
proof -
  let ?ws = "rows_between relevant a b rows"
  define l where "l = row_stream_id (last (take n ?ws))"
  have page: "read rows a b (Some n) = take n ?ws" using wf by (simp add: read_rows limit_rows_def)
  then have len: "n \<le> length ?ws" using n(2) by simp
  note srt = sort_key_wf [OF d, of "\<lambda>r. relevant (row_data r) \<and> between a b r", folded rows_between_def]
  have "take n ?ws \<noteq> []" using n(1) len by auto
  then have "last (take n ?ws) \<in> set ?ws" using in_set_takeD last_in_set by fast
  then have "between a b (last (take n ?ws))" by (simp add: rows_between_def)
  then have "mt_stream a < l"
    using token_at_ge [OF wf(1)] by (fastforce simp: between_def l_def intro: le_less_trans)
  then obtain t where t: "advance_multiwriter_sharded_token_after_partial_read a b l = Inr t" "mw_wf t"
    and at: "\<And>w. token_at t w = max (token_at a w) (min l (token_at b w))"
    using partial_read_token [OF wf] by blast
  have "between a t r \<longleftrightarrow> between a b r \<and> row_stream_id r \<le> l" for r :: "'d stream_row"
    by (auto simp: between_def at)
  then have "rows_between relevant a t rows = filter (\<lambda>r. row_stream_id r \<le> l) ?ws"
    by (simp add: rows_between_def filter_sort conj_commute conj_left_commute)
  also have "\<dots> = take n ?ws" unfolding l_def by (rule filter_le_take [OF srt(2,1) n(1) len])
  finally show ?thesis using t at page by (auto simp: l_def)
qed

end

interpretation receipts: bounded_reader "\<lambda>_. True"
  "\<lambda>rows a b limit. (case limit of None \<Rightarrow> rows_between (\<lambda>_. True) a b rows
     | Some n \<Rightarrow> select_receipts rows a b n FORWARDS)"
  by unfold_locales
    (auto simp: select_receipts_def order_rows_def rows_between_def in_bounds_between limit_rows_def
      split: option.split)

lemma empty_range:
  assumes "mw_wf a" "mw_wf b" "mw_is_before_or_eq b a"
  shows "\<not> between a b r"
proof -
  have le: "pos_of b i \<le> pos_of a i" for i using assms(3) mw_is_before_or_eq_iff by blast
  obtain i where "i \<notin> fst ` set (mt_map a)" "i \<notin> fst ` set (mt_map b)" using fresh_instance by blast
  then have "mt_stream b \<le> mt_stream a" using le [of i] by (simp add: pos_of_absent)
  then have "token_at b w \<le> token_at a w" for w using le by (simp add: token_at_def split: option.split)
  then show ?thesis by (meson between_def leD le_less_trans less_le_trans)
qed

interpretation sticky: bounded_reader "sticky_relevant room_ids now"
  "\<lambda>rows a b limit. select_sticky rows room_ids a b now limit" for room_ids now
proof
  fix a b :: mw_token and rows :: "sticky_event stream_row list" and limit
  assume wf: "mw_wf a" "mw_wf b"
  have "rows_between (sticky_relevant room_ids now) a b rows = []"
    if "room_ids = [] \<or> mw_is_before_or_eq b a"
  proof -
    have "filter (\<lambda>r. sticky_relevant room_ids now (row_data r) \<and> between a b r) rows = []"
      using that by (auto simp: sticky_relevant_def filter_empty_conv empty_range [OF wf])
    then show ?thesis by (simp only: rows_between_def sort_key_simps)
  qed
  then show "select_sticky rows room_ids a b now limit =
      limit_rows limit (rows_between (sticky_relevant room_ids now) a b rows)"
    by (auto simp: select_sticky_def order_rows_def in_bounds_between [OF wf] rows_between_def
        limit_rows_def split: option.split)
qed


section \<open>Reading receipts in pages\<close>

text \<open>Where the grouped receipts keep a receipt.\<close>

type_synonym receipt_key = "string \<times> string \<times> string \<times> string"

definition receipt_key :: "receipt \<Rightarrow> receipt_key" where
  "receipt_key rc = (rc_room_id rc, rc_event_id rc, rc_receipt_type rc, rc_user_id rc)"

fun receipt_lookup :: "(string, 'j receipt_edu) dict \<Rightarrow> receipt_key \<Rightarrow> 'j option" where
  "receipt_lookup results (room, event, ty, user) =
     map_of (dict_get ty [] (dict_get event []
       (case map_of results room of None \<Rightarrow> [] | Some edu \<Rightarrow> edu_content edu))) user"


lemma receipt_lookup_Nil: "receipt_lookup [] k = None"
  by (cases k) (simp add: dict_get_Cons)

lemma receipt_lookup_add:
  assumes "add_receipt db_to_json rc results = Inr results'"
  shows "\<exists>j. db_to_json (rc_data rc) = Inr j \<and>
    (\<forall>k. receipt_lookup results' k = (if k = receipt_key rc then Some j else receipt_lookup results k))"
proof -
  obtain j where "db_to_json (rc_data rc) = Inr j"
    using assms by (auto simp: add_receipt_def Let_def bindR_eq_Inr)
  moreover have "receipt_lookup results' k = (if k = receipt_key rc then Some j else receipt_lookup results k)" for k
    using assms calculation
    by (cases k; cases "map_of results (rc_room_id rc)")
      (auto simp: add_receipt_def Let_def receipt_key_def dict_get_set dict_get_Cons
        dict_get_def [where m = results])
  ultimately show ?thesis by blast
qed

text \<open>A later receipt for the same key replaces the earlier one.\<close>

lemma group_receipts_lookup:
  assumes "\<forall>rc \<in> set rcs. db_to_json (rc_data rc) = Inr (decode (rc_data rc))"
  shows "\<exists>results'. group_receipts db_to_json rcs results = Inr results' \<and>
    (\<forall>k. receipt_lookup results' k =
      (case map_of (rev (map (\<lambda>rc. (receipt_key rc, decode (rc_data rc))) rcs)) k of
         None \<Rightarrow> receipt_lookup results k | Some j \<Rightarrow> Some j))"
  using assms
proof (induction rcs arbitrary: results)
  case (Cons rc rcs)
  have "db_to_json (rc_data rc) = Inr (decode (rc_data rc))" using Cons.prems by simp
  then obtain r1 where r1: "add_receipt db_to_json rc results = Inr r1"
    and l: "\<And>k. receipt_lookup r1 k = (if k = receipt_key rc then Some (decode (rc_data rc)) else receipt_lookup results k)"
    using receipt_lookup_add [of db_to_json rc results] by (fastforce simp: add_receipt_def Let_def)
  have "\<forall>rc \<in> set rcs. db_to_json (rc_data rc) = Inr (decode (rc_data rc))" using Cons.prems by simp
  from Cons.IH [OF this, of r1] obtain r2 where "group_receipts db_to_json rcs r1 = Inr r2"
    "\<And>k. receipt_lookup r2 k = (case map_of (rev (map (\<lambda>rc. (receipt_key rc, decode (rc_data rc))) rcs)) k of
       None \<Rightarrow> receipt_lookup r1 k | Some j \<Rightarrow> Some j)"
    by blast
  then show ?case
    by (auto simp: r1 l map_add_def simp del: receipt_lookup.simps split_paired_All split: option.splits)
qed simp


lemma before_or_eq_token_at: "mw_is_before_or_eq a b \<longleftrightarrow> (\<forall>w. token_at a w \<le> token_at b w)"
proof
  assume l: "mw_is_before_or_eq a b"
  then have "mt_stream a \<le> mt_stream b" by (auto simp: mw_is_before_or_eq_def split: if_splits)
  then show "\<forall>w. token_at a w \<le> token_at b w"
    using l mw_is_before_or_eq_iff [of a b] by (simp add: token_at_def split: option.split)
next
  assume r: "\<forall>w. token_at a w \<le> token_at b w"
  have "pos_of a i \<le> pos_of b i" for i using r [rule_format, of "Some i"] by (simp add: token_at_def)
  then show "mw_is_before_or_eq a b" by (simp add: mw_is_before_or_eq_iff)
qed

lemma between_split:
  "mw_is_before_or_eq a t \<Longrightarrow> mw_is_before_or_eq t b \<Longrightarrow> between a b r \<longleftrightarrow> between a t r \<noteq> between t b r"
  unfolding between_def before_or_eq_token_at by (meson leD le_less_trans less_le_trans not_less order_trans)

text \<open>C26: \<^verbatim>\<open>get_linearized_receipts_for_all_rooms\<close>, reading forwards between two ordered valid tokens a
  table whose rows have different stream ids and decodable data, with a positive limit. It returns the
  token up to which it has read, between the two. The receipts it returns are those of the rows up to
  that token, the latest where several have the same room, event, type and user; every other row in
  the range lies past the token, so that the next call finds it. The token is the end of the range
  unless the page is full.\<close>

theorem receipts_page_exact:
  assumes wf: "mw_wf a" "mw_wf b" and le: "mw_is_before_or_eq a b"
    and from_key: "from_key = Some a \<or> from_key = None \<and> a = \<lparr>mt_stream = 0, mt_map = []\<rparr>"
    and rows: "distinct (map row_stream_id rows)"
      "\<forall>r \<in> set rows. db_to_json (rc_data (row_data r)) = Inr (decode (rc_data (row_data r)))"
    and limit: "0 < limit"
  shows "\<exists>results t. get_linearized_receipts_for_all_rooms db_to_json rows b from_key limit FORWARDS =
      Inr (results, t) \<and> mw_wf t \<and> mw_is_before_or_eq a t \<and> mw_is_before_or_eq t b \<and>
    (\<forall>r \<in> set rows. between a b r \<longleftrightarrow> between a t r \<noteq> between t b r) \<and>
    (t = b \<or> length (rows_between (\<lambda>_. True) a t rows) = limit) \<and>
    (\<forall>k. receipt_lookup results k =
       map_of (rev (map (\<lambda>r. (receipt_key (row_data r), decode (rc_data (row_data r))))
         (rows_between (\<lambda>_. True) a t rows))) k)"
proof -
  let ?page = "select_receipts rows a b limit FORWARDS"
  have "\<exists>t. (if length ?page = limit then if ?page = [] then Inl IndexError
        else advance_multiwriter_sharded_token_after_partial_read a b (row_stream_id (last ?page))
      else Inr b) = Inr t \<and> mw_wf t \<and> mw_is_before_or_eq a t \<and> mw_is_before_or_eq t b \<and>
      ?page = rows_between (\<lambda>_. True) a t rows \<and> (t = b \<or> length ?page = limit)"
  proof (cases "length ?page = limit")
    case True
    then show ?thesis
      using receipts.read_partial [OF wf rows(1) limit] limit le
      by (fastforce simp: before_or_eq_token_at max_absorb2)
  next
    case False
    then show ?thesis using receipts.read_all [OF wf, of "Some limit" rows] wf le mw.le_refl by simp
  qed
  then obtain t where t: "(if length ?page = limit then if ?page = [] then Inl IndexError
        else advance_multiwriter_sharded_token_after_partial_read a b (row_stream_id (last ?page))
      else Inr b) = Inr t" "mw_wf t" "mw_is_before_or_eq a t" "mw_is_before_or_eq t b"
    and page: "?page = rows_between (\<lambda>_. True) a t rows" "t = b \<or> length ?page = limit" by blast
  have "\<forall>rc \<in> set (map row_data ?page). db_to_json (rc_data rc) = Inr (decode (rc_data rc))"
    using rows(2) by (auto simp: page(1) rows_between_def)
  from group_receipts_lookup [OF this, of "[]"]
  obtain results where g: "group_receipts db_to_json (map row_data ?page) [] = Inr results"
    and "\<And>k. receipt_lookup results k =
      (case map_of (rev (map (\<lambda>rc. (receipt_key rc, decode (rc_data rc))) (map row_data ?page))) k of
         None \<Rightarrow> receipt_lookup [] k | Some j \<Rightarrow> Some j)"
    by blast
  then have l: "receipt_lookup results k =
      map_of (rev (map (\<lambda>r. (receipt_key (row_data r), decode (rc_data (row_data r)))) ?page)) k" for k
    by (simp add: receipt_lookup_Nil comp_def split: option.split)
  have "(case from_key of Some t \<Rightarrow> t | None \<Rightarrow> \<lparr>mt_stream = 0, mt_map = []\<rparr>) = a" using from_key by auto
  then have "get_linearized_receipts_for_all_rooms db_to_json rows b from_key limit FORWARDS = Inr (results, t)"
    using t(1) g by (simp add: get_linearized_receipts_for_all_rooms_def Let_def)
  moreover have "\<forall>r \<in> set rows. between a b r \<longleftrightarrow> between a t r \<noteq> between t b r"
    using between_split [OF t(3,4)] by blast
  ultimately show ?thesis using t(2-4) page l by (intro exI [of _ results] exI [of _ t]) simp
qed


definition example_receipts :: "receipt stream_row list" where
  "example_receipts =
     map (\<lambda>(s, w, u, d). \<lparr>row_stream_id = s, row_instance_name = Some w,
            row_data = \<lparr>rc_room_id = ''!r'', rc_receipt_type = ''m.read'', rc_user_id = u, rc_event_id = ''$e'',
                        rc_data = d\<rparr>\<rparr>)
       [(12, ''worker2'', ''@a'', ''{3}''), (6, ''worker2'', ''@a'', ''{1}''), (9, ''worker1'', ''@b'', ''{2}'')]"

lemma receipts_page_exact_witness:
  "mw_is_before_or_eq m5 m10 \<and>
   (\<exists>results t. get_linearized_receipts_for_all_rooms Inr example_receipts m10 (Some m5) 2 FORWARDS =
      Inr (results, t) \<and> mw_is_before_or_eq t m10)"
proof -
  have le: "mw_is_before_or_eq m5 m10"
    by (simp add: mw_is_before_or_eq_def m5_def m10_def get_stream_pos_for_instance_def)
  have "distinct (map row_stream_id example_receipts)" by (simp add: example_receipts_def)
  then show ?thesis
    using le receipts_page_exact [OF m5_m10_wf le, of "Some m5" example_receipts Inr id 2] by auto
qed

section \<open>Reading sticky events in pages\<close>

lemma between_split_max:
  assumes "\<forall>w. token_at a w \<le> token_at t w \<and> token_at t w \<le> max (token_at a w) (token_at b w)"
  shows "between a b r \<longleftrightarrow> between a t r \<noteq> between t b r"
  using assms [rule_format, of "row_instance_name r"] unfolding between_def by linarith

lemma group_sticky_lookup:
  "dict_get room [] (group_sticky rs) =
   map (se_event_id \<circ> row_data) (filter (\<lambda>r. se_room_id (row_data r) = room) rs)"
proof -
  have "dict_get room [] (fold (\<lambda>r d. dict_set (se_room_id (row_data r))
      (dict_get (se_room_id (row_data r)) [] d @ [se_event_id (row_data r)]) d) rs d) =
    dict_get room [] d @ map (se_event_id \<circ> row_data) (filter (\<lambda>r. se_room_id (row_data r) = room) rs)" for d
    by (induction rs arbitrary: d) (auto simp: dict_get_set)
  then show ?thesis by (simp add: group_sticky_def dict_get_Cons)
qed

lemma lub_token_at:
  assumes "mw_wf a" "mw_wf b"
  shows "\<exists>t. mw_copy_and_advance mw_post_init a b = Inr t \<and> mw_wf t \<and>
    (\<forall>w. token_at t w = max (token_at a w) (token_at b w))"
proof -
  let ?t = "a\<lparr>mt_stream := max (mt_stream a) (mt_stream b), mt_map := advance_map a b\<rparr>"
  have "mw_copy_and_advance mw_post_init a b = Inr ?t"
    using advance_map_wf(2) [of a b] by (simp add: mw_copy_and_advance_def make_token_ok mw_post_init_ok)
  moreover have "token_at ?t w = max (token_at a w) (token_at b w)" for w
    using advanced_token(2) [OF assms] by (cases w) (simp_all add: token_at_def)
  ultimately show ?thesis using advanced_token(1) [OF assms] by blast
qed

lemma txn_select:
  assumes "embedded = None \<or> (\<exists>meta. embedded = Some meta \<and> (\<forall>r \<in> set rows. meta (se_event_id (row_data r)) \<noteq> Some True))"
    and wf: "mw_wf a" "mw_wf b"
  shows "get_sticky_events_in_rooms_txn embedded rows room_ids a b now limit = select_sticky rows room_ids a b now limit"
proof -
  have "r \<in> set rows \<and> \<not> se_soft_failed (row_data r)" if "r \<in> set (select_sticky rows room_ids a b now limit)" for r
    using that unfolding sticky.read_rows [OF wf]
    by (auto simp: limit_rows_def rows_between_def sticky_relevant_def split: option.splits dest: in_set_takeD)
  then show ?thesis
    using assms(1) unfolding get_sticky_events_in_rooms_txn_def
    by (intro filter_True ballI) (auto split: option.splits)
qed

text \<open>\<^verbatim>\<open>get_sticky_events_in_rooms\<close> between two valid tokens, on a table whose rows have different
  stream ids, when the embedded store marks none of its events as soft-failed. It returns a token from
  the first one on, and for each room the events of its relevant rows up to that token, in the order of
  the stream; every other row of the range lies past the token. The token covers the whole range unless
  the limit was reached.\<close>

lemma sticky_page_exact:
  assumes wf: "mw_wf a" "mw_wf b" and rows: "distinct (map row_stream_id rows)" and limit: "limit \<noteq> Some 0"
    and embedded: "embedded = None \<or>
      (\<exists>meta. embedded = Some meta \<and> (\<forall>r \<in> set rows. meta (se_event_id (row_data r)) \<noteq> Some True))"
  shows "\<exists>t events. get_sticky_events_in_rooms embedded rows room_ids a b now limit = Inr (t, events) \<and>
    mw_wf t \<and> mw_is_before_or_eq a t \<and>
    (\<forall>r \<in> set rows. between a b r \<longleftrightarrow> between a t r \<noteq> between t b r) \<and>
    (mw_is_before_or_eq b t \<or> limit = Some (length (rows_between (sticky_relevant room_ids now) a t rows))) \<and>
    (\<forall>room. dict_get room [] events = map (se_event_id \<circ> row_data)
       (filter (\<lambda>r. se_room_id (row_data r) = room) (rows_between (sticky_relevant room_ids now) a t rows)))"
proof -
  let ?page = "select_sticky rows room_ids a b now limit"
  have "\<exists>t. (if limit = Some (length ?page)
        then advance_multiwriter_sharded_token_after_partial_read a b (row_stream_id (last ?page))
        else mw_copy_and_advance mw_post_init a b) = Inr t \<and> mw_wf t \<and>
      (\<forall>w. token_at a w \<le> token_at t w \<and> token_at t w \<le> max (token_at a w) (token_at b w)) \<and>
      ?page = rows_between (sticky_relevant room_ids now) a t rows \<and>
      (mw_is_before_or_eq b t \<or> limit = Some (length ?page))"
  proof (cases "limit = Some (length ?page)")
    case True
    then obtain n where n: "limit = Some n" "0 < n" using limit by (cases limit) auto
    then show ?thesis using sticky.read_partial [OF wf rows n(2)] True by fastforce
  next
    case False
    obtain t where t: "mw_copy_and_advance mw_post_init a b = Inr t" "mw_wf t"
      and at: "\<And>w. token_at t w = max (token_at a w) (token_at b w)" using lub_token_at [OF wf] by blast
    have "between a t r = between a b r" for r :: "sticky_event stream_row" by (auto simp: between_def at)
    then have "?page = rows_between (sticky_relevant room_ids now) a t rows"
      using sticky.read_all [OF wf False] by (simp add: rows_between_def)
    then show ?thesis using t at False by (auto simp: before_or_eq_token_at)
  qed
  then obtain t where t: "(if limit = Some (length ?page)
        then advance_multiwriter_sharded_token_after_partial_read a b (row_stream_id (last ?page))
        else mw_copy_and_advance mw_post_init a b) = Inr t" "mw_wf t"
    and at: "\<forall>w. token_at a w \<le> token_at t w \<and> token_at t w \<le> max (token_at a w) (token_at b w)"
    and page: "?page = rows_between (sticky_relevant room_ids now) a t rows"
      "mw_is_before_or_eq b t \<or> limit = Some (length ?page)" by blast
  have "get_sticky_events_in_rooms embedded rows room_ids a b now limit = Inr (t, group_sticky ?page)"
    using limit t(1) by (simp add: get_sticky_events_in_rooms_def Let_def txn_select [OF embedded wf])
  moreover have "\<forall>r \<in> set rows. between a b r \<longleftrightarrow> between a t r \<noteq> between t b r"
    using between_split_max [OF at] by blast
  ultimately show ?thesis
    using t(2) at page group_sticky_lookup [of _ ?page]
    by (intro exI [of _ t] exI [of _ "group_sticky ?page"]) (simp add: before_or_eq_token_at)
qed


definition example_sticky :: "sticky_event stream_row list" where
  "example_sticky =
     map (\<lambda>(s, e). \<lparr>row_stream_id = s, row_instance_name = Some ''worker1'',
            row_data = \<lparr>se_room_id = ''!r'', se_event_id = e, se_expires_at = 100, se_soft_failed = False\<rparr>\<rparr>)
       [(1, ''$1''), (2, ''$2''), (3, ''$3'')]"

definition m0 :: mw_token where "m0 = \<lparr>mt_stream = 0, mt_map = []\<rparr>"

definition m3 :: mw_token where "m3 = \<lparr>mt_stream = 3, mt_map = []\<rparr>"

lemma m0_m3_wf: "mw_wf m0" "mw_wf m3"
  by (simp_all add: mw_wf_def dict_wf_def m0_def m3_def)

lemma sticky_page_exact_witness:
  "distinct (map row_stream_id example_sticky) \<and>
   (\<exists>t events. get_sticky_events_in_rooms None example_sticky [''!r''] m0 m3 0 (Some 2) = Inr (t, events) \<and>
      mw_is_before_or_eq m0 t)"
proof -
  have d: "distinct (map row_stream_id example_sticky)" by (simp add: example_sticky_def)
  then show ?thesis using sticky_page_exact [OF m0_m3_wf d, of "Some 2" None "[''!r'']" 0] by auto
qed

text \<open>Rows that the embedded store marks as soft-failed are dropped after the limit has cut the page. A
  page that was cut and then lost such a row looks complete: the returned token covers the whole range,
  so the rows behind the page are neither returned nor left for a later call.\<close>

lemma sticky_cut_page_skips_rest:
  assumes wf: "mw_wf a" "mw_wf b" and n: "0 < n"
    and cut: "length (select_sticky rows room_ids a b now (Some n)) = n"
    and dropped: "s \<in> set (select_sticky rows room_ids a b now (Some n))" "meta (se_event_id (row_data s)) = Some True"
  shows "\<exists>t events. get_sticky_events_in_rooms (Some meta) rows room_ids a b now (Some n) = Inr (t, events) \<and>
    (\<forall>r \<in> set rows. \<not> between t b r) \<and>
    (\<forall>room. set (dict_get room [] events) \<subseteq>
       (se_event_id \<circ> row_data) ` set (select_sticky rows room_ids a b now (Some n)))"
proof -
  let ?page = "get_sticky_events_in_rooms_txn (Some meta) rows room_ids a b now (Some n)"
  have "length ?page < length (select_sticky rows room_ids a b now (Some n))"
    unfolding get_sticky_events_in_rooms_txn_def by (rule length_filter_less [OF dropped(1)]) (simp add: dropped(2))
  then have len: "n \<noteq> length ?page" using cut by simp
  obtain t where t: "mw_copy_and_advance mw_post_init a b = Inr t"
    and at: "\<And>w. token_at t w = max (token_at a w) (token_at b w)" using lub_token_at [OF wf] by blast
  have "\<not> between t b r" for r :: "sticky_event stream_row" by (auto simp: between_def at)
  moreover have "set ?page \<subseteq> set (select_sticky rows room_ids a b now (Some n))"
    by (auto simp: get_sticky_events_in_rooms_txn_def)
  ultimately show ?thesis
    using n len t by (auto simp: get_sticky_events_in_rooms_def Let_def group_sticky_lookup)
qed

text \<open>The first of three events is soft-failed, the page holds two: the third is lost.\<close>

lemma sticky_cut_page_skips_rest_witness:
  "sticky_relevant [''!r''] 0 (row_data (example_sticky ! 2)) \<and> between m0 m3 (example_sticky ! 2) \<and>
   (\<exists>t events. get_sticky_events_in_rooms (Some [''$1'' \<mapsto> True]) example_sticky [''!r''] m0 m3 0 (Some 2) =
      Inr (t, events) \<and> \<not> between t m3 (example_sticky ! 2) \<and> ''$3'' \<notin> set (dict_get ''!r'' [] events))"
proof -
  have sel: "select_sticky example_sticky [''!r''] m0 m3 0 (Some 2) = take 2 example_sticky"
    by (simp add: select_sticky_def example_sticky_def sticky_relevant_def in_bounds_def bounds_cond_def
        order_rows_def limit_rows_def m0_def m3_def get_max_stream_pos_def mw_is_before_or_eq_def)
  have "\<exists>t events. get_sticky_events_in_rooms (Some [''$1'' \<mapsto> True]) example_sticky [''!r''] m0 m3 0 (Some 2) =
      Inr (t, events) \<and> (\<forall>r \<in> set example_sticky. \<not> between t m3 r) \<and>
      (\<forall>room. set (dict_get room [] events) \<subseteq> (se_event_id \<circ> row_data) ` set (take 2 example_sticky))"
    using sticky_cut_page_skips_rest [OF m0_m3_wf, of 2 example_sticky "[''!r'']" 0 "example_sticky ! 0" "[''$1'' \<mapsto> True]"]
    unfolding sel by (simp add: example_sticky_def)
  moreover have "''$3'' \<notin> (se_event_id \<circ> row_data) ` set (take 2 example_sticky)"
    "example_sticky ! 2 \<in> set example_sticky" by (simp_all add: example_sticky_def)
  moreover have "sticky_relevant [''!r''] 0 (row_data (example_sticky ! 2)) \<and> between m0 m3 (example_sticky ! 2)"
    by (simp add: example_sticky_def sticky_relevant_def between_def token_at_def m0_def m3_def
        get_stream_pos_for_instance_def)
  ultimately show ?thesis by blast
qed


end
