(* ===== verification/Change_Cache.thy ===== *)
theory Change_Cache
  imports Complex_Main Overlay_Map
begin

text \<open>
  \<^verbatim>\<open>StreamChangeCache\<close> of \<^verbatim>\<open>synapse/util/caches/stream_change_cache.py\<close>: a bounded record of the latest
  change of each entity of a stream. The sorted dictionary of the source is an association list in
  ascending order of its keys, its sets are lists without duplicates. The theorem compares the cache
  with the full list of the changes it was told of: it never forgets a change silently, however small
  it is.
\<close>

section \<open>State\<close>

record change_cache =
  cc_original_max_size :: int
  cc_max_size :: int
  cc_cache :: "(int \<times> string list) list"
  cc_entity_to_key :: "(string, int) dict"
  cc_earliest_known_stream_pos :: int

text \<open>Assignment to a key of the sorted dictionary.\<close>

fun sorted_set :: "int \<Rightarrow> 'v \<Rightarrow> (int \<times> 'v) list \<Rightarrow> (int \<times> 'v) list" where
  "sorted_set k v [] = [(k, v)]"
| "sorted_set k v ((k', v') # m) =
     (if k < k' then (k, v) # (k', v') # m
      else if k = k' then (k, v) # m
      else (k', v') # sorted_set k v m)"

section \<open>Operations\<close>

text \<open>The loop of \<^verbatim>\<open>_evict\<close>; \<^verbatim>\<open>popitem\<close> raises on an empty dictionary.\<close>

fun evict_loop ::
  "int \<Rightarrow> (int \<times> string list) list \<Rightarrow> (string, int) dict \<Rightarrow> int \<Rightarrow>
   ((int \<times> string list) list \<times> (string, int) dict \<times> int) res" where
  "evict_loop max_size [] entity_to_key earliest =
     (if 0 > max_size then Inl KeyError else Inr ([], entity_to_key, earliest))"
| "evict_loop max_size ((k, r) # cache) entity_to_key earliest =
     (if int (length ((k, r) # cache)) > max_size
      then evict_loop max_size cache (filter (\<lambda>(e, p). e \<notin> set r) entity_to_key) (max k earliest)
      else Inr ((k, r) # cache, entity_to_key, earliest))"

definition evict :: "change_cache \<Rightarrow> change_cache res" where
  "evict c =
     bindR (evict_loop (cc_max_size c) (cc_cache c) (cc_entity_to_key c) (cc_earliest_known_stream_pos c))
       (\<lambda>(cache, entity_to_key, earliest).
         Inr (c\<lparr>cc_cache := cache, cc_entity_to_key := entity_to_key, cc_earliest_known_stream_pos := earliest\<rparr>))"

definition set_cache_factor :: "rat \<Rightarrow> change_cache \<Rightarrow> (bool \<times> change_cache) res" where
  "set_cache_factor factor c =
     (let new_size = \<lfloor>of_int (cc_original_max_size c) * factor\<rfloor>
      in if new_size \<noteq> cc_max_size c
         then bindR (evict (c\<lparr>cc_max_size := new_size\<rparr>)) (\<lambda>c'. Inr (True, c'))
         else Inr (False, c))"

text \<open>Taking an entity out of the set at its old position.\<close>

definition remove_entity :: "string \<Rightarrow> int \<Rightarrow> (int \<times> string list) list \<Rightarrow> (int \<times> string list) list res" where
  "remove_entity entity old_pos cache =
     (case map_of cache old_pos of
        None \<Rightarrow> Inl KeyError
      | Some e \<Rightarrow>
          if entity \<notin> set e then Inl KeyError
          else
            (let e' = filter (\<lambda>x. x \<noteq> entity) e
             in Inr (if e' = [] then filter (\<lambda>(k, v). k \<noteq> old_pos) cache else sorted_set old_pos e' cache)))"

definition add_entity :: "string \<Rightarrow> int \<Rightarrow> (int \<times> string list) list \<Rightarrow> (int \<times> string list) list" where
  "add_entity entity stream_pos cache =
     (let e1 = (case map_of cache stream_pos of None \<Rightarrow> [] | Some e \<Rightarrow> e)
      in sorted_set stream_pos (if entity \<in> set e1 then e1 else e1 @ [entity]) cache)"

definition entity_has_changed :: "string \<Rightarrow> int \<Rightarrow> change_cache \<Rightarrow> change_cache res" where
  "entity_has_changed entity stream_pos c =
     (if stream_pos \<le> cc_earliest_known_stream_pos c then Inr c
      else
        (let old_pos = map_of (cc_entity_to_key c) entity;
             store = (\<lambda>cache. evict (c\<lparr>cc_cache := add_entity entity stream_pos cache,
                                       cc_entity_to_key := dict_set entity stream_pos (cc_entity_to_key c)\<rparr>))
         in case old_pos of
              None \<Rightarrow> store (cc_cache c)
            | Some p \<Rightarrow>
                if p \<ge> stream_pos then Inr c
                else bindR (remove_entity entity p (cc_cache c)) store))"

definition all_entities_changed :: "int \<Rightarrow> change_cache \<Rightarrow> change_cache" where
  "all_entities_changed stream_pos c =
     c\<lparr>cc_cache := [], cc_entity_to_key := [], cc_earliest_known_stream_pos := stream_pos\<rparr>"

fun prefill :: "(string \<times> int) list \<Rightarrow> change_cache \<Rightarrow> change_cache res" where
  "prefill [] c = Inr c"
| "prefill ((entity, stream_pos) # es) c = bindR (entity_has_changed entity stream_pos c) (prefill es)"

definition new_change_cache :: "int \<Rightarrow> int \<Rightarrow> (string, int) dict \<Rightarrow> change_cache res" where
  "new_change_cache current_stream_pos max_size prefilled_cache =
     prefill prefilled_cache
       \<lparr>cc_original_max_size = max_size, cc_max_size = max_size, cc_cache = [], cc_entity_to_key = [],
        cc_earliest_known_stream_pos = current_stream_pos\<rparr>"

section \<open>Queries\<close>

definition has_entity_changed :: "string \<Rightarrow> int \<Rightarrow> change_cache \<Rightarrow> bool" where
  "has_entity_changed entity stream_pos c =
     (if stream_pos < cc_earliest_known_stream_pos c then True
      else case map_of (cc_entity_to_key c) entity of
             None \<Rightarrow> False
           | Some latest_entity_change_pos \<Rightarrow> stream_pos < latest_entity_change_pos)"

text \<open>\<open>None\<close> is the result without entities.\<close>

definition get_all_entities_changed :: "int \<Rightarrow> change_cache \<Rightarrow> string list option" where
  "get_all_entities_changed stream_pos c =
     (if stream_pos < cc_earliest_known_stream_pos c then None
      else Some (concat (map snd (dropWhile (\<lambda>(k, e). k \<le> stream_pos) (cc_cache c)))))"

text \<open>The result is a set; the three ways in which the source builds the intersection give the same one.\<close>

definition get_entities_changed :: "string list \<Rightarrow> int \<Rightarrow> int \<Rightarrow> change_cache \<Rightarrow> string set" where
  "get_entities_changed entities stream_pos perf_factor c =
     (if cc_cache c = [] \<or> stream_pos < cc_earliest_known_stream_pos c then set entities
      else if fst (last (cc_cache c)) - stream_pos > perf_factor * int (length entities)
      then {e \<in> set entities. dict_get e (-1) (cc_entity_to_key c) > stream_pos}
      else case get_all_entities_changed stream_pos c of
             Some changed \<Rightarrow> set entities \<inter> set changed
           | None \<Rightarrow> set entities)"

definition has_any_entity_changed :: "int \<Rightarrow> change_cache \<Rightarrow> bool" where
  "has_any_entity_changed stream_pos c =
     (if stream_pos < cc_earliest_known_stream_pos c then True
      else if cc_cache c = [] then False
      else stream_pos < fst (last (cc_cache c)))"

definition get_max_pos_of_last_change :: "string \<Rightarrow> change_cache \<Rightarrow> int option" where
  "get_max_pos_of_last_change entity c = map_of (cc_entity_to_key c) entity"

definition get_earliest_known_position :: "change_cache \<Rightarrow> int" where
  "get_earliest_known_position c = cc_earliest_known_stream_pos c"

section \<open>The invariant\<close>

definition ascending :: "(int \<times> 'v) list \<Rightarrow> bool" where
  "ascending m \<longleftrightarrow> sorted_wrt (<) (map fst m)"

lemma ascending_Cons: "ascending (e # m) \<longleftrightarrow> (\<forall>x \<in> set m. fst e < fst x) \<and> ascending m"
  by (simp add: ascending_def)

lemma map_of_sorted_set [simp]: "map_of (sorted_set k v m) = (map_of m)(k \<mapsto> v)"
  by (induction m) (auto simp: fun_eq_iff)

lemma fst_sorted_set [simp]: "fst ` set (sorted_set k v m) = insert k (fst ` set m)"
  by (induction k v m rule: sorted_set.induct) (simp_all add: insert_commute)

lemma ascending_sorted_set: "ascending m \<Longrightarrow> ascending (sorted_set k v m)"
proof (induction k v m rule: sorted_set.induct)
  case (2 k v k' v' m)
  have "fst x \<in> insert k (fst ` set m)" if "x \<in> set (sorted_set k v m)" for x
    using imageI [OF that, of fst] by simp
  then have "\<forall>x \<in> set (sorted_set k v m). k' < fst x" if "k' < k"
    using "2.prems" that by (fastforce simp: ascending_Cons)
  then show ?case using 2 by (auto simp: ascending_Cons)
qed (simp add: ascending_def)

lemma ascending_filter: "ascending m \<Longrightarrow> ascending (filter P m)"
  by (induction m) (auto simp: ascending_Cons)

lemma ascending_distinct: "ascending m \<Longrightarrow> distinct (map fst m)"
  by (simp add: ascending_def strict_sorted_iff)

text \<open>The two maps of the cache agree.\<close>

definition in_sync :: "(int \<times> string list) list \<Rightarrow> (string, int) dict \<Rightarrow> bool" where
  "in_sync cache entity_to_key \<longleftrightarrow>
     ascending cache \<and> dict_wf entity_to_key \<and>
     (\<forall>k es. map_of cache k = Some es \<longrightarrow> es \<noteq> [] \<and> distinct es) \<and>
     (\<forall>e p. map_of entity_to_key e = Some p \<longleftrightarrow> (\<exists>es. map_of cache p = Some es \<and> e \<in> set es))"

text \<open>\<open>H\<close> are the changes that were reported: those after the earliest known position are in the cache, up
  to later changes of the same entity, and everything in the cache was reported.\<close>

definition knows :: "(string \<times> int) list \<Rightarrow> (string, int) dict \<Rightarrow> int \<Rightarrow> bool" where
  "knows H entity_to_key earliest \<longleftrightarrow>
     (\<forall>(e, p) \<in> set H. earliest < p \<longrightarrow> (\<exists>q. map_of entity_to_key e = Some q \<and> p \<le> q)) \<and>
     (\<forall>e p. map_of entity_to_key e = Some p \<longrightarrow> (e, p) \<in> set H \<and> earliest < p)"

lemma in_sync_pop:
  assumes "in_sync ((k, r) # cache) m"
  shows "in_sync cache (filter (\<lambda>(e, p). e \<notin> set r) m)"
    "map_of (filter (\<lambda>(e, p). e \<notin> set r) m) e = (if e \<in> set r then None else map_of m e)"
proof -
  have wf: "dict_wf m" and asc: "ascending ((k, r) # cache)" using assms by (simp_all add: in_sync_def)
  show f: "map_of (filter (\<lambda>(e, p). e \<notin> set r) m) e = (if e \<in> set r then None else map_of m e)" for e
    by (auto simp: map_of_filter_wf [OF wf] split: option.split)
  have k: "map_of cache k = None" using ascending_distinct [OF asc] by (simp add: map_of_eq_None_iff)
  then have "es \<noteq> [] \<and> distinct es" if "map_of cache k' = Some es" for k' es
    using assms that unfolding in_sync_def by (metis map_of_Cons_code(2) option.distinct(1))
  moreover have "map_of m e = Some p \<longleftrightarrow> (\<exists>es. map_of ((k, r) # cache) p = Some es \<and> e \<in> set es)" for e p
    using assms by (simp add: in_sync_def)
  then have "map_of (filter (\<lambda>(e, p). e \<notin> set r) m) e = Some p \<longleftrightarrow>
      (\<exists>es. map_of cache p = Some es \<and> e \<in> set es)" for e p
    unfolding f using k by (metis map_of_Cons_code(2) option.distinct(1) option.inject)
  ultimately show "in_sync cache (filter (\<lambda>(e, p). e \<notin> set r) m)"
    using assms dict_wf_filter [OF wf] by (auto simp: in_sync_def ascending_Cons)
qed

lemma in_sync_min:
  assumes "in_sync ((k, r) # cache) m" "map_of m e = Some p"
  shows "k \<le> p" "p = k \<longleftrightarrow> e \<in> set r"
proof -
  obtain es where es: "map_of ((k, r) # cache) p = Some es" "e \<in> set es"
    using assms by (auto simp: in_sync_def)
  have asc: "\<forall>x \<in> set cache. k < fst x" using assms(1) by (simp add: in_sync_def ascending_Cons)
  show "k \<le> p" using es(1) asc by (force split: if_splits dest: map_of_SomeD)
  have "map_of m e = Some k" if "e \<in> set r"
    using assms(1) that by (auto simp: in_sync_def)
  then show "p = k \<longleftrightarrow> e \<in> set r" using es assms(2) by auto
qed

lemma knows_pop:
  assumes "in_sync ((k, r) # cache) m" "knows H m b"
  shows "knows H (filter (\<lambda>(e, p). e \<notin> set r) m) (max k b)"
  unfolding knows_def
proof (intro conjI ballI allI impI)
  fix h assume "h \<in> set H"
  obtain e p where h: "h = (e, p)" by (cases h)
  show "case h of (e, p) \<Rightarrow> max k b < p \<longrightarrow> (\<exists>q. map_of (filter (\<lambda>(e, p). e \<notin> set r) m) e = Some q \<and> p \<le> q)"
  proof (clarsimp simp: h)
    assume "k < p" "b < p"
    then obtain q where q: "map_of m e = Some q" "p \<le> q"
      using assms(2) \<open>h \<in> set H\<close> by (auto simp: knows_def h)
    then have "e \<notin> set r" using in_sync_min(2) [OF assms(1) q(1)] \<open>k < p\<close> by auto
    then show "\<exists>q. map_of (filter (\<lambda>(e, p). e \<notin> set r) m) e = Some q \<and> p \<le> q"
      using q in_sync_pop(2) [OF assms(1)] by simp
  qed
next
  fix e p assume "map_of (filter (\<lambda>(e, p). e \<notin> set r) m) e = Some p"
  then have p: "map_of m e = Some p" "e \<notin> set r"
    by (simp_all add: in_sync_pop(2) [OF assms(1)] split: if_splits)
  then show "(e, p) \<in> set H" using assms(2) by (simp add: knows_def)
  have "k < p" using in_sync_min [OF assms(1) p(1)] p(2) by (metis order_le_imp_less_or_eq)
  then show "max k b < p" using assms(2) p(1) by (simp add: knows_def)
qed


lemma in_sync_keys:
  assumes "in_sync cache m" "k \<in> fst ` set cache"
  shows "\<exists>e. map_of m e = Some k"
proof -
  obtain es where es: "map_of cache k = Some es" using assms(2) by (metis domD dom_map_of_conv_image_fst)
  then have "es \<noteq> []" using assms(1) by (simp add: in_sync_def)
  then show ?thesis using assms(1) es by (metis in_sync_def list.set_sel(1))
qed

lemma evict_loop_ok:
  "in_sync cache m \<Longrightarrow> knows H m b \<Longrightarrow> 0 \<le> sz \<Longrightarrow>
   \<exists>cache' m' b'. evict_loop sz cache m b = Inr (cache', m', b') \<and> in_sync cache' m' \<and> knows H m' b' \<and>
     int (length cache') \<le> sz \<and> b \<le> b' \<and> (b' = b \<or> b' \<in> snd ` set H)"
proof (induction sz cache m b rule: evict_loop.induct)
  case (2 sz k r cache m b)
  show ?case
  proof (cases "int (length ((k, r) # cache)) > sz")
    case True
    let ?m = "filter (\<lambda>(e, p). e \<notin> set r) m"
    have "in_sync cache ?m" "knows H ?m (max k b)" using 2 by (simp_all add: in_sync_pop knows_pop)
    then obtain cache' m' b' where ih: "evict_loop sz cache ?m (max k b) = Inr (cache', m', b')" "in_sync cache' m'"
      "knows H m' b'" "int (length cache') \<le> sz" "max k b \<le> b'" "b' = max k b \<or> b' \<in> snd ` set H"
      using "2.IH" True "2.prems"(3) by blast
    obtain e where "map_of m e = Some k" using in_sync_keys [OF "2.prems"(1), of k] by auto
    then have "k \<in> snd ` set H" using "2.prems"(2) by (force simp: knows_def)
    then show ?thesis using ih True by (auto simp: max_def split: if_splits)
  qed (use 2 in auto)
qed auto

definition cc_inv :: "(string \<times> int) list \<Rightarrow> int \<Rightarrow> change_cache \<Rightarrow> bool" where
  "cc_inv H tip c \<longleftrightarrow>
     in_sync (cc_cache c) (cc_entity_to_key c) \<and> knows H (cc_entity_to_key c) (cc_earliest_known_stream_pos c) \<and>
     cc_earliest_known_stream_pos c \<le> tip \<and> (\<forall>(e, p) \<in> set H. p \<le> tip) \<and>
     0 \<le> cc_original_max_size c \<and> 0 \<le> cc_max_size c \<and> int (length (cc_cache c)) \<le> cc_max_size c"

text \<open>Eviction restores the bound and only gives up positions that were reported.\<close>

lemma evict_ok:
  assumes "in_sync (cc_cache c) (cc_entity_to_key c)" "knows H (cc_entity_to_key c) (cc_earliest_known_stream_pos c)"
    and "cc_earliest_known_stream_pos c \<le> tip" "\<forall>(e, p) \<in> set H. p \<le> tip"
    and "0 \<le> cc_original_max_size c" "0 \<le> cc_max_size c"
  shows "\<exists>c'. evict c = Inr c' \<and> cc_inv H tip c' \<and>
    cc_earliest_known_stream_pos c \<le> cc_earliest_known_stream_pos c'"
  using evict_loop_ok [OF assms(1,2,6)] assms by (fastforce simp: evict_def cc_inv_def)

lemma dict_wf_pop: "dict_wf m \<Longrightarrow> dict_wf (dict_pop e m)"
  by (simp add: dict_pop_def dict_wf_filter)

lemma in_sync_remove:
  assumes sync: "in_sync cache m" and p: "map_of m e = Some p"
  shows "\<exists>cache'. remove_entity e p cache = Inr cache' \<and> in_sync cache' (dict_pop e m)"
proof -
  obtain es where es: "map_of cache p = Some es" "e \<in> set es" using sync p by (auto simp: in_sync_def)
  have at: "map_of m x = Some q \<longleftrightarrow> (\<exists>es. map_of cache q = Some es \<and> x \<in> set es)" for x q
    using sync by (simp add: in_sync_def)
  let ?es = "filter (\<lambda>x. x \<noteq> e) es"
  define cache' where "cache' = (if ?es = [] then filter (\<lambda>(k, v). k \<noteq> p) cache else sorted_set p ?es cache)"
  have asc: "ascending cache" using sync by (simp add: in_sync_def)
  have m': "map_of cache' q = (if q = p then if ?es = [] then None else Some ?es else map_of cache q)" for q
  proof -
    have "dict_wf cache" using ascending_distinct [OF asc] by (simp add: dict_wf_def)
    then have "map_of (filter (\<lambda>(k, v). k \<noteq> p) cache) q = (if q = p then None else map_of cache q)"
      by (simp add: map_of_filter_wf split: option.split)
    then show ?thesis by (cases "q = p") (simp_all add: cache'_def)
  qed
  have "map_of (dict_pop e m) x = Some q \<longleftrightarrow> (\<exists>es. map_of cache' q = Some es \<and> x \<in> set es)" for x q
  proof (cases "q = p")
    case True
    have "(\<exists>es'. map_of cache' p = Some es' \<and> x \<in> set es') \<longleftrightarrow> x \<in> set ?es"
      by (cases "?es = []") (simp_all add: m' del: set_filter)
    then show ?thesis using True at [of x p] es(1) by auto
  next
    case False
    then have "e \<notin> set es'" if "map_of cache q = Some es'" for es' using at [of e q] p that by auto
    then show ?thesis using False at [of x q] by (auto simp: m')
  qed
  moreover have "ascending cache'" using asc by (simp add: cache'_def ascending_filter ascending_sorted_set)
  moreover have "dict_wf (dict_pop e m)" using sync by (simp add: in_sync_def dict_wf_pop)
  moreover have "es' \<noteq> [] \<and> distinct es'" if "map_of cache' q = Some es'" for q es'
    using that sync es(1) by (auto simp: m' in_sync_def split: if_splits)
  ultimately have "in_sync cache' (dict_pop e m)" by (simp add: in_sync_def)
  then show ?thesis using es by (simp add: remove_entity_def Let_def cache'_def)
qed

lemma in_sync_add:
  assumes sync: "in_sync cache (dict_pop e m)" and wf: "dict_wf m"
  shows "in_sync (add_entity e p cache) (dict_set e p m)"
proof -
  define es where "es = (case map_of cache p of None \<Rightarrow> [] | Some es \<Rightarrow> es)"
  have at: "map_of (dict_pop e m) x = Some q \<longleftrightarrow> (\<exists>es. map_of cache q = Some es \<and> x \<in> set es)" for x q
    using sync by (simp add: in_sync_def)
  have e: "e \<notin> set es'" if "map_of cache q = Some es'" for q es' using at [of e q] that by auto
  then have new: "add_entity e p cache = sorted_set p (es @ [e]) cache"
    by (simp add: add_entity_def Let_def es_def split: option.split)
  have "distinct (es @ [e])" using sync e by (auto simp: es_def in_sync_def split: option.split)
  moreover have "map_of (dict_set e p m) x = Some q \<longleftrightarrow>
      (\<exists>es'. map_of (sorted_set p (es @ [e]) cache) q = Some es' \<and> x \<in> set es')" for x q
    using at [of x q] e by (auto simp: es_def split: option.splits if_splits)
  ultimately show ?thesis
    using sync wf unfolding new by (auto simp: in_sync_def ascending_sorted_set)
qed


section \<open>Every operation keeps the invariant\<close>

lemma in_sync_cong: "in_sync cache m \<Longrightarrow> map_of m' = map_of m \<Longrightarrow> dict_wf m' \<Longrightarrow> in_sync cache m'"
  by (simp add: in_sync_def)

lemma knows_report:
  assumes "knows H m b" "b < p" "\<forall>q. map_of m e = Some q \<longrightarrow> q \<le> p"
  shows "knows ((e, p) # H) (dict_set e p m) b"
  using assms by (fastforce simp: knows_def split: if_splits intro: order_trans)

lemma knows_ignore:
  assumes "knows H m b" "p \<le> b \<or> (\<exists>q. map_of m e = Some q \<and> p \<le> q)"
  shows "knows ((e, p) # H) m b"
  using assms by (auto simp: knows_def)

lemma entity_has_changed_ok:
  assumes inv: "cc_inv H tip c"
  shows "\<exists>c'. entity_has_changed e p c = Inr c' \<and> cc_inv ((e, p) # H) (max tip p) c' \<and>
    cc_earliest_known_stream_pos c \<le> cc_earliest_known_stream_pos c'"
proof -
  let ?m = "cc_entity_to_key c" and ?b = "cc_earliest_known_stream_pos c"
  have sync: "in_sync (cc_cache c) ?m" and k: "knows H ?m ?b" and wf: "dict_wf ?m"
    using inv by (simp_all add: cc_inv_def in_sync_def)
  have le: "?b \<le> max tip p" "\<forall>(e', q) \<in> set ((e, p) # H). q \<le> max tip p"
    using inv by (auto simp: cc_inv_def)
  have store: "\<exists>c'. evict (c\<lparr>cc_cache := add_entity e p cache, cc_entity_to_key := dict_set e p ?m\<rparr>) = Inr c' \<and>
      cc_inv ((e, p) # H) (max tip p) c' \<and> ?b \<le> cc_earliest_known_stream_pos c'"
    if "in_sync cache (dict_pop e ?m)" "?b < p" "\<forall>q. map_of ?m e = Some q \<longrightarrow> q \<le> p" for cache
    using evict_ok [of "c\<lparr>cc_cache := add_entity e p cache, cc_entity_to_key := dict_set e p ?m\<rparr>" "(e, p) # H" "max tip p"]
      in_sync_add [OF that(1) wf] knows_report [OF k that(2,3)] le inv by (simp add: cc_inv_def)
  have keep: "cc_inv ((e, p) # H) (max tip p) c" if "p \<le> ?b \<or> (\<exists>q. map_of ?m e = Some q \<and> p \<le> q)"
    using inv le knows_ignore [OF k that] by (simp add: cc_inv_def)
  consider "p \<le> ?b" | "?b < p" "map_of ?m e = None" | q where "?b < p" "map_of ?m e = Some q" "p \<le> q"
    | q where "?b < p" "map_of ?m e = Some q" "q < p" by (cases "map_of ?m e") (auto simp: not_le [symmetric])
  then show ?thesis
  proof cases
    case 1
    then show ?thesis using keep by (simp add: entity_has_changed_def)
  next
    case 2
    then have "map_of (dict_pop e ?m) = map_of ?m" by (simp add: fun_upd_idem)
    then have "in_sync (cc_cache c) (dict_pop e ?m)" using in_sync_cong [OF sync] dict_wf_pop [OF wf] by blast
    then show ?thesis using store 2 by (simp add: entity_has_changed_def)
  next
    case 3
    then show ?thesis using keep by (auto simp: entity_has_changed_def)
  next
    case 4
    then obtain cache where "remove_entity e q (cc_cache c) = Inr cache" "in_sync cache (dict_pop e ?m)"
      using in_sync_remove [OF sync] by blast
    then show ?thesis using store 4 by (simp add: entity_has_changed_def)
  qed
qed


lemma set_cache_factor_ok:
  assumes inv: "cc_inv H tip c" and f: "0 \<le> f"
  shows "\<exists>b c'. set_cache_factor f c = Inr (b, c') \<and> cc_inv H tip c' \<and>
    cc_earliest_known_stream_pos c \<le> cc_earliest_known_stream_pos c'"
proof (cases "\<lfloor>of_int (cc_original_max_size c) * f\<rfloor> = cc_max_size c")
  case False
  let ?c = "c\<lparr>cc_max_size := \<lfloor>of_int (cc_original_max_size c) * f\<rfloor>\<rparr>"
  have "\<exists>c'. evict ?c = Inr c' \<and> cc_inv H tip c' \<and> cc_earliest_known_stream_pos c \<le> cc_earliest_known_stream_pos c'"
    using evict_ok [of ?c H tip] inv f by (simp add: cc_inv_def)
  then show ?thesis using False by (auto simp: set_cache_factor_def)
qed (use inv in \<open>auto simp: set_cache_factor_def\<close>)

lemma all_entities_changed_ok:
  "cc_inv H tip c \<Longrightarrow> cc_inv (filter (\<lambda>(e, p). p \<le> q) H) (max tip q) (all_entities_changed q c)"
  by (fastforce simp: cc_inv_def all_entities_changed_def in_sync_def knows_def ascending_def)

text \<open>The life of a cache: it is told of changes, of invalidations and of new sizes, in any order.\<close>

datatype cache_op = Changed string int | AllChanged int | Resize rat

fun run_op :: "cache_op \<Rightarrow> change_cache \<Rightarrow> change_cache res" where
  "run_op (Changed e p) c = entity_has_changed e p c"
| "run_op (AllChanged q) c = Inr (all_entities_changed q c)"
| "run_op (Resize f) c = bindR (set_cache_factor f c) (\<lambda>(resized, c'). Inr c')"

fun run_ops :: "cache_op list \<Rightarrow> change_cache \<Rightarrow> change_cache res" where
  "run_ops [] c = Inr c"
| "run_ops (op # ops) c = bindR (run_op op c) (run_ops ops)"

text \<open>The histories in which no invalidation is before a position that was reported earlier.\<close>

fun ordered_ops :: "int \<Rightarrow> cache_op list \<Rightarrow> bool" where
  "ordered_ops tip [] = True"
| "ordered_ops tip (Changed e p # ops) = ordered_ops (max tip p) ops"
| "ordered_ops tip (AllChanged q # ops) = (tip \<le> q \<and> ordered_ops q ops)"
| "ordered_ops tip (Resize f # ops) = ordered_ops tip ops"

text \<open>The changes that a cache without bounds would still know of: an invalidation at a position forgets
  the changes after that position that were reported before it.\<close>

fun kept :: "(string \<times> int) list \<Rightarrow> cache_op list \<Rightarrow> (string \<times> int) list" where
  "kept H [] = H"
| "kept H (Changed e p # ops) = kept ((e, p) # H) ops"
| "kept H (AllChanged q # ops) = kept (filter (\<lambda>(e, p). p \<le> q) H) ops"
| "kept H (Resize f # ops) = kept H ops"

definition sizes_ok :: "cache_op list \<Rightarrow> bool" where
  "sizes_ok ops \<longleftrightarrow> list_all (\<lambda>op. case op of Resize f \<Rightarrow> 0 \<le> f | _ \<Rightarrow> True) ops"

fun reported :: "cache_op list \<Rightarrow> (string \<times> int) list" where
  "reported [] = []"
| "reported (Changed e p # ops) = (e, p) # reported ops"
| "reported (op # ops) = reported ops"

fun invalidations :: "cache_op list \<Rightarrow> int list" where
  "invalidations [] = []"
| "invalidations (AllChanged q # ops) = q # invalidations ops"
| "invalidations (op # ops) = invalidations ops"

lemma kept_ordered:
  "\<forall>(e, p) \<in> set H. p \<le> tip \<Longrightarrow> ordered_ops tip ops \<Longrightarrow> set (kept H ops) = set H \<union> set (reported ops)"
proof (induction tip ops arbitrary: H rule: ordered_ops.induct)
  case (2 tip e p ops)
  have "\<forall>(e', p') \<in> set ((e, p) # H). p' \<le> max tip p" using "2.prems"(1) by auto
  then show ?case using "2.IH" "2.prems"(2) by simp
next
  case (3 tip q ops)
  have all: "\<forall>(e, p) \<in> set H. p \<le> q" using "3.prems" by fastforce
  then have "filter (\<lambda>(e, p). p \<le> q) H = H" by (auto simp: filter_id_conv)
  then show ?case using "3.IH" [OF all] "3.prems"(2) by simp
qed simp_all

lemma ordered_invalidations:
  "ordered_ops tip ops \<Longrightarrow> p0 \<le> tip \<Longrightarrow> \<forall>q \<in> insert p0 (set (invalidations ops)). q \<le> last (p0 # invalidations ops)"
proof (induction tip ops arbitrary: p0 rule: ordered_ops.induct)
  case (3 tip q ops)
  have "\<forall>r \<in> insert q (set (invalidations ops)). r \<le> last (q # invalidations ops)" using 3 by simp
  then show ?case using "3.prems" by auto
qed auto

lemma run_ops_ok:
  "cc_inv H tip c \<Longrightarrow> sizes_ok ops \<Longrightarrow>
   \<exists>tip' c'. run_ops ops c = Inr c' \<and> cc_inv (kept H ops) tip' c' \<and>
     last (cc_earliest_known_stream_pos c # invalidations ops) \<le> cc_earliest_known_stream_pos c'"
proof (induction ops arbitrary: H tip c)
  case (Cons op ops)
  show ?case
  proof (cases op)
    case (Changed e p)
    obtain c1 where c1: "entity_has_changed e p c = Inr c1" "cc_inv ((e, p) # H) (max tip p) c1"
      "cc_earliest_known_stream_pos c \<le> cc_earliest_known_stream_pos c1"
      using entity_has_changed_ok [OF Cons.prems(1)] by blast
    then show ?thesis
      using Cons.IH [OF c1(2)] Cons.prems(2) by (fastforce simp: Changed sizes_ok_def split: if_splits)
  next
    case (AllChanged q)
    show ?thesis
      using Cons.IH [OF all_entities_changed_ok [OF Cons.prems(1), of q]] Cons.prems(2)
      by (fastforce simp: AllChanged all_entities_changed_def sizes_ok_def)
  next
    case (Resize f)
    obtain b c1 where c1: "set_cache_factor f c = Inr (b, c1)" "cc_inv H tip c1"
      "cc_earliest_known_stream_pos c \<le> cc_earliest_known_stream_pos c1"
      using set_cache_factor_ok [OF Cons.prems(1), of f] Cons.prems(2) by (auto simp: Resize sizes_ok_def)
    then show ?thesis
      using Cons.IH [OF c1(2)] Cons.prems(2) by (fastforce simp: Resize sizes_ok_def split: if_splits)
  qed
qed auto

lemma prefill_run: "prefill es c = run_ops (map (\<lambda>(e, p). Changed e p) es) c"
  by (induction es c rule: prefill.induct) (auto simp: bindR_def split: sum.split)

lemma run_ops_append: "run_ops (a @ b) c = bindR (run_ops a c) (run_ops b)"
  by (induction a arbitrary: c) (auto simp: bindR_def split: sum.split)


section \<open>What the queries answer\<close>

definition changed_after :: "(string \<times> int) list \<Rightarrow> string \<Rightarrow> int \<Rightarrow> bool" where
  "changed_after H e s \<longleftrightarrow> (\<exists>p. (e, p) \<in> set H \<and> s < p)"

lemma known_change:
  assumes "cc_inv H tip c" "cc_earliest_known_stream_pos c \<le> s"
  shows "(\<exists>q. map_of (cc_entity_to_key c) e = Some q \<and> s < q) \<longleftrightarrow> changed_after H e s"
proof
  assume "changed_after H e s"
  then obtain p where p: "(e, p) \<in> set H" "s < p" by (auto simp: changed_after_def)
  then have "\<exists>q. map_of (cc_entity_to_key c) e = Some q \<and> p \<le> q"
    using assms by (fastforce simp: cc_inv_def knows_def)
  then show "\<exists>q. map_of (cc_entity_to_key c) e = Some q \<and> s < q" using p(2) by force
qed (use assms in \<open>auto simp: cc_inv_def knows_def changed_after_def\<close>)

lemma dropWhile_ascending: "ascending m \<Longrightarrow> dropWhile (\<lambda>(k, e). k \<le> s) m = filter (\<lambda>(k, e). s < k) m"
proof (induction m)
  case (Cons x m)
  have "filter (\<lambda>(k, e). s < k) m = m" if "s < fst x"
    using Cons.prems that by (fastforce simp: ascending_Cons intro!: filter_True)
  then show ?case using Cons by (cases x) (auto simp: ascending_Cons not_le)
qed simp

lemma last_ascending: "ascending m \<Longrightarrow> m \<noteq> [] \<Longrightarrow> s < fst (last m) \<longleftrightarrow> (\<exists>x \<in> set m. s < fst x)"
proof (induction m)
  case (Cons x m)
  show ?case
  proof (cases "m = []")
    case False
    then have "fst x < fst (last m)" using Cons.prems by (simp add: ascending_Cons)
    moreover have "s < fst (last m) \<longleftrightarrow> (\<exists>y \<in> set m. s < fst y)"
      using Cons False by (simp add: ascending_Cons)
    ultimately show ?thesis using False by auto
  qed simp
qed simp

lemma concat_ascending:
  "ascending m \<Longrightarrow> (\<And>k es e. (k, es) \<in> set m \<Longrightarrow> distinct es \<and> (e \<in> set es \<longrightarrow> f e = k)) \<Longrightarrow>
   sorted (map f (concat (map snd m))) \<and> distinct (concat (map snd m))"
proof (induction m)
  case (Cons x m)
  obtain k es where x: "x = (k, es)" by (cases x)
  have later: "k < f e" if "e \<in> set (concat (map snd m))" for e
    using that Cons.prems by (fastforce simp: ascending_Cons x)
  have "distinct es" "\<forall>e \<in> set es. f e = k" using Cons.prems(2) [of k es] by (auto simp: x)
  then have "map f es = replicate (length es) k" by (simp add: map_replicate_const cong: map_cong)
  moreover have "sorted (map f (concat (map snd m))) \<and> distinct (concat (map snd m))"
  proof (rule Cons.IH)
    show "ascending m" using Cons.prems(1) by (simp add: ascending_Cons)
    show "distinct es \<and> (e \<in> set es \<longrightarrow> f e = k)" if "(k, es) \<in> set m" for k es e
      using Cons.prems(2) [of k es e] that by simp
  qed
  moreover have "set es \<inter> set (concat (map snd m)) = {}"
    using later \<open>\<forall>e \<in> set es. f e = k\<close> by (metis IntE equals0I less_irrefl)
  ultimately show ?case
    using later \<open>distinct es\<close>
    by (auto simp: x sorted_append less_imp_le simp del: set_concat)
qed simp

lemma all_changed_exact:
  assumes inv: "cc_inv H tip c" and s: "cc_earliest_known_stream_pos c \<le> s"
  shows "\<exists>l. get_all_entities_changed s c = Some l \<and> set l = {e. changed_after H e s} \<and> distinct l \<and>
    sorted (map (\<lambda>e. the (get_max_pos_of_last_change e c)) l)"
proof -
  let ?f = "filter (\<lambda>(k, e). s < k) (cc_cache c)" and ?m = "cc_entity_to_key c"
  have sync: "in_sync (cc_cache c) ?m" and asc: "ascending (cc_cache c)"
    using inv by (simp_all add: cc_inv_def in_sync_def)
  have mem: "(k, es) \<in> set (cc_cache c) \<longleftrightarrow> map_of (cc_cache c) k = Some es" for k es
    using ascending_distinct [OF asc] by simp
  have at: "map_of ?m e = Some p \<longleftrightarrow> (\<exists>es. map_of (cc_cache c) p = Some es \<and> e \<in> set es)" for e p
    using sync by (simp add: in_sync_def)
  have "set (concat (map snd ?f)) = {e. \<exists>q. map_of ?m e = Some q \<and> s < q}"
    by (auto simp: at mem) (metis mem snd_conv)+
  moreover have "sorted (map (\<lambda>e. the (map_of ?m e)) (concat (map snd ?f))) \<and> distinct (concat (map snd ?f))"
  proof (rule concat_ascending [OF ascending_filter [OF asc]])
    fix k es e assume "(k, es) \<in> set ?f"
    then have "map_of (cc_cache c) k = Some es" by (simp add: mem)
    then show "distinct es \<and> (e \<in> set es \<longrightarrow> the (map_of ?m e) = k)"
      using sync at [of e k] by (metis in_sync_def option.sel)
  qed
  ultimately show ?thesis
    using s known_change [OF inv s]
    by (simp add: get_all_entities_changed_def dropWhile_ascending [OF asc] get_max_pos_of_last_change_def)
qed


lemma any_changed_exact:
  assumes inv: "cc_inv H tip c" and s: "cc_earliest_known_stream_pos c \<le> s"
  shows "has_any_entity_changed s c \<longleftrightarrow> (\<exists>e. changed_after H e s)"
proof (cases "cc_cache c = []")
  case True
  then have "map_of (cc_entity_to_key c) e = None" for e
    using inv by (cases "map_of (cc_entity_to_key c) e") (auto simp: cc_inv_def in_sync_def)
  then show ?thesis
    using True s known_change [OF inv s] by (simp add: has_any_entity_changed_def)
next
  case False
  have sync: "in_sync (cc_cache c) (cc_entity_to_key c)" and asc: "ascending (cc_cache c)"
    using inv by (simp_all add: cc_inv_def in_sync_def)
  have "(\<exists>x \<in> set (cc_cache c). s < fst x) \<longleftrightarrow> (\<exists>e q. map_of (cc_entity_to_key c) e = Some q \<and> s < q)"
  proof
    assume "\<exists>x \<in> set (cc_cache c). s < fst x"
    then obtain x where x: "x \<in> set (cc_cache c)" "s < fst x" by blast
    then show "\<exists>e q. map_of (cc_entity_to_key c) e = Some q \<and> s < q"
      using in_sync_keys [OF sync, of "fst x"] by blast
  next
    assume "\<exists>e q. map_of (cc_entity_to_key c) e = Some q \<and> s < q"
    then obtain q es where "map_of (cc_cache c) q = Some es" "s < q" using sync by (auto simp: in_sync_def)
    then show "\<exists>x \<in> set (cc_cache c). s < fst x" by (force dest: map_of_SomeD)
  qed
  then show ?thesis
    using False s known_change [OF inv s] last_ascending [OF asc False, of s]
    by (simp add: has_any_entity_changed_def)
qed

lemma entities_changed_sound:
  assumes inv: "cc_inv H tip c" and s: "cc_earliest_known_stream_pos c \<le> s"
  shows "{e \<in> set es. changed_after H e s} \<subseteq> get_entities_changed es s f c"
    "get_entities_changed es s f c \<subseteq> set es"
    "cc_cache c \<noteq> [] \<Longrightarrow> - 1 \<le> s \<Longrightarrow> get_entities_changed es s f c = {e \<in> set es. changed_after H e s}"
    "cc_cache c = [] \<Longrightarrow> get_entities_changed es s f c = set es"
proof -
  obtain l where l: "get_all_entities_changed s c = Some l" "set l = {e. changed_after H e s}"
    using all_changed_exact [OF assms] by blast
  have g: "dict_get e (-1) (cc_entity_to_key c) > s \<longleftrightarrow>
      (if map_of (cc_entity_to_key c) e = None then s < -1 else changed_after H e s)" for e
    using known_change [OF assms, of e] by (auto simp: dict_get_def)
  have n: "map_of (cc_entity_to_key c) e = None \<Longrightarrow> \<not> changed_after H e s" for e
    using known_change [OF assms, of e] by auto
  then show "{e \<in> set es. changed_after H e s} \<subseteq> get_entities_changed es s f c"
    using l s g by (auto simp: get_entities_changed_def)
  show "get_entities_changed es s f c \<subseteq> set es"
    by (auto simp: get_entities_changed_def split: option.split)
  show "get_entities_changed es s f c = {e \<in> set es. changed_after H e s}" if "cc_cache c \<noteq> []" "- 1 \<le> s"
    using that l s g n by (auto simp: get_entities_changed_def)
qed (simp add: get_entities_changed_def)

lemma entity_changed_exact:
  assumes "cc_inv H tip c" "cc_earliest_known_stream_pos c \<le> s"
  shows "has_entity_changed e s c \<longleftrightarrow> changed_after H e s"
  using known_change [OF assms, of e] assms(2) by (auto simp: has_entity_changed_def split: option.splits)

definition cache_life :: "int \<Rightarrow> int \<Rightarrow> (string, int) dict \<Rightarrow> cache_op list \<Rightarrow> change_cache res" where
  "cache_life p0 max_size pre ops = bindR (new_change_cache p0 max_size pre) (run_ops ops)"

lemma cache_life_ok:
  assumes "0 \<le> max_size" "sizes_ok ops"
  shows "\<exists>tip c. cache_life p0 max_size pre ops = Inr c \<and> cc_inv (kept (rev pre) ops) tip c \<and>
    last (p0 # invalidations ops) \<le> cc_earliest_known_stream_pos c"
proof -
  let ?c = "\<lparr>cc_original_max_size = max_size, cc_max_size = max_size, cc_cache = [], cc_entity_to_key = [],
    cc_earliest_known_stream_pos = p0\<rparr>"
  let ?pre = "map (\<lambda>(e, p). Changed e p) pre"
  have sizes: "sizes_ok (?pre @ ops)" using assms(2) by (auto simp: sizes_ok_def list_all_iff)
  have "cc_inv [] p0 ?c" using assms(1) by (simp add: cc_inv_def in_sync_def knows_def ascending_def)
  from run_ops_ok [OF this sizes] obtain tip c where c: "run_ops (?pre @ ops) ?c = Inr c"
    "cc_inv (kept [] (?pre @ ops)) tip c"
    "last (p0 # invalidations (?pre @ ops)) \<le> cc_earliest_known_stream_pos c"
    by auto
  have "cache_life p0 max_size pre ops = run_ops (?pre @ ops) ?c"
    by (simp add: cache_life_def new_change_cache_def prefill_run run_ops_append)
  moreover have "kept H (map (\<lambda>(e, p). Changed e p) es @ ops) = kept (rev es @ H) ops"
    "invalidations (map (\<lambda>(e, p). Changed e p) es @ ops) = invalidations ops" for es H
    by (induction es arbitrary: H) auto
  ultimately show ?thesis using c by auto
qed

lemma kept_rev_ordered:
  assumes "ordered_ops p0 (map (\<lambda>(e, p). Changed e p) pre @ ops)"
  shows "set (kept (rev pre) ops) = set (pre @ reported ops)"
    "\<forall>q \<in> insert p0 (set (invalidations ops)). q \<le> last (p0 # invalidations ops)"
proof -
  have "\<exists>tip. p0 \<le> tip \<and> (\<forall>(e, p) \<in> set pre. p \<le> tip) \<and> ordered_ops tip ops"
    using assms
  proof (induction pre arbitrary: p0)
    case (Cons x pre)
    obtain e p where x: "x = (e, p)" by (cases x)
    with Cons obtain tip where "max p0 p \<le> tip" "\<forall>(e, p) \<in> set pre. p \<le> tip" "ordered_ops tip ops"
      by fastforce
    then show ?case by (intro exI [of _ tip]) (auto simp: x)
  qed auto
  then obtain tip where tip: "p0 \<le> tip" "\<forall>(e, p) \<in> set (rev pre). p \<le> tip" "ordered_ops tip ops" by auto
  then show "set (kept (rev pre) ops) = set (pre @ reported ops)"
    "\<forall>q \<in> insert p0 (set (invalidations ops)). q \<le> last (p0 # invalidations ops)"
    using kept_ordered [OF tip(2,3)] ordered_invalidations [OF tip(3,1)] by simp_all
qed


text \<open>C27: a \<^verbatim>\<open>StreamChangeCache\<close> of any size, prefilled and then told of changes, invalidations and new
  sizes (of factors that are not negative) in any order. No operation raises, the cache stays within its
  size, and its earliest known position is not before its first position or its last invalidation. For a
  position before the earliest known one every query answers as if everything had changed. From there on
  the queries agree with the list of the changes that no invalidation has forgotten, where an invalidation
  forgets the changes after its position that were reported before it: \<^verbatim>\<open>has_entity_changed\<close>,
  \<^verbatim>\<open>has_any_entity_changed\<close> and \<^verbatim>\<open>get_all_entities_changed\<close> agree exactly (the latter without repetition,
  ordered by the latest change); \<^verbatim>\<open>get_entities_changed\<close> never leaves out a changed entity, whichever of its
  strategies it uses, is exact for an entry in the cache, and returns all entities it is given where the
  cache is empty. Where no invalidation is before a position reported earlier, that list is the list of all
  reported changes: nothing is lost silently, however small the cache is. (\<open>invalidation_forgets\<close> below is a
  history that is not ordered so, and loses a change.)\<close>

theorem stream_change_cache_exact:
  assumes "0 \<le> max_size" "sizes_ok ops"
  shows "\<exists>c. cache_life p0 max_size pre ops = Inr c \<and> int (length (cc_cache c)) \<le> cc_max_size c \<and>
    last (p0 # invalidations ops) \<le> get_earliest_known_position c \<and>
    (\<forall>s < get_earliest_known_position c. has_entity_changed e s c \<and> has_any_entity_changed s c \<and>
       get_all_entities_changed s c = None \<and> get_entities_changed es s f c = set es) \<and>
    (\<forall>s \<ge> get_earliest_known_position c.
       (has_entity_changed e s c \<longleftrightarrow> changed_after (kept (rev pre) ops) e s) \<and>
       (has_any_entity_changed s c \<longleftrightarrow> (\<exists>e. changed_after (kept (rev pre) ops) e s)) \<and>
       (\<exists>l. get_all_entities_changed s c = Some l \<and> set l = {e. changed_after (kept (rev pre) ops) e s} \<and>
          distinct l \<and> sorted (map (\<lambda>e. the (get_max_pos_of_last_change e c)) l)) \<and>
       {e \<in> set es. changed_after (kept (rev pre) ops) e s} \<subseteq> get_entities_changed es s f c \<and>
       get_entities_changed es s f c \<subseteq> set es \<and>
       (cc_cache c \<noteq> [] \<and> -1 \<le> s \<longrightarrow>
          get_entities_changed es s f c = {e \<in> set es. changed_after (kept (rev pre) ops) e s}) \<and>
       (cc_cache c = [] \<longrightarrow> get_entities_changed es s f c = set es)) \<and>
    (ordered_ops p0 (map (\<lambda>(e, p). Changed e p) pre @ ops) \<longrightarrow>
       set (kept (rev pre) ops) = set (pre @ reported ops) \<and>
       (\<forall>q \<in> insert p0 (set (invalidations ops)). q \<le> get_earliest_known_position c))"
proof -
  obtain tip c where c: "cache_life p0 max_size pre ops = Inr c" and inv: "cc_inv (kept (rev pre) ops) tip c"
    and q: "last (p0 # invalidations ops) \<le> cc_earliest_known_stream_pos c"
    using cache_life_ok [OF assms] by blast
  have size: "int (length (cc_cache c)) \<le> cc_max_size c" using inv by (simp add: cc_inv_def)
  have early: "has_entity_changed e s c \<and> has_any_entity_changed s c \<and> get_all_entities_changed s c = None \<and>
      get_entities_changed es s f c = set es" if "s < cc_earliest_known_stream_pos c" for s
    using that by (simp add: has_entity_changed_def has_any_entity_changed_def get_all_entities_changed_def
        get_entities_changed_def)
  have ordered: "ordered_ops p0 (map (\<lambda>(e, p). Changed e p) pre @ ops) \<longrightarrow>
      set (kept (rev pre) ops) = set (pre @ reported ops) \<and>
      (\<forall>q \<in> insert p0 (set (invalidations ops)). q \<le> get_earliest_known_position c)"
    using kept_rev_ordered [of p0 pre ops] order_trans [OF _ q] unfolding get_earliest_known_position_def by blast
  show ?thesis
    using c q size early entity_changed_exact [OF inv] any_changed_exact [OF inv] all_changed_exact [OF inv]
      entities_changed_sound [OF inv]
    by (intro exI [of _ c] conjI allI impI ordered) (simp_all add: get_earliest_known_position_def ordered)
qed

text \<open>A change at position 5 followed by an invalidation at position 3 is lost: from position 3 on the cache
  answers that the entity has not changed.\<close>

lemma invalidation_forgets:
  "\<exists>c. cache_life 1 10 [] [Changed ''a'' 5, AllChanged 3] = Inr c \<and>
     get_earliest_known_position c = 3 \<and> \<not> has_entity_changed ''a'' 4 c"
  by (simp add: cache_life_def new_change_cache_def entity_has_changed_def all_entities_changed_def
      evict_def add_entity_def get_earliest_known_position_def has_entity_changed_def)

text \<open>A cache of size one forgets the first change and raises its earliest known position.\<close>

lemma stream_change_cache_exact_witness:
  "\<exists>c. cache_life 1 1 [(''a'', 2)] [Changed ''b'' 5, Changed ''a'' 4] = Inr c \<and>
     (\<forall>s \<ge> get_earliest_known_position c. has_entity_changed ''b'' s c \<longleftrightarrow> s < 5)"
proof -
  have "sizes_ok [Changed ''b'' 5, Changed ''a'' 4]" by (simp add: sizes_ok_def)
  moreover have "changed_after (kept (rev [(''a'', 2)]) [Changed ''b'' 5, Changed ''a'' 4]) ''b'' s \<longleftrightarrow> s < 5" for s
    by (auto simp: changed_after_def)
  ultimately show ?thesis
    using stream_change_cache_exact [of 1 "[Changed ''b'' 5, Changed ''a'' 4]" 1 "[(''a'', 2)]" "''b''"]
    by fastforce
qed


end
