(* ===== verification/Wheel_Timer.thy ===== *)
theory Wheel_Timer
  imports Prelude
begin

text \<open>
  \<^verbatim>\<open>WheelTimer\<close> of \<^verbatim>\<open>synapse/util/wheel_timer.py\<close>: objects kept in consecutive buckets of time until
  they are due. Times are whole milliseconds. The quotient \<^verbatim>\<open>int(t / size)\<close> of the source goes through
  a float; it is the truncated quotient for every time below \<open>2^53\<close> milliseconds, and is modelled as
  that. The locale \<open>expiry_queue\<close> is what clients of the timer rely on.
\<close>

section \<open>Model\<close>

record 'a wheel_entry =
  we_end_key :: int
  we_elements :: "'a list"

record 'a wheel_timer =
  wt_bucket_size :: int
  wt_entries :: "'a wheel_entry list"

definition new_wheel_timer :: "int \<Rightarrow> 'a wheel_timer" where
  "new_wheel_timer bucket_size = \<lparr>wt_bucket_size = bucket_size, wt_entries = []\<rparr>"

definition bucket_key :: "int \<Rightarrow> int \<Rightarrow> int" where
  "bucket_key sz t = (if 0 \<le> t then t div sz else - (- t div sz))"

abbreviation time_key :: "'a wheel_timer \<Rightarrow> int \<Rightarrow> int" where
  "time_key w t \<equiv> bucket_key (wt_bucket_size w) t"

definition add_element :: "'a \<Rightarrow> 'a wheel_entry \<Rightarrow> 'a wheel_entry" where
  "add_element x e = e\<lparr>we_elements := (if x \<in> set (we_elements e) then we_elements e else we_elements e @ [x])\<rparr>"

definition update_entry :: "'a \<Rightarrow> nat \<Rightarrow> 'a wheel_entry list \<Rightarrow> 'a wheel_entry list res" where
  "update_entry x i entries =
     (if i < length entries then Inr (entries[i := add_element x (entries ! i)]) else Inl IndexError)"

definition wheel_insert :: "int \<Rightarrow> 'a \<Rightarrow> int \<Rightarrow> 'a wheel_timer \<Rightarrow> 'a wheel_timer res" where
  "wheel_insert now obj due w =
     (let then_key = time_key w due + 1; now_key = time_key w now; entries = wt_entries w
      in if entries \<noteq> [] \<and> then_key \<le> we_end_key (last entries)
         then bindR (update_entry obj (nat (max (we_end_key (hd entries)) then_key - we_end_key (hd entries))) entries)
                (\<lambda>es. Inr (w\<lparr>wt_entries := es\<rparr>))
         else
           (let last_key = (if entries \<noteq> [] then we_end_key (last entries) + 1 else now_key + 1);
                then_key = max last_key then_key;
                entries = entries @ map (\<lambda>k. \<lparr>we_end_key = k, we_elements = []\<rparr>) [last_key..then_key]
            in bindR (update_entry obj (length entries - 1) entries) (\<lambda>es. Inr (w\<lparr>wt_entries := es\<rparr>))))"

definition wheel_fetch :: "int \<Rightarrow> 'a wheel_timer \<Rightarrow> 'a list \<times> 'a wheel_timer" where
  "wheel_fetch now w =
     (let due = (\<lambda>e. we_end_key e \<le> time_key w now)
      in (concat (map we_elements (takeWhile due (wt_entries w))),
          w\<lparr>wt_entries := dropWhile due (wt_entries w)\<rparr>))"

definition wheel_len :: "'a wheel_timer \<Rightarrow> nat" where
  "wheel_len w = sum_list (map (length \<circ> we_elements) (wt_entries w))"

section \<open>The contract of a queue of expiring objects\<close>

text \<open>\<open>pending\<close> are the objects with the bucket after which they are returned, \<open>key\<close> numbers the buckets.
  An object goes to a bucket that begins after its time, and not later than both that and the next
  bucket from now. A fetch takes exactly what has become due.\<close>

locale expiry_queue =
  fixes wf :: "int \<Rightarrow> 'q \<Rightarrow> bool"
    and key :: "int \<Rightarrow> int"
    and pending :: "'q \<Rightarrow> ('a \<times> int) set"
    and put :: "int \<Rightarrow> 'a \<Rightarrow> int \<Rightarrow> 'q \<Rightarrow> 'q res"
    and take_due :: "int \<Rightarrow> 'q \<Rightarrow> 'a list \<times> 'q"
  assumes put: "wf t q \<Longrightarrow> t \<le> now \<Longrightarrow> \<exists>q' k. put now x due q = Inr q' \<and> wf now q' \<and>
      pending q' = insert (x, k) (pending q) \<and> key due < k \<and> k \<le> max (key due) (key now) + 1"
    and take_due: "wf t q \<Longrightarrow> t \<le> now \<Longrightarrow> wf now (snd (take_due now q)) \<and>
      set (fst (take_due now q)) = {x. \<exists>k \<le> key now. (x, k) \<in> pending q} \<and>
      pending (snd (take_due now q)) = {(x, k) \<in> pending q. key now < k}"
begin

text \<open>An object put with the time \<open>due\<close> is still there, whatever was put or taken meanwhile, at any time
  up to \<open>due\<close>; it is handed out by a later fetch at the latest when the clock is past the bucket.\<close>

lemma not_early:
  assumes "wf t q" "t \<le> now" "(x, k) \<in> pending q" "key now < k"
  shows "(x, k) \<in> pending (snd (take_due now q))"
  using take_due [OF assms(1,2)] assms(3,4) by auto

lemma handed_out:
  assumes "wf t q" "t \<le> now" "(x, k) \<in> pending q" "k \<le> key now"
  shows "x \<in> set (fst (take_due now q))"
  using take_due [OF assms(1,2)] assms(3,4) by auto

lemma put_keeps: "wf t q \<Longrightarrow> t \<le> now \<Longrightarrow> put now x due q = Inr q' \<Longrightarrow> pending q \<subseteq> pending q'"
  using put [of t q now x due] by auto

end

section \<open>The buckets are consecutive\<close>

definition consecutive :: "'a wheel_entry list \<Rightarrow> bool" where
  "consecutive es \<longleftrightarrow> (\<forall>i < length es. we_end_key (es ! i) = we_end_key (hd es) + int i)"

definition entries_pending :: "'a wheel_entry list \<Rightarrow> ('a \<times> int) set" where
  "entries_pending es = {(x, k). \<exists>e \<in> set es. k = we_end_key e \<and> x \<in> set (we_elements e)}"

definition wheel_pending :: "'a wheel_timer \<Rightarrow> ('a \<times> int) set" where
  "wheel_pending w = entries_pending (wt_entries w)"

definition wheel_wf :: "int \<Rightarrow> int \<Rightarrow> 'a wheel_timer \<Rightarrow> bool" where
  "wheel_wf sz t w \<longleftrightarrow>
     0 < sz \<and> wt_bucket_size w = sz \<and> consecutive (wt_entries w) \<and>
     (wt_entries w \<noteq> [] \<longrightarrow> we_end_key (hd (wt_entries w)) \<le> time_key w t + 1)"

lemma consecutive_last:
  assumes "consecutive es" "es \<noteq> []"
  shows "we_end_key (last es) = we_end_key (hd es) + int (length es) - 1"
  using assms by (simp add: consecutive_def last_conv_nth of_nat_diff Suc_le_eq)

lemma consecutive_append:
  assumes "consecutive es" "es \<noteq> [] \<Longrightarrow> a = we_end_key (last es) + 1"
  shows "consecutive (es @ map (\<lambda>k. \<lparr>we_end_key = k, we_elements = []\<rparr>) [a..b])"
proof (cases "es = []")
  case False
  then show ?thesis
    using assms consecutive_last [OF assms(1) False] by (auto simp: consecutive_def nth_append)
next
  case True
  then show ?thesis by (cases "a \<le> b") (auto simp: consecutive_def hd_conv_nth)
qed

lemma bucket_key_mono: "0 < sz \<Longrightarrow> s \<le> t \<Longrightarrow> bucket_key sz s \<le> bucket_key sz t"
  using pos_imp_zdiv_nonneg_iff [of sz t] pos_imp_zdiv_nonneg_iff [of sz "- s"]
  by (auto simp: bucket_key_def zdiv_mono1)

text \<open>A bucket with a key beyond that of \<open>t\<close> begins after \<open>t\<close>.\<close>

lemma bucket_key_less: "0 < sz \<Longrightarrow> 0 \<le> t \<Longrightarrow> bucket_key sz t < k \<longleftrightarrow> t < k * sz"
proof -
  assume sz: "0 < sz" and t: "0 \<le> t"
  have eq: "t = sz * (t div sz) + t mod sz" and r: "0 \<le> t mod sz" "t mod sz < sz" using sz by simp_all
  have "t div sz < k \<longleftrightarrow> t < k * sz"
  proof
    assume "t div sz < k"
    then have "sz * (t div sz + 1) \<le> sz * k" using sz by (intro mult_left_mono) auto
    then have "sz * (t div sz) + sz \<le> k * sz" by (simp add: algebra_simps)
    then show "t < k * sz" using eq r by linarith
  next
    assume "t < k * sz"
    then have "sz * (t div sz) < sz * k" using eq r by (metis add_strict_increasing2 le_add_same_cancel1 le_less_trans mult.commute not_less_iff_gr_or_eq)
    then show "t div sz < k" using sz by simp
  qed
  then show ?thesis using t by (simp add: bucket_key_def)
qed

lemma in_entries_pending:
  "(x, k) \<in> entries_pending es \<longleftrightarrow> (\<exists>i < length es. k = we_end_key (es ! i) \<and> x \<in> set (we_elements (es ! i)))"
  unfolding entries_pending_def by (simp add: Bex_set list_ex_length)

lemma entries_pending_append: "entries_pending (es @ es') = entries_pending es \<union> entries_pending es'"
  by (auto simp: entries_pending_def)

text \<open>Adding an object to the bucket at an index.\<close>

lemma update_entry_ok:
  assumes c: "consecutive es" and i: "i < length es"
  shows "\<exists>es'. update_entry x i es = Inr es' \<and> consecutive es' \<and> es' \<noteq> [] \<and>
    we_end_key (hd es') = we_end_key (hd es) \<and>
    entries_pending es' = insert (x, we_end_key (es ! i)) (entries_pending es)"
proof -
  let ?es = "es[i := add_element x (es ! i)]"
  have k: "we_end_key (?es ! j) = we_end_key (es ! j)" if "j < length es" for j
    using that by (cases "j = i") (simp_all add: add_element_def)
  have e: "set (we_elements (?es ! j)) = (if j = i then insert x (set (we_elements (es ! j))) else set (we_elements (es ! j)))"
    if "j < length es" for j using that by (cases "j = i") (auto simp: add_element_def)
  have hd: "we_end_key (hd ?es) = we_end_key (hd es)"
  proof -
    have "es \<noteq> []" "?es \<noteq> []" using i by auto
    then show ?thesis using k [of 0] by (simp add: hd_conv_nth del: list_update_nonempty)
  qed
  have "(y, q) \<in> entries_pending ?es \<longleftrightarrow> (y, q) \<in> insert (x, we_end_key (es ! i)) (entries_pending es)" for y q
  proof -
    have "(y, q) \<in> entries_pending ?es \<longleftrightarrow>
        (\<exists>j < length es. q = we_end_key (es ! j) \<and> (y \<in> set (we_elements (es ! j)) \<or> j = i \<and> y = x))"
      unfolding in_entries_pending length_list_update using k e by (intro ex_cong1 conj_cong) (auto split: if_splits)
    then show ?thesis using i by (auto simp: in_entries_pending)
  qed
  then have "entries_pending ?es = insert (x, we_end_key (es ! i)) (entries_pending es)" by auto
  moreover have "consecutive ?es" using c k hd by (simp add: consecutive_def)
  ultimately show ?thesis using i hd by (auto simp: update_entry_def)
qed

lemma last_upto: "a \<le> b \<Longrightarrow> last [a..b] = (b :: int)"
  by (subst upto_rec2) simp_all

lemma wheel_insert_ok:
  assumes wf: "wheel_wf sz t w" and now: "t \<le> now"
  shows "\<exists>w' k. wheel_insert now x due w = Inr w' \<and> wheel_wf sz now w' \<and>
    wheel_pending w' = insert (x, k) (wheel_pending w) \<and> bucket_key sz due < k \<and>
    k \<le> max (bucket_key sz due) (bucket_key sz now) + 1"
proof -
  let ?es = "wt_entries w" and ?d = "bucket_key sz due + 1" and ?n = "bucket_key sz now"
  have c: "consecutive ?es" and sz: "0 < sz" "wt_bucket_size w = sz" using wf by (simp_all add: wheel_wf_def)
  have first: "we_end_key (hd ?es) \<le> ?n + 1" if "?es \<noteq> []"
    using wf that sz bucket_key_mono [OF sz(1) now] by (auto simp: wheel_wf_def)
  show ?thesis
  proof (cases "?es \<noteq> [] \<and> ?d \<le> we_end_key (last ?es)")
    case True
    let ?f = "we_end_key (hd ?es)"
    let ?i = "nat (max ?f ?d - ?f)"
    have i: "?i < length ?es" using True consecutive_last [OF c] by (auto simp: nat_less_iff max_def)
    then have key: "we_end_key (?es ! ?i) = max ?f ?d" using c by (simp add: consecutive_def)
    obtain es' where es': "update_entry x ?i ?es = Inr es'" "consecutive es'" "we_end_key (hd es') = ?f"
      "entries_pending es' = insert (x, max ?f ?d) (entries_pending ?es)"
      using update_entry_ok [OF c i, of x] key by auto
    show ?thesis
      using True es' sz first
      by (intro exI [of _ "w\<lparr>wt_entries := es'\<rparr>"] exI [of _ "max ?f ?d"])
        (auto simp: wheel_insert_def wheel_wf_def wheel_pending_def)
  next
    case False
    define a where "a = (if ?es \<noteq> [] then we_end_key (last ?es) + 1 else ?n + 1)"
    let ?b = "max a ?d"
    let ?es' = "?es @ map (\<lambda>k. \<lparr>we_end_key = k, we_elements = []\<rparr>) [a..?b]"
    have c': "consecutive ?es'" by (rule consecutive_append [OF c]) (simp add: a_def)
    have len: "length ?es' - 1 < length ?es'" by simp
    have "we_end_key (?es' ! (length ?es' - 1)) = we_end_key (last ?es')" by (subst last_conv_nth) auto
    also have "\<dots> = ?b" by (simp add: last_map last_upto)
    finally have key: "we_end_key (?es' ! (length ?es' - 1)) = ?b" .
    have "entries_pending ?es' = entries_pending ?es" by (auto simp: entries_pending_def)
    then obtain es'' where es'': "update_entry x (length ?es' - 1) ?es' = Inr es''" "consecutive es''" "es'' \<noteq> []"
      "we_end_key (hd es'') = we_end_key (hd ?es')" "entries_pending es'' = insert (x, ?b) (entries_pending ?es)"
      using update_entry_ok [OF c' len, of x] unfolding key by auto
    have "we_end_key (hd ?es') \<le> ?n + 1" using first by (cases "?es = []") (simp_all add: hd_map a_def upto_rec1)
    moreover have "?b \<le> max (bucket_key sz due) ?n + 1" using False by (auto simp: a_def)
    ultimately show ?thesis
      using False es'' sz
      by (intro exI [of _ "w\<lparr>wt_entries := es''\<rparr>"] exI [of _ ?b])
        (auto simp: wheel_insert_def Let_def a_def [symmetric] wheel_wf_def wheel_pending_def)
  qed
qed

lemma consecutive_Cons: "consecutive (e # es) \<Longrightarrow> consecutive es \<and> (\<forall>e' \<in> set es. we_end_key e < we_end_key e')"
proof -
  assume c: "consecutive (e # es)"
  have k: "we_end_key (es ! i) = we_end_key e + 1 + int i" if "i < length es" for i
    using c that by (auto simp: consecutive_def dest!: spec [of _ "Suc i"])
  then have "we_end_key (hd es) = we_end_key e + 1" if "es \<noteq> []" using that k [of 0] by (simp add: hd_conv_nth)
  then have "consecutive es" using k by (cases "es = []") (simp_all add: consecutive_def)
  then show ?thesis using k by (fastforce simp: in_set_conv_nth)
qed

lemma consecutive_dropWhile: "consecutive es \<Longrightarrow> consecutive (dropWhile P es)"
  by (induction es) (auto dest: consecutive_Cons)

lemma takeWhile_due: "consecutive es \<Longrightarrow> takeWhile (\<lambda>e. we_end_key e \<le> n) es = filter (\<lambda>e. we_end_key e \<le> n) es"
proof (induction es)
  case (Cons e es)
  have "filter (\<lambda>e. we_end_key e \<le> n) es = []" if "\<not> we_end_key e \<le> n"
    using consecutive_Cons [OF Cons.prems] that by (force simp: filter_empty_conv)
  then show ?case using Cons consecutive_Cons by auto
qed simp

lemma dropWhile_due: "consecutive es \<Longrightarrow> dropWhile (\<lambda>e. we_end_key e \<le> n) es = filter (\<lambda>e. n < we_end_key e) es"
proof (induction es)
  case (Cons e es)
  have "filter (\<lambda>e. n < we_end_key e) es = es" if "\<not> we_end_key e \<le> n"
    using consecutive_Cons [OF Cons.prems] that by (force simp: filter_id_conv)
  then show ?case using Cons consecutive_Cons by auto
qed simp

lemma dropWhile_hd:
  assumes "consecutive es" "es \<noteq> []" "we_end_key (hd es) \<le> n + 1" "dropWhile (\<lambda>e. we_end_key e \<le> n) es \<noteq> []"
  shows "we_end_key (hd (dropWhile (\<lambda>e. we_end_key e \<le> n) es)) \<le> n + 1"
  using assms
proof (induction es)
  case (Cons e es)
  show ?case
  proof (cases "we_end_key e \<le> n \<and> es \<noteq> []")
    case True
    have "we_end_key ((e # es) ! 1) = we_end_key e + 1" 
      using Cons.prems(1) True by (auto simp: consecutive_def dest!: spec [of _ 1])
    then have "we_end_key (hd es) = we_end_key e + 1" using True by (simp add: hd_conv_nth)
    then show ?thesis using Cons True consecutive_Cons [OF Cons.prems(1)] by simp
  qed (use Cons.prems in auto)
qed simp

lemma wheel_fetch_ok:
  assumes wf: "wheel_wf sz t w" and now: "t \<le> now"
  shows "wheel_wf sz now (snd (wheel_fetch now w)) \<and>
    set (fst (wheel_fetch now w)) = {x. \<exists>k \<le> bucket_key sz now. (x, k) \<in> wheel_pending w} \<and>
    wheel_pending (snd (wheel_fetch now w)) = {(x, k) \<in> wheel_pending w. bucket_key sz now < k}"
proof -
  let ?es = "wt_entries w" and ?n = "bucket_key sz now"
  have c: "consecutive ?es" and sz: "0 < sz" "wt_bucket_size w = sz" using wf by (simp_all add: wheel_wf_def)
  have first: "we_end_key (hd ?es) \<le> ?n + 1" if "?es \<noteq> []"
    using wf that sz bucket_key_mono [OF sz(1) now] by (auto simp: wheel_wf_def)
  have f: "fst (wheel_fetch now w) = concat (map we_elements (takeWhile (\<lambda>e. we_end_key e \<le> ?n) ?es))"
    "snd (wheel_fetch now w) = w\<lparr>wt_entries := dropWhile (\<lambda>e. we_end_key e \<le> ?n) ?es\<rparr>"
    using sz by (simp_all add: wheel_fetch_def Let_def)
  have "?es \<noteq> []" if "dropWhile (\<lambda>e. we_end_key e \<le> ?n) ?es \<noteq> []" using that by auto
  then have "wheel_wf sz now (snd (wheel_fetch now w))"
    using sz consecutive_dropWhile [OF c] dropWhile_hd [OF c _ first] by (auto simp: f wheel_wf_def)
  then show ?thesis
    unfolding f takeWhile_due [OF c] dropWhile_due [OF c] wheel_pending_def entries_pending_def by auto
qed

interpretation wheel: expiry_queue "wheel_wf sz" "bucket_key sz" wheel_pending wheel_insert wheel_fetch for sz
  by unfold_locales (rule wheel_insert_ok wheel_fetch_ok; assumption)+


section \<open>A timer in use\<close>

datatype 'a timer_op = Put int 'a int | Fetch int

fun op_time :: "'a timer_op \<Rightarrow> int" where
  "op_time (Put now x due) = now"
| "op_time (Fetch now) = now"

text \<open>The results of the fetches, in order, and the timer at the end.\<close>

fun run_timer :: "'a timer_op list \<Rightarrow> 'a wheel_timer \<Rightarrow> ('a list list \<times> 'a wheel_timer) res" where
  "run_timer [] w = Inr ([], w)"
| "run_timer (Put now x due # ops) w = bindR (wheel_insert now x due w) (run_timer ops)"
| "run_timer (Fetch now # ops) w =
     (case wheel_fetch now w of (out, w') \<Rightarrow>
        bindR (run_timer ops w') (\<lambda>(outs, w''). Inr (out # outs, w'')))"

definition clock_after :: "int \<Rightarrow> 'a timer_op list \<Rightarrow> int" where
  "clock_after t ops = (if ops = [] then t else op_time (last ops))"

lemma run_timer_append:
  "run_timer (a @ b) w = bindR (run_timer a w) (\<lambda>(outs, w').
     bindR (run_timer b w') (\<lambda>(outs', w''). Inr (outs @ outs', w'')))"
  by (induction a w rule: run_timer.induct) (auto simp: bindR_def split: sum.split prod.split)

text \<open>An object that nobody puts is not handed out before its bucket, and stays where it is.\<close>

lemma run_timer_keeps:
  "wheel_wf sz t w \<Longrightarrow> sorted (t # map op_time ops) \<Longrightarrow> (\<forall>now due. Put now x due \<notin> set ops) \<Longrightarrow>
   (\<forall>u k. Fetch u \<in> set ops \<and> (x, k) \<in> wheel_pending w \<longrightarrow> bucket_key sz u < k) \<Longrightarrow>
   \<exists>outs w'. run_timer ops w = Inr (outs, w') \<and> wheel_wf sz (clock_after t ops) w' \<and>
     x \<notin> \<Union> (set ` set outs) \<and> (\<forall>k. (x, k) \<in> wheel_pending w' \<longleftrightarrow> (x, k) \<in> wheel_pending w)"
proof (induction ops arbitrary: t w)
  case (Cons op ops)
  have t: "t \<le> op_time op" "sorted (op_time op # map op_time ops)" using Cons.prems(2) by auto
  have clock: "clock_after t (op # ops) = clock_after (op_time op) ops" by (simp add: clock_after_def)
  show ?case
  proof (cases op)
    case (Put now y due)
    obtain w1 k where w1: "wheel_insert now y due w = Inr w1" "wheel_wf sz now w1"
      "wheel_pending w1 = insert (y, k) (wheel_pending w)"
      using wheel.put [OF Cons.prems(1), of now y due] t(1) by (auto simp: Put)
    have "y \<noteq> x" using Cons.prems(3) by (auto simp: Put)
    then have p: "(x, k) \<in> wheel_pending w1 \<longleftrightarrow> (x, k) \<in> wheel_pending w" for k by (auto simp: w1(3))
    have "sorted (now # map op_time ops)" "\<forall>now due. Put now x due \<notin> set ops"
      "\<forall>u k. Fetch u \<in> set ops \<and> (x, k) \<in> wheel_pending w1 \<longrightarrow> bucket_key sz u < k"
      using t(2) Cons.prems(3,4) p by (auto simp: Put)
    from Cons.IH [OF w1(2) this] show ?thesis using w1(1) p clock by (auto simp: Put)
  next
    case (Fetch now)
    obtain out w1 where f: "wheel_fetch now w = (out, w1)" by (cases "wheel_fetch now w")
    have w1: "wheel_wf sz now w1" "set out = {x. \<exists>k \<le> bucket_key sz now. (x, k) \<in> wheel_pending w}"
      "wheel_pending w1 = {(x, k) \<in> wheel_pending w. bucket_key sz now < k}"
      using wheel.take_due [OF Cons.prems(1), of now] t(1) by (auto simp: Fetch f)
    have "bucket_key sz now < k" if "(x, k) \<in> wheel_pending w" for k using Cons.prems(4) that by (simp add: Fetch)
    then have x: "x \<notin> set out" and p: "(x, k) \<in> wheel_pending w1 \<longleftrightarrow> (x, k) \<in> wheel_pending w" for k
      using w1(2,3) by (auto simp: not_less [symmetric])
    have "sorted (now # map op_time ops)" "\<forall>now due. Put now x due \<notin> set ops"
      "\<forall>u k. Fetch u \<in> set ops \<and> (x, k) \<in> wheel_pending w1 \<longrightarrow> bucket_key sz u < k"
      using t(2) Cons.prems(3,4) p by (auto simp: Fetch)
    from Cons.IH [OF w1(1) this] show ?thesis using x p clock by (auto simp: Fetch f)
  qed
qed (simp add: clock_after_def)

lemma bucket_end: "0 < sz \<Longrightarrow> 0 \<le> m \<Longrightarrow> m + sz \<le> t \<Longrightarrow> k \<le> bucket_key sz m + 1 \<Longrightarrow> k \<le> bucket_key sz t"
proof -
  assume a: "0 < sz" "0 \<le> m" "m + sz \<le> t" "k \<le> bucket_key sz m + 1"
  have "bucket_key sz m + 1 = (m + sz) div sz" using a(1,2) div_add_self2 [of sz m] by (simp add: bucket_key_def)
  also have "\<dots> \<le> t div sz" using a by (intro zdiv_mono1) auto
  finally show ?thesis using a by (simp add: bucket_key_def)
qed


text \<open>\<^verbatim>\<open>WheelTimer\<close>. However the timer was used before, and however other objects are inserted and
  fetched meanwhile, no operation raises; an object is not returned by a fetch up to its time, and is
  returned by the next fetch that is one bucket or more after both its time and its insertion.\<close>

lemma wheel_timer_on_time:
  fixes x :: 'a
  assumes sz: "0 < sz" and due: "0 \<le> due" "0 \<le> now" "max due now + sz \<le> T"
    and clock: "sorted (map op_time (before @ Put now x due # meanwhile @ [Fetch T]))"
    and other: "\<forall>u d. Put u x d \<notin> set (before @ meanwhile)"
    and early: "\<forall>u. Fetch u \<in> set meanwhile \<longrightarrow> u \<le> due"
  shows "\<exists>outs out w. run_timer (before @ Put now x due # meanwhile @ [Fetch T]) (new_wheel_timer sz) =
      Inr (outs @ [out], w) \<and> x \<notin> \<Union> (set ` set outs) \<and> x \<in> set out"
proof -
  let ?t = "if before = [] then now else op_time (hd before)"
  have w0: "wheel_wf sz ?t (new_wheel_timer sz :: 'a wheel_timer)"
    "wheel_pending (new_wheel_timer sz :: 'a wheel_timer) = {}"
    using sz by (simp_all add: wheel_wf_def new_wheel_timer_def consecutive_def wheel_pending_def entries_pending_def)
  have s: "sorted (?t # map op_time before)" "clock_after ?t before \<le> now"
    "sorted (now # map op_time meanwhile)" "clock_after now meanwhile \<le> T"
    using clock by (cases before; auto simp: sorted_append clock_after_def)+
  obtain outs1 w1 where r1: "run_timer before (new_wheel_timer sz) = Inr (outs1, w1)" "x \<notin> \<Union> (set ` set outs1)"
    "wheel_wf sz (clock_after ?t before) w1" "\<forall>k. (x, k) \<notin> wheel_pending w1"
    using run_timer_keeps [OF w0(1) s(1), of x] w0(2) other by auto
  obtain w2 k where r2: "wheel_insert now x due w1 = Inr w2" "wheel_wf sz now w2"
    "wheel_pending w2 = insert (x, k) (wheel_pending w1)" "bucket_key sz due < k"
    "k \<le> max (bucket_key sz due) (bucket_key sz now) + 1"
    using wheel.put [OF r1(3) s(2)] by blast
  have "bucket_key sz u < q" if "Fetch u \<in> set meanwhile" "(x, q) \<in> wheel_pending w2" for u q
    using that early r1(4) r2(3,4) bucket_key_mono [OF sz, of u due] by fastforce
  then obtain outs3 w3 where r3: "run_timer meanwhile w2 = Inr (outs3, w3)" "x \<notin> \<Union> (set ` set outs3)"
    "wheel_wf sz (clock_after now meanwhile) w3" "(x, k) \<in> wheel_pending w3"
    using run_timer_keeps [OF r2(2) s(3), of x] other r2(3) by auto
  have "max (bucket_key sz due) (bucket_key sz now) = bucket_key sz (max due now)"
    using bucket_key_mono [OF sz, of due now] bucket_key_mono [OF sz, of now due] by (auto simp: max_def)
  then have "k \<le> bucket_key sz T" using bucket_end [OF sz _ due(3)] due r2(5) by simp
  then have "x \<in> set (fst (wheel_fetch T w3))" by (rule wheel.handed_out [OF r3(3) s(4) r3(4)])
  moreover have "run_timer (before @ Put now x due # meanwhile @ [Fetch T]) (new_wheel_timer sz) =
      Inr ((outs1 @ outs3) @ [fst (wheel_fetch T w3)], snd (wheel_fetch T w3))"
    using r1(1) r2(1) r3(1) by (simp add: run_timer_append split: prod.split)
  ultimately show ?thesis
    using r1(2) r3(2)
    by (intro exI [of _ "outs1 @ outs3"] exI [of _ "fst (wheel_fetch T w3)"] exI [of _ "snd (wheel_fetch T w3)"]) simp
qed

lemma wheel_timer_on_time_witness:
  "\<exists>outs out w. run_timer [Put 100 ''a'' 9000, Put 2000 ''b'' 7000, Fetch 6000, Put 6500 ''c'' 1000, Fetch 12000]
      (new_wheel_timer 5000) = Inr (outs @ [out], w) \<and> ''b'' \<notin> \<Union> (set ` set outs) \<and> ''b'' \<in> set out"
  using wheel_timer_on_time [of 5000 7000 2000 12000 "[Put 100 ''a'' 9000]" "''b''" "[Fetch 6000, Put 6500 ''c'' 1000]"]
  by simp


end
