(* ===== verification/Ratelimit.thy ===== *)
theory Ratelimit
  imports Complex_Main Py_Values Overlay_Map Wheel_Timer
begin

text \<open>
  \<^verbatim>\<open>Ratelimiter\<close> and \<^verbatim>\<open>RequestRatelimiter\<close> of \<^verbatim>\<open>synapse/api/ratelimiting.py\<close>, with the wheel timer that
  schedules the pruning of idle keys. Times and rates are rational numbers: the rounding of floats is
  not represented. Keys are strings. What the limiter asks the store and the modules is a record of
  functions. The theorems relate the limiter to an abstract leaky bucket per key.
\<close>

section \<open>Model\<close>

type_synonym bucket = "int \<times> rat \<times> rat"

record ratelimiter =
  rl_rate_hz :: rat
  rl_burst_count :: int
  rl_actions :: "(string, bucket) dict"
  rl_timer :: "string wheel_timer"

definition new_ratelimiter :: "rat \<Rightarrow> int \<Rightarrow> ratelimiter" where
  "new_ratelimiter per_second burst_count =
     \<lparr>rl_rate_hz = per_second, rl_burst_count = burst_count, rl_actions = [], rl_timer = new_wheel_timer 5000\<rparr>"

record requester =
  rq_user_id :: string
  rq_authenticated_entity :: string
  rq_app_service_id :: "string option"

text \<open>\<^verbatim>\<open>get_app_service_by_id\<close> (whether the service is rate limited), \<^verbatim>\<open>get_ratelimit_for_user\<close> (the two
  columns of an override), \<^verbatim>\<open>get_app_service_by_user_id\<close> (whether there is one) and the override of the
  module callbacks for this limiter, where callbacks are registered.\<close>

record ratelimit_env =
  env_app_service :: "string \<Rightarrow> bool option"
  env_user_override :: "string \<Rightarrow> (rat option \<times> int) option"
  env_app_service_user :: "string \<Rightarrow> bool"
  env_module_override :: "(string \<Rightarrow> (rat \<times> int) option) option"

definition get_key :: "requester option \<Rightarrow> string option \<Rightarrow> string res" where
  "get_key requester key =
     (case key of
        Some k \<Rightarrow> Inr k
      | None \<Rightarrow> (case requester of None \<Rightarrow> Inl ValueError | Some r \<Rightarrow> Inr (rq_user_id r)))"

definition get_action_counts :: "string \<Rightarrow> rat \<Rightarrow> ratelimiter \<Rightarrow> bucket" where
  "get_action_counts key time_now_s rl = dict_get key (0, time_now_s, rl_rate_hz rl) (rl_actions rl)"

definition record_action_inner :: "string \<Rightarrow> int \<Rightarrow> rat \<Rightarrow> rat \<Rightarrow> rat \<Rightarrow> ratelimiter \<Rightarrow> ratelimiter res" where
  "record_action_inner key action_count time_start rate_hz time_now_s rl =
     (if rate_hz = 0 then Inl ZeroDivisionError
      else
        (let prune_time_s = time_start + of_int action_count / rate_hz
         in if prune_time_s \<le> time_now_s then Inr (rl\<lparr>rl_actions := dict_pop key (rl_actions rl)\<rparr>)
            else
              bindR (wheel_insert (trunc (time_now_s * 1000)) key (trunc ((prune_time_s + 1 / 10) * 1000)) (rl_timer rl))
                (\<lambda>timer. Inr (rl\<lparr>rl_actions := dict_set key (action_count, time_start, rate_hz) (rl_actions rl),
                                 rl_timer := timer\<rparr>))))"

text \<open>The part of \<^verbatim>\<open>can_do_action\<close> after the overrides: the bucket of the key decides.\<close>

definition use_bucket ::
  "string \<Rightarrow> rat \<Rightarrow> int \<Rightarrow> bool \<Rightarrow> int \<Rightarrow> rat \<Rightarrow> ratelimiter \<Rightarrow> ((bool \<times> rat) \<times> ratelimiter) res" where
  "use_bucket key rate_hz burst_count update n_actions time_now_s rl =
     (case get_action_counts key time_now_s rl of (action_count, time_start, _) \<Rightarrow>
       (let performed_count = of_int action_count - (time_now_s - time_start) * rate_hz;
            (performed_count, action_count, time_start) =
              (if performed_count < 0 then (0, 0, time_now_s) else (performed_count, action_count, time_start));
            allowed = (\<not> performed_count > of_int (burst_count - n_actions));
            action_count = (if allowed then action_count + n_actions else action_count)
        in bindR (if allowed \<and> update
                  then record_action_inner key action_count time_start rate_hz time_now_s rl else Inr rl) (\<lambda>rl'.
           Inr ((allowed,
                 if rate_hz > 0
                 then max time_now_s (time_start + of_int (action_count - burst_count + 1) / rate_hz)
                 else -1), rl'))))"

text \<open>Requesters that are never limited: users of an application service that is not rate limited, and
  users whose override has no rate.\<close>

definition exempt :: "ratelimit_env \<Rightarrow> requester \<Rightarrow> bool" where
  "exempt env r \<longleftrightarrow>
     (case rq_app_service_id r of
        Some i \<Rightarrow> i \<noteq> [] \<and> env_app_service env i = Some False
      | None \<Rightarrow> False) \<or>
     (case env_user_override env (rq_authenticated_entity r) of
        Some (rate, burst) \<Rightarrow> rate = None \<or> rate = Some 0
      | None \<Rightarrow> False)"

definition can_do_action ::
  "ratelimit_env \<Rightarrow> requester option \<Rightarrow> string option \<Rightarrow> rat option \<Rightarrow> int option \<Rightarrow> bool \<Rightarrow> int \<Rightarrow> rat \<Rightarrow>
   ratelimiter \<Rightarrow> ((bool \<times> rat) \<times> ratelimiter) res" where
  "can_do_action env requester key rate_hz burst_count update n_actions time_now_s rl =
     bindR (get_key requester key) (\<lambda>key.
     if (case requester of Some r \<Rightarrow> exempt env r | None \<Rightarrow> False) then Inr ((True, -1), rl)
     else
       (let module_override = (case (requester, env_module_override env) of
              (Some r, Some callbacks) \<Rightarrow> callbacks (rq_user_id r)
            | _ \<Rightarrow> None);
            (rate_hz, burst_count) = (case module_override of
              Some (r, b) \<Rightarrow> (Some r, Some b)
            | None \<Rightarrow> (rate_hz, burst_count))
        in use_bucket key (case rate_hz of Some r \<Rightarrow> r | None \<Rightarrow> rl_rate_hz rl)
             (case burst_count of Some b \<Rightarrow> b | None \<Rightarrow> rl_burst_count rl) update n_actions time_now_s rl))"

definition record_action ::
  "requester option \<Rightarrow> string option \<Rightarrow> int \<Rightarrow> rat \<Rightarrow> ratelimiter \<Rightarrow> ratelimiter res" where
  "record_action requester key n_actions time_now_s rl =
     bindR (get_key requester key) (\<lambda>key.
       case get_action_counts key time_now_s rl of (action_count, time_start, rate_hz) \<Rightarrow>
         record_action_inner key (action_count + n_actions) time_start rate_hz time_now_s rl)"

definition prune_key :: "rat \<Rightarrow> string \<Rightarrow> ratelimiter \<Rightarrow> ratelimiter" where
  "prune_key time_now_s key rl =
     (case map_of (rl_actions rl) key of
        None \<Rightarrow> rl
      | Some (action_count, time_start, rate_hz) \<Rightarrow>
          if of_int action_count - (time_now_s - time_start) * rate_hz > 0 then rl
          else rl\<lparr>rl_actions := dict_pop key (rl_actions rl)\<rparr>)"

definition prune_message_counts :: "rat \<Rightarrow> ratelimiter \<Rightarrow> ratelimiter" where
  "prune_message_counts time_now_s rl =
     (case wheel_fetch (trunc (time_now_s * 1000)) (rl_timer rl) of (to_prune, timer) \<Rightarrow>
        fold (prune_key time_now_s) to_prune (rl\<lparr>rl_timer := timer\<rparr>))"

definition ratelimit ::
  "ratelimit_env \<Rightarrow> requester option \<Rightarrow> string option \<Rightarrow> rat option \<Rightarrow> int option \<Rightarrow> bool \<Rightarrow> int \<Rightarrow> rat \<Rightarrow>
   ratelimiter \<Rightarrow> unit res \<times> ratelimiter" where
  "ratelimit env requester key rate_hz burst_count update n_actions time_now_s rl =
     (case can_do_action env requester key rate_hz burst_count update n_actions time_now_s rl of
        Inl e \<Rightarrow> (Inl e, rl)
      | Inr ((allowed, time_allowed), rl') \<Rightarrow>
          (if allowed then Inr () else Inl (LimitExceededError (trunc (1000 * (time_allowed - time_now_s)))), rl'))"

section \<open>Requests of a user\<close>

record request_ratelimiter =
  rr_request :: ratelimiter
  rr_message_per_second :: rat
  rr_message_burst_count :: int
  rr_admin_redaction :: "ratelimiter option"

definition new_request_ratelimiter :: "rat \<Rightarrow> int \<Rightarrow> (rat \<times> int) option \<Rightarrow> request_ratelimiter" where
  "new_request_ratelimiter per_second burst_count rc_admin_redaction =
     \<lparr>rr_request = new_ratelimiter 0 0, rr_message_per_second = per_second,
      rr_message_burst_count = burst_count,
      rr_admin_redaction = map_option (\<lambda>(r, b). new_ratelimiter r b) rc_admin_redaction\<rparr>"

definition request_ratelimit ::
  "ratelimit_env \<Rightarrow> requester \<Rightarrow> bool \<Rightarrow> bool \<Rightarrow> int \<Rightarrow> rat \<Rightarrow> request_ratelimiter \<Rightarrow> unit res \<times> request_ratelimiter" where
  "request_ratelimit env requester update is_admin_redaction n_actions time_now_s rr =
     (let limit = (\<lambda>per_second burst.
            case (is_admin_redaction, rr_admin_redaction rr) of
              (True, Some rl) \<Rightarrow>
                (case ratelimit env (Some requester) None None None update n_actions time_now_s rl of
                   (r, rl') \<Rightarrow> (r, rr\<lparr>rr_admin_redaction := Some rl'\<rparr>))
            | _ \<Rightarrow>
                (case ratelimit env (Some requester) None (Some per_second) (Some burst) update n_actions
                        time_now_s (rr_request rr) of
                   (r, rl') \<Rightarrow> (r, rr\<lparr>rr_request := rl'\<rparr>)))
      in if env_app_service_user env (rq_user_id requester) then (Inr (), rr)
         else case env_user_override env (rq_user_id requester) of
                None \<Rightarrow> limit (rr_message_per_second rr) (rr_message_burst_count rr)
              | Some (rate, burst) \<Rightarrow>
                  (case rate of
                     None \<Rightarrow> (Inr (), rr)
                   | Some r \<Rightarrow> if r = 0 then (Inr (), rr) else limit r burst))"

section \<open>The level of a bucket\<close>

text \<open>What is in the bucket of a key at a time, at the limiter's own rate.\<close>

definition level :: "ratelimiter \<Rightarrow> string \<Rightarrow> rat \<Rightarrow> rat" where
  "level rl key t =
     (case map_of (rl_actions rl) key of
        None \<Rightarrow> 0
      | Some (c, s, r) \<Rightarrow> max 0 (of_int c - (t - s) * rl_rate_hz rl))"

definition rl_ok :: "rat \<Rightarrow> ratelimiter \<Rightarrow> bool" where
  "rl_ok t rl \<longleftrightarrow>
     0 < rl_rate_hz rl \<and> wheel_wf 5000 (trunc (t * 1000)) (rl_timer rl) \<and>
     (\<forall>k c s r. map_of (rl_actions rl) k = Some (c, s, r) \<longrightarrow> r = rl_rate_hz rl)"

lemma level_nonneg: "0 \<le> level rl k t"
  by (simp add: level_def split: option.split)

lemma decay:
  fixes a r :: rat
  assumes "0 \<le> r" "t \<le> u"
  shows "max 0 (a - (u - s) * r) = max 0 (max 0 (a - (t - s) * r) - (u - t) * r)"
proof -
  have "a - (u - s) * r = (a - (t - s) * r) - (u - t) * r" by (simp add: algebra_simps)
  moreover have "0 \<le> (u - t) * r" using assms by simp
  ultimately show ?thesis by linarith
qed

lemma level_leak:
  assumes "0 \<le> rl_rate_hz rl" "t \<le> u"
  shows "level rl k u = max 0 (level rl k t - (u - t) * rl_rate_hz rl)"
  using decay [OF assms] assms by (auto simp: level_def split: option.split)

text \<open>Recording what is in a bucket.\<close>

lemma record_action_inner_ok:
  assumes ok: "rl_ok t rl" and now: "t \<le> now" and r: "r = rl_rate_hz rl"
  shows "\<exists>rl'. record_action_inner key c s r now rl = Inr rl' \<and> rl_ok now rl' \<and>
    rl_rate_hz rl' = rl_rate_hz rl \<and> rl_burst_count rl' = rl_burst_count rl \<and>
    (\<forall>k u. now \<le> u \<longrightarrow> level rl' k u = (if k = key then max 0 (of_int c - (u - s) * r) else level rl k u))"
proof -
  let ?now = "trunc (now * 1000)"
  have pos: "0 < r" using ok r by (simp add: rl_ok_def)
  have tm: "wheel_wf 5000 (trunc (t * 1000)) (rl_timer rl)" "trunc (t * 1000) \<le> ?now"
    using ok now by (auto simp: rl_ok_def intro: trunc_mono)
  have wf_now: "wheel_wf 5000 ?now (rl_timer rl)"
    using tm bucket_key_mono [OF _ tm(2), of 5000] by (auto simp: wheel_wf_def)
  show ?thesis
  proof (cases "s + of_int c / r \<le> now")
    case True
    then have "of_int c \<le> (now - s) * r" using pos by (simp add: field_simps)
    moreover have "(now - s) * r \<le> (u - s) * r" if "now \<le> u" for u using that pos by (intro mult_right_mono) auto
    ultimately have "max 0 (of_int c - (u - s) * r) = 0" if "now \<le> u" for u using that by fastforce
    then show ?thesis
      using True pos ok wf_now by (auto simp: record_action_inner_def rl_ok_def level_def r split: option.splits)
  next
    case False
    obtain timer where "wheel_insert ?now key (trunc ((s + of_int c / r + 1 / 10) * 1000)) (rl_timer rl) = Inr timer"
      "wheel_wf 5000 ?now timer"
      using wheel.put [OF tm] by blast
    then show ?thesis
      using False pos ok by (auto simp: record_action_inner_def Let_def rl_ok_def level_def r split: option.splits)
  qed
qed

text \<open>A request is allowed exactly when it fits in the bucket, and then fills it.\<close>

lemma use_bucket_ok:
  fixes key :: string and n :: int
  assumes ok: "rl_ok t rl" and now: "t \<le> now"
  defines "fits \<equiv> level rl key now + of_int n \<le> of_int (rl_burst_count rl)"
  shows "\<exists>ta rl'. use_bucket key (rl_rate_hz rl) (rl_burst_count rl) update n now rl = Inr ((fits, ta), rl') \<and>
    rl_ok now rl' \<and> rl_rate_hz rl' = rl_rate_hz rl \<and> rl_burst_count rl' = rl_burst_count rl \<and>
    (\<forall>k u. now \<le> u \<longrightarrow> level rl' k u =
      (if k = key \<and> fits \<and> update then max 0 (level rl key now + of_int n - (u - now) * rl_rate_hz rl)
       else level rl k u))"
proof -
  let ?r = "rl_rate_hz rl"
  obtain c s where cs: "get_action_counts key now rl = (c, s, ?r)"
    and lv: "level rl key now = max 0 (of_int c - (now - s) * ?r)"
    using ok by (cases "map_of (rl_actions rl) key")
      (auto simp: get_action_counts_def dict_get_def level_def rl_ok_def)
  let ?p = "of_int c - (now - s) * ?r"
  define c' where "c' = (if ?p < 0 then 0 else c)"
  define s' where "s' = (if ?p < 0 then now else s)"
  have p': "of_int c' - (now - s') * ?r = level rl key now" by (simp add: c'_def s'_def lv)
  have eq: "use_bucket key ?r (rl_burst_count rl) update n now rl =
      bindR (if fits \<and> update then record_action_inner key (c' + n) s' ?r now rl else Inr rl) (\<lambda>rl'.
        Inr ((fits, if ?r > 0 then max now (s' + of_int ((if fits then c' + n else c') - rl_burst_count rl + 1) / ?r) else -1), rl'))"
    using lv by (simp add: use_bucket_def cs fits_def c'_def s'_def Let_def algebra_simps max_def)
  have ok_now: "rl_ok now rl"
    using ok trunc_mono [of "t * 1000" "now * 1000"] now bucket_key_mono [of 5000 "trunc (t * 1000)" "trunc (now * 1000)"]
    by (auto simp: rl_ok_def wheel_wf_def)
  have lvl: "of_int c' + of_int n - (u - s') * ?r = level rl key now + of_int n - (u - now) * ?r" for u
    using p' by (simp add: algebra_simps)
  obtain rl' where "record_action_inner key (c' + n) s' ?r now rl = Inr rl'" "rl_ok now rl'"
    "rl_rate_hz rl' = ?r" "rl_burst_count rl' = rl_burst_count rl"
    "\<forall>k u. now \<le> u \<longrightarrow> level rl' k u =
      (if k = key then max 0 (level rl key now + of_int n - (u - now) * ?r) else level rl k u)"
    using record_action_inner_ok [OF ok now refl, of key "c' + n" s'] by (auto simp: lvl)
  then show ?thesis unfolding eq using ok_now by (cases "fits \<and> update") auto
qed


lemma prune_key_frame:
  "rl_rate_hz (prune_key now k rl) = rl_rate_hz rl" "rl_burst_count (prune_key now k rl) = rl_burst_count rl"
  "rl_timer (prune_key now k rl) = rl_timer rl"
  by (auto simp: prune_key_def split: option.split)

lemma prune_key_ok:
  assumes ok: "rl_ok now rl"
  shows "rl_ok now (prune_key now key rl)" "now \<le> u \<Longrightarrow> level (prune_key now key rl) k u = level rl k u"
proof -
  have "prune_key now key rl = rl \<or> prune_key now key rl = rl\<lparr>rl_actions := dict_pop key (rl_actions rl)\<rparr>"
    by (simp add: prune_key_def split: option.split)
  moreover have "rl_ok now (rl\<lparr>rl_actions := dict_pop key (rl_actions rl)\<rparr>)" using ok by (auto simp: rl_ok_def)
  ultimately show "rl_ok now (prune_key now key rl)" using ok by metis
  show "level (prune_key now key rl) k u = level rl k u" if u: "now \<le> u"
  proof (cases "map_of (rl_actions rl) key")
    case (Some b)
    obtain c s r where b: "b = (c, s, r)" by (cases b)
    have r: "r = rl_rate_hz rl" "0 < rl_rate_hz rl" using ok Some by (auto simp: rl_ok_def b)
    have "level rl key u = 0" if "\<not> of_int c - (now - s) * r > 0"
    proof -
      have "level rl key now = 0" using that by (simp add: level_def Some b r)
      then show ?thesis using level_leak [of rl now u key] u r by simp
    qed
    then show ?thesis using Some b by (auto simp: prune_key_def level_def split: option.splits)
  qed (simp add: prune_key_def)
qed

text \<open>Pruning changes no level, whatever the timer returns.\<close>

lemma prune_ok:
  assumes ok: "rl_ok t rl" and now: "t \<le> now"
  shows "rl_ok now (prune_message_counts now rl) \<and>
    rl_rate_hz (prune_message_counts now rl) = rl_rate_hz rl \<and>
    rl_burst_count (prune_message_counts now rl) = rl_burst_count rl \<and>
    (\<forall>k u. now \<le> u \<longrightarrow> level (prune_message_counts now rl) k u = level rl k u)"
proof -
  obtain ks timer where f: "wheel_fetch (trunc (now * 1000)) (rl_timer rl) = (ks, timer)"
    by (cases "wheel_fetch (trunc (now * 1000)) (rl_timer rl)")
  have "wheel_wf 5000 (trunc (now * 1000)) timer"
    using wheel.take_due [of 5000 "trunc (t * 1000)" "rl_timer rl" "trunc (now * 1000)"]
      trunc_mono [of "t * 1000" "now * 1000"] ok now f by (simp add: rl_ok_def)
  then have ok1: "rl_ok now (rl\<lparr>rl_timer := timer\<rparr>)" using ok by (simp add: rl_ok_def)
  have "rl_ok now rl1 \<Longrightarrow> rl_ok now (fold (prune_key now) ks rl1) \<and>
      rl_rate_hz (fold (prune_key now) ks rl1) = rl_rate_hz rl1 \<and>
      rl_burst_count (fold (prune_key now) ks rl1) = rl_burst_count rl1 \<and>
      (\<forall>k u. now \<le> u \<longrightarrow> level (fold (prune_key now) ks rl1) k u = level rl1 k u)" for rl1
    by (induction ks arbitrary: rl1) (simp_all add: prune_key_ok prune_key_frame)
  moreover have "level (rl\<lparr>rl_timer := timer\<rparr>) k u = level rl k u" for k u
    by (simp add: level_def cong: option.case_cong)
  ultimately show ?thesis using ok1 by (simp add: prune_message_counts_def f)
qed

section \<open>The limiter implements a leaky bucket per key\<close>

text \<open>A request for a key at a time, or the periodic cleanup. Requests name no requester and use the
  limiter's own rate and burst.\<close>

datatype limiter_op = Request rat string int | Prune rat

fun limiter_time :: "limiter_op \<Rightarrow> rat" where
  "limiter_time (Request t k n) = t"
| "limiter_time (Prune t) = t"

fun run_limiter ::
  "ratelimit_env \<Rightarrow> limiter_op list \<Rightarrow> ratelimiter \<Rightarrow> ((rat \<times> string \<times> int \<times> bool) list \<times> ratelimiter) res" where
  "run_limiter env [] rl = Inr ([], rl)"
| "run_limiter env (Request t k n # ops) rl =
     bindR (can_do_action env None (Some k) None None True n t rl) (\<lambda>((allowed, ta), rl').
     bindR (run_limiter env ops rl') (\<lambda>(log, rl''). Inr ((t, k, n, allowed) # log, rl'')))"
| "run_limiter env (Prune t # ops) rl = run_limiter env ops (prune_message_counts t rl)"

text \<open>The specification: the level of every bucket falls at the rate, a request that fits is added.\<close>

fun bucket_run :: "rat \<Rightarrow> int \<Rightarrow> limiter_op list \<Rightarrow> rat \<Rightarrow> (string \<Rightarrow> rat) \<Rightarrow> (rat \<times> string \<times> int \<times> bool) list" where
  "bucket_run r b [] t L = []"
| "bucket_run r b (Prune u # ops) t L = bucket_run r b ops u (\<lambda>k. max 0 (L k - (u - t) * r))"
| "bucket_run r b (Request u k n # ops) t L =
     (let L' = (\<lambda>k. max 0 (L k - (u - t) * r)); fits = (L' k + of_int n \<le> of_int b)
      in (u, k, n, fits) # bucket_run r b ops u (if fits then L'(k := L' k + of_int n) else L'))"

fun positive_request :: "limiter_op \<Rightarrow> bool" where
  "positive_request (Request t k n) = (0 \<le> n)"
| "positive_request (Prune t) = True"

lemma can_do_own: "can_do_action env None (Some k) None None u n t rl =
    use_bucket k (rl_rate_hz rl) (rl_burst_count rl) u n t rl"
  by (simp add: can_do_action_def get_key_def)

lemma run_limiter_refines:
  "rl_ok t rl \<Longrightarrow> sorted (t # map limiter_time ops) \<Longrightarrow> \<forall>op \<in> set ops. positive_request op \<Longrightarrow>
   \<exists>rl'. run_limiter env ops rl =
       Inr (bucket_run (rl_rate_hz rl) (rl_burst_count rl) ops t (\<lambda>k. level rl k t), rl') \<and>
     rl_ok (if ops = [] then t else limiter_time (last ops)) rl' \<and> rl_rate_hz rl' = rl_rate_hz rl \<and>
     rl_burst_count rl' = rl_burst_count rl"
proof (induction ops arbitrary: t rl)
  case (Cons op ops)
  let ?u = "limiter_time op" and ?r = "rl_rate_hz rl"
  have u: "t \<le> ?u" "sorted (?u # map limiter_time ops)" using Cons.prems(2) by auto
  have leak: "level rl k ?u = max 0 (level rl k t - (?u - t) * ?r)" for k
    using level_leak [OF _ u(1)] Cons.prems(1) by (simp add: rl_ok_def)
  show ?case
  proof (cases op)
    case (Prune v)
    note p = prune_ok [OF Cons.prems(1) u(1)]
    have "(\<lambda>k. level (prune_message_counts ?u rl) k ?u) = (\<lambda>k. max 0 (level rl k t - (?u - t) * ?r))"
      using p leak by (simp add: fun_eq_iff)
    then show ?thesis using Cons.IH [of ?u "prune_message_counts ?u rl"] p u(2) Cons.prems(3) Prune
      by (auto split: if_splits)
  next
    case (Request v k n)
    let ?fits = "level rl k ?u + of_int n \<le> of_int (rl_burst_count rl)"
    obtain ta rl1 where b: "use_bucket k ?r (rl_burst_count rl) True n ?u rl = Inr ((?fits, ta), rl1)" "rl_ok ?u rl1"
      "rl_rate_hz rl1 = ?r" "rl_burst_count rl1 = rl_burst_count rl"
      "\<forall>k' w. ?u \<le> w \<longrightarrow> level rl1 k' w =
        (if k' = k \<and> ?fits \<and> True then max 0 (level rl k ?u + of_int n - (w - ?u) * ?r) else level rl k' w)"
      using use_bucket_ok [OF Cons.prems(1) u(1)] by blast
    have "0 \<le> n" using Cons.prems(3) by (simp add: Request)
    then have "(\<lambda>k'. level rl1 k' ?u) = (if ?fits then (\<lambda>k. level rl k ?u)(k := level rl k ?u + of_int n) else (\<lambda>k. level rl k ?u))"
      using b(5) level_nonneg [of rl k ?u] by (auto simp: fun_eq_iff max_def)
    moreover have "(\<lambda>k. max 0 (level rl k t - (?u - t) * ?r)) = (\<lambda>k. level rl k ?u)" using leak by simp
    ultimately show ?thesis
      using Cons.IH [OF b(2) u(2)] Cons.prems(3) b(1,3,4) Request
      by (auto simp: can_do_own Let_def split: if_splits)
  qed
qed simp


lemma new_ratelimiter_ok: "0 < r \<Longrightarrow> rl_ok t (new_ratelimiter r b)" "level (new_ratelimiter r b) k t = 0"
  by (simp_all add: rl_ok_def new_ratelimiter_def wheel_wf_def new_wheel_timer_def consecutive_def level_def)

text \<open>C31: with a positive rate the limiter answers any sequence of requests in the order of time exactly as
  a leaky bucket for each key does: a request is allowed if and only if it fits in what is left of the
  burst after the bucket has leaked at the rate. The periodic cleanup and the timer that drives it have
  no influence on the answers, and nothing raises.\<close>

theorem ratelimiter_is_leaky_bucket:
  assumes "0 < r" "sorted (t0 # map limiter_time ops)" "\<forall>op \<in> set ops. positive_request op"
  shows "\<exists>rl. run_limiter env ops (new_ratelimiter r b) = Inr (bucket_run r b ops t0 (\<lambda>_. 0), rl)"
  using run_limiter_refines [OF new_ratelimiter_ok(1) [OF assms(1)] assms(2,3), of env b]
  by (simp add: new_ratelimiter_ok(2)) (auto simp: new_ratelimiter_def)

definition no_overrides :: ratelimit_env where
  "no_overrides = \<lparr>env_app_service = (\<lambda>_. None), env_user_override = (\<lambda>_. None),
     env_app_service_user = (\<lambda>_. False), env_module_override = None\<rparr>"

definition example_requests :: "limiter_op list" where
  "example_requests = [Request 0 ''a'' 2, Request 1 ''a'' 1, Request 2 ''b'' 1, Prune 15, Request 16 ''a'' 2]"

lemma ratelimiter_is_leaky_bucket_witness:
  "\<exists>rl. run_limiter no_overrides example_requests (new_ratelimiter (1 / 10) 2) =
     Inr ([(0, ''a'', 2, True), (1, ''a'', 1, False), (2, ''b'', 1, True), (16, ''a'', 2, False)], rl)"
proof -
  have "sorted (0 # map limiter_time example_requests)" "\<forall>op \<in> set example_requests. positive_request op"
    by (simp_all add: example_requests_def)
  moreover have "bucket_run (1 / 10) 2 example_requests 0 (\<lambda>_. 0) =
      [(0, ''a'', 2, True), (1, ''a'', 1, False), (2, ''b'', 1, True), (16, ''a'', 2, False)]"
    by (simp add: example_requests_def Let_def)
  ultimately show ?thesis
    using ratelimiter_is_leaky_bucket [of "1 / 10" 0 example_requests no_overrides 2] by simp
qed

section \<open>What a key can do in a stretch of time\<close>

text \<open>The actions that were allowed for a key.\<close>

fun granted :: "string \<Rightarrow> (rat \<times> string \<times> int \<times> bool) list \<Rightarrow> int" where
  "granted key [] = 0"
| "granted key ((t, k, n, allowed) # lg) = (if k = key \<and> allowed then n else 0) + granted key lg"

lemma bucket_run_granted:
  assumes "0 \<le> r" "sorted (t # map limiter_time ops)" "\<forall>op \<in> set ops. limiter_time op \<le> t2" "t \<le> t2"
    and "\<forall>op \<in> set ops. positive_request op" "\<forall>k. 0 \<le> L k \<and> L k \<le> of_int b"
  shows "of_int (granted key (bucket_run r b ops t L)) \<le> of_int b - L key + r * (t2 - t)"
  using assms(2-)
proof (induction ops arbitrary: t L)
  case Nil
  then have "0 \<le> r * (t2 - t)" using assms(1) by simp
  then show ?case using Nil(5) [rule_format, of key] by simp
next
  case (Cons op ops)
  let ?u = "limiter_time op"
  let ?L = "\<lambda>k. max 0 (L k - (?u - t) * r)"
  have u: "t \<le> ?u" "sorted (?u # map limiter_time ops)" "?u \<le> t2" using Cons.prems(1,2) by auto
  have d: "0 \<le> (?u - t) * r" using u(1) assms(1) by simp
  have L': "\<forall>k. 0 \<le> ?L k \<and> ?L k \<le> of_int b" using Cons.prems(5) d by (auto simp: max_def) (metis diff_left_mono diff_zero order_trans)
  have step: "of_int (granted key (bucket_run r b ops ?u M)) \<le> of_int b - M key + r * (t2 - ?u)"
    if "\<forall>k. 0 \<le> M k \<and> M k \<le> of_int b" for M
    using Cons.IH [OF u(2) _ u(3) _ that] Cons.prems(2,4) by simp
  have key: "L key \<le> ?L key + (?u - t) * r" by simp
  have tm: "r * (t2 - t) = r * (t2 - ?u) + (?u - t) * r" by (simp add: algebra_simps)
  show ?case
  proof (cases op)
    case (Prune v)
    then show ?thesis using step [OF L'] key tm by simp
  next
    case (Request v k n)
    let ?fits = "?L k + of_int n \<le> of_int b"
    define M where "M = (if ?fits then ?L(k := ?L k + of_int n) else ?L)"
    have n: "0 \<le> n" using Cons.prems(4) by (simp add: Request)
    have M: "\<forall>k. 0 \<le> M k \<and> M k \<le> of_int b" using L' n by (auto simp: M_def add_nonneg_nonneg)
    define a where "a = (if k = key \<and> ?fits then n else 0)"
    have "of_int (granted key (bucket_run r b (op # ops) t L)) =
        (of_int a + of_int (granted key (bucket_run r b ops ?u M)) :: rat)"
      by (simp add: Request Let_def M_def a_def)
    moreover have "M key = ?L key + of_int a" by (auto simp: M_def a_def)
    ultimately show ?thesis using step [OF M] key tm by linarith
  qed
qed

lemma level_bounded:
  assumes "rl_ok t rl" "sorted (t # map limiter_time ops)" "\<forall>op \<in> set ops. positive_request op"
    and "\<forall>k u. t \<le> u \<longrightarrow> level rl k u \<le> of_int (rl_burst_count rl)" "run_limiter env ops rl = Inr (lg, rl')"
  shows "\<forall>k u. (if ops = [] then t else limiter_time (last ops)) \<le> u \<longrightarrow> level rl' k u \<le> of_int (rl_burst_count rl)"
  using assms
proof (induction ops arbitrary: t rl lg)
  case (Cons op ops)
  let ?u = "limiter_time op"
  have u: "t \<le> ?u" "sorted (?u # map limiter_time ops)" using Cons.prems(2) by auto
  have "\<exists>log1 rl1. rl_ok ?u rl1 \<and> rl_burst_count rl1 = rl_burst_count rl \<and> run_limiter env ops rl1 = Inr (log1, rl') \<and>
      (\<forall>k w. ?u \<le> w \<longrightarrow> level rl1 k w \<le> of_int (rl_burst_count rl))"
  proof (cases op)
    case (Prune v)
    then show ?thesis using prune_ok [OF Cons.prems(1) u(1)] Cons.prems(4,5) u(1)
      by (intro exI [of _ lg] exI [of _ "prune_message_counts ?u rl"]) auto
  next
    case (Request v k n)
    let ?fits = "level rl k ?u + of_int n \<le> of_int (rl_burst_count rl)"
    obtain ta rl1 where b: "use_bucket k (rl_rate_hz rl) (rl_burst_count rl) True n ?u rl = Inr ((?fits, ta), rl1)" "rl_ok ?u rl1"
      "rl_burst_count rl1 = rl_burst_count rl"
      "\<forall>k' w. ?u \<le> w \<longrightarrow> level rl1 k' w =
        (if k' = k \<and> ?fits \<and> True then max 0 (level rl k ?u + of_int n - (w - ?u) * rl_rate_hz rl) else level rl k' w)"
      using use_bucket_ok [OF Cons.prems(1) u(1)] by blast
    have "0 \<le> (w - ?u) * rl_rate_hz rl" if "?u \<le> w" for w using that Cons.prems(1) by (simp add: rl_ok_def)
    then have "level rl1 k' w \<le> of_int (rl_burst_count rl)" if "?u \<le> w" for k' w
      using b(4) that Cons.prems(3,4) u(1) level_nonneg [of rl k ?u] by (fastforce simp: Request max_def)
    moreover obtain log1 where "run_limiter env ops rl1 = Inr (log1, rl')"
      using Cons.prems(5) b(1) by (auto simp: Request can_do_own bindR_eq_Inr)
    ultimately show ?thesis using b(2,3) by blast
  qed
  then obtain lg1 rl1 where r1: "rl_ok ?u rl1" "rl_burst_count rl1 = rl_burst_count rl"
    "run_limiter env ops rl1 = Inr (lg1, rl')" "\<forall>k w. ?u \<le> w \<longrightarrow> level rl1 k w \<le> of_int (rl_burst_count rl)"
    by blast
  have "\<forall>op \<in> set ops. positive_request op" using Cons.prems(3) by simp
  from Cons.IH [OF r1(1) u(2) this _ r1(3)] r1(2,4) show ?case by (auto split: if_splits)
qed simp


lemma sorted_start: "sorted (map f xs) \<Longrightarrow> sorted ((if xs = [] then d else f (hd xs)) # map f xs)"
  for f :: "'a \<Rightarrow> rat"
  by (cases xs) auto

text \<open>Whatever happened before, the actions that the limiter allows for a key within a stretch of time
  are at most its burst count plus what the rate gives in that time.\<close>

lemma ratelimiter_window_bound:
  assumes r: "0 < r" and b: "0 \<le> b" and t: "sorted (map limiter_time (before @ during))"
    and pos: "\<forall>op \<in> set (before @ during). positive_request op"
    and window: "\<forall>op \<in> set during. t1 \<le> limiter_time op \<and> limiter_time op \<le> t2"
    and t1: "\<forall>op \<in> set before. limiter_time op \<le> t1" "t1 \<le> t2"
  shows "\<exists>log1 rl1 log2 rl2. run_limiter env before (new_ratelimiter r b) = Inr (log1, rl1) \<and>
    run_limiter env during rl1 = Inr (log2, rl2) \<and>
    of_int (granted key log2) \<le> of_int b + r * (t2 - t1)"
proof -
  let ?start = "if before = [] then t1 else limiter_time (hd before)"
  let ?clk = "if before = [] then ?start else limiter_time (last before)"
  have s: "sorted (?start # map limiter_time before)" "?clk \<le> t1" "sorted (t1 # map limiter_time during)"
    using t t1 window sorted_start [of limiter_time before t1] by (simp_all add: sorted_append)
  have pb: "\<forall>op \<in> set before. positive_request op" and pd: "\<forall>op \<in> set during. positive_request op" using pos by auto
  note ok0 = new_ratelimiter_ok(1) [OF r, of ?start b]
  obtain log1 rl1 where r1: "run_limiter env before (new_ratelimiter r b) = Inr (log1, rl1)"
    "rl_ok ?clk rl1" "rl_rate_hz rl1 = r" "rl_burst_count rl1 = b"
    using run_limiter_refines [OF ok0 s(1) pb, of env] by (auto simp: new_ratelimiter_def)
  have "\<forall>k u. ?clk \<le> u \<longrightarrow> level rl1 k u \<le> of_int b"
    using level_bounded [OF ok0 s(1) pb _ r1(1)] b by (simp add: new_ratelimiter_ok(2)) (simp add: new_ratelimiter_def)
  then have L: "\<forall>k. 0 \<le> level rl1 k t1 \<and> level rl1 k t1 \<le> of_int b" using s(2) level_nonneg by auto
  have "rl_ok t1 rl1"
    using r1(2) trunc_mono [of "?clk * 1000" "t1 * 1000"] s(2) bucket_key_mono [of 5000 "trunc (?clk * 1000)" "trunc (t1 * 1000)"]
    by (auto simp: rl_ok_def wheel_wf_def split: if_splits)
  then obtain rl2 where "run_limiter env during rl1 = Inr (bucket_run r b during t1 (\<lambda>k. level rl1 k t1), rl2)"
    using run_limiter_refines [OF _ s(3) pd] r1(3,4) by blast
  moreover have "of_int (granted key (bucket_run r b during t1 (\<lambda>k. level rl1 k t1))) \<le>
      of_int b - level rl1 key t1 + r * (t2 - t1)"
    using bucket_run_granted [OF _ s(3) _ t1(2) pd L] r window by simp
  ultimately show ?thesis using r1(1) L [rule_format, of key] by force
qed

lemma ratelimiter_window_bound_witness:
  "\<exists>log1 rl1 log2 rl2. run_limiter no_overrides [Request 0 ''a'' 2, Request 1 ''a'' 1] (new_ratelimiter (1 / 10) 2) =
      Inr (log1, rl1) \<and>
    run_limiter no_overrides [Request 12 ''a'' 1, Prune 15, Request 22 ''a'' 1] rl1 = Inr (log2, rl2) \<and>
    of_int (granted ''a'' log2) \<le> (3 :: rat)"
  using ratelimiter_window_bound [of "1 / 10" 2 "[Request 0 ''a'' 2, Request 1 ''a'' 1]"
      "[Request 12 ''a'' 1, Prune 15, Request 22 ''a'' 1]" 12 22 no_overrides "''a''"] by simp

section \<open>When to try again\<close>

lemma use_bucket_denied:
  assumes "use_bucket key r b upd n now rl = Inr ((False, ta), rl')"
  shows "rl' = rl"
  using assms by (auto simp: use_bucket_def Let_def bindR_eq_Inr split: prod.splits if_splits)

lemma use_bucket_time_denied:
  assumes ok: "rl_ok t rl" and now: "t \<le> now"
    and den: "use_bucket key (rl_rate_hz rl) (rl_burst_count rl) upd 1 now rl = Inr ((False, ta), rl')"
    and b: "1 \<le> rl_burst_count rl"
  shows "ta = now + (level rl key now + 1 - of_int (rl_burst_count rl)) / rl_rate_hz rl"
    "of_int (rl_burst_count rl) < level rl key now + 1"
proof -
  let ?r = "rl_rate_hz rl"
  have r: "0 < ?r" using ok by (simp add: rl_ok_def)
  obtain ta' rl'' where "use_bucket key ?r (rl_burst_count rl) upd 1 now rl =
      Inr ((level rl key now + of_int 1 \<le> of_int (rl_burst_count rl), ta'), rl'')"
    using use_bucket_ok [OF ok now, of key upd 1] by blast
  then show l: "of_int (rl_burst_count rl) < level rl key now + 1" using den by auto
  have "(1 :: rat) \<le> of_int (rl_burst_count rl)" using b by simp
  then have full: "0 < level rl key now" using l by linarith
  obtain c s where cs: "map_of (rl_actions rl) key = Some (c, s, ?r)"
    using ok full by (cases "map_of (rl_actions rl) key") (auto simp: level_def rl_ok_def)
  have lv: "level rl key now = of_int c - (now - s) * ?r" using full by (auto simp: level_def cs max_def split: if_splits)
  have "ta = max now (s + of_int (c - rl_burst_count rl + 1) / ?r)"
    using den full lv r by (auto simp: use_bucket_def get_action_counts_def dict_get_def cs Let_def bindR_eq_Inr
        split: if_splits)
  moreover have "s + of_int (c - rl_burst_count rl + 1) / ?r =
      now + (level rl key now + 1 - of_int (rl_burst_count rl)) / ?r"
    using r by (simp add: lv field_simps)
  moreover have "0 \<le> (level rl key now + 1 - of_int (rl_burst_count rl)) / ?r" using l r by simp
  ultimately show "ta = now + (level rl key now + 1 - of_int (rl_burst_count rl)) / ?r" by simp
qed

text \<open>When a single action is denied, nothing is recorded, and the time that the limiter returns is the
  exact moment from which the action is allowed: it lies in the future, every attempt before it would be
  denied and every attempt from it on allowed, as long as the key is not used otherwise. The error of
  \<^verbatim>\<open>ratelimit\<close> carries the distance to it in milliseconds.\<close>

lemma retry_time_exact:
  assumes r: "0 < r" and b: "1 \<le> b" and t: "sorted (map limiter_time ops @ [now])"
    and pos: "\<forall>op \<in> set ops. positive_request op"
    and run: "run_limiter env ops (new_ratelimiter r b) = Inr (lg, rl)"
    and denied: "can_do_action env None (Some key) None None upd 1 now rl = Inr ((False, ta), rl')"
  shows "rl' = rl \<and> now < ta \<and>
    (\<forall>u \<ge> now. \<exists>ta' rl''. can_do_action env None (Some key) None None upd 1 u rl = Inr ((ta \<le> u, ta'), rl'')) \<and>
    ratelimit env None (Some key) None None upd 1 now rl = (Inl (LimitExceededError (trunc (1000 * (ta - now)))), rl)"
proof -
  let ?start = "if ops = [] then now else limiter_time (hd ops)"
  let ?clk = "if ops = [] then ?start else limiter_time (last ops)"
  have s: "sorted (?start # map limiter_time ops)" "?clk \<le> now"
    using t sorted_start [of limiter_time ops now] by (simp_all add: sorted_append)
  have ok: "rl_ok ?clk rl" "rl_rate_hz rl = r" "rl_burst_count rl = b"
    using run_limiter_refines [OF new_ratelimiter_ok(1) [OF r] s(1) pos, of env b] run
    by (auto simp: new_ratelimiter_def)
  have den: "use_bucket key (rl_rate_hz rl) (rl_burst_count rl) upd 1 now rl = Inr ((False, ta), rl')"
    using denied by (simp add: can_do_own)
  have eq: "rl' = rl" using den by (rule use_bucket_denied)
  have ta: "ta = now + (level rl key now + 1 - of_int b) / r" "of_int b < level rl key now + 1"
    using use_bucket_time_denied [OF ok(1) s(2) den] b ok(2,3) by simp_all
  have "level rl key u + 1 \<le> of_int b \<longleftrightarrow> ta \<le> u" if "now \<le> u" for u
  proof -
    have "level rl key u = max 0 (level rl key now - (u - now) * r)"
      using level_leak [of rl now u key] that r ok(2) by simp
    moreover have "ta \<le> u \<longleftrightarrow> level rl key now + 1 - of_int b \<le> (u - now) * r"
      using r by (simp add: ta(1) field_simps)
    moreover have "(1 :: rat) \<le> of_int b" using b by simp
    ultimately show ?thesis by linarith
  qed
  then have "\<exists>ta' rl''. can_do_action env None (Some key) None None upd 1 u rl = Inr ((ta \<le> u, ta'), rl'')"
    if "now \<le> u" for u
    using use_bucket_ok [OF ok(1), of u key upd 1] that s(2) ok(2,3) by (auto simp: can_do_own)
  moreover have "now < ta" using ta r by simp
  ultimately show ?thesis using denied eq by (simp add: ratelimit_def)
qed


definition example_limiter :: ratelimiter where
  "example_limiter = (new_ratelimiter (1 / 10) 2)\<lparr>rl_actions := [(''a'', 2, 0, 1 / 10)],
     rl_timer := \<lparr>wt_bucket_size = 5000, wt_entries =
       map (\<lambda>k. \<lparr>we_end_key = k, we_elements = (if k = 5 then [''a''] else [])\<rparr>) [1, 2, 3, 4, 5]\<rparr>\<rparr>"

lemma example_limiter_run:
  "run_limiter no_overrides [Request 0 ''a'' 2] (new_ratelimiter (1 / 10) 2) = Inr ([(0, ''a'', 2, True)], example_limiter)"
  by (simp add: can_do_own use_bucket_def get_action_counts_def dict_get_def new_ratelimiter_def Let_def
      record_action_inner_def wheel_insert_def new_wheel_timer_def bucket_key_def trunc_def update_entry_def
      add_element_def example_limiter_def upto_rec1)

lemma retry_time_exact_witness:
  "can_do_action no_overrides None (Some ''a'') None None True 1 1 example_limiter =
     Inr ((False, 10), example_limiter) \<and>
   (\<exists>ta' rl''. can_do_action no_overrides None (Some ''a'') None None True 1 10 example_limiter = Inr ((True, ta'), rl''))"
proof -
  have d: "can_do_action no_overrides None (Some ''a'') None None True 1 1 example_limiter =
      Inr ((False, 10), example_limiter)"
    by (simp add: can_do_own use_bucket_def get_action_counts_def dict_get_def example_limiter_def
        new_ratelimiter_def Let_def)
  have "\<forall>u \<ge> 1. \<exists>ta' rl''. can_do_action no_overrides None (Some ''a'') None None True 1 u example_limiter =
      Inr ((10 \<le> u, ta'), rl'')"
    using retry_time_exact [OF _ _ _ _ example_limiter_run d] by simp
  from this [rule_format, of 10] show ?thesis using d by simp
qed

section \<open>Limits of the arithmetic\<close>

text \<open>With the rate 0, which the returned time provides for, a request that is allowed and recorded divides
  by the rate.\<close>

lemma zero_rate_raises:
  "map_of (rl_actions rl) key = None \<Longrightarrow> 0 \<le> n \<Longrightarrow> n \<le> burst \<Longrightarrow>
   can_do_action env None (Some key) (Some 0) (Some burst) True n now rl = Inl ZeroDivisionError"
  by (simp add: can_do_action_def get_key_def use_bucket_def get_action_counts_def dict_get_def Let_def
      record_action_inner_def)


end
