(* ===== verification/Presence.thy ===== *)
theory Presence
  imports Wheel_Timer Overlay_Map Ids
begin

text \<open>
  Presence, \<^verbatim>\<open>synapse/handlers/presence.py\<close> with the records of \<^verbatim>\<open>synapse/api/presence.py\<close>: the state of
  each user from the states of their devices, the timers that make a silent user idle and offline, and
  what of a change is persisted and sent. One definition is one operation of \<^verbatim>\<open>PresenceHandler\<close>; it runs
  at a time \<open>now\<close> and is not interrupted. What the handler persists and sends is part of its result.
  The rows of the presence table that it looks up are the argument \<open>db\<close>. The fields of an incoming
  update have the types of the specification.
\<close>

section \<open>Data\<close>

abbreviation "P_OFFLINE \<equiv> ''offline''"
abbreviation "P_UNAVAILABLE \<equiv> ''unavailable''"
abbreviation "P_ONLINE \<equiv> ''online''"
abbreviation "P_BUSY \<equiv> ''org.matrix.msc3026.busy''"

abbreviation "BUSY_ONLINE_TIMEOUT \<equiv> (60 * 60 * 1000 :: int)"
abbreviation "FEDERATION_TIMEOUT \<equiv> (30 * 60 * 1000 :: int)"
abbreviation "FEDERATION_PING_INTERVAL \<equiv> (25 * 60 * 1000 :: int)"
abbreviation "EXTERNAL_PROCESS_EXPIRY \<equiv> (5 * 60 * 1000 :: int)"

record device_presence =
  dp_user_id :: string
  dp_device_id :: "string option"
  dp_state :: string
  dp_last_active_ts :: int
  dp_last_sync_ts :: int

record user_presence =
  ps_user_id :: string
  ps_state :: string
  ps_last_active_ts :: int
  ps_last_federation_update_ts :: int
  ps_last_user_sync_ts :: int
  ps_status_msg :: "string option"
  ps_currently_active :: bool

definition default_device :: "string \<Rightarrow> string option \<Rightarrow> device_presence" where
  "default_device user_id device_id = \<lparr>dp_user_id = user_id, dp_device_id = device_id,
     dp_state = P_OFFLINE, dp_last_active_ts = 0, dp_last_sync_ts = 0\<rparr>"

definition default_presence :: "string \<Rightarrow> user_presence" where
  "default_presence user_id = \<lparr>ps_user_id = user_id, ps_state = P_OFFLINE, ps_last_active_ts = 0,
     ps_last_federation_update_ts = 0, ps_last_user_sync_ts = 0, ps_status_msg = None,
     ps_currently_active = False\<rparr>"

type_synonym devices = "(string option, device_presence) dict"

record presence_config =
  pc_is_mine :: "string \<Rightarrow> bool"
  pc_idle_timer :: int
  pc_sync_online_timeout :: int
  pc_last_active_granularity :: int
  pc_presence_enabled :: bool
  pc_track_presence :: bool
  pc_msc3026_enabled :: bool

definition valid_presence :: "presence_config \<Rightarrow> string list" where
  "valid_presence cfg = [P_ONLINE, P_UNAVAILABLE, P_OFFLINE] @ (if pc_msc3026_enabled cfg then [P_BUSY] else [])"

record presence_handler =
  ph_current_state :: "(string, user_presence) dict"
  ph_devices :: "(string, devices) dict"
  ph_wheel :: "string wheel_timer"
  ph_num_syncs :: "(string \<times> string option, int) dict"
  ph_external_syncs :: "(string, (string \<times> string option) list) dict"
  ph_external_updated :: "(string, int) dict"
  ph_unpersisted :: "string list"

section \<open>Combining devices\<close>

definition presence_priority :: "string \<Rightarrow> int res" where
  "presence_priority s =
     (if s = P_BUSY then Inr 4 else if s = P_ONLINE then Inr 3 else if s = P_UNAVAILABLE then Inr 2
      else if s = P_OFFLINE then Inr 1 else Inl KeyError)"

fun combine_loop :: "string \<Rightarrow> int \<Rightarrow> device_presence list \<Rightarrow> string res" where
  "combine_loop presence last_active_ts [] = Inr presence"
| "combine_loop presence last_active_ts (d # ds) =
     bindR (presence_priority (dp_state d)) (\<lambda>p.
     bindR (presence_priority presence) (\<lambda>q.
       if p > q \<or> p = q \<and> dp_last_active_ts d > last_active_ts
       then combine_loop (dp_state d) (dp_last_active_ts d) ds
       else combine_loop presence last_active_ts ds))"

definition combine_device_states :: "device_presence list \<Rightarrow> string res" where
  "combine_device_states device_states = combine_loop P_OFFLINE (- 1) device_states"

section \<open>Timeouts\<close>

text \<open>The loop over the devices of a user: the devices that stay, and whether anything changed.\<close>

definition idle_device :: "presence_config \<Rightarrow> int \<Rightarrow> device_presence \<Rightarrow> device_presence" where
  "idle_device cfg now d =
     (if dp_state d = P_ONLINE \<and> now - dp_last_active_ts d > pc_idle_timer cfg
      then d\<lparr>dp_state := P_UNAVAILABLE\<rparr> else d)"

definition device_expired ::
  "presence_config \<Rightarrow> (string \<times> string option) set \<Rightarrow> string \<Rightarrow> int \<Rightarrow> string option \<Rightarrow> device_presence \<Rightarrow> bool" where
  "device_expired cfg syncing user_id now device_id d \<longleftrightarrow>
     (user_id, device_id) \<notin> syncing \<and>
     now - max (dp_last_sync_ts d) (dp_last_active_ts d) >
       (if dp_state d = P_BUSY then BUSY_ONLINE_TIMEOUT else pc_sync_online_timeout cfg)"

definition time_out_devices ::
  "presence_config \<Rightarrow> (string \<times> string option) set \<Rightarrow> string \<Rightarrow> int \<Rightarrow> devices \<Rightarrow> devices \<times> bool" where
  "time_out_devices cfg syncing user_id now ds =
     (let idled = map (\<lambda>(i, d). (i, idle_device cfg now d)) ds;
          expired = (\<lambda>(i, d). device_expired cfg syncing user_id now i d)
      in (filter (\<lambda>x. \<not> expired x) idled, idled \<noteq> ds \<or> list_ex expired idled))"

definition handle_timeout ::
  "presence_config \<Rightarrow> user_presence \<Rightarrow> (string \<times> string option) set \<Rightarrow> devices \<Rightarrow> int \<Rightarrow>
   (user_presence option \<times> devices) res" where
  "handle_timeout cfg state syncing ds now =
     (if ps_state state = P_OFFLINE then Inr (None, ds)
      else if pc_is_mine cfg (ps_user_id state) then
        let (ds', device_changed) = time_out_devices cfg syncing (ps_user_id state) now ds in
        bindR (if device_changed then combine_device_states (map snd ds') else Inr (ps_state state)) (\<lambda>new_presence.
        let state' = state\<lparr>ps_state := new_presence\<rparr>;
            changed = (new_presence \<noteq> ps_state state \<or>
              now - ps_last_active_ts state > pc_last_active_granularity cfg \<or>
              now - ps_last_federation_update_ts state > FEDERATION_PING_INTERVAL)
        in Inr (if changed then Some state' else None, ds'))
      else if now - ps_last_federation_update_ts state > FEDERATION_TIMEOUT
      then Inr (Some (state\<lparr>ps_state := P_OFFLINE\<rparr>), ds)
      else Inr (None, ds))"

text \<open>A user without devices gets a fresh dictionary, which is not stored.\<close>

fun handle_timeouts ::
  "presence_config \<Rightarrow> user_presence list \<Rightarrow> (string \<times> string option) set \<Rightarrow> (string, devices) dict \<Rightarrow> int \<Rightarrow>
   (string, user_presence) dict \<Rightarrow> (user_presence list \<times> (string, devices) dict) res" where
  "handle_timeouts cfg [] syncing user_to_devices now changes = Inr (map snd changes, user_to_devices)"
| "handle_timeouts cfg (state # rest) syncing user_to_devices now changes =
     bindR (handle_timeout cfg state syncing (dict_get (ps_user_id state) [] user_to_devices) now) (\<lambda>(new_state, ds).
     handle_timeouts cfg rest syncing
       (if map_of user_to_devices (ps_user_id state) = None then user_to_devices
        else dict_set (ps_user_id state) ds user_to_devices) now
       (case new_state of None \<Rightarrow> changes | Some s \<Rightarrow> dict_set (ps_user_id state) s changes))"

section \<open>Updates\<close>

definition should_notify :: "user_presence \<Rightarrow> user_presence \<Rightarrow> int \<Rightarrow> bool" where
  "should_notify old_state new_state last_active_granularity =
     (if old_state = new_state then False
      else if ps_status_msg old_state \<noteq> ps_status_msg new_state then True
      else if ps_state old_state \<noteq> ps_state new_state then True
      else if ps_state old_state = P_ONLINE then
        (if ps_currently_active new_state \<noteq> ps_currently_active old_state then True
         else ps_last_active_ts new_state - ps_last_active_ts old_state > last_active_granularity \<and>
              \<not> ps_currently_active new_state)
      else ps_last_active_ts new_state - ps_last_active_ts old_state > last_active_granularity)"

text \<open>\<^verbatim>\<open>if cond: wheel_timer.insert(now, user_id, then)\<close>.\<close>

definition insert_if :: "bool \<Rightarrow> int \<Rightarrow> string \<Rightarrow> int \<Rightarrow> string wheel_timer \<Rightarrow> string wheel_timer res" where
  "insert_if b now user_id due w = (if b then wheel_insert now user_id due w else Inr w)"

definition handle_update ::
  "presence_config \<Rightarrow> user_presence \<Rightarrow> user_presence \<Rightarrow> string wheel_timer \<Rightarrow> int \<Rightarrow> bool \<Rightarrow>
   (user_presence \<times> bool \<times> bool \<times> string wheel_timer) res" where
  "handle_update cfg prev_state new_state w now persist =
     (let user_id = ps_user_id new_state;
          is_online = ps_state new_state = P_ONLINE;
          not_offline = ps_state new_state \<noteq> P_OFFLINE;
          active = now - ps_last_active_ts new_state < pc_last_active_granularity cfg;
          ping = now - ps_last_federation_update_ts new_state > FEDERATION_PING_INTERVAL
      in bindR
        (if pc_is_mine cfg user_id then
           bindR (insert_if (is_online \<and> \<not> persist) now user_id
              (ps_last_active_ts new_state + pc_idle_timer cfg) w) (\<lambda>w.
           bindR (insert_if (is_online \<and> active \<and> \<not> persist) now user_id
              (ps_last_active_ts new_state + pc_last_active_granularity cfg) w) (\<lambda>w.
           bindR (insert_if (not_offline \<and> \<not> persist) now user_id
              (ps_last_user_sync_ts new_state + pc_sync_online_timeout cfg) w) (\<lambda>w.
           bindR (insert_if (ps_state new_state = P_BUSY \<and> \<not> persist) now user_id
              (ps_last_user_sync_ts new_state + BUSY_ONLINE_TIMEOUT) w) (\<lambda>w.
           let s = (if is_online then new_state\<lparr>ps_currently_active := active\<rparr> else new_state)
           in Inr (if not_offline \<and> ping then s\<lparr>ps_last_federation_update_ts := now\<rparr> else s,
                   not_offline \<and> ping, w)))))
         else
           bindR (insert_if (\<not> persist) now user_id
              (ps_last_federation_update_ts new_state + FEDERATION_TIMEOUT) w) (\<lambda>w.
           Inr (new_state, False, w))) (\<lambda>(new_state, federation_ping, w).
      if should_notify prev_state new_state (pc_last_active_granularity cfg)
      then Inr (new_state\<lparr>ps_last_federation_update_ts := now\<rparr>, True, federation_ping, w)
      else Inr (new_state, False, federation_ping, w)))"

text \<open>The loop of \<^verbatim>\<open>_update_states\<close> over the last state given for each user.\<close>

fun update_loop ::
  "presence_config \<Rightarrow> int \<Rightarrow> bool \<Rightarrow> user_presence list \<Rightarrow> presence_handler \<Rightarrow> (string, user_presence) dict \<Rightarrow>
   (string, user_presence) dict \<Rightarrow> (presence_handler \<times> (string, user_presence) dict \<times> (string, user_presence) dict) res" where
  "update_loop cfg now force_notify [] h to_notify to_ping = Inr (h, to_notify, to_ping)"
| "update_loop cfg now force_notify (new_state # rest) h to_notify to_ping =
     (let user_id = ps_user_id new_state;
          prev_state = dict_get user_id (default_presence user_id) (ph_current_state h)
      in bindR (handle_update cfg prev_state new_state (ph_wheel h) now (\<not> pc_track_presence cfg))
        (\<lambda>(new_state, should_notify, should_ping, w).
        let should_notify = should_notify \<or> force_notify;
            h = h\<lparr>ph_wheel := w, ph_current_state := dict_set user_id new_state (ph_current_state h)\<rparr>
        in update_loop cfg now force_notify rest h
             (if should_notify then dict_set user_id new_state to_notify else to_notify)
             (if \<not> should_notify \<and> should_ping then dict_set user_id new_state to_ping else to_ping)))"

text \<open>\<^verbatim>\<open>_update_states\<close>: the handler, the states to persist and announce, and the states to send to other
  servers again.\<close>

definition update_states ::
  "presence_config \<Rightarrow> int \<Rightarrow> user_presence list \<Rightarrow> bool \<Rightarrow> presence_handler \<Rightarrow>
   (presence_handler \<times> user_presence list \<times> user_presence list) res" where
  "update_states cfg now new_states force_notify h =
     (if \<not> pc_presence_enabled cfg then Inr (h, [], [])
      else
        let new_states = map snd (fold (\<lambda>s. dict_set (ps_user_id s) s) new_states []) in
        bindR (update_loop cfg now force_notify new_states h [] []) (\<lambda>(h, to_notify, to_ping).
        let unpersisted = filter (\<lambda>u. map_of to_notify u = None)
              (remdups (ph_unpersisted h @ map ps_user_id new_states));
            to_ping = filter (\<lambda>(u, s). map_of to_notify u = None) to_ping
        in Inr (h\<lparr>ph_unpersisted := unpersisted\<rparr>, map snd to_notify, map snd to_ping)))"

section \<open>The operations of the handler\<close>

type_synonym presence_result = "(presence_handler \<times> user_presence list \<times> user_presence list) res"

definition current_state_for_user ::
  "(string \<rightharpoonup> user_presence) \<Rightarrow> string \<Rightarrow> presence_handler \<Rightarrow> user_presence \<times> presence_handler" where
  "current_state_for_user db user_id h =
     (case map_of (ph_current_state h) user_id of
        Some s \<Rightarrow> (s, h)
      | None \<Rightarrow>
          (case db user_id of
             Some s \<Rightarrow> (s, h)
           | None \<Rightarrow> (default_presence user_id,
               h\<lparr>ph_current_state := dict_set user_id (default_presence user_id) (ph_current_state h)\<rparr>)))"

text \<open>\<^verbatim>\<open>devices.setdefault(device_id, default)\<close> in the devices of the user, and the change of the device.\<close>

definition change_device ::
  "string \<Rightarrow> string option \<Rightarrow> (device_presence \<Rightarrow> device_presence) \<Rightarrow> presence_handler \<Rightarrow> presence_handler" where
  "change_device user_id device_id f h =
     (let ds = dict_get user_id [] (ph_devices h)
      in h\<lparr>ph_devices := dict_set user_id
            (dict_set device_id (f (dict_get device_id (default_device user_id device_id) ds)) ds) (ph_devices h)\<rparr>)"

definition pop_expired_processes :: "int \<Rightarrow> presence_handler \<Rightarrow> presence_handler \<times> string list" where
  "pop_expired_processes now h =
     (let expired = map fst (filter (\<lambda>(p, t). now - t > EXTERNAL_PROCESS_EXPIRY) (ph_external_updated h))
      in (h\<lparr>ph_external_syncs := filter (\<lambda>(p, s). p \<notin> set expired) (ph_external_syncs h),
            ph_external_updated := filter (\<lambda>(p, t). p \<notin> set expired) (ph_external_updated h)\<rparr>,
          concat (map (\<lambda>p. map fst (dict_get p [] (ph_external_syncs h))) expired)))"

definition syncing_user_devices :: "presence_handler \<Rightarrow> (string \<times> string option) set" where
  "syncing_user_devices h =
     set (map fst (filter (\<lambda>(k, count). count \<noteq> 0) (ph_num_syncs h))) \<union>
     set (concat (map snd (ph_external_syncs h)))"

text \<open>\<^verbatim>\<open>_handle_timeouts\<close>, which runs every five seconds.\<close>

definition handle_presence_timeouts :: "presence_config \<Rightarrow> int \<Rightarrow> presence_handler \<Rightarrow> presence_result" where
  "handle_presence_timeouts cfg now h =
     (let (fired, w) = wheel_fetch now (ph_wheel h);
          (h, gone) = pop_expired_processes now (h\<lparr>ph_wheel := w\<rparr>);
          users_to_check = remdups (fired @ gone);
          states = map (\<lambda>u. dict_get u (default_presence u) (ph_current_state h)) users_to_check
      in bindR (handle_timeouts cfg states (syncing_user_devices h) (ph_devices h) now []) (\<lambda>(changes, devices).
         update_states cfg now changes False (h\<lparr>ph_devices := devices\<rparr>)))"

definition bump_presence_active_time ::
  "presence_config \<Rightarrow> (string \<rightharpoonup> user_presence) \<Rightarrow> int \<Rightarrow> string \<Rightarrow> string option \<Rightarrow> presence_handler \<Rightarrow> presence_result" where
  "bump_presence_active_time cfg db now user_id device_id h =
     (if \<not> pc_track_presence cfg then Inr (h, [], [])
      else
        let h = change_device user_id device_id (\<lambda>d. d\<lparr>dp_last_active_ts := now,
              dp_state := (if dp_state d = P_UNAVAILABLE then P_ONLINE else dp_state d)\<rparr>) h;
            (prev_state, h) = current_state_for_user db user_id h
        in bindR (combine_device_states (map snd (dict_get user_id [] (ph_devices h)))) (\<lambda>presence.
           update_states cfg now [prev_state\<lparr>ps_last_active_ts := now, ps_state := presence\<rparr>] False h))"

definition presence_set_state ::
  "presence_config \<Rightarrow> (string \<rightharpoonup> user_presence) \<Rightarrow> int \<Rightarrow> string \<Rightarrow> string option \<Rightarrow> string \<Rightarrow> string option \<Rightarrow> bool \<Rightarrow>
   bool \<Rightarrow> presence_handler \<Rightarrow> presence_result" where
  "presence_set_state cfg db now user_id device_id presence status_msg force_notify is_sync h =
     (if presence \<notin> set (valid_presence cfg) then Inl (SynapseError 400 ''Invalid presence state'')
      else if \<not> pc_track_presence cfg then Inr (h, [], [])
      else
        let (prev_state, h) = current_state_for_user db user_id h;
            presence = (if ps_state prev_state = P_BUSY \<and> is_sync then P_BUSY else presence);
            h = change_device user_id device_id (\<lambda>d. d\<lparr>dp_state := presence, dp_last_active_ts := now,
                  dp_last_sync_ts := (if is_sync then now else dp_last_sync_ts d)\<rparr>) h
        in bindR (combine_device_states (map snd (dict_get user_id [] (ph_devices h)))) (\<lambda>presence.
           let s = prev_state\<lparr>ps_state := presence\<rparr>;
               s = (if presence = P_ONLINE \<or> presence = P_BUSY then s\<lparr>ps_last_active_ts := now\<rparr> else s);
               s = (if is_sync then s\<lparr>ps_last_user_sync_ts := now\<rparr> else s\<lparr>ps_status_msg := status_msg\<rparr>)
           in update_states cfg now [s] force_notify h))"

text \<open>\<^verbatim>\<open>user_syncing\<close>, and the end of the context it returns. The sync is counted before \<^verbatim>\<open>set_state\<close> looks at the
  presence, and stays counted when that raises an exception: the context, whose end would take the count back,
  is not made then. An exception at the end is only logged.\<close>

definition user_syncing ::
  "presence_config \<Rightarrow> (string \<rightharpoonup> user_presence) \<Rightarrow> int \<Rightarrow> string \<Rightarrow> string option \<Rightarrow> bool \<Rightarrow> string \<Rightarrow>
   presence_handler \<Rightarrow> presence_handler \<times> (user_presence list \<times> user_presence list) res" where
  "user_syncing cfg db now user_id device_id affect_presence presence_state h =
     (if \<not> affect_presence \<or> \<not> pc_track_presence cfg then (h, Inr ([], []))
      else
        let key = (user_id, device_id);
            h = h\<lparr>ph_num_syncs := dict_set key (dict_get key 0 (ph_num_syncs h) + 1) (ph_num_syncs h)\<rparr>
        in case presence_set_state cfg db now user_id device_id presence_state None False True h of
             Inl e \<Rightarrow> (h, Inl e)
           | Inr (h', n, p) \<Rightarrow> (h', Inr (n, p)))"

definition user_syncing_end ::
  "presence_config \<Rightarrow> (string \<rightharpoonup> user_presence) \<Rightarrow> int \<Rightarrow> string \<Rightarrow> string option \<Rightarrow> presence_handler \<Rightarrow> presence_result" where
  "user_syncing_end cfg db now user_id device_id h =
     (let key = (user_id, device_id) in
      case map_of (ph_num_syncs h) key of
        None \<Rightarrow> Inr (h, [], [])
      | Some n \<Rightarrow>
          let h = h\<lparr>ph_num_syncs := dict_set key (n - 1) (ph_num_syncs h)\<rparr>;
              (prev_state, h) = current_state_for_user db user_id h
          in (case update_states cfg now [prev_state\<lparr>ps_last_user_sync_ts := now\<rparr>] False h of
                Inl _ \<Rightarrow> Inr (h, [], [])
              | Inr r \<Rightarrow> Inr r))"

definition update_external_syncs_row ::
  "presence_config \<Rightarrow> (string \<rightharpoonup> user_presence) \<Rightarrow> int \<Rightarrow> string \<Rightarrow> string \<Rightarrow> string option \<Rightarrow> bool \<Rightarrow> int \<Rightarrow>
   presence_handler \<Rightarrow> presence_result" where
  "update_external_syncs_row cfg db now process_id user_id device_id is_syncing sync_time_msec h =
     (let (prev_state, h) = current_state_for_user db user_id h;
          syncs = dict_get process_id [] (ph_external_syncs h);
          h = h\<lparr>ph_external_syncs := dict_set process_id syncs (ph_external_syncs h)\<rparr>
      in bindR
        (if is_syncing \<and> (user_id, device_id) \<notin> set syncs then
           Inr (h\<lparr>ph_external_syncs := dict_set process_id (syncs @ [(user_id, device_id)]) (ph_external_syncs h)\<rparr>, [], [])
         else if \<not> is_syncing \<and> (user_id, device_id) \<in> set syncs then
           let h = change_device user_id device_id (\<lambda>d. d\<lparr>dp_last_sync_ts := sync_time_msec\<rparr>) h
           in bindR (update_states cfg now [prev_state\<lparr>ps_last_user_sync_ts := sync_time_msec\<rparr>] False h) (\<lambda>(h, n, p).
              Inr (h\<lparr>ph_external_syncs := dict_set process_id
                    (filter (\<lambda>x. x \<noteq> (user_id, device_id)) syncs) (ph_external_syncs h)\<rparr>, n, p))
         else Inr (h, [], [])) (\<lambda>(h, n, p).
        Inr (h\<lparr>ph_external_updated := dict_set process_id now (ph_external_updated h)\<rparr>, n, p)))"

fun current_state_for_users ::
  "(string \<rightharpoonup> user_presence) \<Rightarrow> string list \<Rightarrow> presence_handler \<Rightarrow> user_presence list \<times> presence_handler" where
  "current_state_for_users db [] h = ([], h)"
| "current_state_for_users db (u # us) h =
     (let (s, h) = current_state_for_user db u h; (ss, h) = current_state_for_users db us h in (s # ss, h))"

definition update_external_syncs_clear ::
  "presence_config \<Rightarrow> (string \<rightharpoonup> user_presence) \<Rightarrow> int \<Rightarrow> string \<Rightarrow> presence_handler \<Rightarrow> presence_result" where
  "update_external_syncs_clear cfg db now process_id h =
     (let syncs = dict_get process_id [] (ph_external_syncs h);
          h = h\<lparr>ph_external_syncs := dict_pop process_id (ph_external_syncs h)\<rparr>;
          h = fold (\<lambda>(u, d). change_device u d (\<lambda>x. x\<lparr>dp_last_sync_ts := now\<rparr>)) syncs h;
          (prev_states, h) = current_state_for_users db (remdups (map fst syncs)) h
      in bindR (update_states cfg now (map (\<lambda>s. s\<lparr>ps_last_user_sync_ts := now\<rparr>) prev_states) False h) (\<lambda>(h, n, p).
         Inr (h\<lparr>ph_external_updated := dict_pop process_id (ph_external_updated h)\<rparr>, n, p)))"

record presence_push =
  pp_user_id :: "string option"
  pp_presence :: "string option"
  pp_last_active_ago :: "int option"
  pp_status_msg :: "string option"
  pp_currently_active :: "bool option"

text \<open>The loop over the updates of an \<^verbatim>\<open>m.presence\<close> message. An empty string counts as missing.\<close>

fun incoming_updates ::
  "(string \<rightharpoonup> user_presence) \<Rightarrow> int \<Rightarrow> string \<Rightarrow> presence_push list \<Rightarrow> presence_handler \<Rightarrow> user_presence list \<Rightarrow>
   (user_presence list \<times> presence_handler) res" where
  "incoming_updates db now origin [] h updates = Inr (updates, h)"
| "incoming_updates db now origin (push # rest) h updates =
     (case pp_user_id push of
        None \<Rightarrow> incoming_updates db now origin rest h updates
      | Some user_id \<Rightarrow>
          if user_id = '''' then incoming_updates db now origin rest h updates
          else bindR (get_domain_from_id user_id) (\<lambda>domain.
            if domain \<noteq> origin \<or> \<not> is_compliant_user_id user_id then incoming_updates db now origin rest h updates
            else
              (case pp_presence push of
                 None \<Rightarrow> incoming_updates db now origin rest h updates
               | Some presence_state \<Rightarrow>
                   if presence_state = '''' then incoming_updates db now origin rest h updates
                   else
                     let (prev_state, h) = current_state_for_user db user_id h;
                         s = prev_state\<lparr>ps_state := presence_state, ps_last_federation_update_ts := now,
                               ps_last_active_ts := (case pp_last_active_ago push of
                                 None \<Rightarrow> ps_last_active_ts prev_state | Some ago \<Rightarrow> now - ago),
                               ps_status_msg := pp_status_msg push,
                               ps_currently_active := (case pp_currently_active push of None \<Rightarrow> False | Some b \<Rightarrow> b)\<rparr>
                     in incoming_updates db now origin rest h (updates @ [s]))))"

definition incoming_presence ::
  "presence_config \<Rightarrow> (string \<rightharpoonup> user_presence) \<Rightarrow> int \<Rightarrow> string \<Rightarrow> presence_push list \<Rightarrow> presence_handler \<Rightarrow>
   presence_result" where
  "incoming_presence cfg db now origin pushes h =
     (if \<not> pc_track_presence cfg then Inr (h, [], [])
      else
        bindR (incoming_updates db now origin pushes h []) (\<lambda>(updates, h).
          if updates = [] then Inr (h, [], []) else update_states cfg now updates False h))"

definition persist_unpersisted_changes :: "presence_handler \<Rightarrow> presence_result" where
  "persist_unpersisted_changes h =
     (if list_all (\<lambda>u. map_of (ph_current_state h) u \<noteq> None) (ph_unpersisted h) then
        Inr (h\<lparr>ph_unpersisted := []\<rparr>, List.map_filter (map_of (ph_current_state h)) (ph_unpersisted h), [])
      else Inl KeyError)"

definition mark_stale_presence_as_offline :: "presence_handler \<Rightarrow> presence_result" where
  "mark_stale_presence_as_offline h =
     (let states = map (\<lambda>s. s\<lparr>ps_state := P_OFFLINE, ps_status_msg := None, ps_currently_active := False\<rparr>)
            (filter (\<lambda>s. ps_state s \<noteq> P_OFFLINE) (map snd (ph_current_state h)))
      in Inr (h\<lparr>ph_current_state := fold (\<lambda>s. dict_set (ps_user_id s) s) states (ph_current_state h)\<rparr>, states, []))"

text \<open>The handler at start-up, from the rows of the table that are not offline.\<close>

fun start_timers :: "presence_config \<Rightarrow> int \<Rightarrow> user_presence list \<Rightarrow> presence_handler \<Rightarrow> presence_handler res" where
  "start_timers cfg now [] h = Inr h"
| "start_timers cfg now (s # ss) h =
     (let u = ps_user_id s;
          h = h\<lparr>ph_devices := dict_set u [(None, \<lparr>dp_user_id = u, dp_device_id = None, dp_state = ps_state s,
                dp_last_active_ts = ps_last_active_ts s, dp_last_sync_ts = ps_last_user_sync_ts s\<rparr>)] (ph_devices h)\<rparr>
      in bindR (wheel_insert now u (ps_last_active_ts s + pc_idle_timer cfg) (ph_wheel h)) (\<lambda>w.
         bindR (wheel_insert now u (ps_last_user_sync_ts s + pc_sync_online_timeout cfg) w) (\<lambda>w.
         bindR (wheel_insert now u (ps_last_federation_update_ts s +
             (if pc_is_mine cfg u then FEDERATION_PING_INTERVAL else FEDERATION_TIMEOUT)) w) (\<lambda>w.
         start_timers cfg now ss (h\<lparr>ph_wheel := w\<rparr>)))))"

definition new_presence_handler :: "presence_config \<Rightarrow> int \<Rightarrow> user_presence list \<Rightarrow> presence_handler res" where
  "new_presence_handler cfg now active_presence =
     (let current = fold (\<lambda>s. dict_set (ps_user_id s) s) active_presence [];
          h = \<lparr>ph_current_state = current, ph_devices = [], ph_wheel = new_wheel_timer 5000, ph_num_syncs = [],
                ph_external_syncs = [], ph_external_updated = [], ph_unpersisted = []\<rparr>
      in if pc_track_presence cfg then start_timers cfg now (map snd current) h else Inr h)"


end
