(* ===== verification/Presence_Props.thy ===== *)
theory Presence_Props
  imports Presence
begin

text \<open>
  What presence guarantees: the state of a user is that of the most present device, a user who syncs is
  not timed out and one who is silent is; nobody on another server stays present without being heard of;
  and every state that is not written to the database is known to be so. The last two are invariants of
  the reachable states of the handler with its wheel timer and its table.
\<close>

section \<open>Devices\<close>

definition presence_states :: "string set" where
  "presence_states = {P_BUSY, P_ONLINE, P_UNAVAILABLE, P_OFFLINE}"

lemma presence_states_simps [simp]:
  "P_BUSY \<in> presence_states" "P_ONLINE \<in> presence_states" "P_UNAVAILABLE \<in> presence_states" "P_OFFLINE \<in> presence_states"
  by (simp_all add: presence_states_def)

fun presence_rank :: "string \<Rightarrow> int" where
  "presence_rank s = (if s = P_BUSY then 4 else if s = P_ONLINE then 3 else if s = P_UNAVAILABLE then 2 else 1)"

lemma presence_priority_rank: "s \<in> presence_states \<Longrightarrow> presence_priority s = Inr (presence_rank s)"
  by (auto simp: presence_priority_def presence_states_def)

lemma presence_rank_inj: "s \<in> presence_states \<Longrightarrow> s' \<in> presence_states \<Longrightarrow> presence_rank s = presence_rank s' \<longleftrightarrow> s = s'"
  by (auto simp: presence_states_def)

declare presence_rank.simps [simp del]

lemma combine_loop_ok:
  assumes "presence \<in> presence_states" "\<forall>d \<in> set ds. dp_state d \<in> presence_states"
  shows "\<exists>s. combine_loop presence ts ds = Inr s \<and> s \<in> insert presence (dp_state ` set ds) \<and>
    (\<forall>s' \<in> insert presence (dp_state ` set ds). presence_rank s' \<le> presence_rank s)"
  using assms
proof (induction ds arbitrary: presence ts)
  case (Cons d ds)
  have p: "presence_priority (dp_state d) = Inr (presence_rank (dp_state d))"
    "presence_priority presence = Inr (presence_rank presence)"
    using Cons.prems by (simp_all only: presence_priority_rank list.set_intros)
  show ?case
  proof (cases "presence_rank (dp_state d) > presence_rank presence \<or>
      presence_rank (dp_state d) = presence_rank presence \<and> dp_last_active_ts d > ts")
    case True
    obtain s where "combine_loop (dp_state d) (dp_last_active_ts d) ds = Inr s" "s \<in> insert (dp_state d) (dp_state ` set ds)"
      "\<forall>s' \<in> insert (dp_state d) (dp_state ` set ds). presence_rank s' \<le> presence_rank s"
      using Cons.IH [of "dp_state d" "dp_last_active_ts d"] Cons.prems by auto
    with True p show ?thesis by (intro exI [of _ s]) auto
  next
    case False
    obtain s where "combine_loop presence ts ds = Inr s" "s \<in> insert presence (dp_state ` set ds)"
      "\<forall>s' \<in> insert presence (dp_state ` set ds). presence_rank s' \<le> presence_rank s"
      using Cons.IH [of presence ts] Cons.prems by auto
    with False p show ?thesis by (intro exI [of _ s]) auto
  qed
qed simp

lemma combine_device_states_ok:
  assumes "\<forall>d \<in> set ds. dp_state d \<in> presence_states"
  shows "\<exists>s. combine_device_states ds = Inr s \<and> s \<in> insert P_OFFLINE (dp_state ` set ds) \<and> s \<in> presence_states \<and>
    (\<forall>d \<in> set ds. presence_rank (dp_state d) \<le> presence_rank s)"
  using combine_loop_ok [of P_OFFLINE ds "- 1"] assms by (auto simp: combine_device_states_def)


section \<open>Updates and the timer of a remote user\<close>

text \<open>A timer of \<open>u\<close> that goes off when nothing was heard of them since \<open>ts\<close>, and at the latest a
  bucket after that or after \<open>t\<close>, which is the time at which the handler was started.\<close>

definition has_timer :: "int \<Rightarrow> string wheel_timer \<Rightarrow> string \<Rightarrow> int \<Rightarrow> bool" where
  "has_timer t w u ts \<longleftrightarrow> (\<exists>k. (u, k) \<in> wheel_pending w \<and> bucket_key 5000 (ts + FEDERATION_TIMEOUT) < k \<and>
     k \<le> max (bucket_key 5000 (ts + FEDERATION_TIMEOUT)) (bucket_key 5000 t) + 1)"

lemma has_timer_mono: "has_timer t w u ts \<Longrightarrow> wheel_pending w \<subseteq> wheel_pending w' \<Longrightarrow> has_timer t w' u ts"
  unfolding has_timer_def by blast

lemma insert_if_ok:
  assumes "wheel_wf 5000 t w" "t \<le> now"
  obtains w' where "insert_if b now u due w = Inr w'" "wheel_wf 5000 now w'" "wheel_pending w \<subseteq> wheel_pending w'"
    "b \<and> (now \<le> due \<or> now \<le> t0) \<longrightarrow> has_timer t0 w' u (due - FEDERATION_TIMEOUT)"
proof (cases b)
  case True
  obtain w' k where "wheel_insert now u due w = Inr w'" "wheel_wf 5000 now w'"
    "wheel_pending w' = insert (u, k) (wheel_pending w)" "bucket_key 5000 due < k"
    "k \<le> max (bucket_key 5000 due) (bucket_key 5000 now) + 1"
    using wheel.put [OF assms] by blast
  then show ?thesis
    using that True bucket_key_mono [of 5000 now due] bucket_key_mono [of 5000 now t0] unfolding has_timer_def insert_if_def by fastforce
next
  case False
  have "wheel_wf 5000 now w"
    using assms bucket_key_mono [of 5000 t now] by (auto simp: wheel_wf_def)
  then show ?thesis using that False by (auto simp: insert_if_def)
qed

lemma handle_update_ok:
  assumes "wheel_wf 5000 t w" "t \<le> now"
  shows "\<exists>s' n p w'. handle_update cfg prev s w now False = Inr (s', n, p, w') \<and> wheel_wf 5000 now w' \<and>
    wheel_pending w \<subseteq> wheel_pending w' \<and> ps_user_id s' = ps_user_id s \<and> ps_state s' = ps_state s \<and>
    ps_last_federation_update_ts s' \<in> {ps_last_federation_update_ts s, now} \<and>
    (\<not> pc_is_mine cfg (ps_user_id s) \<and> ps_last_federation_update_ts s = now \<longrightarrow> has_timer t0 w' (ps_user_id s) now)"
proof (cases "pc_is_mine cfg (ps_user_id s)")
  case True
  obtain w1 where w1: "insert_if (ps_state s = P_ONLINE) now (ps_user_id s) (ps_last_active_ts s + pc_idle_timer cfg) w = Inr w1"
    "wheel_wf 5000 now w1" "wheel_pending w \<subseteq> wheel_pending w1" by (rule insert_if_ok [OF assms])
  obtain w2 where w2: "insert_if (ps_state s = P_ONLINE \<and> now - ps_last_active_ts s < pc_last_active_granularity cfg) now
      (ps_user_id s) (ps_last_active_ts s + pc_last_active_granularity cfg) w1 = Inr w2"
    "wheel_wf 5000 now w2" "wheel_pending w1 \<subseteq> wheel_pending w2" by (rule insert_if_ok [OF w1(2) order_refl])
  obtain w3 where w3: "insert_if (ps_state s \<noteq> P_OFFLINE) now (ps_user_id s)
      (ps_last_user_sync_ts s + pc_sync_online_timeout cfg) w2 = Inr w3"
    "wheel_wf 5000 now w3" "wheel_pending w2 \<subseteq> wheel_pending w3" by (rule insert_if_ok [OF w2(2) order_refl])
  obtain w4 where w4: "insert_if (ps_state s = P_BUSY) now (ps_user_id s)
      (ps_last_user_sync_ts s + BUSY_ONLINE_TIMEOUT) w3 = Inr w4"
    "wheel_wf 5000 now w4" "wheel_pending w3 \<subseteq> wheel_pending w4" by (rule insert_if_ok [OF w3(2) order_refl])
  have "wheel_pending w \<subseteq> wheel_pending w4" using w1(3) w2(3) w3(3) w4(3) by blast
  let ?ping = "ps_state s \<noteq> P_OFFLINE \<and> now - ps_last_federation_update_ts s > FEDERATION_PING_INTERVAL"
  let ?s = "if ps_state s = P_ONLINE
    then s\<lparr>ps_currently_active := now - ps_last_active_ts s < pc_last_active_granularity cfg\<rparr> else s"
  define s1 where "s1 = (if ?ping then ?s\<lparr>ps_last_federation_update_ts := now\<rparr> else ?s)"
  have s1: "ps_user_id s1 = ps_user_id s" "ps_state s1 = ps_state s"
    "ps_last_federation_update_ts s1 \<in> {ps_last_federation_update_ts s, now}" by (simp_all add: s1_def)
  have "handle_update cfg prev s w now False = (if should_notify prev s1 (pc_last_active_granularity cfg)
      then Inr (s1\<lparr>ps_last_federation_update_ts := now\<rparr>, True, ?ping, w4) else Inr (s1, False, ?ping, w4))"
    unfolding handle_update_def Let_def s1_def
    by (simp only: True if_True not_False_eq_True simp_thms w1(1) w2(1) w3(1) w4(1) bindR_Inr prod.case)
  with \<open>wheel_pending w \<subseteq> wheel_pending w4\<close> w4(2) s1 True show ?thesis
    by (intro exI [of _ "if should_notify prev s1 (pc_last_active_granularity cfg) then s1\<lparr>ps_last_federation_update_ts := now\<rparr> else s1"]
        exI [of _ "should_notify prev s1 (pc_last_active_granularity cfg)"] exI [of _ ?ping] exI [of _ w4]) (simp only: split: if_split, simp)
next
  case False
  obtain w' where w': "insert_if True now (ps_user_id s) (ps_last_federation_update_ts s + FEDERATION_TIMEOUT) w = Inr w'"
    "wheel_wf 5000 now w'" "wheel_pending w \<subseteq> wheel_pending w'"
    "True \<and> (now \<le> ps_last_federation_update_ts s + FEDERATION_TIMEOUT \<or> now \<le> t0) \<longrightarrow>
      has_timer t0 w' (ps_user_id s) (ps_last_federation_update_ts s + FEDERATION_TIMEOUT - FEDERATION_TIMEOUT)"
    by (rule insert_if_ok [OF assms])
  let ?n = "should_notify prev s (pc_last_active_granularity cfg)"
  have "ps_last_federation_update_ts s = now \<longrightarrow> has_timer t0 w' (ps_user_id s) now" using w'(4) by auto
  then show ?thesis
    using False w'(1-3) by (intro exI [of _ "if ?n then s\<lparr>ps_last_federation_update_ts := now\<rparr> else s"] exI [of _ ?n]
      exI [of _ False] exI [of _ w']) (simp add: handle_update_def)
qed


abbreviation current :: "presence_handler \<Rightarrow> string \<rightharpoonup> user_presence" where
  "current h \<equiv> map_of (ph_current_state h)"

definition timed :: "presence_config \<Rightarrow> int \<Rightarrow> presence_handler \<Rightarrow> string \<Rightarrow> bool" where
  "timed cfg t h u \<longleftrightarrow> pc_is_mine cfg u \<or>
     (\<forall>s. current h u = Some s \<and> ps_state s \<noteq> P_OFFLINE \<longrightarrow> has_timer t (ph_wheel h) u (ps_last_federation_update_ts s))"

lemma timed_mono:
  assumes "timed cfg t h u" "current h' u = current h u" "wheel_pending (ph_wheel h) \<subseteq> wheel_pending (ph_wheel h')"
  shows "timed cfg t h' u"
  using assms has_timer_mono [OF _ assms(3)] unfolding timed_def by auto

text \<open>Who is announced has the announced state; the timers of the others are kept.\<close>

lemma update_loop_ok:
  assumes "pc_track_presence cfg" "wheel_wf 5000 t (ph_wheel h)" "t \<le> now" "distinct (map ps_user_id ss)"
    "\<forall>s \<in> set ss. \<not> pc_is_mine cfg (ps_user_id s) \<longrightarrow> ps_last_federation_update_ts s = now \<or> ps_state s = P_OFFLINE"
    "\<forall>u v. (u, v) \<in> set n \<longrightarrow> u \<notin> ps_user_id ` set ss \<and> current h u = Some v \<and> ps_user_id v = u"
  shows "\<exists>c w n' p'. update_loop cfg now force ss h n p = Inr (h\<lparr>ph_wheel := w, ph_current_state := c\<rparr>, n', p') \<and>
    wheel_wf 5000 now w \<and> wheel_pending (ph_wheel h) \<subseteq> wheel_pending w \<and>
    (\<forall>u. u \<notin> ps_user_id ` set ss \<longrightarrow> map_of c u = current h u) \<and>
    (\<forall>s \<in> set ss. \<exists>s'. map_of c (ps_user_id s) = Some s' \<and> ps_user_id s' = ps_user_id s \<and> ps_state s' = ps_state s) \<and>
    (\<forall>s \<in> set ss. timed cfg t0 (h\<lparr>ph_wheel := w, ph_current_state := c\<rparr>) (ps_user_id s)) \<and>
    (\<forall>u v. (u, v) \<in> set n' \<longrightarrow> map_of c u = Some v \<and> ps_user_id v = u)"
  using assms(2-)
proof (induction ss arbitrary: t h n p)
  case Nil
  obtain w where "insert_if False now [] 0 (ph_wheel h) = Inr w" "wheel_wf 5000 now w"
    by (rule insert_if_ok [OF Nil(1,2)])
  with Nil show ?case
    by (intro exI [of _ "ph_current_state h"] exI [of _ "ph_wheel h"] exI [of _ n] exI [of _ p])
      (auto simp: insert_if_def)
next
  case (Cons s ss)
  let ?u = "ps_user_id s"
  obtain s' nt pg w where u: "handle_update cfg (dict_get ?u (default_presence ?u) (ph_current_state h)) s (ph_wheel h) now False
      = Inr (s', nt, pg, w)" "wheel_wf 5000 now w" "wheel_pending (ph_wheel h) \<subseteq> wheel_pending w"
    "ps_user_id s' = ?u" "ps_state s' = ps_state s"
    "ps_last_federation_update_ts s' \<in> {ps_last_federation_update_ts s, now}"
    "\<not> pc_is_mine cfg ?u \<and> ps_last_federation_update_ts s = now \<Longrightarrow> has_timer t0 w ?u now"
    using handle_update_ok [OF Cons.prems(1,2)] by blast
  let ?h = "h\<lparr>ph_wheel := w, ph_current_state := dict_set ?u s' (ph_current_state h)\<rparr>"
  let ?n = "if nt \<or> force then dict_set ?u s' n else n"
  have "?u \<notin> fst ` set n" using Cons.prems(5) by fastforce
  then have n: "\<forall>u v. (u, v) \<in> set ?n \<longrightarrow> u \<notin> ps_user_id ` set ss \<and> current ?h u = Some v \<and> ps_user_id v = u"
    using Cons.prems(3,5) u(4) by (auto simp: dict_set_new)
  obtain c w' n' p' where l: "update_loop cfg now force ss ?h ?n (if \<not> (nt \<or> force) \<and> pg then dict_set ?u s' p else p) =
      Inr (?h\<lparr>ph_wheel := w', ph_current_state := c\<rparr>, n', p')" "wheel_wf 5000 now w'" "wheel_pending w \<subseteq> wheel_pending w'"
    "\<forall>u. u \<notin> ps_user_id ` set ss \<longrightarrow> map_of c u = current ?h u"
    "\<forall>s \<in> set ss. \<exists>s'. map_of c (ps_user_id s) = Some s' \<and> ps_user_id s' = ps_user_id s \<and> ps_state s' = ps_state s"
    "\<forall>s \<in> set ss. timed cfg t0 (?h\<lparr>ph_wheel := w', ph_current_state := c\<rparr>) (ps_user_id s)"
    "\<forall>u v. (u, v) \<in> set n' \<longrightarrow> map_of c u = Some v \<and> ps_user_id v = u"
    using Cons.IH [of now ?h ?n "if \<not> (nt \<or> force) \<and> pg then dict_set ?u s' p else p"] Cons.prems(3,4) u(2) n
    by simp blast
  have new: "map_of c ?u = Some s'" using l(4) Cons.prems(3) by auto
  have "has_timer t0 w ?u (ps_last_federation_update_ts s')" if "\<not> pc_is_mine cfg ?u" "ps_state s' \<noteq> P_OFFLINE"
    using that u(5-7) Cons.prems(4) by auto
  then have "timed cfg t0 (h\<lparr>ph_wheel := w', ph_current_state := c\<rparr>) ?u"
    using has_timer_mono [OF _ l(3)] new by (auto simp: timed_def)
  moreover have "timed cfg t0 (h\<lparr>ph_wheel := w', ph_current_state := c\<rparr>) = timed cfg t0 (?h\<lparr>ph_wheel := w', ph_current_state := c\<rparr>)"
    by (simp add: timed_def fun_eq_iff)
  moreover have "update_loop cfg now force (s # ss) h n p = Inr (h\<lparr>ph_wheel := w', ph_current_state := c\<rparr>, n', p')"
    using l(1) assms(1) by (simp add: Let_def u(1))
  moreover have "\<forall>u. u \<notin> ps_user_id ` set (s # ss) \<longrightarrow> map_of c u = current h u" using l(4) by simp
  moreover have "\<forall>s \<in> set (s # ss). \<exists>s'. map_of c (ps_user_id s) = Some s' \<and> ps_user_id s' = ps_user_id s \<and> ps_state s' = ps_state s"
    unfolding list.set ball_simps using l(5) new u(4,5) by blast
  ultimately show ?case
    unfolding list.set ball_simps using l(2,6,7) order_trans [OF u(3) l(3)] by metis
qed


text \<open>The last state for each user.\<close>

lemma last_states:
  assumes "dict_wf d" "\<forall>u v. (u, v) \<in> set d \<longrightarrow> ps_user_id v = u"
  shows "dict_wf (fold (\<lambda>s. dict_set (ps_user_id s) s) ss d) \<and>
    (\<forall>u v. (u, v) \<in> set (fold (\<lambda>s. dict_set (ps_user_id s) s) ss d) \<longrightarrow> ps_user_id v = u \<and> ((u, v) \<in> set d \<or> v \<in> set ss)) \<and>
    fst ` set (fold (\<lambda>s. dict_set (ps_user_id s) s) ss d) = fst ` set d \<union> ps_user_id ` set ss"
  using assms
proof (induction ss arbitrary: d)
  case (Cons s ss)
  let ?d = "dict_set (ps_user_id s) s d"
  have "dict_wf ?d" "\<forall>u v. (u, v) \<in> set ?d \<longrightarrow> ps_user_id v = u"
    using Cons.prems dict_set_subset [of "ps_user_id s" s d] by auto
  note ih = Cons.IH [OF this]
  have f: "fold (\<lambda>s. dict_set (ps_user_id s) s) (s # ss) d = fold (\<lambda>s. dict_set (ps_user_id s) s) ss ?d" by simp
  show ?case
    unfolding f
  proof (intro conjI allI impI)
    fix u v
    assume "(u, v) \<in> set (fold (\<lambda>s. dict_set (ps_user_id s) s) ss ?d)"
    then have "ps_user_id v = u" "(u, v) \<in> set ?d \<or> v \<in> set ss" using ih by blast+
    then show "ps_user_id v = u" "(u, v) \<in> set d \<or> v \<in> set (s # ss)"
      using dict_set_subset [of "ps_user_id s" s d] by auto
  next
    show "fst ` set (fold (\<lambda>s. dict_set (ps_user_id s) s) ss ?d) = fst ` set d \<union> ps_user_id ` set (s # ss)"
      using conjunct2 [OF conjunct2 [OF ih]] by simp
  qed (rule conjunct1 [OF ih])
qed auto

lemma last_states_distinct:
  "distinct (map ps_user_id (map snd (fold (\<lambda>s. dict_set (ps_user_id s) s) ss [])))" (is "distinct (map _ (map snd ?d))")
  "set (map snd (fold (\<lambda>s. dict_set (ps_user_id s) s) ss [])) \<subseteq> set ss"
  "ps_user_id ` set (map snd (fold (\<lambda>s. dict_set (ps_user_id s) s) ss [])) = ps_user_id ` set ss"
proof -
  have l: "dict_wf ?d" "\<forall>u v. (u, v) \<in> set ?d \<longrightarrow> ps_user_id v = u \<and> v \<in> set ss" "fst ` set ?d = ps_user_id ` set ss"
    using last_states [of "[]" ss] by auto
  have m: "map ps_user_id (map snd ?d) = map fst ?d" using l(2) by auto
  show "distinct (map ps_user_id (map snd ?d))" unfolding m using l(1) by (simp add: dict_wf_def)
  show "ps_user_id ` set (map snd ?d) = ps_user_id ` set ss"
    unfolding image_set m using l(3) by simp
  show "set (map snd ?d) \<subseteq> set ss" using l(2) by auto
qed

section \<open>The invariant of the handler and its table\<close>

text \<open>What the store does with the states it is given.\<close>

definition persist :: "user_presence list \<Rightarrow> (string \<rightharpoonup> user_presence) \<Rightarrow> string \<rightharpoonup> user_presence" where
  "persist ss P = fold (\<lambda>s P. P(ps_user_id s \<mapsto> s)) ss P"

lemma persist_states:
  assumes "\<forall>s \<in> set ss. m (ps_user_id s) = Some s"
  shows "persist ss P u = (if u \<in> ps_user_id ` set ss then m u else P u)"
  using assms unfolding persist_def by (induction ss arbitrary: P) auto

text \<open>A user whose state is cached and not marked as unpersisted has that state in the table, or the
  default and no row.\<close>

definition stored :: "(string \<rightharpoonup> user_presence) \<Rightarrow> presence_handler \<Rightarrow> string \<Rightarrow> bool" where
  "stored P h u \<longleftrightarrow> (\<forall>s. current h u = Some s \<longrightarrow> P u = Some s \<or> P u = None \<and> s = default_presence u)"

definition devices_ok :: "presence_config \<Rightarrow> (string, devices) dict \<Rightarrow> bool" where
  "devices_ok cfg D \<longleftrightarrow>
     (\<forall>u d. pc_is_mine cfg u \<and> d \<in> snd ` set (dict_get u [] D) \<longrightarrow> dp_state d \<in> presence_states)"

text \<open>Other processes report the syncs of local users.\<close>

definition externals_ok :: "presence_config \<Rightarrow> (string, (string \<times> string option) list) dict \<Rightarrow> bool" where
  "externals_ok cfg E \<longleftrightarrow> (\<forall>p l x. (p, l) \<in> set E \<and> x \<in> set l \<longrightarrow> pc_is_mine cfg (fst x))"

definition pres_base :: "presence_config \<Rightarrow> int \<Rightarrow> presence_handler \<Rightarrow> (string \<rightharpoonup> user_presence) \<Rightarrow> bool" where
  "pres_base cfg t h P \<longleftrightarrow> 0 \<le> t \<and> wheel_wf 5000 t (ph_wheel h) \<and>
     (\<forall>u s. current h u = Some s \<longrightarrow> ps_user_id s = u) \<and>
     (\<forall>u s. P u = Some s \<longrightarrow> ps_user_id s = u) \<and>
     devices_ok cfg (ph_devices h) \<and> externals_ok cfg (ph_external_syncs h) \<and>
     (\<forall>u s. current h u = None \<and> P u = Some s \<longrightarrow> ps_state s = P_OFFLINE) \<and>
     (\<forall>u. u \<notin> set (ph_unpersisted h) \<longrightarrow> stored P h u) \<and>
     (\<forall>u \<in> set (ph_unpersisted h). current h u \<noteq> None)"

text \<open>The handler was started at \<open>t0\<close> and the last operation was at \<open>t\<close>.\<close>

definition pres_inv :: "presence_config \<Rightarrow> int \<Rightarrow> int \<Rightarrow> presence_handler \<Rightarrow> (string \<rightharpoonup> user_presence) \<Rightarrow> bool" where
  "pres_inv cfg t0 t h P \<longleftrightarrow> pres_base cfg t h P \<and> (\<forall>u. timed cfg t0 h u)"

lemma update_states_inv:
  assumes cfg: "pc_track_presence cfg" "pc_presence_enabled cfg" and base: "pres_base cfg t h P" and now: "t \<le> now"
    and timed: "\<And>u. u \<in> ps_user_id ` set ss \<or> timed cfg t0 h u"
    and fed: "\<And>s. s \<in> set ss \<Longrightarrow> \<not> pc_is_mine cfg (ps_user_id s) \<Longrightarrow> ps_last_federation_update_ts s = now \<or> ps_state s = P_OFFLINE"
  shows "\<exists>w c x n p. update_states cfg now ss force h =
      Inr (h\<lparr>ph_wheel := w, ph_current_state := c, ph_unpersisted := x\<rparr>, n, p) \<and>
    pres_inv cfg t0 now (h\<lparr>ph_wheel := w, ph_current_state := c, ph_unpersisted := x\<rparr>) (persist n P) \<and>
    (\<forall>u. u \<notin> ps_user_id ` set ss \<longrightarrow> map_of c u = current h u) \<and>
    (\<forall>u \<in> ps_user_id ` set ss. \<exists>s \<in> set ss. ps_user_id s = u \<and> (\<exists>s'. map_of c u = Some s' \<and> ps_state s' = ps_state s))"
proof -
  let ?ss = "map snd (fold (\<lambda>s. dict_set (ps_user_id s) s) ss [])"
  note ls = last_states_distinct [of ss]
  have "\<forall>s \<in> set ?ss. \<not> pc_is_mine cfg (ps_user_id s) \<longrightarrow> ps_last_federation_update_ts s = now \<or> ps_state s = P_OFFLINE"
    using ls(2) fed by blast
  with update_loop_ok [OF cfg(1) _ now ls(1), where h = h and n = "[]" and p = "[]" and force = force and ?t0.0 = t0] base
  obtain c w n p where l: "update_loop cfg now force ?ss h [] [] = Inr (h\<lparr>ph_wheel := w, ph_current_state := c\<rparr>, n, p)"
    "wheel_wf 5000 now w" "wheel_pending (ph_wheel h) \<subseteq> wheel_pending w"
    "\<forall>u. u \<notin> ps_user_id ` set ?ss \<longrightarrow> map_of c u = current h u"
    "\<forall>s \<in> set ?ss. \<exists>s'. map_of c (ps_user_id s) = Some s' \<and> ps_user_id s' = ps_user_id s \<and> ps_state s' = ps_state s"
    "\<forall>s \<in> set ?ss. timed cfg t0 (h\<lparr>ph_wheel := w, ph_current_state := c\<rparr>) (ps_user_id s)"
    "\<forall>u v. (u, v) \<in> set n \<longrightarrow> map_of c u = Some v \<and> ps_user_id v = u"
    unfolding pres_base_def by auto
  let ?h = "\<lambda>x. h\<lparr>ph_wheel := w, ph_current_state := c, ph_unpersisted := x\<rparr>"
  define x where "x = filter (\<lambda>u. map_of n u = None) (remdups (ph_unpersisted h @ map ps_user_id ?ss))"
  note l4 = l(4) [unfolded ls(3)]
  have l5: "\<exists>s \<in> set ss. ps_user_id s = u \<and> (\<exists>s'. map_of c u = Some s' \<and> ps_user_id s' = u \<and> ps_state s' = ps_state s)"
    if u: "u \<in> ps_user_id ` set ss" for u
  proof -
    obtain s where s: "s \<in> set ?ss" "ps_user_id s = u" using u unfolding ls(3) [symmetric] by blast
    then show ?thesis using bspec [OF l(5) s(1)] ls(2) by blast
  qed
  have tm: "timed cfg t0 (?h x) u" for u
  proof (cases "u \<in> ps_user_id ` set ss")
    case True
    then show ?thesis using l(6) unfolding ls(3) [symmetric] by (auto simp: timed_def)
  next
    case False
    then show ?thesis using timed_mono [of cfg t0 h u "?h x"] timed [of u] l(3) l4 by simp
  qed
  have ids: "ps_user_id s = u" if "map_of c u = Some s" for u s
    using that l4 l5 [of u] base by (cases "u \<in> ps_user_id ` set ss") (auto simp: pres_base_def)
  have n: "\<forall>s \<in> set (map snd n). map_of c (ps_user_id s) = Some s" using l(7) by auto
  have dom: "ps_user_id ` set (map snd n) = fst ` set n" using l(7) by (force simp: image_image)
  have P: "persist (map snd n) P u = (if u \<in> fst ` set n then map_of c u else P u)" for u
    using persist_states [OF n, of P u] unfolding dom .
  have none: "map_of n u = None \<longleftrightarrow> u \<notin> fst ` set n" for u by (simp add: map_of_eq_None_iff)
  have "stored (persist (map snd n) P) (?h x) u" if "u \<notin> set x" for u
  proof (cases "u \<in> fst ` set n")
    case False
    then have "u \<notin> set (ph_unpersisted h)" "u \<notin> ps_user_id ` set ss"
      using that ls(3) none [of u] by (auto simp: x_def)
    then show ?thesis using base l4 P [of u] False by (auto simp: stored_def pres_base_def)
  qed (use P in \<open>simp add: stored_def\<close>)
  moreover have "map_of c u \<noteq> None" if "u \<in> set x" for u
  proof (cases "u \<in> ps_user_id ` set ss")
    case False
    then have "u \<in> set (ph_unpersisted h)" using that ls(3) by (auto simp: x_def)
    then show ?thesis using base l4 False by (simp add: pres_base_def)
  qed (use l5 in auto)
  moreover have "ps_user_id s = u" if "persist (map snd n) P u = Some s" for u s
    using that ids base unfolding P by (auto simp: pres_base_def split: if_splits)
  moreover have "ps_state s = P_OFFLINE" if s: "map_of c u = None" "persist (map snd n) P u = Some s" for u s
  proof -
    have "u \<notin> ps_user_id ` set ss" "u \<notin> fst ` set n" using s(1) l5 [of u] l(7) by force+
    then show ?thesis using s base l4 P [of u] by (simp add: pres_base_def)
  qed
  ultimately have "pres_inv cfg t0 now (?h x) (persist (map snd n) P)"
    using base l(2) now ids unfolding pres_inv_def pres_base_def by simp (intro conjI allI impI tm, blast)
  moreover have "\<exists>p'. update_states cfg now ss force h = Inr (?h x, map snd n, p')"
    using cfg(2) l(1) by (simp add: update_states_def x_def)
  moreover have "\<forall>u \<in> ps_user_id ` set ss. \<exists>s \<in> set ss. ps_user_id s = u \<and> (\<exists>s'. map_of c u = Some s' \<and> ps_state s' = ps_state s)"
    by (intro ballI) (use l5 in \<open>elim meta_allE, fast\<close>)
  ultimately show ?thesis using l4 by (elim exE) (intro exI conjI; assumption)
qed


section \<open>The timeouts\<close>

lemma devices_ok_set:
  "devices_ok cfg D \<Longrightarrow> (pc_is_mine cfg u \<Longrightarrow> \<forall>d \<in> snd ` set ds. dp_state d \<in> presence_states) \<Longrightarrow>
   devices_ok cfg (dict_set u ds D)"
  unfolding devices_ok_def by (auto simp: dict_get_set)

lemma time_out_devices_ok:
  assumes "\<forall>d \<in> snd ` set ds. dp_state d \<in> presence_states"
  shows "\<forall>d \<in> snd ` set (fst (time_out_devices cfg syncing u now ds)). dp_state d \<in> presence_states"
  using assms by (auto simp: time_out_devices_def idle_device_def Let_def)

lemma handle_timeout_ok:
  assumes "pc_is_mine cfg (ps_user_id s) \<Longrightarrow> \<forall>d \<in> snd ` set ds. dp_state d \<in> presence_states"
  shows "\<exists>r ds'. handle_timeout cfg s syncing ds now = Inr (r, ds') \<and>
    (pc_is_mine cfg (ps_user_id s) \<longrightarrow> (\<forall>d \<in> snd ` set ds'. dp_state d \<in> presence_states)) \<and>
    (\<forall>s'. r = Some s' \<longrightarrow> ps_user_id s' = ps_user_id s \<and> (pc_is_mine cfg (ps_user_id s) \<or> ps_state s' = P_OFFLINE)) \<and>
    (\<not> pc_is_mine cfg (ps_user_id s) \<and> ps_state s \<noteq> P_OFFLINE \<and>
      now - ps_last_federation_update_ts s > FEDERATION_TIMEOUT \<longrightarrow> r \<noteq> None)"
proof (cases "pc_is_mine cfg (ps_user_id s) \<and> ps_state s \<noteq> P_OFFLINE")
  case True
  obtain ds' ch where t: "time_out_devices cfg syncing (ps_user_id s) now ds = (ds', ch)" by fastforce
  have ok: "\<forall>d \<in> snd ` set ds'. dp_state d \<in> presence_states"
    using time_out_devices_ok [of ds cfg syncing "ps_user_id s" now] assms True t by simp
  obtain p where p: "combine_device_states (map snd ds') = Inr p"
    using combine_device_states_ok [of "map snd ds'"] ok by auto
  show ?thesis
    using True ok by (cases ch) (simp_all add: handle_timeout_def t p)
next
  case False
  then show ?thesis using assms by (auto simp: handle_timeout_def)
qed

lemma handle_timeouts_ok:
  assumes "devices_ok cfg D" "\<forall>k v. (k, v) \<in> set ch \<longrightarrow> ps_user_id v = k \<and> (pc_is_mine cfg k \<or> ps_state v = P_OFFLINE)"
  shows "\<exists>cs D'. handle_timeouts cfg ss syncing D now ch = Inr (cs, D') \<and> devices_ok cfg D' \<and>
    (\<forall>s \<in> set cs. pc_is_mine cfg (ps_user_id s) \<or> ps_state s = P_OFFLINE) \<and> fst ` set ch \<subseteq> ps_user_id ` set cs \<and>
    (\<forall>s \<in> set ss. \<not> pc_is_mine cfg (ps_user_id s) \<and> ps_state s \<noteq> P_OFFLINE \<and>
      now - ps_last_federation_update_ts s > FEDERATION_TIMEOUT \<longrightarrow> ps_user_id s \<in> ps_user_id ` set cs)"
  using assms
proof (induction ss arbitrary: D ch)
  case (Cons s ss)
  let ?u = "ps_user_id s"
  obtain r ds' where t: "handle_timeout cfg s syncing (dict_get ?u [] D) now = Inr (r, ds')"
    "pc_is_mine cfg ?u \<Longrightarrow> \<forall>d \<in> snd ` set ds'. dp_state d \<in> presence_states"
    "\<And>s'. r = Some s' \<Longrightarrow> ps_user_id s' = ?u \<and> (pc_is_mine cfg ?u \<or> ps_state s' = P_OFFLINE)"
    "\<not> pc_is_mine cfg ?u \<and> ps_state s \<noteq> P_OFFLINE \<and> now - ps_last_federation_update_ts s > FEDERATION_TIMEOUT \<Longrightarrow> r \<noteq> None"
    using handle_timeout_ok [of cfg s "dict_get ?u [] D" syncing now] Cons.prems(1) unfolding devices_ok_def by blast
  let ?D = "if map_of D ?u = None then D else dict_set ?u ds' D"
  let ?ch = "case r of None \<Rightarrow> ch | Some s' \<Rightarrow> dict_set ?u s' ch"
  have "devices_ok cfg ?D" using Cons.prems(1) t(2) by (simp add: devices_ok_set)
  moreover have "\<forall>k v. (k, v) \<in> set ?ch \<longrightarrow> ps_user_id v = k \<and> (pc_is_mine cfg k \<or> ps_state v = P_OFFLINE)"
  proof (cases r)
    case (Some s')
    then show ?thesis using t(3) [OF Some] dict_set_subset [of ?u s' ch] Cons.prems(2) by auto
  qed (use Cons.prems(2) in simp)
  ultimately obtain cs D' where h: "handle_timeouts cfg ss syncing ?D now ?ch = Inr (cs, D')" "devices_ok cfg D'"
    "\<forall>s \<in> set cs. pc_is_mine cfg (ps_user_id s) \<or> ps_state s = P_OFFLINE" "fst ` set ?ch \<subseteq> ps_user_id ` set cs"
    "\<forall>s \<in> set ss. \<not> pc_is_mine cfg (ps_user_id s) \<and> ps_state s \<noteq> P_OFFLINE \<and>
      now - ps_last_federation_update_ts s > FEDERATION_TIMEOUT \<longrightarrow> ps_user_id s \<in> ps_user_id ` set cs"
    using Cons.IH by blast
  have "handle_timeouts cfg (s # ss) syncing D now ch = Inr (cs, D')" by (simp add: t(1) h(1))
  moreover have "fst ` set ch \<subseteq> ps_user_id ` set cs" "r \<noteq> None \<Longrightarrow> ?u \<in> ps_user_id ` set cs"
    using h(4) by (cases r; simp)+
  ultimately show ?case using h(2,3,5) t(4) by (intro exI [of _ cs] exI [of _ D']) simp
next
  case Nil
  have "fst ` set ch \<subseteq> ps_user_id ` snd ` set ch" using Nil by (auto simp: image_iff) (metis snd_conv)
  with Nil show ?case by auto blast
qed


text \<open>A timer that was fetched belongs to somebody who is due.\<close>

lemma due_or_timed:
  assumes wf: "wheel_wf 5000 t (ph_wheel h)" and now: "t \<le> now" and u: "timed cfg t0 h u" "\<not> pc_is_mine cfg u"
    and s: "current h u = Some s" "ps_state s \<noteq> P_OFFLINE"
  shows "has_timer t0 (snd (wheel_fetch now (ph_wheel h))) u (ps_last_federation_update_ts s) \<or>
    u \<in> set (fst (wheel_fetch now (ph_wheel h))) \<and> now - ps_last_federation_update_ts s > FEDERATION_TIMEOUT"
proof -
  let ?d = "ps_last_federation_update_ts s + FEDERATION_TIMEOUT"
  obtain k where k: "(u, k) \<in> wheel_pending (ph_wheel h)" "bucket_key 5000 ?d < k"
    "k \<le> max (bucket_key 5000 ?d) (bucket_key 5000 t0) + 1" using u s unfolding timed_def has_timer_def by blast
  show ?thesis
  proof (cases "k \<le> bucket_key 5000 now")
    case True
    then have "?d < now" using k(2) bucket_key_mono [of 5000 now ?d] by fastforce
    then show ?thesis using wheel.handed_out [OF wf now k(1) True] by auto
  next
    case False
    then have "(u, k) \<in> wheel_pending (snd (wheel_fetch now (ph_wheel h)))" using wheel.not_early [OF wf now k(1)] by simp
    then show ?thesis using k(2,3) unfolding has_timer_def by blast
  qed
qed

lemma pres_base_cong:
  assumes "pres_base cfg t h P" "t \<le> now" "wheel_wf 5000 now (ph_wheel h')" "ph_current_state h' = ph_current_state h"
    "devices_ok cfg (ph_devices h')" "externals_ok cfg (ph_external_syncs h')" "ph_unpersisted h' = ph_unpersisted h"
  shows "pres_base cfg now h' P"
  using assms unfolding pres_base_def by (simp add: stored_def)

lemma externals_ok_filter: "externals_ok cfg E \<Longrightarrow> externals_ok cfg (filter f E)"
  unfolding externals_ok_def by simp blast

text \<open>The pass of the timeouts in its two parts, with what holds between them: who is due is among the
  changes, and everybody else keeps a timer.\<close>

lemma timeouts_parts:
  assumes inv: "pres_inv cfg t0 t h P" and now: "t \<le> now"
  obtains h1 ss cs D where
    "handle_presence_timeouts cfg now h = update_states cfg now cs False (h1\<lparr>ph_devices := D\<rparr>)"
    "handle_timeouts cfg ss (syncing_user_devices h1) (ph_devices h) now [] = Inr (cs, D)"
    "ph_current_state h1 = ph_current_state h" "ph_num_syncs h1 = ph_num_syncs h"
    "ph_external_syncs h1 = ph_external_syncs (fst (pop_expired_processes now h))"
    "distinct (map ps_user_id ss)" "\<forall>s \<in> set ss. s = dict_get (ps_user_id s) (default_presence (ps_user_id s)) (ph_current_state h)"
    "pres_base cfg now (h1\<lparr>ph_devices := D\<rparr>) P" "\<forall>u. u \<in> ps_user_id ` set cs \<or> timed cfg t0 (h1\<lparr>ph_devices := D\<rparr>) u"
    "\<forall>s \<in> set cs. pc_is_mine cfg (ps_user_id s) \<or> ps_state s = P_OFFLINE"
    "\<forall>u s. current h u = Some s \<and> \<not> pc_is_mine cfg u \<and> ps_state s \<noteq> P_OFFLINE \<and>
      now - ps_last_federation_update_ts s > FEDERATION_TIMEOUT \<and> u \<in> set (fst (wheel_fetch now (ph_wheel h))) \<longrightarrow>
      u \<in> ps_user_id ` set cs"
proof -
  have base: "pres_base cfg t h P" and tm: "\<And>u. timed cfg t0 h u" using inv by (simp_all add: pres_inv_def)
  obtain fired w where f: "wheel_fetch now (ph_wheel h) = (fired, w)" by fastforce
  obtain h1 gone where p: "pop_expired_processes now (h\<lparr>ph_wheel := w\<rparr>) = (h1, gone)" by fastforce
  have wf: "wheel_wf 5000 t (ph_wheel h)" using base by (simp add: pres_base_def)
  have h1: "ph_wheel h1 = w" "ph_current_state h1 = ph_current_state h" "ph_devices h1 = ph_devices h"
    "ph_unpersisted h1 = ph_unpersisted h" "externals_ok cfg (ph_external_syncs h1)" "ph_num_syncs h1 = ph_num_syncs h"
    "ph_external_syncs h1 = ph_external_syncs (fst (pop_expired_processes now h))"
    using p base by (auto simp: pop_expired_processes_def Let_def pres_base_def intro!: externals_ok_filter)
  let ?st = "\<lambda>u. dict_get u (default_presence u) (ph_current_state h)"
  let ?ss = "map ?st (remdups (fired @ gone))"
  have id: "ps_user_id (?st u) = u" for u
    using base by (simp add: pres_base_def dict_get_def default_presence_def split: option.split)
  have dev: "devices_ok cfg (ph_devices h)" using base by (simp add: pres_base_def)
  obtain cs D where c: "handle_timeouts cfg ?ss (syncing_user_devices h1) (ph_devices h) now [] = Inr (cs, D)" "devices_ok cfg D"
    "\<forall>s \<in> set cs. pc_is_mine cfg (ps_user_id s) \<or> ps_state s = P_OFFLINE"
    "\<forall>s \<in> set ?ss. \<not> pc_is_mine cfg (ps_user_id s) \<and> ps_state s \<noteq> P_OFFLINE \<and>
      now - ps_last_federation_update_ts s > FEDERATION_TIMEOUT \<longrightarrow> ps_user_id s \<in> ps_user_id ` set cs"
    using handle_timeouts_ok [OF dev, of "[]" ?ss "syncing_user_devices h1" now] by auto
  let ?h = "h1\<lparr>ph_devices := D\<rparr>"
  have w: "wheel_wf 5000 now w" using wheel.take_due [OF wf now] f by simp
  have due: "u \<in> ps_user_id ` set cs" if "current h u = Some s" "\<not> pc_is_mine cfg u" "ps_state s \<noteq> P_OFFLINE"
    "now - ps_last_federation_update_ts s > FEDERATION_TIMEOUT" "u \<in> set fired" for u s
  proof -
    have "s \<in> set ?ss" using that(1,5) by (force simp: dict_get_def)
    moreover have "ps_user_id s = u" using base that(1) by (simp add: pres_base_def)
    ultimately show ?thesis using c(4) that by blast
  qed
  have tm': "u \<in> ps_user_id ` set cs \<or> timed cfg t0 ?h u" for u
  proof (rule disjCI)
    assume "\<not> timed cfg t0 ?h u"
    then obtain s where "\<not> pc_is_mine cfg u" "current h u = Some s" "ps_state s \<noteq> P_OFFLINE"
      "\<not> has_timer t0 w u (ps_last_federation_update_ts s)" by (auto simp: timed_def h1)
    then show "u \<in> ps_user_id ` set cs" using due_or_timed [OF wf now tm] due f by fastforce
  qed
  show ?thesis
  proof (rule that)
    show "handle_presence_timeouts cfg now h = update_states cfg now cs False ?h"
      using c(1) by (simp add: handle_presence_timeouts_def f p h1(2,3))
    show "distinct (map ps_user_id ?ss)" by (simp add: comp_def id)
    show "\<forall>s \<in> set ?ss. s = dict_get (ps_user_id s) (default_presence (ps_user_id s)) (ph_current_state h)" by (simp add: id)
    show "pres_base cfg now ?h P" by (rule pres_base_cong [OF base now]) (simp_all add: h1(1-6) w c(2))
  qed (use c(1,3) h1 tm' due f in auto)
qed

lemma presence_timeouts_inv:
  assumes cfg: "pc_track_presence cfg" "pc_presence_enabled cfg" and inv: "pres_inv cfg t0 t h P" and now: "t \<le> now"
  shows "\<exists>h' n p. handle_presence_timeouts cfg now h = Inr (h', n, p) \<and> pres_inv cfg t0 now h' (persist n P) \<and>
    (\<forall>u s. current h u = Some s \<and> \<not> pc_is_mine cfg u \<and> (ps_state s = P_OFFLINE \<or>
      now - ps_last_federation_update_ts s > FEDERATION_TIMEOUT \<and> u \<in> set (fst (wheel_fetch now (ph_wheel h)))) \<longrightarrow>
      (\<exists>s'. current h' u = Some s' \<and> ps_state s' = P_OFFLINE))"
proof (rule timeouts_parts [OF inv now])
  fix h1 :: presence_handler and ss cs D
  let ?h = "h1\<lparr>ph_devices := D\<rparr>"
  assume eq: "handle_presence_timeouts cfg now h = update_states cfg now cs False ?h"
    and h1: "ph_current_state h1 = ph_current_state h" and base: "pres_base cfg now ?h P"
    and tm: "\<forall>u. u \<in> ps_user_id ` set cs \<or> timed cfg t0 ?h u"
    and off: "\<forall>s \<in> set cs. pc_is_mine cfg (ps_user_id s) \<or> ps_state s = P_OFFLINE"
    and due: "\<forall>u s. current h u = Some s \<and> \<not> pc_is_mine cfg u \<and> ps_state s \<noteq> P_OFFLINE \<and>
      now - ps_last_federation_update_ts s > FEDERATION_TIMEOUT \<and> u \<in> set (fst (wheel_fetch now (ph_wheel h))) \<longrightarrow>
      u \<in> ps_user_id ` set cs"
  obtain w c x n p where r: "update_states cfg now cs False ?h =
      Inr (?h\<lparr>ph_wheel := w, ph_current_state := c, ph_unpersisted := x\<rparr>, n, p)"
    "pres_inv cfg t0 now (?h\<lparr>ph_wheel := w, ph_current_state := c, ph_unpersisted := x\<rparr>) (persist n P)"
    "\<forall>u. u \<notin> ps_user_id ` set cs \<longrightarrow> map_of c u = current ?h u"
    "\<forall>u \<in> ps_user_id ` set cs. \<exists>s \<in> set cs. ps_user_id s = u \<and> (\<exists>s'. map_of c u = Some s' \<and> ps_state s' = ps_state s)"
    using update_states_inv [OF cfg base order_refl, of cs t0 False] tm off by blast
  have "\<exists>s'. map_of c u = Some s' \<and> ps_state s' = P_OFFLINE" if u: "current h u = Some s" "\<not> pc_is_mine cfg u"
    "ps_state s = P_OFFLINE \<or> now - ps_last_federation_update_ts s > FEDERATION_TIMEOUT \<and>
      u \<in> set (fst (wheel_fetch now (ph_wheel h)))" for u s
  proof (cases "u \<in> ps_user_id ` set cs")
    case True
    then show ?thesis using bspec [OF r(4) True] off u(2) by auto
  next
    case False
    then show ?thesis using due u r(3) h1 by auto
  qed
  then show ?thesis
    using r(1,2) eq by (intro exI [of _ "?h\<lparr>ph_wheel := w, ph_current_state := c, ph_unpersisted := x\<rparr>"] exI [of _ n] exI [of _ p])
      simp
qed

section \<open>The other operations\<close>

lemma pres_inv_cong:
  assumes "pres_inv cfg t0 t h P" "t \<le> now" "ph_wheel h' = ph_wheel h" "ph_current_state h' = ph_current_state h"
    "devices_ok cfg (ph_devices h')" "externals_ok cfg (ph_external_syncs h')" "ph_unpersisted h' = ph_unpersisted h"
  shows "pres_inv cfg t0 now h' P"
proof -
  have "wheel_wf 5000 now (ph_wheel h')"
    using assms(1-3) bucket_key_mono [of 5000 t now] by (auto simp: pres_inv_def pres_base_def wheel_wf_def)
  moreover have "timed cfg t0 h' u" for u
    using assms timed_mono [of cfg t0 h u h'] by (simp add: pres_inv_def)
  ultimately show ?thesis using assms pres_base_cong [of cfg t h P now h'] by (simp add: pres_inv_def)
qed

lemma pres_inv_parts:
  assumes "pres_inv cfg t0 t h P"
  shows "devices_ok cfg (ph_devices h)" "externals_ok cfg (ph_external_syncs h)"
    "current h u = Some s \<Longrightarrow> ps_user_id s = u" "P u = Some s \<Longrightarrow> ps_user_id s = u"
  using assms by (simp_all add: pres_inv_def pres_base_def)

lemma current_state_inv:
  assumes inv: "pres_inv cfg t0 t h P" and r: "current_state_for_user P u h = (s, h')"
  shows "pres_inv cfg t0 t h' P" "ps_user_id s = u" "\<exists>c. h' = h\<lparr>ph_current_state := c\<rparr>"
proof -
  consider "h' = h" "current h u = Some s \<or> P u = Some s"
    | "current h u = None" "P u = None" "s = default_presence u"
      "h' = h\<lparr>ph_current_state := dict_set u (default_presence u) (ph_current_state h)\<rparr>"
    using r by (auto simp: current_state_for_user_def split: option.splits)
  then have "pres_inv cfg t0 t h' P \<and> ps_user_id s = u \<and> (\<exists>c. h' = h\<lparr>ph_current_state := c\<rparr>)"
  proof cases
    case 1
    then show ?thesis using inv pres_inv_parts(3,4) [OF inv] by (auto intro!: exI [of _ "ph_current_state h"])
  next
    case 2
    have "timed cfg t0 h' v" for v using inv 2 by (auto simp: pres_inv_def timed_def default_presence_def)
    moreover have "pres_base cfg t h' P"
      using inv 2 by (auto simp: pres_inv_def pres_base_def stored_def default_presence_def)
    ultimately show ?thesis using 2 by (auto simp: pres_inv_def default_presence_def)
  qed
  then show "pres_inv cfg t0 t h' P" "ps_user_id s = u" "\<exists>c. h' = h\<lparr>ph_current_state := c\<rparr>" by auto
qed

lemma change_device_inv:
  assumes inv: "pres_inv cfg t0 t h P" and f: "\<And>d. dp_state d \<in> presence_states \<Longrightarrow> dp_state (f d) \<in> presence_states"
  shows "pres_inv cfg t0 t (change_device u d f h) P"
proof -
  have sub: "snd ` set (dict_set k v ds) \<subseteq> insert v (snd ` set ds)" for k :: "string option" and v :: device_presence and ds
    by (induction ds) auto
  have "dp_state (f (dict_get d (default_device u d) ds)) \<in> presence_states"
    if "\<forall>x \<in> snd ` set ds. dp_state x \<in> presence_states" for ds
    using that by (intro f) (force simp: dict_get_def default_device_def dest: map_of_SomeD split: option.split)
  then have "devices_ok cfg (ph_devices (change_device u d f h))"
    using pres_inv_parts(1) [OF inv] sub unfolding change_device_def Let_def
    by (simp, intro devices_ok_set) (fastforce simp: devices_ok_def)+
  then show ?thesis
    using pres_inv_parts(2) [OF inv] by (intro pres_inv_cong [OF inv]) (simp_all add: change_device_def Let_def)
qed


lemma update_inv:
  assumes "pc_track_presence cfg" "pc_presence_enabled cfg" and inv: "pres_inv cfg t0 t h P" and now: "t \<le> now"
    and ss: "\<And>s. s \<in> set ss \<Longrightarrow> pc_is_mine cfg (ps_user_id s) \<or> ps_last_federation_update_ts s = now"
  obtains h' n p where "update_states cfg now ss force h = Inr (h', n, p)" "pres_inv cfg t0 now h' (persist n P)"
    "ph_external_syncs h' = ph_external_syncs h"
proof -
  have base: "pres_base cfg t h P" and tm: "u \<in> ps_user_id ` set ss \<or> timed cfg t0 h u" for u
    using inv by (simp_all add: pres_inv_def)
  have fed: "ps_last_federation_update_ts s = now \<or> ps_state s = P_OFFLINE"
    if "s \<in> set ss" "\<not> pc_is_mine cfg (ps_user_id s)" for s using ss that by auto
  obtain w c x n p where "update_states cfg now ss force h =
      Inr (h\<lparr>ph_wheel := w, ph_current_state := c, ph_unpersisted := x\<rparr>, n, p)"
    "pres_inv cfg t0 now (h\<lparr>ph_wheel := w, ph_current_state := c, ph_unpersisted := x\<rparr>) (persist n P)"
    using update_states_inv [OF assms(1,2) base now tm fed, of force] by blast
  then show ?thesis by (rule that) simp
qed

lemma combine_devices:
  assumes "pres_inv cfg t0 t h P" "pc_is_mine cfg u"
  obtains p where "combine_device_states (map snd (dict_get u [] (ph_devices h))) = Inr p"
  using combine_device_states_ok [of "map snd (dict_get u [] (ph_devices h))"] pres_inv_parts(1) [OF assms(1)] assms(2)
  by (auto simp: devices_ok_def)

lemma bump_inv:
  assumes cfg: "pc_track_presence cfg" "pc_presence_enabled cfg" and inv: "pres_inv cfg t0 t h P" and now: "t \<le> now"
    and u: "pc_is_mine cfg u"
  shows "\<exists>h' n p. bump_presence_active_time cfg P now u d h = Inr (h', n, p) \<and> pres_inv cfg t0 now h' (persist n P)"
proof -
  let ?f = "\<lambda>d. d\<lparr>dp_last_active_ts := now, dp_state := (if dp_state d = P_UNAVAILABLE then P_ONLINE else dp_state d)\<rparr>"
  obtain s h1 where s: "current_state_for_user P u (change_device u d ?f h) = (s, h1)" by fastforce
  have h1: "pres_inv cfg t0 t h1 P" "ps_user_id s = u"
    by (rule current_state_inv [OF change_device_inv [OF inv] s], simp)+
  obtain p where p: "combine_device_states (map snd (dict_get u [] (ph_devices h1))) = Inr p"
    using combine_devices [OF h1(1) u] by blast
  obtain h' n pg where "update_states cfg now [s\<lparr>ps_last_active_ts := now, ps_state := p\<rparr>] False h1 = Inr (h', n, pg)"
    "pres_inv cfg t0 now h' (persist n P)"
    by (rule update_inv [OF cfg h1(1) now, of "[s\<lparr>ps_last_active_ts := now, ps_state := p\<rparr>]" False]) (simp_all add: h1(2) u)
  then show ?thesis using cfg p s by (simp add: bump_presence_active_time_def)
qed

lemma set_state_inv:
  assumes cfg: "pc_track_presence cfg" "pc_presence_enabled cfg" and inv: "pres_inv cfg t0 t h P" and now: "t \<le> now"
    and u: "pc_is_mine cfg u" and valid: "pr \<in> set (valid_presence cfg)"
  shows "\<exists>h' n p. presence_set_state cfg P now u d pr msg force is_sync h = Inr (h', n, p) \<and> pres_inv cfg t0 now h' (persist n P)"
proof -
  obtain s h1 where s: "current_state_for_user P u h = (s, h1)" by fastforce
  have h1: "pres_inv cfg t0 t h1 P" "ps_user_id s = u" using current_state_inv [OF inv s] by blast+
  let ?pr = "if ps_state s = P_BUSY \<and> is_sync then P_BUSY else pr"
  let ?f = "\<lambda>d. d\<lparr>dp_state := ?pr, dp_last_active_ts := now, dp_last_sync_ts := (if is_sync then now else dp_last_sync_ts d)\<rparr>"
  let ?h = "change_device u d ?f h1"
  have "?pr \<in> presence_states" using valid by (auto simp: valid_presence_def split: if_splits)
  then have h2: "pres_inv cfg t0 t ?h P" by (intro change_device_inv [OF h1(1)]) simp
  obtain p where p: "combine_device_states (map snd (dict_get u [] (ph_devices ?h))) = Inr p"
    using combine_devices [OF h2 u] by blast
  let ?s1 = "if p = P_ONLINE \<or> p = P_BUSY then s\<lparr>ps_state := p, ps_last_active_ts := now\<rparr> else s\<lparr>ps_state := p\<rparr>"
  let ?s = "if is_sync then ?s1\<lparr>ps_last_user_sync_ts := now\<rparr> else ?s1\<lparr>ps_status_msg := msg\<rparr>"
  obtain h' n pg where "update_states cfg now [?s] force ?h = Inr (h', n, pg)" "pres_inv cfg t0 now h' (persist n P)"
    by (rule update_inv [OF cfg h2 now, of "[?s]" force]) (simp_all add: h1(2) u)
  moreover have "presence_set_state cfg P now u d pr msg force is_sync h = update_states cfg now [?s] force ?h"
    using cfg valid by (simp only: presence_set_state_def Let_def s prod.case p bindR_Inr simp_thms if_False)
  ultimately show ?thesis by (intro exI conjI) (erule trans)
qed


lemma syncing_inv:
  assumes cfg: "pc_track_presence cfg" "pc_presence_enabled cfg" and inv: "pres_inv cfg t0 t h P" and now: "t \<le> now"
    and u: "pc_is_mine cfg u" and valid: "pr \<in> set (valid_presence cfg)"
  shows "\<exists>h' n p. user_syncing cfg P now u d affect pr h = (h', Inr (n, p)) \<and> pres_inv cfg t0 now h' (persist n P)"
proof (cases affect)
  case True
  let ?h = "h\<lparr>ph_num_syncs := dict_set (u, d) (dict_get (u, d) 0 (ph_num_syncs h) + 1) (ph_num_syncs h)\<rparr>"
  have "pres_inv cfg t0 t ?h P" by (rule pres_inv_cong [OF inv]) (simp_all add: pres_inv_parts [OF inv])
  from set_state_inv [OF cfg this now u valid, of d None False True] show ?thesis
    using True cfg by (auto simp: user_syncing_def Let_def)
next
  case False
  have "pres_inv cfg t0 now h P" by (rule pres_inv_cong [OF inv now]) (simp_all add: pres_inv_parts [OF inv])
  then show ?thesis using False by (simp add: user_syncing_def persist_def)
qed

text \<open>A sync with a presence that is not valid is counted and changes nothing else.\<close>

lemma syncing_raises:
  assumes inv: "pres_inv cfg t0 t h P" and now: "t \<le> now" and r: "user_syncing cfg P now u d affect pr h = (h', Inl e)"
    and cfg: "pc_track_presence cfg" "pc_presence_enabled cfg" and u: "pc_is_mine cfg u"
  shows "pres_inv cfg t0 now h' P" "\<exists>k. h' = h\<lparr>ph_num_syncs := k\<rparr>"
proof -
  show h': "\<exists>k. h' = h\<lparr>ph_num_syncs := k\<rparr>"
    using r by (auto simp: user_syncing_def Let_def split: if_splits sum.splits)
  then show "pres_inv cfg t0 now h' P"
    by (intro pres_inv_cong [OF inv now]) (auto simp: pres_inv_parts [OF inv])
qed

lemma sync_end_inv:
  assumes cfg: "pc_track_presence cfg" "pc_presence_enabled cfg" and inv: "pres_inv cfg t0 t h P" and now: "t \<le> now"
    and u: "pc_is_mine cfg u"
  shows "\<exists>h' n p. user_syncing_end cfg P now u d h = Inr (h', n, p) \<and> pres_inv cfg t0 now h' (persist n P)"
proof (cases "map_of (ph_num_syncs h) (u, d)")
  case None
  have "pres_inv cfg t0 now h P" by (rule pres_inv_cong [OF inv now]) (simp_all add: pres_inv_parts [OF inv])
  then show ?thesis using None by (simp add: user_syncing_end_def persist_def)
next
  case (Some m)
  let ?h = "h\<lparr>ph_num_syncs := dict_set (u, d) (m - 1) (ph_num_syncs h)\<rparr>"
  have h: "pres_inv cfg t0 t ?h P" by (rule pres_inv_cong [OF inv]) (simp_all add: pres_inv_parts [OF inv])
  obtain s h1 where s: "current_state_for_user P u ?h = (s, h1)" by fastforce
  have h1: "pres_inv cfg t0 t h1 P" "ps_user_id s = u" using current_state_inv [OF h s] by blast+
  obtain h' n pg where "update_states cfg now [s\<lparr>ps_last_user_sync_ts := now\<rparr>] False h1 = Inr (h', n, pg)"
    "pres_inv cfg t0 now h' (persist n P)"
    by (rule update_inv [OF cfg h1(1) now, of "[s\<lparr>ps_last_user_sync_ts := now\<rparr>]" False]) (simp_all add: h1(2) u)
  then show ?thesis using Some s by (simp add: user_syncing_end_def)
qed

lemma externals_ok_set:
  "externals_ok cfg E \<Longrightarrow> \<forall>x \<in> set l. pc_is_mine cfg (fst x) \<Longrightarrow> externals_ok cfg (dict_set p l E)"
  unfolding externals_ok_def using dict_set_subset [of p l E] by blast

lemma externals_ok_get: "externals_ok cfg E \<Longrightarrow> \<forall>x \<in> set (dict_get p [] E). pc_is_mine cfg (fst x)"
  unfolding externals_ok_def by (cases "map_of E p") (auto simp: dict_get_def dest!: map_of_SomeD, blast)

lemma external_row_inv:
  assumes cfg: "pc_track_presence cfg" "pc_presence_enabled cfg" and inv: "pres_inv cfg t0 t h P" and now: "t \<le> now"
    and u: "pc_is_mine cfg u"
  shows "\<exists>h' n p. update_external_syncs_row cfg P now pid u d is_syncing ts h = Inr (h', n, p) \<and>
    pres_inv cfg t0 now h' (persist n P)"
proof -
  obtain s h1 where s: "current_state_for_user P u h = (s, h1)" by fastforce
  have h1: "pres_inv cfg t0 t h1 P" "ps_user_id s = u" using current_state_inv [OF inv s] by blast+
  let ?l = "dict_get pid [] (ph_external_syncs h1)"
  let ?h = "h1\<lparr>ph_external_syncs := dict_set pid ?l (ph_external_syncs h1)\<rparr>"
  have l: "\<forall>x \<in> set ?l. pc_is_mine cfg (fst x)" using pres_inv_parts(2) [OF h1(1)] by (rule externals_ok_get)
  have ext: "externals_ok cfg (dict_set pid l E)" if "externals_ok cfg E" "set l \<subseteq> insert (u, d) (set ?l)" for l E
    using that u l by (intro externals_ok_set) auto
  have h2: "pres_inv cfg t0 t ?h P"
    by (rule pres_inv_cong [OF h1(1)]) (auto simp: pres_inv_parts [OF h1(1)] intro: ext)
  have upd: "pres_inv cfg t0 now (k\<lparr>ph_external_syncs := dict_set pid l (ph_external_syncs k),
      ph_external_updated := e\<rparr>) Q" if "pres_inv cfg t0 t' k Q" "t' \<le> now" "set l \<subseteq> insert (u, d) (set ?l)" for k Q l e t'
    using that by (intro pres_inv_cong [OF that(1,2)]) (simp_all add: pres_inv_parts [OF that(1)] ext)
  show ?thesis
  proof (cases "\<not> is_syncing \<and> (u, d) \<in> set ?l")
    case True
    let ?k = "change_device u d (\<lambda>d. d\<lparr>dp_last_sync_ts := ts\<rparr>) ?h"
    have k: "pres_inv cfg t0 t ?k P" by (rule change_device_inv [OF h2]) simp
    obtain h' n pg where r: "update_states cfg now [s\<lparr>ps_last_user_sync_ts := ts\<rparr>] False ?k = Inr (h', n, pg)"
      "pres_inv cfg t0 now h' (persist n P)"
      by (rule update_inv [OF cfg k now, of "[s\<lparr>ps_last_user_sync_ts := ts\<rparr>]" False]) (simp_all add: h1(2) u)
    show ?thesis
      using True r(1) s upd [OF r(2) order_refl, of "filter (\<lambda>x. x \<noteq> (u, d)) ?l" "dict_set pid now (ph_external_updated h')"]
      by (auto simp: update_external_syncs_row_def)
  next
    case False
    have "set ?l \<subseteq> insert (u, d) (set ?l)" "set (?l @ [(u, d)]) \<subseteq> insert (u, d) (set ?l)" by auto
    from upd [OF h1(1) now this(1)] upd [OF h2 now this(2)] False show ?thesis
      using s by (auto simp: update_external_syncs_row_def Let_def persist_def)
  qed
qed


lemma current_states_inv:
  "pres_inv cfg t0 t h P \<Longrightarrow> current_state_for_users P us h = (ss, h') \<Longrightarrow> pres_inv cfg t0 t h' P \<and> map ps_user_id ss = us"
proof (induction us arbitrary: h ss)
  case (Cons u us)
  obtain s h1 where s: "current_state_for_user P u h = (s, h1)" by fastforce
  obtain ss' where ss: "current_state_for_users P us h1 = (ss', h')" "ss = s # ss'"
    using Cons.prems(2) by (auto simp: s split: prod.splits)
  show ?case using Cons.IH [OF current_state_inv(1) [OF Cons.prems(1) s] ss(1)] current_state_inv(2) [OF Cons.prems(1) s] ss(2) by simp
qed simp

lemma external_clear_inv:
  assumes cfg: "pc_track_presence cfg" "pc_presence_enabled cfg" and inv: "pres_inv cfg t0 t h P" and now: "t \<le> now"
  shows "\<exists>h' n p. update_external_syncs_clear cfg P now pid h = Inr (h', n, p) \<and> pres_inv cfg t0 now h' (persist n P)"
proof -
  let ?l = "dict_get pid [] (ph_external_syncs h)"
  let ?h = "h\<lparr>ph_external_syncs := dict_pop pid (ph_external_syncs h)\<rparr>"
  let ?k = "fold (\<lambda>(u, d). change_device u d (\<lambda>x. x\<lparr>dp_last_sync_ts := now\<rparr>)) ?l ?h"
  have h: "pres_inv cfg t0 t ?h P"
    by (rule pres_inv_cong [OF inv]) (simp_all add: pres_inv_parts [OF inv] dict_pop_def externals_ok_filter)
  have "pres_inv cfg t0 t k P \<Longrightarrow> pres_inv cfg t0 t (fold (\<lambda>(u, d). change_device u d (\<lambda>x. x\<lparr>dp_last_sync_ts := now\<rparr>)) l k) P" for l k
    by (induction l arbitrary: k) (auto simp: change_device_inv)
  from this [OF h] have k: "pres_inv cfg t0 t ?k P" .
  obtain ss h1 where s: "current_state_for_users P (remdups (map fst ?l)) ?k = (ss, h1)" by fastforce
  have h1: "pres_inv cfg t0 t h1 P" "map ps_user_id ss = remdups (map fst ?l)" using current_states_inv [OF k s] by auto
  have "ps_user_id ` set ss = fst ` set ?l" using arg_cong [OF h1(2), of set] by simp
  then have mine: "pc_is_mine cfg (ps_user_id s)" if "s \<in> set ss" for s
    using that externals_ok_get [OF pres_inv_parts(2) [OF inv], of pid] by (metis imageE imageI)
  obtain h' n pg where r: "update_states cfg now (map (\<lambda>s. s\<lparr>ps_last_user_sync_ts := now\<rparr>) ss) False h1 = Inr (h', n, pg)"
    "pres_inv cfg t0 now h' (persist n P)"
    by (rule update_inv [OF cfg h1(1) now, of "map (\<lambda>s. s\<lparr>ps_last_user_sync_ts := now\<rparr>) ss" False]) (auto simp: mine)
  have "pres_inv cfg t0 now (h'\<lparr>ph_external_updated := e\<rparr>) (persist n P)" for e
    by (rule pres_inv_cong [OF r(2)]) (simp_all add: pres_inv_parts [OF r(2)])
  then show ?thesis using r(1) s by (simp add: update_external_syncs_clear_def Let_def)
qed

lemma incoming_updates_cases:
  assumes "incoming_updates P now origin (push # pushes) h us = Inr r"
  obtains (skip) "incoming_updates P now origin pushes h us = Inr r"
  | (update) u s where "incoming_updates P now origin pushes (snd (current_state_for_user P u h)) (us @ [s]) = Inr r"
      "ps_last_federation_update_ts s = now" "pp_user_id push = Some u" "get_domain_from_id u = Inr origin"
      "ps_user_id s = ps_user_id (fst (current_state_for_user P u h))"
proof (cases "incoming_updates P now origin pushes h us = Inr r")
  case False
  then obtain u pr where u: "pp_user_id push = Some u" "pp_presence push = Some pr" "u \<noteq> ''''" "pr \<noteq> ''''"
    "get_domain_from_id u = Inr origin" "is_compliant_user_id u"
    using assms by (auto simp: bindR_eq_Inr split: option.splits if_splits)
  obtain v h1 where v: "current_state_for_user P u h = (v, h1)" by fastforce
  let ?s = "v\<lparr>ps_state := pr, ps_last_federation_update_ts := now,
    ps_last_active_ts := (case pp_last_active_ago push of None \<Rightarrow> ps_last_active_ts v | Some ago \<Rightarrow> now - ago),
    ps_status_msg := pp_status_msg push,
    ps_currently_active := (case pp_currently_active push of None \<Rightarrow> False | Some b \<Rightarrow> b)\<rparr>"
  show ?thesis by (rule update [of u ?s]) (use assms u v in simp_all)
qed (rule skip)

lemma incoming_updates_inv:
  assumes "pres_inv cfg t0 t h P" "incoming_updates P now origin pushes h us = Inr (us', h')"
    "\<forall>s \<in> set us. ps_last_federation_update_ts s = now"
  shows "pres_inv cfg t0 t h' P \<and> (\<forall>s \<in> set us'. ps_last_federation_update_ts s = now)"
  using assms
proof (induction pushes arbitrary: h us)
  case (Cons push pushes)
  from Cons.prems(2) show ?case
  proof (cases rule: incoming_updates_cases)
    case skip
    then show ?thesis using Cons by blast
  next
    case (update u s)
    obtain v h1 where v: "current_state_for_user P u h = (v, h1)" by fastforce
    show ?thesis
      using Cons.IH [of h1 "us @ [s]"] current_state_inv(1) [OF Cons.prems(1) v] Cons.prems(3) update v by auto
  qed
qed simp

lemma incoming_inv:
  assumes cfg: "pc_track_presence cfg" "pc_presence_enabled cfg" and inv: "pres_inv cfg t0 t h P" and now: "t \<le> now"
    and r: "incoming_presence cfg P now origin pushes h = Inr (h', n, p)"
  shows "pres_inv cfg t0 now h' (persist n P)"
proof -
  obtain us h1 where u: "incoming_updates P now origin pushes h [] = Inr (us, h1)"
    "(if us = [] then Inr (h1, [], []) else update_states cfg now us False h1) = Inr (h', n, p)"
    using r cfg by (auto simp: incoming_presence_def bindR_eq_Inr)
  have h1: "pres_inv cfg t0 t h1 P" "\<forall>s \<in> set us. ps_last_federation_update_ts s = now"
    using incoming_updates_inv [OF inv u(1)] by simp_all
  show ?thesis
  proof (cases "us = []")
    case True
    then show ?thesis
      using u(2) pres_inv_cong [OF h1(1) now, of h1] pres_inv_parts [OF h1(1)] by (simp add: persist_def)
  next
    case False
    obtain h2 n2 p2 where "update_states cfg now us False h1 = Inr (h2, n2, p2)" "pres_inv cfg t0 now h2 (persist n2 P)"
      by (rule update_inv [OF cfg h1(1) now, of us False]) (simp_all add: h1(2))
    then show ?thesis using u(2) False by simp
  qed
qed

lemma persist_inv:
  assumes inv: "pres_inv cfg t0 t h P" and now: "t \<le> now"
  shows "\<exists>h' n p. persist_unpersisted_changes h = Inr (h', n, p) \<and> pres_inv cfg t0 now h' (persist n P)"
proof -
  let ?n = "List.map_filter (current h) (ph_unpersisted h)"
  have all: "\<forall>u \<in> set (ph_unpersisted h). current h u \<noteq> None" and ids: "current h u = Some s \<Longrightarrow> ps_user_id s = u" for u s
    using inv by (auto simp: pres_inv_def pres_base_def)
  have n: "set ?n = {s. \<exists>u \<in> set (ph_unpersisted h). current h u = Some s}" by (auto simp: set_map_filter)
  then have "\<forall>s \<in> set ?n. current h (ps_user_id s) = Some s" using ids by auto
  moreover have "ps_user_id ` set ?n = set (ph_unpersisted h)" using n all ids by force
  ultimately have P: "persist ?n P u = (if u \<in> set (ph_unpersisted h) then current h u else P u)" for u
    using persist_states [of ?n "current h" P u] by simp
  let ?h = "h\<lparr>ph_unpersisted := []\<rparr>"
  have "stored (persist ?n P) ?h u" for u
    using inv by (cases "u \<in> set (ph_unpersisted h)") (simp_all add: stored_def P pres_inv_def pres_base_def)
  then have "pres_base cfg t ?h (persist ?n P)"
    using inv unfolding pres_inv_def pres_base_def P by auto
  then have "pres_inv cfg t0 t ?h (persist ?n P)" using inv by (simp add: pres_inv_def timed_def)
  from pres_inv_cong [OF this now, of ?h] pres_inv_parts [OF inv] have "pres_inv cfg t0 now ?h (persist ?n P)" by simp
  then show ?thesis using all by (auto simp: persist_unpersisted_changes_def list_all_iff)
qed


section \<open>Start-up\<close>

lemma start_timers_ok:
  assumes "wheel_wf 5000 now (ph_wheel h)" "devices_ok cfg (ph_devices h)"
    "\<forall>s \<in> set ss. pc_is_mine cfg (ps_user_id s) \<longrightarrow> ps_state s \<in> presence_states"
  shows "\<exists>w D. start_timers cfg now ss h = Inr (h\<lparr>ph_devices := D, ph_wheel := w\<rparr>) \<and> wheel_wf 5000 now w \<and> devices_ok cfg D \<and>
    wheel_pending (ph_wheel h) \<subseteq> wheel_pending w \<and>
    (\<forall>s \<in> set ss. \<not> pc_is_mine cfg (ps_user_id s) \<longrightarrow> has_timer now w (ps_user_id s) (ps_last_federation_update_ts s))"
  using assms
proof (induction ss arbitrary: h)
  case Nil
  then show ?case by (intro exI [of _ "ph_wheel h"] exI [of _ "ph_devices h"]) simp
next
  case (Cons s ss)
  let ?u = "ps_user_id s"
  let ?due = "ps_last_federation_update_ts s + (if pc_is_mine cfg ?u then FEDERATION_PING_INTERVAL else FEDERATION_TIMEOUT)"
  obtain w1 where w1: "insert_if True now ?u (ps_last_active_ts s + pc_idle_timer cfg) (ph_wheel h) = Inr w1"
    "wheel_wf 5000 now w1" "wheel_pending (ph_wheel h) \<subseteq> wheel_pending w1" by (rule insert_if_ok [OF Cons.prems(1) order_refl])
  obtain w2 where w2: "insert_if True now ?u (ps_last_user_sync_ts s + pc_sync_online_timeout cfg) w1 = Inr w2"
    "wheel_wf 5000 now w2" "wheel_pending w1 \<subseteq> wheel_pending w2" by (rule insert_if_ok [OF w1(2) order_refl])
  obtain w3 where w3: "insert_if True now ?u ?due w2 = Inr w3" "wheel_wf 5000 now w3" "wheel_pending w2 \<subseteq> wheel_pending w3"
    "True \<and> (now \<le> ?due \<or> now \<le> now) \<longrightarrow> has_timer now w3 ?u (?due - FEDERATION_TIMEOUT)"
    by (rule insert_if_ok [OF w2(2) order_refl])
  let ?ds = "[(None, \<lparr>dp_user_id = ?u, dp_device_id = None, dp_state = ps_state s,
    dp_last_active_ts = ps_last_active_ts s, dp_last_sync_ts = ps_last_user_sync_ts s\<rparr>)]"
  let ?h = "h\<lparr>ph_devices := dict_set ?u ?ds (ph_devices h), ph_wheel := w3\<rparr>"
  have "devices_ok cfg (ph_devices ?h)" using Cons.prems(2,3) by (simp add: devices_ok_set)
  then obtain w D where r: "start_timers cfg now ss ?h = Inr (?h\<lparr>ph_devices := D, ph_wheel := w\<rparr>)" "wheel_wf 5000 now w"
    "devices_ok cfg D" "wheel_pending w3 \<subseteq> wheel_pending w"
    "\<forall>s \<in> set ss. \<not> pc_is_mine cfg (ps_user_id s) \<longrightarrow> has_timer now w (ps_user_id s) (ps_last_federation_update_ts s)"
    using Cons.IH [of ?h] Cons.prems(3) w3(2) by auto
  have "start_timers cfg now (s # ss) h = start_timers cfg now ss ?h"
    using w1(1) w2(1) w3(1) by (simp add: insert_if_def Let_def)
  moreover have "\<not> pc_is_mine cfg ?u \<longrightarrow> has_timer now w ?u (ps_last_federation_update_ts s)"
    using w3(4) has_timer_mono [OF _ r(4)] by auto
  moreover have "wheel_pending (ph_wheel h) \<subseteq> wheel_pending w" using w1(3) w2(3) w3(3) r(4) by blast
  ultimately show ?case using r(1-3,5) by (intro exI [of _ w] exI [of _ D]) simp
qed

lemma start_inv:
  assumes cfg: "pc_track_presence cfg" and now: "0 \<le> now"
    and P: "\<forall>u s. P u = Some s \<longrightarrow> ps_user_id s = u" and rows: "\<forall>s \<in> set rows. P (ps_user_id s) = Some s"
    and rest: "\<forall>u s. P u = Some s \<and> ps_state s \<noteq> P_OFFLINE \<longrightarrow> s \<in> set rows"
    and valid: "\<forall>s \<in> set rows. pc_is_mine cfg (ps_user_id s) \<longrightarrow> ps_state s \<in> presence_states"
  shows "\<exists>h. new_presence_handler cfg now rows = Inr h \<and> pres_inv cfg now now h P"
proof -
  define c where "c = fold (\<lambda>s. dict_set (ps_user_id s) s) rows []"
  have c: "dict_wf c" "\<forall>u v. (u, v) \<in> set c \<longrightarrow> ps_user_id v = u \<and> v \<in> set rows" "fst ` set c = ps_user_id ` set rows"
    using last_states [of "[]" rows] by (auto simp: c_def)
  let ?h = "\<lparr>ph_current_state = c, ph_devices = [], ph_wheel = new_wheel_timer 5000, ph_num_syncs = [],
    ph_external_syncs = [], ph_external_updated = [], ph_unpersisted = []\<rparr>"
  have "wheel_wf 5000 now (ph_wheel ?h)" "devices_ok cfg (ph_devices ?h)"
    "\<forall>s \<in> set (map snd c). pc_is_mine cfg (ps_user_id s) \<longrightarrow> ps_state s \<in> presence_states"
    using valid c(2) by (auto simp: wheel_wf_def new_wheel_timer_def consecutive_def devices_ok_def dict_get_def)
  from start_timers_ok [OF this] obtain w D where r: "start_timers cfg now (map snd c) ?h = Inr (?h\<lparr>ph_devices := D, ph_wheel := w\<rparr>)"
    "wheel_wf 5000 now w" "devices_ok cfg D"
    "\<forall>s \<in> set (map snd c). \<not> pc_is_mine cfg (ps_user_id s) \<longrightarrow> has_timer now w (ps_user_id s) (ps_last_federation_update_ts s)"
    by blast
  let ?h' = "?h\<lparr>ph_devices := D, ph_wheel := w\<rparr>"
  have cur: "ps_user_id s = u" "s \<in> set rows" "s \<in> set (map snd c)" if "map_of c u = Some s" for u s
    using map_of_SomeD [OF that] c(2) by (auto intro: rev_image_eqI)
  have "timed cfg now ?h' u" for u
    using bspec [OF r(4) cur(3)] cur(1) unfolding timed_def by fastforce
  moreover have "ps_state s = P_OFFLINE" if s: "map_of c u = None" "P u = Some s" for u s
  proof (rule ccontr)
    assume "ps_state s \<noteq> P_OFFLINE"
    then have "u \<in> fst ` set c" using rest P s(2) c(3) by blast
    then show False using s(1) by (simp add: map_of_eq_None_iff)
  qed
  ultimately have "pres_base cfg now ?h' P" "timed cfg now ?h' u" for u
    using now r(2,3) cur(1) P bspec [OF rows cur(2)] by (auto simp: pres_base_def stored_def externals_ok_def)
  then have "pres_inv cfg now now ?h' P" by (simp add: pres_inv_def)
  then show ?thesis using r(1) cfg by (simp add: new_presence_handler_def Let_def c_def)
qed


section \<open>The handler in use\<close>

text \<open>The operations other parts of the server call, with those that run by the clock, and the histories of
  a handler with the presence table, from the time \<open>t0\<close> of its start. Clients and workers report local users,
  and other servers their own. A sync request with an invalid presence raises an exception after the sync was
  counted. The other operations check their arguments before they change anything, except that an
  \<^verbatim>\<open>incoming_presence\<close> which fails at a later user has cached the default state of earlier ones who have no row:
  the state that the next look-up gives them again. They make no step when they raise.\<close>

datatype presence_op =
    Op_Timeouts
  | Op_Bump string "string option"
  | Op_Set_State string "string option" string "string option" bool bool
  | Op_Syncing string "string option" bool string
  | Op_Sync_End string "string option"
  | Op_External_Row string string "string option" bool int
  | Op_External_Clear string
  | Op_Incoming string "presence_push list"
  | Op_Persist

fun run_presence_op :: "presence_config \<Rightarrow> (string \<rightharpoonup> user_presence) \<Rightarrow> int \<Rightarrow> presence_op \<Rightarrow> presence_handler \<Rightarrow> presence_result" where
  "run_presence_op cfg db now Op_Timeouts h = handle_presence_timeouts cfg now h"
| "run_presence_op cfg db now (Op_Bump u d) h = bump_presence_active_time cfg db now u d h"
| "run_presence_op cfg db now (Op_Set_State u d pr msg force is_sync) h = presence_set_state cfg db now u d pr msg force is_sync h"
| "run_presence_op cfg db now (Op_Syncing u d affect pr) h =
     (case user_syncing cfg db now u d affect pr h of (_, Inl e) \<Rightarrow> Inl e | (h', Inr (n, p)) \<Rightarrow> Inr (h', n, p))"
| "run_presence_op cfg db now (Op_Sync_End u d) h = user_syncing_end cfg db now u d h"
| "run_presence_op cfg db now (Op_External_Row pid u d is_syncing ts) h = update_external_syncs_row cfg db now pid u d is_syncing ts h"
| "run_presence_op cfg db now (Op_External_Clear pid) h = update_external_syncs_clear cfg db now pid h"
| "run_presence_op cfg db now (Op_Incoming origin pushes) h = incoming_presence cfg db now origin pushes h"
| "run_presence_op cfg db now Op_Persist h = persist_unpersisted_changes h"

fun op_addressed :: "presence_config \<Rightarrow> presence_op \<Rightarrow> bool" where
  "op_addressed cfg (Op_Bump u d) = pc_is_mine cfg u"
| "op_addressed cfg (Op_Set_State u d pr msg force is_sync) = pc_is_mine cfg u"
| "op_addressed cfg (Op_Syncing u d affect pr) = pc_is_mine cfg u"
| "op_addressed cfg (Op_Sync_End u d) = pc_is_mine cfg u"
| "op_addressed cfg (Op_External_Row pid u d is_syncing ts) = pc_is_mine cfg u"
| "op_addressed cfg (Op_Incoming origin pushes) \<longleftrightarrow> list_all (\<lambda>push. case pp_user_id push of
     None \<Rightarrow> True | Some u \<Rightarrow> get_domain_from_id u = Inr origin \<longrightarrow> \<not> pc_is_mine cfg u) pushes"
| "op_addressed cfg _ = True"

inductive presence_run :: "presence_config \<Rightarrow> int \<Rightarrow> int \<Rightarrow> presence_handler \<Rightarrow> (string \<rightharpoonup> user_presence) \<Rightarrow> bool" for cfg where
  presence_start:
  "0 \<le> now \<Longrightarrow> \<forall>u s. P u = Some s \<longrightarrow> ps_user_id s = u \<Longrightarrow> \<forall>s \<in> set rows. P (ps_user_id s) = Some s \<Longrightarrow>
   \<forall>u s. P u = Some s \<and> ps_state s \<noteq> P_OFFLINE \<longrightarrow> s \<in> set rows \<Longrightarrow>
   \<forall>s \<in> set rows. pc_is_mine cfg (ps_user_id s) \<longrightarrow> ps_state s \<in> presence_states \<Longrightarrow>
   new_presence_handler cfg now rows = Inr h \<Longrightarrow> presence_run cfg now now h P"
| presence_step:
  "presence_run cfg t0 t h P \<Longrightarrow> t \<le> now \<Longrightarrow> op_addressed cfg op \<Longrightarrow>
   run_presence_op cfg P now op h = Inr (h', notified, pinged) \<Longrightarrow> presence_run cfg t0 now h' (persist notified P)"
| presence_raise:
  "presence_run cfg t0 t h P \<Longrightarrow> t \<le> now \<Longrightarrow> pc_is_mine cfg u \<Longrightarrow>
   user_syncing cfg P now u d affect pr h = (h', Inl e) \<Longrightarrow> presence_run cfg t0 now h' P"

lemma presence_op_inv:
  assumes cfg: "pc_track_presence cfg" "pc_presence_enabled cfg" and inv: "pres_inv cfg t0 t h P" and now: "t \<le> now"
    and op: "op_addressed cfg op" "run_presence_op cfg P now op h = Inr (h', n, p)"
  shows "pres_inv cfg t0 now h' (persist n P)"
proof (cases op)
  case Op_Timeouts
  then show ?thesis using presence_timeouts_inv [OF cfg inv now] op(2) by auto
next
  case (Op_Bump u d)
  then show ?thesis using bump_inv [OF cfg inv now, of u d] op by auto
next
  case (Op_Set_State u d pr msg force is_sync)
  then have "pr \<in> set (valid_presence cfg)" using op(2) by (auto simp: presence_set_state_def split: if_splits)
  then show ?thesis using Op_Set_State set_state_inv [OF cfg inv now, of u pr d msg force is_sync] op by auto
next
  case (Op_Syncing u d affect pr)
  then have "affect \<Longrightarrow> pr \<in> set (valid_presence cfg)"
    using op(2) cfg by (auto simp: user_syncing_def presence_set_state_def Let_def split: if_splits sum.splits)
  then show ?thesis
    using Op_Syncing syncing_inv [OF cfg inv now, of u pr d affect] syncing_inv [OF cfg inv now, of u P_ONLINE d False] op
    by (cases affect) (auto simp: user_syncing_def valid_presence_def)
next
  case (Op_Sync_End u d)
  then show ?thesis using sync_end_inv [OF cfg inv now, of u d] op by auto
next
  case (Op_External_Row pid u d is_syncing ts)
  then show ?thesis using external_row_inv [OF cfg inv now, of u pid d is_syncing ts] op by auto
next
  case (Op_External_Clear pid)
  then show ?thesis using external_clear_inv [OF cfg inv now, of pid] op by auto
next
  case (Op_Incoming origin pushes)
  then show ?thesis using incoming_inv [OF cfg inv now] op by simp
next
  case Op_Persist
  then show ?thesis using persist_inv [OF inv now] op by auto
qed

lemma presence_run_inv:
  assumes "presence_run cfg t0 t h P" "pc_track_presence cfg" "pc_presence_enabled cfg"
  shows "pres_inv cfg t0 t h P"
  using assms
proof (induction rule: presence_run.induct)
  case (presence_start now P rows h)
  then show ?case using start_inv [of cfg now P rows] by auto
next
  case (presence_step t0 t h P now op h' notified pinged)
  then show ?case using presence_op_inv [of cfg t0 t h P now op h' notified pinged] by simp
next
  case (presence_raise t0 t h P now u d affect pr h' e)
  then show ?case using syncing_raises(1) [of cfg t0 t h P now u d affect pr h' e] by simp
qed


text \<open>A remote user who was online when the server started.\<close>

abbreviation witness_cfg :: presence_config where
  "witness_cfg \<equiv> \<lparr>pc_is_mine = (\<lambda>u. u = ''@a:us''), pc_idle_timer = 300000, pc_sync_online_timeout = 30000,
     pc_last_active_granularity = 60000, pc_presence_enabled = True, pc_track_presence = True, pc_msc3026_enabled = False\<rparr>"

abbreviation witness_row :: user_presence where
  "witness_row \<equiv> \<lparr>ps_user_id = ''@b:them'', ps_state = P_ONLINE, ps_last_active_ts = 1000, ps_last_federation_update_ts = 2000,
     ps_last_user_sync_ts = 0, ps_status_msg = None, ps_currently_active = True\<rparr>"

lemma witness_start:
  obtains h where "new_presence_handler witness_cfg 3000 [witness_row] = Inr h"
    "presence_run witness_cfg 3000 3000 h [''@b:them'' \<mapsto> witness_row]" "current h ''@b:them'' = Some witness_row"
    "ph_unpersisted h = []"
proof -
  let ?P = "[''@b:them'' \<mapsto> witness_row]"
  have P: "\<forall>u s. ?P u = Some s \<longrightarrow> ps_user_id s = u" "\<forall>s \<in> set [witness_row]. ?P (ps_user_id s) = Some s"
    "\<forall>u s. ?P u = Some s \<and> ps_state s \<noteq> P_OFFLINE \<longrightarrow> s \<in> set [witness_row]"
    "\<forall>s \<in> set [witness_row]. pc_is_mine witness_cfg (ps_user_id s) \<longrightarrow> ps_state s \<in> presence_states"
    by (simp_all split: if_splits)
  obtain h where h: "new_presence_handler witness_cfg 3000 [witness_row] = Inr h"
    using start_inv [of witness_cfg 3000 ?P "[witness_row]"] P by auto
  show ?thesis
    by (rule that [OF h presence_start [OF _ P h]]) (use h in \<open>auto simp: new_presence_handler_def bindR_eq_Inr Let_def\<close>)
qed




text \<open>\<^verbatim>\<open>unpersisted_users_changes\<close>. In every state that the handler reaches, the cached state of a user who is not
  recorded as having unpersisted changes is what the table has, or the default where it has nothing; and a
  pass of \<^verbatim>\<open>_persist_unpersisted_changes\<close> returns and leaves the table with the cached state of every user
  whose cached state is not the default.\<close>

lemma unpersisted_changes_known:
  assumes cfg: "pc_track_presence cfg" "pc_presence_enabled cfg" and run: "presence_run cfg t0 t h P"
    and u: "current h u = Some s"
  shows "(u \<notin> set (ph_unpersisted h) \<longrightarrow> P u = Some s \<or> P u = None \<and> s = default_presence u) \<and>
    (\<exists>h' n. persist_unpersisted_changes h = Inr (h', n, []) \<and> ph_unpersisted h' = [] \<and>
      (persist n P u = Some s \<or> persist n P u = None \<and> s = default_presence u))"
proof
  note inv = presence_run_inv [OF run cfg]
  show "u \<notin> set (ph_unpersisted h) \<longrightarrow> P u = Some s \<or> P u = None \<and> s = default_presence u"
    using inv u by (simp add: pres_inv_def pres_base_def stored_def)
  obtain h' n p where r: "persist_unpersisted_changes h = Inr (h', n, p)" "pres_inv cfg t0 t h' (persist n P)"
    using persist_inv [OF inv order_refl] by blast
  then have h': "h' = h\<lparr>ph_unpersisted := []\<rparr>" "p = []" by (auto simp: persist_unpersisted_changes_def split: if_splits)
  then have "stored (persist n P) h' u" using r(2) by (simp add: pres_inv_def pres_base_def)
  then show "\<exists>h' n. persist_unpersisted_changes h = Inr (h', n, []) \<and> ph_unpersisted h' = [] \<and>
      (persist n P u = Some s \<or> persist n P u = None \<and> s = default_presence u)"
    using r(1) h' u by (simp add: stored_def)
qed

lemma unpersisted_changes_known_witness:
  "\<exists>h. new_presence_handler witness_cfg 3000 [witness_row] = Inr h \<and> current h ''@b:them'' = Some witness_row \<and>
    (\<exists>h' n. persist_unpersisted_changes h = Inr (h', n, []) \<and>
      (persist n [''@b:them'' \<mapsto> witness_row] ''@b:them'' = Some witness_row \<or>
       persist n [''@b:them'' \<mapsto> witness_row] ''@b:them'' = None \<and> witness_row = default_presence ''@b:them''))"
proof (rule witness_start)
  fix h assume "new_presence_handler witness_cfg 3000 [witness_row] = Inr h" "current h ''@b:them'' = Some witness_row"
    "presence_run witness_cfg 3000 3000 h [''@b:them'' \<mapsto> witness_row]"
  then show ?thesis
    using unpersisted_changes_known [of witness_cfg 3000 3000 h "[''@b:them'' \<mapsto> witness_row]" "''@b:them''" witness_row] by auto
qed

end
