(* ===== verification/Presence_Devices.thy ===== *)
theory Presence_Devices
  imports Presence_Props
begin

text \<open>
  The state of a local user in the states that the handler of \<^verbatim>\<open>synapse/handlers/presence.py\<close> reaches: it is
  the state of their most present device, and a device with a running sync keeps its user from going
  offline.
\<close>

definition devices_of :: "presence_handler \<Rightarrow> string \<Rightarrow> device_presence list" where
  "devices_of h u = map snd (dict_get u [] (ph_devices h))"

definition presence_of :: "presence_handler \<Rightarrow> string \<Rightarrow> string" where
  "presence_of h u = ps_state (dict_get u (default_presence u) (ph_current_state h))"

definition combined :: "presence_config \<Rightarrow> presence_handler \<Rightarrow> string \<Rightarrow> bool" where
  "combined cfg h u \<longleftrightarrow> pc_is_mine cfg u \<longrightarrow> combine_device_states (devices_of h u) = Inr (presence_of h u)"

text \<open>The combination depends on the states of the devices only.\<close>

lemma combine_max:
  assumes "\<forall>d \<in> set ds. dp_state d \<in> presence_states" "s \<in> insert P_OFFLINE (dp_state ` set ds)"
    "\<forall>d \<in> set ds. presence_rank (dp_state d) \<le> presence_rank s"
  shows "combine_device_states ds = Inr s"
proof -
  obtain s' where s': "combine_device_states ds = Inr s'" "s' \<in> insert P_OFFLINE (dp_state ` set ds)" "s' \<in> presence_states"
    "\<forall>d \<in> set ds. presence_rank (dp_state d) \<le> presence_rank s'"
    using combine_device_states_ok [OF assms(1)] by blast
  have s: "s \<in> presence_states" using assms(1,2) by auto
  have low: "presence_rank P_OFFLINE \<le> presence_rank x" if "x \<in> presence_states" for x
    using that by (auto simp: presence_states_def presence_rank.simps)
  have "presence_rank s = presence_rank s'"
    using assms(2,3) s'(2,4) low [OF s] low [OF s'(3)] by (intro antisym) auto
  then show ?thesis using s'(1) presence_rank_inj [OF s s'(3)] by simp
qed

lemma combine_same_states:
  assumes "\<forall>d \<in> set ds. dp_state d \<in> presence_states"
    "insert P_OFFLINE (dp_state ` set ds') = insert P_OFFLINE (dp_state ` set ds)"
  shows "combine_device_states ds' = combine_device_states ds"
proof -
  have ds': "\<forall>d \<in> set ds'. dp_state d \<in> presence_states"
  proof
    fix d assume "d \<in> set ds'"
    then have "dp_state d \<in> insert P_OFFLINE (dp_state ` set ds)" using assms(2) by blast
    then show "dp_state d \<in> presence_states" using assms(1) by auto
  qed
  obtain s where s: "combine_device_states ds = Inr s" "s \<in> insert P_OFFLINE (dp_state ` set ds)" "s \<in> presence_states"
    "\<forall>d \<in> set ds. presence_rank (dp_state d) \<le> presence_rank s"
    using combine_device_states_ok [OF assms(1)] by blast
  have "presence_rank P_OFFLINE \<le> presence_rank s" using s(3) by (auto simp: presence_states_def presence_rank.simps)
  then have "presence_rank x \<le> presence_rank s" if "x \<in> insert P_OFFLINE (dp_state ` set ds')" for x
    using that s(4) unfolding assms(2) by auto
  then have "\<forall>d \<in> set ds'. presence_rank (dp_state d) \<le> presence_rank s" by simp
  then show ?thesis using combine_max [OF ds', of s] s(1,2) assms(2) by simp
qed

section \<open>Timeouts\<close>

lemma handle_timeout_combined:
  assumes "pc_is_mine cfg (ps_user_id s)" "\<forall>d \<in> snd ` set ds. dp_state d \<in> presence_states"
    "combine_device_states (map snd ds) = Inr (ps_state s)" "handle_timeout cfg s syncing ds now = Inr (r, ds')"
  shows "combine_device_states (map snd ds') = Inr (ps_state (case r of None \<Rightarrow> s | Some s' \<Rightarrow> s'))"
proof (cases "ps_state s = P_OFFLINE")
  case False
  obtain ds1 ch where t: "time_out_devices cfg syncing (ps_user_id s) now ds = (ds1, ch)" by fastforce
  have "ds1 = ds" if "\<not> ch" using t that by (auto simp: time_out_devices_def Let_def list_ex_iff filter_id_conv)
  then show ?thesis
    using False assms(1,3,4) t by (cases ch) (auto simp: handle_timeout_def bindR_eq_Inr split: option.splits if_splits)
qed (use assms in \<open>auto simp: handle_timeout_def\<close>)

lemma handle_timeout_keeps_syncing:
  assumes "handle_timeout cfg s syncing ds now = Inr (r, ds')" "(ps_user_id s, i) \<in> syncing"
    "(i, d) \<in> set ds" "dp_state d \<noteq> P_OFFLINE"
  shows "\<exists>d'. (i, d') \<in> set ds' \<and> dp_state d' \<noteq> P_OFFLINE"
proof -
  have "(i, idle_device cfg now d) \<in> set (fst (time_out_devices cfg syncing (ps_user_id s) now ds))"
    using assms(2,3) by (force simp: time_out_devices_def Let_def device_expired_def)
  moreover have "dp_state (idle_device cfg now d) \<noteq> P_OFFLINE" using assms(4) by (simp add: idle_device_def)
  moreover have "ds' = ds \<or> ds' = fst (time_out_devices cfg syncing (ps_user_id s) now ds)"
    using assms(1) by (auto simp: handle_timeout_def bindR_eq_Inr split: if_splits prod.splits)
  ultimately show ?thesis using assms(3,4) by auto
qed

lemma handle_timeout_no_devices: "handle_timeout cfg s syncing [] now = Inr (r, ds') \<Longrightarrow> ds' = []"
  by (auto simp: handle_timeout_def time_out_devices_def bindR_eq_Inr Let_def split: if_splits)

lemma handle_timeouts_combined:
  assumes "devices_ok cfg D" "distinct (map ps_user_id ss)" "handle_timeouts cfg ss syncing D now ch = Inr (cs, D')"
    "\<forall>s \<in> set ss. pc_is_mine cfg (ps_user_id s) \<longrightarrow> combine_device_states (map snd (dict_get (ps_user_id s) [] D)) = Inr (ps_state s)"
    "\<forall>k v. (k, v) \<in> set ch \<longrightarrow> ps_user_id v = k \<and> k \<notin> ps_user_id ` set ss \<and>
      (pc_is_mine cfg k \<longrightarrow> combine_device_states (map snd (dict_get k [] D)) = Inr (ps_state v))"
  shows "(\<forall>s \<in> set cs. pc_is_mine cfg (ps_user_id s) \<longrightarrow>
      combine_device_states (map snd (dict_get (ps_user_id s) [] D')) = Inr (ps_state s)) \<and>
    (\<forall>s \<in> set ss. pc_is_mine cfg (ps_user_id s) \<longrightarrow> ps_user_id s \<in> ps_user_id ` set cs \<or>
      combine_device_states (map snd (dict_get (ps_user_id s) [] D')) = Inr (ps_state s)) \<and>
    (\<forall>u. u \<notin> ps_user_id ` set ss \<longrightarrow> dict_get u [] D' = dict_get u [] D) \<and>
    (\<forall>s \<in> set ss. \<forall>i d. (ps_user_id s, i) \<in> syncing \<and> (i, d) \<in> set (dict_get (ps_user_id s) [] D) \<and> dp_state d \<noteq> P_OFFLINE \<longrightarrow>
      (\<exists>d'. (i, d') \<in> set (dict_get (ps_user_id s) [] D') \<and> dp_state d' \<noteq> P_OFFLINE)) \<and>
    fst ` set ch \<subseteq> ps_user_id ` set cs"
  using assms
proof (induction ss arbitrary: D ch)
  case Nil
  have "\<exists>x \<in> set ch. ps_user_id (snd x) = k" if "(k, v) \<in> set ch" for k v using Nil that by (auto intro!: bexI [of _ "(k, v)"])
  then show ?case using Nil by (auto simp: image_image image_iff) metis+
next
  case (Cons s ss)
  let ?u = "ps_user_id s" and ?dev = "\<lambda>D u. dict_get u [] D"
  let ?comb = "\<lambda>D u. combine_device_states (map snd (dict_get u [] D))"
  obtain r ds where t: "handle_timeout cfg s syncing (?dev D ?u) now = Inr (r, ds)"
    and rec: "handle_timeouts cfg ss syncing (if map_of D ?u = None then D else dict_set ?u ds D) now
        (case r of None \<Rightarrow> ch | Some s' \<Rightarrow> dict_set ?u s' ch) = Inr (cs, D')"
    using Cons.prems(3) by (auto simp: bindR_eq_Inr)
  define D1 where "D1 = (if map_of D ?u = None then D else dict_set ?u ds D)"
  define ch1 where "ch1 = (case r of None \<Rightarrow> ch | Some s' \<Rightarrow> dict_set ?u s' ch)"
  have other: "?dev D1 u = ?dev D u" if "u \<noteq> ?u" for u using that by (simp add: D1_def dict_get_set)
  have own: "?dev D1 ?u = ds"
    using t handle_timeout_no_devices [of cfg s syncing now r ds] by (auto simp: D1_def dict_get_def)
  obtain r' ds0 where ok: "handle_timeout cfg s syncing (?dev D ?u) now = Inr (r', ds0)"
    "pc_is_mine cfg ?u \<Longrightarrow> \<forall>d \<in> snd ` set ds0. dp_state d \<in> presence_states"
    "\<And>s'. r' = Some s' \<Longrightarrow> ps_user_id s' = ?u"
    using handle_timeout_ok [of cfg s "?dev D ?u" syncing now] Cons.prems(1) unfolding devices_ok_def by blast
  have r: "r' = r" "ds0 = ds" using t ok(1) by simp_all
  have "devices_ok cfg D1" using Cons.prems(1) ok(2) r by (simp add: D1_def devices_ok_set)
  moreover have "\<forall>x \<in> set ss. pc_is_mine cfg (ps_user_id x) \<longrightarrow> ?comb D1 (ps_user_id x) = Inr (ps_state x)"
  proof (intro ballI impI)
    fix x assume x: "x \<in> set ss" "pc_is_mine cfg (ps_user_id x)"
    have "ps_user_id x \<noteq> ?u" using Cons.prems(2) x(1) by (auto simp: image_iff)
    then show "?comb D1 (ps_user_id x) = Inr (ps_state x)" using Cons.prems(4) x other by simp
  qed
  moreover have comb: "?comb D1 ?u = Inr (ps_state (case r of None \<Rightarrow> s | Some s' \<Rightarrow> s'))" if "pc_is_mine cfg ?u"
    unfolding own by (rule handle_timeout_combined [OF that _ _ t]) (use Cons.prems(1,4) that in \<open>auto simp: devices_ok_def\<close>)
  moreover have "\<forall>k v. (k, v) \<in> set ch1 \<longrightarrow> ps_user_id v = k \<and> k \<notin> ps_user_id ` set ss \<and>
      (pc_is_mine cfg k \<longrightarrow> ?comb D1 k = Inr (ps_state v))"
  proof (intro allI impI)
    fix k v assume kv: "(k, v) \<in> set ch1"
    have u: "?u \<notin> fst ` set ch" using Cons.prems(5) by fastforce
    have "k \<noteq> ?u" if "(k, v) \<in> set ch" using that u by force
    then consider "(k, v) \<in> set ch" "k \<noteq> ?u" | "k = ?u" "r = Some v"
      using kv u by (cases r) (auto simp: ch1_def dict_set_new)
    then show "ps_user_id v = k \<and> k \<notin> ps_user_id ` set ss \<and> (pc_is_mine cfg k \<longrightarrow> ?comb D1 k = Inr (ps_state v))"
    proof cases
      case 1
      then show ?thesis using Cons.prems(5) other by simp
    next
      case 2
      have "ps_user_id v = ?u" by (rule ok(3)) (simp only: r 2)
      moreover have "?u \<notin> ps_user_id ` set ss" using Cons.prems(2) by simp
      moreover have "pc_is_mine cfg ?u \<longrightarrow> ?comb D1 ?u = Inr (ps_state v)" using comb unfolding 2(2) by simp
      ultimately show ?thesis unfolding 2(1) by blast
    qed
  qed
  ultimately have ih: "\<forall>s \<in> set cs. pc_is_mine cfg (ps_user_id s) \<longrightarrow> ?comb D' (ps_user_id s) = Inr (ps_state s)"
    "\<forall>s \<in> set ss. pc_is_mine cfg (ps_user_id s) \<longrightarrow> ps_user_id s \<in> ps_user_id ` set cs \<or> ?comb D' (ps_user_id s) = Inr (ps_state s)"
    "\<forall>u. u \<notin> ps_user_id ` set ss \<longrightarrow> ?dev D' u = ?dev D1 u"
    "\<forall>s \<in> set ss. \<forall>i d. (ps_user_id s, i) \<in> syncing \<and> (i, d) \<in> set (?dev D1 (ps_user_id s)) \<and> dp_state d \<noteq> P_OFFLINE \<longrightarrow>
      (\<exists>d'. (i, d') \<in> set (?dev D' (ps_user_id s)) \<and> dp_state d' \<noteq> P_OFFLINE)"
    "fst ` set ch1 \<subseteq> ps_user_id ` set cs"
    using Cons.IH [of D1 ch1] Cons.prems(2) rec unfolding D1_def [symmetric] ch1_def [symmetric] by simp_all
  have mine: "?dev D' ?u = ds" using ih(3) Cons.prems(2) own by simp
  have s2: "pc_is_mine cfg ?u \<longrightarrow> ?u \<in> ps_user_id ` set cs \<or> ?comb D' ?u = Inr (ps_state s)"
    using comb ih(5) unfolding mine own by (cases r) (auto simp: ch1_def)
  have s4: "\<exists>d'. (i, d') \<in> set (?dev D' ?u) \<and> dp_state d' \<noteq> P_OFFLINE"
    if "(?u, i) \<in> syncing" "(i, d) \<in> set (?dev D ?u)" "dp_state d \<noteq> P_OFFLINE" for i d
    using handle_timeout_keeps_syncing [OF t that] unfolding mine .
  have s5: "fst ` set ch \<subseteq> ps_user_id ` set cs" using ih(5) by (cases r) (simp_all add: ch1_def)
  have D1: "\<forall>x \<in> set ss. ?dev D1 (ps_user_id x) = ?dev D (ps_user_id x)"
    using Cons.prems(2) other by (auto simp: image_iff)
  have s3: "\<forall>u. u \<notin> ps_user_id ` set (s # ss) \<longrightarrow> ?dev D' u = ?dev D u" using ih(3) other by simp
  have ss4: "\<exists>d'. (i, d') \<in> set (?dev D' (ps_user_id x)) \<and> dp_state d' \<noteq> P_OFFLINE" if "x \<in> set ss"
    "(ps_user_id x, i) \<in> syncing" "(i, d) \<in> set (?dev D (ps_user_id x))" "dp_state d \<noteq> P_OFFLINE" for x i d
    using ih(4) that D1 by fastforce
  show ?case
  proof (intro conjI)
    show "\<forall>x \<in> set (s # ss). pc_is_mine cfg (ps_user_id x) \<longrightarrow> ps_user_id x \<in> ps_user_id ` set cs \<or> ?comb D' (ps_user_id x) = Inr (ps_state x)"
      using s2 ih(2) by simp
    show "\<forall>x \<in> set (s # ss). \<forall>i d. (ps_user_id x, i) \<in> syncing \<and> (i, d) \<in> set (?dev D (ps_user_id x)) \<and> dp_state d \<noteq> P_OFFLINE \<longrightarrow>
      (\<exists>d'. (i, d') \<in> set (?dev D' (ps_user_id x)) \<and> dp_state d' \<noteq> P_OFFLINE)"
    proof (intro ballI allI impI)
      fix x i d
      assume "x \<in> set (s # ss)" and a: "(ps_user_id x, i) \<in> syncing \<and> (i, d) \<in> set (?dev D (ps_user_id x)) \<and> dp_state d \<noteq> P_OFFLINE"
      then consider "x = s" | "x \<in> set ss" by auto
      then show "\<exists>d'. (i, d') \<in> set (?dev D' (ps_user_id x)) \<and> dp_state d' \<noteq> P_OFFLINE"
        by cases (use a s4 ss4 in blast)+
    qed
  qed (rule ih(1) s3 s5)+
qed


section \<open>Operations\<close>

lemma update_combined:
  assumes cfg: "pc_track_presence cfg" "pc_presence_enabled cfg" and base: "pres_base cfg t h P" and now: "t \<le> now"
    and timed: "\<And>u. u \<in> ps_user_id ` set ss \<or> timed cfg t0 h u"
    and fed: "\<And>s. s \<in> set ss \<Longrightarrow> \<not> pc_is_mine cfg (ps_user_id s) \<Longrightarrow> ps_last_federation_update_ts s = now \<or> ps_state s = P_OFFLINE"
    and r: "update_states cfg now ss force h = Inr (h', n, p)"
    and new: "\<And>s. s \<in> set ss \<Longrightarrow> pc_is_mine cfg (ps_user_id s) \<Longrightarrow>
      combine_device_states (devices_of h (ps_user_id s)) = Inr (ps_state s)"
    and old: "u \<notin> ps_user_id ` set ss \<Longrightarrow> combined cfg h u"
  shows "combined cfg h' u" "devices_of h' u = devices_of h u"
proof -
  obtain w c x where h': "h' = h\<lparr>ph_wheel := w, ph_current_state := c, ph_unpersisted := x\<rparr>"
    and c: "\<And>u. u \<notin> ps_user_id ` set ss \<Longrightarrow> map_of c u = current h u"
    "\<And>u. u \<in> ps_user_id ` set ss \<Longrightarrow> \<exists>s \<in> set ss. ps_user_id s = u \<and> (\<exists>s'. map_of c u = Some s' \<and> ps_state s' = ps_state s)"
  proof -
    obtain w c x n' p' where u: "update_states cfg now ss force h =
        Inr (h\<lparr>ph_wheel := w, ph_current_state := c, ph_unpersisted := x\<rparr>, n', p')"
      "\<forall>u. u \<notin> ps_user_id ` set ss \<longrightarrow> map_of c u = current h u"
      "\<forall>u \<in> ps_user_id ` set ss. \<exists>s \<in> set ss. ps_user_id s = u \<and> (\<exists>s'. map_of c u = Some s' \<and> ps_state s' = ps_state s)"
      using update_states_inv [of cfg t h P now ss t0 force] cfg base now timed fed by blast
    have "h' = h\<lparr>ph_wheel := w, ph_current_state := c, ph_unpersisted := x\<rparr>" using u(1) r by simp
    then show ?thesis by (rule that) (use u in blast)+
  qed
  show d: "devices_of h' u = devices_of h u" by (simp add: h' devices_of_def)
  show "combined cfg h' u"
  proof (cases "u \<in> ps_user_id ` set ss")
    case True
    then obtain s s' where "s \<in> set ss" "ps_user_id s = u" "map_of c u = Some s'" "ps_state s' = ps_state s" using c(2) by blast
    then show ?thesis unfolding combined_def d using new [of s] by (simp add: presence_of_def dict_get_def h')
  next
    case False
    then show ?thesis using old c(1) unfolding combined_def d by (simp add: presence_of_def dict_get_def h')
  qed
qed

lemma update_local_combined:
  assumes "pc_track_presence cfg" "pc_presence_enabled cfg" and inv: "pres_inv cfg t0 t h P" and "t \<le> now"
    and ss: "\<And>s. s \<in> set ss \<Longrightarrow> pc_is_mine cfg (ps_user_id s) \<or> ps_last_federation_update_ts s = now"
    and "update_states cfg now ss force h = Inr (h', n, p)"
    and "\<And>s. s \<in> set ss \<Longrightarrow> pc_is_mine cfg (ps_user_id s) \<Longrightarrow> combine_device_states (devices_of h (ps_user_id s)) = Inr (ps_state s)"
    and "\<And>u. u \<notin> ps_user_id ` set ss \<Longrightarrow> combined cfg h u"
  shows "combined cfg h' u"
  by (rule update_combined(1) [OF assms(1,2) _ assms(4) _ _ assms(6)]) (use inv ss assms(7,8) in \<open>auto simp: pres_inv_def\<close>)

lemma current_state_combined:
  assumes inv: "pres_inv cfg t0 t h P" and r: "current_state_for_user P u h = (s, h')"
  shows "ps_state s = presence_of h u" "presence_of h' v = presence_of h v" "devices_of h' v = devices_of h v"
proof -
  have "ps_state s' = P_OFFLINE" if "current h u = None" "P u = Some s'" for s'
    using inv that by (simp add: pres_inv_def pres_base_def)
  then show "ps_state s = presence_of h u"
    using r by (auto simp: current_state_for_user_def presence_of_def dict_get_def default_presence_def split: option.splits)
  show "presence_of h' v = presence_of h v" "devices_of h' v = devices_of h v"
    using r by (auto simp: current_state_for_user_def presence_of_def devices_of_def dict_get_def default_presence_def split: option.splits if_splits)
qed

lemma change_device_combined:
  "presence_of (change_device u i f h) v = presence_of h v"
  "v \<noteq> u \<Longrightarrow> devices_of (change_device u i f h) v = devices_of h v"
  by (simp_all add: change_device_def Let_def presence_of_def devices_of_def dict_get_set)

lemma devices_of_ok: "pres_inv cfg t0 t h P \<Longrightarrow> pc_is_mine cfg u \<Longrightarrow> \<forall>d \<in> set (devices_of h u). dp_state d \<in> presence_states"
  using pres_inv_parts(1) by (auto simp: devices_ok_def devices_of_def)

text \<open>A change that keeps the state of the device, which may be new.\<close>

lemma dict_set_states:
  assumes "dp_state (f (dict_get i d0 ds)) = dp_state (dict_get i d0 ds)" "dp_state d0 = P_OFFLINE"
  shows "insert P_OFFLINE (dp_state ` snd ` set (dict_set i (f (dict_get i d0 ds)) ds)) = insert P_OFFLINE (dp_state ` snd ` set ds)"
  using assms(1)
proof (induction ds)
  case Nil
  then show ?case using assms(2) by (simp add: dict_get_def)
next
  case (Cons x ds)
  show ?case
  proof (cases "fst x = i")
    case True
    then show ?thesis using Cons.prems by (auto simp: dict_get_Cons)
  next
    case False
    then have "dict_get i d0 (x # ds) = dict_get i d0 ds" by (simp add: dict_get_Cons)
    then show ?thesis using Cons False by (simp add: insert_commute)
  qed
qed

lemma touch_device_combined:
  assumes inv: "pres_inv cfg t0 t h P" and f: "\<And>d. dp_state (f d) = dp_state d" and c: "combined cfg h v"
  shows "combined cfg (change_device u i f h) v"
proof (cases "v = u \<and> pc_is_mine cfg u")
  case True
  have "insert P_OFFLINE (dp_state ` set (devices_of (change_device u i f h) u)) = insert P_OFFLINE (dp_state ` set (devices_of h u))"
    using dict_set_states [of f i "default_device u i" "dict_get u [] (ph_devices h)", OF f]
    by (simp add: change_device_def Let_def devices_of_def dict_get_set default_device_def)
  from combine_same_states [OF _ this] devices_of_ok [OF inv, of u] True
  have "combine_device_states (devices_of (change_device u i f h) u) = combine_device_states (devices_of h u)" by blast
  then show ?thesis using True c by (simp add: combined_def change_device_combined(1))
qed (use c in \<open>cases "v = u"; auto simp: combined_def change_device_combined\<close>)


text \<open>A device has a sync running on this process, or on another one whose last report of a sync is not more
  than five minutes old.\<close>

definition sync_running :: "int \<Rightarrow> presence_handler \<Rightarrow> string \<Rightarrow> string option \<Rightarrow> bool" where
  "sync_running now h u i \<longleftrightarrow> dict_get (u, i) 0 (ph_num_syncs h) \<noteq> 0 \<or>
     (\<exists>(p, l) \<in> set (ph_external_syncs h). (u, i) \<in> set l \<and>
       (\<forall>(q, t) \<in> set (ph_external_updated h). q = p \<longrightarrow> now - t \<le> EXTERNAL_PROCESS_EXPIRY))"

lemma sync_running_counted:
  assumes "sync_running now h u i" "ph_num_syncs h1 = ph_num_syncs h"
    "ph_external_syncs h1 = ph_external_syncs (fst (pop_expired_processes now h))"
  shows "(u, i) \<in> syncing_user_devices h1"
proof (cases "dict_get (u, i) 0 (ph_num_syncs h) \<noteq> 0")
  case True
  then obtain m where "map_of (ph_num_syncs h) (u, i) = Some m" "m \<noteq> 0" by (auto simp: dict_get_def split: option.splits)
  then show ?thesis unfolding syncing_user_devices_def assms(2) by (force dest: map_of_SomeD)
next
  case False
  then obtain p l where pl: "(p, l) \<in> set (ph_external_syncs h)" "(u, i) \<in> set l"
    "\<forall>(q, t) \<in> set (ph_external_updated h). q = p \<longrightarrow> now - t \<le> EXTERNAL_PROCESS_EXPIRY"
    using assms(1) by (auto simp: sync_running_def)
  then have "(p, l) \<in> set (ph_external_syncs h1)"
    unfolding assms(3) by (auto simp: pop_expired_processes_def Let_def)
  then show ?thesis using pl(2) unfolding syncing_user_devices_def by fastforce
qed

lemma timeouts_combined:
  assumes cfg: "pc_track_presence cfg" "pc_presence_enabled cfg" and inv: "pres_inv cfg t0 t h P" and now: "t \<le> now"
    and comb: "\<And>u. combined cfg h u" and r: "handle_presence_timeouts cfg now h = Inr (h', n, p)"
  shows "combined cfg h' u \<and>
    (sync_running now h u i \<and> (i, d) \<in> set (dict_get u [] (ph_devices h)) \<and> dp_state d \<noteq> P_OFFLINE \<longrightarrow>
      (\<exists>d'. d' \<in> set (devices_of h' u) \<and> dp_state d' \<noteq> P_OFFLINE))"
proof (rule timeouts_parts [OF inv now])
  fix h1 :: presence_handler and ss cs D
  let ?h = "h1\<lparr>ph_devices := D\<rparr>"
  assume eq: "handle_presence_timeouts cfg now h = update_states cfg now cs False ?h"
    and c: "handle_timeouts cfg ss (syncing_user_devices h1) (ph_devices h) now [] = Inr (cs, D)"
    and h1: "ph_current_state h1 = ph_current_state h" "ph_num_syncs h1 = ph_num_syncs h"
      "ph_external_syncs h1 = ph_external_syncs (fst (pop_expired_processes now h))"
    and ss: "distinct (map ps_user_id ss)" "\<forall>s \<in> set ss. s = dict_get (ps_user_id s) (default_presence (ps_user_id s)) (ph_current_state h)"
    and base: "pres_base cfg now ?h P" and tm: "\<forall>u. u \<in> ps_user_id ` set cs \<or> timed cfg t0 ?h u"
    and off: "\<forall>s \<in> set cs. pc_is_mine cfg (ps_user_id s) \<or> ps_state s = P_OFFLINE"
  have st: "ps_state s = presence_of h (ps_user_id s)" if "s \<in> set ss" for s
    unfolding presence_of_def by (rule arg_cong [OF bspec [OF ss(2) that]])
  then have comb1: "\<forall>s \<in> set ss. pc_is_mine cfg (ps_user_id s) \<longrightarrow>
      combine_device_states (map snd (dict_get (ps_user_id s) [] (ph_devices h))) = Inr (ps_state s)"
    using comb by (simp add: combined_def devices_of_def)
  have "\<forall>k v. (k, v) \<in> set [] \<longrightarrow> ps_user_id v = k \<and> k \<notin> ps_user_id ` set ss \<and>
      (pc_is_mine cfg k \<longrightarrow> combine_device_states (map snd (dict_get k [] (ph_devices h))) = Inr (ps_state v))" by simp
  note tc = handle_timeouts_combined [OF pres_inv_parts(1) [OF inv] ss(1) c comb1 this]
  have old: "combined cfg ?h u" if "u \<notin> ps_user_id ` set cs" for u
  proof (cases "u \<in> ps_user_id ` set ss")
    case True
    then obtain s where s: "s \<in> set ss" "u = ps_user_id s" by blast
    then have "pc_is_mine cfg u \<longrightarrow> combine_device_states (map snd (dict_get u [] D)) = Inr (ps_state s)" using tc that by blast
    moreover have "ps_state s = presence_of ?h u" using st [OF s(1)] s(2) h1(1) by (simp add: presence_of_def)
    ultimately show ?thesis by (simp add: combined_def devices_of_def)
  next
    case False
    then have "dict_get u [] D = dict_get u [] (ph_devices h)" using tc by blast
    then show ?thesis using comb [of u] h1(1) by (simp add: combined_def devices_of_def presence_of_def)
  qed
  have new: "combine_device_states (devices_of ?h (ps_user_id s)) = Inr (ps_state s)"
    if "s \<in> set cs" "pc_is_mine cfg (ps_user_id s)" for s using tc that by (simp add: devices_of_def)
  have up: "combined cfg h' u" "devices_of h' u = devices_of ?h u"
    by (rule update_combined [OF cfg base order_refl _ _ trans [OF eq [symmetric] r]]; use tm off new old in blast)+
  have "\<exists>d'. (i, d') \<in> set (dict_get u [] D) \<and> dp_state d' \<noteq> P_OFFLINE"
    if a: "sync_running now h u i" "(i, d) \<in> set (dict_get u [] (ph_devices h))" "dp_state d \<noteq> P_OFFLINE"
  proof (cases "u \<in> ps_user_id ` set ss")
    case True
    have "(u, i) \<in> syncing_user_devices h1" by (rule sync_running_counted [OF a(1) h1(2,3)])
    then show ?thesis using tc True a(2,3) by blast
  next
    case False
    then have "dict_get u [] D = dict_get u [] (ph_devices h)" using tc by blast
    then show ?thesis using a by auto
  qed
  then show ?thesis using up by (force simp: devices_of_def)
qed


lemma single_combined:
  assumes cfg: "pc_track_presence cfg" "pc_presence_enabled cfg" and inv: "pres_inv cfg t0 t h P" and now: "t \<le> now"
    and u: "pc_is_mine cfg u" "ps_user_id s = u" "combine_device_states (devices_of h u) = Inr (ps_state s)"
    and old: "\<And>v. v \<noteq> u \<Longrightarrow> combined cfg h v" and r: "update_states cfg now [s] force h = Inr (h', n, p)"
  shows "combined cfg h' v"
  by (rule update_local_combined [OF cfg inv now _ r]) (use u old in auto)

lemma bump_combined:
  assumes cfg: "pc_track_presence cfg" "pc_presence_enabled cfg" and inv: "pres_inv cfg t0 t h P" and now: "t \<le> now"
    and u: "pc_is_mine cfg u" and comb: "\<And>v. combined cfg h v"
    and r: "bump_presence_active_time cfg P now u d h = Inr (h', n, p)"
  shows "combined cfg h' v"
proof -
  let ?f = "\<lambda>d. d\<lparr>dp_last_active_ts := now, dp_state := (if dp_state d = P_UNAVAILABLE then P_ONLINE else dp_state d)\<rparr>"
  let ?h = "change_device u d ?f h"
  have h0: "pres_inv cfg t0 t ?h P" by (rule change_device_inv [OF inv]) simp
  obtain s h1 where s: "current_state_for_user P u ?h = (s, h1)" by fastforce
  have h1: "pres_inv cfg t0 t h1 P" "ps_user_id s = u" using current_state_inv [OF h0 s] by blast+
  obtain pr where p: "combine_device_states (devices_of h1 u) = Inr pr"
    "update_states cfg now [s\<lparr>ps_last_active_ts := now, ps_state := pr\<rparr>] False h1 = Inr (h', n, p)"
    using r cfg s by (auto simp: bump_presence_active_time_def bindR_eq_Inr devices_of_def)
  have "combined cfg h1 w" if "w \<noteq> u" for w
    using comb [of w] that by (simp add: combined_def current_state_combined(2,3) [OF h0 s] change_device_combined)
  then show ?thesis using h1(2) p(1) by (intro single_combined [OF cfg h1(1) now u _ _ _ p(2)]) simp_all
qed

lemma set_state_combined:
  assumes cfg: "pc_track_presence cfg" "pc_presence_enabled cfg" and inv: "pres_inv cfg t0 t h P" and now: "t \<le> now"
    and u: "pc_is_mine cfg u" and comb: "\<And>v. combined cfg h v"
    and r: "presence_set_state cfg P now u d pr msg force is_sync h = Inr (h', n, p)"
  shows "combined cfg h' v"
proof -
  have valid: "pr \<in> set (valid_presence cfg)" using r by (auto simp: presence_set_state_def split: if_splits)
  obtain s h1 where s: "current_state_for_user P u h = (s, h1)" by fastforce
  have h1: "pres_inv cfg t0 t h1 P" "ps_user_id s = u" using current_state_inv [OF inv s] by blast+
  let ?pr = "if ps_state s = P_BUSY \<and> is_sync then P_BUSY else pr"
  let ?f = "\<lambda>d. d\<lparr>dp_state := ?pr, dp_last_active_ts := now, dp_last_sync_ts := (if is_sync then now else dp_last_sync_ts d)\<rparr>"
  define h2 where "h2 = change_device u d ?f h1"
  have "?pr \<in> presence_states" using valid by (auto simp: valid_presence_def split: if_splits)
  then have h2: "pres_inv cfg t0 t h2 P" unfolding h2_def by (intro change_device_inv [OF h1(1)]) simp
  obtain q where p: "combine_device_states (devices_of h2 u) = Inr q"
    using combine_devices [OF h2 u] unfolding devices_of_def .
  let ?s1 = "if q = P_ONLINE \<or> q = P_BUSY then s\<lparr>ps_state := q, ps_last_active_ts := now\<rparr> else s\<lparr>ps_state := q\<rparr>"
  let ?s = "if is_sync then ?s1\<lparr>ps_last_user_sync_ts := now\<rparr> else ?s1\<lparr>ps_status_msg := msg\<rparr>"
  have "presence_set_state cfg P now u d pr msg force is_sync h = update_states cfg now [?s] force h2"
    using cfg valid p unfolding devices_of_def
    by (simp only: presence_set_state_def Let_def s prod.case h2_def [symmetric] bindR_Inr simp_thms if_False)
  then have up: "update_states cfg now [?s] force h2 = Inr (h', n, p)" using r by simp
  have "combined cfg h2 w" if "w \<noteq> u" for w
    using comb [of w] that by (simp add: h2_def combined_def current_state_combined(2,3) [OF inv s] change_device_combined)
  moreover have "ps_user_id ?s = u" "ps_state ?s = q" by (simp_all add: h1(2))
  ultimately show ?thesis using p by (intro single_combined [OF cfg h2 now u _ _ _ up]) simp_all
qed

lemma combined_cong: "ph_devices h' = ph_devices h \<Longrightarrow> ph_current_state h' = ph_current_state h \<Longrightarrow> combined cfg h' u = combined cfg h u"
  by (simp add: combined_def devices_of_def presence_of_def)

lemma syncing_combined:
  assumes cfg: "pc_track_presence cfg" "pc_presence_enabled cfg" and inv: "pres_inv cfg t0 t h P" and now: "t \<le> now"
    and u: "pc_is_mine cfg u" and comb: "\<And>v. combined cfg h v"
    and r: "user_syncing cfg P now u d affect pr h = (h', Inr (n, p))"
  shows "combined cfg h' v"
proof (cases affect)
  case True
  let ?h = "h\<lparr>ph_num_syncs := dict_set (u, d) (dict_get (u, d) 0 (ph_num_syncs h) + 1) (ph_num_syncs h)\<rparr>"
  have h: "pres_inv cfg t0 t ?h P" by (rule pres_inv_cong [OF inv]) (simp_all add: pres_inv_parts [OF inv])
  have "combined cfg ?h w" for w using comb [of w] by (simp add: combined_cong [of ?h h])
  moreover have "presence_set_state cfg P now u d pr None False True ?h = Inr (h', n, p)"
    using r True cfg by (auto simp: user_syncing_def Let_def split: sum.splits)
  ultimately show ?thesis by (rule set_state_combined [OF cfg h now u])
next
  case False
  then show ?thesis using r comb by (simp add: user_syncing_def)
qed

lemma sync_end_combined:
  assumes cfg: "pc_track_presence cfg" "pc_presence_enabled cfg" and inv: "pres_inv cfg t0 t h P" and now: "t \<le> now"
    and u: "pc_is_mine cfg u" and comb: "\<And>v. combined cfg h v"
    and r: "user_syncing_end cfg P now u d h = Inr (h', n, p)"
  shows "combined cfg h' v"
proof (cases "map_of (ph_num_syncs h) (u, d)")
  case None
  then show ?thesis using r comb by (simp add: user_syncing_end_def)
next
  case (Some m)
  let ?h = "h\<lparr>ph_num_syncs := dict_set (u, d) (m - 1) (ph_num_syncs h)\<rparr>"
  have h: "pres_inv cfg t0 t ?h P" by (rule pres_inv_cong [OF inv]) (simp_all add: pres_inv_parts [OF inv])
  obtain s h1 where s: "current_state_for_user P u ?h = (s, h1)" by fastforce
  have h1: "pres_inv cfg t0 t h1 P" "ps_user_id s = u" using current_state_inv [OF h s] by blast+
  have c: "combined cfg h1 w" for w
    using comb [of w] combined_cong [of ?h h cfg w] by (simp add: combined_def current_state_combined(2,3) [OF h s])
  obtain h2 n2 p2 where up: "update_states cfg now [s\<lparr>ps_last_user_sync_ts := now\<rparr>] False h1 = Inr (h2, n2, p2)"
    by (rule update_inv [OF cfg h1(1) now, of "[s\<lparr>ps_last_user_sync_ts := now\<rparr>]" False]) (simp_all add: h1(2) u)
  have "h2 = h'" using r Some s up by (simp add: user_syncing_end_def)
  moreover have "combine_device_states (devices_of h1 u) = Inr (ps_state (s\<lparr>ps_last_user_sync_ts := now\<rparr>))"
    using c [of u] u current_state_combined [OF h s] by (simp add: combined_def)
  ultimately show ?thesis
    using single_combined [OF cfg h1(1) now u _ _ c up] h1(2) by simp
qed


lemma external_row_combined:
  assumes cfg: "pc_track_presence cfg" "pc_presence_enabled cfg" and inv: "pres_inv cfg t0 t h P" and now: "t \<le> now"
    and u: "pc_is_mine cfg u" and comb: "\<And>v. combined cfg h v"
    and r: "update_external_syncs_row cfg P now pid u d is_syncing ts h = Inr (h', n, p)"
  shows "combined cfg h' v"
proof -
  obtain s h1 where s: "current_state_for_user P u h = (s, h1)" by fastforce
  have h1: "pres_inv cfg t0 t h1 P" "ps_user_id s = u" using current_state_inv [OF inv s] by blast+
  have c: "combined cfg h1 w" for w using comb [of w] by (simp add: combined_def current_state_combined(2,3) [OF inv s])
  let ?l = "dict_get pid [] (ph_external_syncs h1)"
  let ?h = "h1\<lparr>ph_external_syncs := dict_set pid ?l (ph_external_syncs h1)\<rparr>"
  have h2: "pres_inv cfg t0 t ?h P"
    by (rule pres_inv_cong [OF h1(1)])
      (auto simp: pres_inv_parts [OF h1(1)] intro: externals_ok_set externals_ok_get [OF pres_inv_parts(2) [OF h1(1)], THEN bspec])
  have c2: "combined cfg ?h w" for w using c [of w] by (simp add: combined_cong [of ?h h1])
  show ?thesis
  proof (cases "\<not> is_syncing \<and> (u, d) \<in> set ?l")
    case True
    let ?k = "change_device u d (\<lambda>d. d\<lparr>dp_last_sync_ts := ts\<rparr>) ?h"
    have k: "pres_inv cfg t0 t ?k P" by (rule change_device_inv [OF h2]) simp
    have ck: "combined cfg ?k w" for w by (rule touch_device_combined [OF h2 _ c2]) simp
    obtain h3 where up: "update_states cfg now [s\<lparr>ps_last_user_sync_ts := ts\<rparr>] False ?k = Inr (h3, n, p)"
      "ph_devices h' = ph_devices h3" "ph_current_state h' = ph_current_state h3"
      using r True s by (auto simp: update_external_syncs_row_def bindR_eq_Inr Let_def)
    have "ps_state s = presence_of ?k u"
      using current_state_combined(1,2) [OF inv s] by (simp only: change_device_combined) (simp add: presence_of_def)
    then have "combine_device_states (devices_of ?k u) = Inr (ps_state (s\<lparr>ps_last_user_sync_ts := ts\<rparr>))"
      using ck [of u] u by (simp add: combined_def)
    then have "combined cfg h3 v" using single_combined [OF cfg k now u _ _ ck up(1)] h1(2) by simp
    then show ?thesis by (simp add: combined_cong [OF up(2,3)])
  next
    case False
    then have "ph_devices h' = ph_devices h1" "ph_current_state h' = ph_current_state h1"
      using r s by (auto simp: update_external_syncs_row_def Let_def split: if_splits)
    then show ?thesis using c combined_cong [of h' h1] by blast
  qed
qed

lemma current_states_combined:
  "pres_inv cfg t0 t h P \<Longrightarrow> current_state_for_users P us h = (ss, h') \<Longrightarrow>
   map ps_state ss = map (presence_of h) us \<and> presence_of h' v = presence_of h v \<and> devices_of h' v = devices_of h v"
proof (induction us arbitrary: h ss)
  case (Cons u us)
  obtain s h1 where s: "current_state_for_user P u h = (s, h1)" by fastforce
  obtain ss' where ss: "current_state_for_users P us h1 = (ss', h')" "ss = s # ss'"
    using Cons.prems(2) by (auto simp: s split: prod.splits)
  note cs = current_state_combined [OF Cons.prems(1) s]
  have "presence_of h1 = presence_of h" by (rule ext) (rule cs(2))
  then show ?case using Cons.IH [OF current_state_inv(1) [OF Cons.prems(1) s] ss(1)] cs ss(2) by simp
qed simp

lemma external_clear_combined:
  assumes cfg: "pc_track_presence cfg" "pc_presence_enabled cfg" and inv: "pres_inv cfg t0 t h P" and now: "t \<le> now"
    and comb: "\<And>v. combined cfg h v" and r: "update_external_syncs_clear cfg P now pid h = Inr (h', n, p)"
  shows "combined cfg h' v"
proof -
  let ?l = "dict_get pid [] (ph_external_syncs h)"
  let ?h = "h\<lparr>ph_external_syncs := dict_pop pid (ph_external_syncs h)\<rparr>"
  let ?touch = "\<lambda>(u, d). change_device u d (\<lambda>x. x\<lparr>dp_last_sync_ts := now\<rparr>)"
  have h: "pres_inv cfg t0 t ?h P"
    by (rule pres_inv_cong [OF inv]) (simp_all add: pres_inv_parts [OF inv] dict_pop_def externals_ok_filter)
  have touch: "pres_inv cfg t0 t k P \<Longrightarrow> \<forall>w. combined cfg k w \<Longrightarrow> pres_inv cfg t0 t (fold ?touch l k) P \<and> (\<forall>w. combined cfg (fold ?touch l k) w)" for l k
  proof (induction l arbitrary: k)
    case (Cons x l)
    have "pres_inv cfg t0 t (?touch x k) P" "\<forall>w. combined cfg (?touch x k) w"
      using Cons.prems by (cases x; auto intro: change_device_inv touch_device_combined)+
    from Cons.IH [OF this] show ?case by simp
  qed simp
  have "\<forall>w. combined cfg ?h w" using comb by (simp add: combined_cong [of ?h h])
  note k = touch [OF h this, of ?l]
  obtain ss h1 where s: "current_state_for_users P (remdups (map fst ?l)) (fold ?touch ?l ?h) = (ss, h1)" by fastforce
  have h1: "pres_inv cfg t0 t h1 P" "map ps_user_id ss = remdups (map fst ?l)" using current_states_inv [OF conjunct1 [OF k] s] by auto
  note cs = current_states_combined [OF conjunct1 [OF k] s]
  have c1: "combined cfg h1 w" for w using conjunct2 [OF k] cs by (simp add: combined_def)
  have "map ps_state ss = map (presence_of h1) (map ps_user_id ss)" unfolding h1(2) using cs by simp
  then have st: "ps_state s = presence_of h1 (ps_user_id s)" if "s \<in> set ss" for s using that by simp
  have "ps_user_id ` set ss = fst ` set ?l" using arg_cong [OF h1(2), of set] by simp
  then have mine: "pc_is_mine cfg (ps_user_id s)" if "s \<in> set ss" for s
    using that externals_ok_get [OF pres_inv_parts(2) [OF inv], of pid] by (metis imageE imageI)
  obtain h2 where up: "update_states cfg now (map (\<lambda>s. s\<lparr>ps_last_user_sync_ts := now\<rparr>) ss) False h1 = Inr (h2, n, p)"
    "ph_devices h' = ph_devices h2" "ph_current_state h' = ph_current_state h2"
    using r s by (auto simp: update_external_syncs_clear_def bindR_eq_Inr Let_def)
  have "combined cfg h2 v"
    by (rule update_local_combined [OF cfg h1(1) now _ up(1)]) (use mine c1 st in \<open>auto simp: combined_def\<close>)
  then show ?thesis by (simp add: combined_cong [OF up(2,3)])
qed


lemma incoming_updates_combined:
  assumes "pres_inv cfg t0 t h P" "incoming_updates P now origin pushes h us = Inr (us', h')"
    "list_all (\<lambda>push. case pp_user_id push of None \<Rightarrow> True | Some u \<Rightarrow> get_domain_from_id u = Inr origin \<longrightarrow> \<not> pc_is_mine cfg u) pushes"
    "\<forall>s \<in> set us. \<not> pc_is_mine cfg (ps_user_id s)" "\<forall>v. combined cfg h v"
  shows "(\<forall>s \<in> set us'. \<not> pc_is_mine cfg (ps_user_id s)) \<and> (\<forall>v. combined cfg h' v)"
  using assms
proof (induction pushes arbitrary: h us)
  case (Cons push pushes)
  from Cons.prems(2) show ?case
  proof (cases rule: incoming_updates_cases)
    case skip
    then show ?thesis using Cons.IH [OF Cons.prems(1)] Cons.prems by simp
  next
    case (update u s)
    obtain v h1 where v: "current_state_for_user P u h = (v, h1)" by fastforce
    note h1 = current_state_inv(1,2) [OF Cons.prems(1) v]
    have "\<forall>w. combined cfg h1 w" using Cons.prems(5) by (simp add: combined_def current_state_combined(2,3) [OF Cons.prems(1) v])
    moreover have "\<forall>s' \<in> set (us @ [s]). \<not> pc_is_mine cfg (ps_user_id s')"
      using Cons.prems(3,4) update(3-5) v h1(2) by simp
    ultimately show ?thesis using Cons.IH [OF h1(1), of "us @ [s]"] Cons.prems(3) update(1) v by simp
  qed
qed simp

lemma incoming_combined:
  assumes cfg: "pc_track_presence cfg" "pc_presence_enabled cfg" and inv: "pres_inv cfg t0 t h P" and now: "t \<le> now"
    and comb: "\<And>v. combined cfg h v" and op: "op_addressed cfg (Op_Incoming origin pushes)"
    and r: "incoming_presence cfg P now origin pushes h = Inr (h', n, p)"
  shows "combined cfg h' v"
proof -
  obtain us h1 where u: "incoming_updates P now origin pushes h [] = Inr (us, h1)"
    "(if us = [] then Inr (h1, [], []) else update_states cfg now us False h1) = Inr (h', n, p)"
    using r cfg by (auto simp: incoming_presence_def bindR_eq_Inr)
  have h1: "pres_inv cfg t0 t h1 P" "\<forall>s \<in> set us. ps_last_federation_update_ts s = now"
    using incoming_updates_inv [OF inv u(1)] by simp_all
  have c: "\<forall>s \<in> set us. \<not> pc_is_mine cfg (ps_user_id s)" "\<forall>v. combined cfg h1 v"
    using incoming_updates_combined [OF inv u(1)] op comb by simp_all
  show ?thesis
  proof (cases "us = []")
    case False
    then have up: "update_states cfg now us False h1 = Inr (h', n, p)" using u(2) by simp
    show ?thesis by (rule update_local_combined [OF cfg h1(1) now _ up]) (use h1(2) c in auto)
  qed (use u(2) c in simp)
qed

lemma start_timers_devices:
  "start_timers cfg now ss h = Inr h' \<Longrightarrow> distinct (map ps_user_id ss) \<Longrightarrow>
   ph_current_state h' = ph_current_state h \<and>
   (\<forall>u. u \<notin> ps_user_id ` set ss \<longrightarrow> devices_of h' u = devices_of h u) \<and>
   (\<forall>s \<in> set ss. map dp_state (devices_of h' (ps_user_id s)) = [ps_state s])"
proof (induction ss arbitrary: h)
  case (Cons x ss)
  let ?ds = "[(None, \<lparr>dp_user_id = ps_user_id x, dp_device_id = None, dp_state = ps_state x,
    dp_last_active_ts = ps_last_active_ts x, dp_last_sync_ts = ps_last_user_sync_ts x\<rparr>)]"
  obtain w where w: "start_timers cfg now ss (h\<lparr>ph_devices := dict_set (ps_user_id x) ?ds (ph_devices h), ph_wheel := w\<rparr>) = Inr h'"
    using Cons.prems(1) by (auto simp: bindR_eq_Inr Let_def)
  have ih: "ph_current_state h' = ph_current_state h"
    "\<forall>u. u \<notin> ps_user_id ` set ss \<longrightarrow> devices_of h' u = map snd (dict_get u [] (dict_set (ps_user_id x) ?ds (ph_devices h)))"
    "\<forall>s \<in> set ss. map dp_state (devices_of h' (ps_user_id s)) = [ps_state s]"
    using Cons.IH [OF w] Cons.prems(2) by (simp_all add: devices_of_def)
  have "devices_of h' (ps_user_id x) = map snd ?ds" using ih(2) Cons.prems(2) by (simp add: dict_get_set)
  then have x: "map dp_state (devices_of h' (ps_user_id x)) = [ps_state x]" by simp
  have "\<forall>u. u \<notin> ps_user_id ` set (x # ss) \<longrightarrow> devices_of h' u = devices_of h u"
    using ih(2) by (simp add: devices_of_def dict_get_set)
  then show ?case using ih(1,3) x by simp
qed simp


lemma start_combined:
  assumes cfg: "pc_track_presence cfg" and valid: "\<forall>s \<in> set rows. pc_is_mine cfg (ps_user_id s) \<longrightarrow> ps_state s \<in> presence_states"
    and r: "new_presence_handler cfg now rows = Inr h"
  shows "combined cfg h u"
proof -
  define c where "c = fold (\<lambda>s. dict_set (ps_user_id s) s) rows []"
  note ls = last_states_distinct [of rows, folded c_def]
  have cs: "\<forall>u v. (u, v) \<in> set c \<longrightarrow> ps_user_id v = u" using last_states [of "[]" rows] by (auto simp: c_def)
  let ?h = "\<lparr>ph_current_state = c, ph_devices = [], ph_wheel = new_wheel_timer 5000, ph_num_syncs = [],
    ph_external_syncs = [], ph_external_updated = [], ph_unpersisted = []\<rparr>"
  have "start_timers cfg now (map snd c) ?h = Inr h" using r cfg by (simp add: new_presence_handler_def c_def Let_def)
  note st = start_timers_devices [OF this ls(1)]
  show ?thesis
  proof (cases "map_of c u")
    case None
    then have "u \<notin> ps_user_id ` set (map snd c)" using cs by (force simp: map_of_eq_None_iff)
    then have "devices_of h u = []" using st by (simp add: devices_of_def dict_get_def)
    then show ?thesis using st None
      by (simp add: combined_def presence_of_def dict_get_def default_presence_def combine_device_states_def)
  next
    case (Some s)
    then have s: "s \<in> set (map snd c)" "ps_user_id s = u" using cs by (auto dest!: map_of_SomeD intro: rev_image_eqI)
    then have d: "map dp_state (devices_of h u) = [ps_state s]" using st by blast
    have "combine_device_states (devices_of h u) = Inr (ps_state s)" if "pc_is_mine cfg u"
    proof (rule combine_max)
      have v: "ps_state s \<in> presence_states" using valid s ls(2) that by auto
      have "set (map dp_state (devices_of h u)) = {ps_state s}" unfolding d by simp
      then have e: "dp_state ` set (devices_of h u) = {ps_state s}" by simp
      have same: "dp_state d = ps_state s" if "d \<in> set (devices_of h u)" for d
        using imageI [OF that, of dp_state] unfolding e by simp
      show "\<forall>d \<in> set (devices_of h u). dp_state d \<in> presence_states" using same v by simp
      show "ps_state s \<in> insert P_OFFLINE (dp_state ` set (devices_of h u))" unfolding e by simp
      show "\<forall>d \<in> set (devices_of h u). presence_rank (dp_state d) \<le> presence_rank (ps_state s)" using same by simp
    qed
    then show ?thesis using st Some by (simp add: combined_def presence_of_def dict_get_def)
  qed
qed

lemma presence_op_combined:
  assumes "pc_track_presence cfg" "pc_presence_enabled cfg" "pres_inv cfg t0 t h P" "t \<le> now"
    and comb: "\<And>v. combined cfg h v" and "op_addressed cfg op" "run_presence_op cfg P now op h = Inr (h', n, p)"
  shows "combined cfg h' v"
proof (cases op)
  case Op_Persist
  then show ?thesis
    using assms(7) comb combined_cong [of h' h cfg v] by (auto simp: persist_unpersisted_changes_def split: if_splits)
next
  case (Op_Syncing u d affect pr)
  then have "user_syncing cfg P now u d affect pr h = (h', Inr (n, p))" "pc_is_mine cfg u"
    using assms(6,7) by (auto split: prod.splits sum.splits)
  then show ?thesis by (intro syncing_combined [OF assms(1-4) _ comb])
qed (use assms timeouts_combined [OF assms(1-5)] bump_combined [OF assms(1-4) _ comb] set_state_combined [OF assms(1-4) _ comb]
    sync_end_combined [OF assms(1-4) _ comb] external_row_combined [OF assms(1-4) _ comb]
    external_clear_combined [OF assms(1-4) comb] incoming_combined [OF assms(1-4) comb] in auto)

lemma presence_run_combined:
  assumes "presence_run cfg t0 t h P" "pc_track_presence cfg" "pc_presence_enabled cfg"
  shows "combined cfg h u"
  using assms
proof (induction arbitrary: u rule: presence_run.induct)
  case (presence_start now P rows h)
  then show ?case using start_combined by blast
next
  case (presence_step t0 t h P now op h' notified pinged)
  show ?case
    by (rule presence_op_combined [OF presence_step.prems presence_run_inv [OF presence_step(1) presence_step.prems]
        presence_step(2) presence_step.IH presence_step(3,4)]) (rule presence_step.prems)+
next
  case (presence_raise t0 t h P now v d affect pr h' e)
  obtain k where "h' = h\<lparr>ph_num_syncs := k\<rparr>"
    using syncing_raises(2) [OF presence_run_inv [OF presence_raise(1) presence_raise.prems] presence_raise(2,4)]
      presence_raise.prems presence_raise(3) by blast
  then show ?case using presence_raise.IH [OF presence_raise.prems] combined_cong [of h' h] by simp
qed


section \<open>Properties\<close>

text \<open>A local user who begins to sync.\<close>

abbreviation sync_ops :: presence_result where
  "sync_ops \<equiv> bindR (new_presence_handler witness_cfg 1000 []) (\<lambda>h.
     run_presence_op witness_cfg (\<lambda>_. None) 2000 (Op_Syncing ''@a:us'' (Some ''D'') True P_ONLINE) h)"

lemma sync_ops_result:
  "(case sync_ops of Inl _ \<Rightarrow> False | Inr (h, n, p) \<Rightarrow> dict_get (''@a:us'', Some ''D'') 0 (ph_num_syncs h) \<noteq> 0 \<and>
     dict_get ''@a:us'' [] (ph_devices h) = [(Some ''D'', \<lparr>dp_user_id = ''@a:us'', dp_device_id = Some ''D'',
       dp_state = P_ONLINE, dp_last_active_ts = 2000, dp_last_sync_ts = 2000\<rparr>)])"
  by code_simp

lemma sync_ops_run:
  obtains h n p where "sync_ops = Inr (h, n, p)" "presence_run witness_cfg 1000 2000 h (persist n (\<lambda>_. None))"
    "dict_get (''@a:us'', Some ''D'') 0 (ph_num_syncs h) \<noteq> 0"
    "dict_get ''@a:us'' [] (ph_devices h) = [(Some ''D'', \<lparr>dp_user_id = ''@a:us'', dp_device_id = Some ''D'',
       dp_state = P_ONLINE, dp_last_active_ts = 2000, dp_last_sync_ts = 2000\<rparr>)]"
proof -
  obtain h n p where r: "sync_ops = Inr (h, n, p)" using sync_ops_result by (cases sync_ops) auto
  then obtain h0 where h0: "new_presence_handler witness_cfg 1000 [] = Inr h0"
    "run_presence_op witness_cfg (\<lambda>_. None) 2000 (Op_Syncing ''@a:us'' (Some ''D'') True P_ONLINE) h0 = Inr (h, n, p)"
    unfolding bindR_eq_Inr by blast
  have "presence_run witness_cfg 1000 1000 h0 (\<lambda>_. None)" by (rule presence_start [OF _ _ _ _ _ h0(1)]) simp_all
  then have "presence_run witness_cfg 1000 2000 h (persist n (\<lambda>_. None))"
    by (rule presence_step [where op = "Op_Syncing ''@a:us'' (Some ''D'') True P_ONLINE"]) (use h0(2) in simp_all)
  then show ?thesis using that r sync_ops_result by simp
qed



text \<open>C30: Running syncs. In every state that the handler reaches, a pass of the timeouts does not take a local user
  offline while a device of theirs that is not itself offline has a sync running, on this process or on
  another one that has not been silent for more than five minutes. A device that set its presence to offline
  during its sync does not keep the user present (\<open>offline_device_does_not_keep_user\<close>).\<close>

theorem syncing_user_stays_present:
  assumes cfg: "pc_track_presence cfg" "pc_presence_enabled cfg" and run: "presence_run cfg t0 t h P" and now: "t \<le> now"
    and u: "pc_is_mine cfg u" and sync: "sync_running now h u i"
    and d: "(i, d) \<in> set (dict_get u [] (ph_devices h))" "dp_state d \<noteq> P_OFFLINE"
  shows "\<exists>h' n p. handle_presence_timeouts cfg now h = Inr (h', n, p) \<and> presence_of h' u \<noteq> P_OFFLINE"
proof -
  note inv = presence_run_inv [OF run cfg] and comb = presence_run_combined [OF run cfg]
  obtain h' n p where r: "handle_presence_timeouts cfg now h = Inr (h', n, p)" "pres_inv cfg t0 now h' (persist n P)"
    using presence_timeouts_inv [OF cfg inv now] by blast
  obtain d' where d': "d' \<in> set (devices_of h' u)" "dp_state d' \<noteq> P_OFFLINE" and c: "combined cfg h' u"
    using timeouts_combined [OF cfg inv now comb r(1), of u i d] sync d by blast
  have ok: "\<forall>d \<in> set (devices_of h' u). dp_state d \<in> presence_states" by (rule devices_of_ok [OF r(2) u])
  then have "presence_rank (dp_state d') \<le> presence_rank (presence_of h' u)"
    using combine_device_states_ok [OF ok] c u d'(1) by (auto simp: combined_def)
  moreover have "presence_rank (dp_state d') > presence_rank P_OFFLINE"
    using ok d' by (auto simp: presence_states_def presence_rank.simps)
  ultimately show ?thesis using r(1) by auto
qed

lemma syncing_user_stays_present_witness:
  "\<exists>h n p. sync_ops = Inr (h, n, p) \<and> sync_running 9000000 h ''@a:us'' (Some ''D'') \<and>
    (\<exists>h' n p. handle_presence_timeouts witness_cfg 9000000 h = Inr (h', n, p) \<and> presence_of h' ''@a:us'' \<noteq> P_OFFLINE)"
proof (rule sync_ops_run)
  fix h n p assume r: "sync_ops = Inr (h, n, p)" "presence_run witness_cfg 1000 2000 h (persist n (\<lambda>_. None))"
    and n: "dict_get (''@a:us'', Some ''D'') 0 (ph_num_syncs h) \<noteq> 0"
    and d: "dict_get ''@a:us'' [] (ph_devices h) = [(Some ''D'', \<lparr>dp_user_id = ''@a:us'', dp_device_id = Some ''D'',
       dp_state = P_ONLINE, dp_last_active_ts = 2000, dp_last_sync_ts = 2000\<rparr>)]"
  have "sync_running 9000000 h ''@a:us'' (Some ''D'')" using n by (simp add: sync_running_def)
  then show ?thesis
    using syncing_user_stays_present [OF _ _ r(2), of 9000000 "''@a:us''" "Some ''D''" "\<lparr>dp_user_id = ''@a:us'', dp_device_id = Some ''D'',
       dp_state = P_ONLINE, dp_last_active_ts = 2000, dp_last_sync_ts = 2000\<rparr>"] r(1) d by simp
qed

text \<open>A local user syncs on one device, sets the presence of that device to offline and uses another one that
  does not sync. When that times out, the pass takes the user offline, while the sync is still counted.\<close>

abbreviation offline_ops :: presence_result where
  "offline_ops \<equiv> bindR sync_ops (\<lambda>(h, n, p).
     bindR (presence_set_state witness_cfg (\<lambda>_. None) 3000 ''@a:us'' (Some ''D'') P_OFFLINE None False False h) (\<lambda>(h, n, p).
     presence_set_state witness_cfg (\<lambda>_. None) 4000 ''@a:us'' (Some ''E'') P_ONLINE None False False h))"

lemma offline_device_does_not_keep_user:
  "(case offline_ops of Inl _ \<Rightarrow> False | Inr (h, n, p) \<Rightarrow> presence_of h ''@a:us'' = P_ONLINE \<and>
     (case handle_presence_timeouts witness_cfg 60000 h of Inl _ \<Rightarrow> False | Inr (h', n', p') \<Rightarrow>
        dict_get (''@a:us'', Some ''D'') 0 (ph_num_syncs h') = 1 \<and> presence_of h' ''@a:us'' = P_OFFLINE))"
  by code_simp

text \<open>A local user sets their presence to busy and does not sync. The only timers are those after the last
  sync, long past; the pass that fetches them finds the device still in time and sets no other. From then
  on no pass changes anything.\<close>

lemma idle_pass:
  assumes "wt_entries (ph_wheel h) = []" "ph_external_updated h = []" "pc_presence_enabled cfg"
  shows "\<exists>h'. handle_presence_timeouts cfg now h = Inr (h', [], []) \<and> ph_current_state h' = ph_current_state h"
  using assms
  by (simp add: handle_presence_timeouts_def wheel_fetch_def pop_expired_processes_def Let_def update_states_def)

abbreviation busy_cfg :: presence_config where
  "busy_cfg \<equiv> witness_cfg\<lparr>pc_msc3026_enabled := True\<rparr>"

abbreviation busy_ops :: "presence_handler res" where
  "busy_ops \<equiv> bindR (new_presence_handler busy_cfg 1000000000 []) (\<lambda>h.
     bindR (presence_set_state busy_cfg (\<lambda>_. None) 1000000000 ''@a:us'' (Some ''D'') P_BUSY None False False h) (\<lambda>(h, n, p).
     bindR (handle_presence_timeouts busy_cfg 1000005000 h) (\<lambda>(h, n, p). Inr h)))"

lemma busy_ops_result:
  "(case busy_ops of Inl _ \<Rightarrow> False | Inr h \<Rightarrow> wt_entries (ph_wheel h) = [] \<and> ph_external_updated h = [] \<and>
     presence_of h ''@a:us'' = P_BUSY)"
  by code_simp

lemma busy_without_sync_never_expires:
  "\<exists>h. busy_ops = Inr h \<and> presence_of h ''@a:us'' = P_BUSY \<and>
    (\<forall>now. \<exists>h'. handle_presence_timeouts busy_cfg now h = Inr (h', [], []) \<and> presence_of h' ''@a:us'' = P_BUSY)"
proof -
  obtain h where h: "busy_ops = Inr h" "wt_entries (ph_wheel h) = []" "ph_external_updated h = []" "presence_of h ''@a:us'' = P_BUSY"
    using busy_ops_result by (cases busy_ops) simp_all
  have "\<exists>h'. handle_presence_timeouts busy_cfg now h = Inr (h', [], []) \<and> presence_of h' ''@a:us'' = P_BUSY" for now
    using idle_pass [OF h(2,3), of busy_cfg now] h(4) by (auto simp: presence_of_def)
  with h show ?thesis by blast
qed

end
