(* ===== verification/Locks.thy ===== *)
theory Locks
  imports Overlay_Map
begin

text \<open>
  The locks of \<^verbatim>\<open>synapse/util/async_helpers.py\<close>. Coroutines run on one thread and give way only where they
  wait, so a step of the relations below is the code between two waits. A coroutine is numbered by its
  place among those that came; a deferred that it makes to be called when its turn comes, or when it is
  done, has its number.
\<close>

datatype task_status = Waiting | Holding | Finished

section \<open>Linearizer\<close>

text \<open>An entry is an object that the map and the coroutines share, so the entries made so far are a list and
  a reference is a place in it. The keys of the dictionary \<^verbatim>\<open>deferreds\<close> are a list.\<close>

record linearizer_entry =
  le_count :: int
  le_deferreds :: "nat list"

record 'k linearizer =
  lz_max_count :: int
  lz_key_to_defer :: "('k, nat) dict"
  lz_entries :: "linearizer_entry list"

definition new_linearizer :: "int \<Rightarrow> 'k linearizer" where
  "new_linearizer max_count = \<lparr>lz_max_count = max_count, lz_key_to_defer = [], lz_entries = []\<rparr>"

definition lz_set_entry :: "nat \<Rightarrow> linearizer_entry \<Rightarrow> 'k linearizer \<Rightarrow> 'k linearizer" where
  "lz_set_entry e x lz = lz\<lparr>lz_entries := (lz_entries lz)[e := x]\<rparr>"

definition lz_setdefault :: "'k \<Rightarrow> 'k linearizer \<Rightarrow> nat \<times> 'k linearizer" where
  "lz_setdefault key lz =
     (case map_of (lz_key_to_defer lz) key of
        Some e \<Rightarrow> (e, lz)
      | None \<Rightarrow> (length (lz_entries lz),
          lz\<lparr>lz_key_to_defer := dict_set key (length (lz_entries lz)) (lz_key_to_defer lz),
             lz_entries := lz_entries lz @ [\<lparr>le_count = 0, le_deferreds = []\<rparr>]\<rparr>))"

definition is_queued :: "'k \<Rightarrow> 'k linearizer \<Rightarrow> bool" where
  "is_queued key lz =
     (case map_of (lz_key_to_defer lz) key of None \<Rightarrow> False | Some e \<Rightarrow> le_deferreds (lz_entries lz ! e) \<noteq> [])"

text \<open>\<^verbatim>\<open>_acquire_lock\<close> up to its first wait: the entry, and whether the lock is taken at once.\<close>

definition acquire_lock :: "'k \<Rightarrow> nat \<Rightarrow> 'k linearizer \<Rightarrow> 'k linearizer \<times> nat \<times> bool" where
  "acquire_lock key new_defer lz =
     (let (e, lz) = lz_setdefault key lz; x = lz_entries lz ! e
      in if le_count x < lz_max_count lz then (lz_set_entry e (x\<lparr>le_count := le_count x + 1\<rparr>) lz, e, True)
         else (lz_set_entry e (x\<lparr>le_deferreds := le_deferreds x @ [new_defer]\<rparr>) lz, e, False))"

text \<open>Its branch for an exception while it waits.\<close>

definition cancel_wait :: "nat \<Rightarrow> nat \<Rightarrow> 'k linearizer \<Rightarrow> 'k linearizer res" where
  "cancel_wait e new_defer lz =
     (let x = lz_entries lz ! e
      in if new_defer \<in> set (le_deferreds x)
         then Inr (lz_set_entry e (x\<lparr>le_deferreds := removeAll new_defer (le_deferreds x)\<rparr>) lz)
         else Inl KeyError)"

text \<open>\<^verbatim>\<open>_release_lock\<close>. The callback runs the coroutine that is called until its next wait, which is after
  \<^verbatim>\<open>entry.count += 1\<close>.\<close>

definition release_lock :: "'k \<Rightarrow> nat \<Rightarrow> 'k linearizer \<Rightarrow> ('k linearizer \<times> nat option) res" where
  "release_lock key e lz =
     (let x = lz_entries lz ! e; count = le_count x - 1
      in case le_deferreds x of
           next_def # rest \<Rightarrow> Inr (lz_set_entry e \<lparr>le_count = count + 1, le_deferreds = rest\<rparr> lz, Some next_def)
         | [] \<Rightarrow>
             let lz = lz_set_entry e (x\<lparr>le_count := count\<rparr>) lz
             in if count = 0 then
                  (if map_of (lz_key_to_defer lz) key = None then Inl KeyError
                   else Inr (lz\<lparr>lz_key_to_defer := dict_pop key (lz_key_to_defer lz)\<rparr>, None))
                else Inr (lz, None))"

text \<open>The coroutines that came, each with its key, its entry and where it is. One that was called and waits
  in \<^verbatim>\<open>sleep(0)\<close> holds the lock; when it is cancelled there, it releases it.\<close>

record 'k lz_task =
  lt_key :: 'k
  lt_entry :: nat
  lt_status :: task_status

definition lz_wake :: "nat option \<Rightarrow> 'k lz_task list \<Rightarrow> 'k lz_task list" where
  "lz_wake n ts = (case n of None \<Rightarrow> ts | Some i \<Rightarrow> ts[i := (ts ! i)\<lparr>lt_status := Holding\<rparr>])"

inductive lz_run :: "int \<Rightarrow> 'k linearizer \<Rightarrow> 'k lz_task list \<Rightarrow> bool" for max_count where
  lz_new: "lz_run max_count (new_linearizer max_count) []"
| lz_acquire: "lz_run max_count lz ts \<Longrightarrow> acquire_lock key (length ts) lz = (lz', e, got) \<Longrightarrow>
   lz_run max_count lz' (ts @ [\<lparr>lt_key = key, lt_entry = e, lt_status = (if got then Holding else Waiting)\<rparr>])"
| lz_cancel: "lz_run max_count lz ts \<Longrightarrow> t < length ts \<Longrightarrow> lt_status (ts ! t) = Waiting \<Longrightarrow>
   cancel_wait (lt_entry (ts ! t)) t lz = Inr lz' \<Longrightarrow> lz_run max_count lz' (ts[t := (ts ! t)\<lparr>lt_status := Finished\<rparr>])"
| lz_release: "lz_run max_count lz ts \<Longrightarrow> t < length ts \<Longrightarrow> lt_status (ts ! t) = Holding \<Longrightarrow>
   release_lock (lt_key (ts ! t)) (lt_entry (ts ! t)) lz = Inr (lz', n) \<Longrightarrow>
   lz_run max_count lz' (lz_wake n (ts[t := (ts ! t)\<lparr>lt_status := Finished\<rparr>]))"

definition lz_tasks :: "task_status \<Rightarrow> 'k \<Rightarrow> 'k lz_task list \<Rightarrow> nat set" where
  "lz_tasks st key ts = {t. t < length ts \<and> lt_key (ts ! t) = key \<and> lt_status (ts ! t) = st}"

subsection \<open>Invariant\<close>

text \<open>The entry of a key counts the coroutines that hold it and lists those that wait in the order they came;
  nobody waits while there is room; and a key without entry has neither.\<close>

definition entry_ok :: "int \<Rightarrow> 'k lz_task list \<Rightarrow> 'k \<Rightarrow> linearizer_entry \<Rightarrow> bool" where
  "entry_ok m ts key x \<longleftrightarrow> le_count x = int (card (lz_tasks Holding key ts)) \<and> 0 < le_count x \<and> le_count x \<le> m \<and>
     sorted_wrt (<) (le_deferreds x) \<and> set (le_deferreds x) = lz_tasks Waiting key ts \<and>
     (le_deferreds x \<noteq> [] \<longrightarrow> le_count x = m)"

definition lz_inv :: "int \<Rightarrow> 'k linearizer \<Rightarrow> 'k lz_task list \<Rightarrow> bool" where
  "lz_inv m lz ts \<longleftrightarrow> lz_max_count lz = m \<and>
     (\<forall>key e. map_of (lz_key_to_defer lz) key = Some e \<longrightarrow> e < length (lz_entries lz) \<and> entry_ok m ts key (lz_entries lz ! e)) \<and>
     (\<forall>key key' e. map_of (lz_key_to_defer lz) key = Some e \<and> map_of (lz_key_to_defer lz) key' = Some e \<longrightarrow> key = key') \<and>
     (\<forall>t < length ts. lt_status (ts ! t) \<noteq> Finished \<longrightarrow> map_of (lz_key_to_defer lz) (lt_key (ts ! t)) = Some (lt_entry (ts ! t)))"

lemma lz_tasks_finite [simp]: "finite (lz_tasks st key ts)"
  by (simp add: lz_tasks_def)

lemma lz_tasks_append:
  "lz_tasks st key (ts @ [x]) = lz_tasks st key ts \<union> (if lt_key x = key \<and> lt_status x = st then {length ts} else {})"
  by (auto simp: lz_tasks_def nth_append less_Suc_eq)

lemma lz_tasks_update:
  assumes "t < length ts"
  shows "lz_tasks st key (ts[t := (ts ! t)\<lparr>lt_status := st'\<rparr>]) =
    (if lt_key (ts ! t) = key \<and> st = st' then insert t (lz_tasks st key ts)
     else lz_tasks st key ts - {t})"
  using assms by (auto simp: lz_tasks_def nth_list_update)

lemma lz_tasks_less: "t \<in> lz_tasks st key ts \<Longrightarrow> t < length ts"
  by (simp add: lz_tasks_def)

lemma entry_ok_cong:
  "lz_tasks Holding key ts' = lz_tasks Holding key ts \<Longrightarrow> lz_tasks Waiting key ts' = lz_tasks Waiting key ts \<Longrightarrow>
   entry_ok m ts' key x = entry_ok m ts key x"
  by (simp add: entry_ok_def)

lemma no_entry_no_tasks:
  assumes "lz_inv m lz ts" "map_of (lz_key_to_defer lz) key = None" "st \<noteq> Finished"
  shows "lz_tasks st key ts = {}"
  using assms unfolding lz_inv_def lz_tasks_def by fastforce

text \<open>The invariant without what it says of the entry of one key, and the change of that entry.\<close>

definition lz_rest :: "int \<Rightarrow> 'k linearizer \<Rightarrow> 'k lz_task list \<Rightarrow> 'k \<Rightarrow> nat \<Rightarrow> bool" where
  "lz_rest m lz ts key e \<longleftrightarrow> lz_max_count lz = m \<and> map_of (lz_key_to_defer lz) key = Some e \<and> e < length (lz_entries lz) \<and>
     (\<forall>k e'. k \<noteq> key \<and> map_of (lz_key_to_defer lz) k = Some e' \<longrightarrow> e' < length (lz_entries lz) \<and> entry_ok m ts k (lz_entries lz ! e')) \<and>
     (\<forall>k k' e'. map_of (lz_key_to_defer lz) k = Some e' \<and> map_of (lz_key_to_defer lz) k' = Some e' \<longrightarrow> k = k') \<and>
     (\<forall>t < length ts. lt_status (ts ! t) \<noteq> Finished \<longrightarrow> map_of (lz_key_to_defer lz) (lt_key (ts ! t)) = Some (lt_entry (ts ! t)))"

lemma lz_inv_rest: "lz_inv m lz ts \<Longrightarrow> map_of (lz_key_to_defer lz) key = Some e \<Longrightarrow> lz_rest m lz ts key e"
  unfolding lz_inv_def lz_rest_def by blast

lemma lz_inv_change:
  assumes rest: "lz_rest m lz ts key e" and x: "entry_ok m ts' key x"
    and other: "\<And>key' st. key' \<noteq> key \<Longrightarrow> st \<noteq> Finished \<Longrightarrow> lz_tasks st key' ts' = lz_tasks st key' ts"
    and tasks: "\<And>t. t < length ts' \<Longrightarrow> lt_status (ts' ! t) \<noteq> Finished \<Longrightarrow>
      map_of (lz_key_to_defer lz) (lt_key (ts' ! t)) = Some (lt_entry (ts' ! t))"
  shows "lz_inv m (lz_set_entry e x lz) ts'"
proof -
  have "entry_ok m ts' k ((lz_entries lz)[e := x] ! e')" if k: "map_of (lz_key_to_defer lz) k = Some e'" for k e'
  proof (cases "k = key")
    case True
    then show ?thesis using k x rest by (simp add: lz_rest_def)
  next
    case False
    then have "e' \<noteq> e" using k rest unfolding lz_rest_def by blast
    then have "(lz_entries lz)[e := x] ! e' = lz_entries lz ! e'" by simp
    moreover have "entry_ok m ts k (lz_entries lz ! e')" using k False rest by (simp add: lz_rest_def)
    ultimately show ?thesis using entry_ok_cong [OF other [OF False] other [OF False]] by simp
  qed
  moreover have "e' < length (lz_entries lz)" if "map_of (lz_key_to_defer lz) k = Some e'" for k e'
    using that rest unfolding lz_rest_def by (cases "k = key") auto
  ultimately show ?thesis using rest tasks unfolding lz_inv_def lz_rest_def lz_set_entry_def by simp
qed

lemma setdefault_ok:
  assumes inv: "lz_inv m lz ts" and r: "lz_setdefault key lz = (e, lz')"
  shows "lz_rest m lz' ts key e" "entry_ok m ts key (lz_entries lz' ! e) \<or>
    lz_entries lz' ! e = \<lparr>le_count = 0, le_deferreds = []\<rparr> \<and> lz_tasks Holding key ts = {} \<and> lz_tasks Waiting key ts = {}"
proof -
  note i = inv [unfolded lz_inv_def]
  have "lz_rest m lz' ts key e \<and> (entry_ok m ts key (lz_entries lz' ! e) \<or>
    lz_entries lz' ! e = \<lparr>le_count = 0, le_deferreds = []\<rparr> \<and> lz_tasks Holding key ts = {} \<and> lz_tasks Waiting key ts = {})"
  proof (cases "map_of (lz_key_to_defer lz) key")
    case (Some e0)
    then have "e0 = e" "lz' = lz" using r by (simp_all add: lz_setdefault_def)
    then show ?thesis using i Some lz_inv_rest [OF inv] by blast
  next
    case None
    have e: "e = length (lz_entries lz)" and lz': "lz' = lz\<lparr>lz_key_to_defer := dict_set key e (lz_key_to_defer lz),
        lz_entries := lz_entries lz @ [\<lparr>le_count = 0, le_deferreds = []\<rparr>]\<rparr>"
      using r None by (auto simp: lz_setdefault_def)
    have old: "e' < length (lz_entries lz) \<and> entry_ok m ts k (lz_entries lz ! e')" if "map_of (lz_key_to_defer lz) k = Some e'" for k e'
      using i that by blast
    have key: "lt_key (ts ! t) \<noteq> key" if "t < length ts" "lt_status (ts ! t) \<noteq> Finished" for t using i that None by force
    have m: "map_of (lz_key_to_defer lz') = (map_of (lz_key_to_defer lz))(key \<mapsto> length (lz_entries lz))" by (simp add: lz' e)
    have "lz_rest m lz' ts key e"
      unfolding lz_rest_def m
    proof (intro conjI allI impI)
      fix k e' assume "k \<noteq> key \<and> ((map_of (lz_key_to_defer lz))(key \<mapsto> length (lz_entries lz))) k = Some e'"
      then have "map_of (lz_key_to_defer lz) k = Some e'" by auto
      from old [OF this] show "e' < length (lz_entries lz')" "entry_ok m ts k (lz_entries lz' ! e')"
        by (auto simp: lz' nth_append)
    next
      fix k k' e' assume "((map_of (lz_key_to_defer lz))(key \<mapsto> length (lz_entries lz))) k = Some e' \<and>
        ((map_of (lz_key_to_defer lz))(key \<mapsto> length (lz_entries lz))) k' = Some e'"
      then show "k = k'" using old i by (auto split: if_splits)
    qed (use i key in \<open>auto simp: lz' e\<close>)
    then show ?thesis using no_entry_no_tasks [OF inv None] by (simp add: lz' e)
  qed
  then show "lz_rest m lz' ts key e" "entry_ok m ts key (lz_entries lz' ! e) \<or>
    lz_entries lz' ! e = \<lparr>le_count = 0, le_deferreds = []\<rparr> \<and> lz_tasks Holding key ts = {} \<and> lz_tasks Waiting key ts = {}" by auto
qed

lemma acquire_inv:
  assumes inv: "lz_inv m lz ts" and m: "0 < m" and r: "acquire_lock key (length ts) lz = (lz', e, got)"
  shows "lz_inv m lz' (ts @ [\<lparr>lt_key = key, lt_entry = e, lt_status = (if got then Holding else Waiting)\<rparr>])"
proof -
  obtain e0 lz1 where s: "lz_setdefault key lz = (e0, lz1)" by fastforce
  let ?x = "lz_entries lz1 ! e0"
  note rest = setdefault_ok(1) [OF inv s] and x = setdefault_ok(2) [OF inv s]
  have max: "lz_max_count lz1 = m" and k: "map_of (lz_key_to_defer lz1) key = Some e0"
    and t: "\<And>t. t < length ts \<Longrightarrow> lt_status (ts ! t) \<noteq> Finished \<Longrightarrow> map_of (lz_key_to_defer lz1) (lt_key (ts ! t)) = Some (lt_entry (ts ! t))"
    using rest by (simp_all add: lz_rest_def)
  have e: "e0 = e" and got: "got \<longleftrightarrow> le_count ?x < m"
    and lz': "lz' = lz_set_entry e (if got then ?x\<lparr>le_count := le_count ?x + 1\<rparr> else ?x\<lparr>le_deferreds := le_deferreds ?x @ [length ts]\<rparr>) lz1"
    using r by (auto simp: acquire_lock_def s Let_def max split: if_splits)
  let ?ts = "ts @ [\<lparr>lt_key = key, lt_entry = e, lt_status = (if got then Holding else Waiting)\<rparr>]"
  have fresh: "length ts \<notin> lz_tasks st key ts" for st by (auto dest: lz_tasks_less)
  have less: "\<forall>d \<in> set (le_deferreds ?x). d < length ts" using x by (auto simp: entry_ok_def dest: lz_tasks_less)
  have "entry_ok m ?ts key (if got then ?x\<lparr>le_count := le_count ?x + 1\<rparr> else ?x\<lparr>le_deferreds := le_deferreds ?x @ [length ts]\<rparr>)"
    using x less m fresh by (cases got) (auto simp: entry_ok_def lz_tasks_append got sorted_wrt_append)
  then show ?thesis
    unfolding lz'
    by (rule lz_inv_change [OF rest [unfolded e]]) (auto simp: lz_tasks_append nth_append k [unfolded e] less_Suc_eq t)
qed

lemma cancel_inv:
  assumes inv: "lz_inv m lz ts" and t: "t < length ts" "lt_status (ts ! t) = Waiting"
  shows "\<exists>lz'. cancel_wait (lt_entry (ts ! t)) t lz = Inr lz' \<and> lz_inv m lz' (ts[t := (ts ! t)\<lparr>lt_status := Finished\<rparr>])"
proof -
  let ?key = "lt_key (ts ! t)" and ?e = "lt_entry (ts ! t)"
  let ?x = "lz_entries lz ! ?e" and ?ts = "ts[t := (ts ! t)\<lparr>lt_status := Finished\<rparr>]"
  have k: "map_of (lz_key_to_defer lz) ?key = Some ?e" using inv t by (simp add: lz_inv_def)
  have x: "entry_ok m ts ?key ?x" using inv k by (simp add: lz_inv_def)
  have w: "t \<in> lz_tasks Waiting ?key ts" "t \<notin> lz_tasks Holding ?key ts" using t by (simp_all add: lz_tasks_def)
  have "entry_ok m ?ts ?key (?x\<lparr>le_deferreds := removeAll t (le_deferreds ?x)\<rparr>)"
    using x w t(1) by (auto simp: entry_ok_def lz_tasks_update sorted_wrt_filter removeAll_filter_not_eq)
  then have "lz_inv m (lz_set_entry ?e (?x\<lparr>le_deferreds := removeAll t (le_deferreds ?x)\<rparr>) lz) ?ts"
    by (rule lz_inv_change [OF lz_inv_rest [OF inv k]])
      (use inv t in \<open>auto simp: lz_tasks_update lz_tasks_def lz_inv_def nth_list_update split: if_splits\<close>)
  moreover have "t \<in> set (le_deferreds ?x)" using x w(1) by (simp add: entry_ok_def)
  ultimately show ?thesis by (simp add: cancel_wait_def Let_def)
qed


lemma release_inv:
  assumes inv: "lz_inv m lz ts" and t: "t < length ts" "lt_status (ts ! t) = Holding"
  shows "\<exists>lz' n. release_lock (lt_key (ts ! t)) (lt_entry (ts ! t)) lz = Inr (lz', n) \<and>
    lz_inv m lz' (lz_wake n (ts[t := (ts ! t)\<lparr>lt_status := Finished\<rparr>])) \<and>
    n = (if lz_tasks Waiting (lt_key (ts ! t)) ts = {} then None else Some (Min (lz_tasks Waiting (lt_key (ts ! t)) ts)))"
proof -
  let ?key = "lt_key (ts ! t)" and ?e = "lt_entry (ts ! t)"
  let ?x = "lz_entries lz ! ?e" and ?ts = "ts[t := (ts ! t)\<lparr>lt_status := Finished\<rparr>]"
  have k: "map_of (lz_key_to_defer lz) ?key = Some ?e" using inv t by (simp add: lz_inv_def)
  have x: "entry_ok m ts ?key ?x" using inv k by (simp add: lz_inv_def)
  note rest = lz_inv_rest [OF inv k]
  have w: "t \<notin> lz_tasks Waiting ?key ts" "t \<in> lz_tasks Holding ?key ts" using t by (simp_all add: lz_tasks_def)
  have H: "card (lz_tasks Holding ?key ts - {t}) = card (lz_tasks Holding ?key ts) - 1" "0 < card (lz_tasks Holding ?key ts)"
    using w(2) by (auto simp: card_gt_0_iff)
  have task: "map_of (lz_key_to_defer lz) (lt_key (ts ! i)) = Some (lt_entry (ts ! i))"
    if "i < length ts" "lt_status (ts ! i) \<noteq> Finished" for i using inv that by (simp add: lz_inv_def)
  show ?thesis
  proof (cases "le_deferreds ?x")
    case (Cons n ds)
    let ?ts' = "?ts[n := (?ts ! n)\<lparr>lt_status := Holding\<rparr>]"
    have n: "n \<in> lz_tasks Waiting ?key ts" "n \<noteq> t" "\<forall>d \<in> set ds. n < d"
      using x w Cons by (auto simp: entry_ok_def)
    then have n': "n < length ts" "lt_key (ts ! n) = ?key" "lt_status (ts ! n) = Waiting" by (auto simp: lz_tasks_def)
    have W: "lz_tasks Waiting ?key ts = insert n (set ds)" using x Cons by (simp add: entry_ok_def)
    then have min: "Min (lz_tasks Waiting ?key ts) = n" using n(3) by (intro Min_eqI) auto
    have "n \<notin> lz_tasks Holding ?key ts - {t}" using n' by (simp add: lz_tasks_def)
    then have "card (insert n (lz_tasks Holding ?key ts - {t})) = card (lz_tasks Holding ?key ts)" using H by simp
    moreover have "insert n (set ds) - {t} - {n} = set ds" using n(2,3) w(1) W by auto
    moreover have "lz_tasks Holding ?key ?ts' = insert n (lz_tasks Holding ?key ts - {t})"
      "lz_tasks Waiting ?key ?ts' = lz_tasks Waiting ?key ts - {t} - {n}"
      using n' n(2) t by (auto simp: lz_tasks_def nth_list_update)
    ultimately have "entry_ok m ?ts' ?key \<lparr>le_count = le_count ?x - 1 + 1, le_deferreds = ds\<rparr>"
      using x Cons W by (simp add: entry_ok_def)
    moreover have "lt_entry (ts ! n) = ?e" using task [of n] n' k by simp
    ultimately have "lz_inv m (lz_set_entry ?e \<lparr>le_count = le_count ?x - 1 + 1, le_deferreds = ds\<rparr> lz) ?ts'"
      by (intro lz_inv_change [OF rest])
        (use t n' n(2) task k in \<open>auto simp: lz_tasks_update nth_list_update lz_tasks_def split: if_splits\<close>)
    then show ?thesis using Cons W min by (simp add: release_lock_def Let_def lz_wake_def)
  next
    case Nil
    then have W: "lz_tasks Waiting ?key ts = {}" using x by (simp add: entry_ok_def)
    have other: "lz_tasks st k ?ts = lz_tasks st k ts" if "k \<noteq> ?key" "st \<noteq> Finished" for k st
      using that t by (auto simp: lz_tasks_def nth_list_update split: if_splits)
    show ?thesis
    proof (cases "le_count ?x = 1")
      case True
      then have "lz_tasks Holding ?key ts = {t}" using x w(2) by (auto simp: entry_ok_def card_1_singleton_iff)
      with W have gone: "lt_key (ts ! i) \<noteq> ?key" if "i < length ts" "i \<noteq> t" "lt_status (ts ! i) \<noteq> Finished" for i
        using that by (cases "lt_status (ts ! i)") (auto simp: lz_tasks_def)
      let ?lz = "(lz_set_entry ?e (?x\<lparr>le_count := 0\<rparr>) lz)\<lparr>lz_key_to_defer := dict_pop ?key (lz_key_to_defer lz)\<rparr>"
      have "entry_ok m ?ts k' ((lz_entries lz)[?e := x'] ! e')" if k': "map_of (lz_key_to_defer lz) k' = Some e'" "k' \<noteq> ?key" for k' e' x'
      proof -
        have "e' \<noteq> ?e" "entry_ok m ts k' (lz_entries lz ! e')" using rest k' unfolding lz_rest_def by blast+
        then show ?thesis using entry_ok_cong [OF other [OF k'(2)] other [OF k'(2)]] by simp
      qed
      then have "lz_inv m ?lz ?ts"
        using rest gone t unfolding lz_inv_def lz_rest_def lz_set_entry_def by (auto simp: nth_list_update)
      then show ?thesis using Nil True W k by (simp add: release_lock_def Let_def lz_wake_def lz_set_entry_def)
    next
      case False
      have "entry_ok m ?ts ?key (?x\<lparr>le_count := le_count ?x - 1\<rparr>)"
        using x Nil False H t w W by (auto simp: entry_ok_def lz_tasks_update of_nat_diff)
      then have "lz_inv m (lz_set_entry ?e (?x\<lparr>le_count := le_count ?x - 1\<rparr>) lz) ?ts"
        by (rule lz_inv_change [OF rest]) (use other task t in \<open>auto simp: nth_list_update split: if_splits\<close>)
      then show ?thesis using Nil False W by (simp add: release_lock_def Let_def lz_wake_def)
    qed
  qed
qed


lemma lz_run_inv: "lz_run m lz ts \<Longrightarrow> 0 < m \<Longrightarrow> lz_inv m lz ts"
proof (induction rule: lz_run.induct)
  case lz_new
  show ?case by (simp add: lz_inv_def new_linearizer_def)
next
  case (lz_acquire lz ts key lz' e got)
  then show ?case by (intro acquire_inv)
next
  case (lz_cancel lz ts t lz')
  then show ?case using cancel_inv [of m lz ts t] by auto
next
  case (lz_release lz ts t lz' n)
  obtain lz1 n1 where "release_lock (lt_key (ts ! t)) (lt_entry (ts ! t)) lz = Inr (lz1, n1)"
    "lz_inv m lz1 (lz_wake n1 (ts[t := (ts ! t)\<lparr>lt_status := Finished\<rparr>]))"
    using release_inv [of m lz ts t] lz_release by blast
  then show ?case using lz_release.hyps(4) by simp
qed

text \<open>C32: \<^verbatim>\<open>Linearizer\<close>. However coroutines come, finish and are cancelled, no operation raises; at most
  \<^verbatim>\<open>max_count\<close> hold the lock of a key at a time, and exactly that many while somebody waits; whoever
  releases it hands it to the one that waits longest; and a key without holders is forgotten.\<close>

theorem linearizer_limits:
  assumes run: "lz_run m lz ts" and m: "0 < m"
  shows "int (card (lz_tasks Holding key ts)) \<le> m \<and>
    (lz_tasks Waiting key ts \<noteq> {} \<longrightarrow> int (card (lz_tasks Holding key ts)) = m) \<and>
    (is_queued key lz \<longleftrightarrow> lz_tasks Waiting key ts \<noteq> {}) \<and>
    (map_of (lz_key_to_defer lz) key = None \<longleftrightarrow> lz_tasks Holding key ts = {}) \<and>
    (\<forall>t \<in> lz_tasks Waiting key ts. \<exists>lz'. cancel_wait (lt_entry (ts ! t)) t lz = Inr lz') \<and>
    (\<forall>t \<in> lz_tasks Holding key ts. \<exists>lz'. release_lock key (lt_entry (ts ! t)) lz =
      Inr (lz', if lz_tasks Waiting key ts = {} then None else Some (Min (lz_tasks Waiting key ts))))"
proof -
  note inv = lz_run_inv [OF run m]
  have "\<forall>t \<in> lz_tasks Waiting key ts. \<exists>lz'. cancel_wait (lt_entry (ts ! t)) t lz = Inr lz'"
    using cancel_inv [OF inv] by (auto simp: lz_tasks_def)
  moreover have "\<exists>lz'. release_lock key (lt_entry (ts ! t)) lz =
      Inr (lz', if lz_tasks Waiting key ts = {} then None else Some (Min (lz_tasks Waiting key ts)))" if t: "t \<in> lz_tasks Holding key ts" for t
  proof -
    have "t < length ts" "lt_key (ts ! t) = key" "lt_status (ts ! t) = Holding" using t by (simp_all add: lz_tasks_def)
    then show ?thesis using release_inv [OF inv, of t] by blast
  qed
  moreover have "int (card (lz_tasks Holding key ts)) \<le> m \<and> (lz_tasks Waiting key ts \<noteq> {} \<longrightarrow> int (card (lz_tasks Holding key ts)) = m) \<and>
    (is_queued key lz \<longleftrightarrow> lz_tasks Waiting key ts \<noteq> {}) \<and> (map_of (lz_key_to_defer lz) key = None \<longleftrightarrow> lz_tasks Holding key ts = {})"
  proof (cases "map_of (lz_key_to_defer lz) key")
    case None
    then show ?thesis using no_entry_no_tasks [OF inv None] m by (simp add: is_queued_def)
  next
    case (Some e)
    then have "entry_ok m ts key (lz_entries lz ! e)" using inv by (simp add: lz_inv_def)
    then show ?thesis using Some by (auto simp: entry_ok_def is_queued_def)
  qed
  ultimately show ?thesis by blast
qed

lemma linearizer_limits_witness:
  "\<exists>lz ts. ts = [\<lparr>lt_key = ''k'', lt_entry = 0, lt_status = Holding\<rparr>, \<lparr>lt_key = ''k'', lt_entry = 0, lt_status = Waiting\<rparr>] \<and>
    lz_run 1 lz ts \<and> is_queued ''k'' lz \<and> (\<exists>lz'. release_lock ''k'' 0 lz = Inr (lz', Some 1))"
proof -
  let ?x = "\<lparr>lt_key = ''k'', lt_entry = 0, lt_status = Holding\<rparr>" and ?y = "\<lparr>lt_key = ''k'', lt_entry = 0, lt_status = Waiting\<rparr>"
  let ?lz1 = "\<lparr>lz_max_count = 1, lz_key_to_defer = [(''k'', 0)], lz_entries = [\<lparr>le_count = 1, le_deferreds = []\<rparr>]\<rparr>"
  let ?lz2 = "\<lparr>lz_max_count = 1, lz_key_to_defer = [(''k'', 0)], lz_entries = [\<lparr>le_count = 1, le_deferreds = [1]\<rparr>]\<rparr>"
  have "acquire_lock ''k'' (length ([] :: string lz_task list)) (new_linearizer 1) = (?lz1, 0, True)"
    "acquire_lock ''k'' (length [?x]) ?lz1 = (?lz2, 0, False)"
    by (simp_all add: acquire_lock_def new_linearizer_def lz_setdefault_def lz_set_entry_def)
  from lz_acquire [OF lz_new this(1)] this(2) have run: "lz_run 1 ?lz2 [?x, ?y]"
    using lz_acquire [of 1 ?lz1 "[?x]" "''k''" ?lz2 0 False] by simp
  have "lz_tasks Waiting ''k'' [?x, ?y] = {1}" "0 \<in> lz_tasks Holding ''k'' [?x, ?y]"
    by (auto simp: lz_tasks_def less_Suc_eq)
  then show ?thesis
    using linearizer_limits [OF run, of "''k''"] run by (intro exI [of _ ?lz2] exI [of _ "[?x, ?y]"]) auto
qed


section \<open>Read-write lock\<close>

record 'k rw_lock =
  rw_readers :: "('k, nat list) dict"
  rw_writer :: "('k, nat) dict"

definition new_rw_lock :: "'k rw_lock" where
  "new_rw_lock = \<lparr>rw_readers = [], rw_writer = []\<rparr>"

text \<open>The two context managers up to their wait, with the deferreds they wait for, and their last lines
  after \<^verbatim>\<open>new_defer.callback\<close>, which may run other coroutines.\<close>

definition rw_begin_read :: "'k \<Rightarrow> nat \<Rightarrow> 'k rw_lock \<Rightarrow> 'k rw_lock \<times> nat list" where
  "rw_begin_read key new_defer rw =
     (let curr_readers = dict_get key [] (rw_readers rw)
      in (rw\<lparr>rw_readers := dict_set key (List.insert new_defer curr_readers) (rw_readers rw)\<rparr>,
          case map_of (rw_writer rw) key of None \<Rightarrow> [] | Some curr_writer \<Rightarrow> [curr_writer]))"

definition rw_begin_write :: "'k \<Rightarrow> nat \<Rightarrow> 'k rw_lock \<Rightarrow> 'k rw_lock \<times> nat list" where
  "rw_begin_write key new_defer rw =
     (let curr_readers = dict_get key [] (rw_readers rw)
      in (rw\<lparr>rw_readers := (if map_of (rw_readers rw) key = None then rw_readers rw else dict_set key [] (rw_readers rw)),
             rw_writer := dict_set key new_defer (rw_writer rw)\<rparr>,
          curr_readers @ (case map_of (rw_writer rw) key of None \<Rightarrow> [] | Some curr_writer \<Rightarrow> [curr_writer])))"

definition rw_end_read :: "'k \<Rightarrow> nat \<Rightarrow> 'k rw_lock \<Rightarrow> 'k rw_lock" where
  "rw_end_read key new_defer rw =
     (case map_of (rw_readers rw) key of
        None \<Rightarrow> rw
      | Some rs \<Rightarrow> rw\<lparr>rw_readers := dict_set key (removeAll new_defer rs) (rw_readers rw)\<rparr>)"

definition rw_end_write :: "'k \<Rightarrow> nat \<Rightarrow> 'k rw_lock \<Rightarrow> 'k rw_lock" where
  "rw_end_write key new_defer rw =
     (if map_of (rw_writer rw) key = Some new_defer then rw\<lparr>rw_writer := dict_pop key (rw_writer rw)\<rparr> else rw)"

record 'k rw_task =
  rt_key :: 'k
  rt_writer :: bool
  rt_waits :: "nat list"
  rt_status :: task_status

abbreviation rw_set_status :: "nat \<Rightarrow> task_status \<Rightarrow> 'k rw_task list \<Rightarrow> 'k rw_task list" where
  "rw_set_status t st ts \<equiv> ts[t := (ts ! t)\<lparr>rt_status := st\<rparr>]"

text \<open>A coroutine that waits may go on once all the deferreds it waits for were called; one that is done
  calls its own, and later cleans up. A reader that is cancelled stops waiting at once, a writer only
  when its wait is over, as if it had held the lock.\<close>

inductive rw_run :: "'k rw_lock \<Rightarrow> 'k rw_task list \<Rightarrow> bool" where
  rw_new: "rw_run new_rw_lock []"
| rw_read: "rw_run rw ts \<Longrightarrow> rw_begin_read key (length ts) rw = (rw', ws) \<Longrightarrow>
   rw_run rw' (ts @ [\<lparr>rt_key = key, rt_writer = False, rt_waits = ws, rt_status = Waiting\<rparr>])"
| rw_write: "rw_run rw ts \<Longrightarrow> rw_begin_write key (length ts) rw = (rw', ws) \<Longrightarrow>
   rw_run rw' (ts @ [\<lparr>rt_key = key, rt_writer = True, rt_waits = ws, rt_status = Waiting\<rparr>])"
| rw_enter: "rw_run rw ts \<Longrightarrow> t < length ts \<Longrightarrow> rt_status (ts ! t) = Waiting \<Longrightarrow>
   \<forall>d \<in> set (rt_waits (ts ! t)). rt_status (ts ! d) = Finished \<Longrightarrow> rw_run rw (rw_set_status t Holding ts)"
| rw_leave: "rw_run rw ts \<Longrightarrow> t < length ts \<Longrightarrow> rt_status (ts ! t) = Holding \<Longrightarrow> rw_run rw (rw_set_status t Finished ts)"
| rw_cancel: "rw_run rw ts \<Longrightarrow> t < length ts \<Longrightarrow> rt_status (ts ! t) = Waiting \<Longrightarrow> \<not> rt_writer (ts ! t) \<Longrightarrow>
   rw_run rw (rw_set_status t Finished ts)"
| rw_clean: "rw_run rw ts \<Longrightarrow> t < length ts \<Longrightarrow> rt_status (ts ! t) = Finished \<Longrightarrow>
   rw_run (if rt_writer (ts ! t) then rw_end_write (rt_key (ts ! t)) t rw else rw_end_read (rt_key (ts ! t)) t rw) ts"

text \<open>Whoever comes is blocked by those of the same key that came before, unless both read.\<close>

definition rw_blocks :: "'k rw_task list \<Rightarrow> nat \<Rightarrow> nat \<Rightarrow> bool" where
  "rw_blocks ts i j \<longleftrightarrow> i < j \<and> rt_key (ts ! i) = rt_key (ts ! j) \<and> (rt_writer (ts ! i) \<or> rt_writer (ts ! j))"

text \<open>The invariant: a writer that got the lock, or is done with it, and a reader that has it, are blocked by
  nobody; a coroutine that waits, waits for whoever blocks it, or for a writer that came later than that;
  and the two maps remember everybody who is not done, or a later writer.\<close>

definition rw_admitted :: "'k rw_task list \<Rightarrow> bool" where
  "rw_admitted ts \<longleftrightarrow> (\<forall>j < length ts. \<forall>i. rw_blocks ts i j \<and>
     (rt_status (ts ! j) = Holding \<or> rt_writer (ts ! j) \<and> rt_status (ts ! j) = Finished) \<longrightarrow> rt_status (ts ! i) = Finished)"

definition rw_waits_ok :: "'k rw_task list \<Rightarrow> bool" where
  "rw_waits_ok ts \<longleftrightarrow> (\<forall>j < length ts. set (rt_waits (ts ! j)) \<subseteq> {..<j} \<and>
     (\<forall>i. rw_blocks ts i j \<and> rt_status (ts ! j) = Waiting \<longrightarrow> rt_status (ts ! i) = Finished \<or> i \<in> set (rt_waits (ts ! j)) \<or>
       (\<exists>y \<in> set (rt_waits (ts ! j)). rt_writer (ts ! y) \<and> rw_blocks ts i y)))"

definition rw_maps_ok :: "'k rw_lock \<Rightarrow> 'k rw_task list \<Rightarrow> bool" where
  "rw_maps_ok rw ts \<longleftrightarrow>
     (\<forall>key w. map_of (rw_writer rw) key = Some w \<longrightarrow> w < length ts \<and> rt_key (ts ! w) = key \<and> rt_writer (ts ! w)) \<and>
     (\<forall>key. set (dict_get key [] (rw_readers rw)) \<subseteq> {..<length ts}) \<and>
     (\<forall>i < length ts. rt_status (ts ! i) = Finished \<or> \<not> rt_writer (ts ! i) \<and> i \<in> set (dict_get (rt_key (ts ! i)) [] (rw_readers rw)) \<or>
       (\<exists>w. map_of (rw_writer rw) (rt_key (ts ! i)) = Some w \<and> (i < w \<or> i = w)))"

definition rw_inv :: "'k rw_lock \<Rightarrow> 'k rw_task list \<Rightarrow> bool" where
  "rw_inv rw ts \<longleftrightarrow> rw_admitted ts \<and> rw_waits_ok ts \<and> rw_maps_ok rw ts"


lemma rw_blocks_append: "j < length ts \<Longrightarrow> rw_blocks (ts @ xs) i j = rw_blocks ts i j"
  by (auto simp: rw_blocks_def nth_append)

lemma rw_begin_inv:
  assumes inv: "rw_inv rw ts" and x: "rt_status x = Waiting" and ws: "set (rt_waits x) \<subseteq> {..<length ts}"
    and wait: "\<And>i. i < length ts \<Longrightarrow> rt_key (ts ! i) = rt_key x \<Longrightarrow> rt_writer (ts ! i) \<or> rt_writer x \<Longrightarrow>
      rt_status (ts ! i) = Finished \<or> i \<in> set (rt_waits x) \<or>
      (\<exists>y \<in> set (rt_waits x). rt_writer (ts ! y) \<and> rt_key (ts ! y) = rt_key x \<and> i < y)"
    and maps: "rw_maps_ok rw' (ts @ [x])"
  shows "rw_inv rw' (ts @ [x])"
proof -
  have len: "i < length ts" if "rw_blocks ts i j" "j < length ts" for i j using that by (simp add: rw_blocks_def)
  have "rw_admitted (ts @ [x])"
    unfolding rw_admitted_def
  proof (intro allI impI)
    fix j i
    assume j: "j < length (ts @ [x])" and b: "rw_blocks (ts @ [x]) i j \<and> (rt_status ((ts @ [x]) ! j) = Holding \<or>
      rt_writer ((ts @ [x]) ! j) \<and> rt_status ((ts @ [x]) ! j) = Finished)"
    then have j': "j < length ts" using x by (cases "j = length ts") auto
    then have b': "rw_blocks ts i j" "(ts @ [x]) ! j = ts ! j" using b by (simp_all add: rw_blocks_append nth_append)
    have "rw_admitted ts" using inv by (simp add: rw_inv_def)
    then have "rt_status (ts ! i) = Finished"
      using b b' j' unfolding rw_admitted_def b'(2) by blast
    then show "rt_status ((ts @ [x]) ! i) = Finished" using len [OF b'(1) j'] by (simp add: nth_append)
  qed
  moreover have "rw_waits_ok (ts @ [x])"
    unfolding rw_waits_ok_def
  proof (intro allI impI)
    fix j assume j: "j < length (ts @ [x])"
    show "set (rt_waits ((ts @ [x]) ! j)) \<subseteq> {..<j} \<and>
     (\<forall>i. rw_blocks (ts @ [x]) i j \<and> rt_status ((ts @ [x]) ! j) = Waiting \<longrightarrow> rt_status ((ts @ [x]) ! i) = Finished \<or>
       i \<in> set (rt_waits ((ts @ [x]) ! j)) \<or>
       (\<exists>y \<in> set (rt_waits ((ts @ [x]) ! j)). rt_writer ((ts @ [x]) ! y) \<and> rw_blocks (ts @ [x]) i y))"
    proof (cases "j = length ts")
      case True
      have "\<exists>y \<in> set (rt_waits x). rt_writer ((ts @ [x]) ! y) \<and> rw_blocks (ts @ [x]) i y"
        if "\<exists>y \<in> set (rt_waits x). rt_writer (ts ! y) \<and> rt_key (ts ! y) = rt_key x \<and> i < y" "rt_key (ts ! i) = rt_key x" for i
        using that ws by (force simp: rw_blocks_def nth_append)
      moreover have "(ts @ [x]) ! j = x" using True by simp
      moreover have "i < length ts \<and> rt_key (ts ! i) = rt_key x \<and> (rt_writer (ts ! i) \<or> rt_writer x) \<and> (ts @ [x]) ! i = ts ! i"
        if "rw_blocks (ts @ [x]) i j" for i using that True by (auto simp: rw_blocks_def nth_append)
      ultimately show ?thesis using True ws wait by (intro conjI allI impI) (simp, metis)
    next
      case False
      then have j': "j < length ts" using j by simp
      have w: "set (rt_waits (ts ! j)) \<subseteq> {..<j}" using inv j' by (simp add: rw_inv_def rw_waits_ok_def)
      have "rt_status (ts ! i) = Finished \<or> i \<in> set (rt_waits (ts ! j)) \<or>
          (\<exists>y \<in> set (rt_waits (ts ! j)). rt_writer (ts ! y) \<and> rw_blocks ts i y)"
        if "rw_blocks ts i j" "rt_status (ts ! j) = Waiting" for i using inv j' that by (simp add: rw_inv_def rw_waits_ok_def)
      moreover have "\<exists>y \<in> set (rt_waits (ts ! j)). rt_writer ((ts @ [x]) ! y) \<and> rw_blocks (ts @ [x]) i y"
        if "\<exists>y \<in> set (rt_waits (ts ! j)). rt_writer (ts ! y) \<and> rw_blocks ts i y" for i
        using that w j' by (force simp: nth_append rw_blocks_append)
      moreover have "(ts @ [x]) ! i = ts ! i" if "rw_blocks ts i j" for i using len [OF that j'] by (simp add: nth_append)
      moreover have "(ts @ [x]) ! j = ts ! j" using j' by (simp add: nth_append)
      ultimately show ?thesis unfolding rw_blocks_append [OF j'] using w by (intro conjI allI impI) (simp, metis)
    qed
  qed
  ultimately show ?thesis using maps by (simp add: rw_inv_def)
qed

lemma rw_maps_cases:
  assumes "rw_inv rw ts" "i < length ts" "rt_key (ts ! i) = key" "rt_status (ts ! i) \<noteq> Finished"
  obtains "\<not> rt_writer (ts ! i)" "i \<in> set (dict_get key [] (rw_readers rw))"
  | w where "map_of (rw_writer rw) key = Some w" "i = w \<or> i < w" "rt_writer (ts ! w)" "rt_key (ts ! w) = key"
  using assms unfolding rw_inv_def rw_maps_ok_def by blast

lemma rw_read_inv:
  assumes inv: "rw_inv rw ts" and r: "rw_begin_read key (length ts) rw = (rw', ws)"
  shows "rw_inv rw' (ts @ [\<lparr>rt_key = key, rt_writer = False, rt_waits = ws, rt_status = Waiting\<rparr>])" (is "rw_inv rw' (ts @ [?x])")
proof -
  have rw': "rw' = rw\<lparr>rw_readers := dict_set key (List.insert (length ts) (dict_get key [] (rw_readers rw))) (rw_readers rw)\<rparr>"
    and ws: "ws = (case map_of (rw_writer rw) key of None \<Rightarrow> [] | Some w \<Rightarrow> [w])"
    using r by (auto simp: rw_begin_read_def Let_def)
  have maps: "rw_maps_ok rw ts" using inv by (simp add: rw_inv_def)
  show ?thesis
  proof (rule rw_begin_inv [OF inv])
    show "set (rt_waits ?x) \<subseteq> {..<length ts}" using maps by (auto simp: ws rw_maps_ok_def split: option.splits)
    show "rt_status (ts ! i) = Finished \<or> i \<in> set (rt_waits ?x) \<or>
      (\<exists>y \<in> set (rt_waits ?x). rt_writer (ts ! y) \<and> rt_key (ts ! y) = rt_key ?x \<and> i < y)"
      if i: "i < length ts" "rt_key (ts ! i) = rt_key ?x" "rt_writer (ts ! i) \<or> rt_writer ?x" for i
    proof (cases "rt_status (ts ! i) = Finished")
      case False
      have "rt_key (ts ! i) = key" using i by simp
      from rw_maps_cases [OF inv i(1) this False] i(3) show ?thesis by cases (auto simp: ws)
    qed simp
    show "rw_maps_ok rw' (ts @ [?x])"
      unfolding rw_maps_ok_def
    proof (intro conjI allI impI)
      fix k w assume "map_of (rw_writer rw') k = Some w"
      then have "w < length ts \<and> rt_key (ts ! w) = k \<and> rt_writer (ts ! w)" using maps by (simp add: rw' rw_maps_ok_def)
      then show "w < length (ts @ [?x])" "rt_key ((ts @ [?x]) ! w) = k" "rt_writer ((ts @ [?x]) ! w)" by (simp_all add: nth_append)
    next
      fix k
      have "set (dict_get k [] (rw_readers rw)) \<subseteq> {..<length ts}" using maps by (simp add: rw_maps_ok_def)
      then show "set (dict_get k [] (rw_readers rw')) \<subseteq> {..<length (ts @ [?x])}"
        by (cases "k = key") (auto simp: rw' dict_get_set)
    next
      fix i assume i: "i < length (ts @ [?x])"
      let ?G = "\<lambda>rw ts. rt_status (ts ! i) = Finished \<or> \<not> rt_writer (ts ! i) \<and> i \<in> set (dict_get (rt_key (ts ! i)) [] (rw_readers rw)) \<or>
        (\<exists>w. map_of (rw_writer rw) (rt_key (ts ! i)) = Some w \<and> (i < w \<or> i = w))"
      show "?G rw' (ts @ [?x])"
      proof (cases "i = length ts")
        case True
        then show ?thesis by (simp add: rw' dict_get_set)
      next
        case False
        then have "i < length ts" using i by simp
        moreover from this have "?G rw ts" using maps unfolding rw_maps_ok_def by blast
        ultimately show ?thesis by (auto simp: rw' dict_get_set nth_append)
      qed
    qed
  qed simp
qed


lemma rw_write_inv:
  assumes inv: "rw_inv rw ts" and r: "rw_begin_write key (length ts) rw = (rw', ws)"
  shows "rw_inv rw' (ts @ [\<lparr>rt_key = key, rt_writer = True, rt_waits = ws, rt_status = Waiting\<rparr>])" (is "rw_inv rw' (ts @ [?x])")
proof -
  have rw': "map_of (rw_writer rw') = (map_of (rw_writer rw))(key \<mapsto> length ts)"
    "dict_get k [] (rw_readers rw') = (if k = key then [] else dict_get k [] (rw_readers rw))" for k
    using r by (auto simp: rw_begin_write_def Let_def dict_get_def)
  have ws: "ws = dict_get key [] (rw_readers rw) @ (case map_of (rw_writer rw) key of None \<Rightarrow> [] | Some w \<Rightarrow> [w])"
    using r by (auto simp: rw_begin_write_def Let_def)
  have maps: "rw_maps_ok rw ts" using inv by (simp add: rw_inv_def)
  have rd: "set (dict_get k [] (rw_readers rw)) \<subseteq> {..<length ts}" for k using maps by (simp add: rw_maps_ok_def)
  show ?thesis
  proof (rule rw_begin_inv [OF inv])
    show "set (rt_waits ?x) \<subseteq> {..<length ts}" using maps rd by (auto simp: ws rw_maps_ok_def split: option.splits)
    show "rt_status (ts ! i) = Finished \<or> i \<in> set (rt_waits ?x) \<or>
      (\<exists>y \<in> set (rt_waits ?x). rt_writer (ts ! y) \<and> rt_key (ts ! y) = rt_key ?x \<and> i < y)"
      if i: "i < length ts" "rt_key (ts ! i) = rt_key ?x" for i
    proof (cases "rt_status (ts ! i) = Finished")
      case False
      have "rt_key (ts ! i) = key" using i by simp
      from rw_maps_cases [OF inv i(1) this False] show ?thesis by cases (auto simp: ws)
    qed simp
    show "rw_maps_ok rw' (ts @ [?x])"
      unfolding rw_maps_ok_def
    proof (intro conjI allI impI)
      fix k w assume w: "map_of (rw_writer rw') k = Some w"
      have "w < length (ts @ [?x]) \<and> rt_key ((ts @ [?x]) ! w) = k \<and> rt_writer ((ts @ [?x]) ! w)"
      proof (cases "k = key")
        case False
        then have "w < length ts \<and> rt_key (ts ! w) = k \<and> rt_writer (ts ! w)" using maps w by (simp add: rw' rw_maps_ok_def)
        then show ?thesis by (simp add: nth_append)
      qed (use w in \<open>auto simp: rw'\<close>)
      then show "w < length (ts @ [?x])" "rt_key ((ts @ [?x]) ! w) = k" "rt_writer ((ts @ [?x]) ! w)" by simp_all
    next
      fix k show "set (dict_get k [] (rw_readers rw')) \<subseteq> {..<length (ts @ [?x])}" using rd [of k] by (auto simp: rw')
    next
      fix i assume i: "i < length (ts @ [?x])"
      let ?G = "\<lambda>rw ts. rt_status (ts ! i) = Finished \<or> \<not> rt_writer (ts ! i) \<and> i \<in> set (dict_get (rt_key (ts ! i)) [] (rw_readers rw)) \<or>
        (\<exists>w. map_of (rw_writer rw) (rt_key (ts ! i)) = Some w \<and> (i < w \<or> i = w))"
      show "?G rw' (ts @ [?x])"
      proof (cases "i = length ts \<or> rt_key (ts ! i) = key")
        case True
        then show ?thesis using i by (auto simp: rw' nth_append less_Suc_eq)
      next
        case False
        then have "i < length ts" using i by simp
        moreover from this have "?G rw ts" using maps unfolding rw_maps_ok_def by blast
        ultimately show ?thesis using False by (simp add: rw' nth_append)
      qed
    qed
  qed simp
qed

text \<open>A coroutine that is admitted, or done, or cancelled as a reader.\<close>

lemma rw_status_inv:
  assumes inv: "rw_inv rw ts" and t: "t < length ts" and st: "st \<noteq> Waiting" "rt_status (ts ! t) \<noteq> Finished"
    and adm: "st = Holding \<or> rt_writer (ts ! t) \<Longrightarrow> \<forall>i. rw_blocks ts i t \<longrightarrow> rt_status (ts ! i) = Finished"
  shows "rw_inv rw (rw_set_status t st ts)"
proof -
  let ?ts = "rw_set_status t st ts"
  have k: "rt_key (?ts ! i) = rt_key (ts ! i)" "rt_writer (?ts ! i) = rt_writer (ts ! i)" "rt_waits (?ts ! i) = rt_waits (ts ! i)"
    "rt_status (?ts ! i) = (if i = t then st else rt_status (ts ! i))" for i
    using t by (auto simp: nth_list_update)
  have b: "rw_blocks ?ts = rw_blocks ts" by (simp add: rw_blocks_def fun_eq_iff k)
  have ad: "rw_admitted ts" and wo: "rw_waits_ok ts" and mo: "rw_maps_ok rw ts" using inv by (simp_all add: rw_inv_def)
  have fin: "rt_status (?ts ! i) = Finished" if "rt_status (ts ! i) = Finished" for i using that st(2) k(4) by (cases "i = t") auto
  have "rw_admitted ?ts"
    unfolding rw_admitted_def b k(2)
  proof (intro allI impI fin)
    fix j i assume j: "j < length ?ts" and a: "rw_blocks ts i j \<and> (rt_status (?ts ! j) = Holding \<or> rt_writer (ts ! j) \<and> rt_status (?ts ! j) = Finished)"
    show "rt_status (ts ! i) = Finished"
    proof (cases "j = t")
      case True
      then show ?thesis using a adm k(4) [of t] by auto
    next
      case False
      then have "rt_status (?ts ! j) = rt_status (ts ! j)" using k(4) by simp
      with a have "rw_blocks ts i j \<and> (rt_status (ts ! j) = Holding \<or> rt_writer (ts ! j) \<and> rt_status (ts ! j) = Finished)" by argo
      then show ?thesis using ad j unfolding rw_admitted_def length_list_update by blast
    qed
  qed
  moreover have "rw_waits_ok ?ts"
    unfolding rw_waits_ok_def b k(2,3)
  proof (intro allI impI)
    fix j assume j: "j < length ?ts"
    have w: "set (rt_waits (ts ! j)) \<subseteq> {..<j}" using wo j by (simp add: rw_waits_ok_def)
    have "rt_status (?ts ! i) = Finished \<or> i \<in> set (rt_waits (ts ! j)) \<or> (\<exists>y \<in> set (rt_waits (ts ! j)). rt_writer (ts ! y) \<and> rw_blocks ts i y)"
      if i: "rw_blocks ts i j" "rt_status (?ts ! j) = Waiting" for i
    proof -
      have "rt_status (ts ! j) = Waiting" using i(2) st(1) k(4) [of j] by (auto split: if_splits)
      then have "rt_status (ts ! i) = Finished \<or> i \<in> set (rt_waits (ts ! j)) \<or> (\<exists>y \<in> set (rt_waits (ts ! j)). rt_writer (ts ! y) \<and> rw_blocks ts i y)"
        using wo j i(1) unfolding rw_waits_ok_def length_list_update by blast
      then show ?thesis using fin by blast
    qed
    then show "set (rt_waits (ts ! j)) \<subseteq> {..<j} \<and> (\<forall>i. rw_blocks ts i j \<and> rt_status (?ts ! j) = Waiting \<longrightarrow>
      rt_status (?ts ! i) = Finished \<or> i \<in> set (rt_waits (ts ! j)) \<or> (\<exists>y \<in> set (rt_waits (ts ! j)). rt_writer (ts ! y) \<and> rw_blocks ts i y))"
      using w by blast
  qed
  moreover have "rw_maps_ok rw ?ts"
    using mo fin unfolding rw_maps_ok_def k(1,2) length_list_update by blast
  ultimately show ?thesis by (simp add: rw_inv_def)
qed


lemma rw_enter_inv:
  assumes inv: "rw_inv rw ts" and t: "t < length ts" "rt_status (ts ! t) = Waiting"
    and w: "\<forall>d \<in> set (rt_waits (ts ! t)). rt_status (ts ! d) = Finished"
  shows "rw_inv rw (rw_set_status t Holding ts)"
proof (rule rw_status_inv [OF inv t(1)])
  have wo: "rw_waits_ok ts" and ad: "rw_admitted ts" using inv by (simp_all add: rw_inv_def)
  show "\<forall>i. rw_blocks ts i t \<longrightarrow> rt_status (ts ! i) = Finished"
  proof (intro allI impI)
    fix i assume i: "rw_blocks ts i t"
    then consider "rt_status (ts ! i) = Finished" | "i \<in> set (rt_waits (ts ! t))"
      | y where "y \<in> set (rt_waits (ts ! t))" "rt_writer (ts ! y)" "rw_blocks ts i y"
      using wo t unfolding rw_waits_ok_def by blast
    then show "rt_status (ts ! i) = Finished"
    proof cases
      case (3 y)
      have "y < length ts" using 3(1) wo t(1) unfolding rw_waits_ok_def by fastforce
      then show ?thesis using 3 w ad unfolding rw_admitted_def by blast
    qed (use w in blast)+
  qed
qed (use t in simp_all)

lemma rw_clean_inv:
  assumes inv: "rw_inv rw ts" and t: "t < length ts" "rt_status (ts ! t) = Finished"
  shows "rw_inv (if rt_writer (ts ! t) then rw_end_write (rt_key (ts ! t)) t rw else rw_end_read (rt_key (ts ! t)) t rw) ts"
proof -
  let ?rw = "if rt_writer (ts ! t) then rw_end_write (rt_key (ts ! t)) t rw else rw_end_read (rt_key (ts ! t)) t rw"
  have mo: "rw_maps_ok rw ts" and ad: "rw_admitted ts" using inv by (simp_all add: rw_inv_def)
  have rd: "set (dict_get k [] (rw_readers ?rw)) = set (dict_get k [] (rw_readers rw)) - {t} \<or>
      set (dict_get k [] (rw_readers ?rw)) = set (dict_get k [] (rw_readers rw))" for k
    by (auto simp: rw_end_write_def rw_end_read_def dict_get_def split: option.splits)
  have wr: "map_of (rw_writer ?rw) k = map_of (rw_writer rw) k \<or>
      map_of (rw_writer ?rw) k = None \<and> map_of (rw_writer rw) k = Some t \<and> rt_writer (ts ! t) \<and> rt_key (ts ! t) = k" for k
    by (auto simp: rw_end_write_def rw_end_read_def split: option.splits)
  have "rw_maps_ok ?rw ts"
    unfolding rw_maps_ok_def
  proof (intro conjI allI impI)
    fix k w assume "map_of (rw_writer ?rw) k = Some w"
    then have "map_of (rw_writer rw) k = Some w" using wr [of k] by auto
    then show "w < length ts" "rt_key (ts ! w) = k" "rt_writer (ts ! w)" using mo unfolding rw_maps_ok_def by blast+
  next
    fix k show "set (dict_get k [] (rw_readers ?rw)) \<subseteq> {..<length ts}" using rd [of k] mo unfolding rw_maps_ok_def by blast
  next
    fix i assume i: "i < length ts"
    show "rt_status (ts ! i) = Finished \<or> \<not> rt_writer (ts ! i) \<and> i \<in> set (dict_get (rt_key (ts ! i)) [] (rw_readers ?rw)) \<or>
        (\<exists>w. map_of (rw_writer ?rw) (rt_key (ts ! i)) = Some w \<and> (i < w \<or> i = w))"
    proof (cases "rt_status (ts ! i) = Finished")
      case False
      then have "i \<noteq> t" using t by auto
      from rw_maps_cases [OF inv i refl False] show ?thesis
      proof cases
        case 1
        then show ?thesis using rd [of "rt_key (ts ! i)"] \<open>i \<noteq> t\<close> by blast
      next
        case (2 w)
        have "rt_status (ts ! i) = Finished" if "w = t"
        proof -
          have "rw_blocks ts i t" using 2 that \<open>i \<noteq> t\<close> by (simp add: rw_blocks_def)
          moreover have "rt_writer (ts ! t)" using 2 that by simp
          ultimately show ?thesis using ad t unfolding rw_admitted_def by blast
        qed
        then show ?thesis using wr [of "rt_key (ts ! i)"] 2 False by auto
      qed
    qed simp
  qed
  then show ?thesis using inv by (simp add: rw_inv_def)
qed

lemma rw_run_inv: "rw_run rw ts \<Longrightarrow> rw_inv rw ts"
proof (induction rule: rw_run.induct)
  case rw_new
  show ?case by (simp add: rw_inv_def rw_admitted_def rw_waits_ok_def rw_maps_ok_def new_rw_lock_def dict_get_def)
next
  case (rw_leave rw ts t)
  have "\<forall>i. rw_blocks ts i t \<longrightarrow> rt_status (ts ! i) = Finished"
    using rw_leave.IH rw_leave.hyps(2,3) unfolding rw_inv_def rw_admitted_def by blast
  then show ?case using rw_status_inv [OF rw_leave.IH rw_leave.hyps(2)] rw_leave.hyps(3) by simp
next
  case (rw_cancel rw ts t)
  then show ?case by (intro rw_status_inv) auto
next
  case (rw_clean rw ts t)
  then show ?case by (intro rw_clean_inv)
qed (auto intro: rw_read_inv rw_write_inv rw_enter_inv)

text \<open>C33: \<^verbatim>\<open>ReadWriteLock\<close>. However readers and writers come, finish and are cancelled, whoever holds the lock of
  a key was blocked by nobody who is not done: so a writer holds it alone, and nobody overtakes a writer
  that came before, or as a writer anybody. While somebody is not done, the first of them to come holds
  the lock or waits only for coroutines that are done.\<close>

theorem rw_lock_exclusion:
  assumes run: "rw_run rw ts"
  shows "(\<forall>i j. i < length ts \<and> j < length ts \<and> i \<noteq> j \<and> rt_key (ts ! i) = rt_key (ts ! j) \<and>
      rt_status (ts ! i) = Holding \<and> rt_status (ts ! j) = Holding \<longrightarrow> \<not> rt_writer (ts ! i) \<and> \<not> rt_writer (ts ! j)) \<and>
    (\<forall>i j. j < length ts \<and> rt_status (ts ! j) = Holding \<and> rw_blocks ts i j \<longrightarrow> rt_status (ts ! i) = Finished) \<and>
    (\<forall>i < length ts. rt_status (ts ! i) = Waiting \<and> (\<forall>i' < i. rt_status (ts ! i') = Finished) \<longrightarrow>
      (\<forall>d \<in> set (rt_waits (ts ! i)). rt_status (ts ! d) = Finished))"
proof -
  have ad: "rw_admitted ts" and wo: "rw_waits_ok ts" using rw_run_inv [OF run] by (simp_all add: rw_inv_def)
  have alone: "rt_status (ts ! i) = Finished" if "j < length ts" "rt_status (ts ! j) = Holding" "rw_blocks ts i j" for i j
    using ad that unfolding rw_admitted_def by blast
  have "\<not> rt_writer (ts ! i) \<and> \<not> rt_writer (ts ! j)" if h: "i < length ts" "j < length ts" "i \<noteq> j" "rt_key (ts ! i) = rt_key (ts ! j)"
    "rt_status (ts ! i) = Holding" "rt_status (ts ! j) = Holding" for i j
  proof (rule ccontr)
    assume "\<not> (\<not> rt_writer (ts ! i) \<and> \<not> rt_writer (ts ! j))"
    then have "rw_blocks ts i j \<or> rw_blocks ts j i" using h(3,4) unfolding rw_blocks_def by auto
    then show False using alone [OF h(2,6), of i] alone [OF h(1,5), of j] h(5,6) by (elim disjE) simp_all
  qed
  moreover have "rt_status (ts ! d) = Finished" if "i < length ts" "\<forall>i' < i. rt_status (ts ! i') = Finished" "d \<in> set (rt_waits (ts ! i))" for i d
    using that wo unfolding rw_waits_ok_def by blast
  ultimately show ?thesis using alone by blast
qed

lemma rw_lock_exclusion_witness:
  "\<exists>rw ts. rw_run rw ts \<and> ts = [\<lparr>rt_key = ''k'', rt_writer = True, rt_waits = [], rt_status = Holding\<rparr>,
      \<lparr>rt_key = ''k'', rt_writer = False, rt_waits = [0], rt_status = Waiting\<rparr>] \<and>
    (\<forall>i j. j < length ts \<and> rt_status (ts ! j) = Holding \<and> rw_blocks ts i j \<longrightarrow> rt_status (ts ! i) = Finished)"
proof -
  let ?w = "\<lambda>st. \<lparr>rt_key = ''k'', rt_writer = True, rt_waits = [], rt_status = st\<rparr>"
  let ?r = "\<lparr>rt_key = ''k'', rt_writer = False, rt_waits = [0], rt_status = Waiting\<rparr>"
  let ?rw1 = "\<lparr>rw_readers = [], rw_writer = [(''k'', 0)]\<rparr>" and ?rw2 = "\<lparr>rw_readers = [(''k'', [1])], rw_writer = [(''k'', 0)]\<rparr>"
  have "rw_begin_write ''k'' (length ([] :: string rw_task list)) new_rw_lock = (?rw1, [])"
    by (simp add: rw_begin_write_def new_rw_lock_def dict_get_def)
  from rw_write [OF rw_new this] have "rw_run ?rw1 [?w Waiting]" by simp
  from rw_enter [OF this, of 0] have run: "rw_run ?rw1 [?w Holding]" by simp
  have "rw_begin_read ''k'' (length [?w Holding]) ?rw1 = (?rw2, [0])" by (simp add: rw_begin_read_def dict_get_def)
  from rw_read [OF run this] have "rw_run ?rw2 [?w Holding, ?r]" by simp
  then show ?thesis using rw_lock_exclusion [of ?rw2 "[?w Holding, ?r]"] by blast
qed

end
