(* ===== verification/Retry.thy ===== *)
theory Retry
  imports Py_Values Overlay_Map
begin

text \<open>
  The back-off from servers that do not answer: \<^verbatim>\<open>synapse/util/retryutils.py\<close> with the statements on the
  table \<^verbatim>\<open>destinations\<close> in \<^verbatim>\<open>synapse/storage/databases/main/transactions.py\<close>. The table maps a destination
  to three columns that may be null. A float is the rational it stands for and the product of the
  interval is exact; the random factor is an argument. What \<^verbatim>\<open>__exit__\<close> stores is written in the
  background, in any order with what others store. A request that the destination sends us, or an
  administrator, resets its row (\<^verbatim>\<open>reset_retry_timings\<close> in \<^verbatim>\<open>synapse/federation/transport/server/_base.py\<close>).
\<close>

record retry_config =
  rc_min_interval :: int
  rc_multiplier :: rat
  rc_max_interval :: int

record destination_row =
  dr_failure_ts :: "int option"
  dr_retry_last_ts :: "int option"
  dr_retry_interval :: "int option"

record retry_limiter =
  rd_destination :: string
  rd_failure_ts :: "int option"
  rd_retry_interval :: int
  rd_backoff_on_404 :: bool
  rd_backoff_on_failure :: bool
  rd_backoff_on_all_error_codes :: bool

type_synonym destinations = "string \<rightharpoonup> destination_row"

section \<open>The table\<close>

definition get_destination_retry_timings :: "string \<Rightarrow> destinations \<Rightarrow> (int option \<times> int \<times> int option) option" where
  "get_destination_retry_timings destination D =
     (case D destination of
        None \<Rightarrow> None
      | Some r \<Rightarrow>
          (case dr_retry_last_ts r of
             None \<Rightarrow> None
           | Some ts \<Rightarrow> if ts = 0 then None else Some (dr_failure_ts r, ts, dr_retry_interval r)))"

text \<open>The batch, with the missing destinations that \<^verbatim>\<open>cachedList\<close> adds as \<^verbatim>\<open>None\<close>.\<close>

definition get_destination_retry_timings_batch ::
  "string list \<Rightarrow> destinations \<Rightarrow> (string \<times> (int \<times> int \<times> int) option) list" where
  "get_destination_retry_timings_batch ds D = map (\<lambda>d. (d,
     case D d of
       None \<Rightarrow> None
     | Some r \<Rightarrow>
         (case (dr_retry_last_ts r, dr_failure_ts r, dr_retry_interval r) of
            (Some l, Some f, Some i) \<Rightarrow> if l \<noteq> 0 \<and> f \<noteq> 0 \<and> i \<noteq> 0 then Some (f, l, i) else None
          | _ \<Rightarrow> None))) (remdups ds)"

text \<open>The upsert. A comparison with a null is not true.\<close>

record retry_write =
  sv_destination :: string
  sv_failure_ts :: "int option"
  sv_retry_last_ts :: int
  sv_retry_interval :: int

definition null_less :: "int option \<Rightarrow> int \<Rightarrow> bool" where
  "null_less x y = (case x of None \<Rightarrow> False | Some x \<Rightarrow> x < y)"

definition set_destination_retry_timings :: "retry_write \<Rightarrow> destinations \<Rightarrow> destinations" where
  "set_destination_retry_timings w D =
     (let new = \<lparr>dr_failure_ts = sv_failure_ts w, dr_retry_last_ts = Some (sv_retry_last_ts w),
            dr_retry_interval = Some (sv_retry_interval w)\<rparr>
      in case D (sv_destination w) of
           None \<Rightarrow> D(sv_destination w \<mapsto> new)
         | Some r \<Rightarrow>
             if sv_retry_interval w = 0 \<or> sv_retry_last_ts w = 0 \<or> dr_retry_interval r = None \<or>
                null_less (dr_retry_interval r) (sv_retry_interval w) \<or> null_less (dr_retry_last_ts r) (sv_retry_last_ts w)
             then D(sv_destination w \<mapsto> new) else D)"

section \<open>The limiter\<close>

definition get_retry_limiter ::
  "string \<Rightarrow> int \<Rightarrow> bool \<Rightarrow> bool \<Rightarrow> bool \<Rightarrow> destinations \<Rightarrow> retry_limiter res" where
  "get_retry_limiter destination now ignore_backoff backoff_on_404 all_codes D =
     (let limiter = (\<lambda>failure_ts retry_interval. \<lparr>rd_destination = destination, rd_failure_ts = failure_ts,
            rd_retry_interval = retry_interval, rd_backoff_on_404 = backoff_on_404,
            rd_backoff_on_failure = (\<not> ignore_backoff), rd_backoff_on_all_error_codes = all_codes\<rparr>)
      in case get_destination_retry_timings destination D of
           None \<Rightarrow> Inr (limiter None 0)
         | Some (failure_ts, retry_last_ts, interval) \<Rightarrow>
             (case interval of
                None \<Rightarrow> Inl TypeError
              | Some retry_interval \<Rightarrow>
                  if \<not> ignore_backoff \<and> retry_last_ts + retry_interval > now
                  then Inl (NotRetryingDestination retry_last_ts retry_interval destination)
                  else Inr (limiter failure_ts retry_interval)))"

definition filter_destinations_by_retry_limiter :: "string list \<Rightarrow> int \<Rightarrow> int \<Rightarrow> destinations \<Rightarrow> string list" where
  "filter_destinations_by_retry_limiter ds now retry_due_within_ms D =
     (if ds = [] then ds
      else map fst (filter (\<lambda>(d, timings). case timings of None \<Rightarrow> True | Some (f, ts, interval) \<Rightarrow>
             ts + interval \<le> now + retry_due_within_ms) (get_destination_retry_timings_batch ds D)))"

text \<open>How the request ended: without exception, with one that is no \<^verbatim>\<open>Exception\<close>, with an error code, or with
  another exception.\<close>

datatype request_end = Succeeded | Not_An_Exception | Error_Code int | Other_Exception

definition valid_err_code :: "retry_limiter \<Rightarrow> request_end \<Rightarrow> bool" where
  "valid_err_code l e =
     (case e of
        Succeeded \<Rightarrow> True
      | Not_An_Exception \<Rightarrow> True
      | Error_Code code \<Rightarrow>
          if rd_backoff_on_all_error_codes l then False
          else if code = 404 \<and> rd_backoff_on_404 l then False
          else if code = 401 \<or> code = 429 then False
          else code < 500
      | Other_Exception \<Rightarrow> False)"

definition next_interval :: "retry_config \<Rightarrow> rat \<Rightarrow> int \<Rightarrow> int" where
  "next_interval cfg jitter interval =
     (if interval \<noteq> 0 then
        let i = trunc (of_int interval * rc_multiplier cfg * jitter)
        in if i \<ge> rc_max_interval cfg then rc_max_interval cfg else i
      else rc_min_interval cfg)"

text \<open>\<^verbatim>\<open>__exit__\<close>: what is stored, and whether others are told that the server is up.\<close>

definition limiter_exit :: "retry_config \<Rightarrow> rat \<Rightarrow> int \<Rightarrow> request_end \<Rightarrow> retry_limiter \<Rightarrow> (retry_write \<times> bool) option" where
  "limiter_exit cfg jitter now e l =
     (let truthy = (\<lambda>x. case x of None \<Rightarrow> False | Some y \<Rightarrow> y \<noteq> (0 :: int)); previously_failing = truthy (rd_failure_ts l)
      in if e = Succeeded then
           (if rd_retry_interval l = 0 then None
            else Some (\<lparr>sv_destination = rd_destination l, sv_failure_ts = None, sv_retry_last_ts = 0, sv_retry_interval = 0\<rparr>,
                       previously_failing))
         else if valid_err_code l e then None
         else if \<not> rd_backoff_on_failure l then None
         else
           let failure_ts = (case rd_failure_ts l of None \<Rightarrow> now | Some f \<Rightarrow> f)
           in Some (\<lparr>sv_destination = rd_destination l, sv_failure_ts = Some failure_ts, sv_retry_last_ts = now,
                     sv_retry_interval = next_interval cfg jitter (rd_retry_interval l)\<rparr>,
                    previously_failing \<and> failure_ts = 0))"

text \<open>A request from the destination: what is stored when its row says that it did not answer.\<close>

definition reset_retry_timings :: "string \<Rightarrow> retry_write" where
  "reset_retry_timings origin = \<lparr>sv_destination = origin, sv_failure_ts = None, sv_retry_last_ts = 0, sv_retry_interval = 0\<rparr>"

definition origin_is_alive :: "string \<Rightarrow> destinations \<Rightarrow> retry_write option" where
  "origin_is_alive origin D =
     (case get_destination_retry_timings origin D of
        None \<Rightarrow> None
      | Some (failure_ts, retry_last_ts, interval) \<Rightarrow>
          if retry_last_ts \<noteq> 0 then Some (reset_retry_timings origin) else None)"

section \<open>Requests in flight\<close>

text \<open>The clock, the table, the limiters of requests that have not ended and the writes that are not done. A
  step is labelled with the destination of the write that it does.\<close>

type_synonym retry_state = "int \<times> destinations \<times> retry_limiter list \<times> retry_write list"

inductive retry_step :: "retry_config \<Rightarrow> retry_state \<Rightarrow> string option \<Rightarrow> retry_state \<Rightarrow> bool" for cfg where
  retry_request: "t \<le> now \<Longrightarrow> get_retry_limiter d now ign b404 ball D = Inr l \<Longrightarrow>
   retry_step cfg (t, D, ls, ws) None (now, D, l # ls, ws)"
| retry_end: "t \<le> now \<Longrightarrow> l \<in> set ls \<Longrightarrow> 4 / 5 \<le> jitter \<Longrightarrow> jitter \<le> 7 / 5 \<Longrightarrow> limiter_exit cfg jitter now e l = w \<Longrightarrow>
   retry_step cfg (t, D, ls, ws) None (now, D, remove1 l ls, (case w of None \<Rightarrow> ws | Some (w, up) \<Rightarrow> w # ws))"
| retry_contact: "t \<le> now \<Longrightarrow> origin_is_alive d D = Some w \<Longrightarrow> retry_step cfg (t, D, ls, ws) None (now, D, ls, w # ws)"
| retry_store: "w \<in> set ws \<Longrightarrow>
   retry_step cfg (t, D, ls, ws) (Some (sv_destination w)) (t, set_destination_retry_timings w D, ls, remove1 w ws)"

inductive retry_run :: "retry_config \<Rightarrow> int \<Rightarrow> destinations \<Rightarrow> retry_limiter list \<Rightarrow> retry_write list \<Rightarrow> bool" for cfg where
  retry_new: "0 < t \<Longrightarrow> (\<forall>d r. D d = Some r \<longrightarrow> r = \<lparr>dr_failure_ts = None, dr_retry_last_ts = None, dr_retry_interval = None\<rparr>) \<Longrightarrow>
   retry_run cfg t D [] []"
| retry_next: "retry_run cfg t D ls ws \<Longrightarrow> retry_step cfg (t, D, ls, ws) stored (t', D', ls', ws') \<Longrightarrow> retry_run cfg t' D' ls' ws'"


section \<open>Invariant\<close>

text \<open>Intervals do not shrink below the minimal one when they grow by a quarter or more each time, since the
  random factor is at least four fifths. The default configuration is of this kind (ten minutes, 2, seven
  days); the code does not check the configured values. Nothing below rests on this but where it is said.\<close>

definition growing_intervals :: "retry_config \<Rightarrow> bool" where
  "growing_intervals cfg \<longleftrightarrow> 0 < rc_min_interval cfg \<and> rc_min_interval cfg \<le> rc_max_interval cfg \<and> 5 / 4 \<le> rc_multiplier cfg"

abbreviation longest_interval :: "retry_config \<Rightarrow> int" where
  "longest_interval cfg \<equiv> max (rc_min_interval cfg) (rc_max_interval cfg)"

abbreviation interval_ok :: "retry_config \<Rightarrow> int \<Rightarrow> bool" where
  "interval_ok cfg i \<equiv> i \<le> longest_interval cfg \<and> (growing_intervals cfg \<longrightarrow> rc_min_interval cfg \<le> i)"

text \<open>A failure is stored with its time, an interval within the bounds and the time of the first failure; a
  success with zeros.\<close>

definition stored_ok :: "retry_config \<Rightarrow> int \<Rightarrow> int option \<Rightarrow> int \<Rightarrow> int \<Rightarrow> bool" where
  "stored_ok cfg t failure_ts ts i \<longleftrightarrow>
     ts = 0 \<and> i = 0 \<or> 0 < ts \<and> ts \<le> t \<and> interval_ok cfg i \<and> (\<exists>f > 0. failure_ts = Some f)"

definition row_ok :: "retry_config \<Rightarrow> int \<Rightarrow> destination_row \<Rightarrow> bool" where
  "row_ok cfg t r \<longleftrightarrow> dr_retry_last_ts r = None \<and> dr_retry_interval r = None \<or>
     (\<exists>ts i. dr_retry_last_ts r = Some ts \<and> dr_retry_interval r = Some i \<and> stored_ok cfg t (dr_failure_ts r) ts i)"

definition limiter_ok :: "retry_config \<Rightarrow> retry_limiter \<Rightarrow> bool" where
  "limiter_ok cfg l \<longleftrightarrow> (rd_retry_interval l = 0 \<or> interval_ok cfg (rd_retry_interval l)) \<and>
     (rd_failure_ts l = None \<or> (\<exists>f > 0. rd_failure_ts l = Some f))"

definition retry_inv :: "retry_config \<Rightarrow> int \<Rightarrow> destinations \<Rightarrow> retry_limiter list \<Rightarrow> retry_write list \<Rightarrow> bool" where
  "retry_inv cfg t D ls ws \<longleftrightarrow> 0 < t \<and> (\<forall>d r. D d = Some r \<longrightarrow> row_ok cfg t r) \<and> (\<forall>l \<in> set ls. limiter_ok cfg l) \<and>
     (\<forall>w \<in> set ws. stored_ok cfg t (sv_failure_ts w) (sv_retry_last_ts w) (sv_retry_interval w))"

lemma stored_ok_mono: "stored_ok cfg t f ts i \<Longrightarrow> t \<le> t' \<Longrightarrow> stored_ok cfg t' f ts i"
  by (auto simp: stored_ok_def)

lemma row_ok_mono: "row_ok cfg t r \<Longrightarrow> t \<le> t' \<Longrightarrow> row_ok cfg t' r"
  unfolding row_ok_def using stored_ok_mono by blast

lemma retry_inv_mono: "retry_inv cfg t D ls ws \<Longrightarrow> t \<le> t' \<Longrightarrow> retry_inv cfg t' D ls ws"
  unfolding retry_inv_def using row_ok_mono stored_ok_mono by (metis less_le_trans)

lemma timings_cases:
  assumes "\<forall>d r. D d = Some r \<longrightarrow> row_ok cfg t r"
  obtains "get_destination_retry_timings d D = None"
  | f ts i where "get_destination_retry_timings d D = Some (Some f, ts, Some i)" "0 < f" "0 < ts" "ts \<le> t" "interval_ok cfg i"
proof (cases "D d")
  case None
  then show ?thesis using that by (simp add: get_destination_retry_timings_def)
next
  case (Some r)
  then have "row_ok cfg t r" using assms by blast
  then consider "dr_retry_last_ts r = None" | "dr_retry_last_ts r = Some 0" | f ts i where "dr_retry_last_ts r = Some ts"
    "dr_retry_interval r = Some i" "dr_failure_ts r = Some f" "0 < ts" "ts \<le> t" "interval_ok cfg i" "0 < f"
    unfolding row_ok_def stored_ok_def by auto
  then show ?thesis using that Some by cases (auto simp: get_destination_retry_timings_def)
qed

lemma next_interval_bound: "next_interval cfg jitter i \<le> longest_interval cfg"
  by (auto simp: next_interval_def Let_def)

lemma next_interval_ok:
  assumes i: "i = 0 \<or> interval_ok cfg i" and j: "4 / 5 \<le> jitter"
  shows "interval_ok cfg (next_interval cfg jitter i)"
proof (intro conjI impI next_interval_bound)
  assume cfg: "growing_intervals cfg"
  show "rc_min_interval cfg \<le> next_interval cfg jitter i"
  proof (cases "i = 0")
    case False
    have pos: "0 < i" using i False cfg by (auto simp: growing_intervals_def)
    have "(1 :: rat) \<le> rc_multiplier cfg * jitter"
      using mult_mono [of "5 / 4" "rc_multiplier cfg" "4 / 5" jitter] cfg j by (simp add: growing_intervals_def)
    then have "of_int i * 1 \<le> of_int i * (rc_multiplier cfg * jitter)" using pos by (intro mult_left_mono) simp_all
    then have "i \<le> trunc (of_int i * rc_multiplier cfg * jitter)" using pos by (simp add: trunc_def mult.assoc le_floor_iff)
    then show ?thesis using i False cfg by (auto simp: next_interval_def Let_def growing_intervals_def)
  qed (use cfg in \<open>simp add: next_interval_def\<close>)
qed

text \<open>With the multiplier 1 the interval can shrink below the minimal one.\<close>

lemma multiplier_one_shrinks:
  "next_interval \<lparr>rc_min_interval = 600000, rc_multiplier = 1, rc_max_interval = 604800000\<rparr> (4 / 5) 600000 = 480000"
  by (simp add: next_interval_def trunc_def)

lemma exit_ok:
  assumes l: "limiter_ok cfg l" and j: "4 / 5 \<le> jitter" and now: "0 < now"
    and w: "limiter_exit cfg jitter now e l = Some (w, up)"
  shows "stored_ok cfg now (sv_failure_ts w) (sv_retry_last_ts w) (sv_retry_interval w)"
  using w l now next_interval_ok [OF _ j, of "rd_retry_interval l"]
  by (auto simp: limiter_exit_def Let_def stored_ok_def limiter_ok_def split: if_splits option.splits)

lemma store_row:
  "set_destination_retry_timings w D d = D d \<or> d = sv_destination w \<and> set_destination_retry_timings w D d =
     Some \<lparr>dr_failure_ts = sv_failure_ts w, dr_retry_last_ts = Some (sv_retry_last_ts w), dr_retry_interval = Some (sv_retry_interval w)\<rparr>"
  by (auto simp: set_destination_retry_timings_def Let_def split: option.split)

lemma request_ok:
  assumes "\<forall>d r. D d = Some r \<longrightarrow> row_ok cfg t r" "get_retry_limiter d now ign b404 ball D = Inr l"
  shows "limiter_ok cfg l"
  using timings_cases [OF assms(1), of d]
proof cases
  case 1
  then show ?thesis using assms(2) by (auto simp: get_retry_limiter_def limiter_ok_def)
next
  case (2 f ts i)
  then show ?thesis using assms(2) by (auto simp: get_retry_limiter_def limiter_ok_def split: if_splits)
qed

lemma store_inv:
  assumes inv: "retry_inv cfg t D ls ws" and w: "w \<in> set ws"
  shows "retry_inv cfg t (set_destination_retry_timings w D) ls (remove1 w ws)"
proof -
  have ok: "stored_ok cfg t (sv_failure_ts w) (sv_retry_last_ts w) (sv_retry_interval w)" using inv w by (simp add: retry_inv_def)
  have "row_ok cfg t r" if r: "set_destination_retry_timings w D d = Some r" for d r
    using store_row [of w D d]
  proof
    assume "set_destination_retry_timings w D d = D d"
    then have "D d = Some r" using r by simp
    then show ?thesis using inv unfolding retry_inv_def by blast
  next
    assume "d = sv_destination w \<and> set_destination_retry_timings w D d =
      Some \<lparr>dr_failure_ts = sv_failure_ts w, dr_retry_last_ts = Some (sv_retry_last_ts w), dr_retry_interval = Some (sv_retry_interval w)\<rparr>"
    then show ?thesis using r ok by (auto simp: row_ok_def)
  qed
  moreover have "set (remove1 w ws) \<subseteq> set ws" by (rule set_remove1_subset)
  ultimately show ?thesis using inv unfolding retry_inv_def by blast
qed

lemma retry_step_inv:
  assumes step: "retry_step cfg (t, D, ls, ws) stored (t', D', ls', ws')" and inv: "retry_inv cfg t D ls ws"
  shows "retry_inv cfg t' D' ls' ws'"
  using step
proof cases
  case (retry_request d ign b404 ball l)
  then have "retry_inv cfg t' D ls ws" using retry_inv_mono [OF inv] by blast
  then show ?thesis using retry_request request_ok [of D cfg t' d] by (simp add: retry_inv_def)
next
  case (retry_end l jitter e w)
  then have inv': "retry_inv cfg t' D ls ws" using retry_inv_mono [OF inv] by blast
  then have "retry_inv cfg t' D (remove1 l ls) ws"
    by (auto simp: retry_inv_def dest: notin_set_remove1 set_remove1_subset [THEN subsetD])
  moreover have "stored_ok cfg t' (sv_failure_ts x) (sv_retry_last_ts x) (sv_retry_interval x)" if "w = Some (x, up)" for x up
    using exit_ok [of cfg l jitter t' e x up] inv' retry_end that unfolding retry_inv_def by blast
  ultimately show ?thesis unfolding retry_end(2-4) by (auto simp: retry_inv_def split: option.split)
next
  case (retry_contact d w)
  then have "w = reset_retry_timings d" by (auto simp: origin_is_alive_def split: option.splits if_splits)
  then show ?thesis using retry_contact retry_inv_mono [OF inv, of t'] by (simp add: retry_inv_def stored_ok_def reset_retry_timings_def)
next
  case (retry_store w)
  then show ?thesis using store_inv [OF inv] by simp
qed

lemma retry_run_inv: "retry_run cfg t D ls ws \<Longrightarrow> retry_inv cfg t D ls ws"
proof (induction rule: retry_run.induct)
  case (retry_new t D)
  have "row_ok cfg t \<lparr>dr_failure_ts = None, dr_retry_last_ts = None, dr_retry_interval = None\<rparr>" by (simp add: row_ok_def)
  then show ?case using retry_new by (simp add: retry_inv_def) blast
next
  case (retry_next t D ls ws stored t' D' ls' ws')
  then show ?case using retry_step_inv by blast
qed



section \<open>Properties\<close>

text \<open>C34: Back-off from a destination. Whatever requests are in flight and in whatever order their results are stored,
  with requests from the destination itself among them and whatever intervals and multiplier are configured,
  a destination is asked again at the latest when the longest interval, which is the maximal one unless the
  minimal one is longer, has passed: a limiter is then granted. Before that one is granted or refused with
  \<^verbatim>\<open>NotRetryingDestination\<close>, nothing else is raised, and the filter on lists of destinations makes the same
  choice.\<close>

theorem retry_backoff_bounded:
  assumes run: "retry_run cfg t D ls ws" and now: "t \<le> now"
  shows "((\<exists>l. get_retry_limiter d now ign b404 ball D = Inr l) \<or>
      (\<exists>ts i. get_retry_limiter d now ign b404 ball D = Inl (NotRetryingDestination ts i d) \<and> now < ts + i \<and>
        ts + i \<le> t + max (rc_min_interval cfg) (rc_max_interval cfg))) \<and>
    (t + max (rc_min_interval cfg) (rc_max_interval cfg) \<le> now \<longrightarrow> (\<exists>l. get_retry_limiter d now ign b404 ball D = Inr l)) \<and>
    (d \<in> set (filter_destinations_by_retry_limiter ds now 0 D) \<longleftrightarrow> d \<in> set ds \<and> (\<exists>l. get_retry_limiter d now False b404 ball D = Inr l))"
proof -
  have rows: "\<forall>d r. D d = Some r \<longrightarrow> row_ok cfg t r" using retry_run_inv [OF run] by (simp add: retry_inv_def)
  have batch: "d \<in> set (filter_destinations_by_retry_limiter ds now 0 D) \<longleftrightarrow> d \<in> set ds \<and>
      (case snd (hd (get_destination_retry_timings_batch [d] D)) of None \<Rightarrow> True | Some (f, ts, i) \<Rightarrow> ts + i \<le> now)"
    by (auto simp: filter_destinations_by_retry_limiter_def get_destination_retry_timings_batch_def image_iff)
  from timings_cases [OF rows, of d] show ?thesis
  proof cases
    case 1
    then have "snd (hd (get_destination_retry_timings_batch [d] D)) = None"
      by (auto simp: get_destination_retry_timings_def get_destination_retry_timings_batch_def split: option.splits if_splits)
    then show ?thesis using 1 batch by (simp add: get_retry_limiter_def)
  next
    case (2 f ts i)
    then have "snd (hd (get_destination_retry_timings_batch [d] D)) = (if i = 0 then None else Some (f, ts, i))"
      by (auto simp: get_destination_retry_timings_def get_destination_retry_timings_batch_def split: option.splits if_splits)
    then show ?thesis using 2 batch now by (auto simp: get_retry_limiter_def split: if_splits)
  qed
qed

text \<open>A failure that is about to be stored.\<close>

abbreviation retry_cfg :: retry_config where
  "retry_cfg \<equiv> \<lparr>rc_min_interval = 600000, rc_multiplier = 2, rc_max_interval = 604800000\<rparr>"

abbreviation failed_write :: retry_write where
  "failed_write \<equiv> \<lparr>sv_destination = ''d'', sv_failure_ts = Some 6, sv_retry_last_ts = 6, sv_retry_interval = 600000\<rparr>"

lemma failed_request_run: "retry_run retry_cfg 6 Map.empty [] [failed_write]"
proof -
  let ?l = "\<lparr>rd_destination = ''d'', rd_failure_ts = None, rd_retry_interval = 0, rd_backoff_on_404 = False,
    rd_backoff_on_failure = True, rd_backoff_on_all_error_codes = False\<rparr>"
  have l: "get_retry_limiter ''d'' 5 False False False Map.empty = Inr ?l"
    by (simp add: get_retry_limiter_def get_destination_retry_timings_def)
  have run: "retry_run retry_cfg 5 Map.empty [?l] []"
    by (rule retry_next [OF retry_new [of 5] retry_request [OF _ l]]) simp_all
  have "limiter_exit retry_cfg 1 6 Other_Exception ?l = Some (failed_write, False)"
    by (simp add: limiter_exit_def valid_err_code_def next_interval_def)
  then have "retry_step retry_cfg (5, Map.empty, [?l], []) None (6, Map.empty, remove1 ?l [?l],
      (case Some (failed_write, False) of None \<Rightarrow> [] | Some (w, up) \<Rightarrow> w # []))"
    by (intro retry_end [where jitter = 1 and e = Other_Exception]) simp_all
  then have "retry_step retry_cfg (5, Map.empty, [?l], []) None (6, Map.empty, [], [failed_write])" by simp
  then show ?thesis by (rule retry_next [OF run])
qed

lemma retry_backoff_bounded_witness:
  "\<exists>D. retry_run retry_cfg 6 D [] [] \<and> (\<exists>l. get_retry_limiter ''d'' 604800006 False False False D = Inr l) \<and>
    get_retry_limiter ''d'' 6 False False False D = Inl (NotRetryingDestination 6 600000 ''d'')"
proof -
  let ?D = "set_destination_retry_timings failed_write Map.empty"
  have "retry_run retry_cfg 6 ?D [] (remove1 failed_write [failed_write])"
    by (rule retry_next [OF failed_request_run retry_store]) simp
  then have run: "retry_run retry_cfg 6 ?D [] []" by simp
  have "get_retry_limiter ''d'' 6 False False False ?D = Inl (NotRetryingDestination 6 600000 ''d'')"
    by (simp add: get_retry_limiter_def get_destination_retry_timings_def set_destination_retry_timings_def)
  then show ?thesis
    using retry_backoff_bounded [OF run, of 604800006 "''d''" False False False] run by (intro exI [of _ ?D]) simp
qed



text \<open>What lifts the back-off.\<close>

lemma reset_lifts_backoff:
  "\<exists>l. get_retry_limiter d now ign b404 ball (set_destination_retry_timings (reset_retry_timings d) D) = Inr l \<and>
     rd_retry_interval l = 0"
  by (auto simp: get_retry_limiter_def get_destination_retry_timings_def set_destination_retry_timings_def
      reset_retry_timings_def Let_def split: option.split)

end
