(* ===== verification/Filtering.thy ===== *)
theory Filtering
  imports Ids Events
begin

text \<open>
  The filters of clients, \<^verbatim>\<open>synapse/api/filtering.py\<close>, with \<^verbatim>\<open>relation_from_event\<close> of
  \<^verbatim>\<open>synapse/events/__init__.py\<close>. The JSON of a filter has passed \<^verbatim>\<open>check_valid_filter\<close>, so its values have
  the types of \<^verbatim>\<open>USER_FILTER_SCHEMA\<close>: of a list the strings are taken, of a boolean its value. What is
  filtered is a presence state, an event, or a dictionary of account data or an ephemeral message, whose
  values somebody else chose. The query for relations is an argument.
\<close>

section \<open>Filters\<close>

definition json_strings :: "json list \<Rightarrow> string list" where
  "json_strings xs = List.map_filter (\<lambda>x. case x of JStr s \<Rightarrow> Some s | _ \<Rightarrow> None) xs"

definition get_strings :: "string \<Rightarrow> jobj \<Rightarrow> string list option" where
  "get_strings k j = (case map_of j k of Some (JList xs) \<Rightarrow> Some (json_strings xs) | _ \<Rightarrow> None)"

definition get_list :: "string \<Rightarrow> jobj \<Rightarrow> string list" where
  "get_list k j = (case get_strings k j of None \<Rightarrow> [] | Some xs \<Rightarrow> xs)"

definition get_bool :: "string \<Rightarrow> jobj \<Rightarrow> bool option" where
  "get_bool k j = (case map_of j k of Some (JBool b) \<Rightarrow> Some b | _ \<Rightarrow> None)"

definition get_flag :: "string \<Rightarrow> jobj \<Rightarrow> bool" where
  "get_flag k j = (get_bool k j = Some True)"

definition get_object :: "string \<Rightarrow> jobj \<Rightarrow> jobj" where
  "get_object k j = (case map_of j k of Some (JObj x) \<Rightarrow> x | _ \<Rightarrow> [])"

record filter_config =
  fcg_msc3773_enabled :: bool
  fcg_msc3874_enabled :: bool
  fcg_include_profile_updates :: bool

record client_filter =
  fl_filter_json :: jobj
  fl_limit :: json
  fl_lazy_load_members :: bool
  fl_include_redundant_members :: bool
  fl_unread_thread_notifications :: bool
  fl_types :: "string list option"
  fl_not_types :: "string list"
  fl_rooms :: "string list option"
  fl_not_rooms :: "string list"
  fl_senders :: "string list option"
  fl_not_senders :: "string list"
  fl_contains_url :: "bool option"
  fl_labels :: "string list option"
  fl_not_labels :: "string list"
  fl_related_by_senders :: "string list option"
  fl_related_by_rel_types :: "string list option"
  fl_rel_types :: "string list option"
  fl_not_rel_types :: "string list"

definition new_filter :: "filter_config \<Rightarrow> jobj \<Rightarrow> client_filter" where
  "new_filter cfg j = \<lparr>
     fl_filter_json = j,
     fl_limit = (case map_of j ''limit'' of None \<Rightarrow> JInt 10 | Some v \<Rightarrow> v),
     fl_lazy_load_members = get_flag ''lazy_load_members'' j,
     fl_include_redundant_members = get_flag ''include_redundant_members'' j,
     fl_unread_thread_notifications =
       (get_flag ''unread_thread_notifications'' j \<or>
        fcg_msc3773_enabled cfg \<and> get_flag ''org.matrix.msc3773.unread_thread_notifications'' j),
     fl_types = get_strings ''types'' j, fl_not_types = get_list ''not_types'' j,
     fl_rooms = get_strings ''rooms'' j, fl_not_rooms = get_list ''not_rooms'' j,
     fl_senders = get_strings ''senders'' j, fl_not_senders = get_list ''not_senders'' j,
     fl_contains_url = get_bool ''contains_url'' j,
     fl_labels = get_strings ''org.matrix.labels'' j, fl_not_labels = get_list ''org.matrix.not_labels'' j,
     fl_related_by_senders = get_strings ''related_by_senders'' j,
     fl_related_by_rel_types = get_strings ''related_by_rel_types'' j,
     fl_rel_types = (if fcg_msc3874_enabled cfg then get_strings ''org.matrix.msc3874.rel_types'' j else None),
     fl_not_rel_types = (if fcg_msc3874_enabled cfg then get_list ''org.matrix.msc3874.not_rel_types'' j else [])\<rparr>"

definition filters_all_types :: "client_filter \<Rightarrow> bool" where
  "filters_all_types f \<longleftrightarrow> fl_types f = Some [] \<or> ''*'' \<in> set (fl_not_types f)"

definition filters_all_senders :: "client_filter \<Rightarrow> bool" where
  "filters_all_senders f \<longleftrightarrow> fl_senders f = Some [] \<or> ''*'' \<in> set (fl_not_senders f)"

definition filters_all_rooms :: "client_filter \<Rightarrow> bool" where
  "filters_all_rooms f \<longleftrightarrow> fl_rooms f = Some [] \<or> ''*'' \<in> set (fl_not_rooms f)"

section \<open>Matching\<close>

datatype filter_item =
    Presence_Item string
  | Event_Item event
  | Dict_Item jobj

definition relation_rel_type :: "event \<Rightarrow> string option" where
  "relation_rel_type e =
     (case map_of (ev_content e) ''m.relates_to'' of
        Some (JObj r) \<Rightarrow>
          (case (map_of r ''rel_type'', map_of r ''event_id'') of
             (Some (JStr t), Some (JStr p)) \<Rightarrow> Some t
           | _ \<Rightarrow> None)
      | _ \<Rightarrow> None)"

text \<open>\<^verbatim>\<open>event.get(key)\<close>, with \<^verbatim>\<open>None\<close> for a missing value. A create event that carries no room identifier
  has none here.\<close>

definition item_get :: "string \<Rightarrow> filter_item \<Rightarrow> json" where
  "item_get k x =
     (case x of
        Presence_Item u \<Rightarrow> JNull
      | Event_Item e \<Rightarrow>
          if k = ''content'' then JObj (ev_content e)
          else if k = ''sender'' then JStr (ev_sender e)
          else if k = ''room_id'' then (if ev_room_id_in_event e then JStr (ev_room_id e) else JNull)
          else if k = ''type'' then JStr (ev_type e)
          else JNull
      | Dict_Item j \<Rightarrow> (case map_of j k of None \<Rightarrow> JNull | Some v \<Rightarrow> v))"

definition matches_wildcard :: "json \<Rightarrow> string \<Rightarrow> bool" where
  "matches_wildcard actual_value filter_value =
     (case actual_value of
        JStr s \<Rightarrow>
          if filter_value \<noteq> [] \<and> last filter_value = CHR ''*'' then take (length filter_value - 1) s = butlast filter_value
          else s = filter_value
      | _ \<Rightarrow> False)"

text \<open>\<^verbatim>\<open>any(map(match_func, values))\<close>, and the loop of \<^verbatim>\<open>_check_fields\<close> over the matchers with the values of
  their two attributes.\<close>

fun any_match :: "(string \<Rightarrow> bool res) \<Rightarrow> string list \<Rightarrow> bool res" where
  "any_match m [] = Inr False"
| "any_match m (v # vs) = bindR (m v) (\<lambda>b. if b then Inr True else any_match m vs)"

fun check_fields :: "((string \<Rightarrow> bool res) \<times> string list \<times> string list option) list \<Rightarrow> bool res" where
  "check_fields [] = Inr True"
| "check_fields ((m, disallowed_values, allowed_values) # rest) =
     bindR (any_match m disallowed_values) (\<lambda>bad.
       if bad then Inr False
       else
         (case allowed_values of
            None \<Rightarrow> check_fields rest
          | Some vs \<Rightarrow> bindR (any_match m vs) (\<lambda>good. if good then check_fields rest else Inr False)))"

definition item_content :: "filter_item \<Rightarrow> jobj" where
  "item_content x = (case item_get ''content'' x of JObj c \<Rightarrow> c | _ \<Rightarrow> [])"

definition item_sender :: "filter_item \<Rightarrow> json" where
  "item_sender x =
     (if py_truthy (item_get ''sender'' x) then item_get ''sender'' x
      else case map_of (item_content x) ''user_id'' of None \<Rightarrow> JNull | Some v \<Rightarrow> v)"

definition item_labels :: "filter_item \<Rightarrow> json" where
  "item_labels x = (case map_of (item_content x) ''org.matrix.labels'' of None \<Rightarrow> JList [] | Some v \<Rightarrow> v)"

definition item_rel_type :: "filter_item \<Rightarrow> string option" where
  "item_rel_type x = (case x of Event_Item e \<Rightarrow> relation_rel_type e | _ \<Rightarrow> None)"

definition filter_check :: "client_filter \<Rightarrow> filter_item \<Rightarrow> bool res" where
  "filter_check f x =
     (case x of
        Presence_Item user_id \<Rightarrow>
          check_fields
            [(\<lambda>v. Inr (user_id = v), fl_not_senders f, fl_senders f),
             (\<lambda>v. Inr (''m.presence'' = v), fl_not_types f, fl_types f)]
      | _ \<Rightarrow>
          bindR (check_fields
            [(\<lambda>v. Inr (item_get ''room_id'' x = JStr v), fl_not_rooms f, fl_rooms f),
             (\<lambda>v. Inr (item_sender x = JStr v), fl_not_senders f, fl_senders f),
             (\<lambda>v. Inr (matches_wildcard (item_get ''type'' x) v), fl_not_types f, fl_types f),
             (\<lambda>v. py_in (JStr v) (item_labels x), fl_not_labels f, fl_labels f),
             (\<lambda>v. Inr (item_rel_type x = Some v), fl_not_rel_types f, fl_rel_types f)]) (\<lambda>result.
          if \<not> result then Inr False
          else
            (case fl_contains_url f of
               None \<Rightarrow> Inr True
             | Some b \<Rightarrow> Inr (b = (case map_of (item_content x) ''url'' of Some (JStr u) \<Rightarrow> True | _ \<Rightarrow> False)))))"

definition filter_rooms :: "client_filter \<Rightarrow> string list \<Rightarrow> string set" where
  "filter_rooms f room_ids =
     (let ids = set room_ids - set (fl_not_rooms f)
      in case fl_rooms f of None \<Rightarrow> ids | Some allowed \<Rightarrow> ids \<inter> set allowed)"

type_synonym relations_query = "string list \<Rightarrow> string list option \<Rightarrow> string list option \<Rightarrow> string list"

definition check_event_relations :: "relations_query \<Rightarrow> client_filter \<Rightarrow> filter_item list \<Rightarrow> filter_item list" where
  "check_event_relations events_have_relations f xs =
     (let event_ids = List.map_filter (\<lambda>x. case x of Event_Item e \<Rightarrow> Some (ev_event_id e) | _ \<Rightarrow> None) xs;
          keep = set (events_have_relations event_ids (fl_related_by_senders f) (fl_related_by_rel_types f))
      in filter (\<lambda>x. case x of Event_Item e \<Rightarrow> ev_event_id e \<in> keep | _ \<Rightarrow> True) xs)"

definition filter_items :: "relations_query \<Rightarrow> client_filter \<Rightarrow> filter_item list \<Rightarrow> filter_item list res" where
  "filter_items q f xs =
     bindR (filterR (filter_check f) xs) (\<lambda>result.
       if fl_related_by_senders f \<notin> {None, Some []} \<or> fl_related_by_rel_types f \<notin> {None, Some []}
       then Inr (check_event_relations q f result) else Inr result)"

text \<open>\<^verbatim>\<open>newFilter.rooms += room_ids\<close> extends the list that both filters have from \<^verbatim>\<open>filter_json\<close>: the new
  filter, and the old one.\<close>

definition with_room_ids :: "filter_config \<Rightarrow> string list \<Rightarrow> client_filter \<Rightarrow> (client_filter \<times> client_filter) res" where
  "with_room_ids cfg room_ids f =
     (case fl_rooms (new_filter cfg (fl_filter_json f)) of
        None \<Rightarrow> Inl TypeError
      | Some rooms \<Rightarrow> Inr ((new_filter cfg (fl_filter_json f))\<lparr>fl_rooms := Some (rooms @ room_ids)\<rparr>,
                          f\<lparr>fl_rooms := Some (rooms @ room_ids)\<rparr>))"

section \<open>Collections\<close>

record filter_collection =
  fc_filter_json :: jobj
  fc_room :: client_filter
  fc_timeline :: client_filter
  fc_state :: client_filter
  fc_ephemeral :: client_filter
  fc_account_data :: client_filter
  fc_presence :: client_filter
  fc_global_account_data :: client_filter
  fc_include_leave :: bool
  fc_event_fields :: "string list"
  fc_event_format :: string
  fc_profile_fields :: "string list"

definition new_filter_collection :: "filter_config \<Rightarrow> jobj \<Rightarrow> filter_collection" where
  "new_filter_collection cfg j =
     (let room = get_object ''room'' j
      in \<lparr>fc_filter_json = j,
          fc_room = new_filter cfg (filter (\<lambda>(k, v). k \<in> {''rooms'', ''not_rooms''}) room),
          fc_timeline = new_filter cfg (get_object ''timeline'' room),
          fc_state = new_filter cfg (get_object ''state'' room),
          fc_ephemeral = new_filter cfg (get_object ''ephemeral'' room),
          fc_account_data = new_filter cfg (get_object ''account_data'' room),
          fc_presence = new_filter cfg (get_object ''presence'' j),
          fc_global_account_data = new_filter cfg (get_object ''account_data'' j),
          fc_include_leave = get_flag ''include_leave'' room,
          fc_event_fields = get_list ''event_fields'' j,
          fc_event_format = (case map_of j ''event_format'' of Some (JStr s) \<Rightarrow> s | _ \<Rightarrow> ''client''),
          fc_profile_fields =
            (if fcg_include_profile_updates cfg
             then remdups (get_list ''ids'' (get_object ''org.matrix.msc4429.profile_fields'' j)) else [])\<rparr>)"

definition filter_in_room ::
  "relations_query \<Rightarrow> (filter_collection \<Rightarrow> client_filter) \<Rightarrow> filter_collection \<Rightarrow> filter_item list \<Rightarrow> filter_item list res" where
  "filter_in_room q part c xs = bindR (filter_items q (fc_room c) xs) (filter_items q (part c))"

abbreviation "filter_room_state q \<equiv> filter_in_room q fc_state"
abbreviation "filter_room_timeline q \<equiv> filter_in_room q fc_timeline"
abbreviation "filter_room_ephemeral q \<equiv> filter_in_room q fc_ephemeral"
abbreviation "filter_room_account_data q \<equiv> filter_in_room q fc_account_data"

definition filter_presence :: "relations_query \<Rightarrow> filter_collection \<Rightarrow> filter_item list \<Rightarrow> filter_item list res" where
  "filter_presence q c = filter_items q (fc_presence c)"

definition filter_global_account_data :: "relations_query \<Rightarrow> filter_collection \<Rightarrow> filter_item list \<Rightarrow> filter_item list res" where
  "filter_global_account_data q c = filter_items q (fc_global_account_data c)"

definition blocks_all_rooms :: "filter_collection \<Rightarrow> bool" where
  "blocks_all_rooms c = filters_all_rooms (fc_room c)"

definition blocks_all_presence :: "filter_collection \<Rightarrow> bool" where
  "blocks_all_presence c \<longleftrightarrow> filters_all_types (fc_presence c) \<or> filters_all_senders (fc_presence c)"

definition blocks_all_global_account_data :: "filter_collection \<Rightarrow> bool" where
  "blocks_all_global_account_data c \<longleftrightarrow>
     filters_all_types (fc_global_account_data c) \<or> filters_all_senders (fc_global_account_data c)"

definition blocks_all_room_ephemeral :: "filter_collection \<Rightarrow> bool" where
  "blocks_all_room_ephemeral c \<longleftrightarrow>
     filters_all_types (fc_ephemeral c) \<or> filters_all_senders (fc_ephemeral c) \<or> filters_all_rooms (fc_ephemeral c)"

definition blocks_all_room_account_data :: "filter_collection \<Rightarrow> bool" where
  "blocks_all_room_account_data c \<longleftrightarrow>
     filters_all_types (fc_account_data c) \<or> filters_all_senders (fc_account_data c) \<or> filters_all_rooms (fc_account_data c)"

definition blocks_all_room_timeline :: "filter_collection \<Rightarrow> bool" where
  "blocks_all_room_timeline c \<longleftrightarrow>
     filters_all_types (fc_timeline c) \<or> filters_all_senders (fc_timeline c) \<or> filters_all_rooms (fc_timeline c)"

section \<open>What a filter keeps\<close>

text \<open>One attribute of a filter with its list of disallowed and its list of allowed values.\<close>

definition field_ok :: "(string \<Rightarrow> bool) \<Rightarrow> string list \<Rightarrow> string list option \<Rightarrow> bool" where
  "field_ok m nots alls \<longleftrightarrow>
     (\<forall>v \<in> set nots. \<not> m v) \<and> (case alls of None \<Rightarrow> True | Some vs \<Rightarrow> \<exists>v \<in> set vs. m v)"

definition has_url :: "filter_item \<Rightarrow> bool" where
  "has_url x \<longleftrightarrow> (\<exists>u. map_of (item_content x) ''url'' = Some (JStr u))"

definition has_label :: "filter_item \<Rightarrow> string \<Rightarrow> bool" where
  "has_label x l \<longleftrightarrow> (\<exists>ls. item_labels x = JList ls \<and> JStr l \<in> set ls)"

text \<open>The documented meaning of a filter for an item that is not a presence state.\<close>

definition filter_accepts :: "client_filter \<Rightarrow> filter_item \<Rightarrow> bool" where
  "filter_accepts f x \<longleftrightarrow>
     field_ok (\<lambda>v. item_get ''room_id'' x = JStr v) (fl_not_rooms f) (fl_rooms f) \<and>
     field_ok (\<lambda>v. item_sender x = JStr v) (fl_not_senders f) (fl_senders f) \<and>
     field_ok (matches_wildcard (item_get ''type'' x)) (fl_not_types f) (fl_types f) \<and>
     field_ok (has_label x) (fl_not_labels f) (fl_labels f) \<and>
     field_ok (\<lambda>v. item_rel_type x = Some v) (fl_not_rel_types f) (fl_rel_types f) \<and>
     (case fl_contains_url f of None \<Rightarrow> True | Some b \<Rightarrow> b = has_url x)"

definition is_presence :: "filter_item \<Rightarrow> bool" where
  "is_presence x = (case x of Presence_Item u \<Rightarrow> True | _ \<Rightarrow> False)"

definition labels_listed :: "filter_item \<Rightarrow> bool" where
  "labels_listed x = (case item_labels x of JList ls \<Rightarrow> True | _ \<Rightarrow> False)"

lemma any_match_Inr [simp]: "any_match (\<lambda>v. Inr (m v)) vs = Inr (\<exists>v \<in> set vs. m v)"
  by (induction vs) auto

lemma check_fields_Nil [simp]: "check_fields ((m, [], None) # rest) = check_fields rest"
  by simp

lemma check_fields_Inr [simp]:
  "check_fields ((\<lambda>v. Inr (m v), nots, alls) # rest) = (if field_ok m nots alls then check_fields rest else Inr False)"
  by (auto simp: field_ok_def split: option.splits)

declare check_fields.simps(2) [simp del]

lemma labels_match: "labels_listed x \<Longrightarrow> (\<lambda>v. py_in (JStr v) (item_labels x)) = (\<lambda>v. Inr (has_label x v))"
  by (auto simp: labels_listed_def has_label_def list_ex_iff split: json.splits intro!: ext)

lemma filter_check_accepts:
  "\<not> is_presence x \<Longrightarrow> labels_listed x \<Longrightarrow> filter_check f x = Inr (filter_accepts f x)"
  by (cases x) (auto simp: filter_check_def is_presence_def labels_match filter_accepts_def has_url_def
      split: option.splits json.splits)


text \<open>A room filter looks at the room alone.\<close>

lemma room_filter_parts:
  "fl_senders (fc_room (new_filter_collection cfg j)) = None" "fl_not_senders (fc_room (new_filter_collection cfg j)) = []"
  "fl_types (fc_room (new_filter_collection cfg j)) = None" "fl_not_types (fc_room (new_filter_collection cfg j)) = []"
  "fl_labels (fc_room (new_filter_collection cfg j)) = None" "fl_not_labels (fc_room (new_filter_collection cfg j)) = []"
  "fl_rel_types (fc_room (new_filter_collection cfg j)) = None" "fl_not_rel_types (fc_room (new_filter_collection cfg j)) = []"
  "fl_contains_url (fc_room (new_filter_collection cfg j)) = None"
  "fl_related_by_senders (fc_room (new_filter_collection cfg j)) = None"
  "fl_related_by_rel_types (fc_room (new_filter_collection cfg j)) = None"
proof -
  have "map_of (filter (\<lambda>(k, v). k \<in> {''rooms'', ''not_rooms''}) kvs) k = None" if "k \<notin> {''rooms'', ''not_rooms''}" for k and kvs :: jobj
    using that by (induction kvs) auto
  note * = this [of _ "get_object ''room'' j"]
  show "fl_senders (fc_room (new_filter_collection cfg j)) = None" "fl_not_senders (fc_room (new_filter_collection cfg j)) = []"
    "fl_types (fc_room (new_filter_collection cfg j)) = None" "fl_not_types (fc_room (new_filter_collection cfg j)) = []"
    "fl_labels (fc_room (new_filter_collection cfg j)) = None" "fl_not_labels (fc_room (new_filter_collection cfg j)) = []"
    "fl_rel_types (fc_room (new_filter_collection cfg j)) = None" "fl_not_rel_types (fc_room (new_filter_collection cfg j)) = []"
    "fl_contains_url (fc_room (new_filter_collection cfg j)) = None"
    "fl_related_by_senders (fc_room (new_filter_collection cfg j)) = None"
    "fl_related_by_rel_types (fc_room (new_filter_collection cfg j)) = None"
    using * by (simp_all add: new_filter_collection_def new_filter_def Let_def get_strings_def get_list_def get_bool_def)
qed

lemma field_ok_None [simp]: "field_ok m [] None"
  by (simp add: field_ok_def)

lemma field_ok_empty [simp]: "\<not> field_ok m nots (Some [])"
  by (simp add: field_ok_def)

definition room_accepts :: "client_filter \<Rightarrow> filter_item \<Rightarrow> bool" where
  "room_accepts f x = field_ok (\<lambda>v. item_get ''room_id'' x = JStr v) (fl_not_rooms f) (fl_rooms f)"

lemma room_filter_check:
  assumes "\<not> is_presence x"
  shows "filter_check (fc_room (new_filter_collection cfg j)) x = Inr (room_accepts (fc_room (new_filter_collection cfg j)) x)"
  using assms by (cases x) (simp_all add: filter_check_def is_presence_def room_filter_parts room_accepts_def)

lemma room_filter_items:
  assumes "\<forall>x \<in> set xs. \<not> is_presence x"
  shows "filter_items q (fc_room (new_filter_collection cfg j)) xs =
    Inr (filter (room_accepts (fc_room (new_filter_collection cfg j))) xs)"
proof -
  have "filterR (filter_check (fc_room (new_filter_collection cfg j))) xs =
    Inr (filter (room_accepts (fc_room (new_filter_collection cfg j))) xs)"
    using assms by (intro filterR_ok room_filter_check) blast
  then show ?thesis by (simp add: filter_items_def room_filter_parts)
qed

lemma check_event_relations_Nil [simp]: "check_event_relations q f [] = []"
  by (simp add: check_event_relations_def)

lemma filter_items_none: "(\<And>x. x \<in> set xs \<Longrightarrow> filter_check f x = Inr False) \<Longrightarrow> filter_items q f xs = Inr []"
  using filterR_ok [of xs "filter_check f" "\<lambda>x. False"] by (simp add: filter_items_def)

text \<open>The values that pass \<^verbatim>\<open>USER_ID_ARRAY_SCHEMA\<close> and \<^verbatim>\<open>ROOM_ID_ARRAY_SCHEMA\<close>.\<close>

definition matrix_room_id_validator :: "(string \<Rightarrow> bool) \<Rightarrow> string \<Rightarrow> bool" where
  "matrix_room_id_validator valid_ipv6 s = room_is_valid valid_ipv6 s"

definition matrix_user_id_validator :: "(string \<Rightarrow> bool) \<Rightarrow> string \<Rightarrow> bool" where
  "matrix_user_id_validator valid_ipv6 s = ds_is_valid valid_ipv6 user_sigil s"

definition excludes_valid :: "(string \<Rightarrow> bool) \<Rightarrow> client_filter \<Rightarrow> bool" where
  "excludes_valid v6 f \<longleftrightarrow>
     (\<forall>s \<in> set (fl_not_senders f). matrix_user_id_validator v6 s) \<and> (\<forall>r \<in> set (fl_not_rooms f). matrix_room_id_validator v6 r)"

lemma star_is_no_id: "\<not> matrix_user_id_validator v6 ''*''" "\<not> matrix_room_id_validator v6 ''*''"
  by (simp_all add: matrix_user_id_validator_def matrix_room_id_validator_def room_is_valid_def ds_is_valid_def
      ds_from_string_def room_from_string_def)

lemma all_excluded:
  assumes v: "excludes_valid v6 f" and f: "filters_all_types f \<or> filters_all_senders f \<or> filters_all_rooms f"
    and x: "\<not> is_presence x" "item_get ''type'' x = JStr t"
  shows "filter_check f x = Inr False"
proof -
  have "matches_wildcard (JStr t) ''*''" by (simp add: matches_wildcard_def)
  then have "fl_senders f = Some [] \<or> fl_rooms f = Some [] \<or> \<not> field_ok (matches_wildcard (JStr t)) (fl_not_types f) (fl_types f)"
    using f v star_is_no_id
    by (auto simp: filters_all_types_def filters_all_senders_def filters_all_rooms_def excludes_valid_def field_ok_def)
  then show ?thesis using x by (cases x) (auto simp: filter_check_def is_presence_def)
qed

lemma all_excluded_in_room:
  assumes "excludes_valid v6 (part (new_filter_collection cfg j))"
    and f: "filters_all_types (part (new_filter_collection cfg j)) \<or> filters_all_senders (part (new_filter_collection cfg j)) \<or>
      filters_all_rooms (part (new_filter_collection cfg j))"
    and x: "\<forall>x \<in> set xs. \<not> is_presence x \<and> (\<exists>t. item_get ''type'' x = JStr t)"
  shows "filter_in_room q part (new_filter_collection cfg j) xs = Inr []"
proof -
  have "filter_items q (part (new_filter_collection cfg j)) (filter P xs) = Inr []" for P
    using x by (intro filter_items_none) (auto intro: all_excluded [OF assms(1) f])
  then show ?thesis using x by (simp add: filter_in_room_def room_filter_items)
qed

text \<open>C37: \<^verbatim>\<open>FilterCollection\<close>. Where \<^verbatim>\<open>blocks_all_rooms\<close>, or the one for the timeline, the account data or the
  ephemeral messages of rooms or for global account data, lets the sync handler skip the work, the filter would
  have kept nothing of any items that have a type. The same holds of \<^verbatim>\<open>blocks_all_presence\<close> only if \<^verbatim>\<open>not_types\<close>
  of the presence filter has no \<^verbatim>\<open>"*"\<close>: with it \<^verbatim>\<open>blocks_all_presence\<close> is true and \<^verbatim>\<open>filter_presence\<close> keeps
  everything (\<open>presence_wildcard\<close>). The senders and rooms that the filters exclude are valid identifiers, which
  the schema of filters ensures.\<close>

theorem blocks_all_sound:
  assumes c: "c = new_filter_collection cfg j"
    and v: "\<forall>f \<in> {fc_room c, fc_timeline c, fc_account_data c, fc_ephemeral c, fc_global_account_data c, fc_presence c}. excludes_valid v6 f"
    and x: "\<forall>x \<in> set xs. \<not> is_presence x \<and> (\<exists>t. item_get ''type'' x = JStr t)"
  shows "(blocks_all_rooms c \<longrightarrow> filter_in_room q part c xs = Inr []) \<and>
    (blocks_all_room_timeline c \<longrightarrow> filter_room_timeline q c xs = Inr []) \<and>
    (blocks_all_room_account_data c \<longrightarrow> filter_room_account_data q c xs = Inr []) \<and>
    (blocks_all_room_ephemeral c \<longrightarrow> filter_room_ephemeral q c xs = Inr []) \<and>
    (blocks_all_global_account_data c \<longrightarrow> filter_global_account_data q c xs = Inr []) \<and>
    (blocks_all_presence c \<and> ''*'' \<notin> set (fl_not_types (fc_presence c)) \<longrightarrow>
      filter_presence q c (map Presence_Item users) = Inr [])"
proof (intro conjI impI)
  assume "blocks_all_rooms c"
  then have "\<not> room_accepts (fc_room c) x" for x
    using v star_is_no_id by (auto simp: blocks_all_rooms_def filters_all_rooms_def room_accepts_def excludes_valid_def)
  then have "filter (room_accepts (fc_room c)) xs = []" by simp
  moreover have "filter_items q (part c) [] = Inr []" by (rule filter_items_none) simp
  ultimately show "filter_in_room q part c xs = Inr []" using x by (simp add: filter_in_room_def c room_filter_items)
next
  assume "blocks_all_global_account_data c"
  then show "filter_global_account_data q c xs = Inr []"
    using v x unfolding filter_global_account_data_def blocks_all_global_account_data_def
    by (intro filter_items_none) (auto intro: all_excluded)
next
  assume "blocks_all_presence c \<and> ''*'' \<notin> set (fl_not_types (fc_presence c))"
  moreover have "''*'' \<notin> set (fl_not_senders (fc_presence c))" using v star_is_no_id by (auto simp: excludes_valid_def)
  ultimately have "fl_types (fc_presence c) = Some [] \<or> fl_senders (fc_presence c) = Some []"
    by (auto simp: blocks_all_presence_def filters_all_types_def filters_all_senders_def)
  then show "filter_presence q c (map Presence_Item users) = Inr []"
    unfolding filter_presence_def by (intro filter_items_none) (auto simp: filter_check_def)
qed (use v x in \<open>auto simp: c blocks_all_room_timeline_def blocks_all_room_account_data_def blocks_all_room_ephemeral_def
    intro!: all_excluded_in_room\<close>)


lemma blocks_all_sound_witness:
  "blocks_all_room_timeline (new_filter_collection \<lparr>fcg_msc3773_enabled = False, fcg_msc3874_enabled = False, fcg_include_profile_updates = False\<rparr>
      [(''room'', JObj [(''timeline'', JObj [(''not_types'', JList [JStr ''*''])])])]) \<and>
   filter_room_timeline (\<lambda>ids senders types. ids) (new_filter_collection
      \<lparr>fcg_msc3773_enabled = False, fcg_msc3874_enabled = False, fcg_include_profile_updates = False\<rparr>
      [(''room'', JObj [(''timeline'', JObj [(''not_types'', JList [JStr ''*''])])])])
     [Dict_Item [(''type'', JStr ''m.tag''), (''content'', JInt 3)]] = Inr []"
  (is "?b \<and> _")
proof -
  let ?c = "new_filter_collection \<lparr>fcg_msc3773_enabled = False, fcg_msc3874_enabled = False, fcg_include_profile_updates = False\<rparr>
      [(''room'', JObj [(''timeline'', JObj [(''not_types'', JList [JStr ''*''])])])]"
  note defs = new_filter_collection_def new_filter_def Let_def get_strings_def get_list_def get_object_def json_strings_def map_filter_simps
  have "?b" by (simp add: blocks_all_room_timeline_def filters_all_types_def defs)
  moreover have "\<forall>f \<in> {fc_room ?c, fc_timeline ?c, fc_account_data ?c, fc_ephemeral ?c, fc_global_account_data ?c, fc_presence ?c}.
      excludes_valid (\<lambda>s. False) f"
    by (simp add: excludes_valid_def defs)
  ultimately show ?thesis
    using blocks_all_sound [OF refl, where xs = "[Dict_Item [(''type'', JStr ''m.tag''), (''content'', JInt 3)]]" and q = "\<lambda>ids senders types. ids"]
    by (simp add: is_presence_def item_get_def)
qed

text \<open>The two filters of an item of a room in one, and the query for relations.\<close>

definition wants_relations :: "client_filter \<Rightarrow> bool" where
  "wants_relations f \<longleftrightarrow> fl_related_by_senders f \<notin> {None, Some []} \<or> fl_related_by_rel_types f \<notin> {None, Some []}"

definition has_relations :: "relations_query \<Rightarrow> client_filter \<Rightarrow> filter_item list \<Rightarrow> filter_item \<Rightarrow> bool" where
  "has_relations q f xs x =
     (case x of
        Event_Item e \<Rightarrow> ev_event_id e \<in> set (q [ev_event_id e'. Event_Item e' \<leftarrow> xs] (fl_related_by_senders f) (fl_related_by_rel_types f))
      | _ \<Rightarrow> True)"

lemma event_ids_comprehension:
  "List.map_filter (\<lambda>x. case x of Event_Item e \<Rightarrow> Some (ev_event_id e) | _ \<Rightarrow> None) xs = [ev_event_id e'. Event_Item e' \<leftarrow> xs]"
  by (induction xs) (auto simp: map_filter_simps split: filter_item.split)

lemma filter_items_exact:
  assumes "\<forall>x \<in> set xs. \<not> is_presence x \<and> labels_listed x"
  shows "filter_items q f xs =
    (let ys = filter (filter_accepts f) xs in Inr (if wants_relations f then filter (has_relations q f ys) ys else ys))"
proof -
  have "filterR (filter_check f) xs = Inr (filter (filter_accepts f) xs)"
    using assms by (intro filterR_ok filter_check_accepts) auto
  then show ?thesis
    unfolding filter_items_def wants_relations_def [symmetric]
    by (simp add: check_event_relations_def event_ids_comprehension has_relations_def [abs_def] Let_def del: filter_filter)
qed

text \<open>C36: \<^verbatim>\<open>Filter\<close>. What a filter keeps of the timeline, state, account data or ephemeral messages of rooms is,
  in their order, exactly the items of an allowed room whose room, sender, type, labels and relation are not
  excluded and are among the allowed ones where there is a list of those, that have an address as the
  filter asks for, and, where it asks for relations, that have them; presence is matched by its user and its
  type; and \<^verbatim>\<open>filter_rooms\<close> keeps the rooms that the check of an item allows.\<close>

theorem filters_keep_exactly:
  assumes c: "c = new_filter_collection cfg j" and x: "\<forall>x \<in> set xs. \<not> is_presence x \<and> labels_listed x"
  shows "filter_in_room q part c xs =
      (let ys = filter (\<lambda>x. room_accepts (fc_room c) x \<and> filter_accepts (part c) x) xs
       in Inr (if wants_relations (part c) then filter (has_relations q (part c) ys) ys else ys)) \<and>
    filter_check f (Presence_Item user) =
      Inr (field_ok ((=) user) (fl_not_senders f) (fl_senders f) \<and> field_ok ((=) ''m.presence'') (fl_not_types f) (fl_types f)) \<and>
    filter_rooms f ids = {r \<in> set ids. field_ok ((=) r) (fl_not_rooms f) (fl_rooms f)}"
proof (intro conjI)
  have "filter_items q (part c) (filter (room_accepts (fc_room c)) xs) =
    (let ys = filter (filter_accepts (part c)) (filter (room_accepts (fc_room c)) xs)
     in Inr (if wants_relations (part c) then filter (has_relations q (part c) ys) ys else ys))"
    using x by (intro filter_items_exact) auto
  then show "filter_in_room q part c xs =
      (let ys = filter (\<lambda>x. room_accepts (fc_room c) x \<and> filter_accepts (part c) x) xs
       in Inr (if wants_relations (part c) then filter (has_relations q (part c) ys) ys else ys))"
    using x by (simp add: filter_in_room_def c room_filter_items)
  show "filter_check f (Presence_Item user) =
      Inr (field_ok ((=) user) (fl_not_senders f) (fl_senders f) \<and> field_ok ((=) ''m.presence'') (fl_not_types f) (fl_types f))"
    by (simp add: filter_check_def)
  show "filter_rooms f ids = {r \<in> set ids. field_ok ((=) r) (fl_not_rooms f) (fl_rooms f)}"
    by (auto simp: filter_rooms_def field_ok_def Let_def split: option.splits)
qed

lemma filters_keep_exactly_witness:
  "filter_room_timeline (\<lambda>ids senders types. ids) (new_filter_collection
      \<lparr>fcg_msc3773_enabled = False, fcg_msc3874_enabled = False, fcg_include_profile_updates = False\<rparr>
      [(''room'', JObj [(''timeline'', JObj [(''types'', JList [JStr ''m.*''])])])])
     [Dict_Item [(''type'', JStr ''m.tag'')], Dict_Item [(''type'', JStr ''n.tag'')]] = Inr [Dict_Item [(''type'', JStr ''m.tag'')]]"
proof -
  let ?c = "new_filter_collection \<lparr>fcg_msc3773_enabled = False, fcg_msc3874_enabled = False, fcg_include_profile_updates = False\<rparr>
      [(''room'', JObj [(''timeline'', JObj [(''types'', JList [JStr ''m.*''])])])]"
  let ?xs = "[Dict_Item [(''type'', JStr ''m.tag'')], Dict_Item [(''type'', JStr ''n.tag'')]]"
  have "\<forall>x \<in> set ?xs. \<not> is_presence x \<and> labels_listed x"
    by (simp add: is_presence_def labels_listed_def item_labels_def item_content_def item_get_def)
  show ?thesis
    by (rule trans [OF conjunct1 [OF filters_keep_exactly [OF refl \<open>\<forall>x \<in> set ?xs. \<not> is_presence x \<and> labels_listed x\<close>]]])
      (simp add: item_sender_def item_content_def room_accepts_def filter_accepts_def field_ok_def new_filter_collection_def new_filter_def Let_def get_strings_def
        get_list_def get_object_def get_bool_def json_strings_def map_filter_simps wants_relations_def item_get_def matches_wildcard_def)
qed

section \<open>Where the filters differ from what is documented\<close>

text \<open>The sync handler filters the account data of a room as dictionaries of a type and a content. A filter
  that lists rooms drops all of it, also that of the rooms it lists.\<close>

lemma room_list_drops_account_data:
  assumes "fl_rooms (fc_room (new_filter_collection cfg j)) = Some rooms"
  shows "filter_room_account_data q (new_filter_collection cfg j)
    (map (\<lambda>(t, c). Dict_Item [(''type'', t), (''content'', c)]) data) = Inr []"
proof -
  let ?xs = "map (\<lambda>(t, c). Dict_Item [(''type'', t), (''content'', c)]) data"
  have "filter (room_accepts (fc_room (new_filter_collection cfg j))) ?xs = []" "\<forall>x \<in> set ?xs. \<not> is_presence x"
    using assms by (auto simp: room_accepts_def field_ok_def item_get_def is_presence_def filter_empty_conv)
  moreover have "filter_items q (fc_account_data (new_filter_collection cfg j)) [] = Inr []"
    by (rule filter_items_none) simp
  ultimately show ?thesis by (simp only: filter_in_room_def room_filter_items bindR_Inr)
qed

text \<open>A create event that carries no room identifier is in no listed room.\<close>

lemma room_list_drops_create_event:
  "\<not> ev_room_id_in_event e \<Longrightarrow> fl_rooms f = Some rooms \<Longrightarrow> filter_check f (Event_Item e) = Inr False"
  by (simp add: filter_check_def item_get_def field_ok_def)

text \<open>Labels that are a number make a filter on labels raise.\<close>

lemma number_as_labels_raises:
  "map_of (ev_content e) ''org.matrix.labels'' = Some (JInt n) \<Longrightarrow>
   filter_check ((new_filter cfg [])\<lparr>fl_not_labels := [l]\<rparr>) (Event_Item e) = Inl TypeError"
  by (simp add: filter_check_def check_fields.simps item_labels_def item_content_def item_get_def new_filter_def get_strings_def get_list_def)

text \<open>A wildcard excludes all types of presence for \<^verbatim>\<open>blocks_all_presence\<close>, and none for the filter.\<close>

lemma presence_wildcard:
  "filters_all_types ((new_filter cfg [])\<lparr>fl_not_types := [''*'']\<rparr>)"
  "filter_check ((new_filter cfg [])\<lparr>fl_not_types := [''*'']\<rparr>) (Presence_Item u) = Inr True"
  by (simp_all add: filters_all_types_def filter_check_def field_ok_def new_filter_def get_strings_def get_list_def)

text \<open>\<^verbatim>\<open>with_room_ids\<close> changes the filter it is called on.\<close>

lemma with_room_ids_changes_old:
  "fl_rooms (new_filter cfg (fl_filter_json f)) = Some rooms \<Longrightarrow>
   \<exists>f'. with_room_ids cfg ids f = Inr (f', f\<lparr>fl_rooms := Some (rooms @ ids)\<rparr>) \<and> fl_rooms f' = Some (rooms @ ids)"
  by (simp add: with_room_ids_def)

end
