(* ===== verification/Expiring_Cache.thy ===== *)
theory Expiring_Cache
  imports Overlay_Map Py_Values
begin

text \<open>
  \<^verbatim>\<open>ExpiringCache\<close> of \<^verbatim>\<open>synapse/util/caches/expiringcache.py\<close>. The ordered dictionary is an association list,
  oldest entry first; the size of a value is an argument, since the values may be objects that change. The
  interface \<open>lossy_cache\<close> is what the users of a cache rely on.
\<close>

section \<open>The cache\<close>

record ('k, 'v) expiring_cache =
  xc_original_max_size :: int
  xc_max_size :: int
  xc_expiry_ms :: int
  xc_reset_expiry_on_get :: bool
  xc_cache :: "('k, int \<times> 'v) dict"

definition new_expiring_cache :: "rat \<Rightarrow> int \<Rightarrow> int \<Rightarrow> bool \<Rightarrow> ('k, 'v) expiring_cache" where
  "new_expiring_cache default_factor_size max_len expiry_ms reset_expiry_on_get =
     \<lparr>xc_original_max_size = max_len, xc_max_size = trunc (of_int max_len * default_factor_size),
      xc_expiry_ms = expiry_ms, xc_reset_expiry_on_get = reset_expiry_on_get, xc_cache = []\<rparr>"

text \<open>\<^verbatim>\<open>_size_of\<close> is one for every value without a callback.\<close>

definition cache_total :: "('v \<Rightarrow> int) \<Rightarrow> ('k, int \<times> 'v) dict \<Rightarrow> int" where
  "cache_total size_of d = sum_list (map (\<lambda>(k, t, v). size_of v) d)"

definition cache_len :: "('v \<Rightarrow> int) \<Rightarrow> ('k, 'v) expiring_cache \<Rightarrow> int" where
  "cache_len size_of c = cache_total size_of (xc_cache c)"

fun cache_evict_loop :: "('v \<Rightarrow> int) \<Rightarrow> int \<Rightarrow> ('k, int \<times> 'v) dict \<Rightarrow> ('k, int \<times> 'v) dict res" where
  "cache_evict_loop size_of m [] = (if m \<noteq> 0 \<and> 0 > m then Inl KeyError else Inr [])"
| "cache_evict_loop size_of m (e # d) =
     (if m \<noteq> 0 \<and> cache_total size_of (e # d) > m then cache_evict_loop size_of m d else Inr (e # d))"

definition cache_evict :: "('v \<Rightarrow> int) \<Rightarrow> ('k, 'v) expiring_cache \<Rightarrow> ('k, 'v) expiring_cache res" where
  "cache_evict size_of c = bindR (cache_evict_loop size_of (xc_max_size c) (xc_cache c)) (\<lambda>d. Inr (c\<lparr>xc_cache := d\<rparr>))"

definition cache_setitem :: "('v \<Rightarrow> int) \<Rightarrow> int \<Rightarrow> 'k \<Rightarrow> 'v \<Rightarrow> ('k, 'v) expiring_cache \<Rightarrow> ('k, 'v) expiring_cache res" where
  "cache_setitem size_of now key v c = cache_evict size_of (c\<lparr>xc_cache := dict_set key (now, v) (xc_cache c)\<rparr>)"

definition cache_getitem :: "int \<Rightarrow> 'k \<Rightarrow> ('k, 'v) expiring_cache \<Rightarrow> (('k, 'v) expiring_cache \<times> 'v) res" where
  "cache_getitem now key c =
     (case map_of (xc_cache c) key of
        None \<Rightarrow> Inl KeyError
      | Some (t, v) \<Rightarrow>
          Inr (if xc_reset_expiry_on_get c then c\<lparr>xc_cache := dict_set key (now, v) (xc_cache c)\<rparr> else c, v))"

text \<open>\<^verbatim>\<open>get\<close> with the default \<^verbatim>\<open>None\<close>, \<^verbatim>\<open>pop\<close> with and without a default, and \<^verbatim>\<open>setdefault\<close>.\<close>

definition cache_get :: "int \<Rightarrow> 'k \<Rightarrow> ('k, 'v) expiring_cache \<Rightarrow> ('k, 'v) expiring_cache \<times> 'v option" where
  "cache_get now key c = (case cache_getitem now key c of Inl e \<Rightarrow> (c, None) | Inr (c, v) \<Rightarrow> (c, Some v))"

definition cache_pop :: "'v option \<Rightarrow> 'k \<Rightarrow> ('k, 'v) expiring_cache \<Rightarrow> (('k, 'v) expiring_cache \<times> 'v) res" where
  "cache_pop dflt key c =
     (case map_of (xc_cache c) key of
        None \<Rightarrow> (case dflt of None \<Rightarrow> Inl KeyError | Some d \<Rightarrow> Inr (c, d))
      | Some (t, v) \<Rightarrow> Inr (c\<lparr>xc_cache := dict_pop key (xc_cache c)\<rparr>, v))"

definition cache_contains :: "'k \<Rightarrow> ('k, 'v) expiring_cache \<Rightarrow> bool" where
  "cache_contains key c \<longleftrightarrow> map_of (xc_cache c) key \<noteq> None"

definition cache_setdefault ::
  "('v \<Rightarrow> int) \<Rightarrow> int \<Rightarrow> 'k \<Rightarrow> 'v \<Rightarrow> ('k, 'v) expiring_cache \<Rightarrow> (('k, 'v) expiring_cache \<times> 'v) res" where
  "cache_setdefault size_of now key v c =
     (case cache_getitem now key c of
        Inr r \<Rightarrow> Inr r
      | Inl e \<Rightarrow> bindR (cache_setitem size_of now key v c) (\<lambda>c. Inr (c, v)))"

definition prune_cache :: "int \<Rightarrow> ('k, 'v) expiring_cache \<Rightarrow> ('k, 'v) expiring_cache" where
  "prune_cache now c =
     (if xc_expiry_ms c = 0 then c
      else c\<lparr>xc_cache := filter (\<lambda>(k, t, v). \<not> now - t > xc_expiry_ms c) (xc_cache c)\<rparr>)"

definition set_expiry_cache_factor :: "('v \<Rightarrow> int) \<Rightarrow> rat \<Rightarrow> ('k, 'v) expiring_cache \<Rightarrow> (('k, 'v) expiring_cache \<times> bool) res" where
  "set_expiry_cache_factor size_of factor c =
     (let new_size = trunc (of_int (xc_original_max_size c) * factor)
      in if new_size \<noteq> xc_max_size c
         then bindR (cache_evict size_of (c\<lparr>xc_max_size := new_size\<rparr>)) (\<lambda>c. Inr (c, True))
         else Inr (c, False))"

definition cache_lookup :: "('k, 'v) expiring_cache \<Rightarrow> 'k \<Rightarrow> 'v option" where
  "cache_lookup c key = map_option snd (map_of (xc_cache c) key)"

section \<open>Eviction\<close>

text \<open>Eviction drops the shortest run of oldest entries that makes the rest fit.\<close>

lemma cache_evict_loop_suffix:
  assumes "cache_evict_loop sz m d = Inr d'"
  shows "\<exists>n. d' = drop n d \<and> (m \<noteq> 0 \<longrightarrow> cache_total sz d' \<le> m) \<and> (\<forall>i < n. m \<noteq> 0 \<and> m < cache_total sz (drop i d))"
  using assms
proof (induction sz m d rule: cache_evict_loop.induct)
  case (1 sz m)
  then show ?case by (auto simp: cache_total_def split: if_splits)
next
  case (2 sz m e d)
  show ?case
  proof (cases "m \<noteq> 0 \<and> m < cache_total sz (e # d)")
    case True
    then obtain n where n: "d' = drop n d" "m \<noteq> 0 \<longrightarrow> cache_total sz d' \<le> m" "\<forall>i < n. m \<noteq> 0 \<and> m < cache_total sz (drop i d)"
      using 2 by auto
    have "\<forall>i < Suc n. m \<noteq> 0 \<and> m < cache_total sz (drop i (e # d))" using True n(3) by (auto simp: less_Suc_eq_0_disj)
    then show ?thesis using n by (intro exI [of _ "Suc n"]) simp
  next
    case False
    then show ?thesis using 2 by (intro exI [of _ 0]) auto
  qed
qed

lemma cache_evict_loop_total: "0 \<le> m \<Longrightarrow> \<exists>d'. cache_evict_loop sz m d = Inr d'"
  by (induction sz m d rule: cache_evict_loop.induct) auto

lemma cache_setitem_returns: "0 \<le> xc_max_size c \<Longrightarrow> \<exists>c'. cache_setitem sz now k v c = Inr c'"
  using cache_evict_loop_total [of "xc_max_size c" sz "dict_set k (now, v) (xc_cache c)"]
  by (auto simp: cache_setitem_def cache_evict_def)

lemma map_of_suffix:
  assumes "dict_wf d"
  shows "map_of (drop n d) k = None \<or> map_of (drop n d) k = map_of d k"
proof (cases "map_of (drop n d) k")
  case (Some v)
  then have "(k, v) \<in> set d" using in_set_dropD by (fastforce dest!: map_of_SomeD)
  then show ?thesis using assms Some by (simp add: dict_wf_def)
qed simp

lemma cache_evict_ok:
  assumes "cache_evict sz c = Inr c'" and wf: "dict_wf (xc_cache c)"
  shows "dict_wf (xc_cache c')" "cache_lookup c' k = Some v \<Longrightarrow> cache_lookup c k = Some v"
    "xc_max_size c' = xc_max_size c" "xc_max_size c \<noteq> 0 \<Longrightarrow> cache_len sz c' \<le> xc_max_size c"
    "set (xc_cache c') \<subseteq> set (xc_cache c)" "xc_expiry_ms c' = xc_expiry_ms c"
proof -
  obtain d where d: "cache_evict_loop sz (xc_max_size c) (xc_cache c) = Inr d" and c': "c' = c\<lparr>xc_cache := d\<rparr>"
    using assms(1) by (auto simp: cache_evict_def bindR_eq_Inr)
  obtain n where n: "d = drop n (xc_cache c)" "xc_max_size c \<noteq> 0 \<longrightarrow> cache_total sz d \<le> xc_max_size c"
    using cache_evict_loop_suffix [OF d] by blast
  show "dict_wf (xc_cache c')" using wf n(1) by (simp add: c' dict_wf_def drop_map [symmetric])
  show "cache_lookup c k = Some v" if "cache_lookup c' k = Some v"
    using that map_of_suffix [OF wf, of n k] by (auto simp: c' cache_lookup_def n(1))
  show "xc_max_size c' = xc_max_size c" "xc_max_size c \<noteq> 0 \<Longrightarrow> cache_len sz c' \<le> xc_max_size c" "xc_expiry_ms c' = xc_expiry_ms c"
    using n by (simp_all add: c' cache_len_def)
  show "set (xc_cache c') \<subseteq> set (xc_cache c)" by (simp add: c' n(1) set_drop_subset)
qed

section \<open>What the users of a cache rely on\<close>

text \<open>A cache may forget what it was given, and gives back nothing else.\<close>

locale lossy_cache =
  fixes valid :: "'c \<Rightarrow> bool" and lookup :: "'c \<Rightarrow> 'k \<Rightarrow> 'v option"
    and put :: "'k \<Rightarrow> 'v \<Rightarrow> 'c \<Rightarrow> 'c \<Rightarrow> bool" and forget :: "'c \<Rightarrow> 'c \<Rightarrow> bool"
  assumes put_valid: "valid c \<Longrightarrow> put k v c c' \<Longrightarrow> valid c'"
    and put_lookup: "valid c \<Longrightarrow> put k v c c' \<Longrightarrow> lookup c' k' = Some v' \<Longrightarrow> k' = k \<and> v' = v \<or> k' \<noteq> k \<and> lookup c k' = Some v'"
    and forget_valid: "valid c \<Longrightarrow> forget c c' \<Longrightarrow> valid c'"
    and forget_lookup: "valid c \<Longrightarrow> forget c c' \<Longrightarrow> lookup c' k = Some v \<Longrightarrow> lookup c k = Some v"
begin

definition holds :: "('k \<Rightarrow> 'v \<Rightarrow> bool) \<Rightarrow> 'c \<Rightarrow> bool" where
  "holds P c \<longleftrightarrow> valid c \<and> (\<forall>k v. lookup c k = Some v \<longrightarrow> P k v)"

lemma holds_put: "holds P c \<Longrightarrow> put k v c c' \<Longrightarrow> P k v \<Longrightarrow> holds P c'"
  unfolding holds_def using put_valid put_lookup by blast

lemma holds_forget: "holds P c \<Longrightarrow> forget c c' \<Longrightarrow> holds P c'"
  unfolding holds_def using forget_valid forget_lookup by blast

lemma holds_mono: "holds P c \<Longrightarrow> (\<And>k v. P k v \<Longrightarrow> Q k v) \<Longrightarrow> holds Q c"
  unfolding holds_def by blast

end

definition cache_valid :: "('k, 'v) expiring_cache \<Rightarrow> bool" where
  "cache_valid c \<longleftrightarrow> dict_wf (xc_cache c) \<and> 0 \<le> xc_max_size c"

definition cache_put :: "'k \<Rightarrow> 'v \<Rightarrow> ('k, 'v) expiring_cache \<Rightarrow> ('k, 'v) expiring_cache \<Rightarrow> bool" where
  "cache_put k v c c' \<longleftrightarrow> (\<exists>sz now. cache_setitem sz now k v c = Inr c')"

text \<open>All operations but those that store a value. A factor is not negative.\<close>

definition cache_forget :: "('k, 'v) expiring_cache \<Rightarrow> ('k, 'v) expiring_cache \<Rightarrow> bool" where
  "cache_forget c c' \<longleftrightarrow>
     (\<exists>now k r. cache_get now k c = (c', r)) \<or> (\<exists>d k v. cache_pop d k c = Inr (c', v)) \<or> (\<exists>now. c' = prune_cache now c) \<or>
     (\<exists>sz f b. 0 \<le> f \<and> 0 \<le> xc_original_max_size c \<and> set_expiry_cache_factor sz f c = Inr (c', b))"

lemma prune_lookup: "dict_wf (xc_cache c) \<Longrightarrow> cache_lookup (prune_cache now c) k = Some v \<Longrightarrow> cache_lookup c k = Some v"
  by (auto simp: prune_cache_def cache_lookup_def map_of_filter_wf split: if_splits option.splits)

lemma cache_getitem_ok:
  assumes "cache_getitem now k c = Inr (c', v)"
  shows "cache_lookup c' = cache_lookup c" "cache_lookup c k = Some v" "dict_wf (xc_cache c) \<Longrightarrow> dict_wf (xc_cache c')"
    "xc_max_size c' = xc_max_size c"
  using assms by (auto simp: cache_getitem_def cache_lookup_def fun_eq_iff split: option.splits if_splits)

lemma cache_get_ok:
  assumes "cache_get now k c = (c', r)"
  shows "cache_lookup c' = cache_lookup c" "r = cache_lookup c k" "dict_wf (xc_cache c) \<Longrightarrow> dict_wf (xc_cache c')"
    "xc_max_size c' = xc_max_size c"
  using assms cache_getitem_ok [of now k c c']
  by (auto simp: cache_get_def split: sum.splits) (auto simp: cache_getitem_def cache_lookup_def split: option.splits)

lemma cache_forget_ok:
  assumes wf: "dict_wf (xc_cache c)" and f: "cache_forget c c'"
  shows "dict_wf (xc_cache c') \<and> (\<forall>k v. cache_lookup c' k = Some v \<longrightarrow> cache_lookup c k = Some v)"
proof -
  consider (get) now k r where "cache_get now k c = (c', r)" | (pop) d k v where "cache_pop d k c = Inr (c', v)"
    | (prune) now where "c' = prune_cache now c" | (factor) sz f b where "set_expiry_cache_factor sz f c = Inr (c', b)"
    using f unfolding cache_forget_def by blast
  then show ?thesis
  proof cases
    case get
    then show ?thesis using cache_get_ok [OF get] wf by simp
  next
    case pop
    then show ?thesis using wf by (auto simp: cache_pop_def cache_lookup_def split: option.splits if_splits)
  next
    case prune
    then have "dict_wf (xc_cache c')" using wf by (simp add: prune_cache_def dict_wf_filter)
    then show ?thesis using prune_lookup [OF wf] prune by blast
  next
    case factor
    then show ?thesis
      using cache_evict_ok(1,2) [of sz "c\<lparr>xc_max_size := trunc (of_int (xc_original_max_size c) * f)\<rparr>" c'] wf
      by (auto simp: set_expiry_cache_factor_def Let_def bindR_eq_Inr cache_lookup_def split: if_splits)
  qed
qed

lemma cache_forget_max:
  assumes "dict_wf (xc_cache c)" "cache_forget c c'" "0 \<le> xc_max_size c"
  shows "0 \<le> xc_max_size c'"
proof -
  have "0 \<le> trunc (of_int (xc_original_max_size c) * f)" if "0 \<le> f" "0 \<le> xc_original_max_size c" for f
    using that by (simp add: trunc_def)
  then show ?thesis
    using assms cache_evict_ok(3) [of _ "c\<lparr>xc_max_size := _\<rparr>" c']
    by (auto simp: cache_forget_def cache_pop_def prune_cache_def set_expiry_cache_factor_def Let_def bindR_eq_Inr
        dest: cache_get_ok(4) split: option.splits if_splits)
qed

lemma cache_put_ok:
  assumes wf: "dict_wf (xc_cache c)" and p: "cache_setitem sz now k v c = Inr c'"
  shows "dict_wf (xc_cache c')" "xc_max_size c' = xc_max_size c"
    "cache_lookup c' k' = Some v' \<Longrightarrow> k' = k \<and> v' = v \<or> k' \<noteq> k \<and> cache_lookup c k' = Some v'"
proof -
  let ?c = "c\<lparr>xc_cache := dict_set k (now, v) (xc_cache c)\<rparr>"
  have e: "cache_evict sz ?c = Inr c'" "dict_wf (xc_cache ?c)" using wf p by (simp_all add: cache_setitem_def)
  show "dict_wf (xc_cache c')" "xc_max_size c' = xc_max_size c" using cache_evict_ok(1,3) [OF e] by simp_all
  show "k' = k \<and> v' = v \<or> k' \<noteq> k \<and> cache_lookup c k' = Some v'" if "cache_lookup c' k' = Some v'"
    using cache_evict_ok(2) [OF e that] by (auto simp: cache_lookup_def split: if_splits)
qed

interpretation xc: lossy_cache cache_valid cache_lookup cache_put cache_forget
proof (unfold_locales, goal_cases)
  case (1 c k v c')
  then show ?case using cache_put_ok(1,2) by (fastforce simp: cache_valid_def cache_put_def)
next
  case (2 c k v c' k' v')
  then show ?case using cache_put_ok(3) by (fastforce simp: cache_valid_def cache_put_def)
next
  case (3 c c')
  then show ?case using cache_forget_ok cache_forget_max by (fastforce simp: cache_valid_def)
next
  case (4 c c' k v)
  then show ?case using cache_forget_ok by (fastforce simp: cache_valid_def)
qed


section \<open>Histories\<close>

text \<open>What happens to a cache, with what was stored under each key and not removed since.\<close>

inductive xc_run :: "('v \<Rightarrow> int) \<Rightarrow> int \<Rightarrow> ('k, 'v) expiring_cache \<Rightarrow> ('k \<rightharpoonup> 'v) \<Rightarrow> bool" for sz where
  xc_new: "0 \<le> f \<Longrightarrow> 0 \<le> max_len \<Longrightarrow> xc_run sz t (new_expiring_cache f max_len expiry reset) Map.empty"
| xc_set: "xc_run sz t c h \<Longrightarrow> t \<le> now \<Longrightarrow> cache_setitem sz now k v c = Inr c' \<Longrightarrow> xc_run sz now c' (h(k \<mapsto> v))"
| xc_get: "xc_run sz t c h \<Longrightarrow> t \<le> now \<Longrightarrow> cache_get now k c = (c', r) \<Longrightarrow> xc_run sz now c' h"
| xc_setdefault: "xc_run sz t c h \<Longrightarrow> t \<le> now \<Longrightarrow> cache_setdefault sz now k v c = Inr (c', r) \<Longrightarrow> xc_run sz now c' (h(k \<mapsto> r))"
| xc_pop: "xc_run sz t c h \<Longrightarrow> cache_pop d k c = Inr (c', v) \<Longrightarrow> xc_run sz t c' (h(k := None))"
| xc_prune: "xc_run sz t c h \<Longrightarrow> t \<le> now \<Longrightarrow> xc_run sz now (prune_cache now c) h"
| xc_factor: "xc_run sz t c h \<Longrightarrow> 0 \<le> f \<Longrightarrow> set_expiry_cache_factor sz f c = Inr (c', b) \<Longrightarrow> xc_run sz t c' h"

definition xc_inv :: "('v \<Rightarrow> int) \<Rightarrow> ('k, 'v) expiring_cache \<Rightarrow> ('k \<rightharpoonup> 'v) \<Rightarrow> bool" where
  "xc_inv sz c h \<longleftrightarrow> cache_valid c \<and> 0 \<le> xc_original_max_size c \<and> (xc_max_size c \<noteq> 0 \<longrightarrow> cache_len sz c \<le> xc_max_size c) \<and>
     (\<forall>k v. cache_lookup c k = Some v \<longrightarrow> h k = Some v)"

lemma cache_total_filter: "(\<And>v. 0 \<le> sz v) \<Longrightarrow> cache_total sz (filter P d) \<le> cache_total sz d"
  by (induction d) (auto simp: cache_total_def add_increasing)

lemma cache_total_dict_set_same:
  "map_of d k = Some (t, v) \<Longrightarrow> cache_total sz (dict_set k (now, v) d) = cache_total sz d"
  by (induction d) (auto simp: cache_total_def)

lemma get_inv:
  assumes "xc_inv sz c h" "cache_get now k c = (c', r)"
  shows "xc_inv sz c' h"
proof -
  have "cache_len sz c' = cache_len sz c" "xc_original_max_size c' = xc_original_max_size c"
    using assms(2)
    by (auto simp: cache_get_def cache_getitem_def cache_len_def cache_total_dict_set_same split: sum.splits option.splits if_splits)
  then show ?thesis using assms(1) cache_get_ok [OF assms(2)] by (auto simp: xc_inv_def cache_valid_def)
qed

lemma set_inv:
  assumes inv: "xc_inv sz c h" and s: "cache_setitem sz now k v c = Inr c'"
  shows "xc_inv sz c' (h(k \<mapsto> v))"
proof -
  have wf: "dict_wf (xc_cache c)" using inv by (simp add: xc_inv_def cache_valid_def)
  let ?c = "c\<lparr>xc_cache := dict_set k (now, v) (xc_cache c)\<rparr>"
  have e: "cache_evict sz ?c = Inr c'" "dict_wf (xc_cache ?c)" using wf s by (simp_all add: cache_setitem_def)
  have "xc_original_max_size c' = xc_original_max_size c" using e(1) by (auto simp: cache_evict_def bindR_eq_Inr)
  moreover have "xc_max_size c' \<noteq> 0 \<longrightarrow> cache_len sz c' \<le> xc_max_size c'" using cache_evict_ok(3,4) [OF e] by simp
  moreover have "(h(k \<mapsto> v)) k' = Some v'" if "cache_lookup c' k' = Some v'" for k' v'
    using cache_put_ok(3) [OF wf s that] inv by (auto simp: xc_inv_def)
  ultimately show ?thesis using inv cache_put_ok(1,2) [OF wf s] by (simp add: xc_inv_def cache_valid_def)
qed

lemma factor_inv:
  assumes inv: "xc_inv sz c h" and f: "0 \<le> f" and s: "set_expiry_cache_factor sz f c = Inr (c', b)"
  shows "xc_inv sz c' h"
proof (cases "c' = c")
  case False
  have wf: "dict_wf (xc_cache c)" and om: "0 \<le> xc_original_max_size c" using inv by (simp_all add: xc_inv_def cache_valid_def)
  let ?c = "c\<lparr>xc_max_size := trunc (of_int (xc_original_max_size c) * f)\<rparr>"
  have e: "cache_evict sz ?c = Inr c'" "dict_wf (xc_cache ?c)"
    using s wf False by (auto simp: set_expiry_cache_factor_def Let_def bindR_eq_Inr split: if_splits)
  have "xc_original_max_size c' = xc_original_max_size c" using e(1) by (auto simp: cache_evict_def bindR_eq_Inr)
  moreover have forget: "cache_forget c c'" unfolding cache_forget_def using s f om by blast
  have "0 \<le> xc_max_size c'" using cache_forget_max [OF wf forget] inv by (simp add: xc_inv_def cache_valid_def)
  ultimately show ?thesis
    using inv cache_evict_ok(3,4) [OF e] cache_forget_ok [OF wf forget] by (auto simp: xc_inv_def cache_valid_def)
qed (use inv in simp)

lemma xc_run_inv:
  assumes "xc_run sz t c h" and sz: "\<And>v. 0 \<le> sz v"
  shows "xc_inv sz c h"
  using assms(1)
proof (induction rule: xc_run.induct)
  case (xc_new f max_len t expiry reset)
  then show ?case by (simp add: xc_inv_def cache_valid_def new_expiring_cache_def cache_lookup_def cache_len_def cache_total_def trunc_def)
next
  case (xc_set t c h now k v c')
  then show ?case by (blast intro: set_inv)
next
  case (xc_get t c h now k c' r)
  then show ?case by (blast intro: get_inv)
next
  case (xc_setdefault t c h now k v c' r)
  show ?case
  proof (cases "cache_getitem now k c")
    case (Inl e)
    then have "cache_setitem sz now k r c = Inr c'" using xc_setdefault.hyps by (auto simp: cache_setdefault_def bindR_eq_Inr)
    then show ?thesis by (rule set_inv [OF xc_setdefault.IH])
  next
    case (Inr p)
    then have "cache_get now k c = (c', Some r)" "cache_lookup c k = Some r"
      using xc_setdefault.hyps cache_getitem_ok(2) [of now k c c' r] by (auto simp: cache_setdefault_def cache_get_def)
    moreover then have "h k = Some r" using xc_setdefault.IH by (simp add: xc_inv_def)
    ultimately show ?thesis using get_inv [OF xc_setdefault.IH] by (simp add: fun_upd_idem)
  qed
next
  case (xc_pop t c h d k c' v)
  have "cache_len sz c' \<le> cache_len sz c" "xc_original_max_size c' = xc_original_max_size c" "xc_max_size c' = xc_max_size c"
    using xc_pop.hyps cache_total_filter [OF sz]
    by (auto simp: cache_pop_def cache_len_def dict_pop_def split: option.splits)
  moreover have "cache_lookup c' k = None" "cache_valid c'"
    using xc_pop by (auto simp: cache_pop_def cache_lookup_def xc_inv_def cache_valid_def split: option.splits)
  moreover have "cache_lookup c k' = Some v'" if "cache_lookup c' k' = Some v'" for k' v'
    using xc_pop that by (auto simp: cache_pop_def cache_lookup_def split: option.splits if_splits)
  ultimately show ?case using xc_pop.IH by (auto simp: xc_inv_def)
next
  case (xc_prune t c h now)
  have "cache_len sz (prune_cache now c) \<le> cache_len sz c" by (simp add: prune_cache_def cache_len_def cache_total_filter [OF sz])
  moreover have "xc_original_max_size (prune_cache now c) = xc_original_max_size c" "xc_max_size (prune_cache now c) = xc_max_size c"
    by (simp_all add: prune_cache_def)
  moreover have "cache_valid (prune_cache now c)"
    using xc_prune.IH by (auto simp: xc_inv_def cache_valid_def prune_cache_def dict_wf_filter)
  ultimately show ?case using xc_prune.IH prune_lookup [of c now] by (auto simp: xc_inv_def cache_valid_def)
next
  case (xc_factor t c h f c' b)
  then show ?case by (blast intro: factor_inv)
qed

text \<open>C40: \<^verbatim>\<open>ExpiringCache\<close>. In every history a cache with a maximal size holds at most that, gives back for a key
  only what was last stored under it, and storing never fails and drops no more of the oldest entries than
  it has to; the periodic pass keeps exactly the entries that were stored or asked for within the
  expiry time.\<close>

theorem expiring_cache_bounded:
  assumes run: "xc_run sz t c h" and sz: "\<forall>v. 0 \<le> sz v"
  shows "(xc_max_size c \<noteq> 0 \<longrightarrow> cache_len sz c \<le> xc_max_size c) \<and>
    (cache_lookup c k = None \<or> cache_lookup c k = h k) \<and>
    (\<exists>c' n. cache_setitem sz now k v c = Inr c' \<and> xc_cache c' = drop n (dict_set k (now, v) (xc_cache c)) \<and>
      (\<forall>i < n. xc_max_size c \<noteq> 0 \<and> xc_max_size c < cache_total sz (drop i (dict_set k (now, v) (xc_cache c))))) \<and>
    (xc_expiry_ms c \<noteq> 0 \<longrightarrow> cache_lookup (prune_cache now c) k =
      (case map_of (xc_cache c) k of Some (t, v) \<Rightarrow> if now - t \<le> xc_expiry_ms c then Some v else None | None \<Rightarrow> None))"
proof (intro conjI)
  have inv: "xc_inv sz c h" using xc_run_inv [OF run] sz by blast
  then have wf: "dict_wf (xc_cache c)" and m: "0 \<le> xc_max_size c" by (simp_all add: xc_inv_def cache_valid_def)
  show "xc_max_size c \<noteq> 0 \<longrightarrow> cache_len sz c \<le> xc_max_size c" using inv by (simp add: xc_inv_def)
  show "cache_lookup c k = None \<or> cache_lookup c k = h k" using inv by (cases "cache_lookup c k") (auto simp: xc_inv_def)
  let ?d = "dict_set k (now, v) (xc_cache c)"
  obtain d' where d': "cache_evict_loop sz (xc_max_size c) ?d = Inr d'" using cache_evict_loop_total [OF m] by blast
  then show "\<exists>c' n. cache_setitem sz now k v c = Inr c' \<and> xc_cache c' = drop n ?d \<and>
      (\<forall>i < n. xc_max_size c \<noteq> 0 \<and> xc_max_size c < cache_total sz (drop i ?d))"
    using cache_evict_loop_suffix [OF d'] by (auto simp: cache_setitem_def cache_evict_def)
  show "xc_expiry_ms c \<noteq> 0 \<longrightarrow> cache_lookup (prune_cache now c) k =
      (case map_of (xc_cache c) k of Some (t, v) \<Rightarrow> if now - t \<le> xc_expiry_ms c then Some v else None | None \<Rightarrow> None)"
    by (auto simp: prune_cache_def cache_lookup_def map_of_filter_wf [OF wf] split: option.splits)
qed

lemma expiring_cache_bounded_witness:
  "\<exists>c. xc_run (\<lambda>v. 1) 5 c [''a'' \<mapsto> 1, ''b'' \<mapsto> 2] \<and> xc_max_size c = 1 \<and> cache_len (\<lambda>v. 1) c \<le> 1 \<and>
    (cache_lookup c ''b'' = None \<or> cache_lookup c ''b'' = Some (2 :: int))"
proof -
  let ?c0 = "new_expiring_cache 1 1 60 True :: (string, int) expiring_cache" and ?c1 = "\<lparr>xc_original_max_size = 1, xc_max_size = 1, xc_expiry_ms = 60,
    xc_reset_expiry_on_get = True, xc_cache = [(''a'', 4, 1 :: int)]\<rparr>" and ?c2 = "\<lparr>xc_original_max_size = 1, xc_max_size = 1, xc_expiry_ms = 60,
    xc_reset_expiry_on_get = True, xc_cache = [(''b'', 5, 2 :: int)]\<rparr>"
  have "xc_run (\<lambda>v. 1) 0 ?c0 Map.empty" by (rule xc_new) simp_all
  moreover have "cache_setitem (\<lambda>v. 1) 4 ''a'' (1 :: int) ?c0 = Inr ?c1" "cache_setitem (\<lambda>v. 1) 5 ''b'' (2 :: int) ?c1 = Inr ?c2"
    by (simp_all add: cache_setitem_def cache_evict_def new_expiring_cache_def cache_total_def trunc_def)
  ultimately have run: "xc_run (\<lambda>v. 1) 5 ?c2 [''a'' \<mapsto> 1, ''b'' \<mapsto> 2]"
    using xc_set [of "\<lambda>v. 1" 0 ?c0 Map.empty 4 "''a''" 1 ?c1] xc_set [of "\<lambda>v. 1" 4 ?c1 "[''a'' \<mapsto> 1]" 5 "''b''" 2 ?c2] by simp
  show ?thesis using run expiring_cache_bounded [OF run, of "''b''"] by (intro exI [of _ ?c2]) simp
qed

text \<open>A factor so small that the size rounds to zero lifts the bound.\<close>

lemma small_factor_unbounded:
  assumes "0 \<le> f" "of_int (xc_original_max_size c) * f < 1" "0 < xc_original_max_size c" "set_expiry_cache_factor sz f c = Inr (c', b)"
  shows "xc_max_size c' = 0" "\<exists>d. cache_setitem sz now k v c' = Inr d \<and> cache_lookup d k = Some v"
proof -
  have "trunc (of_int (xc_original_max_size c) * f) = 0" using assms by (simp add: trunc_def floor_eq_iff)
  then show m: "xc_max_size c' = 0" using assms(4) by (auto simp: set_expiry_cache_factor_def cache_evict_def bindR_eq_Inr split: if_splits)
  have "cache_evict_loop sz 0 d = Inr d" for d :: "('a, int \<times> 'b) dict" by (cases d) simp_all
  then show "\<exists>d. cache_setitem sz now k v c' = Inr d \<and> cache_lookup d k = Some v"
    by (simp add: cache_setitem_def cache_evict_def m cache_lookup_def)
qed

end
