(* ===== verification/State_Handler.thy ===== *)
theory State_Handler
  imports State_Filter Expiring_Cache
begin

text \<open>
  The state handler: \<^verbatim>\<open>synapse/state/__init__.py\<close>, the contexts of \<^verbatim>\<open>synapse/events/snapshot.py\<close> and what they
  use of the state groups of \<^verbatim>\<open>storage/databases/state\<close>. The entries of the state cache are objects that the
  cache and running requests share and that change, so the entries made so far are a list and a reference
  is a place in it. A method is a function on the state of the handler that gives a result or an
  exception, and the state after it. Resolution is an argument, and so is what the store knows of events.
\<close>

section \<open>State and exceptions\<close>

type_synonym ('s, 'a) eff = "'s \<Rightarrow> 'a res \<times> 's"

definition retE :: "'a \<Rightarrow> ('s, 'a) eff" where
  "retE x s = (Inr x, s)"

definition bindE :: "('s, 'a) eff \<Rightarrow> ('a \<Rightarrow> ('s, 'b) eff) \<Rightarrow> ('s, 'b) eff" where
  "bindE m f s = (case m s of (Inl e, s') \<Rightarrow> (Inl e, s') | (Inr x, s') \<Rightarrow> f x s')"

definition liftE :: "'a res \<Rightarrow> ('s, 'a) eff" where
  "liftE r s = (r, s)"

definition getE :: "('s \<Rightarrow> 'a) \<Rightarrow> ('s, 'a) eff" where
  "getE f s = (Inr (f s), s)"

definition setE :: "('s \<Rightarrow> 's) \<Rightarrow> ('s, unit) eff" where
  "setE f s = (Inr (), f s)"

section \<open>State groups\<close>

type_synonym state_map = "(state_key, string) dict"

text \<open>The groups that the tables hold, each with its complete state, and the next number of the sequence.\<close>

record state_store =
  sg_states :: "int \<rightharpoonup> state_map"
  sg_next :: int

definition check_state_groups :: "int set \<Rightarrow> state_store \<Rightarrow> int set" where
  "check_state_groups groups st = groups - dom (sg_states st)"

text \<open>What the handler is given: the size of a state map, what the store answers for a group it does not
  have, the resolution of states, and the tables about events.\<close>

record state_ext =
  sx_map_size :: "state_map \<Rightarrow> int"
  sx_missing_group :: "int \<Rightarrow> state_filter \<Rightarrow> state_map res"
  sx_resolve :: "state_map list \<Rightarrow> state_map res"
  sx_state_groups :: "string list \<Rightarrow> bool \<Rightarrow> (string, int) dict res"
  sx_event_group :: "string \<Rightarrow> int option"
  sx_partial_events :: "string list \<Rightarrow> (string \<times> bool) list"
  sx_partial_room :: "string \<Rightarrow> bool"

definition get_state_ids_for_group :: "state_ext \<Rightarrow> state_store \<Rightarrow> int \<Rightarrow> state_filter option \<Rightarrow> state_map res" where
  "get_state_ids_for_group x st g f =
     (let f = (case f of None \<Rightarrow> ALL_STATE_FILTER | Some f \<Rightarrow> f)
      in case sg_states st g of None \<Rightarrow> sx_missing_group x g f | Some m \<Rightarrow> Inr (filter_state f m))"

definition store_state_group ::
  "state_ext \<Rightarrow> int option \<Rightarrow> state_map option \<Rightarrow> state_map option \<Rightarrow> (state_store, int) eff" where
  "store_state_group x prev_group delta_ids current_state_ids st =
     (let current =
        (case (current_state_ids, prev_group) of
           (None, None) \<Rightarrow> Inl (GenericException ''current_state_ids and prev_group can't both be None'')
         | (None, Some p) \<Rightarrow>
             (case delta_ids of
                None \<Rightarrow> Inl AssertionError
              | Some d \<Rightarrow> bindR (get_state_ids_for_group x st p None) (\<lambda>m. Inr (dict_update m d)))
         | (Some c, Some p) \<Rightarrow> if delta_ids = None then Inl ValueError else Inr c
         | (Some c, None) \<Rightarrow> Inr c)
      in case current of
           Inl e \<Rightarrow> (Inl e, st)
         | Inr c \<Rightarrow>
             if prev_group \<noteq> None \<and> sg_states st (the prev_group) = None
             then (Inl (GenericException ''Trying to persist state with unpersisted prev_group''), st)
             else (Inr (sg_next st), st\<lparr>sg_states := (sg_states st)(sg_next st \<mapsto> c), sg_next := sg_next st + 1\<rparr>))"

section \<open>Cache entries\<close>

record state_cache_entry =
  sce_state :: "state_map option"
  sce_state_group :: "int option"
  sce_prev_group :: "int option"
  sce_delta_ids :: "state_map option"

definition new_state_cache_entry ::
  "state_map option \<Rightarrow> int option \<Rightarrow> int option \<Rightarrow> state_map option \<Rightarrow> state_cache_entry res" where
  "new_state_cache_entry state sgroup prev_group delta_ids =
     (if state = None \<and> sgroup = None \<and> prev_group = None
      then Inl (GenericException ''One of state, state_group or prev_group must be not None'')
      else if prev_group \<noteq> None \<and> delta_ids = None
      then Inl (GenericException ''If prev_group is set so must delta_ids'')
      else Inr \<lparr>sce_state = state, sce_state_group = sgroup, sce_prev_group = prev_group, sce_delta_ids = delta_ids\<rparr>)"

text \<open>A \<^verbatim>\<open>ChainMap\<close> reads and iterates like its last map updated with the first.\<close>

definition sce_get_state :: "state_ext \<Rightarrow> state_store \<Rightarrow> state_filter option \<Rightarrow> state_cache_entry \<Rightarrow> state_map res" where
  "sce_get_state x st f e =
     (case sce_state e of
        Some s \<Rightarrow> Inr s
      | None \<Rightarrow>
          (case sce_state_group e of
             Some g \<Rightarrow> get_state_ids_for_group x st g f
           | None \<Rightarrow>
               (case (sce_prev_group e, sce_delta_ids e) of
                  (Some p, Some d) \<Rightarrow> bindR (get_state_ids_for_group x st p f) (\<lambda>m. Inr (dict_update m d))
                | _ \<Rightarrow> Inl AssertionError)))"

definition sce_set_state_group :: "int \<Rightarrow> state_cache_entry \<Rightarrow> state_cache_entry" where
  "sce_set_state_group g e = e\<lparr>sce_state_group := Some g, sce_state := None\<rparr>"

definition sce_len :: "state_ext \<Rightarrow> state_cache_entry \<Rightarrow> int" where
  "sce_len x e =
     (let count = (\<lambda>m. case m of None \<Rightarrow> 0 | Some d \<Rightarrow> if d = [] then 0 else sx_map_size x d);
          n = count (sce_state e) + count (sce_delta_ids e)
      in if n = 0 then 1 else n)"

fun find_exact :: "string set \<Rightarrow> (int, state_map) dict \<Rightarrow> int option" where
  "find_exact new_ids [] = None"
| "find_exact new_ids ((sg, state) # rest) =
     (if card new_ids \<noteq> length state then find_exact new_ids rest
      else if new_ids = set (map snd state) then Some sg
      else find_exact new_ids rest)"

definition find_closest ::
  "state_map \<Rightarrow> (int, state_map) dict \<Rightarrow> int option \<times> state_map option" where
  "find_closest new_state groups =
     fold (\<lambda>(old_group, old_state) (prev_group, delta_ids).
        if fst ` set old_state - fst ` set new_state \<noteq> {} then (prev_group, delta_ids)
        else
          let n_delta_ids = filter (\<lambda>(k, v). map_of old_state k \<noteq> Some v) new_state
          in if delta_ids = None \<or> delta_ids = Some [] \<or> length n_delta_ids < length (the delta_ids)
             then (Some old_group, Some n_delta_ids) else (prev_group, delta_ids)) groups (None, None)"

definition make_state_cache_entry :: "state_map \<Rightarrow> (int, state_map) dict \<Rightarrow> state_cache_entry res" where
  "make_state_cache_entry new_state groups =
     (case find_exact (set (map snd new_state)) groups of
        Some sg \<Rightarrow> new_state_cache_entry None (Some sg) None None
      | None \<Rightarrow>
          let (prev_group, delta_ids) = find_closest new_state groups
          in if prev_group \<noteq> None then new_state_cache_entry None None prev_group delta_ids
             else new_state_cache_entry (Some new_state) None None None)"

section \<open>Resolution of state groups\<close>

record state_handler =
  sh_entries :: "state_cache_entry list"
  sh_state_cache :: "(int set, nat) expiring_cache"
  sh_store :: state_store

definition new_state_handler :: "rat \<Rightarrow> state_store \<Rightarrow> state_handler" where
  "new_state_handler factor st =
     \<lparr>sh_entries = [], sh_state_cache = new_expiring_cache factor 100000 (60 * 60 * 1000) True, sh_store = st\<rparr>"

definition entry_at :: "nat \<Rightarrow> state_handler \<Rightarrow> state_cache_entry" where
  "entry_at r s = sh_entries s ! r"

definition alloc_entry :: "state_cache_entry \<Rightarrow> (state_handler, nat) eff" where
  "alloc_entry e s = (Inr (length (sh_entries s)), s\<lparr>sh_entries := sh_entries s @ [e]\<rparr>)"

definition update_cache_entry :: "nat \<Rightarrow> (state_cache_entry \<Rightarrow> state_cache_entry) \<Rightarrow> (state_handler, unit) eff" where
  "update_cache_entry r f = setE (\<lambda>s. s\<lparr>sh_entries := (sh_entries s)[r := f (sh_entries s ! r)]\<rparr>)"

definition in_store :: "(state_store, 'a) eff \<Rightarrow> (state_handler, 'a) eff" where
  "in_store m s = (case m (sh_store s) of (r, st) \<Rightarrow> (r, s\<lparr>sh_store := st\<rparr>))"

text \<open>The part of \<^verbatim>\<open>resolve_state_groups\<close> that looks in the cache, and the part that makes an entry.\<close>

definition find_cached_entry :: "int \<Rightarrow> int set \<Rightarrow> (state_handler, nat option) eff" where
  "find_cached_entry now group_names s =
     (let (c, r) = cache_get now group_names (sh_state_cache s); s = s\<lparr>sh_state_cache := c\<rparr>
      in case r of
           None \<Rightarrow> (Inr None, s)
         | Some e \<Rightarrow>
             let to_check = set_option (sce_state_group (entry_at e s)) \<union> set_option (sce_prev_group (entry_at e s))
             in if check_state_groups to_check (sh_store s) = {} then (Inr (Some e), s)
                else (case cache_pop (Some e) group_names c of
                       Inl err \<Rightarrow> (Inl err, s) | Inr (c, v) \<Rightarrow> (Inr None, s\<lparr>sh_state_cache := c\<rparr>)))"

definition cache_new_entry :: "state_ext \<Rightarrow> int \<Rightarrow> (int, state_map) dict \<Rightarrow> state_map \<Rightarrow> (state_handler, nat) eff" where
  "cache_new_entry x now groups new_state =
     bindE (liftE (make_state_cache_entry new_state groups)) (\<lambda>e.
     bindE (alloc_entry e) (\<lambda>r s.
       case cache_setitem (\<lambda>r. sce_len x (entry_at r s)) now (fst ` set groups) r (sh_state_cache s) of
         Inl err \<Rightarrow> (Inl err, s) | Inr c \<Rightarrow> (Inr r, s\<lparr>sh_state_cache := c\<rparr>)))"

definition resolve_state_groups :: "state_ext \<Rightarrow> int \<Rightarrow> (int, state_map) dict \<Rightarrow> (state_handler, nat) eff" where
  "resolve_state_groups x now groups =
     bindE (find_cached_entry now (fst ` set groups)) (\<lambda>cached.
       case cached of
         Some r \<Rightarrow> retE r
       | None \<Rightarrow>
           bindE (getE (\<lambda>s. check_state_groups (fst ` set groups) (sh_store s))) (\<lambda>missing.
           if missing \<noteq> {} then liftE (Inl (GenericException ''State groups have been deleted''))
           else
             bindE (liftE (sx_resolve x (map snd groups))) (\<lambda>new_state.
             cache_new_entry x now groups new_state)))"

text \<open>\<^verbatim>\<open>get_state_for_groups\<close> for the groups of some events, in the order of a set without duplicates.\<close>

definition get_state_for_groups :: "state_ext \<Rightarrow> int list \<Rightarrow> (state_handler, (int, state_map) dict) eff" where
  "get_state_for_groups x gs s =
     (mapR (\<lambda>g. bindR (get_state_ids_for_group x (sh_store s) g None) (\<lambda>m. Inr (g, m))) gs, s)"

definition resolve_state_groups_for_events ::
  "state_ext \<Rightarrow> int \<Rightarrow> string list \<Rightarrow> bool \<Rightarrow> (state_handler, nat) eff" where
  "resolve_state_groups_for_events x now event_ids await_full_state =
     (case sx_state_groups x event_ids await_full_state of
        Inl e \<Rightarrow>
          if e = RuntimeError \<and> \<not> await_full_state
          then bindE (liftE (new_state_cache_entry (Some []) None None None)) alloc_entry
          else liftE (Inl e)
      | Inr state_groups \<Rightarrow>
          (case remdups (map snd state_groups) of
             [g] \<Rightarrow> bindE (liftE (new_state_cache_entry None (Some g) None None)) alloc_entry
           | [] \<Rightarrow> bindE (liftE (new_state_cache_entry (Some []) None None None)) alloc_entry
           | gs \<Rightarrow> bindE (get_state_for_groups x gs) (resolve_state_groups x now)))"

definition compute_state_after_events ::
  "state_ext \<Rightarrow> (string \<Rightarrow> bool) \<Rightarrow> int \<Rightarrow> string list \<Rightarrow> state_filter option \<Rightarrow> bool \<Rightarrow> (state_handler, state_map) eff" where
  "compute_state_after_events x is_mine_id now event_ids f await_full_state =
     (let await_full_state =
        (if await_full_state \<and> (case f of None \<Rightarrow> False | Some f \<Rightarrow> sf_bool f \<and> \<not> must_await_full_state is_mine_id f)
         then False else await_full_state)
      in bindE (resolve_state_groups_for_events x now event_ids await_full_state) (\<lambda>r s.
           (sce_get_state x (sh_store s) f (entry_at r s), s)))"

definition get_hosts_in_room_at_events ::
  "state_ext \<Rightarrow> (state_cache_entry \<Rightarrow> string set) \<Rightarrow> int \<Rightarrow> string list \<Rightarrow> (state_handler, string set) eff" where
  "get_hosts_in_room_at_events x get_joined_hosts now event_ids =
     (let non_outlier = filter (\<lambda>i. sx_event_group x i \<noteq> None) event_ids;
          event_ids = (if length event_ids > 1 \<and> non_outlier \<noteq> [] then remdups non_outlier else event_ids)
      in bindE (resolve_state_groups_for_events x now event_ids True) (\<lambda>r.
         bindE (getE (entry_at r)) (\<lambda>e. retE (get_joined_hosts e))))"

section \<open>Contexts\<close>

record unpersisted_context =
  uc_state_group_before_event :: "int option"
  uc_state_group_after_event :: "int option"
  uc_state_delta_due_to_event :: "state_map option"
  uc_prev_group_for_state_group_before_event :: "int option"
  uc_delta_ids_to_state_group_before_event :: "state_map option"
  uc_partial_state :: bool
  uc_state_map_before_event :: "state_map option"

record event_context =
  ec_state_group_deltas :: "(int \<times> int, state_map) dict"
  ec_rejected :: "string option"
  ec_state_group :: "int option"
  ec_state_group_before_event :: "int option"
  ec_state_delta_due_to_event :: "state_map option"
  ec_app_service :: "string option"
  ec_partial_state :: bool

text \<open>The part of \<^verbatim>\<open>calculate_context_info\<close> that gives an entry a state group: the group, the group and delta
  it is based on, and the state where it had to be loaded. A group is tested by its truth value.\<close>

definition truthy_group :: "int option \<Rightarrow> bool" where
  "truthy_group g \<longleftrightarrow> g \<noteq> None \<and> g \<noteq> Some 0"

definition bump_entry_groups :: "nat \<Rightarrow> (state_handler, unit) eff" where
  "bump_entry_groups r s =
     (let e = entry_at r s
      in if truthy_group (sce_state_group e) then
           (if check_state_groups (set_option (sce_state_group e)) (sh_store s) \<noteq> {}
            then (Inl (GenericException ''Missing state group''), s) else (Inr (), s))
         else if truthy_group (sce_prev_group e) \<and> check_state_groups (set_option (sce_prev_group e)) (sh_store s) \<noteq> {}
         then update_cache_entry r (\<lambda>e. e\<lparr>sce_prev_group := None, sce_delta_ids := None\<rparr>) s
         else (Inr (), s))"

definition ensure_state_group ::
  "state_ext \<Rightarrow> nat \<Rightarrow> (state_handler, int \<times> int option \<times> state_map option \<times> state_map option) eff" where
  "ensure_state_group x r =
     bindE (bump_entry_groups r) (\<lambda>_.
     bindE (getE (entry_at r)) (\<lambda>e.
       case sce_state_group e of
         Some g \<Rightarrow> retE (g, sce_prev_group e, sce_delta_ids e, None)
       | None \<Rightarrow>
           bindE (case sce_prev_group e of
                    Some p \<Rightarrow> retE None
                  | None \<Rightarrow> (\<lambda>s. (bindR (sce_get_state x (sh_store s) (Some ALL_STATE_FILTER) e) (\<lambda>m. Inr (Some m)), s))) (\<lambda>state_ids.
           bindE (in_store (store_state_group x (sce_prev_group e) (sce_delta_ids e) state_ids)) (\<lambda>g.
           bindE (update_cache_entry r (sce_set_state_group g)) (\<lambda>_.
           retE (g, sce_prev_group e, sce_delta_ids e, state_ids))))))"

definition prev_events_of :: "event \<Rightarrow> string list" where
  "prev_events_of ev = remdups (if supports_msc4242_state_dag ev then ev_prev_state_events ev else ev_prev_event_ids ev)"

definition with_state_groups :: "state_ext \<Rightarrow> string list \<Rightarrow> string list" where
  "with_state_groups x prev_event_ids =
     (let non_outlier = filter (\<lambda>i. sx_event_group x i \<noteq> None) prev_event_ids
      in if length prev_event_ids > 1 \<and> non_outlier \<noteq> [] then non_outlier else prev_event_ids)"

text \<open>\<^verbatim>\<open>except RuntimeError\<close> around the resolution.\<close>

definition conflict_on_runtime_error :: "bool \<Rightarrow> (state_handler, 'a) eff \<Rightarrow> (state_handler, 'a) eff" where
  "conflict_on_runtime_error partial m s =
     (case m s of
        (Inl RuntimeError, s') \<Rightarrow>
          (Inl (if partial then SynapseError 409 ''Cannot persist partial state event in un-partial stated room'' else RuntimeError), s')
      | r \<Rightarrow> r)"

text \<open>The first half of \<^verbatim>\<open>calculate_context_info\<close>: the state before the event. The entry that it comes from is kept
  for the second half.\<close>

type_synonym state_before = "int option \<times> int option \<times> state_map option \<times> state_map option \<times> bool \<times> nat option"

definition state_before_event ::
  "state_ext \<Rightarrow> int \<Rightarrow> event \<Rightarrow> state_map option \<Rightarrow> bool option \<Rightarrow> int option \<Rightarrow> (state_handler, state_before) eff" where
  "state_before_event x now ev given partial_state given_group =
     (if given \<notin> {None, Some []} then
        (case partial_state of
           None \<Rightarrow> liftE (Inl AssertionError)
         | Some p \<Rightarrow> retE (given_group, None, None, given, p, None))
      else if partial_state \<noteq> None then liftE (Inl AssertionError)
      else
        let prev_event_ids = prev_events_of ev;
            partial = list_ex snd (sx_partial_events x prev_event_ids)
        in bindE (conflict_on_runtime_error (partial \<or> sx_partial_room x (ev_room_id ev))
             (resolve_state_groups_for_events x now (with_state_groups x prev_event_ids) False)) (\<lambda>r.
           bindE (ensure_state_group x r) (\<lambda>(g, prev_group, delta_ids, state_ids).
           retE (Some g, prev_group, delta_ids, state_ids, partial, Some r))))"

text \<open>The second half, with the value for \<^verbatim>\<open>unsigned["replaces_state"]\<close>.\<close>

definition make_context :: "state_ext \<Rightarrow> event \<Rightarrow> state_before \<Rightarrow> (state_handler, unpersisted_context \<times> string option) eff" where
  "make_context x ev b =
     (case b of (before, prev_group, delta_ids, state_ids, partial, entry) \<Rightarrow>
        let ctx = (\<lambda>after delta. \<lparr>uc_state_group_before_event = before, uc_state_group_after_event = after,
                     uc_state_delta_due_to_event = Some delta, uc_prev_group_for_state_group_before_event = prev_group,
                     uc_delta_ids_to_state_group_before_event = delta_ids, uc_partial_state = partial,
                     uc_state_map_before_event = state_ids\<rparr>)
        in case ev_state_key ev of
             None \<Rightarrow> retE (ctx before [], None)
           | Some k \<Rightarrow>
               bindE (\<lambda>s. (case (state_ids, entry) of
                             (Some m, _) \<Rightarrow> Inr m
                           | (None, Some r) \<Rightarrow>
                               sce_get_state x (sh_store s) (Some (from_types [(ev_type ev, Some k)])) (entry_at r s)
                           | (None, None) \<Rightarrow> Inl NameError, s)) (\<lambda>m.
                 let replaces = map_of m (ev_type ev, k)
                 in retE (ctx None [((ev_type ev, k), ev_event_id ev)],
                      if replaces \<noteq> None \<and> replaces \<noteq> Some [] \<and> replaces \<noteq> Some (ev_event_id ev) then replaces else None)))"

text \<open>The event comes with whether it is an outlier.\<close>

definition calculate_context_info ::
  "state_ext \<Rightarrow> int \<Rightarrow> event \<Rightarrow> bool \<Rightarrow> state_map option \<Rightarrow> bool option \<Rightarrow> int option \<Rightarrow>
   (state_handler, unpersisted_context \<times> string option) eff" where
  "calculate_context_info x now ev outlier given partial_state given_group =
     (if outlier then liftE (Inl AssertionError)
      else bindE (state_before_event x now ev given partial_state given_group) (make_context x ev))"

text \<open>\<^verbatim>\<open>_build_state_group_deltas\<close> and \<^verbatim>\<open>persist\<close>.\<close>

definition build_state_group_deltas :: "unpersisted_context \<Rightarrow> (int \<times> int, state_map) dict res" where
  "build_state_group_deltas u =
     bindR (if truthy_group (uc_state_group_before_event u) \<and> truthy_group (uc_state_group_after_event u) then
              (case uc_state_delta_due_to_event u of
                 None \<Rightarrow> Inl AssertionError
               | Some d \<Rightarrow> Inr [((the (uc_state_group_before_event u), the (uc_state_group_after_event u)), d)])
            else Inr []) (\<lambda>deltas.
     if truthy_group (uc_prev_group_for_state_group_before_event u) \<and> truthy_group (uc_state_group_before_event u) then
       (case uc_delta_ids_to_state_group_before_event u of
          None \<Rightarrow> Inl AssertionError
        | Some d \<Rightarrow> Inr (dict_set (the (uc_prev_group_for_state_group_before_event u), the (uc_state_group_before_event u)) d deltas))
     else Inr deltas)"

definition with_state :: "unpersisted_context \<Rightarrow> (int \<times> int, state_map) dict \<Rightarrow> event_context" where
  "with_state u deltas =
     \<lparr>ec_state_group_deltas = deltas, ec_rejected = None, ec_state_group = uc_state_group_after_event u,
      ec_state_group_before_event = uc_state_group_before_event u, ec_state_delta_due_to_event = uc_state_delta_due_to_event u,
      ec_app_service = None, ec_partial_state = uc_partial_state u\<rparr>"

definition persist_before :: "state_ext \<Rightarrow> unpersisted_context \<Rightarrow> (state_store, int) eff" where
  "persist_before x u =
     (case uc_state_group_before_event u of
        Some g \<Rightarrow> retE g
      | None \<Rightarrow>
          if uc_state_map_before_event u \<in> {None, Some []} then liftE (Inl AssertionError)
          else store_state_group x (uc_prev_group_for_state_group_before_event u)
                 (uc_delta_ids_to_state_group_before_event u) (uc_state_map_before_event u))"

definition persist_after :: "state_ext \<Rightarrow> unpersisted_context \<Rightarrow> int \<Rightarrow> (state_store, int) eff" where
  "persist_after x u before =
     (if uc_state_delta_due_to_event u \<in> {None, Some []} then retE before
      else store_state_group x (Some before) (uc_state_delta_due_to_event u) None)"

definition persist_context :: "state_ext \<Rightarrow> unpersisted_context \<Rightarrow> (state_store, event_context) eff" where
  "persist_context x u =
     bindE (persist_before x u) (\<lambda>before.
     bindE (persist_after x u before) (\<lambda>after.
       let u = u\<lparr>uc_state_group_before_event := Some before, uc_state_group_after_event := Some after\<rparr>
       in liftE (bindR (build_state_group_deltas u) (\<lambda>deltas. Inr (with_state u deltas)))))"

definition compute_event_context ::
  "state_ext \<Rightarrow> int \<Rightarrow> event \<Rightarrow> bool \<Rightarrow> state_map option \<Rightarrow> bool option \<Rightarrow> (state_handler, event_context \<times> string option) eff" where
  "compute_event_context x now ev outlier given partial_state =
     bindE (calculate_context_info x now ev outlier given partial_state None) (\<lambda>(u, replaces).
     bindE (in_store (persist_context x u)) (\<lambda>c. retE (c, replaces)))"


section \<open>Contexts between workers\<close>

text \<open>\<^verbatim>\<open>serialize\<close> and \<^verbatim>\<open>deserialize\<close>, without the payload for a mirrored embedded store. A state map travels as a
  list of triples.\<close>

record serialized_context =
  sz_state_group :: "int option"
  sz_state_group_before_event :: "int option"
  sz_rejected :: "string option"
  sz_state_group_deltas :: "(int \<times> int \<times> (string \<times> string \<times> string) list option) list"
  sz_state_delta_due_to_event :: "(string \<times> string \<times> string) list option"
  sz_app_service_id :: "string option"
  sz_partial_state :: bool

definition encode_state_dict :: "state_map option \<Rightarrow> (string \<times> string \<times> string) list option" where
  "encode_state_dict = map_option (map (\<lambda>((etype, state_key), v). (etype, state_key, v)))"

definition decode_state_dict :: "(string \<times> string \<times> string) list option \<Rightarrow> state_map option" where
  "decode_state_dict = map_option (\<lambda>l. dict_update [] (map (\<lambda>(etype, state_key, v). ((etype, state_key), v)) l))"

definition encode_state_group_delta ::
  "(int \<times> int, state_map) dict \<Rightarrow> (int \<times> int \<times> (string \<times> string \<times> string) list option) list" where
  "encode_state_group_delta ds = map (\<lambda>((a, b), d). (a, b, encode_state_dict (Some d))) ds"

fun decode_state_group_delta ::
  "(int \<times> int, state_map) dict \<Rightarrow> (int \<times> int \<times> (string \<times> string \<times> string) list option) list \<Rightarrow> (int \<times> int, state_map) dict res" where
  "decode_state_group_delta acc [] = Inr acc"
| "decode_state_group_delta acc ((a, b, d) # rest) =
     (case decode_state_dict d of
        None \<Rightarrow> Inl AssertionError
      | Some m \<Rightarrow> decode_state_group_delta (dict_set (a, b) m acc) rest)"

definition serialize :: "event_context \<Rightarrow> serialized_context" where
  "serialize c =
     \<lparr>sz_state_group = ec_state_group c, sz_state_group_before_event = ec_state_group_before_event c, sz_rejected = ec_rejected c,
      sz_state_group_deltas = encode_state_group_delta (ec_state_group_deltas c),
      sz_state_delta_due_to_event = encode_state_dict (ec_state_delta_due_to_event c),
      sz_app_service_id = ec_app_service c, sz_partial_state = ec_partial_state c\<rparr>"

definition deserialize :: "(string \<Rightarrow> string option) \<Rightarrow> serialized_context \<Rightarrow> event_context res" where
  "deserialize get_app_service_by_id i =
     bindR (decode_state_group_delta [] (sz_state_group_deltas i)) (\<lambda>deltas. Inr
       \<lparr>ec_state_group_deltas = deltas, ec_rejected = sz_rejected i, ec_state_group = sz_state_group i,
        ec_state_group_before_event = sz_state_group_before_event i,
        ec_state_delta_due_to_event = decode_state_dict (sz_state_delta_due_to_event i),
        ec_app_service = (if sz_app_service_id i \<in> {None, Some []} then None else get_app_service_by_id (the (sz_app_service_id i))),
        ec_partial_state = sz_partial_state i\<rparr>)"

text \<open>The state group and the state of a context, and the property that raises for a rejected event.\<close>

definition ec_state_group_property :: "event_context \<Rightarrow> int option res" where
  "ec_state_group_property c = (if ec_rejected c \<in> {None, Some []} then Inr (ec_state_group c) else Inl RuntimeError)"

definition ec_get_prev_state_ids :: "state_ext \<Rightarrow> state_store \<Rightarrow> state_filter option \<Rightarrow> event_context \<Rightarrow> state_map res" where
  "ec_get_prev_state_ids x st f c =
     (case ec_state_group_before_event c of None \<Rightarrow> Inr [] | Some g \<Rightarrow> get_state_ids_for_group x st g f)"

definition ec_get_current_state_ids :: "state_ext \<Rightarrow> state_store \<Rightarrow> state_filter option \<Rightarrow> event_context \<Rightarrow> state_map res" where
  "ec_get_current_state_ids x st f c =
     (if ec_rejected c \<notin> {None, Some []} then Inl RuntimeError
      else case ec_state_delta_due_to_event c of
             None \<Rightarrow> Inl AssertionError
           | Some d \<Rightarrow> bindR (ec_get_prev_state_ids x st f c) (\<lambda>m. Inr (dict_update m d)))"

definition uc_get_prev_state_ids :: "state_ext \<Rightarrow> state_store \<Rightarrow> state_filter option \<Rightarrow> unpersisted_context \<Rightarrow> state_map res" where
  "uc_get_prev_state_ids x st f u =
     (case uc_state_map_before_event u of
        Some (kv # kvs) \<Rightarrow> Inr (kv # kvs)
      | _ \<Rightarrow>
          (case uc_state_group_before_event u of
             None \<Rightarrow> Inl AssertionError
           | Some g \<Rightarrow> get_state_ids_for_group x st g f))"

section \<open>Batches\<close>

text \<open>\<^verbatim>\<open>store_state_deltas_for_batched\<close>, for the instance that writes to the embedded store: the groups of the state
  events are taken from the sequence, and each is its predecessor with one change.\<close>

fun batch_groups ::
  "int \<Rightarrow> state_store \<Rightarrow> (event \<times> unpersisted_context) list \<Rightarrow> state_store \<times> (event \<times> unpersisted_context) list" where
  "batch_groups sg_before st [] = (st, [])"
| "batch_groups sg_before st ((ev, u) # rest) =
     (case ev_state_key ev of
        None \<Rightarrow>
          let (st', out) = batch_groups sg_before st rest
          in (st', (ev, u\<lparr>uc_state_group_after_event := Some sg_before, uc_state_group_before_event := Some sg_before\<rparr>) # out)
      | Some k \<Rightarrow>
          let sg_after = sg_next st;
              m = (case sg_states st sg_before of None \<Rightarrow> [] | Some m \<Rightarrow> m);
              st1 = st\<lparr>sg_states := (sg_states st)(sg_after \<mapsto> dict_set (ev_type ev, k) (ev_event_id ev) m), sg_next := sg_after + 1\<rparr>;
              (st', out) = batch_groups sg_after st1 rest
          in (st', (ev, u\<lparr>uc_state_group_after_event := Some sg_after, uc_state_group_before_event := Some sg_before,
                           uc_state_delta_due_to_event := Some [((ev_type ev, k), ev_event_id ev)]\<rparr>) # out))"

definition store_state_deltas_for_batched ::
  "int \<Rightarrow> (event \<times> unpersisted_context) list \<Rightarrow> (state_store, (event \<times> unpersisted_context) list) eff" where
  "store_state_deltas_for_batched prev_group ecs st =
     (if ecs = [] then (Inl IndexError, st)
      else if sg_states st prev_group = None
      then (Inl (GenericException ''Trying to persist state with unpersisted prev_group''), st)
      else case batch_groups prev_group st ecs of (st', out) \<Rightarrow> (Inr out, st'))"

definition batch_persist_unpersisted_contexts ::
  "int \<Rightarrow> (event \<times> unpersisted_context) list \<Rightarrow> (state_store, (event \<times> event_context) list) eff" where
  "batch_persist_unpersisted_contexts last_known_state_group ecs =
     bindE (store_state_deltas_for_batched last_known_state_group ecs) (\<lambda>out.
       liftE (mapR (\<lambda>(ev, u). bindR (build_state_group_deltas u) (\<lambda>ds. Inr (ev, with_state u ds))) out))"

end
