(* ===== verification/State_Handler_Props.thy ===== *)
theory State_Handler_Props
  imports State_Handler "HOL-Library.Sublist"
begin

text \<open>
  What the state handler guarantees: every entry of its cache, and every entry it ever gave to a request,
  describes the state it was made for, whatever happens to the cache and the groups since; and the state
  groups of a context describe the state before and after its event.
\<close>

section \<open>Entries\<close>

text \<open>An event has one type and state key. \<open>C\<close> gives the state of every group that was ever stored.\<close>

definition keyed :: "(string \<Rightarrow> state_key) \<Rightarrow> state_map \<Rightarrow> bool" where
  "keyed kof m \<longleftrightarrow> dict_wf m \<and> (\<forall>(k, v) \<in> set m. kof v = k)"

definition entry_ok ::
  "(string \<Rightarrow> state_key) \<Rightarrow> (int \<rightharpoonup> state_key \<rightharpoonup> string) \<Rightarrow> (state_key \<rightharpoonup> string) \<Rightarrow> state_cache_entry \<Rightarrow> bool" where
  "entry_ok kof C w e \<longleftrightarrow>
     (\<forall>s. sce_state e = Some s \<longrightarrow> keyed kof s \<and> map_of s = w) \<and>
     (\<forall>g. sce_state_group e = Some g \<longrightarrow> C g = Some w) \<and>
     (\<forall>p. sce_prev_group e = Some p \<longrightarrow> (\<exists>d m. sce_delta_ids e = Some d \<and> keyed kof d \<and> C p = Some m \<and> m ++ map_of d = w))"

definition groups_ok :: "(string \<Rightarrow> state_key) \<Rightarrow> (int \<rightharpoonup> state_key \<rightharpoonup> string) \<Rightarrow> (int, state_map) dict \<Rightarrow> bool" where
  "groups_ok kof C groups \<longleftrightarrow> dict_wf groups \<and> (\<forall>(g, m) \<in> set groups. C g = Some (map_of m) \<and> keyed kof m)"

lemma keyed_filter: "keyed kof m \<Longrightarrow> keyed kof (filter P m)"
  by (auto simp: keyed_def dict_wf_filter)

lemma keyed_dict_set: "keyed kof m \<Longrightarrow> kof v = k \<Longrightarrow> keyed kof (dict_set k v m)"
proof -
  have "set (dict_set k v m) \<subseteq> insert (k, v) (set m)" by (rule dict_set_subset)
  then show "keyed kof m \<Longrightarrow> kof v = k \<Longrightarrow> keyed kof (dict_set k v m)" by (auto simp: keyed_def)
qed

lemma keyed_dict_update: "keyed kof m \<Longrightarrow> keyed kof d \<Longrightarrow> keyed kof (dict_update m d)"
proof -
  have "keyed kof (dict_update m d)" if "keyed kof m" "\<forall>(k, v) \<in> set d. kof v = k" for m
    using that by (induction d arbitrary: m) (auto simp: dict_update_def keyed_dict_set)
  then show "keyed kof m \<Longrightarrow> keyed kof d \<Longrightarrow> ?thesis" by (simp add: keyed_def)
qed

text \<open>States with the same events are the same.\<close>

lemma keyed_same_values:
  assumes "keyed kof a" "keyed kof b" "snd ` set a = snd ` set b"
  shows "map_of a = map_of b"
proof -
  have "map_of a k = Some v \<longleftrightarrow> kof v = k \<and> v \<in> snd ` set a" if "keyed kof a" for a k v
    using that by (force simp: keyed_def dict_wf_def)
  then have "map_of a k = Some v \<longleftrightarrow> map_of b k = Some v" for k v using assms by simp
  then show ?thesis by (metis ext not_Some_eq)
qed

lemma find_exact_ok: "find_exact ids groups = Some g \<Longrightarrow> \<exists>m. (g, m) \<in> set groups \<and> ids = snd ` set m"
  by (induction ids groups rule: find_exact.induct) (auto split: if_splits)

lemma delta_restores:
  assumes "keyed kof new" "dict_wf old" "fst ` set old \<subseteq> fst ` set new"
  shows "map_of old ++ map_of (filter (\<lambda>(k, v). map_of old k \<noteq> Some v) new) = map_of new"
proof
  fix k
  have "map_of new k = None \<Longrightarrow> map_of old k = None" using assms(3) by (auto simp: map_of_eq_None_iff)
  then show "(map_of old ++ map_of (filter (\<lambda>(k, v). map_of old k \<noteq> Some v) new)) k = map_of new k"
    using assms(1) by (auto simp: map_add_def keyed_def map_of_filter_wf split: option.splits)
qed

lemma find_closest_ok:
  assumes new: "keyed kof new" and groups: "\<forall>(g, m) \<in> set groups. C g = Some (map_of m) \<and> keyed kof m"
    and r: "find_closest new groups = (Some p, d)"
  shows "p \<in> fst ` set groups \<and> (\<exists>d' m. d = Some d' \<and> keyed kof d' \<and> C p = Some m \<and> m ++ map_of d' = map_of new)"
proof -
  let ?f = "\<lambda>(old_group, old_state) (prev_group, delta_ids).
        if fst ` set old_state - fst ` set new \<noteq> {} then (prev_group, delta_ids)
        else
          let n_delta_ids = filter (\<lambda>(k, v). map_of old_state k \<noteq> Some v) new
          in if delta_ids = None \<or> delta_ids = Some [] \<or> length n_delta_ids < length (the delta_ids)
             then (Some old_group, Some n_delta_ids) else (prev_group, delta_ids)"
  let ?I = "\<lambda>gs (prev_group, delta_ids). \<forall>p. prev_group = Some p \<longrightarrow>
    p \<in> fst ` gs \<and> (\<exists>d' m. delta_ids = Some d' \<and> keyed kof d' \<and> C p = Some m \<and> m ++ map_of d' = map_of new)"
  have step: "?I (insert (g, m) gs) (?f (g, m) acc)" if "?I gs acc" "C g = Some (map_of m)" "keyed kof m" for g m gs acc
  proof (cases "fst ` set m \<subseteq> fst ` set new")
    case True
    have "map_of m ++ map_of (filter (\<lambda>(k, v). map_of m k \<noteq> Some v) new) = map_of new"
      using that(3) by (intro delta_restores [OF new]) (auto simp: keyed_def True)
    then show ?thesis using that True keyed_filter [OF new] by (cases acc) (auto simp: Let_def split: if_splits)
  next
    case False
    then show ?thesis using that by (cases acc) auto
  qed
  have "?I (gs \<union> set groups) (fold ?f groups acc)" if "?I gs acc" for gs acc
    using that groups
  proof (induction groups arbitrary: gs acc)
    case (Cons gm groups)
    obtain g m where gm: "gm = (g, m)" by (cases gm)
    have "?I (insert (g, m) gs) (?f (g, m) acc)" using step Cons.prems by (auto simp: gm)
    from Cons.IH [OF this] Cons.prems(2) show ?case by (simp add: gm)
  qed simp
  from this [of "{}" "(None, None)"] show ?thesis using r unfolding find_closest_def by auto
qed

text \<open>The entry made for a resolved state describes it, and refers to groups that were resolved.\<close>

definition entry_groups :: "state_cache_entry \<Rightarrow> int set" where
  "entry_groups e = set_option (sce_state_group e) \<union> set_option (sce_prev_group e)"

definition void_entry :: "state_cache_entry \<Rightarrow> bool" where
  "void_entry e \<longleftrightarrow> sce_state e = None \<and> sce_state_group e = None \<and> sce_prev_group e = None"

lemma make_entry_ok:
  assumes new: "keyed kof new" and groups: "groups_ok kof C groups"
  shows "\<exists>e. make_state_cache_entry new groups = Inr e \<and> entry_ok kof C (map_of new) e \<and>
    entry_groups e \<subseteq> fst ` set groups \<and> \<not> void_entry e"
proof (cases "find_exact (snd ` set new) groups")
  case (Some g)
  then obtain m where m: "(g, m) \<in> set groups" "snd ` set new = snd ` set m" using find_exact_ok by blast
  then have "C g = Some (map_of m)" "map_of m = map_of new"
    using groups keyed_same_values [OF _ new] by (auto simp: groups_ok_def)
  moreover have "g \<in> fst ` set groups" using m(1) by force
  ultimately show ?thesis using Some
    by (auto simp: make_state_cache_entry_def new_state_cache_entry_def entry_ok_def entry_groups_def void_entry_def)
next
  case None
  obtain p d where pd: "find_closest new groups = (p, d)" by fastforce
  show ?thesis
  proof (cases p)
    case (Some q)
    have "q \<in> fst ` set groups \<and> (\<exists>d' m. d = Some d' \<and> keyed kof d' \<and> C q = Some m \<and> m ++ map_of d' = map_of new)"
      using groups find_closest_ok [OF new, of groups C q d] pd Some by (simp add: groups_ok_def)
    then show ?thesis using None pd Some
      by (auto simp: make_state_cache_entry_def new_state_cache_entry_def entry_ok_def entry_groups_def void_entry_def)
  next
    case c: None
    then show ?thesis using None pd new
      by (auto simp: make_state_cache_entry_def new_state_cache_entry_def entry_ok_def entry_groups_def void_entry_def)
  qed
qed

section \<open>What the store holds, and what an entry gives\<close>

definition store_ok :: "(string \<Rightarrow> state_key) \<Rightarrow> (int \<rightharpoonup> state_key \<rightharpoonup> string) \<Rightarrow> state_store \<Rightarrow> bool" where
  "store_ok kof C st \<longleftrightarrow> (\<forall>g m. sg_states st g = Some m \<longrightarrow> C g = Some (map_of m) \<and> keyed kof m) \<and>
     (\<forall>g \<in> dom C. 0 < g \<and> g < sg_next st) \<and> 0 < sg_next st"

text \<open>Everything stored so far, after the groups of \<open>st\<close> were seen.\<close>

definition learn :: "(int \<rightharpoonup> state_key \<rightharpoonup> string) \<Rightarrow> state_store \<Rightarrow> (int \<rightharpoonup> state_key \<rightharpoonup> string)" where
  "learn C st g = (case sg_states st g of Some m \<Rightarrow> Some (map_of m) | None \<Rightarrow> C g)"

lemma learn_same [simp]: "store_ok kof C st \<Longrightarrow> learn C st = C"
  by (auto simp: store_ok_def learn_def fun_eq_iff split: option.splits)

lemma learn_learn: "sg_states st \<subseteq>\<^sub>m sg_states st' \<Longrightarrow> learn (learn C st) st' = learn C st'"
  by (auto simp: learn_def map_le_def dom_def fun_eq_iff split: option.splits)

lemma filter_state_all [simp]: "filter_state ALL_STATE_FILTER m = m"
  by (simp add: filter_state_def is_full_def ALL_STATE_FILTER_def StateFilter_def)

lemma store_state:
  assumes "store_ok kof C st" "sg_states st g = Some m"
  shows "C g = Some (map_of m)" "keyed kof m"
  using assms by (auto simp: store_ok_def)

lemma filter_state_keyed: "keyed kof m \<Longrightarrow> keyed kof (filter_state f m)"
  by (simp add: filter_state_exact keyed_filter)

lemma map_of_filter_state: "sf_contains f k \<Longrightarrow> map_of (filter_state f m) k = map_of m k"
  using map_of_filter_key [of "sf_contains f" m k] by (simp add: filter_state_exact)

text \<open>An entry whose state or group is there gives the state it describes, at least on the keys asked for.\<close>

definition readable :: "state_store \<Rightarrow> state_cache_entry \<Rightarrow> bool" where
  "readable st e \<longleftrightarrow> sce_state e \<noteq> None \<or>
     (case sce_state_group e of Some g \<Rightarrow> g \<in> dom (sg_states st) | None \<Rightarrow> \<exists>p. sce_prev_group e = Some p \<and> p \<in> dom (sg_states st))"

lemma live_readable: "entry_groups e \<subseteq> dom (sg_states st) \<Longrightarrow> \<not> void_entry e \<Longrightarrow> readable st e"
  by (auto simp: readable_def entry_groups_def void_entry_def split: option.splits)

lemma get_state_right:
  assumes st: "store_ok kof C st" and e: "entry_ok kof C w e" and live: "readable st e"
  shows "\<exists>m. sce_get_state x st f e = Inr m \<and> keyed kof m \<and>
    (\<forall>k. (case f of None \<Rightarrow> True | Some f \<Rightarrow> sf_contains f k) \<longrightarrow> map_of m k = w k)"
proof -
  have all: "sf_contains ALL_STATE_FILTER k" for k by (simp add: sf_contains_def ALL_STATE_FILTER_def StateFilter_def)
  have in_group: "\<exists>m. get_state_ids_for_group x st g f = Inr m \<and> keyed kof m \<and>
      (\<forall>k. (case f of None \<Rightarrow> True | Some f \<Rightarrow> sf_contains f k) \<longrightarrow> map_of m k = v k)"
    if g: "g \<in> dom (sg_states st)" "C g = Some v" for g v
  proof -
    obtain m where m: "sg_states st g = Some m" using g(1) by blast
    then have "v = map_of m" "keyed kof m" using store_state [OF st m] g(2) by simp_all
    then show ?thesis
      using m all filter_state_keyed map_of_filter_state by (cases f) (auto simp: get_state_ids_for_group_def Let_def)
  qed
  consider (state) s where "sce_state e = Some s" | (group) g where "sce_state e = None" "sce_state_group e = Some g"
    | (prev) p where "sce_state e = None" "sce_state_group e = None" "sce_prev_group e = Some p"
    using live unfolding readable_def by (cases "sce_state e"; cases "sce_state_group e") auto
  then show ?thesis
  proof cases
    case state
    then show ?thesis using e by (auto simp: entry_ok_def sce_get_state_def)
  next
    case (group g)
    then have "g \<in> dom (sg_states st)" "C g = Some w" using live e by (auto simp: readable_def entry_ok_def)
    from in_group [OF this] show ?thesis by (simp add: sce_get_state_def group)
  next
    case (prev p)
    then obtain d v where d: "sce_delta_ids e = Some d" "keyed kof d" "C p = Some v" "v ++ map_of d = w"
      using e unfolding entry_ok_def by blast
    have "p \<in> dom (sg_states st)" using live prev by (simp add: readable_def)
    from in_group [OF this d(3)] obtain m where m: "get_state_ids_for_group x st p f = Inr m" "keyed kof m"
      "\<forall>k. (case f of None \<Rightarrow> True | Some f \<Rightarrow> sf_contains f k) \<longrightarrow> map_of m k = v k" by blast
    have "map_of (dict_update m d) k = w k" if "case f of None \<Rightarrow> True | Some f \<Rightarrow> sf_contains f k" for k
    proof -
      have "map_of m k = v k" using m(3) that by blast
      then show ?thesis using d by (auto simp: keyed_def map_add_def split: option.splits)
    qed
    then show ?thesis using m d keyed_dict_update prev by (auto simp: sce_get_state_def)
  qed
qed


section \<open>The invariant of the handler\<close>

text \<open>\<open>ws\<close> lists the states that the entries were made for. The state under some groups in the cache is the
  result of resolving them, in some order.\<close>

definition resolved_for ::
  "(string \<Rightarrow> state_key) \<Rightarrow> state_ext \<Rightarrow> (int \<rightharpoonup> state_key \<rightharpoonup> string) \<Rightarrow> int set \<Rightarrow> (state_key \<rightharpoonup> string) \<Rightarrow> bool" where
  "resolved_for kof x C names w \<longleftrightarrow>
     (\<exists>groups new. groups_ok kof C groups \<and> fst ` set groups = names \<and> sx_resolve x (map snd groups) = Inr new \<and> w = map_of new)"

definition sh_inv ::
  "(string \<Rightarrow> state_key) \<Rightarrow> state_ext \<Rightarrow> (int \<rightharpoonup> state_key \<rightharpoonup> string) \<Rightarrow> (state_key \<rightharpoonup> string) list \<Rightarrow> state_handler \<Rightarrow> bool" where
  "sh_inv kof x C ws s \<longleftrightarrow> store_ok kof C (sh_store s) \<and> list_all2 (entry_ok kof C) ws (sh_entries s) \<and>
     xc.holds (\<lambda>names r. r < length ws \<and> resolved_for kof x C names (ws ! r)) (sh_state_cache s)"

text \<open>Resolution gives every event under its own key.\<close>

definition resolver_ok :: "(string \<Rightarrow> state_key) \<Rightarrow> state_ext \<Rightarrow> bool" where
  "resolver_ok kof x \<longleftrightarrow> (\<forall>ms new. (\<forall>m \<in> set ms. keyed kof m) \<and> sx_resolve x ms = Inr new \<longrightarrow> keyed kof new)"

definition post ::
  "(string \<Rightarrow> state_key) \<Rightarrow> state_ext \<Rightarrow> (int \<rightharpoonup> state_key \<rightharpoonup> string) \<Rightarrow> (state_key \<rightharpoonup> string) list \<Rightarrow> state_handler \<Rightarrow>
   'a res \<times> state_handler \<Rightarrow>
   ((int \<rightharpoonup> state_key \<rightharpoonup> string) \<Rightarrow> (state_key \<rightharpoonup> string) list \<Rightarrow> 'a \<Rightarrow> state_handler \<Rightarrow> bool) \<Rightarrow> bool" where
  "post kof x C ws s rs Q \<longleftrightarrow> sg_states (sh_store s) \<subseteq>\<^sub>m sg_states (sh_store (snd rs)) \<and>
     (\<exists>ws'. prefix ws ws' \<and> sh_inv kof x (learn C (sh_store (snd rs))) ws' (snd rs) \<and>
       (\<forall>y. fst rs = Inr y \<longrightarrow> Q (learn C (sh_store (snd rs))) ws' y (snd rs)))"

lemma groups_ok_mono: "groups_ok kof C groups \<Longrightarrow> C \<subseteq>\<^sub>m C' \<Longrightarrow> groups_ok kof C' groups"
  by (fastforce simp: groups_ok_def map_le_def dom_def)

lemma resolved_for_mono: "resolved_for kof x C names w \<Longrightarrow> C \<subseteq>\<^sub>m C' \<Longrightarrow> resolved_for kof x C' names w"
  unfolding resolved_for_def using groups_ok_mono by blast

lemma map_le_Some: "C \<subseteq>\<^sub>m C' \<Longrightarrow> C g = Some w \<Longrightarrow> C' g = Some w"
  by (metis domI map_le_def)

lemma entry_ok_mono:
  assumes "entry_ok kof C w e" "C \<subseteq>\<^sub>m C'"
  shows "entry_ok kof C' w e"
proof -
  have "C g = Some v \<Longrightarrow> C' g = Some v" for g v by (rule map_le_Some [OF assms(2)])
  then show ?thesis using assms(1) unfolding entry_ok_def by blast
qed

lemma learn_le:
  assumes "store_ok kof C st" "sg_states st \<subseteq>\<^sub>m sg_states st'" "\<And>g. g \<in> dom C \<Longrightarrow> sg_states st g = None \<Longrightarrow> sg_states st' g = None"
  shows "C \<subseteq>\<^sub>m learn C st'"
  unfolding map_le_def
proof
  fix g assume g: "g \<in> dom C"
  show "C g = learn C st' g"
  proof (cases "sg_states st g")
    case None
    then show ?thesis using assms(3) [OF g] by (simp add: learn_def)
  next
    case (Some m)
    then have "sg_states st' g = Some m" using assms(2) map_le_Some by metis
    then show ?thesis using store_state(1) [OF assms(1) Some] by (simp add: learn_def)
  qed
qed

lemma post_return:
  assumes "sh_inv kof x C ws s" "\<And>y. r = Inr y \<Longrightarrow> Q C ws y s"
  shows "post kof x C ws s (r, s) Q"
  using assms by (auto simp: post_def sh_inv_def)

lemma post_bind:
  assumes m: "post kof x C ws s (m s) Q"
    and f: "\<And>C' ws' y s'. m s = (Inr y, s') \<Longrightarrow> C' = learn C (sh_store s') \<Longrightarrow> prefix ws ws' \<Longrightarrow> sh_inv kof x C' ws' s' \<Longrightarrow>
      Q C' ws' y s' \<Longrightarrow> post kof x C' ws' s' (f y s') R"
  shows "post kof x C ws s (bindE m f s) R"
proof -
  obtain r s1 where rs: "m s = (r, s1)" by fastforce
  from m obtain ws1 where le: "sg_states (sh_store s) \<subseteq>\<^sub>m sg_states (sh_store s1)" and ws1: "prefix ws ws1"
    "sh_inv kof x (learn C (sh_store s1)) ws1 s1" "\<And>y. r = Inr y \<Longrightarrow> Q (learn C (sh_store s1)) ws1 y s1"
    by (auto simp: post_def rs)
  show ?thesis
  proof (cases r)
    case (Inl e)
    then show ?thesis using le ws1 by (auto simp: post_def bindE_def rs)
  next
    case (Inr y)
    have "post kof x (learn C (sh_store s1)) ws1 s1 (f y s1) R" using f [OF _ refl ws1(1,2) ws1(3)] rs Inr by blast
    then show ?thesis
      using le ws1(1) map_le_trans [OF le] learn_learn prefix_order.trans [OF ws1(1)] by (fastforce simp: post_def bindE_def rs Inr)
  qed
qed

lemma post_mono: "post kof x C ws s rs Q \<Longrightarrow> (\<And>C' ws' y s'. Q C' ws' y s' \<Longrightarrow> R C' ws' y s') \<Longrightarrow> post kof x C ws s rs R"
  unfolding post_def by blast

section \<open>The operations\<close>

lemma sh_inv_store: "sh_inv kof x C ws s \<Longrightarrow> store_ok kof C (sh_store s)"
  by (simp add: sh_inv_def)

lemma sh_inv_entry: "sh_inv kof x C ws s \<Longrightarrow> r < length ws \<Longrightarrow> entry_ok kof C (ws ! r) (entry_at r s)"
  by (auto simp: sh_inv_def entry_at_def list_all2_conv_all_nth)

lemma sh_inv_length: "sh_inv kof x C ws s \<Longrightarrow> length (sh_entries s) = length ws"
  by (auto simp: sh_inv_def list_all2_lengthD)

lemma sh_inv_cache: "sh_inv kof x C ws s \<Longrightarrow> cache_forget (sh_state_cache s) c \<Longrightarrow> sh_inv kof x C ws (s\<lparr>sh_state_cache := c\<rparr>)"
  using xc.holds_forget by (auto simp: sh_inv_def)

lemma alloc_post:
  assumes inv: "sh_inv kof x C ws s" and e: "entry_ok kof C w e"
  shows "post kof x C ws s (alloc_entry e s) (\<lambda>C' ws' r s'. C' = C \<and> ws' = ws @ [w] \<and> r = length ws \<and>
    s' = s\<lparr>sh_entries := sh_entries s @ [e]\<rparr>)"
proof -
  have "sh_inv kof x C (ws @ [w]) (s\<lparr>sh_entries := sh_entries s @ [e]\<rparr>)"
    using inv e unfolding sh_inv_def by (auto intro!: list_all2_appendI intro: xc.holds_mono simp: nth_append elim!: xc.holds_mono)
  then show ?thesis
    using inv sh_inv_length [OF inv] by (auto simp: post_def alloc_entry_def sh_inv_def)
qed

lemma update_entry_inv:
  assumes inv: "sh_inv kof x C ws s" and r: "r < length ws" and e: "entry_ok kof C (ws ! r) (f (entry_at r s))"
  shows "sh_inv kof x C ws (s\<lparr>sh_entries := (sh_entries s)[r := f (sh_entries s ! r)]\<rparr>)"
  using inv r e by (auto simp: sh_inv_def entry_at_def list_all2_conv_all_nth nth_list_update)


lemma sh_inv_new_group:
  assumes inv: "sh_inv kof x C ws s" and c: "keyed kof c"
  defines "st \<equiv> (sh_store s)\<lparr>sg_states := (sg_states (sh_store s))(sg_next (sh_store s) \<mapsto> c), sg_next := sg_next (sh_store s) + 1\<rparr>"
  shows "sh_inv kof x (learn C st) ws (s\<lparr>sh_store := st\<rparr>)" "learn C st = C(sg_next (sh_store s) \<mapsto> map_of c)"
    "C \<subseteq>\<^sub>m learn C st" "sg_states (sh_store s) \<subseteq>\<^sub>m sg_states st" "C (sg_next (sh_store s)) = None" "0 < sg_next (sh_store s)"
proof -
  note st = sh_inv_store [OF inv]
  show new: "C (sg_next (sh_store s)) = None" "0 < sg_next (sh_store s)" using st by (auto simp: store_ok_def)
  then have new': "sg_states (sh_store s) (sg_next (sh_store s)) = None"
    using store_state(1) [OF st] by (cases "sg_states (sh_store s) (sg_next (sh_store s))") auto
  show L: "learn C st = C(sg_next (sh_store s) \<mapsto> map_of c)"
    using store_state(1) [OF st] by (auto simp: learn_def st_def fun_eq_iff split: option.splits)
  then show le: "C \<subseteq>\<^sub>m learn C st" using new by (auto simp: map_le_def)
  show "sg_states (sh_store s) \<subseteq>\<^sub>m sg_states st" using new' by (auto simp: map_le_def st_def)
  have "0 < g \<and> g < sg_next (sh_store s) + 1" if "g \<in> dom (C(sg_next (sh_store s) \<mapsto> map_of c))" for g
  proof (cases "g = sg_next (sh_store s)")
    case False
    then have "0 < g \<and> g < sg_next (sh_store s)" using that st by (simp add: store_ok_def)
    then show ?thesis by simp
  qed (use new(2) in simp)
  then have "\<forall>g \<in> dom (learn C st). 0 < g \<and> g < sg_next st" unfolding L by (simp add: st_def)
  moreover have "0 < sg_next st" using new(2) by (simp add: st_def)
  moreover have "learn C st g = Some (map_of m) \<and> keyed kof m" if "sg_states st g = Some m" for g m
    using that st c by (auto simp: learn_def st_def store_ok_def split: if_splits)
  ultimately have "store_ok kof (learn C st) st" unfolding store_ok_def by blast
  moreover have "list_all2 (entry_ok kof (learn C st)) ws (sh_entries s)"
    using inv entry_ok_mono [OF _ le] by (auto simp: sh_inv_def elim: list_all2_mono)
  moreover have "xc.holds (\<lambda>names r. r < length ws \<and> resolved_for kof x (learn C st) names (ws ! r)) (sh_state_cache s)"
    using inv resolved_for_mono [OF _ le] by (auto simp: sh_inv_def elim: xc.holds_mono)
  ultimately show "sh_inv kof x (learn C st) ws (s\<lparr>sh_store := st\<rparr>)" by (simp add: sh_inv_def)
qed

definition described_by ::
  "(string \<Rightarrow> state_key) \<Rightarrow> (int \<rightharpoonup> state_key \<rightharpoonup> string) \<Rightarrow> int option \<Rightarrow> state_map option \<Rightarrow> state_map option \<Rightarrow> (state_key \<rightharpoonup> string) \<Rightarrow> bool" where
  "described_by kof C prev_group delta_ids current w \<longleftrightarrow>
     (case current of
        Some c \<Rightarrow> keyed kof c \<and> w = map_of c
      | None \<Rightarrow> \<forall>p d. prev_group = Some p \<and> delta_ids = Some d \<longrightarrow> keyed kof d \<and> (\<exists>m. C p = Some m \<and> w = m ++ map_of d))"

lemma store_post:
  assumes inv: "sh_inv kof x C ws s" and w: "described_by kof C prev_group delta_ids current w"
  shows "post kof x C ws s (in_store (store_state_group x prev_group delta_ids current) s) (\<lambda>C' ws' g s'. ws' = ws \<and> 0 < g \<and>
    C' g = Some w \<and> C g = None \<and> C \<subseteq>\<^sub>m C' \<and> g \<in> dom (sg_states (sh_store s')) \<and> sh_entries s' = sh_entries s \<and> sh_state_cache s' = sh_state_cache s)"
proof -
  obtain r st where rs: "store_state_group x prev_group delta_ids current (sh_store s) = (r, st)" by fastforce
  show ?thesis
  proof (cases r)
    case (Inl e)
    then have "st = sh_store s" using rs by (auto simp: store_state_group_def Let_def split: sum.splits if_splits)
    then show ?thesis using rs Inl inv post_return [OF inv, of "Inl e"] by (simp add: in_store_def)
  next
    case (Inr g)
    then obtain c where c: "g = sg_next (sh_store s)" "st = (sh_store s)\<lparr>sg_states := (sg_states (sh_store s))(sg_next (sh_store s) \<mapsto> c), sg_next := sg_next (sh_store s) + 1\<rparr>"
      "case (current, prev_group) of
           (None, None) \<Rightarrow> False
         | (None, Some p) \<Rightarrow> (\<exists>d m. delta_ids = Some d \<and> get_state_ids_for_group x (sh_store s) p None = Inr m \<and> c = dict_update m d)
         | (Some c', _) \<Rightarrow> c = c'" and there: "prev_group = None \<or> sg_states (sh_store s) (the prev_group) \<noteq> None"
      using rs by (auto simp: store_state_group_def Let_def bindR_eq_Inr split: sum.splits if_splits option.splits prod.splits)
    have "keyed kof c \<and> w = map_of c"
    proof (cases current)
      case None
      then obtain p d m m0 where p: "prev_group = Some p" "delta_ids = Some d" "get_state_ids_for_group x (sh_store s) p None = Inr m"
        "c = dict_update m d" "sg_states (sh_store s) p = Some m0" using c(3) there by (auto split: option.splits)
      then have m: "m = m0" by (simp add: get_state_ids_for_group_def)
      have "keyed kof d" "w = map_of m ++ map_of d"
        using w None p store_state(1) [OF sh_inv_store [OF inv] p(5)] m by (auto simp: described_by_def)
      moreover have "keyed kof m" using m store_state(2) [OF sh_inv_store [OF inv] p(5)] by simp
      moreover have "dict_wf d" using \<open>keyed kof d\<close> by (simp add: keyed_def)
      ultimately show ?thesis unfolding p(4) by (simp add: keyed_dict_update)
    qed (use w c(3) in \<open>auto simp: described_by_def split: option.splits\<close>)
    then have kc: "keyed kof c" and w': "w = map_of c" by simp_all
    have s': "in_store (store_state_group x prev_group delta_ids current) s = (Inr g, s\<lparr>sh_store := st\<rparr>)" using rs Inr by (simp add: in_store_def)
    have "g \<in> dom (sg_states st)" by (simp add: c(1,2))
    moreover have "sh_inv kof x (learn C st) ws (s\<lparr>sh_store := st\<rparr>)" "learn C st = C(g \<mapsto> map_of c)"
      "C \<subseteq>\<^sub>m learn C st" "sg_states (sh_store s) \<subseteq>\<^sub>m sg_states st" "C g = None" "0 < g"
      using sh_inv_new_group [OF inv kc] unfolding c(1,2) by blast+
    ultimately show ?thesis
      unfolding s' post_def by (intro conjI exI [of _ ws]) (simp_all add: w')
  qed
qed

lemma find_cached_post:
  assumes inv: "sh_inv kof x C ws s"
  shows "post kof x C ws s (find_cached_entry now names s) (\<lambda>C' ws' r s'. C' = C \<and> ws' = ws \<and> sh_store s' = sh_store s \<and> sh_entries s' = sh_entries s \<and>
    (\<forall>e. r = Some e \<longrightarrow> e < length ws \<and> resolved_for kof x C names (ws ! e) \<and> entry_groups (entry_at e s') \<subseteq> dom (sg_states (sh_store s))))"
proof -
  obtain c r where g: "cache_get now names (sh_state_cache s) = (c, r)" by fastforce
  have inv1: "sh_inv kof x C ws (s\<lparr>sh_state_cache := c\<rparr>)" using g by (intro sh_inv_cache [OF inv]) (auto simp: cache_forget_def)
  have r: "e < length ws \<and> resolved_for kof x C names (ws ! e)" if "r = Some e" for e
    using inv cache_get_ok(2) [OF g] that by (auto simp: sh_inv_def xc.holds_def)
  show ?thesis
  proof (cases r)
    case None
    then have "find_cached_entry now names s = (Inr None, s\<lparr>sh_state_cache := c\<rparr>)" by (simp add: find_cached_entry_def g)
    then show ?thesis using inv1 sh_inv_store [OF inv] by (auto simp: post_def)
  next
    case (Some e)
    show ?thesis
    proof (cases "check_state_groups (entry_groups (entry_at e s)) (sh_store s) = {}")
      case True
      then have "find_cached_entry now names s = (Inr (Some e), s\<lparr>sh_state_cache := c\<rparr>)"
        using Some by (simp add: find_cached_entry_def g entry_groups_def entry_at_def)
      then show ?thesis using inv1 r [OF Some] True sh_inv_store [OF inv]
        by (auto simp: post_def entry_at_def check_state_groups_def)
    next
      case False
      have look: "map_of (xc_cache c) names \<noteq> None"
        using cache_get_ok(1,2) [OF g] Some by (metis cache_lookup_def option.map(1) option.distinct(1))
      then obtain v where v: "cache_pop (Some e) names c = Inr (c\<lparr>xc_cache := dict_pop names (xc_cache c)\<rparr>, v)"
        by (auto simp: cache_pop_def)
      have "sh_inv kof x C ws (s\<lparr>sh_state_cache := c\<lparr>xc_cache := dict_pop names (xc_cache c)\<rparr>\<rparr>)"
      proof -
        have "cache_forget c (c\<lparr>xc_cache := dict_pop names (xc_cache c)\<rparr>)" unfolding cache_forget_def using v by blast
        then show ?thesis using sh_inv_cache [OF inv1] by simp
      qed
      moreover have "find_cached_entry now names s = (Inr None, s\<lparr>sh_state_cache := c\<lparr>xc_cache := dict_pop names (xc_cache c)\<rparr>\<rparr>)"
        using Some False v by (simp add: find_cached_entry_def g entry_groups_def entry_at_def)
      ultimately show ?thesis using sh_inv_store [OF inv] by (auto simp: post_def)
    qed
  qed
qed


lemma cache_new_entry_post:
  assumes inv: "sh_inv kof x C ws s" and groups: "groups_ok kof C groups" and res: "resolver_ok kof x"
    and new: "sx_resolve x (map snd groups) = Inr new"
  shows "post kof x C ws s (cache_new_entry x now groups new s) (\<lambda>C' ws' r s'. C' = C \<and> r < length ws' \<and> sh_store s' = sh_store s \<and>
    ws' ! r = map_of new \<and> entry_groups (entry_at r s') \<subseteq> fst ` set groups \<and> \<not> void_entry (entry_at r s'))"
proof -
  have "\<forall>m \<in> set (map snd groups). keyed kof m" using groups by (auto simp: groups_ok_def)
  then have "keyed kof new" using res new unfolding resolver_ok_def by blast
  from make_entry_ok [OF this groups] obtain e where e: "make_state_cache_entry new groups = Inr e" "entry_ok kof C (map_of new) e"
    "entry_groups e \<subseteq> fst ` set groups" "\<not> void_entry e" by blast
  let ?s = "s\<lparr>sh_entries := sh_entries s @ [e]\<rparr>" and ?r = "length ws" and ?sz = "\<lambda>r. sce_len x (entry_at r (s\<lparr>sh_entries := sh_entries s @ [e]\<rparr>))"
  have len: "length (sh_entries s) = length ws" by (rule sh_inv_length [OF inv])
  have inv1: "sh_inv kof x C (ws @ [map_of new]) ?s"
    using alloc_post [OF inv e(2)] sh_inv_store [OF inv] by (auto simp: post_def alloc_entry_def)
  have run: "cache_new_entry x now groups new s = (case cache_setitem ?sz now (fst ` set groups) ?r (sh_state_cache s) of
      Inl err \<Rightarrow> (Inl err, ?s) | Inr c \<Rightarrow> (Inr ?r, ?s\<lparr>sh_state_cache := c\<rparr>))"
    by (simp add: cache_new_entry_def bindE_def liftE_def e(1) alloc_entry_def len split: sum.split)
  show ?thesis
  proof (cases "cache_setitem ?sz now (fst ` set groups) ?r (sh_state_cache s)")
    case (Inl err)
    then show ?thesis using run inv1 sh_inv_store [OF inv] by (auto simp: post_def intro!: exI [of _ "ws @ [map_of new]"])
  next
    case (Inr c)
    have "resolved_for kof x C (fst ` set groups) (map_of new)" unfolding resolved_for_def using groups new by blast
    moreover have "cache_put (fst ` set groups) ?r (sh_state_cache ?s) c" using Inr by (auto simp: cache_put_def)
    ultimately have "sh_inv kof x C (ws @ [map_of new]) (?s\<lparr>sh_state_cache := c\<rparr>)"
      using inv1 xc.holds_put [of _ "sh_state_cache ?s" "fst ` set groups" ?r c] by (auto simp: sh_inv_def)
    moreover have "cache_new_entry x now groups new s = (Inr ?r, ?s\<lparr>sh_state_cache := c\<rparr>)" using run Inr by simp
    moreover have "entry_at ?r (?s\<lparr>sh_state_cache := c\<rparr>) = e" by (simp add: entry_at_def nth_append len)
    ultimately show ?thesis using sh_inv_store [OF inv] e(3,4)
      by (auto simp: post_def intro!: exI [of _ "ws @ [map_of new]"])
  qed
qed

text \<open>After resolution the entry gives the resolved state, and the groups it refers to are there. Only an entry
  that a request has emptied gives none.\<close>

definition entry_live :: "nat \<Rightarrow> state_handler \<Rightarrow> bool" where
  "entry_live r s \<longleftrightarrow> entry_groups (entry_at r s) \<subseteq> dom (sg_states (sh_store s))"

definition none_void :: "state_handler \<Rightarrow> bool" where
  "none_void s \<longleftrightarrow> (\<forall>r < length (sh_entries s). \<not> void_entry (entry_at r s))"

lemma resolve_post:
  assumes inv: "sh_inv kof x C ws s" and groups: "groups_ok kof C groups" and res: "resolver_ok kof x"
  shows "post kof x C ws s (resolve_state_groups x now groups s) (\<lambda>C' ws' r s'. C' = C \<and> r < length ws' \<and> sh_store s' = sh_store s \<and>
    resolved_for kof x C (fst ` set groups) (ws' ! r) \<and> entry_live r s' \<and> (none_void s \<longrightarrow> \<not> void_entry (entry_at r s')))"
  unfolding resolve_state_groups_def
proof (rule post_bind [where m = "find_cached_entry now (fst ` set groups)", OF find_cached_post [OF inv]])
  fix C' ws' cached s'
  assume inv': "sh_inv kof x C' ws' s'" and Q: "C' = C \<and> ws' = ws \<and> sh_store s' = sh_store s \<and> sh_entries s' = sh_entries s \<and>
    (\<forall>e. cached = Some e \<longrightarrow> e < length ws \<and> resolved_for kof x C (fst ` set groups) (ws ! e) \<and>
      entry_groups (entry_at e s') \<subseteq> dom (sg_states (sh_store s)))"
  let ?P = "\<lambda>C' ws' r s'. C' = C \<and> r < length ws' \<and> sh_store s' = sh_store s \<and>
    resolved_for kof x C (fst ` set groups) (ws' ! r) \<and> entry_live r s' \<and> (none_void s \<longrightarrow> \<not> void_entry (entry_at r s'))"
  show "post kof x C' ws' s' ((case cached of Some r \<Rightarrow> retE r | None \<Rightarrow>
      bindE (getE (\<lambda>s. check_state_groups (fst ` set groups) (sh_store s))) (\<lambda>missing.
        if missing \<noteq> {} then liftE (Inl (GenericException ''State groups have been deleted''))
        else bindE (liftE (sx_resolve x (map snd groups))) (\<lambda>new_state. cache_new_entry x now groups new_state))) s') ?P"
  proof (cases cached)
    case (Some r)
    then show ?thesis using Q inv' sh_inv_length [OF inv] by (auto simp: retE_def entry_live_def none_void_def entry_at_def intro!: post_return)
  next
    case None
    have C: "C' = C" "ws' = ws" "sh_store s' = sh_store s" using Q by simp_all
    show ?thesis
    proof (cases "check_state_groups (fst ` set groups) (sh_store s') = {} \<and> (\<exists>new. sx_resolve x (map snd groups) = Inr new)")
      case True
      then obtain new where new: "sx_resolve x (map snd groups) = Inr new" and there: "fst ` set groups \<subseteq> dom (sg_states (sh_store s'))"
        by (auto simp: check_state_groups_def)
      have "resolved_for kof x C (fst ` set groups) (map_of new)" unfolding resolved_for_def using groups new by blast
      then have "post kof x C' ws' s' (cache_new_entry x now groups new s') ?P"
        by (intro post_mono [OF cache_new_entry_post [OF inv' groups [folded C(1)] res new]]) (use there C in \<open>simp add: entry_live_def; blast\<close>)
      then show ?thesis
        unfolding None using True by (simp add: bindE_def getE_def liftE_def new)
    next
      case False
      then have "\<exists>e. ((case cached of Some r \<Rightarrow> retE r | None \<Rightarrow>
          bindE (getE (\<lambda>s. check_state_groups (fst ` set groups) (sh_store s))) (\<lambda>missing.
            if missing \<noteq> {} then liftE (Inl (GenericException ''State groups have been deleted''))
            else bindE (liftE (sx_resolve x (map snd groups))) (\<lambda>new_state. cache_new_entry x now groups new_state))) s') = (Inl e, s')"
        using None by (cases "sx_resolve x (map snd groups)") (auto simp: bindE_def getE_def liftE_def)
      then show ?thesis using post_return [OF inv'] by force
    qed
  qed
qed


text \<open>The state after some events: that of their state group, or the result of resolving their groups. Where no group
  is found it is empty; so it is where the look-up raises \<^verbatim>\<open>RuntimeError\<close>, because an event is missing or an outlier,
  and the caller does not wait for full state. For any other error the code gives no state, and none is
  specified.\<close>

definition state_of_events ::
  "(string \<Rightarrow> state_key) \<Rightarrow> state_ext \<Rightarrow> (int \<rightharpoonup> state_key \<rightharpoonup> string) \<Rightarrow> string list \<Rightarrow> bool \<Rightarrow> (state_key \<rightharpoonup> string) \<Rightarrow> bool" where
  "state_of_events kof x C event_ids await_full_state w =
     (case sx_state_groups x event_ids await_full_state of
        Inl e \<Rightarrow> e = RuntimeError \<and> \<not> await_full_state \<and> w = Map.empty
      | Inr sgs \<Rightarrow>
          (case remdups (map snd sgs) of
             [] \<Rightarrow> w = Map.empty
           | [g] \<Rightarrow> C g = Some w
           | _ \<Rightarrow> resolved_for kof x C (snd ` set sgs) w))"

definition groups_known :: "state_ext \<Rightarrow> state_handler \<Rightarrow> bool" where
  "groups_known x s \<longleftrightarrow> (\<forall>ids b sgs. sx_state_groups x ids b = Inr sgs \<longrightarrow> snd ` set sgs \<subseteq> dom (sg_states (sh_store s)))"

lemma get_state_for_groups_ok:
  assumes inv: "sh_inv kof x C ws s" and gs: "distinct gs" "set gs \<subseteq> dom (sg_states (sh_store s))"
  shows "\<exists>groups. get_state_for_groups x gs s = (Inr groups, s) \<and> groups_ok kof C groups \<and> map fst groups = gs"
proof -
  let ?g = "map (\<lambda>g. (g, the (sg_states (sh_store s) g))) gs"
  have "mapR (\<lambda>g. bindR (get_state_ids_for_group x (sh_store s) g None) (\<lambda>m. Inr (g, m))) gs = Inr ?g"
    using gs(2) by (induction gs) (auto simp: get_state_ids_for_group_def)
  moreover have "groups_ok kof C ?g"
    using gs store_state [OF sh_inv_store [OF inv]] by (auto simp: groups_ok_def dict_wf_def o_def)
  ultimately show ?thesis by (intro exI [of _ ?g]) (simp add: get_state_for_groups_def o_def)
qed

lemma new_entry_post:
  assumes inv: "sh_inv kof x C ws s" and e: "new_state_cache_entry st g None None = Inr e" "entry_ok kof C w e"
    and live: "set_option g \<subseteq> dom (sg_states (sh_store s))"
  shows "post kof x C ws s (bindE (liftE (new_state_cache_entry st g None None)) alloc_entry s) (\<lambda>C' ws' r s'. C' = C \<and> r < length ws' \<and>
    sh_store s' = sh_store s \<and> ws' ! r = w \<and> entry_live r s' \<and> \<not> void_entry (entry_at r s'))"
proof -
  have "entry_groups e = set_option g" "\<not> void_entry e"
    using e(1) by (auto simp: new_state_cache_entry_def entry_groups_def void_entry_def split: if_splits)
  then have "post kof x C ws s (alloc_entry e s) (\<lambda>C' ws' r s'. C' = C \<and> r < length ws' \<and>
    sh_store s' = sh_store s \<and> ws' ! r = w \<and> entry_live r s' \<and> \<not> void_entry (entry_at r s'))"
    using live sh_inv_length [OF inv] by (intro post_mono [OF alloc_post [OF inv e(2)]]) (auto simp: entry_live_def entry_at_def nth_append)
  then show ?thesis by (simp add: bindE_def liftE_def e(1))
qed

lemma resolve_for_events_post:
  assumes inv: "sh_inv kof x C ws s" and res: "resolver_ok kof x" and known: "groups_known x s"
  shows "post kof x C ws s (resolve_state_groups_for_events x now event_ids b s) (\<lambda>C' ws' r s'. C' = C \<and> r < length ws' \<and>
    sh_store s' = sh_store s \<and> state_of_events kof x C event_ids b (ws' ! r) \<and> entry_live r s' \<and> (none_void s \<longrightarrow> \<not> void_entry (entry_at r s')))"
proof -
  have empty: "post kof x C ws s (bindE (liftE (new_state_cache_entry (Some []) None None None)) alloc_entry s) (\<lambda>C' ws' r s'. C' = C \<and>
    r < length ws' \<and> sh_store s' = sh_store s \<and> ws' ! r = Map.empty \<and> entry_live r s' \<and> \<not> void_entry (entry_at r s'))"
    by (rule new_entry_post [OF inv]) (auto simp: new_state_cache_entry_def entry_ok_def keyed_def)
  show ?thesis
  proof (cases "sx_state_groups x event_ids b")
    case (Inl e)
    then show ?thesis
      using post_mono [OF empty] post_return [OF inv, of "Inl e"]
      by (auto simp: resolve_state_groups_for_events_def state_of_events_def liftE_def)
  next
    case (Inr sgs)
    have there: "set (remdups (map snd sgs)) \<subseteq> dom (sg_states (sh_store s))" using known Inr by (simp add: groups_known_def)
    consider "remdups (map snd sgs) = []" | g where "remdups (map snd sgs) = [g]"
      | g h gs where "remdups (map snd sgs) = g # h # gs" by (metis list.exhaust)
    then show ?thesis
    proof cases
      case 1
      then show ?thesis
        using post_mono [OF empty] by (auto simp: resolve_state_groups_for_events_def state_of_events_def Inr)
    next
      case (2 g)
      then obtain m where m: "sg_states (sh_store s) g = Some m" using there by auto
      have "post kof x C ws s (bindE (liftE (new_state_cache_entry None (Some g) None None)) alloc_entry s) (\<lambda>C' ws' r s'. C' = C \<and>
          r < length ws' \<and> sh_store s' = sh_store s \<and> ws' ! r = map_of m \<and> entry_live r s' \<and> \<not> void_entry (entry_at r s'))"
        using store_state(1) [OF sh_inv_store [OF inv] m] m
        by (intro new_entry_post [OF inv]) (auto simp: new_state_cache_entry_def entry_ok_def)
      then show ?thesis using 2 store_state(1) [OF sh_inv_store [OF inv] m]
        by (auto simp: resolve_state_groups_for_events_def state_of_events_def Inr elim!: post_mono)
    next
      case (3 g h gs)
      obtain groups where groups: "get_state_for_groups x (g # h # gs) s = (Inr groups, s)" "groups_ok kof C groups" "map fst groups = g # h # gs"
        using get_state_for_groups_ok [OF inv _ there] 3 by (metis distinct_remdups)
      have names: "fst ` set groups = snd ` set sgs" using groups(3) 3 by (metis list.set_map set_remdups)
      have "resolve_state_groups_for_events x now event_ids b s = resolve_state_groups x now groups s"
        by (simp add: resolve_state_groups_for_events_def Inr 3 bindE_def groups(1))
      moreover have "post kof x C ws s (resolve_state_groups x now groups s) (\<lambda>C' ws' r s'. C' = C \<and> r < length ws' \<and>
          sh_store s' = sh_store s \<and> state_of_events kof x C event_ids b (ws' ! r) \<and> entry_live r s' \<and> (none_void s \<longrightarrow> \<not> void_entry (entry_at r s')))"
        by (intro post_mono [OF resolve_post [OF inv groups(2) res]]) (auto simp: state_of_events_def Inr 3 names)
      ultimately show ?thesis by simp
    qed
  qed
qed


lemma bump_post:
  assumes inv: "sh_inv kof x C ws s" and r: "r < length ws"
  shows "post kof x C ws s (bump_entry_groups r s) (\<lambda>C' ws' y s'. C' = C \<and> ws' = ws \<and> sh_store s' = sh_store s \<and>
    (\<forall>g. sce_state_group (entry_at r s') = Some g \<longrightarrow> g \<in> dom (sg_states (sh_store s))) \<and> (entry_live r s \<longrightarrow> s' = s))"
proof -
  let ?e = "entry_at r s" and ?f = "\<lambda>e. e\<lparr>sce_prev_group := None, sce_delta_ids := None\<rparr>"
  note e = sh_inv_entry [OF inv r]
  have truthy: "truthy_group (sce_state_group ?e) \<longleftrightarrow> sce_state_group ?e \<noteq> None"
    using e sh_inv_store [OF inv] by (auto simp: truthy_group_def entry_ok_def store_ok_def)
  show ?thesis
  proof (cases "sce_state_group ?e")
    case (Some g)
    then show ?thesis
      using inv truthy by (auto simp: bump_entry_groups_def check_state_groups_def intro!: post_return)
  next
    case None
    show ?thesis
    proof (cases "truthy_group (sce_prev_group ?e) \<and> check_state_groups (set_option (sce_prev_group ?e)) (sh_store s) \<noteq> {}")
      case True
      let ?s = "s\<lparr>sh_entries := (sh_entries s)[r := ?f (sh_entries s ! r)]\<rparr>"
      have "bump_entry_groups r s = (Inr (), ?s)"
        using None True truthy by (simp add: bump_entry_groups_def update_cache_entry_def setE_def Let_def)
      moreover have "sh_inv kof x C ws ?s" using e by (intro update_entry_inv [OF inv r]) (auto simp: entry_ok_def)
      moreover have "sce_state_group (entry_at r ?s) = None" using None r sh_inv_length [OF inv] by (simp add: entry_at_def)
      moreover have "\<not> entry_live r s" using True by (auto simp: entry_live_def entry_groups_def check_state_groups_def)
      ultimately show ?thesis using sh_inv_store [OF inv] by (auto simp: post_def)
    next
      case False
      then have "bump_entry_groups r s = (Inr (), s)" using None truthy by (auto simp: bump_entry_groups_def Let_def)
      then show ?thesis using None inv by (auto intro!: post_return)
    qed
  qed
qed

definition based_on ::
  "(string \<Rightarrow> state_key) \<Rightarrow> (int \<rightharpoonup> state_key \<rightharpoonup> string) \<Rightarrow> (state_key \<rightharpoonup> string) \<Rightarrow> int option \<Rightarrow> state_map option \<Rightarrow> bool" where
  "based_on kof C w prev_group delta_ids \<longleftrightarrow>
     (\<forall>p. prev_group = Some p \<longrightarrow> (\<exists>d m. delta_ids = Some d \<and> keyed kof d \<and> C p = Some m \<and> m ++ map_of d = w))"

lemma based_on_mono:
  assumes "based_on kof C w p d" "C \<subseteq>\<^sub>m C'"
  shows "based_on kof C' w p d"
  unfolding based_on_def
proof (intro allI impI)
  fix q assume "p = Some q"
  then obtain e m where "d = Some e" "keyed kof e" "C q = Some m" "m ++ map_of e = w"
    using assms(1) unfolding based_on_def by blast
  then show "\<exists>e m. d = Some e \<and> keyed kof e \<and> C' q = Some m \<and> m ++ map_of e = w"
    using map_le_Some [OF assms(2)] by blast
qed

lemma entry_based_on: "entry_ok kof C w e \<Longrightarrow> based_on kof C w (sce_prev_group e) (sce_delta_ids e)"
  by (simp add: entry_ok_def based_on_def)

lemma load_state_ok:
  assumes "entry_ok kof C w e" "sce_state_group e = None" "sce_prev_group e = None" "sce_get_state x st f e = Inr m"
  shows "keyed kof m \<and> map_of m = w"
  using assms by (auto simp: sce_get_state_def entry_ok_def split: option.splits)

lemma give_group_post:
  assumes inv: "sh_inv kof x C ws s" and r: "r < length ws" and e: "e = entry_at r s" "sce_state_group e = None"
    and ids: "case sce_prev_group e of Some p \<Rightarrow> ids = None | None \<Rightarrow> (\<exists>m. ids = Some m \<and> keyed kof m \<and> map_of m = ws ! r)"
  shows "post kof x C ws s (bindE (in_store (store_state_group x (sce_prev_group e) (sce_delta_ids e) ids)) (\<lambda>g.
      bindE (update_cache_entry r (sce_set_state_group g)) (\<lambda>_. retE (g, sce_prev_group e, sce_delta_ids e, ids))) s)
    (\<lambda>C' ws' (g, p, d, ids) s'. ws' = ws \<and> C' g = Some (ws ! r) \<and> 0 < g \<and> g \<in> dom (sg_states (sh_store s')) \<and>
      sce_state_group (entry_at r s') = Some g \<and> based_on kof C' (ws ! r) p d \<and> (\<forall>m. ids = Some m \<longrightarrow> keyed kof m \<and> map_of m = ws ! r) \<and> C \<subseteq>\<^sub>m C')"
proof -
  note ok = sh_inv_entry [OF inv r]
  have "described_by kof C (sce_prev_group e) (sce_delta_ids e) ids (ws ! r)"
    using ids ok unfolding described_by_def e(1) by (cases "sce_prev_group (entry_at r s)") (auto simp: entry_ok_def)
  note sp = store_post [OF inv this]
  show ?thesis
  proof (rule post_bind [where m = "in_store (store_state_group x (sce_prev_group e) (sce_delta_ids e) ids)", OF sp])
    fix C' ws' g s'
    assume inv': "sh_inv kof x C' ws' s'" and Q: "ws' = ws \<and> 0 < g \<and> C' g = Some (ws ! r) \<and> C g = None \<and> C \<subseteq>\<^sub>m C' \<and>
      g \<in> dom (sg_states (sh_store s')) \<and> sh_entries s' = sh_entries s \<and> sh_state_cache s' = sh_state_cache s"
    let ?s = "s'\<lparr>sh_entries := (sh_entries s')[r := sce_set_state_group g (sh_entries s' ! r)]\<rparr>"
    have le: "C \<subseteq>\<^sub>m C'" and r': "r < length ws'" and ws: "ws' = ws" using Q r by simp_all
    have "entry_ok kof C' (ws' ! r) (sce_set_state_group g (entry_at r s'))"
      using sh_inv_entry [OF inv' r'] Q unfolding entry_ok_def sce_set_state_group_def by simp
    then have "sh_inv kof x C' ws' ?s" by (rule update_entry_inv [OF inv' r'])
    moreover have "sce_state_group (entry_at r ?s) = Some g"
      using r' sh_inv_length [OF inv'] by (simp add: entry_at_def sce_set_state_group_def)
    moreover have "based_on kof C' (ws ! r) (sce_prev_group e) (sce_delta_ids e)"
      unfolding e(1) by (rule based_on_mono [OF entry_based_on [OF ok] le])
    moreover have "\<forall>m. ids = Some m \<longrightarrow> keyed kof m \<and> map_of m = ws ! r" using ids by (auto split: option.splits)
    moreover have "bindE (update_cache_entry r (sce_set_state_group g)) (\<lambda>_. retE (g, sce_prev_group e, sce_delta_ids e, ids)) s' =
        (Inr (g, sce_prev_group e, sce_delta_ids e, ids), ?s)"
      by (simp add: bindE_def update_cache_entry_def setE_def retE_def)
    ultimately show "post kof x C' ws' s' (bindE (update_cache_entry r (sce_set_state_group g)) (\<lambda>_. retE (g, sce_prev_group e, sce_delta_ids e, ids)) s')
      (\<lambda>C' ws' (g, p, d, ids) s'. ws' = ws \<and> C' g = Some (ws ! r) \<and> 0 < g \<and> g \<in> dom (sg_states (sh_store s')) \<and>
        sce_state_group (entry_at r s') = Some g \<and> based_on kof C' (ws ! r) p d \<and> (\<forall>m. ids = Some m \<longrightarrow> keyed kof m \<and> map_of m = ws ! r) \<and> C \<subseteq>\<^sub>m C')"
      using Q sh_inv_store [OF inv'] unfolding post_def by (intro conjI exI [of _ ws']) simp_all
  qed
qed


definition group_given ::
  "(string \<Rightarrow> state_key) \<Rightarrow> (state_key \<rightharpoonup> string) \<Rightarrow> nat \<Rightarrow> (int \<rightharpoonup> state_key \<rightharpoonup> string) \<Rightarrow>
   int \<times> int option \<times> state_map option \<times> state_map option \<Rightarrow> state_handler \<Rightarrow> bool" where
  "group_given kof w r C y s \<longleftrightarrow> (case y of (g, p, d, ids) \<Rightarrow> C g = Some w \<and> 0 < g \<and> g \<in> dom (sg_states (sh_store s)) \<and>
     sce_state_group (entry_at r s) = Some g \<and> based_on kof C w p d \<and> (\<forall>m. ids = Some m \<longrightarrow> keyed kof m \<and> map_of m = w))"

lemma ensure_post:
  assumes inv: "sh_inv kof x C ws s" and r: "r < length ws"
  shows "post kof x C ws s (ensure_state_group x r s) (\<lambda>C' ws' y s'. ws' = ws \<and> group_given kof (ws ! r) r C' y s' \<and> C \<subseteq>\<^sub>m C')"
  unfolding ensure_state_group_def
proof (rule post_bind [where m = "bump_entry_groups r", OF bump_post [OF inv r]])
  fix C' ws' s' and y :: unit
  assume inv': "sh_inv kof x C' ws' s'" and "C' = C \<and> ws' = ws \<and> sh_store s' = sh_store s \<and>
    (\<forall>g. sce_state_group (entry_at r s') = Some g \<longrightarrow> g \<in> dom (sg_states (sh_store s))) \<and> (entry_live r s \<longrightarrow> s' = s)"
  then have Q: "C' = C" "ws' = ws" "sh_store s' = sh_store s"
    "\<And>g. sce_state_group (entry_at r s') = Some g \<Longrightarrow> g \<in> dom (sg_states (sh_store s))" by simp_all
  let ?e = "entry_at r s'"
  have r': "r < length ws'" using r Q(2) by simp
  note ok = sh_inv_entry [OF inv' r']
  let ?load = "case sce_prev_group ?e of Some p \<Rightarrow> retE None
    | None \<Rightarrow> (\<lambda>s. (bindR (sce_get_state x (sh_store s) (Some ALL_STATE_FILTER) ?e) (\<lambda>m. Inr (Some m)), s))"
  let ?Q = "\<lambda>C'' ws'' y s''. ws'' = ws \<and> group_given kof (ws ! r) r C'' y s'' \<and> C \<subseteq>\<^sub>m C''"
  show "post kof x C' ws' s' (bindE (getE (entry_at r)) (\<lambda>e. case sce_state_group e of
         Some g \<Rightarrow> retE (g, sce_prev_group e, sce_delta_ids e, None)
       | None \<Rightarrow>
           bindE (case sce_prev_group e of
                    Some p \<Rightarrow> retE None
                  | None \<Rightarrow> (\<lambda>s. (bindR (sce_get_state x (sh_store s) (Some ALL_STATE_FILTER) e) (\<lambda>m. Inr (Some m)), s))) (\<lambda>state_ids.
           bindE (in_store (store_state_group x (sce_prev_group e) (sce_delta_ids e) state_ids)) (\<lambda>g.
           bindE (update_cache_entry r (sce_set_state_group g)) (\<lambda>_.
           retE (g, sce_prev_group e, sce_delta_ids e, state_ids))))) s') ?Q"
  proof (cases "sce_state_group ?e")
    case (Some g)
    then have "C g = Some (ws ! r)" using ok Q by (simp add: entry_ok_def)
    moreover then have "0 < g" using sh_inv_store [OF inv] by (auto simp: store_ok_def)
    ultimately show ?thesis
      using Some Q entry_based_on [OF ok] inv' by (auto simp: bindE_def getE_def retE_def group_given_def intro!: post_return)
  next
    case None
    show ?thesis
    proof (cases "?load s'")
      case (Pair res s1)
      have s1: "s1 = s'" using Pair by (auto simp: retE_def split: option.splits)
      show ?thesis
      proof (cases res)
        case (Inl err)
        then show ?thesis using Pair None post_return [OF inv', of "Inl err"] by (simp add: bindE_def getE_def s1)
      next
        case (Inr ids)
        have "case sce_prev_group ?e of Some p \<Rightarrow> ids = None | None \<Rightarrow> (\<exists>m. ids = Some m \<and> keyed kof m \<and> map_of m = ws' ! r)"
          using Pair Inr load_state_ok [OF ok None] by (auto simp: retE_def bindR_eq_Inr split: option.splits)
        from give_group_post [OF inv' r' refl None this] have "post kof x C' ws' s' (bindE (in_store (store_state_group x (sce_prev_group ?e) (sce_delta_ids ?e) ids)) (\<lambda>g.
            bindE (update_cache_entry r (sce_set_state_group g)) (\<lambda>_. retE (g, sce_prev_group ?e, sce_delta_ids ?e, ids))) s') ?Q"
          by (rule post_mono) (auto simp: group_given_def Q)
        then show ?thesis using Pair None Inr by (simp add: bindE_def [of "getE (entry_at r)"] bindE_def [of ?load] getE_def s1)
      qed
    qed
  qed
qed


section \<open>Histories of the handler\<close>

text \<open>What can happen between two waits of the requests that use the handler: they look in the cache, store the
  result of a resolution, make entries for events, give an entry a state group; others store and delete
  groups, and the cache forgets entries. \<open>C\<close> has every group that was ever stored.\<close>

inductive sh_run ::
  "(string \<Rightarrow> state_key) \<Rightarrow> state_ext \<Rightarrow> (int \<rightharpoonup> state_key \<rightharpoonup> string) \<Rightarrow> state_handler \<Rightarrow> bool" for kof x where
  sh_new: "store_ok kof C st \<Longrightarrow> 0 \<le> f \<Longrightarrow> sh_run kof x C (new_state_handler f st)"
| sh_find: "sh_run kof x C s \<Longrightarrow> find_cached_entry now names s = (y, s') \<Longrightarrow> sh_run kof x C s'"
| sh_insert: "sh_run kof x C s \<Longrightarrow> groups_ok kof C groups \<Longrightarrow> sx_resolve x (map snd groups) = Inr new \<Longrightarrow>
    cache_new_entry x now groups new s = (y, s') \<Longrightarrow> sh_run kof x C s'"
| sh_events: "sh_run kof x C s \<Longrightarrow> groups_known x s \<Longrightarrow> resolve_state_groups_for_events x now ids b s = (y, s') \<Longrightarrow> sh_run kof x C s'"
| sh_ensure: "sh_run kof x C s \<Longrightarrow> r < length (sh_entries s) \<Longrightarrow> ensure_state_group x r s = (y, s') \<Longrightarrow>
    sh_run kof x (learn C (sh_store s')) s'"
| sh_other: "sh_run kof x C s \<Longrightarrow> described_by kof C p d c w \<Longrightarrow> in_store (store_state_group x p d c) s = (y, s') \<Longrightarrow>
    sh_run kof x (learn C (sh_store s')) s'"
| sh_delete: "sh_run kof x C s \<Longrightarrow> sh_run kof x C (s\<lparr>sh_store := (sh_store s)\<lparr>sg_states := sg_states (sh_store s) |` keep\<rparr>\<rparr>)"
| sh_forget: "sh_run kof x C s \<Longrightarrow> cache_forget (sh_state_cache s) c \<Longrightarrow> sh_run kof x C (s\<lparr>sh_state_cache := c\<rparr>)"

lemma post_inv: "post kof x C ws s (y, s') Q \<Longrightarrow> \<exists>ws'. sh_inv kof x (learn C (sh_store s')) ws' s'"
  by (auto simp: post_def)

lemma post_same_store:
  assumes "sh_inv kof x C ws s" "post kof x C ws s (y, s') Q" "sh_store s' = sh_store s"
  shows "\<exists>ws'. sh_inv kof x C ws' s'"
  using post_inv [OF assms(2)] assms(1,3) sh_inv_store by fastforce

lemma find_cached_store: "sh_store (snd (find_cached_entry now names s)) = sh_store s"
  by (auto simp: find_cached_entry_def Let_def split: prod.splits option.splits sum.splits)

lemma cache_new_entry_store: "sh_store (snd (cache_new_entry x now groups new s)) = sh_store s"
  by (auto simp: cache_new_entry_def bindE_def liftE_def alloc_entry_def split: prod.splits sum.splits)

lemma new_entry_store: "sh_store (snd (bindE (liftE e) alloc_entry s)) = sh_store s"
  by (auto simp: bindE_def liftE_def alloc_entry_def split: sum.splits)

lemma bind_store:
  "sh_store (snd (m s)) = sh_store s \<Longrightarrow> (\<And>y s'. sh_store (snd (f y s')) = sh_store s') \<Longrightarrow> sh_store (snd (bindE m f s)) = sh_store s"
  by (auto simp: bindE_def split: prod.splits sum.splits)

lemma resolve_store: "sh_store (snd (resolve_state_groups x now groups s)) = sh_store s"
  unfolding resolve_state_groups_def
  by (intro bind_store find_cached_store)
    (auto simp: retE_def liftE_def getE_def intro!: bind_store cache_new_entry_store split: option.splits)

lemma resolve_for_events_store: "sh_store (snd (resolve_state_groups_for_events x now ids b s)) = sh_store s"
  by (auto simp: resolve_state_groups_for_events_def new_entry_store liftE_def get_state_for_groups_def
      intro!: bind_store resolve_store split: sum.splits list.splits)

lemma sh_run_inv:
  assumes "sh_run kof x C s" and res: "resolver_ok kof x"
  shows "\<exists>ws. sh_inv kof x C ws s"
  using assms(1)
proof (induction rule: sh_run.induct)
  case (sh_new C st f)
  then have "sh_inv kof x C [] (new_state_handler f st)"
    by (simp add: sh_inv_def new_state_handler_def xc.holds_def cache_valid_def new_expiring_cache_def cache_lookup_def trunc_def)
  then show ?case by blast
next
  case (sh_find C s now names y s')
  then obtain ws where inv: "sh_inv kof x C ws s" by blast
  show ?case using post_same_store [OF inv] find_cached_post [OF inv, of now names] find_cached_store [of now names s] sh_find.hyps by simp
next
  case (sh_insert C s groups new now y s')
  then obtain ws where inv: "sh_inv kof x C ws s" by blast
  show ?case
    using post_same_store [OF inv] cache_new_entry_post [OF inv sh_insert.hyps(2) res sh_insert.hyps(3), of now] sh_insert.hyps(4)
      cache_new_entry_store [of x now groups new s] by simp
next
  case (sh_events C s now ids b y s')
  then obtain ws where inv: "sh_inv kof x C ws s" by blast
  show ?case
    using post_same_store [OF inv] resolve_for_events_post [OF inv res sh_events.hyps(2), of now ids b] sh_events.hyps(3)
      resolve_for_events_store [of x now ids b s] by simp
next
  case (sh_ensure C s r y s')
  then obtain ws where inv: "sh_inv kof x C ws s" by blast
  then have "r < length ws" using sh_ensure.hyps(2) sh_inv_length [OF inv] by simp
  from post_inv [OF ensure_post [OF inv this, unfolded sh_ensure.hyps(3)]] show ?case .
next
  case (sh_other C s p d c w y s')
  then obtain ws where inv: "sh_inv kof x C ws s" by blast
  from post_inv [OF store_post [OF inv sh_other.hyps(2), unfolded sh_other.hyps(3)]] show ?case .
next
  case (sh_delete C s keep)
  then obtain ws where inv: "sh_inv kof x C ws s" by blast
  then have "store_ok kof C ((sh_store s)\<lparr>sg_states := sg_states (sh_store s) |` keep\<rparr>)"
    by (auto simp: sh_inv_def store_ok_def restrict_map_def split: if_splits)
  then have "sh_inv kof x C ws (s\<lparr>sh_store := (sh_store s)\<lparr>sg_states := sg_states (sh_store s) |` keep\<rparr>\<rparr>)"
    using inv by (simp add: sh_inv_def)
  then show ?case by blast
next
  case (sh_forget C s c)
  then show ?case using sh_inv_cache by blast
qed


lemma void_state: "void_entry e \<Longrightarrow> sce_get_state x st f e = Inl AssertionError"
  by (simp add: void_entry_def sce_get_state_def)

lemma cache_new_entry_returns:
  assumes inv: "sh_inv kof x C ws s" and groups: "groups_ok kof C groups" and res: "resolver_ok kof x"
    and new: "sx_resolve x (map snd groups) = Inr new"
  shows "\<exists>r s'. cache_new_entry x now groups new s = (Inr r, s')"
proof -
  have "\<forall>m \<in> set (map snd groups). keyed kof m" using groups by (auto simp: groups_ok_def)
  then have "keyed kof new" using res new unfolding resolver_ok_def by blast
  then obtain e where e: "make_state_cache_entry new groups = Inr e" using make_entry_ok [OF _ groups] by blast
  have "0 \<le> xc_max_size (sh_state_cache s)" using inv by (simp add: sh_inv_def xc.holds_def cache_valid_def)
  then have "\<exists>c. cache_setitem (\<lambda>r. sce_len x (entry_at r (s\<lparr>sh_entries := sh_entries s @ [e]\<rparr>))) now (fst ` set groups)
      (length (sh_entries s)) (sh_state_cache s) = Inr c"
    by (rule cache_setitem_returns)
  then show ?thesis by (auto simp: cache_new_entry_def bindE_def liftE_def e alloc_entry_def)
qed

lemma resolve_returns:
  assumes inv: "sh_inv kof x C ws s" and groups: "groups_ok kof C groups" and res: "resolver_ok kof x"
    and there: "fst ` set groups \<subseteq> dom (sg_states (sh_store s))" and new: "sx_resolve x (map snd groups) = Inr new"
  shows "\<exists>r s'. resolve_state_groups x now groups s = (Inr r, s')"
proof -
  obtain y s1 where f: "find_cached_entry now (fst ` set groups) s = (y, s1)" by fastforce
  have "post kof x C ws s (y, s1) (\<lambda>C' ws' r s'. C' = C)"
    by (rule post_mono [OF find_cached_post [OF inv, of now "fst ` set groups", unfolded f]]) simp
  then obtain ws1 where inv1: "sh_inv kof x C ws1 s1"
    using post_same_store [OF inv] find_cached_store [of now "fst ` set groups" s] f by fastforce
  have "\<exists>z. y = Inr z"
    using f by (auto simp: find_cached_entry_def Let_def cache_pop_def cache_get_def cache_getitem_def
        split: prod.splits option.splits sum.splits if_splits)
  then obtain z where z: "y = Inr z" by blast
  have st: "sh_store s1 = sh_store s" using find_cached_store [of now "fst ` set groups" s] f by simp
  show ?thesis
  proof (cases z)
    case None
    then show ?thesis
      using cache_new_entry_returns [OF inv1 groups res new] there
      by (auto simp: resolve_state_groups_def bindE_def f z getE_def liftE_def new check_state_groups_def st)
  qed (simp add: resolve_state_groups_def bindE_def f z retE_def)
qed

text \<open>C38: The state cache. Whatever requests resolve, store and delete in whatever order, and whatever the cache
  forgets, resolving some state groups gives an entry whose state is a result of resolving exactly the
  states of these groups, on every key that is asked for; only an entry that a request has emptied gives
  \<^verbatim>\<open>AssertionError\<close>. While the groups are there, it returns whenever resolution does.\<close>

theorem state_cache_sound:
  assumes run: "sh_run kof x C s" and res: "resolver_ok kof x" and groups: "groups_ok kof C groups"
  shows "(\<forall>r s'. resolve_state_groups x now groups s = (Inr r, s') \<longrightarrow> (\<exists>w. resolved_for kof x C (fst ` set groups) w \<and>
      (if void_entry (entry_at r s') then sce_get_state x (sh_store s') f (entry_at r s') = Inl AssertionError
       else \<exists>m. sce_get_state x (sh_store s') f (entry_at r s') = Inr m \<and>
         (\<forall>k. (case f of None \<Rightarrow> True | Some f \<Rightarrow> sf_contains f k) \<longrightarrow> map_of m k = w k)))) \<and>
    (fst ` set groups \<subseteq> dom (sg_states (sh_store s)) \<and> (\<exists>new. sx_resolve x (map snd groups) = Inr new) \<longrightarrow>
      (\<exists>r s'. resolve_state_groups x now groups s = (Inr r, s')))"
proof (intro conjI allI impI)
  obtain ws where inv: "sh_inv kof x C ws s" using sh_run_inv [OF run res] by blast
  {
    fix r s' assume r: "resolve_state_groups x now groups s = (Inr r, s')"
    from resolve_post [OF inv groups res, of now] obtain ws' where ws': "sh_inv kof x C ws' s'" "r < length ws'"
      "resolved_for kof x C (fst ` set groups) (ws' ! r)" "entry_live r s'"
      unfolding post_def r by (auto simp: sh_inv_store [OF inv])
    have "\<exists>m. sce_get_state x (sh_store s') f (entry_at r s') = Inr m \<and>
         (\<forall>k. (case f of None \<Rightarrow> True | Some f \<Rightarrow> sf_contains f k) \<longrightarrow> map_of m k = (ws' ! r) k)" if "\<not> void_entry (entry_at r s')"
      using get_state_right [OF sh_inv_store [OF ws'(1)] sh_inv_entry [OF ws'(1,2)] live_readable] that ws'(4)
      unfolding entry_live_def by blast
    then show "\<exists>w. resolved_for kof x C (fst ` set groups) w \<and>
      (if void_entry (entry_at r s') then sce_get_state x (sh_store s') f (entry_at r s') = Inl AssertionError
       else \<exists>m. sce_get_state x (sh_store s') f (entry_at r s') = Inr m \<and>
         (\<forall>k. (case f of None \<Rightarrow> True | Some f \<Rightarrow> sf_contains f k) \<longrightarrow> map_of m k = w k))"
      using ws'(3) void_state by (intro exI [of _ "ws' ! r"]) simp
  }
  assume "fst ` set groups \<subseteq> dom (sg_states (sh_store s)) \<and> (\<exists>new. sx_resolve x (map snd groups) = Inr new)"
  then show "\<exists>r s'. resolve_state_groups x now groups s = (Inr r, s')" using resolve_returns [OF inv groups res] by blast
qed


lemma state_cache_sound_witness:
  "\<exists>x st groups r s'. sh_run (\<lambda>i. (i, [])) x (\<lambda>g. map_option map_of (sg_states st g)) (new_state_handler 1 st) \<and>
    groups = [(1, [((''a'', []), ''a'')]), (2, [((''b'', []), ''b'')])] \<and>
    resolve_state_groups x 5 groups (new_state_handler 1 st) = (Inr r, s')"
proof -
  let ?x = "\<lparr>sx_map_size = \<lambda>m. int (length m), sx_missing_group = \<lambda>g f. Inl KeyError, sx_resolve = \<lambda>ms. Inr (hd (ms @ [[]])),
    sx_state_groups = \<lambda>ids b. Inr [], sx_event_group = \<lambda>i. None, sx_partial_events = \<lambda>ids. [], sx_partial_room = \<lambda>i. False\<rparr>"
  let ?groups = "[(1 :: int, [((''a'', []), ''a'')]), (2, [((''b'', []), ''b'')])]"
  let ?st = "\<lparr>sg_states = map_of ?groups, sg_next = 3\<rparr>"
  let ?C = "\<lambda>g. map_option map_of (sg_states ?st g)" and ?kof = "\<lambda>i :: string. (i, [] :: string)"
  have run: "sh_run ?kof ?x ?C (new_state_handler 1 ?st)"
    by (rule sh_new) (auto simp: store_ok_def keyed_def dict_wf_def split: if_splits)
  have res: "resolver_ok ?kof ?x" by (auto simp: resolver_ok_def keyed_def hd_append split: if_splits)
  have groups: "groups_ok ?kof ?C ?groups" by (simp add: groups_ok_def keyed_def dict_wf_def)
  have "\<exists>r s'. resolve_state_groups ?x 5 ?groups (new_state_handler 1 ?st) = (Inr r, s')"
    using state_cache_sound [OF run res groups, of 5] by (simp add: new_state_handler_def)
  then obtain r s' where r: "resolve_state_groups ?x 5 ?groups (new_state_handler 1 ?st) = (Inr r, s')" by blast
  show ?thesis
    by (rule exI [of _ ?x], rule exI [of _ ?st], rule exI [of _ ?groups], rule exI [of _ r], rule exI [of _ s'])
      (intro conjI run refl r)
qed

end
