(* ===== verification/State_Context.thy ===== *)
theory State_Context
  imports State_Handler_Props
begin

text \<open>
  The contexts that the state handler makes for events: their state groups describe the state before and after
  the event, and the deltas they carry lead from one group to the other. Contexts also travel between
  workers, as JSON.
\<close>

section \<open>Persisting a context\<close>

text \<open>The state after an event, the event that it replaces, and the change it makes.\<close>

definition state_after :: "event \<Rightarrow> (state_key \<rightharpoonup> string) \<Rightarrow> (state_key \<rightharpoonup> string)" where
  "state_after ev w = (case ev_state_key ev of None \<Rightarrow> w | Some k \<Rightarrow> w((ev_type ev, k) \<mapsto> ev_event_id ev))"

definition delta_of_event :: "event \<Rightarrow> state_map" where
  "delta_of_event ev = (case ev_state_key ev of None \<Rightarrow> [] | Some k \<Rightarrow> [((ev_type ev, k), ev_event_id ev)])"

definition own_key :: "(string \<Rightarrow> state_key) \<Rightarrow> event \<Rightarrow> bool" where
  "own_key kof ev \<longleftrightarrow> (\<forall>k. ev_state_key ev = Some k \<longrightarrow> kof (ev_event_id ev) = (ev_type ev, k))"

definition replaced_by :: "event \<Rightarrow> (state_key \<rightharpoonup> string) \<Rightarrow> string option" where
  "replaced_by ev w =
     (case ev_state_key ev of
        None \<Rightarrow> None
      | Some k \<Rightarrow> (case w (ev_type ev, k) of Some i \<Rightarrow> if i \<noteq> [] \<and> i \<noteq> ev_event_id ev then Some i else None | None \<Rightarrow> None))"

text \<open>What a context says of the state before and after its event.\<close>

definition context_ok :: "(int \<rightharpoonup> state_key \<rightharpoonup> string) \<Rightarrow> (state_key \<rightharpoonup> string) \<Rightarrow> event \<Rightarrow> event_context \<Rightarrow> bool" where
  "context_ok C w ev c \<longleftrightarrow>
     (\<exists>b a. ec_state_group_before_event c = Some b \<and> C b = Some w \<and> ec_state_group c = Some a \<and> C a = Some (state_after ev w) \<and>
       map_of (ec_state_group_deltas c) (b, a) \<noteq> None) \<and>
     ec_state_delta_due_to_event c = Some (delta_of_event ev) \<and>
     (\<forall>((p, q), d) \<in> set (ec_state_group_deltas c). \<exists>m. C p = Some m \<and> C q = Some (m ++ map_of d))"

definition uc_ok ::
  "(string \<Rightarrow> state_key) \<Rightarrow> (int \<rightharpoonup> state_key \<rightharpoonup> string) \<Rightarrow> (state_key \<rightharpoonup> string) \<Rightarrow> event \<Rightarrow> unpersisted_context \<Rightarrow> bool" where
  "uc_ok kof C w ev u \<longleftrightarrow>
     (case uc_state_group_before_event u of
        Some g \<Rightarrow> C g = Some w \<and> 0 < g
      | None \<Rightarrow> uc_prev_group_for_state_group_before_event u = None \<and>
          (\<forall>m. uc_state_map_before_event u = Some m \<longrightarrow> keyed kof m \<and> map_of m = w)) \<and>
     based_on kof C w (uc_prev_group_for_state_group_before_event u) (uc_delta_ids_to_state_group_before_event u) \<and>
     uc_state_delta_due_to_event u = Some (delta_of_event ev)"

lemma in_store_bind: "in_store (bindE m f) = bindE (in_store m) (\<lambda>y. in_store (f y))"
  by (auto simp: in_store_def bindE_def fun_eq_iff split: prod.splits sum.splits)

lemma in_store_ret [simp]: "in_store (retE y) = retE y" "in_store (liftE r) = liftE r"
  by (auto simp: in_store_def retE_def liftE_def)

lemma delta_of_event_keyed: "own_key kof ev \<Longrightarrow> keyed kof (delta_of_event ev)"
  by (simp add: own_key_def delta_of_event_def keyed_def dict_wf_def split: option.split)

lemma delta_of_event_update: "w ++ map_of (delta_of_event ev) = state_after ev w"
  by (auto simp: delta_of_event_def state_after_def split: option.split)

lemma deltas_ok:
  assumes C: "C b = Some w" "C a = Some (state_after ev w)" "0 < b" "0 < a"
    and u: "uc_state_group_before_event u = Some b" "uc_state_group_after_event u = Some a" "uc_state_delta_due_to_event u = Some (delta_of_event ev)"
      "based_on kof C w (uc_prev_group_for_state_group_before_event u) (uc_delta_ids_to_state_group_before_event u)"
  shows "\<exists>ds. build_state_group_deltas u = Inr ds \<and> map_of ds (b, a) \<noteq> None \<and>
    (\<forall>((p, q), d) \<in> set ds. \<exists>m. C p = Some m \<and> C q = Some (m ++ map_of d))"
proof -
  have t: "truthy_group (Some b)" "truthy_group (Some a)" using C(3,4) by (simp_all add: truthy_group_def)
  have first: "\<exists>m. C b = Some m \<and> C a = Some (m ++ map_of (delta_of_event ev))" using C(1,2) by (simp add: delta_of_event_update)
  show ?thesis
  proof (cases "truthy_group (uc_prev_group_for_state_group_before_event u)")
    case True
    then obtain p d m where p: "uc_prev_group_for_state_group_before_event u = Some p" "uc_delta_ids_to_state_group_before_event u = Some d"
      "C p = Some m" "m ++ map_of d = w" using u(4) by (auto simp: truthy_group_def based_on_def)
    then show ?thesis using t first u C(1) True by (auto simp: build_state_group_deltas_def)
  next
    case False
    then show ?thesis using t first u by (simp add: build_state_group_deltas_def)
  qed
qed

lemma persist_before_post:
  assumes inv: "sh_inv kof x C ws s" and u: "uc_ok kof C w ev u"
  shows "post kof x C ws s (in_store (persist_before x u) s) (\<lambda>C' ws' b s'. C' b = Some w \<and> 0 < b \<and> C \<subseteq>\<^sub>m C')"
proof (cases "uc_state_group_before_event u")
  case (Some g)
  then show ?thesis using u inv by (auto simp: uc_ok_def persist_before_def retE_def intro!: post_return)
next
  case None
  show ?thesis
  proof (cases "uc_state_map_before_event u \<in> {None, Some []}")
    case True
    then show ?thesis using None inv post_return [OF inv, of "Inl AssertionError"] by (auto simp: persist_before_def liftE_def)
  next
    case False
    then have "described_by kof C (uc_prev_group_for_state_group_before_event u) (uc_delta_ids_to_state_group_before_event u)
        (uc_state_map_before_event u) w" using u None by (auto simp: uc_ok_def described_by_def)
    from store_post [OF inv this] show ?thesis
      using None False by (auto simp: persist_before_def elim!: post_mono)
  qed
qed

lemma persist_after_post:
  assumes inv: "sh_inv kof x C ws s" and u: "uc_state_delta_due_to_event u = Some (delta_of_event ev)" and b: "C b = Some w" "0 < b"
    and ev: "own_key kof ev"
  shows "post kof x C ws s (in_store (persist_after x u b) s) (\<lambda>C' ws' a s'. C' a = Some (state_after ev w) \<and> 0 < a \<and> C \<subseteq>\<^sub>m C')"
proof (cases "ev_state_key ev")
  case None
  then show ?thesis
    using u b inv by (auto simp: persist_after_def delta_of_event_def state_after_def retE_def intro!: post_return)
next
  case (Some k)
  have "described_by kof C (Some b) (Some (delta_of_event ev)) None (state_after ev w)"
    using b delta_of_event_keyed [OF ev] by (simp add: described_by_def delta_of_event_update)
  note sp = store_post [OF inv this]
  have "persist_after x u b = store_state_group x (Some b) (Some (delta_of_event ev)) None"
    using u Some by (simp add: persist_after_def delta_of_event_def)
  then show ?thesis using post_mono [OF sp] by simp
qed

lemma persist_post:
  assumes inv: "sh_inv kof x C ws s" and u: "uc_ok kof C w ev u"
    and ev: "own_key kof ev"
  shows "post kof x C ws s (in_store (persist_context x u) s) (\<lambda>C' ws' c s'. context_ok C' w ev c \<and> C \<subseteq>\<^sub>m C')"
  unfolding persist_context_def in_store_bind
proof (rule post_bind [where m = "in_store (persist_before x u)", OF persist_before_post [OF inv u]])
  let ?fin = "\<lambda>b a. let u = u\<lparr>uc_state_group_before_event := Some b, uc_state_group_after_event := Some a\<rparr>
    in liftE (bindR (build_state_group_deltas u) (\<lambda>deltas. Inr (with_state u deltas)))"
  fix C1 ws1 b s1 assume 1: "sh_inv kof x C1 ws1 s1" "C1 b = Some w \<and> 0 < b \<and> C \<subseteq>\<^sub>m C1"
  have due: "uc_state_delta_due_to_event u = Some (delta_of_event ev)" using u by (simp add: uc_ok_def)
  have pa: "post kof x C1 ws1 s1 (in_store (persist_after x u b) s1) (\<lambda>C' ws' a s'. C' a = Some (state_after ev w) \<and> 0 < a \<and> C1 \<subseteq>\<^sub>m C')"
    using 1 by (intro persist_after_post [OF 1(1) due _ _ ev]) simp_all
  show "post kof x C1 ws1 s1 (bindE (in_store (persist_after x u b)) (\<lambda>a. in_store (?fin b a)) s1)
      (\<lambda>C' ws' c s'. context_ok C' w ev c \<and> C \<subseteq>\<^sub>m C')"
  proof (rule post_bind [where m = "in_store (persist_after x u b)", OF pa])
    fix C2 ws2 a s2 assume 2: "sh_inv kof x C2 ws2 s2" "C2 a = Some (state_after ev w) \<and> 0 < a \<and> C1 \<subseteq>\<^sub>m C2"
    let ?u = "u\<lparr>uc_state_group_before_event := Some b, uc_state_group_after_event := Some a\<rparr>"
    have le: "C \<subseteq>\<^sub>m C2" using map_le_trans [of C C1 C2] 1 2 by simp
    have b: "C2 b = Some w" using map_le_Some [of C1 C2 b w] 1 2 by simp
    have bo: "based_on kof C2 w (uc_prev_group_for_state_group_before_event u) (uc_delta_ids_to_state_group_before_event u)"
      using u based_on_mono [OF _ le] by (simp add: uc_ok_def)
    obtain ds where ds: "build_state_group_deltas ?u = Inr ds" "map_of ds (b, a) \<noteq> None"
      "\<forall>((p, q), d) \<in> set ds. \<exists>m. C2 p = Some m \<and> C2 q = Some (m ++ map_of d)"
      using deltas_ok [of C2 b w a ev ?u kof] b 1 2 due bo by auto
    have "context_ok C2 w ev (with_state ?u ds)" using b 2 due ds(2,3) by (simp add: context_ok_def with_state_def)
    then show "post kof x C2 ws2 s2 (in_store (?fin b a) s2) (\<lambda>C' ws' c s'. context_ok C' w ev c \<and> C \<subseteq>\<^sub>m C')"
      using ds(1) 2(1) le by (auto simp: Let_def liftE_def intro!: post_return)
  qed
qed

section \<open>Calculating a context\<close>

text \<open>The state before an event: the one that was given, or that of the events before it.\<close>

definition before_state ::
  "(string \<Rightarrow> state_key) \<Rightarrow> state_ext \<Rightarrow> (int \<rightharpoonup> state_key \<rightharpoonup> string) \<Rightarrow> state_map option \<Rightarrow> event \<Rightarrow> (state_key \<rightharpoonup> string) \<Rightarrow> bool" where
  "before_state kof x C given ev w =
     (if given \<notin> {None, Some []} then w = map_of (the given)
      else state_of_events kof x C (with_state_groups x (prev_events_of ev)) False w)"

definition before_ok ::
  "(string \<Rightarrow> state_key) \<Rightarrow> (int \<rightharpoonup> state_key \<rightharpoonup> string) \<Rightarrow> (state_key \<rightharpoonup> string) \<Rightarrow> state_before \<Rightarrow> state_handler \<Rightarrow> bool" where
  "before_ok kof C w b s \<longleftrightarrow>
     (case b of (before, p, d, ids, partial, entry) \<Rightarrow>
        (case before of Some g \<Rightarrow> C g = Some w \<and> 0 < g | None \<Rightarrow> p = None) \<and> based_on kof C w p d \<and>
        (\<forall>m. ids = Some m \<longrightarrow> keyed kof m \<and> map_of m = w) \<and>
        (\<forall>r. entry = Some r \<longrightarrow> entry_ok kof C w (entry_at r s) \<and> readable (sh_store s) (entry_at r s)))"

lemma conflict_post:
  "post kof x C ws s (m s) Q \<Longrightarrow> post kof x C ws s (conflict_on_runtime_error b m s) Q"
  by (cases "m s"; cases "fst (m s)")
    (auto simp: post_def conflict_on_runtime_error_def split: py_error.splits)

lemma before_event_post:
  assumes inv: "sh_inv kof x C ws s" and res: "resolver_ok kof x" and known: "groups_known x s"
    and given: "given = None \<or> keyed kof (the given)"
  shows "post kof x C ws s (state_before_event x now ev given partial_state None s) (\<lambda>C' ws' b s'. C \<subseteq>\<^sub>m C' \<and>
    (\<exists>w. before_state kof x C given ev w \<and> before_ok kof C' w b s'))"
proof (cases "given \<notin> {None, Some []}")
  case True
  then have "before_ok kof C (map_of (the given)) (None, None, None, given, p, None) s" for p
    using given by (auto simp: before_ok_def based_on_def)
  moreover have "before_state kof x C given ev (map_of (the given))" using True by (simp add: before_state_def)
  ultimately show ?thesis
    using True inv by (cases partial_state) (auto simp: state_before_event_def liftE_def retE_def intro!: post_return)
next
  case False
  let ?ids = "with_state_groups x (prev_events_of ev)" and ?partial = "list_ex snd (sx_partial_events x (prev_events_of ev))"
  let ?b = "?partial \<or> sx_partial_room x (ev_room_id ev)"
  let ?Q = "\<lambda>C' ws' b s'. C \<subseteq>\<^sub>m C' \<and> (\<exists>w. before_state kof x C given ev w \<and> before_ok kof C' w b s')"
  have "post kof x C ws s (bindE (conflict_on_runtime_error ?b (resolve_state_groups_for_events x now ?ids False)) (\<lambda>r.
      bindE (ensure_state_group x r) (\<lambda>(g, prev_group, delta_ids, state_ids).
      retE (Some g, prev_group, delta_ids, state_ids, ?partial, Some r))) s) ?Q"
  proof (rule post_bind [where m = "conflict_on_runtime_error ?b (resolve_state_groups_for_events x now ?ids False)",
      OF conflict_post [where m = "resolve_state_groups_for_events x now ?ids False", OF resolve_for_events_post [OF inv res known]]])
    fix C1 ws1 r s1
    assume 1: "sh_inv kof x C1 ws1 s1" and Q: "C1 = C \<and> r < length ws1 \<and> sh_store s1 = sh_store s \<and>
      state_of_events kof x C ?ids False (ws1 ! r) \<and> entry_live r s1 \<and> (none_void s \<longrightarrow> \<not> void_entry (entry_at r s1))"
    then have r: "r < length ws1" and bs: "before_state kof x C given ev (ws1 ! r)" using False by (simp_all add: before_state_def)
    show "post kof x C1 ws1 s1 (bindE (ensure_state_group x r) (\<lambda>(g, prev_group, delta_ids, state_ids).
      retE (Some g, prev_group, delta_ids, state_ids, ?partial, Some r)) s1) ?Q"
    proof (rule post_bind [where m = "ensure_state_group x r", OF ensure_post [OF 1 r]])
      fix C2 ws2 y s2
      assume 2: "sh_inv kof x C2 ws2 s2" "ws2 = ws1 \<and> group_given kof (ws1 ! r) r C2 y s2 \<and> C1 \<subseteq>\<^sub>m C2"
      obtain g p d ids where y: "y = (g, p, d, ids)" by (cases y)
      have "entry_ok kof C2 (ws1 ! r) (entry_at r s2)" using sh_inv_entry [OF 2(1), of r] 2(2) r by simp
      moreover have "readable (sh_store s2) (entry_at r s2)" using 2(2) by (simp add: y group_given_def readable_def)
      ultimately have "before_ok kof C2 (ws1 ! r) (Some g, p, d, ids, ?partial, Some r) s2"
        using 2(2) by (auto simp: before_ok_def y group_given_def)
      moreover have "C \<subseteq>\<^sub>m C2" using 2(2) Q by simp
      ultimately show "post kof x C2 ws2 s2 ((case y of (g, prev_group, delta_ids, state_ids) \<Rightarrow>
          retE (Some g, prev_group, delta_ids, state_ids, ?partial, Some r)) s2) ?Q"
        using bs 2(1) by (auto simp: y retE_def intro!: post_return)
    qed
  qed
  then show ?thesis
    using False inv by (auto simp: state_before_event_def liftE_def Let_def intro!: post_return)
qed

lemma make_context_post:
  assumes inv: "sh_inv kof x C ws s" and b: "before_ok kof C w b s"
  shows "post kof x C ws s (make_context x ev b s) (\<lambda>C' ws' (u, replaces) s'. C' = C \<and> uc_ok kof C w ev u \<and> replaces = replaced_by ev w)"
proof -
  obtain before p d ids partial entry where bb: "b = (before, p, d, ids, partial, entry)" by (cases b)

  show ?thesis
  proof (cases "ev_state_key ev")
    case None
    then show ?thesis
      using b inv by (auto simp: make_context_def bb retE_def before_ok_def uc_ok_def delta_of_event_def replaced_by_def
          intro!: post_return split: option.splits)
  next
    case (Some k)
    let ?key = "(ev_type ev, k)"
    let ?m = "case (ids, entry) of (Some m, _) \<Rightarrow> Inr m
      | (None, Some r) \<Rightarrow> sce_get_state x (sh_store s) (Some (from_types [(ev_type ev, Some k)])) (entry_at r s)
      | (None, None) \<Rightarrow> Inl NameError"
    have m: "map_of m ?key = w ?key" if "?m = Inr m" for m
    proof (cases ids)
      case None
      then have "entry \<noteq> None" using that by (cases entry) auto
      then obtain r where r: "entry = Some r" by blast
      then have "sce_get_state x (sh_store s) (Some (from_types [(ev_type ev, Some k)])) (entry_at r s) = Inr m" using None that by simp
      moreover have "entry_ok kof C w (entry_at r s)" "readable (sh_store s) (entry_at r s)" using b r by (simp_all add: bb before_ok_def)
      moreover have "sf_contains (from_types [(ev_type ev, Some k)]) ?key" by (simp add: from_types_contains)
      ultimately show ?thesis
        using get_state_right [OF sh_inv_store [OF inv], of w "entry_at r s" x "Some (from_types [(ev_type ev, Some k)])"] by auto
    next
      case s: (Some m')
      then show ?thesis using that b by (auto simp: bb before_ok_def)
    qed
    show ?thesis
      using b Some m inv
      by (cases ?m) (auto simp: make_context_def bb bindE_def retE_def before_ok_def uc_ok_def delta_of_event_def replaced_by_def Let_def
          intro!: post_return split: option.splits)
  qed
qed


section \<open>When a context is made\<close>

lemma resolve_for_events_returns:
  assumes inv: "sh_inv kof x C ws s" and res: "resolver_ok kof x" and known: "groups_known x s"
    and total: "\<And>ms. \<exists>new. sx_resolve x ms = Inr new" and lookup: "\<And>e. sx_state_groups x ids False = Inl e \<Longrightarrow> e = RuntimeError"
  shows "\<exists>r s'. resolve_state_groups_for_events x now ids False s = (Inr r, s')"
proof -
  have new: "\<exists>r s'. bindE (liftE (new_state_cache_entry m g None None)) alloc_entry s = (Inr r, s')" if "m \<noteq> None \<or> g \<noteq> None" for m g
    using that by (auto simp: bindE_def liftE_def new_state_cache_entry_def alloc_entry_def)
  show ?thesis
  proof (cases "sx_state_groups x ids False")
    case (Inl e)
    then show ?thesis using lookup new by (simp add: resolve_state_groups_for_events_def)
  next
    case (Inr sgs)
    have there: "set (remdups (map snd sgs)) \<subseteq> dom (sg_states (sh_store s))" using known Inr by (simp add: groups_known_def)
    consider "remdups (map snd sgs) = []" | g where "remdups (map snd sgs) = [g]"
      | g h gs where "remdups (map snd sgs) = g # h # gs" by (metis list.exhaust)
    then show ?thesis
    proof cases
      case (3 g h gs)
      obtain groups where groups: "get_state_for_groups x (g # h # gs) s = (Inr groups, s)" "groups_ok kof C groups" "map fst groups = g # h # gs"
        using get_state_for_groups_ok [OF inv _ there] 3 by (metis distinct_remdups)
      obtain new where "sx_resolve x (map snd groups) = Inr new" using total by blast
      moreover have "fst ` set groups \<subseteq> dom (sg_states (sh_store s))" using groups(3) there 3 by (metis list.set_map)
      ultimately show ?thesis
        using resolve_returns [OF inv groups(2) res] by (simp add: resolve_state_groups_for_events_def Inr 3 bindE_def groups(1))
    qed (use new Inr in \<open>auto simp: resolve_state_groups_for_events_def\<close>)
  qed
qed

lemma ensure_returns:
  assumes inv: "sh_inv kof x C ws s" and r: "r < length ws" and live: "entry_live r s" "\<not> void_entry (entry_at r s)"
  shows "\<exists>y s'. ensure_state_group x r s = (Inr y, s')"
proof -
  let ?e = "entry_at r s"
  note ok = sh_inv_entry [OF inv r]
  have bump: "bump_entry_groups r s = (Inr (), s)"
    using live(1) by (auto simp: bump_entry_groups_def entry_live_def entry_groups_def check_state_groups_def Let_def)
  consider g where "sce_state_group ?e = Some g" | p where "sce_state_group ?e = None" "sce_prev_group ?e = Some p"
    | m where "sce_state_group ?e = None" "sce_prev_group ?e = None" "sce_state ?e = Some m"
    using live(2) unfolding void_entry_def by (metis not_None_eq)
  then show ?thesis
  proof cases
    case 1
    then show ?thesis by (simp add: ensure_state_group_def bindE_def bump getE_def retE_def)
  next
    case (2 p)
    then obtain d m where "sce_delta_ids ?e = Some d" "sg_states (sh_store s) p = Some m"
      using ok live(1) by (auto simp: entry_ok_def entry_live_def entry_groups_def)
    then show ?thesis using 2
      by (simp add: ensure_state_group_def bindE_def bump getE_def retE_def in_store_def store_state_group_def
          get_state_ids_for_group_def update_cache_entry_def setE_def)
  next
    case (3 m)
    then show ?thesis
      by (simp add: ensure_state_group_def bindE_def bump getE_def retE_def in_store_def store_state_group_def
          sce_get_state_def update_cache_entry_def setE_def)
  qed
qed

lemma make_context_returns:
  assumes inv: "sh_inv kof x C ws s" and b: "before_ok kof C w (before, p, d, ids, partial, Some r) s"
  shows "\<exists>u y. make_context x ev (before, p, d, ids, partial, Some r) s = (Inr (u, y), s) \<and> uc_state_group_before_event u = before"
proof (cases "ev_state_key ev")
  case None
  then show ?thesis by (simp add: make_context_def retE_def)
next
  case (Some k)
  obtain m where "sce_get_state x (sh_store s) (Some (from_types [(ev_type ev, Some k)])) (entry_at r s) = Inr m"
    using get_state_right [OF sh_inv_store [OF inv]] b by (fastforce simp: before_ok_def)
  then show ?thesis using Some by (cases ids) (simp_all add: make_context_def bindE_def retE_def Let_def)
qed

lemma persist_returns:
  assumes inv: "sh_inv kof x C ws s" and u: "uc_ok kof C w ev u" "uc_state_group_before_event u = Some g"
    and g: "g \<in> dom (sg_states (sh_store s))" and ev: "own_key kof ev"
  shows "\<exists>c s'. in_store (persist_context x u) s = (Inr c, s')"
proof -
  have C: "C g = Some w" "0 < g" and due: "uc_state_delta_due_to_event u = Some (delta_of_event ev)" using u by (simp_all add: uc_ok_def)
  obtain m where m: "sg_states (sh_store s) g = Some m" using g by blast
  have "\<exists>a s1. in_store (persist_after x u g) s = (Inr a, s1)"
    using due m by (cases "ev_state_key ev")
      (auto simp: persist_after_def delta_of_event_def retE_def in_store_def store_state_group_def get_state_ids_for_group_def)
  then obtain a s1 where a: "in_store (persist_after x u g) s = (Inr a, s1)" by blast
  from persist_after_post [OF inv due C ev] obtain C1 where C1: "C1 a = Some (state_after ev w)" "0 < a" "C \<subseteq>\<^sub>m C1"
    unfolding a by (auto simp: post_def)
  let ?u = "u\<lparr>uc_state_group_before_event := Some g, uc_state_group_after_event := Some a\<rparr>"
  have "based_on kof C1 w (uc_prev_group_for_state_group_before_event u) (uc_delta_ids_to_state_group_before_event u)"
    using u based_on_mono [OF _ C1(3)] by (simp add: uc_ok_def)
  then obtain ds where "build_state_group_deltas ?u = Inr ds"
    using deltas_ok [of C1 g w a ev ?u kof] map_le_Some [OF C1(3) C(1)] C C1 due by auto
  then show ?thesis
    unfolding persist_context_def in_store_bind using a u(2)
    by (simp add: persist_before_def bindE_def retE_def Let_def liftE_def)
qed

lemma calculate_post:
  assumes inv: "sh_inv kof x C ws s" and res: "resolver_ok kof x" and known: "groups_known x s"
    and given: "given = None \<or> keyed kof (the given)"
  shows "post kof x C ws s (calculate_context_info x now ev outl given partial None s) (\<lambda>C' ws' (u, replaces) s'.
    \<exists>w. before_state kof x C given ev w \<and> uc_ok kof C' w ev u \<and> replaces = replaced_by ev w)"
proof (cases outl)
  case True
  then show ?thesis using post_return [OF inv, of "Inl AssertionError"] by (simp add: calculate_context_info_def liftE_def)
next
  case False
  have "post kof x C ws s (bindE (state_before_event x now ev given partial None) (make_context x ev) s) (\<lambda>C' ws' (u, replaces) s'.
    \<exists>w. before_state kof x C given ev w \<and> uc_ok kof C' w ev u \<and> replaces = replaced_by ev w)"
  proof (rule post_bind [where m = "state_before_event x now ev given partial None", OF before_event_post [OF inv res known given]])
    fix C1 ws1 b s1
    assume 1: "sh_inv kof x C1 ws1 s1" "C \<subseteq>\<^sub>m C1 \<and> (\<exists>w. before_state kof x C given ev w \<and> before_ok kof C1 w b s1)"
    then obtain w where w: "before_state kof x C given ev w" "before_ok kof C1 w b s1" by blast
    show "post kof x C1 ws1 s1 (make_context x ev b s1) (\<lambda>C' ws' (u, replaces) s'.
      \<exists>w. before_state kof x C given ev w \<and> uc_ok kof C' w ev u \<and> replaces = replaced_by ev w)"
      by (rule post_mono [OF make_context_post [OF 1(1) w(2)]]) (use w(1) in auto)
  qed
  then show ?thesis using False by (simp add: calculate_context_info_def)
qed

lemma compute_post:
  assumes inv: "sh_inv kof x C ws s" and res: "resolver_ok kof x" and known: "groups_known x s"
    and given: "given = None \<or> keyed kof (the given)" and ev: "own_key kof ev"
  shows "post kof x C ws s (compute_event_context x now ev outl given partial s) (\<lambda>C' ws' (c, replaces) s'.
    \<exists>w. before_state kof x C given ev w \<and> context_ok C' w ev c \<and> replaces = replaced_by ev w)"
  unfolding compute_event_context_def
proof (rule post_bind [where m = "calculate_context_info x now ev outl given partial None", OF calculate_post [OF inv res known given]])
  fix C1 ws1 y s1
  assume 1: "sh_inv kof x C1 ws1 s1" "(case y of (u, replaces) \<Rightarrow> \<lambda>s'.
    \<exists>w. before_state kof x C given ev w \<and> uc_ok kof C1 w ev u \<and> replaces = replaced_by ev w) s1"
  then obtain u w where y: "y = (u, replaced_by ev w)" and w: "before_state kof x C given ev w" "uc_ok kof C1 w ev u" by auto
  have "post kof x C1 ws1 s1 (bindE (in_store (persist_context x u)) (\<lambda>c. retE (c, replaced_by ev w)) s1) (\<lambda>C' ws' (c, replaces) s'.
    \<exists>w. before_state kof x C given ev w \<and> context_ok C' w ev c \<and> replaces = replaced_by ev w)"
    by (rule post_bind [where m = "in_store (persist_context x u)", OF persist_post [OF 1(1) w(2) ev]])
      (use w(1) in \<open>auto simp: retE_def intro!: post_return\<close>)
  then show "post kof x C1 ws1 s1 ((case y of (u, replaces) \<Rightarrow> bindE (in_store (persist_context x u)) (\<lambda>c. retE (c, replaces))) s1)
    (\<lambda>C' ws' (c, replaces) s'. \<exists>w. before_state kof x C given ev w \<and> context_ok C' w ev c \<and> replaces = replaced_by ev w)"
    by (simp add: y)
qed

lemma compute_returns:
  assumes inv: "sh_inv kof x C ws s" and res: "resolver_ok kof x" and known: "groups_known x s" and ev: "own_key kof ev"
    and total: "\<And>ms. \<exists>new. sx_resolve x ms = Inr new" and lookup: "\<And>ids e. sx_state_groups x ids False = Inl e \<Longrightarrow> e = RuntimeError"
    and void: "none_void s"
  shows "\<exists>c s'. compute_event_context x now ev False None None s = (Inr c, s')"
proof -
  let ?ids = "with_state_groups x (prev_events_of ev)" and ?partial = "list_ex snd (sx_partial_events x (prev_events_of ev))"
  obtain r s1 where r: "resolve_state_groups_for_events x now ?ids False s = (Inr r, s1)"
    using resolve_for_events_returns [OF inv res known total, of ?ids now] lookup by blast
  from resolve_for_events_post [OF inv res known, of now ?ids False] obtain ws1 where
    1: "sh_inv kof x C ws1 s1" "r < length ws1" "entry_live r s1" "\<not> void_entry (entry_at r s1)"
    unfolding r post_def using void sh_inv_store [OF inv] by auto
  obtain g p d ids s2 where e: "ensure_state_group x r s1 = (Inr (g, p, d, ids), s2)"
    using ensure_returns [OF 1] by (metis prod.exhaust)
  let ?b = "(Some g, p, d, ids, ?partial, Some r)"
  have b: "state_before_event x now ev None None None s = (Inr ?b, s2)"
    by (simp add: state_before_event_def bindE_def conflict_on_runtime_error_def r e retE_def Let_def)
  from ensure_post [OF 1(1,2)] obtain C2 where
    2: "sh_inv kof x C2 ws1 s2" "group_given kof (ws1 ! r) r C2 (g, p, d, ids) s2"
    unfolding e post_def by auto
  have "entry_ok kof C2 (ws1 ! r) (entry_at r s2)" by (rule sh_inv_entry [OF 2(1) 1(2)])
  then have bo: "before_ok kof C2 (ws1 ! r) ?b s2" using 2(2) by (auto simp: before_ok_def group_given_def readable_def)
  obtain u y where m: "make_context x ev ?b s2 = (Inr (u, y), s2)" "uc_state_group_before_event u = Some g"
    using make_context_returns [OF 2(1) bo] by blast
  have "uc_ok kof C2 (ws1 ! r) ev u"
    using make_context_post [OF 2(1) bo, of ev] sh_inv_store [OF 2(1)] unfolding m(1) by (auto simp: post_def)
  moreover have "g \<in> dom (sg_states (sh_store s2))" using 2(2) by (simp add: group_given_def)
  ultimately obtain c s3 where "in_store (persist_context x u) s2 = (Inr c, s3)" using persist_returns [OF 2(1) _ m(2) _ ev] by blast
  then show ?thesis by (simp add: compute_event_context_def calculate_context_info_def bindE_def b m(1) retE_def)
qed

text \<open>C39: Contexts of events. When \<^verbatim>\<open>compute_event_context\<close> makes a context, its state groups describe the state
  before the event, which is the one it was given or that of the events before it, and the state after
  it; every delta of the context leads from the first of its groups to the second; and the event that is
  marked as replaced is the one that the state before had under its key. Events before that are missing
  or outliers are left out beside others; where there is no other the state before is empty, although the
  docstrings announce \<^verbatim>\<open>RuntimeError\<close> (\<open>missing_prev_event_empty_state\<close>). For
  an event that is not an outlier, without a state to start from, a context is made if resolution returns, no
  request has emptied an entry of the cache and the look-up of the groups fails with \<^verbatim>\<open>RuntimeError\<close> only.\<close>

theorem event_context_groups:
  assumes run: "sh_run kof x C s" and res: "resolver_ok kof x" and known: "groups_known x s"
    and given: "given = None \<or> keyed kof (the given)" and ev: "own_key kof ev"
  shows "(\<forall>c replaces s'. compute_event_context x now ev outl given partial s = (Inr (c, replaces), s') \<longrightarrow>
      (\<exists>w. before_state kof x C given ev w \<and> context_ok (learn C (sh_store s')) w ev c \<and> replaces = replaced_by ev w)) \<and>
    (\<not> outl \<and> given = None \<and> partial = None \<and> none_void s \<and> (\<forall>ms. \<exists>new. sx_resolve x ms = Inr new) \<and>
      (\<forall>ids e. sx_state_groups x ids False = Inl e \<longrightarrow> e = RuntimeError) \<longrightarrow>
      (\<exists>c s'. compute_event_context x now ev outl given partial s = (Inr c, s')))"
proof (intro conjI allI impI)
  obtain ws where inv: "sh_inv kof x C ws s" using sh_run_inv [OF run res] by blast
  {
    fix c replaces s'
    assume "compute_event_context x now ev outl given partial s = (Inr (c, replaces), s')"
    then show "\<exists>w. before_state kof x C given ev w \<and> context_ok (learn C (sh_store s')) w ev c \<and> replaces = replaced_by ev w"
      using compute_post [OF inv res known given ev, of now outl partial] by (auto simp: post_def)
  }
  assume "\<not> outl \<and> given = None \<and> partial = None \<and> none_void s \<and> (\<forall>ms. \<exists>new. sx_resolve x ms = Inr new) \<and>
      (\<forall>ids e. sx_state_groups x ids False = Inl e \<longrightarrow> e = RuntimeError)"
  then show "\<exists>c s'. compute_event_context x now ev outl given partial s = (Inr c, s')"
    using compute_returns [OF inv res known ev, of now] by auto
qed


lemma event_context_groups_witness:
  "\<exists>x st ev c s'. sh_run (\<lambda>i. (i, [])) x (\<lambda>g. map_option map_of (sg_states st g)) (new_state_handler 1 st) \<and>
    ev_state_key ev = Some [] \<and> compute_event_context x 5 ev False None None (new_state_handler 1 st) = (Inr c, s')"
proof -
  let ?x = "\<lparr>sx_map_size = \<lambda>m. int (length m), sx_missing_group = \<lambda>g f. Inl KeyError, sx_resolve = \<lambda>ms. Inr [],
    sx_state_groups = \<lambda>ids b. Inr [(''p'', 1)], sx_event_group = \<lambda>i. Some 1, sx_partial_events = \<lambda>ids. [], sx_partial_room = \<lambda>i. False\<rparr>"
  let ?st = "\<lparr>sg_states = [1 \<mapsto> [((''a'', []), ''a'')]], sg_next = 2\<rparr>"
  let ?ev = "\<lparr>ev_event_id = ''m.room.topic'', ev_room_id = ''!r:a'', ev_room_id_in_event = True,
     ev_type = ''m.room.topic'', ev_sender = ''@s:a'', ev_state_key = Some [], ev_content = [],
     ev_origin_server_ts = 0, ev_depth = 3, ev_auth_event_ids = [], ev_prev_event_ids = [''p''],
     ev_prev_state_events = [], ev_signatures = [], ev_redacts = None, ev_rejected_reason = None,
     ev_room_version = RV_V1, ev_recheck_redaction = False\<rparr>"
  let ?C = "\<lambda>g. map_option map_of (sg_states ?st g)" and ?kof = "\<lambda>i :: string. (i, [] :: string)" and ?s = "new_state_handler 1 ?st"
  have run: "sh_run ?kof ?x ?C ?s" by (rule sh_new) (auto simp: store_ok_def keyed_def dict_wf_def split: if_splits)
  have res: "resolver_ok ?kof ?x" by (simp add: resolver_ok_def keyed_def)
  have known: "groups_known ?x ?s" by (simp add: groups_known_def new_state_handler_def)
  have ev: "own_key ?kof ?ev" by (simp add: own_key_def)
  have "none_void ?s" by (simp add: none_void_def new_state_handler_def)
  then have "\<exists>c s'. compute_event_context ?x 5 ?ev False None None ?s = (Inr c, s')"
    using event_context_groups [OF run res known _ ev, of None 5 False None] by simp
  then obtain c s' where c: "compute_event_context ?x 5 ?ev False None None ?s = (Inr c, s')" by blast
  show ?thesis
    by (rule exI [of _ ?x], rule exI [of _ ?st], rule exI [of _ ?ev], rule exI [of _ c], rule exI [of _ s'])
      (intro conjI run c, simp)
qed

section \<open>Where the handler differs from what it documents\<close>

text \<open>\<^verbatim>\<open>calculate_context_info\<close> and \<^verbatim>\<open>compute_event_context\<close> are documented to raise \<^verbatim>\<open>RuntimeError\<close> when a previous event
  is missing or an outlier and no state is given. The look-up of its state group does; the handler turns this
  into a context on an empty state.\<close>

lemma missing_prev_event_empty_state:
  assumes run: "sh_run kof x C s" and res: "resolver_ok kof x" and known: "groups_known x s" and ev: "own_key kof ev"
    and missing: "sx_state_groups x (with_state_groups x (prev_events_of ev)) False = Inl RuntimeError"
    and r: "compute_event_context x now ev outl None partial s = (Inr (c, replaces), s')"
  shows "context_ok (learn C (sh_store s')) Map.empty ev c"
proof -
  obtain ws where inv: "sh_inv kof x C ws s" using sh_run_inv [OF run res] by blast
  obtain w where "before_state kof x C None ev w" "context_ok (learn C (sh_store s')) w ev c"
    using compute_post [OF inv res known _ ev, of None now outl partial] r by (auto simp: post_def)
  then show ?thesis using missing by (simp add: before_state_def state_of_events_def)
qed

text \<open>When the group that an entry is based on has been deleted, a request drops it from the entry, to rely on the
  state that the entry must have; an entry based on a group has none. The entry is left empty in the cache,
  where a later request finds it, and whoever asks it for its state gets \<^verbatim>\<open>AssertionError\<close>.\<close>

lemma deleted_group_empties_entry:
  assumes r: "r < length (sh_entries s)"
    and e: "sce_state (entry_at r s) = None" "sce_state_group (entry_at r s) = None" "sce_prev_group (entry_at r s) = Some p" "p \<noteq> 0"
    and gone: "sg_states (sh_store s) p = None" and cached: "cache_lookup (sh_state_cache s) names = Some r"
  shows "\<exists>s'. ensure_state_group x r s = (Inl AssertionError, s') \<and> void_entry (entry_at r s') \<and>
    (\<exists>s''. find_cached_entry now names s' = (Inr (Some r), s'') \<and> sce_get_state x (sh_store s'') f (entry_at r s'') = Inl AssertionError)"
proof -
  let ?f = "\<lambda>e. e\<lparr>sce_prev_group := None, sce_delta_ids := None\<rparr>"
  let ?s = "s\<lparr>sh_entries := (sh_entries s)[r := ?f (sh_entries s ! r)]\<rparr>"
  have bump: "bump_entry_groups r s = (Inr (), ?s)"
    using e gone by (simp add: bump_entry_groups_def truthy_group_def check_state_groups_def update_cache_entry_def setE_def Let_def dom_def)
  have at: "entry_at r ?s = ?f (entry_at r s)" using r by (simp add: entry_at_def)
  then have void: "void_entry (entry_at r ?s)" using e by (simp add: void_entry_def)
  have "ensure_state_group x r s = (Inl AssertionError, ?s)"
    using e by (simp add: ensure_state_group_def bindE_def bump getE_def at sce_get_state_def)
  moreover obtain c where c: "cache_get now names (sh_state_cache s) = (c, Some r)"
    using cached cache_get_ok(2) [of now names "sh_state_cache s"] by (metis prod.collapse)
  have "find_cached_entry now names ?s = (Inr (Some r), ?s\<lparr>sh_state_cache := c\<rparr>)"
    using void r by (simp add: find_cached_entry_def c entry_at_def void_entry_def check_state_groups_def)
  moreover have "entry_at r (?s\<lparr>sh_state_cache := c\<rparr>) = entry_at r ?s" by (simp add: entry_at_def)
  ultimately show ?thesis using void void_state by metis
qed


section \<open>Batches and transport\<close>

text \<open>The contexts of a chain of events, from the state before the first.\<close>

fun batch_ok :: "(int \<rightharpoonup> state_key \<rightharpoonup> string) \<Rightarrow> (state_key \<rightharpoonup> string) \<Rightarrow> (event \<times> event_context) list \<Rightarrow> bool" where
  "batch_ok C w [] = True"
| "batch_ok C w ((ev, c) # rest) \<longleftrightarrow> context_ok C w ev c \<and> batch_ok C (state_after ev w) rest"

definition batch_input_ok :: "(string \<Rightarrow> state_key) \<Rightarrow> event \<times> unpersisted_context \<Rightarrow> bool" where
  "batch_input_ok kof p = (case p of (ev, u) \<Rightarrow> own_key kof ev \<and> uc_prev_group_for_state_group_before_event u = None \<and>
     (ev_state_key ev = None \<longrightarrow> uc_state_delta_due_to_event u = Some []))"

lemma context_ok_mono: "context_ok C w ev c \<Longrightarrow> C \<subseteq>\<^sub>m C' \<Longrightarrow> context_ok C' w ev c"
  unfolding context_ok_def by (fastforce dest: map_le_Some)

lemma store_new_group:
  assumes st: "store_ok kof C st" and c: "keyed kof c"
  defines "st' \<equiv> st\<lparr>sg_states := (sg_states st)(sg_next st \<mapsto> c), sg_next := sg_next st + 1\<rparr>"
  shows "store_ok kof (learn C st') st'" "learn C st' = C(sg_next st \<mapsto> map_of c)" "C \<subseteq>\<^sub>m learn C st'" "sg_states st \<subseteq>\<^sub>m sg_states st'"
    "0 < sg_next st"
proof -
  let ?x = "undefined :: state_ext"
  have "sh_inv kof ?x C [] (new_state_handler 1 st)"
    using st by (simp add: sh_inv_def new_state_handler_def xc.holds_def cache_valid_def new_expiring_cache_def cache_lookup_def trunc_def)
  note * = sh_inv_new_group [OF this c]
  show "store_ok kof (learn C st') st'" using sh_inv_store [OF *(1)] by (simp add: new_state_handler_def st'_def)
  show "learn C st' = C(sg_next st \<mapsto> map_of c)" "C \<subseteq>\<^sub>m learn C st'" "sg_states st \<subseteq>\<^sub>m sg_states st'" "0 < sg_next st"
    using *(2-4,6) by (simp_all add: new_state_handler_def st'_def)
qed

abbreviation persist_batched :: "event \<times> unpersisted_context \<Rightarrow> (event \<times> event_context) res" where
  "persist_batched \<equiv> \<lambda>(ev, u). bindR (build_state_group_deltas u) (\<lambda>ds. Inr (ev, with_state u ds))"

lemma batched_context:
  assumes "C b = Some w" "C a = Some (state_after ev w)" "0 < b" "0 < a" "uc_prev_group_for_state_group_before_event u = None"
    and "uc_state_group_before_event u = Some b" "uc_state_group_after_event u = Some a" "uc_state_delta_due_to_event u = Some (delta_of_event ev)"
  shows "\<exists>c. persist_batched (ev, u) = Inr (ev, c) \<and> context_ok C w ev c"
proof -
  have "based_on kof C w (uc_prev_group_for_state_group_before_event u) (uc_delta_ids_to_state_group_before_event u)" for kof
    using assms(5) by (simp add: based_on_def)
  from deltas_ok [OF assms(1-4,6-8) this] obtain ds where ds: "build_state_group_deltas u = Inr ds" "map_of ds (b, a) \<noteq> None"
    "\<forall>((p, q), d) \<in> set ds. \<exists>m. C p = Some m \<and> C q = Some (m ++ map_of d)" by blast
  then have "context_ok C w ev (with_state u ds)" using assms by (simp add: context_ok_def with_state_def)
  then show ?thesis using ds(1) by simp
qed

lemma batch_groups_ok:
  assumes "store_ok kof C st" "sg_states st g = Some m" "\<forall>p \<in> set ecs. batch_input_ok kof p" "batch_groups g st ecs = (st', out)"
  shows "C \<subseteq>\<^sub>m learn C st' \<and> sg_states st \<subseteq>\<^sub>m sg_states st' \<and>
    (\<exists>cs. mapR persist_batched out = Inr cs \<and> batch_ok (learn C st') (map_of m) cs \<and> map fst cs = map fst ecs)"
  using assms
proof (induction g st ecs arbitrary: C m st' out rule: batch_groups.induct)
  case (1 g st)
  then show ?case by simp
next
  case (2 g st ev u rest)
  note st = \<open>store_ok kof C st\<close> and m = \<open>sg_states st g = Some m\<close>
  have Cg: "C g = Some (map_of m)" "0 < g" using store_state [OF st m] st by (auto simp: store_ok_def)
  have u: "own_key kof ev" "uc_prev_group_for_state_group_before_event u = None"
    "ev_state_key ev = None \<longrightarrow> uc_state_delta_due_to_event u = Some []" using 2(5) by (simp_all add: batch_input_ok_def)
  show ?case
  proof (cases "ev_state_key ev")
    case None
    let ?u = "u\<lparr>uc_state_group_after_event := Some g, uc_state_group_before_event := Some g\<rparr>"
    obtain out' where o: "batch_groups g st rest = (st', out')" "out = (ev, ?u) # out'"
      using 2(6) None by (auto split: prod.splits)
    obtain cs where ih: "C \<subseteq>\<^sub>m learn C st'" "sg_states st \<subseteq>\<^sub>m sg_states st'" "mapR persist_batched out' = Inr cs"
      "batch_ok (learn C st') (map_of m) cs" "map fst cs = map fst rest"
      using 2(1) [OF None st m _ o(1)] 2(5) by auto
    have "\<exists>c. persist_batched (ev, ?u) = Inr (ev, c) \<and> context_ok C (map_of m) ev c"
      by (rule batched_context) (use Cg u None in \<open>simp_all add: state_after_def delta_of_event_def\<close>)
    then show ?thesis using ih o(2) context_ok_mono None by (fastforce simp: state_after_def)
  next
    case (Some k)
    let ?a = "sg_next st" and ?m = "dict_set (ev_type ev, k) (ev_event_id ev) m"
    let ?st = "st\<lparr>sg_states := (sg_states st)(?a \<mapsto> ?m), sg_next := ?a + 1\<rparr>"
    let ?u = "u\<lparr>uc_state_group_after_event := Some ?a, uc_state_group_before_event := Some g,
      uc_state_delta_due_to_event := Some [((ev_type ev, k), ev_event_id ev)]\<rparr>"
    obtain out' where o: "batch_groups ?a ?st rest = (st', out')" "out = (ev, ?u) # out'"
      using 2(6) Some m by (auto simp: Let_def split: prod.splits)
    have km: "keyed kof ?m" using store_state(2) [OF st m] u(1) Some by (simp add: keyed_dict_set own_key_def)
    note n = store_new_group [OF st km]
    let ?C = "learn C ?st"
    have "?C \<subseteq>\<^sub>m learn ?C st' \<and> sg_states ?st \<subseteq>\<^sub>m sg_states st' \<and>
      (\<exists>cs. mapR persist_batched out' = Inr cs \<and> batch_ok (learn ?C st') (map_of ?m) cs \<and> map fst cs = map fst rest)"
    proof -
      have "m = (case sg_states st g of None \<Rightarrow> [] | Some m \<Rightarrow> m)" using m by simp
      then show ?thesis by (rule 2(2) [OF Some refl _ refl n(1) _ _ o(1)]) (use 2(5) in simp_all)
    qed
    then obtain cs where ih: "?C \<subseteq>\<^sub>m learn ?C st'" "sg_states ?st \<subseteq>\<^sub>m sg_states st'" "mapR persist_batched out' = Inr cs"
      "batch_ok (learn ?C st') (map_of ?m) cs" "map fst cs = map fst rest" by blast
    have L: "learn ?C st' = learn C st'" by (rule learn_learn [OF ih(2)])
    have "\<exists>c. persist_batched (ev, ?u) = Inr (ev, c) \<and> context_ok ?C (map_of m) ev c"
      by (rule batched_context [where b = g and a = ?a])
        (use Cg u Some n(2,5) map_le_Some [OF n(3) Cg(1)] in \<open>simp_all add: state_after_def delta_of_event_def\<close>)
    moreover have "map_of ?m = state_after ev (map_of m)" using Some by (simp add: state_after_def)
    moreover have "C \<subseteq>\<^sub>m learn C st'" using map_le_trans [OF n(3) ih(1)] by (simp add: L)
    moreover have "sg_states st \<subseteq>\<^sub>m sg_states st'" by (rule map_le_trans [OF n(4) ih(2)])
    ultimately show ?thesis using ih o(2) context_ok_mono [OF _ ih(1)] by (auto simp: L)
  qed
qed

text \<open>The contexts of a batch describe the states along the chain of its events.\<close>

lemma batch_contexts_ok:
  assumes "store_ok kof C st" "sg_states st g = Some m" "\<forall>p \<in> set ecs. batch_input_ok kof p" "ecs \<noteq> []"
  shows "\<exists>cs st'. batch_persist_unpersisted_contexts g ecs st = (Inr cs, st') \<and> batch_ok (learn C st') (map_of m) cs \<and> map fst cs = map fst ecs"
proof -
  obtain st' out where o: "batch_groups g st ecs = (st', out)" by fastforce
  with batch_groups_ok [OF assms(1-3) o] show ?thesis
    using assms(2,4) by (auto simp: batch_persist_unpersisted_contexts_def store_state_deltas_for_batched_def bindE_def liftE_def)
qed

lemma dict_update_self: "dict_wf d \<Longrightarrow> dict_update [] d = d"
proof -
  have "dict_wf (acc @ d) \<Longrightarrow> dict_update acc d = acc @ d" for acc
  proof (induction d arbitrary: acc)
    case (Cons kv d)
    then have "dict_set (fst kv) (snd kv) acc = acc @ [kv]" by (intro trans [OF dict_set_new]) (auto simp: dict_wf_def)
    then show ?case using Cons.IH [of "acc @ [kv]"] Cons.prems by (simp add: dict_update_def case_prod_unfold)
  qed (simp add: dict_update_def)
  from this [of "[]"] show "dict_wf d \<Longrightarrow> dict_update [] d = d" by simp
qed

lemma decode_encode_state_dict: "(\<And>d. m = Some d \<Longrightarrow> dict_wf d) \<Longrightarrow> decode_state_dict (encode_state_dict m) = m"
  by (cases m) (simp_all add: decode_state_dict_def encode_state_dict_def o_def case_prod_unfold dict_update_self)

lemma decode_encode_deltas:
  assumes "\<forall>(k, d) \<in> set ds. dict_wf d"
  shows "decode_state_group_delta acc (encode_state_group_delta ds) = Inr (dict_update acc ds)"
  using assms
proof (induction ds arbitrary: acc)
  case (Cons e ds)
  obtain a b d where e: "e = ((a, b), d)" by (metis prod.exhaust)
  then show ?case using Cons decode_encode_state_dict [of "Some d"] by (simp add: encode_state_group_delta_def dict_update_def)
qed (simp add: encode_state_group_delta_def dict_update_def)

text \<open>A context arrives at another worker as it was sent.\<close>

lemma context_round_trip:
  assumes "dict_wf (ec_state_group_deltas c)" "\<forall>(k, d) \<in> set (ec_state_group_deltas c). dict_wf d"
    "\<And>d. ec_state_delta_due_to_event c = Some d \<Longrightarrow> dict_wf d"
    "\<And>i. ec_app_service c = Some i \<Longrightarrow> i \<noteq> [] \<and> get_app_service_by_id i = Some i"
  shows "deserialize get_app_service_by_id (serialize c) = Inr c"
  using assms
  by (cases "ec_app_service c") (auto simp: deserialize_def serialize_def decode_encode_deltas dict_update_self decode_encode_state_dict)

end
