(* ===== verification/Spec2Isabelle.thy ===== *)
theory Spec2Isabelle
  imports Event_Auth_Props Visibility_Props State_Res_Store State_Res_V1 Stream_Reading Change_Cache Ratelimit Presence_Devices
    Locks Retry Filtering State_Context
begin

text \<open>
  Verification of the core of Synapse, the Matrix homeserver (\<^verbatim>\<open>src/synapse\<close>, with the parts of
  \<^verbatim>\<open>src/rust\<close> it calls for events and room versions).

  \<^bold>\<open>The program.\<close> A room is a graph of events. When an event arrives from a client or another server,
  \<^verbatim>\<open>event_auth.py\<close> decides, against the state of the room before it, whether it is allowed; where the
  graph has several ends, \<^verbatim>\<open>state/v2.py\<close> resolves their states to one, calling the same rules again.
  The handler of \<^verbatim>\<open>state/__init__.py\<close> caches these resolutions and
  makes for each event a context with the state groups before and after it. A persisted event gets a position in a stream from \<^verbatim>\<open>storage/util/id_generators.py\<close>; readers of the
  stream (clients that sync, workers that replicate) hold tokens of \<^verbatim>\<open>types/__init__.py\<close>, page through
  tables between two tokens, and ask \<^verbatim>\<open>util/caches/stream_change_cache.py\<close> whether anything changed
  since. State is queried through the filters of \<^verbatim>\<open>types/state.py\<close>. Before an event leaves the server
  \<^verbatim>\<open>visibility.py\<close> decides who may see it and \<^verbatim>\<open>api/filtering.py\<close> what of it a client asked for;
  \<^verbatim>\<open>handlers/presence.py\<close> tracks who is there, and \<^verbatim>\<open>api/ratelimiting.py\<close>, which keeps its deadlines in
  \<^verbatim>\<open>util/wheel_timer.py\<close>, limits what a client may do. Requests to other servers go through the back-off of
  \<^verbatim>\<open>util/retryutils.py\<close>, and the locks of \<^verbatim>\<open>util/async_helpers.py\<close> order what may not overlap.

  \<^bold>\<open>Theories.\<close>

  \<^item> \<open>Prelude\<close>, \<open>Py_Values\<close>: Python exceptions as the values of \<open>py_error\<close>, statements that may raise as
    values of \<open>'a res\<close> sequenced by \<open>bindR\<close>, \<^verbatim>\<open>str\<close> and \<^verbatim>\<open>int\<close>, and decoded JSON with the Python operations
    the rules apply to it. Integers are unbounded as in Python; floats of event contents are rationals.
  \<^item> \<open>Ids\<close>: identifiers and server names (\<^verbatim>\<open>types/__init__.py\<close>, \<^verbatim>\<open>util/stringutils.py\<close>).
  \<^item> \<open>Events\<close>: room versions and the attributes of events, as a record. \<open>Event_Auth\<close>: one definition per
    function of \<^verbatim>\<open>event_auth.py\<close>, every raise a branch; \<open>Event_Auth_Props\<close>: the keys that
    \<^verbatim>\<open>auth_types_for_event\<close> selects suffice, and what an accepted join, kick, ban, power level change,
    redaction, third-party invite or message implies about the state and the auth events.
  \<^item> \<open>Visibility\<close>, \<open>Visibility_Props\<close>: \<^verbatim>\<open>visibility.py\<close> with \<^verbatim>\<open>rust/src/events/filter.rs\<close>. The exact
    conditions for one user, how the bulk check compares with it (sticky events are the difference), no
    leak through the filter for clients, with the events it returns unpruned, and the exact result of the
    filter for servers.
  \<^item> \<open>Overlay_Map\<close>: dictionaries and \<^verbatim>\<open>MutableOverlayMapping\<close> of \<^verbatim>\<open>util/__init__.py\<close>; the locale
    \<open>mutable_map\<close> is the contract of both.
  \<^item> \<open>Topo_Sort\<close>, \<open>State_Res\<close>, \<open>Auth_Diff\<close>, \<open>State_Res_Store\<close>, \<open>State_Res_Props\<close>: \<^verbatim>\<open>state/v2.py\<close>. The
    dictionary of fetched events, which the functions mutate, is threaded through a state monad with
    exceptions. The sort is correct and canonical, resolution returns when auth events form no cycle,
    is a fold of checked replacements over the conflicted events, keeps what the state sets agree on, and does not depend on the part of
    the base state that the code leaves out; the auth chain difference is the one of its definition.
  \<^item> \<open>State_Res_V1\<close>: \<^verbatim>\<open>state/v1.py\<close>, the resolution of room version 1: the result is one of the candidates for every key and
    does not depend on the order of the state sets.
  \<^item> \<open>State_Filter\<close>: \<^verbatim>\<open>StateFilter\<close> of \<^verbatim>\<open>types/state.py\<close>, every operation compared with the set of keys
    a filter contains.
  \<^item> \<open>Stream_Token\<close>, \<open>Id_Gen\<close>, \<open>Id_Gen_Props\<close>, \<open>Stream_Reading\<close>: tokens as vector clocks with their
    parsers and printers; the id generator as a step relation over its critical sections, interleaved
    with the sequence and other writers, with an invariant of the reachable states; the pages of receipts
    and sticky events over a table given as its rows, through the locale \<open>bounded_reader\<close>. In this theory
    the generator and the readers are put together: a token never covers a row that is still being written,
    unless another writer has announced its identifier as its own position (\<open>s_announced\<close> records these).
  \<^item> \<open>Change_Cache\<close>, \<open>Wheel_Timer\<close>, \<open>Ratelimit\<close>: the caches and timers. The change cache is compared with
    the history of changes that no invalidation has forgotten (\<open>kept\<close>), the wheel timer meets the locale \<open>expiry_queue\<close>, the rate limiter with
    its pruning is compared with one leaky bucket per key.
  \<^item> \<open>Presence\<close>, \<open>Presence_Props\<close>, \<open>Presence_Devices\<close>: the presence handler of \<^verbatim>\<open>handlers/presence.py\<close>, one
    definition per operation, and the histories of a handler with its table as an inductive relation. In the
    reachable states nobody on another server stays present without being heard of, a local user has the
    state of their most present device, a running sync of a device that is not offline keeps them present,
    and every state that is not yet written is known.
  \<^item> \<open>Locks\<close>: \<^verbatim>\<open>Linearizer\<close> and \<^verbatim>\<open>ReadWriteLock\<close> of \<^verbatim>\<open>util/async_helpers.py\<close> as step relations, a step the code
    between two waits, with cancellation: who holds a lock, in which order, and that nobody is forgotten.
  \<^item> \<open>Retry\<close>: the back-off from other servers, \<^verbatim>\<open>util/retryutils.py\<close> with its table of
    \<^verbatim>\<open>storage/databases/main/transactions.py\<close>, for requests that overlap and results and resets
    stored in any order.
  \<^item> \<open>Filtering\<close>: the filters of clients, \<^verbatim>\<open>api/filtering.py\<close>: what they keep, and that the shortcuts of the
    sync handler agree with them (but for a wildcard in the types of presence).
  \<^item> \<open>Expiring_Cache\<close>: \<^verbatim>\<open>util/caches/expiringcache.py\<close>, its bounds and what it forgets; the locale \<open>lossy_cache\<close> is what its
    users rely on.
  \<^item> \<open>State_Handler\<close>, \<open>State_Handler_Props\<close>, \<open>State_Context\<close>: \<^verbatim>\<open>state/__init__.py\<close> and \<^verbatim>\<open>events/snapshot.py\<close> over the state
    groups of \<^verbatim>\<open>storage/databases/state\<close>. The methods are functions on the state of the handler that give a
    result or an exception. In every history of requests the cached entries describe the states they were
    made for, and the groups of a context the state before and after its event; batches and the transport
    of contexts between workers.

  \<^bold>\<open>Interfaces.\<close> Each locale states what one component relies on another for, and is interpreted on the
  model of the provider: \<open>mutable_map\<close> (the overlays), \<open>min_queue\<close> (the functions of \<^verbatim>\<open>heapq\<close>, for
  the sort and for the id generator), \<open>vector_clock\<close> and \<open>advancing_clock\<close> (the tokens), \<open>bounded_reader\<close> (receipts, sticky events),
  \<open>lossy_cache\<close> (the expiring cache, for the state handler),
  \<open>expiry_queue\<close> (the wheel timer, for the rate limiter and for presence).

  \<^bold>\<open>Loops.\<close> Loops over a collection are structural recursion. The walks along auth events
  (\<open>add_chain_loop\<close>, \<open>mainline_loop\<close>, \<open>mainline_depth_loop\<close>, \<open>postorder_loop\<close>) need not end on arbitrary
  input and are partial functions with the value \<open>None\<close> for not returning; the theorems prove that they
  return when the auth events are well-founded. Other loops are functions with a termination proof. No
  fuel is used.

  \<^bold>\<open>Parameters.\<close> Code outside the models is an argument: the database as functions or lists of rows, the
  two Rust entry points of state resolution, redaction of events, signature checks, the length of
  canonical JSON, IPv6 addresses, \<^verbatim>\<open>matrix_common\<close>, the module callbacks. What a theorem needs of them is
  among its hypotheses, and its witness instantiates them.

  \<^bold>\<open>Simplifications.\<close> Characters above U+00FF are not represented. The rate limiter computes with exact
  rationals in place of floats. Messages of exceptions are kept without the values formatted into them.
  Logging, metrics and tracing are left out, and, except for the locks, so is the cancellation of a request
  while it waits.

  \<^bold>\<open>Not modelled.\<close> The SQL of \<^verbatim>\<open>storage/\<close> beyond the readers and the state groups named above, since its meaning is that of a
  database engine; the request handlers of \<^verbatim>\<open>handlers/\<close> other than presence, \<^verbatim>\<open>federation/\<close>, \<^verbatim>\<open>rest/\<close> and \<^verbatim>\<open>http/\<close>, which move data
  between storage and the network; configuration, start-up, replication between workers, metrics and logging; and the
  construction, hashing and signing of events, which is Rust code or cryptography.
\<close>

section \<open>Positions of the generator and readers of the stream\<close>

lemma reachable_steps: "gen_step\<^sup>*\<^sup>* s t \<Longrightarrow> gen_reachable s \<Longrightarrow> gen_reachable t"
  by (induction rule: rtranclp_induct) (auto intro: gen_reachable.step)

text \<open>The token of the stream in a reachable state, writer by writer.\<close>

lemma generator_token:
  assumes "gen_reachable s" "g_positive (s_gen s)"
  shows "\<exists>t. from_generator (get_current_token (s_gen s)) (get_positions (s_gen s)) = Inr t \<and> mw_wf t \<and>
    (\<forall>i. pos_of t i = (case map_of (g_current_positions (s_gen s)) i of
       None \<Rightarrow> g_persisted_upto_position (s_gen s) | Some p \<Rightarrow> max (g_persisted_upto_position (s_gen s)) p))"
proof -
  let ?g = "s_gen s"
  have rf: "return_factor ?g = 1" using assms(2) by (simp add: return_factor_def)
  have "dict_wf (g_current_positions ?g)"
    using reachable_inv [OF assms(1)] by (simp add: sys_inv_def gen_defs)
  moreover have "get_positions ?g = g_current_positions ?g"
    "get_current_token ?g = g_persisted_upto_position ?g"
    by (simp_all add: get_positions_def get_current_token_def get_persisted_upto_position_def rf)
  ultimately show ?thesis using from_generator_pos by metis
qed

lemma generator_token_mono:
  assumes "positions_le g h"
    and "\<forall>i. pos_of t i = (case map_of (g_current_positions g) i of
       None \<Rightarrow> g_persisted_upto_position g | Some p \<Rightarrow> max (g_persisted_upto_position g) p)"
    and "\<forall>i. pos_of t' i = (case map_of (g_current_positions h) i of
       None \<Rightarrow> g_persisted_upto_position h | Some p \<Rightarrow> max (g_persisted_upto_position h) p)"
  shows "mw_is_before_or_eq t t'"
  unfolding mw_is_before_or_eq_iff
proof
  fix i
  show "pos_of t i \<le> pos_of t' i"
    using assms by (cases "map_of (g_current_positions g) i")
      (fastforce simp: positions_le_def le_max_iff_disj split: option.splits)+
qed

lemma own_position_below:
  assumes "gen_reachable s" "x \<in> outstanding s - s_announced s"
    and "\<forall>i. pos_of t i = (case map_of (g_current_positions (s_gen s)) i of
       None \<Rightarrow> g_persisted_upto_position (s_gen s) | Some p \<Rightarrow> max (g_persisted_upto_position (s_gen s)) p)"
  shows "pos_of t (g_instance_name (s_gen s)) < x"
proof -
  have "below_all (outstanding s) (s_announced s) (s_gen s)"
    using reachable_inv [OF assms(1)] by (simp add: sys_inv_def gen_ok_def)
  then show ?thesis
    using assms(2,3) by (auto simp: below_all_def our_position_def dict_get_def split: option.splits)
qed

text \<open>C24: the positions of the generator and the readers of the stream. In every reachable state of a
  forward stream \<^verbatim>\<open>from_generator\<close> gives a valid token, and the tokens of later states are never before
  it. A row that this process is still writing, and whose identifier no other writer has announced as its
  own position (which a writer that starts up can do), is in no range that ends at that token, from
  wherever it is read; it is in the range from that token to a later one as soon as the later one covers
  it. Reading the stream in steps therefore never misses such a row that is committed late.\<close>

theorem stream_token_never_skips:
  assumes r: "gen_reachable s" and pos: "g_positive (s_gen s)" and st: "gen_step\<^sup>*\<^sup>* s s'"
  shows "\<exists>t t'. from_generator (get_current_token (s_gen s)) (get_positions (s_gen s)) = Inr t \<and>
    from_generator (get_current_token (s_gen s')) (get_positions (s_gen s')) = Inr t' \<and>
    mw_wf t \<and> mw_wf t' \<and> mw_is_before_or_eq t t' \<and>
    (\<forall>x \<in> outstanding s - s_announced s. \<forall>row :: 'd stream_row.
       row_stream_id row = x \<and> row_instance_name row = Some (g_instance_name (s_gen s)) \<longrightarrow>
       (\<forall>a. mw_wf a \<longrightarrow> \<not> in_bounds a t row) \<and>
       (in_bounds t t' row \<longleftrightarrow> x \<le> pos_of t' (g_instance_name (s_gen s))))"
proof -
  have le: "positions_le (s_gen s) (s_gen s')" using st by (rule positions_le_steps)
  then have "g_positive (s_gen s')" using pos by (simp add: positions_le_def)
  then obtain t t' where t: "from_generator (get_current_token (s_gen s)) (get_positions (s_gen s)) = Inr t" "mw_wf t"
      "\<forall>i. pos_of t i = (case map_of (g_current_positions (s_gen s)) i of
         None \<Rightarrow> g_persisted_upto_position (s_gen s) | Some p \<Rightarrow> max (g_persisted_upto_position (s_gen s)) p)"
    and t': "from_generator (get_current_token (s_gen s')) (get_positions (s_gen s')) = Inr t'" "mw_wf t'"
      "\<forall>i. pos_of t' i = (case map_of (g_current_positions (s_gen s')) i of
         None \<Rightarrow> g_persisted_upto_position (s_gen s') | Some p \<Rightarrow> max (g_persisted_upto_position (s_gen s')) p)"
    using generator_token [OF r pos] generator_token [OF reachable_steps [OF st r]] by blast
  show ?thesis
    using t t' generator_token_mono [OF le t(3) t'(3)] own_position_below [OF r _ t(3)]
    by (intro exI [of _ t] exI [of _ t']) (auto simp: in_bounds_between between_def token_at_def not_le)
qed

lemma stream_token_never_skips_witness:
  "gen_reachable example_writing \<and> 9 \<in> outstanding example_writing \<and>
   (\<exists>t. from_generator (get_current_token (s_gen example_writing)) (get_positions (s_gen example_writing)) = Inr t \<and>
      \<not> in_bounds m5 t \<lparr>row_stream_id = 9, row_instance_name = Some ''master'', row_data = ()\<rparr>)"
proof -
  have x: "9 \<in> outstanding example_writing"
    by (simp add: example_writing_def example_announced_def outstanding_def in_transit_def split: prod.split)
  have g: "g_instance_name (s_gen example_writing) = ''master''" "g_positive (s_gen example_writing)"
    "9 \<notin> s_announced example_writing"
    by (simp_all add: example_writing_def example_announced_def example_start_def begin_fetch_def Let_def gen_simps)
  show ?thesis
    using stream_token_never_skips [OF example_writing_reachable g(2) rtranclp.rtrancl_refl, where 'd = unit]
      example_writing_reachable x m5_m10_wf(1) g(1,3) by fastforce
qed


end
